(* ===== verification/C_Machine.thy ===== *)
theory C_Machine
  imports Main "HOL-Library.Word" "HOL-Library.Signed_Division"
begin

text \<open>
  The prelude of the development: the machine that the C sources of SzOS run on.

  \<^item> Fixed-width integers: \<open>u8\<close>, \<open>u16\<close>, \<open>u32\<close>, \<open>u64\<close> are words, whose arithmetic wraps as C's
    unsigned arithmetic does; a C \<open>int\<close> is an \<open>int\<close> kept in range by \<open>s32\<close>.
  \<^item> Memory is a total map from 32-bit addresses to bytes, little endian for wider accesses.
  \<^item> Port input and output is a history of accesses, newest first; what a port returns is decided
    by a \<open>device\<close>, a parameter of every definition that reads a port, because the hardware is not
    part of the sources.
  \<^item> Counted loops \<open>for (i = 0; i < n; i++)\<close> and \<open>for (i = n; i != 0; i--)\<close> are \<open>for_up\<close> and
    \<open>for_down\<close>, with their induction and invariant rules.
  \<^item> The decimal numerals that three of the sources compute by repeated division.
\<close>

unbundle bit_operations_syntax

named_theorems c_simps
  \<open>evaluation rules for memory accesses, port accesses and counted loops\<close>

section \<open>Fixed-width integers\<close>

type_synonym u8 = "8 word"
type_synonym u16 = "16 word"
type_synonym u32 = "32 word"
type_synonym u64 = "64 word"

definition s32 :: "int \<Rightarrow> int" where
  "s32 x = signed_take_bit 31 x"

lemma s32_id [simp]: "- 2147483648 \<le> x \<Longrightarrow> x < 2147483648 \<Longrightarrow> s32 x = x"
  by (simp add: s32_def signed_take_bit_int_eq_self_iff)

lemma s32_range: "- 2147483648 \<le> s32 x \<and> s32 x < 2147483648"
  using signed_take_bit_int_greater_eq_minus_exp [of 31 x]
    signed_take_bit_int_less_exp [of 31 x] by (simp add: s32_def)

lemma unat_of_nat_u32 [simp]: "n < 4294967296 \<Longrightarrow> unat (of_nat n :: u32) = n"
  by (simp add: unat_of_nat)

lemma unat_u32_less [simp]: "unat (x :: u32) < 4294967296"
  using unsigned_less [of x] by simp

lemma unat_u16_less [simp]: "unat (x :: u16) < 65536"
  using unsigned_less [of x] by simp

lemma unat_u8_less [simp]: "unat (x :: u8) < 256"
  using unsigned_less [of x] by simp

lemma u32_eq_iff_unat: "(x :: u32) = y \<longleftrightarrow> unat x = unat y"
  by (simp add: word_eq_iff_unsigned)

lemma u8_eq_iff_unat: "(x :: u8) = y \<longleftrightarrow> unat x = unat y"
  by (simp add: word_eq_iff_unsigned)

lemma unat_word_of_int_u8: "unat (word_of_int k :: u8) = nat (k mod 256)"
  by (simp add: unsigned_of_int take_bit_eq_mod)

lemma unat_word_of_int_u32: "unat (word_of_int k :: u32) = nat (k mod 4294967296)"
  by (simp add: unsigned_of_int take_bit_eq_mod)

lemma unat_word_of_int_u64: "0 \<le> k \<Longrightarrow> k < 2 ^ 64 \<Longrightarrow> unat (word_of_int k :: u64) = nat k"
  by (simp add: unsigned_of_int take_bit_int_eq_self [of k 64])

lemma of_nat_unat_u32 [simp]: "(of_nat (unat x) :: u32) = x"
  by simp

lemma u32_add_of_nat_diff: "(a :: u32) = p + of_nat (unat (a - p))"
  by simp

lemma unat_and_not_mask:
  "unat (x AND NOT (mask k) :: u32) = 2 ^ k * (unat x div 2 ^ k)"
proof -
  have "x AND NOT (mask k) = push_bit k (drop_bit k x)"
    by (intro bit_word_eqI) (auto simp: bit_simps)
  then have "unat (x AND NOT (mask k)) = take_bit 32 (push_bit k (unat (drop_bit k x)))"
    by (simp add: unsigned_push_bit_eq)
  also have "\<dots> = take_bit 32 (2 ^ k * (unat x div 2 ^ k))"
    by (simp only: unat_drop_bit_eq) (simp add: push_bit_eq_mult drop_bit_eq_div mult.commute)
  also have "\<dots> = 2 ^ k * (unat x div 2 ^ k)"
    by (simp add: take_bit_nat_eq_self_iff) (meson le_less_trans times_div_less_eq_dividend unat_u32_less)
  finally show ?thesis .
qed

lemma and_FFFF: "x AND 0xFFFF = take_bit 16 (x :: 'a::len word)"
  by (simp add: take_bit_eq_mask mask_eq_exp_minus_1)

lemma and_FF: "x AND 0xFF = take_bit 8 (x :: 'a::len word)"
  by (simp add: take_bit_eq_mask mask_eq_exp_minus_1)

lemma unat_less_bits: "unat (w :: u32) < 2 ^ n \<longleftrightarrow> (\<forall>j\<ge>n. \<not> bit w j)"
proof
  assume a: "unat w < 2 ^ n"
  show "\<forall>j\<ge>n. \<not> bit w j"
  proof (intro allI impI)
    fix j
    assume "n \<le> j"
    with a have "unat w < 2 ^ j" by (meson order.strict_trans2 one_le_numeral power_increasing)
    then have "\<not> bit (unat w) j" by (simp add: bit_iff_odd)
    then show "\<not> bit w j" using bit_imp_le_length [of w j] by (auto simp: bit_unsigned_iff)
  qed
next
  assume "\<forall>j\<ge>n. \<not> bit w j"
  then have "take_bit n w = w" by (intro bit_word_eqI) (auto simp: bit_take_bit_iff not_le)
  then have "unat w = take_bit n (unat w)" by (metis unsigned_take_bit_eq)
  then show "unat w < 2 ^ n" by (metis take_bit_nat_less_exp)
qed

lemma split_address:
  "push_bit 16 (ucast (ucast (drop_bit 16 a AND 0xFFFF) :: u16)) OR ucast (ucast (a AND 0xFFFF) :: u16) = (a :: u32)"
  unfolding and_FFFF by (intro bit_word_eqI) (auto simp: bit_simps)

section \<open>Memory\<close>

type_synonym mem = "u32 \<Rightarrow> u8"

definition in_region :: "u32 \<Rightarrow> u32 \<Rightarrow> nat \<Rightarrow> bool" where
  "in_region a p n \<longleftrightarrow> unat (a - p) < n"

definition unchanged_outside :: "u32 \<Rightarrow> nat \<Rightarrow> mem \<Rightarrow> mem \<Rightarrow> bool" where
  "unchanged_outside p n m m' \<longleftrightarrow> (\<forall>a. \<not> in_region a p n \<longrightarrow> m' a = m a)"

definition no_wrap :: "u32 \<Rightarrow> nat \<Rightarrow> bool" where
  "no_wrap p n \<longleftrightarrow> unat p + n \<le> 4294967296"

lemma in_region_offset [simp]: "i < 4294967296 \<Longrightarrow> in_region (p + of_nat i) p n \<longleftrightarrow> i < n"
  by (simp add: in_region_def)

lemma in_regionI: "unat p \<le> unat a \<Longrightarrow> unat a < unat p + n \<Longrightarrow> in_region a p n"
  by (simp add: in_region_def unat_sub_if')

lemma unchanged_outsideD: "unchanged_outside p n m m' \<Longrightarrow> \<not> in_region a p n \<Longrightarrow> m' a = m a"
  by (simp add: unchanged_outside_def)

lemma unchanged_outside_refl [simp]: "unchanged_outside p n m m"
  by (simp add: unchanged_outside_def)

lemma unchanged_outside_trans:
  "unchanged_outside p n m m' \<Longrightarrow> unchanged_outside p n m' m'' \<Longrightarrow> unchanged_outside p n m m''"
  by (simp add: unchanged_outside_def)

lemma unat_offset: "no_wrap p n \<Longrightarrow> i < n \<Longrightarrow> unat (p + of_nat i) = unat p + i"
  by (simp add: no_wrap_def unat_word_ariths unat_of_nat)

lemma offset_inject: "i < 4294967296 \<Longrightarrow> j < 4294967296 \<Longrightarrow>
    (p + of_nat i = p + of_nat j) = (i = (j :: nat))" for p :: u32
  by (metis add_left_cancel unat_of_nat_u32)

definition store16 :: "u32 \<Rightarrow> u16 \<Rightarrow> mem \<Rightarrow> mem" where
  "store16 a v m = m(a := ucast v, a + 1 := ucast (drop_bit 8 v))"

definition load16 :: "mem \<Rightarrow> u32 \<Rightarrow> u16" where
  "load16 m a = ucast (m a) OR push_bit 8 (ucast (m (a + 1)))"

lemma load16_store16 [c_simps]: "load16 (store16 a v m) a = v"
  unfolding load16_def store16_def
  by (intro bit_word_eqI) (auto simp: bit_simps)

lemma load16_store16_other:
  assumes "a \<noteq> b" and "a \<noteq> b + 1" and "a + 1 \<noteq> b"
  shows "load16 (store16 a v m) b = load16 m b"
  using assms by (auto simp: load16_def store16_def)

lemma store16_outside: "b \<noteq> a \<Longrightarrow> b \<noteq> a + 1 \<Longrightarrow> store16 a v m b = m b"
  by (simp add: store16_def)

section \<open>Strings\<close>

text \<open>
  A C string that is only read is the list of its bytes without the terminating zero. \<open>cstr\<close> is a
  string literal.
\<close>

definition cstr :: "string \<Rightarrow> u8 list" where
  "cstr s = map of_char s"

section \<open>Counted loops\<close>

definition for_up :: "nat \<Rightarrow> (nat \<Rightarrow> 's \<Rightarrow> 's) \<Rightarrow> 's \<Rightarrow> 's" where
  "for_up n body s = fold body [0..<n] s"

definition for_down :: "nat \<Rightarrow> (nat \<Rightarrow> 's \<Rightarrow> 's) \<Rightarrow> 's \<Rightarrow> 's" where
  "for_down n body s = fold body (rev [0..<n]) s"

lemma for_up_0 [simp]: "for_up 0 body s = s"
  by (simp add: for_up_def)

lemma for_up_Suc [c_simps]: "for_up (Suc n) body s = body n (for_up n body s)"
  by (simp add: for_up_def)

lemma for_down_0 [simp]: "for_down 0 body s = s"
  by (simp add: for_down_def)

lemma for_down_Suc [c_simps]: "for_down (Suc n) body s = for_down n body (body n s)"
  by (simp add: for_down_def)

lemma for_up_add: "for_up (a + b) f s = for_up b (\<lambda>i. f (a + i)) (for_up a f s)"
  by (induction b) (simp_all add: for_up_Suc)

lemma for_up_nested: "for_up n (\<lambda>k. for_up w (\<lambda>i. f (w * k + i))) s = for_up (w * n) f s"
proof (induction n)
  case (Suc n)
  have "for_up (w * Suc n) f s = for_up w (\<lambda>i. f (w * n + i)) (for_up (w * n) f s)"
    using for_up_add [of "w * n" w f s] by (simp add: add.commute)
  with Suc show ?case by (simp add: for_up_Suc)
qed simp

lemma for_up_cong: "(\<And>i s. i < n \<Longrightarrow> f i s = g i s) \<Longrightarrow> for_up n f s = for_up n g s"
  by (induction n) (simp_all add: for_up_Suc)

lemma for_up_invariant:
  assumes "I 0 s" and "\<And>i s. i < n \<Longrightarrow> I i s \<Longrightarrow> I (Suc i) (body i s)"
  shows "I n (for_up n body s)"
  using assms(2) by (induction n) (auto simp: for_up_Suc assms(1))

lemma for_up_keeps: "(\<And>i s. f (body i s) = f s) \<Longrightarrow> f (for_up n body s) = f s"
  by (induction n) (simp_all add: for_up_Suc)

text \<open>A sequence of statements \<open>f; g; h\<close> on one state.\<close>

definition steps :: "('s \<Rightarrow> 's) list \<Rightarrow> 's \<Rightarrow> 's" where
  "steps fs s = fold (\<lambda>f. f) fs s"

lemma steps_simps [simp]: "steps [] s = s" "steps (f # fs) s = steps fs (f s)"
  by (simp_all add: steps_def)

section \<open>Port input and output\<close>

datatype io_event = Out u16 u8 | In u16 u8

type_synonym device = "io_event list \<Rightarrow> u16 \<Rightarrow> u8"

record machine =
  mem :: mem
  ports :: "io_event list"

definition writes_to :: "u16 \<Rightarrow> io_event list \<Rightarrow> u8 list" where
  "writes_to p h = rev (List.map_filter
     (\<lambda>e. case e of Out q v \<Rightarrow> if q = p then Some v else None | In q v \<Rightarrow> None) h)"

text \<open>The bytes written to one port, oldest first.\<close>

lemma writes_to_simps [simp]:
  "writes_to p [] = []"
  "writes_to p (Out q v # h) = writes_to p h @ (if q = p then [v] else [])"
  "writes_to p (In q v # h) = writes_to p h"
  by (simp_all add: writes_to_def List.map_filter_simps)

section \<open>Decimal numerals\<close>

fun decimal :: "nat \<Rightarrow> nat list" where
  "decimal n = (if n < 10 then [n] else decimal (n div 10) @ [n mod 10])"

declare decimal.simps [simp del]

definition numeral_value :: "nat list \<Rightarrow> nat" where
  "numeral_value ds = foldl (\<lambda>v d. 10 * v + d) 0 ds"

lemma decimal_less_10: "d \<in> set (decimal n) \<Longrightarrow> d < 10"
proof (induction n rule: decimal.induct)
  case (1 n)
  then show ?case by (cases "n < 10") (auto simp: decimal.simps [of n])
qed

lemma decimal_not_Nil [simp]: "decimal n \<noteq> []"
  by (simp add: decimal.simps [of n])

lemma numeral_value_snoc [simp]: "numeral_value (ds @ [d]) = 10 * numeral_value ds + d"
  by (simp add: numeral_value_def)

lemma numeral_value_decimal [simp]: "numeral_value (decimal n) = n"
proof (induction n rule: decimal.induct)
  case (1 n)
  then show ?case
    by (cases "n < 10") (simp_all add: decimal.simps [of n], simp add: numeral_value_def)
qed

lemma decimal_length_le: "0 < k \<Longrightarrow> n < 10 ^ k \<Longrightarrow> length (decimal n) \<le> k"
proof (induction n arbitrary: k rule: decimal.induct)
  case (1 n)
  show ?case
  proof (cases "n < 10")
    case True
    with 1 show ?thesis by (simp add: decimal.simps [of n])
  next
    case False
    with 1(2,3) obtain j where j: "k = Suc j" "0 < j"
      by (cases k; cases "k - 1") auto
    with 1(3) have "n div 10 < 10 ^ j" by (simp add: less_mult_imp_div_less)
    with 1(1) [OF False j(2)] False j show ?thesis by (simp add: decimal.simps [of n])
  qed
qed

text \<open>The ASCII character of a digit.\<close>

definition digit_char :: "nat \<Rightarrow> u8" where
  "digit_char d = of_nat (48 + d)"

lemma digit_char_no_tab: "9 \<notin> digit_char ` set (decimal n)"
proof
  assume "9 \<in> digit_char ` set (decimal n)"
  then obtain d where d: "d \<in> set (decimal n)" "digit_char d = 9" by auto
  from d(1) have "d < 10" by (rule decimal_less_10)
  then have "unat (digit_char d) = 48 + d"
    by (simp add: digit_char_def unat_of_nat del: of_nat_add)
  with d(2) show False by simp
qed

lemma digit_char_word: "0 \<le> d \<Longrightarrow> word_of_int (d + 48) = digit_char (nat d)"
  by (simp add: digit_char_def of_nat_nat add.commute)

text \<open>One step of the division loops that three sources use to find the digits of a 32-bit number.\<close>

lemma u32_digit_step:
  fixes n :: u32
  shows "48 + ucast (n mod 10) = digit_char (unat n mod 10)" "unat (n div 10) = unat n div 10"
    "n div 10 = 0 \<longleftrightarrow> unat n < 10"
proof -
  have "digit_char (unat n mod 10) = 48 + of_nat (unat n mod 10)" by (simp add: digit_char_def)
  also have "of_nat (unat n mod 10) = (ucast (n mod 10) :: u8)"
    using of_nat_unat [of "n mod 10"] by (simp add: unat_mod_distrib)
  finally show "48 + ucast (n mod 10) = digit_char (unat n mod 10)" by simp
  show q: "unat (n div 10) = unat n div 10" by (simp add: unat_div_distrib)
  show "n div 10 = 0 \<longleftrightarrow> unat n < 10" using q by (auto simp: u32_eq_iff_unat div_eq_0_iff)
qed

end
