(* ===== verification/Interfaces.thy ===== *)
theory Interfaces
  imports C_Machine
begin

text \<open>
  The interfaces between the components, as locales. Each locale fixes the operations a client calls,
  assumes the laws the provider promises, and proves the client's lemmas once; the theory of the
  component that provides the operations interprets it on the model's own definitions.

  \<^item> \<open>char_sink\<close>: a device that takes characters one by one (a terminal).
  \<^item> \<open>bounded_fifo\<close>: a first-in first-out queue that drops its oldest element when it is full.
  \<^item> \<open>gate_table\<close>: an interrupt descriptor table whose gates are set one by one.
  \<^item> \<open>irq_mask_ctl\<close>: the operations that mask and unmask one interrupt line.
  \<^item> \<open>bump_allocator\<close>: a memory allocator that hands out rising addresses and never takes them back.
  \<^item> \<open>translation_table\<close>: a table of bounded size that translates codes, one entry per translated code.
\<close>

section \<open>Character sinks\<close>

text \<open>A string written character by character; a character whose output never ends stops it.\<close>

primrec write_chars :: "(u8 \<Rightarrow> 's \<Rightarrow> 's option) \<Rightarrow> u8 list \<Rightarrow> 's \<Rightarrow> 's option" where
  "write_chars put [] s = Some s"
| "write_chars put (c # cs) s = Option.bind (put c s) (write_chars put cs)"

lemma write_chars_append:
  "write_chars put (xs @ ys) s = Option.bind (write_chars put xs s) (write_chars put ys)"
  by (induction xs arbitrary: s) (auto split: bind_splits)

lemma write_chars_total: "write_chars (\<lambda>c s. Some (f c s)) xs s = Some (fold f xs s)"
  by (induction xs arbitrary: s) simp_all

locale char_sink =
  fixes put :: "u8 \<Rightarrow> 's \<Rightarrow> 's option"
    and inv :: "'s \<Rightarrow> bool"
    and frame :: "'s \<Rightarrow> 's \<Rightarrow> bool"
    and abs :: "'s \<Rightarrow> 'a"
    and aput :: "u8 \<Rightarrow> 'a \<Rightarrow> 'a option"
    and hang :: "u8 set"
  assumes put_inv: "inv s \<Longrightarrow> put c s = Some s' \<Longrightarrow> inv s'"
    and put_frame: "inv s \<Longrightarrow> put c s = Some s' \<Longrightarrow> frame s s'"
    and put_abs: "inv s \<Longrightarrow> map_option abs (put c s) = aput c (abs s)"
    and put_returns: "inv s \<Longrightarrow> c \<notin> hang \<Longrightarrow> put c s \<noteq> None"
    and frame_refl: "frame s s"
    and frame_trans: "frame s t \<Longrightarrow> frame t u \<Longrightarrow> frame s u"
begin

lemma write_inv: "inv s \<Longrightarrow> write_chars put cs s = Some s' \<Longrightarrow> inv s'"
  by (induction cs arbitrary: s) (auto simp: bind_eq_Some_conv dest: put_inv)

lemma write_frame: "inv s \<Longrightarrow> write_chars put cs s = Some s' \<Longrightarrow> frame s s'"
proof (induction cs arbitrary: s)
  case Nil
  then show ?case by (simp add: frame_refl)
next
  case (Cons c cs)
  then show ?case
    by (auto simp: bind_eq_Some_conv intro: frame_trans dest: put_inv put_frame)
qed

lemma write_abs: "inv s \<Longrightarrow> map_option abs (write_chars put cs s) = write_chars aput cs (abs s)"
proof (induction cs arbitrary: s)
  case Nil
  show ?case by simp
next
  case (Cons c cs)
  show ?case
  proof (cases "put c s")
    case None
    with put_abs [OF Cons.prems, of c] show ?thesis by simp
  next
    case (Some t)
    with put_abs [OF Cons.prems, of c] Cons.IH [of t] put_inv [OF Cons.prems Some]
    show ?thesis by (simp add: eq_commute [of _ "aput c (abs s)"])
  qed
qed

lemma write_returns:
  assumes "inv s" and "set cs \<inter> hang = {}"
  obtains s' where "write_chars put cs s = Some s'" "inv s'" "frame s s'"
    "write_chars aput cs (abs s) = Some (abs s')"
proof -
  have "write_chars put cs s \<noteq> None"
    using assms
  proof (induction cs arbitrary: s)
    case (Cons c cs)
    then obtain t where "put c s = Some t" using put_returns [of s c] by auto
    with Cons put_inv [OF Cons.prems(1)] show ?case by auto
  qed simp
  then obtain s' where s': "write_chars put cs s = Some s'" by blast
  show thesis
  proof (rule that)
    show "write_chars put cs s = Some s'" by (rule s')
    show "inv s'" "frame s s'" using assms(1) s' by (auto intro: write_inv write_frame)
    show "write_chars aput cs (abs s) = Some (abs s')"
      using write_abs [OF assms(1), of cs] s' by simp
  qed
qed

end

section \<open>Interrupt masks\<close>

locale irq_mask_ctl =
  fixes mask :: "u8 \<Rightarrow> 's \<Rightarrow> 's"
    and unmask :: "u8 \<Rightarrow> 's \<Rightarrow> 's"
    and masked :: "'s \<Rightarrow> u8 \<Rightarrow> bool"
    and ready :: "'s \<Rightarrow> bool"
  assumes ready_mask: "ready s \<Longrightarrow> i < 16 \<Longrightarrow> ready (mask i s)"
    and ready_unmask: "ready s \<Longrightarrow> i < 16 \<Longrightarrow> ready (unmask i s)"
    and masked_mask: "ready s \<Longrightarrow> i < 16 \<Longrightarrow> j < 16 \<Longrightarrow> masked (mask i s) j \<longleftrightarrow> j = i \<or> masked s j"
    and masked_unmask: "ready s \<Longrightarrow> i < 16 \<Longrightarrow> j < 16 \<Longrightarrow> masked (unmask i s) j \<longleftrightarrow> j \<noteq> i \<and> masked s j"
begin

lemma mask_unmask_restores:
  assumes "ready s" "i < 16" "j < 16" "\<not> masked s i"
  shows "masked (unmask i (mask i s)) j = masked s j"
  using assms by (auto simp: masked_unmask masked_mask ready_mask)

lemma fold_mask:
  assumes "ready s" "\<forall>i \<in> set is. i < 16"
  shows "ready (fold mask is s) \<and>
    (\<forall>j < 16. masked (fold mask is s) j \<longleftrightarrow> j \<in> set is \<or> masked s j)"
  using assms by (induction "is" arbitrary: s) (auto simp: masked_mask ready_mask)

lemma only_unmasked:
  assumes "ready s" "\<forall>i \<in> set is. i < 16" "\<forall>j < 16. j \<in> set is" "i < 16" "j < 16"
  shows "masked (unmask i (fold mask is s)) j \<longleftrightarrow> j \<noteq> i"
  using fold_mask [OF assms(1,2)] assms(3-5) by (auto simp: masked_unmask)

end

section \<open>Gate tables\<close>

locale gate_table =
  fixes set_gate :: "nat \<Rightarrow> 'h \<Rightarrow> 't \<Rightarrow> 't"
    and gate_of :: "'t \<Rightarrow> nat \<Rightarrow> 'g option"
    and gate :: "'h \<Rightarrow> 'g"
    and wf :: "'t \<Rightarrow> bool"
  assumes wf_set: "wf t \<Longrightarrow> n < 256 \<Longrightarrow> wf (set_gate n h t)"
    and gate_of_set: "wf t \<Longrightarrow> n < 256 \<Longrightarrow> m < 256 \<Longrightarrow>
      gate_of (set_gate n h t) m = (if m = n then Some (gate h) else gate_of t m)"
begin

text \<open>A run of gates set for the vectors \<open>b\<close> to \<open>b + k - 1\<close>.\<close>

lemma install_range:
  assumes "wf t" and "b + k \<le> 256"
  shows "wf (for_up k (\<lambda>i. set_gate (b + i) (h i)) t) \<and>
    (\<forall>m < 256. gate_of (for_up k (\<lambda>i. set_gate (b + i) (h i)) t) m =
      (if b \<le> m \<and> m < b + k then Some (gate (h (m - b))) else gate_of t m))"
  using assms(2)
proof (induction k)
  case 0
  with assms(1) show ?case by auto
next
  case (Suc k)
  then show ?case
    by (auto simp: for_up_Suc wf_set gate_of_set less_Suc_eq)
qed

end

section \<open>Bounded queues\<close>

text \<open>The last \<open>n\<close> elements of a list, and \<open>n\<close> reads in a row.\<close>

definition last_n :: "nat \<Rightarrow> 'x list \<Rightarrow> 'x list" where
  "last_n n xs = drop (length xs - n) xs"

primrec reads :: "('s \<Rightarrow> ('x \<times> 's) option) \<Rightarrow> nat \<Rightarrow> 's \<Rightarrow> ('x list \<times> 's) option" where
  "reads pop 0 s = Some ([], s)"
| "reads pop (Suc n) s =
     Option.bind (pop s) (\<lambda>(x, t). map_option (\<lambda>(xs, u). (x # xs, u)) (reads pop n t))"

locale bounded_fifo =
  fixes push :: "'x \<Rightarrow> 's \<Rightarrow> 's"
    and pop :: "'s \<Rightarrow> ('x \<times> 's) option"
    and contents :: "'s \<Rightarrow> 'x list"
    and inv :: "'s \<Rightarrow> bool"
    and cap :: nat
  assumes inv_push: "inv s \<Longrightarrow> inv (push x s)"
    and inv_pop: "inv s \<Longrightarrow> pop s = Some (x, t) \<Longrightarrow> inv t"
    and contents_push: "inv s \<Longrightarrow> contents (push x s) = last_n cap (contents s @ [x])"
    and pop_empty: "inv s \<Longrightarrow> contents s = [] \<Longrightarrow> pop s = None"
    and pop_first: "inv s \<Longrightarrow> contents s = x # xs \<Longrightarrow> \<exists>t. pop s = Some (x, t) \<and> contents t = xs"
    and contents_le: "inv s \<Longrightarrow> length (contents s) \<le> cap"
begin

lemma last_n_last_n: "last_n cap (last_n cap xs @ ys) = last_n cap (xs @ ys)"
proof (cases "length xs \<le> cap")
  case True
  then show ?thesis by (simp add: last_n_def)
next
  case False
  then have "length xs - cap \<le> length xs + length ys - cap" by simp
  with False show ?thesis by (simp add: last_n_def add.commute)
qed

lemma push_all:
  assumes "inv s"
  shows "inv (fold push xs s) \<and> contents (fold push xs s) = last_n cap (contents s @ xs)"
  using assms
proof (induction xs arbitrary: s)
  case Nil
  then show ?case by (simp add: last_n_def contents_le)
next
  case (Cons x xs)
  then show ?case
    using last_n_last_n [of "contents s @ [x]" xs] by (simp add: inv_push contents_push)
qed

lemma read_all:
  assumes "inv s"
  shows "\<exists>t. reads pop (length (contents s)) s = Some (contents s, t) \<and> inv t \<and> contents t = [] \<and> pop t = None"
  using assms
proof (induction "contents s" arbitrary: s)
  case Nil
  then show ?case by (auto simp: pop_empty)
next
  case (Cons x xs)
  then obtain t where t: "pop s = Some (x, t)" "contents t = xs" using pop_first by metis
  with Cons inv_pop have "inv t" by blast
  with Cons.hyps(1) [of t] t Cons.hyps(2) show ?case by (auto simp: Cons.hyps(2) [symmetric])
qed

lemma push_all_read_all:
  assumes "inv s" and "contents s = []"
  shows "\<exists>t. reads pop (length (last_n cap xs)) (fold push xs s) = Some (last_n cap xs, t) \<and> pop t = None"
  using push_all [OF assms(1), of xs] read_all [of "fold push xs s"] assms(2) by auto

end

section \<open>Bump allocators\<close>

text \<open>Allocations in a row, with the start and the size of each block.\<close>

primrec alloc_all :: "('n \<Rightarrow> 's \<Rightarrow> (nat \<times> 's) option) \<Rightarrow> ('n \<Rightarrow> nat) \<Rightarrow> 'n list \<Rightarrow> 's \<Rightarrow> ((nat \<times> nat) list \<times> 's) option" where
  "alloc_all alloc bytes [] s = Some ([], s)"
| "alloc_all alloc bytes (n # ns) s =
     Option.bind (alloc n s) (\<lambda>(p, t).
       map_option (\<lambda>(bs, u). ((p, bytes n) # bs, u)) (alloc_all alloc bytes ns t))"

text \<open>Blocks that follow one another between two addresses: disjoint, in rising order.\<close>

fun blocks_within :: "nat \<Rightarrow> nat \<Rightarrow> (nat \<times> nat) list \<Rightarrow> bool" where
  "blocks_within lo hi [] \<longleftrightarrow> lo \<le> hi"
| "blocks_within lo hi ((p, n) # bs) \<longleftrightarrow> lo \<le> p \<and> blocks_within (p + n) hi bs"

lemma blocks_within_bounds:
  "blocks_within lo hi bs \<Longrightarrow> lo \<le> hi \<and> (\<forall>(p, n) \<in> set bs. lo \<le> p \<and> p + n \<le> hi)"
proof (induction lo hi bs rule: blocks_within.induct)
  case (2 lo hi p n bs)
  then have "lo \<le> p" "p + n \<le> hi" "\<forall>(q, k) \<in> set bs. p + n \<le> q \<and> q + k \<le> hi" by simp_all
  then show ?case by fastforce
qed simp

lemma blocks_within_mono: "lo' \<le> lo \<Longrightarrow> blocks_within lo hi bs \<Longrightarrow> blocks_within lo' hi bs"
  by (cases bs) auto

locale bump_allocator =
  fixes alloc :: "'n \<Rightarrow> 's \<Rightarrow> (nat \<times> 's) option"
    and bytes :: "'n \<Rightarrow> nat"
    and ok :: "'n \<Rightarrow> bool"
    and inv :: "'s \<Rightarrow> bool"
    and bottom :: "'s \<Rightarrow> nat"
    and top :: "'s \<Rightarrow> nat"
    and aligned :: "nat \<Rightarrow> bool"
  assumes inv_alloc: "inv s \<Longrightarrow> ok n \<Longrightarrow> alloc n s = Some (p, t) \<Longrightarrow> inv t"
    and alloc_low: "inv s \<Longrightarrow> ok n \<Longrightarrow> alloc n s = Some (p, t) \<Longrightarrow> bottom s \<le> p"
    and alloc_high: "inv s \<Longrightarrow> ok n \<Longrightarrow> alloc n s = Some (p, t) \<Longrightarrow> p + bytes n \<le> bottom t"
    and alloc_top: "inv s \<Longrightarrow> ok n \<Longrightarrow> alloc n s = Some (p, t) \<Longrightarrow> top t = top s"
    and alloc_aligned: "inv s \<Longrightarrow> ok n \<Longrightarrow> alloc n s = Some (p, t) \<Longrightarrow> aligned p"
    and bottom_le: "inv s \<Longrightarrow> bottom s \<le> top s"
begin

lemma alloc_all_blocks:
  assumes "inv s" "\<forall>n \<in> set ns. ok n" "alloc_all alloc bytes ns s = Some (bs, t)"
  shows "inv t \<and> top t = top s \<and> blocks_within (bottom s) (bottom t) bs \<and>
    (\<forall>(p, n) \<in> set bs. aligned p) \<and> map snd bs = map bytes ns"
  using assms
proof (induction ns arbitrary: s bs)
  case Nil
  then show ?case by simp
next
  case (Cons n ns)
  then obtain p u bs' where u: "alloc n s = Some (p, u)" "alloc_all alloc bytes ns u = Some (bs', t)"
    "bs = (p, bytes n) # bs'"
    by (auto simp: bind_eq_Some_conv)
  note n = Cons.prems(1) Cons.prems(2) [simplified, THEN conjunct1] u(1)
  have "inv u" by (rule inv_alloc [OF n])
  with Cons.IH [OF this _ u(2)] Cons.prems(2) u(3) alloc_low [OF n] alloc_high [OF n] alloc_top [OF n]
    alloc_aligned [OF n] show ?case
    by (auto intro: blocks_within_mono)
qed

end

section \<open>Translation tables\<close>

primrec set_all :: "('k \<Rightarrow> 'k \<Rightarrow> 'm \<Rightarrow> 'm option) \<Rightarrow> ('k \<times> 'k) list \<Rightarrow> 'm \<Rightarrow> 'm option" where
  "set_all set_entry [] m = Some m"
| "set_all set_entry (p # ps) m = Option.bind (set_entry (fst p) (snd p) m) (set_all set_entry ps)"

locale translation_table =
  fixes set_entry :: "'k \<Rightarrow> 'k \<Rightarrow> 'm \<Rightarrow> 'm option"
    and translate :: "'m \<Rightarrow> 'k \<Rightarrow> 'k"
    and used :: "'m \<Rightarrow> 'k set"
    and ok :: "'m \<Rightarrow> bool"
    and valid :: "'k \<Rightarrow> bool"
    and capacity :: nat
  assumes set_ok: "ok m \<Longrightarrow> valid c \<Longrightarrow> set_entry d c m = Some m' \<Longrightarrow> ok m'"
    and set_translate: "ok m \<Longrightarrow> valid c \<Longrightarrow> set_entry d c m = Some m' \<Longrightarrow> translate m' = (translate m)(c := d)"
    and set_used: "ok m \<Longrightarrow> valid c \<Longrightarrow> set_entry d c m = Some m' \<Longrightarrow> used m' \<subseteq> insert c (used m)"
    and set_room: "ok m \<Longrightarrow> valid c \<Longrightarrow> c \<in> used m \<or> card (used m) < capacity \<Longrightarrow> set_entry d c m \<noteq> None"
    and used_finite: "ok m \<Longrightarrow> finite (used m)"
begin

lemma set_all_translates:
  assumes "ok m" "\<forall>p \<in> set ps. valid (snd p)" "card (used m \<union> snd ` set ps) \<le> capacity"
  shows "\<exists>m'. set_all set_entry ps m = Some m' \<and> ok m' \<and> translate m' = fold (\<lambda>(d, c) f. f(c := d)) ps (translate m)"
  using assms
proof (induction ps arbitrary: m)
  case (Cons p ps)
  obtain d c where p: "p = (d, c)" by force
  have fin: "finite (used m \<union> snd ` set (p # ps))" using used_finite [OF Cons.prems(1)] by simp
  have "c \<in> used m \<or> card (used m) < capacity"
  proof (rule disjCI)
    assume "\<not> card (used m) < capacity"
    then have "card (used m \<union> snd ` set (p # ps)) \<le> card (used m)" using Cons.prems(3) by linarith
    then have "used m = used m \<union> snd ` set (p # ps)" by (intro card_seteq [OF fin]) auto
    then show "c \<in> used m" using p by auto
  qed
  then obtain u where u: "set_entry d c m = Some u" using set_room [OF Cons.prems(1), of c d] Cons.prems(2) p by auto
  have c: "valid c" using Cons.prems(2) p by simp
  note n = set_ok [OF Cons.prems(1) c u] set_translate [OF Cons.prems(1) c u] set_used [OF Cons.prems(1) c u]
  have "used u \<union> snd ` set ps \<subseteq> used m \<union> snd ` set (p # ps)" using n(3) p by auto
  then have "card (used u \<union> snd ` set ps) \<le> card (used m \<union> snd ` set (p # ps))" by (rule card_mono [OF fin])
  then have "card (used u \<union> snd ` set ps) \<le> capacity" using Cons.prems(3) by linarith
  from Cons.IH [OF n(1) _ this] Cons.prems(2) show ?case by (simp add: p u n(2))
qed simp

end

end
