(* ===== verification/Libc_String.thy ===== *)
theory Libc_String
  imports C_Machine
begin

text \<open>
  The memory and string routines of the C library, \<^verbatim>\<open>src/libc/string/\<close>, over the flat memory of the
  prelude. Pointers are 32-bit addresses and a \<open>size_t\<close> is a 32-bit word. \<open>copied\<close> is the contract
  of a block copy: every byte of the destination is the byte the source had before the call, and no
  other byte changes. \<open>memcpy\<close> meets it for blocks that do not overlap, \<open>memmove\<close> for all blocks.
\<close>

section \<open>Definitions\<close>

definition copy_byte :: "u32 \<Rightarrow> u32 \<Rightarrow> nat \<Rightarrow> mem \<Rightarrow> mem" where
  "copy_byte dst src i m = m(dst + of_nat i := m (src + of_nat i))"

definition memcpy :: "u32 \<Rightarrow> u32 \<Rightarrow> u32 \<Rightarrow> mem \<Rightarrow> u32 \<times> mem" where
  "memcpy dstptr srcptr sz m =
     (dstptr, for_up (unat sz) (copy_byte dstptr srcptr) m)"

definition memmove :: "u32 \<Rightarrow> u32 \<Rightarrow> u32 \<Rightarrow> mem \<Rightarrow> u32 \<times> mem" where
  "memmove dstptr srcptr sz m =
     (dstptr,
      if dstptr < srcptr
      then for_up (unat sz) (copy_byte dstptr srcptr) m
      else for_down (unat sz) (copy_byte dstptr srcptr) m)"

definition memset :: "u32 \<Rightarrow> int \<Rightarrow> u32 \<Rightarrow> mem \<Rightarrow> u32 \<times> mem" where
  "memset bufptr value sz m =
     (bufptr, for_up (unat sz) (\<lambda>i m. m(bufptr + of_nat i := word_of_int value)) m)"

function memcmp_loop :: "mem \<Rightarrow> u32 \<Rightarrow> u32 \<Rightarrow> nat \<Rightarrow> nat \<Rightarrow> int" where
  "memcmp_loop m a b i sz =
     (if i < sz
      then (if m (a + of_nat i) < m (b + of_nat i) then - 1
            else if m (b + of_nat i) < m (a + of_nat i) then 1
            else memcmp_loop m a b (Suc i) sz)
      else 0)"
  by pat_completeness auto
termination
  by (relation "measure (\<lambda>(m, a, b, i, sz). sz - i)") auto

declare memcmp_loop.simps [simp del]

definition memcmp :: "u32 \<Rightarrow> u32 \<Rightarrow> u32 \<Rightarrow> mem \<Rightarrow> int" where
  "memcmp aptr bptr sz m = memcmp_loop m aptr bptr 0 (unat sz)"

text \<open>
  \<open>strlen\<close> runs until it meets a zero byte. The counter wraps at \<open>2\<^sup>3\<^sup>2\<close>, so a memory with no zero byte
  keeps it running for ever, which is the value \<^const>\<open>None\<close>.
\<close>

partial_function (option) strlen_loop :: "mem \<Rightarrow> u32 \<Rightarrow> u32 \<Rightarrow> u32 option" where
  "strlen_loop m str len =
     (if m (str + len) \<noteq> 0 then strlen_loop m str (len + 1) else Some len)"

definition strlen :: "u32 \<Rightarrow> mem \<Rightarrow> u32 option" where
  "strlen str m = strlen_loop m str 0"

text \<open>The block of \<open>n\<close> bytes at \<open>p\<close>, and the contract of a block copy.\<close>

definition bytes_at :: "mem \<Rightarrow> u32 \<Rightarrow> nat \<Rightarrow> u8 list" where
  "bytes_at m p n = map (\<lambda>i. m (p + of_nat i)) [0..<n]"

definition copied :: "mem \<Rightarrow> u32 \<Rightarrow> u32 \<Rightarrow> nat \<Rightarrow> mem" where
  "copied m dst src n = (\<lambda>a. if in_region a dst n then m (src + (a - dst)) else m a)"

definition cstring_at :: "mem \<Rightarrow> u32 \<Rightarrow> u8 list \<Rightarrow> bool" where
  "cstring_at m p s \<longleftrightarrow> length s < 4294967296 \<and> 0 \<notin> set s \<and>
     bytes_at m p (length s) = s \<and> m (p + of_nat (length s)) = 0"

section \<open>Block copies\<close>

lemma copy_byte_apply:
  "copy_byte dst src i m a = (if a = dst + of_nat i then m (src + of_nat i) else m a)"
  by (simp add: copy_byte_def)

lemma in_region_Suc:
  assumes "n < 4294967296"
  shows "in_region a p (Suc n) \<longleftrightarrow> in_region a p n \<or> a = p + of_nat n"
proof -
  have "a = p + of_nat n \<longleftrightarrow> unat (a - p) = n"
    using assms by (metis add_diff_cancel_left' diff_add_cancel add.commute of_nat_unat_u32
        unat_of_nat_u32)
  then show ?thesis by (auto simp: in_region_def less_Suc_eq)
qed

lemma copy_up_copied:
  assumes "n \<le> 4294967296"
    and clobber: "\<And>i j. i < j \<Longrightarrow> j < n \<Longrightarrow> dst + of_nat i \<noteq> src + of_nat j"
  shows "for_up n (copy_byte dst src) m = copied m dst src n"
  using assms
proof (induction n)
  case 0
  show ?case by (simp add: copied_def in_region_def)
next
  case (Suc n)
  from Suc.prems have n: "n < 4294967296" by simp
  have fresh: "\<not> in_region (src + of_nat n) dst n"
  proof
    assume "in_region (src + of_nat n) dst n"
    then have "unat (src + of_nat n - dst) < n" by (simp add: in_region_def)
    from Suc.prems(2) [OF this] show False by simp
  qed
  from Suc.IH [OF _ Suc.prems(2)] Suc.prems(1)
  have IH: "for_up n (copy_byte dst src) m = copied m dst src n" by simp
  show ?case
  proof
    fix a
    show "for_up (Suc n) (copy_byte dst src) m a = copied m dst src (Suc n) a"
      using fresh n by (auto simp: for_up_Suc IH copy_byte_apply copied_def in_region_Suc)
  qed
qed

lemma copy_down_copied:
  assumes "n \<le> 4294967296"
    and clobber: "\<And>i j. i < j \<Longrightarrow> j < n \<Longrightarrow> dst + of_nat j \<noteq> src + of_nat i"
  shows "for_down n (copy_byte dst src) m = copied m dst src n"
  using assms
proof (induction n arbitrary: m)
  case 0
  show ?case by (simp add: copied_def in_region_def)
next
  case (Suc n)
  from Suc.prems have n: "n < 4294967296" by simp
  from Suc.IH [OF _ Suc.prems(2)] Suc.prems(1)
  have IH: "for_down n (copy_byte dst src) m' = copied m' dst src n" for m' by simp
  show ?case
  proof
    fix a
    have "src + (a - dst) \<noteq> dst + of_nat n" if "in_region a dst n"
    proof -
      from that have "unat (a - dst) < n" by (simp add: in_region_def)
      from Suc.prems(2) [OF this] show ?thesis by simp
    qed
    then show "for_down (Suc n) (copy_byte dst src) m a = copied m dst src (Suc n) a"
      using n by (auto simp: for_down_Suc IH copy_byte_apply copied_def in_region_Suc)
  qed
qed

lemma copied_src_bytes:
  assumes "n \<le> 4294967296"
  shows "bytes_at (copied m dst src n) dst n = bytes_at m src n"
  using assms by (auto simp: bytes_at_def copied_def)

lemma move_copied:
  assumes "no_wrap dst n" "no_wrap src n"
  shows "(if dst < src then for_up n (copy_byte dst src) m else for_down n (copy_byte dst src) m) = copied m dst src n"
proof -
  note offs = unat_offset [OF assms(1)] unat_offset [OF assms(2)]
  have le: "n \<le> 4294967296" using assms(1) by (simp add: no_wrap_def)
  show ?thesis
  proof (cases "dst < src")
    case True
    have "dst + of_nat i \<noteq> src + of_nat j" if "i < j" "j < n" for i j
      using that True offs(1) [of i] offs(2) [of j] by (auto simp: u32_eq_iff_unat word_less_nat_alt)
    with True le show ?thesis by (simp add: copy_up_copied)
  next
    case False
    have "dst + of_nat j \<noteq> src + of_nat i" if "i < j" "j < n" for i j
      using that False offs(1) [of j] offs(2) [of i] by (auto simp: u32_eq_iff_unat word_less_nat_alt)
    with False le show ?thesis by (simp add: copy_down_copied)
  qed
qed

text \<open>
  C3. \<open>memmove\<close> copies a block correctly for every overlap of source and destination: for blocks that
  do not run past the end of the address space, each destination byte becomes the byte the source
  held before the call, every byte outside the destination keeps its value, and the result is the
  destination pointer.
\<close>

theorem memmove_copies:
  assumes "no_wrap dst (unat sz)" and "no_wrap src (unat sz)"
  shows "memmove dst src sz m = (dst, copied m dst src (unat sz))"
  by (simp add: memmove_def move_copied [OF assms])

theorem memmove_copies_witness:
  "no_wrap 101 (unat (3 :: u32)) \<and> no_wrap 100 (unat (3 :: u32)) \<and>
   snd (memmove 101 100 3 (\<lambda>a. ucast a)) 103 = 102"
proof -
  have h: "no_wrap 101 (unat (3 :: u32))" "no_wrap 100 (unat (3 :: u32))"
    by (simp_all add: no_wrap_def)
  show ?thesis using h memmove_copies [OF h, of "\<lambda>a. ucast a"]
    by (simp add: copied_def in_region_def)
qed

text \<open>
  \<open>memcpy\<close>, whose parameters are \<open>restrict\<close>, copies a block correctly whenever source and
  destination do not overlap, and then agrees with \<open>memmove\<close>.
\<close>

theorem memcpy_copies:
  assumes "\<And>i j. i < unat sz \<Longrightarrow> j < unat sz \<Longrightarrow> dst + of_nat i \<noteq> src + of_nat j"
  shows "memcpy dst src sz m = (dst, copied m dst src (unat sz))
    \<and> memcpy dst src sz m = memmove dst src sz m"
proof -
  have le: "unat sz \<le> 4294967296" by (simp add: less_imp_le)
  have up: "for_up (unat sz) (copy_byte dst src) m = copied m dst src (unat sz)"
    by (rule copy_up_copied [OF le]) (meson assms less_trans)
  have down: "for_down (unat sz) (copy_byte dst src) m = copied m dst src (unat sz)"
    by (rule copy_down_copied [OF le]) (meson assms less_trans)
  from up down show ?thesis by (simp add: memcpy_def memmove_def)
qed

theorem memcpy_copies_witness:
  "snd (memcpy 200 100 2 (\<lambda>a. ucast a)) 201 = 101"
proof -
  have h: "(200 :: u32) + of_nat i \<noteq> 100 + of_nat j"
    if "i < unat (2 :: u32)" "j < unat (2 :: u32)" for i j
    using that by (auto simp: less_2_cases_iff)
  show ?thesis using memcpy_copies [of 2 200 100 "\<lambda>a. ucast a", OF h]
    by (simp add: copied_def in_region_def)
qed

section \<open>Filling and comparing\<close>

lemma memset_loop:
  assumes "n \<le> 4294967296"
  shows "for_up n (\<lambda>i m. m(p + of_nat i := v)) m = (\<lambda>a. if in_region a p n then v else m a)"
  using assms
proof (induction n)
  case 0
  show ?case by (simp add: in_region_def)
next
  case (Suc n)
  then show ?case by (auto simp: for_up_Suc in_region_Suc fun_eq_iff)
qed

text \<open>
  \<open>memset\<close> stores the low byte of its value argument in each of the \<open>size\<close> bytes of the buffer and
  changes nothing else.
\<close>

theorem memset_fills:
  "memset p v sz m = (p, \<lambda>a. if in_region a p (unat sz) then word_of_int v else m a)"
  by (simp add: memset_def memset_loop less_imp_le)

lemma bytes_at_Suc: "bytes_at m p (Suc n) = m p # bytes_at m (p + 1) n"
  unfolding bytes_at_def by (subst upt_conv_Cons, simp, subst map_Suc_upt [symmetric])
    (simp add: add.assoc)

lemma bytes_at_nth [simp]: "i < n \<Longrightarrow> bytes_at m p n ! i = m (p + of_nat i)"
  by (simp add: bytes_at_def)

lemma length_bytes_at [simp]: "length (bytes_at m p n) = n"
  by (simp add: bytes_at_def)

lemma memcmp_loop_cases:
  assumes "i \<le> n"
  obtains (equal) "memcmp_loop m a b i n = 0" "\<forall>k. i \<le> k \<and> k < n \<longrightarrow> m (a + of_nat k) = m (b + of_nat k)"
  | (less) d where "memcmp_loop m a b i n = - 1" "i \<le> d" "d < n"
      "\<forall>k. i \<le> k \<and> k < d \<longrightarrow> m (a + of_nat k) = m (b + of_nat k)" "m (a + of_nat d) < m (b + of_nat d)"
  | (greater) d where "memcmp_loop m a b i n = 1" "i \<le> d" "d < n"
      "\<forall>k. i \<le> k \<and> k < d \<longrightarrow> m (a + of_nat k) = m (b + of_nat k)" "m (b + of_nat d) < m (a + of_nat d)"
  using assms
proof (induction m a b i n arbitrary: thesis rule: memcmp_loop.induct)
  case (1 m a b i n)
  consider "i = n" | "i < n" "m (a + of_nat i) < m (b + of_nat i)"
    | "i < n" "m (b + of_nat i) < m (a + of_nat i)"
    | "i < n" "m (a + of_nat i) = m (b + of_nat i)"
    using "1.prems"(4) by fastforce
  then show ?case
  proof cases
    case 1
    then show ?thesis by (intro "1.prems"(1)) (auto simp: memcmp_loop.simps [of m a b n n])
  next
    case 2
    then show ?thesis by (intro "1.prems"(2) [of i]) (auto simp: memcmp_loop.simps [of m a b i n])
  next
    case 3
    then show ?thesis by (intro "1.prems"(3) [of i]) (auto simp: memcmp_loop.simps [of m a b i n])
  next
    case 4
    then have step: "memcmp_loop m a b i n = memcmp_loop m a b (Suc i) n"
      by (simp add: memcmp_loop.simps [of m a b i n])
    have upto: "\<forall>k. i \<le> k \<and> k < d \<longrightarrow> m (a + of_nat k) = m (b + of_nat k)"
      if "\<forall>k. Suc i \<le> k \<and> k < d \<longrightarrow> m (a + of_nat k) = m (b + of_nat k)" for d
      using that 4 by (metis not_less_eq_eq le_antisym)
    show ?thesis
      by (rule "1.IH") (use 4 step upto "1.prems" in \<open>auto dest: Suc_leD\<close>)
  qed
qed

text \<open>
  \<open>memcmp\<close> compares two blocks in lexicographic order of their unsigned bytes: it returns 0 exactly
  when the blocks are equal, \<open>-1\<close> exactly when the first block is lexicographically smaller and \<open>1\<close>
  exactly when it is larger.
\<close>

theorem memcmp_lexicographic:
  "memcmp a b sz m =
     (if bytes_at m a (unat sz) = bytes_at m b (unat sz) then 0
      else if (bytes_at m a (unat sz), bytes_at m b (unat sz)) \<in> lexord {(x, y). x < y} then - 1
      else 1)"
proof -
  let ?n = "unat sz" and ?A = "bytes_at m a (unat sz)" and ?B = "bytes_at m b (unat sz)"
  have lex: "(?A, ?B) \<in> lexord {(x, y). x < y} \<longleftrightarrow>
      (\<exists>d < ?n. take d ?A = take d ?B \<and> m (a + of_nat d) < m (b + of_nat d))"
    by (auto simp: lexord_take_index_conv)
  have tk: "take d ?A = take d ?B \<longleftrightarrow> (\<forall>k < d. m (a + of_nat k) = m (b + of_nat k))"
    if "d < ?n" for d
    using that by (auto simp: list_eq_iff_nth_eq)
  have le: "0 \<le> ?n" by simp
  from le show ?thesis
  proof (cases rule: memcmp_loop_cases [of 0 ?n m a b])
    case equal
    then have "?A = ?B" by (auto simp: list_eq_iff_nth_eq)
    with equal show ?thesis by (simp add: memcmp_def)
  next
    case (less d)
    then have "?A \<noteq> ?B" by (metis bytes_at_nth less_irrefl)
    with less tk [of d] lex show ?thesis by (auto simp: memcmp_def)
  next
    case (greater d)
    then have ne: "?A \<noteq> ?B" by (metis bytes_at_nth less_irrefl)
    have "(?A, ?B) \<notin> lexord {(x, y). x < y}"
    proof
      assume "(?A, ?B) \<in> lexord {(x, y). x < y}"
      then obtain e where e: "e < ?n" "take e ?A = take e ?B" "m (a + of_nat e) < m (b + of_nat e)"
        using lex by blast
      with greater tk [of e] show False
        by (metis linorder_neqE_nat less_irrefl not_less_iff_gr_or_eq zero_le)
    qed
    with ne greater show ?thesis by (simp add: memcmp_def)
  qed
qed

section \<open>String length\<close>

lemma strlen_loop_finds:
  assumes "\<And>i. i < n \<Longrightarrow> m (p + (k + of_nat i)) \<noteq> 0" and "m (p + (k + of_nat n)) = 0"
  shows "strlen_loop m p k = Some (k + of_nat n)"
  using assms
proof (induction n arbitrary: k)
  case 0
  then show ?case by (simp add: strlen_loop.simps [of m p k])
next
  case (Suc n)
  from Suc.prems(1) [of 0] have "m (p + k) \<noteq> 0" by simp
  then have "strlen_loop m p k = strlen_loop m p (k + 1)"
    by (simp add: strlen_loop.simps [of m p k])
  also have "\<dots> = Some (k + 1 + of_nat n)"
  proof (rule Suc.IH)
    show "m (p + (k + 1 + of_nat i)) \<noteq> 0" if "i < n" for i
      using Suc.prems(1) [of "Suc i"] that by (simp add: add.assoc)
    show "m (p + (k + 1 + of_nat n)) = 0"
      using Suc.prems(2) by (simp add: add.assoc)
  qed
  finally show ?case by (simp add: add.assoc)
qed

lemma strlen_of_cstring:
  assumes "cstring_at m p s"
  shows "strlen p m = Some (of_nat (length s))" "unat (of_nat (length s) :: u32) = length s"
proof -
  from assms have len: "length s < 4294967296" and nz: "0 \<notin> set s"
    and eq: "bytes_at m p (length s) = s" and z: "m (p + of_nat (length s)) = 0"
    by (auto simp: cstring_at_def)
  have "m (p + of_nat i) \<noteq> 0" if "i < length s" for i
    using that nz eq by (metis bytes_at_nth nth_mem)
  then show "strlen p m = Some (of_nat (length s))"
    using strlen_loop_finds [of "length s" m p 0] z by (simp add: strlen_def)
  show "unat (of_nat (length s) :: u32) = length s" using len by (rule unat_of_nat_u32)
qed

text \<open>
  \<open>strlen\<close> returns, and returns the length of the string, whenever its argument points at a
  zero-terminated string (of any length that fits the address space).
\<close>

theorem strlen_cstring:
  assumes "cstring_at m p s"
  shows "strlen p m = Some (of_nat (length s)) \<and> unat (the (strlen p m)) = length s"
  by (simp only: strlen_of_cstring [OF assms] option.sel simp_thms)

theorem strlen_cstring_witness:
  "cstring_at ((\<lambda>_. 0)(4096 := 72, 4097 := 105)) 4096 [72, 105] \<and>
   strlen 4096 ((\<lambda>_. 0)(4096 := 72, 4097 := 105)) = Some 2"
proof -
  have h: "cstring_at ((\<lambda>_. 0)(4096 := 72, 4097 := 105)) 4096 [72, 105]"
    by (simp add: cstring_at_def bytes_at_Suc bytes_at_def)
  show ?thesis using h strlen_cstring [OF h] by simp
qed

end
