(* ===== verification/Tty.thy ===== *)
theory Tty
  imports Interfaces Libc_String
begin

text \<open>
  The text-mode terminal of the i386 kernel, \<^verbatim>\<open>src/legacy/kernel/arch/i386/vga.h\<close> and
  \<^verbatim>\<open>src/legacy/kernel/arch/i386/tty.c\<close>. The static variables of \<^verbatim>\<open>tty.c\<close> extend the machine record; the
  screen itself is the 4000 bytes of video memory at \<open>0xB8000\<close>, written by 16-bit stores.

  The abstract terminal \<open>screen\<close> is a 25 by 80 grid of cells and a cursor. The theory shows that every
  operation of \<^verbatim>\<open>tty.c\<close> refines the abstract one, that the cursor stays on the screen, that no byte
  outside video memory is ever written, and for which characters \<open>terminal_putchar\<close> returns.
\<close>

section \<open>Definitions\<close>

datatype vga_color =
    VGA_COLOR_BLACK | VGA_COLOR_BLUE | VGA_COLOR_GREEN | VGA_COLOR_CYAN
  | VGA_COLOR_RED | VGA_COLOR_MAGENTA | VGA_COLOR_BROWN | VGA_COLOR_LIGHT_GREY
  | VGA_COLOR_DARK_GREY | VGA_COLOR_LIGHT_BLUE | VGA_COLOR_LIGHT_GREEN | VGA_COLOR_LIGHT_CYAN
  | VGA_COLOR_LIGHT_RED | VGA_COLOR_LIGHT_MAGENTA | VGA_COLOR_LIGHT_BROWN | VGA_COLOR_WHITE

fun vga_color_value :: "vga_color \<Rightarrow> u8" where
  "vga_color_value VGA_COLOR_BLACK = 0"
| "vga_color_value VGA_COLOR_BLUE = 1"
| "vga_color_value VGA_COLOR_GREEN = 2"
| "vga_color_value VGA_COLOR_CYAN = 3"
| "vga_color_value VGA_COLOR_RED = 4"
| "vga_color_value VGA_COLOR_MAGENTA = 5"
| "vga_color_value VGA_COLOR_BROWN = 6"
| "vga_color_value VGA_COLOR_LIGHT_GREY = 7"
| "vga_color_value VGA_COLOR_DARK_GREY = 8"
| "vga_color_value VGA_COLOR_LIGHT_BLUE = 9"
| "vga_color_value VGA_COLOR_LIGHT_GREEN = 10"
| "vga_color_value VGA_COLOR_LIGHT_CYAN = 11"
| "vga_color_value VGA_COLOR_LIGHT_RED = 12"
| "vga_color_value VGA_COLOR_LIGHT_MAGENTA = 13"
| "vga_color_value VGA_COLOR_LIGHT_BROWN = 14"
| "vga_color_value VGA_COLOR_WHITE = 15"

definition vga_entry_color :: "vga_color \<Rightarrow> vga_color \<Rightarrow> u8" where
  "vga_entry_color fg bg = vga_color_value fg OR push_bit 4 (vga_color_value bg)"

definition vga_entry :: "u8 \<Rightarrow> u8 \<Rightarrow> u16" where
  "vga_entry uc color = ucast uc OR push_bit 8 (ucast color)"

abbreviation VGA_WIDTH :: u32 where "VGA_WIDTH \<equiv> 80"
abbreviation VGA_HEIGHT :: u32 where "VGA_HEIGHT \<equiv> 25"
abbreviation VGA_MEMORY :: u32 where "VGA_MEMORY \<equiv> 0xB8000"

record tty = machine +
  terminal_row :: u32
  terminal_column :: u32
  terminal_color :: u8
  terminal_buffer :: u32

definition terminal_setcolor :: "u8 \<Rightarrow> 'a tty_scheme \<Rightarrow> 'a tty_scheme" where
  "terminal_setcolor color s = s\<lparr>terminal_color := color\<rparr>"

definition terminal_putentryat :: "u8 \<Rightarrow> u8 \<Rightarrow> u32 \<Rightarrow> u32 \<Rightarrow> 'a tty_scheme \<Rightarrow> 'a tty_scheme" where
  "terminal_putentryat c color x y s =
     (let index = y * VGA_WIDTH + x
      in s\<lparr>mem := store16 (terminal_buffer s + 2 * index) (vga_entry c color) (mem s)\<rparr>)"

definition terminal_initialize :: "'a tty_scheme \<Rightarrow> 'a tty_scheme" where
  "terminal_initialize s =
     (let s1 = s\<lparr>terminal_row := 0, terminal_column := 0,
                 terminal_color := vga_entry_color VGA_COLOR_LIGHT_GREY VGA_COLOR_BLACK,
                 terminal_buffer := VGA_MEMORY\<rparr>
      in for_up (unat VGA_HEIGHT) (\<lambda>y.
           for_up (unat VGA_WIDTH) (\<lambda>x s.
             let index = of_nat y * VGA_WIDTH + of_nat x
             in s\<lparr>mem := store16 (terminal_buffer s + 2 * index)
                           (vga_entry 32 (terminal_color s)) (mem s)\<rparr>)) s1)"

text \<open>
  \<open>terminal_advance\<close> is \<open>++terminal_row\<close> with its wrap to the top. \<open>terminal_putchar_once\<close> is the body of
  \<open>terminal_putchar\<close> without its tab branch; the tab branch is a loop that calls \<open>terminal_putchar(' ')\<close>,
  whose value is the loop body here (\<open>terminal_putchar_space\<close> below). The loop may run for ever, which is
  \<^const>\<open>None\<close>.
\<close>

definition terminal_advance :: "'a tty_scheme \<Rightarrow> 'a tty_scheme" where
  "terminal_advance s =
     (let row = terminal_row s + 1
      in s\<lparr>terminal_row := (if row = VGA_HEIGHT then 0 else row)\<rparr>)"

definition terminal_putchar_once :: "u8 \<Rightarrow> 'a tty_scheme \<Rightarrow> 'a tty_scheme" where
  "terminal_putchar_once uc s =
     (if uc = 10 then terminal_advance (s\<lparr>terminal_column := 0\<rparr>)
      else if uc = 13 then s\<lparr>terminal_column := 0\<rparr>
      else if uc = 8 then
        (if terminal_column s > 0
         then (let s1 = s\<lparr>terminal_column := terminal_column s - 1\<rparr>
               in terminal_putentryat 32 (terminal_color s1) (terminal_column s1) (terminal_row s1) s1)
         else s)
      else
        (let s1 = terminal_putentryat uc (terminal_color s) (terminal_column s) (terminal_row s) s;
             s2 = s1\<lparr>terminal_column := terminal_column s1 + 1\<rparr>
         in if terminal_column s2 = VGA_WIDTH
            then terminal_advance (s2\<lparr>terminal_column := 0\<rparr>)
            else s2))"

partial_function (option) tab_loop :: "u32 \<Rightarrow> 'a tty_scheme \<Rightarrow> 'a tty_scheme option" where
  "tab_loop next_stop s =
     (if terminal_column s < next_stop \<and> terminal_column s < VGA_WIDTH
      then tab_loop next_stop (terminal_putchar_once 32 s)
      else Some s)"

definition terminal_putchar :: "u8 \<Rightarrow> 'a tty_scheme \<Rightarrow> 'a tty_scheme option" where
  "terminal_putchar uc s =
     (if uc = 9 then tab_loop ((terminal_column s + 8) AND NOT 7) s
      else Some (terminal_putchar_once uc s))"

definition terminal_write :: "u8 list \<Rightarrow> 'a tty_scheme \<Rightarrow> 'a tty_scheme option" where
  "terminal_write data s = write_chars terminal_putchar data s"

definition terminal_writestring :: "u8 list \<Rightarrow> 'a tty_scheme \<Rightarrow> 'a tty_scheme option" where
  "terminal_writestring data s = terminal_write data s"

lemma terminal_putchar_space: "terminal_putchar 32 s = Some (terminal_putchar_once 32 s)"
  by (simp add: terminal_putchar_def)

section \<open>The abstract terminal\<close>

record screen =
  cur_row :: nat
  cur_col :: nat
  cur_color :: u8
  cells :: "nat \<Rightarrow> nat \<Rightarrow> u16"

definition screen_down :: "screen \<Rightarrow> screen" where
  "screen_down t = t\<lparr>cur_row := (cur_row t + 1) mod 25\<rparr>"

definition screen_set :: "nat \<Rightarrow> nat \<Rightarrow> u8 \<Rightarrow> screen \<Rightarrow> screen" where
  "screen_set r c ch t = t\<lparr>cells := (\<lambda>i j. if i = r \<and> j = c then vga_entry ch (cur_color t) else cells t i j)\<rparr>"

definition screen_glyph :: "u8 \<Rightarrow> screen \<Rightarrow> screen" where
  "screen_glyph ch t =
     (let t1 = screen_set (cur_row t) (cur_col t) ch t
      in if cur_col t + 1 = 80 then screen_down (t1\<lparr>cur_col := 0\<rparr>)
         else t1\<lparr>cur_col := cur_col t + 1\<rparr>)"

text \<open>
  What each character does to the abstract terminal. A tab moves to the next multiple of eight; from the
  last tab column it never comes to an end.
\<close>

definition screen_char :: "u8 \<Rightarrow> screen \<Rightarrow> screen option" where
  "screen_char ch t =
     (if ch = 10 then Some (screen_down (t\<lparr>cur_col := 0\<rparr>))
      else if ch = 13 then Some (t\<lparr>cur_col := 0\<rparr>)
      else if ch = 8 then
        Some (if cur_col t = 0 then t
              else screen_set (cur_row t) (cur_col t - 1) 32 (t\<lparr>cur_col := cur_col t - 1\<rparr>))
      else if ch = 9 then
        (if cur_col t < 72 then Some ((screen_glyph 32 ^^ (8 - cur_col t mod 8)) t) else None)
      else Some (screen_glyph ch t))"

definition cell_addr :: "nat \<Rightarrow> nat \<Rightarrow> u32" where
  "cell_addr r c = VGA_MEMORY + 2 * (of_nat r * VGA_WIDTH + of_nat c)"

definition tty_abs :: "'a tty_scheme \<Rightarrow> screen" where
  "tty_abs s = \<lparr>cur_row = unat (terminal_row s), cur_col = unat (terminal_column s),
     cur_color = terminal_color s,
     cells = (\<lambda>r c. if r < 25 \<and> c < 80 then load16 (mem s) (cell_addr r c) else 0)\<rparr>"

definition tty_inv :: "'a tty_scheme \<Rightarrow> bool" where
  "tty_inv s \<longleftrightarrow> terminal_row s < VGA_HEIGHT \<and> terminal_column s < VGA_WIDTH \<and>
     terminal_buffer s = VGA_MEMORY"

text \<open>What output to the terminal leaves alone: every byte outside video memory and every other variable.\<close>

definition tty_frame :: "'a tty_scheme \<Rightarrow> 'a tty_scheme \<Rightarrow> bool" where
  "tty_frame s s' \<longleftrightarrow> unchanged_outside VGA_MEMORY 4000 (mem s) (mem s') \<and>
     ports s' = ports s \<and> terminal_color s' = terminal_color s \<and>
     terminal_buffer s' = terminal_buffer s \<and> tty.more s' = tty.more s"

section \<open>Cells of video memory\<close>

lemma unat_cell_addr:
  assumes "r < 25" "c < 80"
  shows "unat (cell_addr r c) = 753664 + 2 * (r * 80 + c)"
    and "unat (cell_addr r c + 1) = 753664 + 2 * (r * 80 + c) + 1"
proof -
  have eq: "cell_addr r c = of_nat (753664 + 2 * (r * 80 + c))"
    and eq1: "cell_addr r c + 1 = of_nat (753664 + 2 * (r * 80 + c) + 1)"
    by (simp_all add: cell_addr_def)
  show "unat (cell_addr r c) = 753664 + 2 * (r * 80 + c)"
    unfolding eq using assms by (intro unat_of_nat_u32) simp
  show "unat (cell_addr r c + 1) = 753664 + 2 * (r * 80 + c) + 1"
    unfolding eq1 using assms by (intro unat_of_nat_u32) simp
qed

lemma cell_addr_in_vga:
  assumes "r < 25" "c < 80"
  shows "in_region (cell_addr r c) VGA_MEMORY 4000" "in_region (cell_addr r c + 1) VGA_MEMORY 4000"
  using unat_cell_addr [OF assms] assms by (auto intro!: in_regionI)

lemma grid_index_inject: "c < 80 \<Longrightarrow> c' < 80 \<Longrightarrow> r * 80 + c = r' * 80 + c' \<longleftrightarrow> r = r' \<and> c = (c' :: nat)"
  by (metis div_mult_self3 mod_mult_self3 div_less mod_less add_0_right zero_neq_numeral)

lemma cell_addr_neq:
  assumes "r < 25" "c < 80" "r' < 25" "c' < 80" "(r, c) \<noteq> (r', c')"
  shows "cell_addr r c \<noteq> cell_addr r' c'" "cell_addr r c \<noteq> cell_addr r' c' + 1"
    "cell_addr r c + 1 \<noteq> cell_addr r' c'"
proof -
  have "r * 80 + c \<noteq> r' * 80 + c'" using assms by (simp add: grid_index_inject)
  then show "cell_addr r c \<noteq> cell_addr r' c'" "cell_addr r c \<noteq> cell_addr r' c' + 1"
    "cell_addr r c + 1 \<noteq> cell_addr r' c'"
    using assms unat_cell_addr [of r c] unat_cell_addr [of r' c']
    by (auto simp: u32_eq_iff_unat)
qed

lemma load_cell_store_cell:
  assumes "r < 25" "c < 80" "r' < 25" "c' < 80"
  shows "load16 (store16 (cell_addr r c) v m) (cell_addr r' c') =
    (if r' = r \<and> c' = c then v else load16 m (cell_addr r' c'))"
proof (cases "(r, c) = (r', c')")
  case True
  then show ?thesis by (simp add: load16_store16)
next
  case False
  with cell_addr_neq [OF assms False] show ?thesis
    by (auto simp: load16_store16_other)
qed

lemma putentryat_cell:
  assumes "terminal_buffer s = VGA_MEMORY"
  shows "terminal_putentryat ch color x y s =
    s\<lparr>mem := store16 (cell_addr (unat y) (unat x)) (vga_entry ch color) (mem s)\<rparr>"
  using assms by (simp add: terminal_putentryat_def cell_addr_def Let_def)

lemma putentryat_abs:
  assumes "terminal_buffer s = VGA_MEMORY" "y < VGA_HEIGHT" "x < VGA_WIDTH"
  shows "tty_abs (terminal_putentryat ch (terminal_color s) x y s) =
    screen_set (unat y) (unat x) ch (tty_abs s)"
proof -
  from assms have b: "unat y < 25" "unat x < 80" by (simp_all add: word_less_nat_alt)
  then show ?thesis
    by (auto simp: putentryat_cell assms(1) tty_abs_def screen_set_def load_cell_store_cell
        intro!: ext)
qed

lemma putentryat_frame:
  assumes "terminal_buffer s = VGA_MEMORY" "y < VGA_HEIGHT" "x < VGA_WIDTH"
  shows "tty_frame s (terminal_putentryat ch color x y s)"
proof -
  from assms have b: "unat y < 25" "unat x < 80" by (simp_all add: word_less_nat_alt)
  show ?thesis using cell_addr_in_vga [OF b]
    by (auto simp: putentryat_cell assms(1) tty_frame_def unchanged_outside_def intro!: store16_outside)
qed

lemma putentryat_fields [simp]:
  "terminal_row (terminal_putentryat ch color x y s) = terminal_row s"
  "terminal_column (terminal_putentryat ch color x y s) = terminal_column s"
  "terminal_color (terminal_putentryat ch color x y s) = terminal_color s"
  "terminal_buffer (terminal_putentryat ch color x y s) = terminal_buffer s"
  by (simp_all add: terminal_putentryat_def Let_def)

section \<open>One character\<close>

lemma tty_frame_refl: "tty_frame s s"
  by (simp add: tty_frame_def)

lemma tty_frame_trans: "tty_frame s t \<Longrightarrow> tty_frame t u \<Longrightarrow> tty_frame s u"
  by (auto simp: tty_frame_def intro: unchanged_outside_trans)

lemma tty_frame_cursor [simp]:
  "tty_frame s (t\<lparr>terminal_row := r\<rparr>) = tty_frame s t"
  "tty_frame s (t\<lparr>terminal_column := c\<rparr>) = tty_frame s t"
  "tty_frame (s\<lparr>terminal_column := c\<rparr>) t = tty_frame s t"
  by (simp_all add: tty_frame_def)

lemma tty_frame_advance [simp]: "tty_frame s (terminal_advance t) = tty_frame s t"
  by (simp add: terminal_advance_def Let_def)

lemma row_succ: "r < VGA_HEIGHT \<Longrightarrow> unat (r + 1) = unat r + 1"
  "r < VGA_HEIGHT \<Longrightarrow> r + 1 \<noteq> VGA_HEIGHT \<Longrightarrow> r + 1 < VGA_HEIGHT"
  by (simp_all add: word_less_nat_alt unat_word_ariths u32_eq_iff_unat)

lemma col_succ: "c < VGA_WIDTH \<Longrightarrow> unat (c + 1) = unat c + 1"
  "c < VGA_WIDTH \<Longrightarrow> c + 1 \<noteq> VGA_WIDTH \<Longrightarrow> c + 1 < VGA_WIDTH"
  by (simp_all add: word_less_nat_alt unat_word_ariths u32_eq_iff_unat)

lemma col_pred: "0 < c \<Longrightarrow> c < VGA_WIDTH \<Longrightarrow> unat (c - 1) = unat c - 1"
  "0 < c \<Longrightarrow> c < VGA_WIDTH \<Longrightarrow> c - 1 < VGA_WIDTH"
  by (simp_all add: word_less_nat_alt unat_minus_one u32_eq_iff_unat)

lemma tty_abs_cursor:
  "tty_abs (s\<lparr>terminal_column := c\<rparr>) = (tty_abs s)\<lparr>cur_col := unat c\<rparr>"
  "tty_abs (s\<lparr>terminal_row := r\<rparr>) = (tty_abs s)\<lparr>cur_row := unat r\<rparr>"
  by (simp_all add: tty_abs_def cong: if_cong)

lemma tty_abs_simps [simp]:
  "cur_row (tty_abs s) = unat (terminal_row s)"
  "cur_col (tty_abs s) = unat (terminal_column s)"
  "cur_color (tty_abs s) = terminal_color s"
  by (simp_all add: tty_abs_def)

lemma advance_abs:
  assumes "terminal_row s < VGA_HEIGHT"
  shows "tty_abs (terminal_advance s) = screen_down (tty_abs s)"
proof (cases "terminal_row s + 1 = VGA_HEIGHT")
  case True
  then have "unat (terminal_row s) + 1 = 25" using row_succ(1) [OF assms] by simp
  then have "(unat (terminal_row s) + 1) mod 25 = 0" by simp
  with True show ?thesis
    by (simp add: terminal_advance_def screen_down_def tty_abs_cursor)
next
  case False
  then have "unat (terminal_row s) + 1 < 25"
    using row_succ [OF assms] by (simp add: word_less_nat_alt)
  with False row_succ(1) [OF assms] show ?thesis
    by (simp add: terminal_advance_def screen_down_def tty_abs_cursor)
qed

lemma advance_fields [simp]:
  "terminal_column (terminal_advance s) = terminal_column s"
  "terminal_buffer (terminal_advance s) = terminal_buffer s"
  "terminal_row s < VGA_HEIGHT \<Longrightarrow> terminal_row (terminal_advance s) < VGA_HEIGHT"
  by (auto simp: terminal_advance_def Let_def row_succ)

lemma once_inv: "tty_inv s \<Longrightarrow> tty_inv (terminal_putchar_once c s)"
  by (auto simp: tty_inv_def terminal_putchar_once_def Let_def col_succ col_pred)

lemma once_frame: "tty_inv s \<Longrightarrow> tty_frame s (terminal_putchar_once c s)"
  unfolding tty_inv_def terminal_putchar_once_def Let_def
  by (auto simp: tty_frame_refl col_pred
      intro: putentryat_frame putentryat_frame [of "s\<lparr>terminal_column := d\<rparr>" for d, simplified])

lemma once_abs:
  assumes "tty_inv s" and "c \<noteq> 9"
  shows "screen_char c (tty_abs s) = Some (tty_abs (terminal_putchar_once c s))"
proof -
  from assms(1) have row: "terminal_row s < VGA_HEIGHT" and col: "terminal_column s < VGA_WIDTH"
    and buf: "terminal_buffer s = VGA_MEMORY" by (simp_all add: tty_inv_def)
  note put = putentryat_abs [OF buf row col] and succ = col_succ [OF col]
  have wrap: "terminal_column s + 1 = VGA_WIDTH \<longleftrightarrow> unat (terminal_column s) + 1 = 80"
    using succ by (simp add: u32_eq_iff_unat)
  consider "c = 10" | "c = 13" | "c = 8" | "c \<notin> {8, 9, 10, 13}" using assms(2) by auto
  then show ?thesis
  proof cases
    case 1
    then show ?thesis using row
      by (simp add: screen_char_def terminal_putchar_once_def advance_abs tty_abs_cursor)
  next
    case 2
    then show ?thesis
      by (simp add: screen_char_def terminal_putchar_once_def tty_abs_cursor)
  next
    case 3
    show ?thesis
    proof (cases "terminal_column s = 0")
      case True
      with 3 show ?thesis by (simp add: screen_char_def terminal_putchar_once_def)
    next
      case False
      then have pos: "0 < terminal_column s" by (simp add: word_neq_0_conv)
      let ?s = "s\<lparr>terminal_column := terminal_column s - 1\<rparr>"
      have "tty_abs (terminal_putentryat 32 (terminal_color ?s) (terminal_column ?s) (terminal_row ?s) ?s)
          = screen_set (unat (terminal_row s)) (unat (terminal_column s) - 1) 32
              ((tty_abs s)\<lparr>cur_col := unat (terminal_column s) - 1\<rparr>)"
        using putentryat_abs [of ?s "terminal_row ?s" "terminal_column ?s" 32] buf row
          col_pred [OF pos col] by (simp add: tty_abs_cursor)
      with 3 False pos show ?thesis
        by (simp add: screen_char_def terminal_putchar_once_def Let_def unat_eq_0)
    qed
  next
    case 4
    then show ?thesis using row wrap succ
      by (auto simp: screen_char_def terminal_putchar_once_def screen_glyph_def Let_def put
          advance_abs tty_abs_cursor)
  qed
qed

section \<open>Tabs\<close>

lemma unat_next_stop:
  assumes "c < VGA_WIDTH"
  shows "unat ((c + 8) AND NOT 7) = 8 * (unat c div 8 + 1)"
proof -
  have "(7 :: u32) = mask 3" by (simp add: mask_eq_exp_minus_1)
  then have "unat ((c + 8) AND NOT 7) = 2 ^ 3 * (unat (c + 8) div 2 ^ 3)"
    by (simp only: unat_and_not_mask)
  also have "unat (c + 8) = unat c + 8"
    using assms by (simp add: word_less_nat_alt unat_word_ariths)
  also have "2 ^ 3 * ((unat c + 8) div 2 ^ 3) = 8 * (unat c div 8 + 1)"
    using div_add_self2 [of 8 "unat c"] by simp
  finally show ?thesis .
qed

lemma once_space_column:
  assumes "tty_inv s" and "unat (terminal_column s) + 1 < 80"
  shows "unat (terminal_column (terminal_putchar_once 32 s)) = unat (terminal_column s) + 1"
proof -
  from assms have c: "terminal_column s < VGA_WIDTH" by (simp add: tty_inv_def)
  with assms(2) have "terminal_column s + 1 \<noteq> VGA_WIDTH"
    using col_succ(1) [OF c] by (auto simp: u32_eq_iff_unat)
  with c show ?thesis by (simp add: terminal_putchar_once_def Let_def col_succ)
qed

lemma tab_loop_returns:
  assumes "tty_inv s" and "unat stop \<le> 72" and "unat (terminal_column s) + k = unat stop"
  shows "tab_loop stop s = Some ((terminal_putchar_once 32 ^^ k) s)"
  using assms
proof (induction k arbitrary: s)
  case 0
  then show ?case by (simp add: tab_loop.simps [of stop s] word_less_nat_alt)
next
  case (Suc k)
  let ?t = "terminal_putchar_once 32 s"
  from Suc.prems have "terminal_column s < stop \<and> terminal_column s < VGA_WIDTH"
    by (simp add: word_less_nat_alt)
  then have "tab_loop stop s = tab_loop stop ?t" by (simp add: tab_loop.simps [of stop s])
  also have "\<dots> = Some ((terminal_putchar_once 32 ^^ k) ?t)"
    using Suc.prems once_space_column [OF Suc.prems(1)]
    by (intro Suc.IH once_inv) auto
  finally show ?case by (simp add: funpow_swap1)
qed

lemma tab_loop_diverges:
  assumes "tty_inv s" and "unat stop = 80"
  shows "tab_loop stop s = None"
proof (rule ccontr)
  assume "tab_loop stop s \<noteq> None"
  then obtain r where ret: "tab_loop stop s = Some r" by blast
  have "tty_inv s \<and> unat stop = 80 \<longrightarrow> False"
  proof (rule tab_loop.raw_induct [where P = "\<lambda>stop s r. tty_inv s \<and> unat stop = 80 \<longrightarrow> False", OF _ ret])
    fix f stop r and s :: "'a tty_scheme"
    assume IH: "\<And>stop s r. f stop s = Some r \<Longrightarrow> tty_inv s \<and> unat stop = 80 \<longrightarrow> False"
      and eq: "(if terminal_column s < stop \<and> terminal_column s < VGA_WIDTH
        then f stop (terminal_putchar_once 32 s) else Some s) = Some r"
    show "tty_inv s \<and> unat stop = 80 \<longrightarrow> False"
    proof
      assume inv: "tty_inv s \<and> unat stop = 80"
      then have "terminal_column s < stop \<and> terminal_column s < VGA_WIDTH"
        by (simp add: tty_inv_def word_less_nat_alt)
      with eq have "f stop (terminal_putchar_once 32 s) = Some r" by simp
      from IH [OF this] inv once_inv show False by blast
    qed
  qed
  with assms show False by blast
qed

lemma once_space_funpow:
  assumes "tty_inv s"
  shows "tty_inv ((terminal_putchar_once 32 ^^ k) s)"
    and "tty_frame s ((terminal_putchar_once 32 ^^ k) s)"
    and "tty_abs ((terminal_putchar_once 32 ^^ k) s) = (screen_glyph 32 ^^ k) (tty_abs s)"
proof -
  have glyph: "tty_abs (terminal_putchar_once 32 t) = screen_glyph 32 (tty_abs t)"
    if "tty_inv t" for t :: "'a tty_scheme"
    using once_abs [OF that, of 32] by (simp add: screen_char_def)
  have "tty_inv ((terminal_putchar_once 32 ^^ k) s) \<and> tty_frame s ((terminal_putchar_once 32 ^^ k) s)
    \<and> tty_abs ((terminal_putchar_once 32 ^^ k) s) = (screen_glyph 32 ^^ k) (tty_abs s)"
    using assms
    by (induction k) (auto simp: once_inv tty_frame_refl glyph intro: tty_frame_trans once_frame)
  then show "tty_inv ((terminal_putchar_once 32 ^^ k) s)"
    and "tty_frame s ((terminal_putchar_once 32 ^^ k) s)"
    and "tty_abs ((terminal_putchar_once 32 ^^ k) s) = (screen_glyph 32 ^^ k) (tty_abs s)" by auto
qed

lemma putchar_tab:
  assumes "tty_inv s"
  shows "terminal_putchar 9 s =
    (if unat (terminal_column s) < 72
     then Some ((terminal_putchar_once 32 ^^ (8 - unat (terminal_column s) mod 8)) s) else None)"
proof -
  let ?c = "unat (terminal_column s)"
  from assms have c: "terminal_column s < VGA_WIDTH" by (simp add: tty_inv_def)
  then have c80: "?c < 80" by (simp add: word_less_nat_alt)
  note stop = unat_next_stop [OF c]
  show ?thesis
  proof (cases "?c < 72")
    case True
    then have "?c + (8 - ?c mod 8) = 8 * (?c div 8 + 1)" and "8 * (?c div 8 + 1) \<le> 72"
      by presburger+
    with True assms stop show ?thesis
      by (simp add: terminal_putchar_def tab_loop_returns)
  next
    case False
    with c80 have "8 * (?c div 8 + 1) = 80" by presburger
    with False assms stop show ?thesis
      by (simp add: terminal_putchar_def tab_loop_diverges)
  qed
qed

section \<open>The terminal as a character sink\<close>

lemma putchar_abs:
  assumes "tty_inv s"
  shows "map_option tty_abs (terminal_putchar c s) = screen_char c (tty_abs s)"
proof (cases "c = 9")
  case True
  with assms show ?thesis by (simp add: putchar_tab once_space_funpow screen_char_def)
next
  case False
  with once_abs [OF assms False] show ?thesis by (simp add: terminal_putchar_def)
qed

interpretation tty_sink: char_sink terminal_putchar tty_inv tty_frame tty_abs screen_char "{9}"
proof
  fix s s' :: "'a tty_scheme" and c
  assume inv: "tty_inv s"
  show "map_option tty_abs (terminal_putchar c s) = screen_char c (tty_abs s)"
    by (rule putchar_abs [OF inv])
  show "terminal_putchar c s \<noteq> None" if "c \<notin> {9}"
    using that by (simp add: terminal_putchar_def)
  assume put: "terminal_putchar c s = Some s'"
  show "tty_inv s'" and "tty_frame s s'"
  proof (atomize (full), cases "c = 9")
    case True
    with put inv once_space_funpow [OF inv] show "tty_inv s' \<and> tty_frame s s'"
      by (auto simp: putchar_tab split: if_splits)
  next
    case False
    with put inv show "tty_inv s' \<and> tty_frame s s'"
      by (auto simp: terminal_putchar_def once_inv once_frame)
  qed
qed (auto intro: tty_frame_refl tty_frame_trans)

text \<open>
  C4. Output refines the abstract terminal: writing a string to the terminal has exactly the effect of
  feeding its characters one by one to the 25 by 80 grid (glyphs, newline, carriage return, backspace,
  tab, wrap at the right margin and at the bottom), including whether it returns.
\<close>

theorem terminal_write_refines:
  assumes "tty_inv s"
  shows "map_option tty_abs (terminal_write data s) = write_chars screen_char data (tty_abs s)"
  unfolding terminal_write_def by (rule tty_sink.write_abs [OF assms])

definition boot_tty :: tty where
  "boot_tty = \<lparr>mem = (\<lambda>_. 0), ports = [], terminal_row = 0, terminal_column = 0,
     terminal_color = 7, terminal_buffer = VGA_MEMORY\<rparr>"

lemma boot_tty_inv: "tty_inv boot_tty"
  by (simp add: tty_inv_def boot_tty_def)

theorem terminal_write_refines_witness:
  "tty_inv boot_tty \<and>
   map_option (\<lambda>s. (unat (terminal_row s), unat (terminal_column s))) (terminal_write [72, 105, 10, 63] boot_tty)
     = Some (1, 1)"
proof -
  have pos: "map_option (\<lambda>s. (unat (terminal_row s), unat (terminal_column s))) r =
      map_option (\<lambda>t. (cur_row t, cur_col t)) (map_option tty_abs r)" for r :: "tty option"
    by (simp add: option.map_comp o_def)
  show ?thesis
    unfolding pos terminal_write_refines [OF boot_tty_inv]
    by (simp add: boot_tty_inv screen_char_def screen_glyph_def screen_set_def screen_down_def
        tty_abs_def tty_inv_def boot_tty_def)
qed

text \<open>
  Memory safety of output: from a cursor on the screen, writing any string leaves the cursor on the
  screen and changes no byte outside the 4000 bytes of video memory, no port, and no variable of another
  component.
\<close>

theorem terminal_write_safe:
  assumes "tty_inv s" and "terminal_write data s = Some s'"
  shows "terminal_row s' < 25 \<and> terminal_column s' < 80 \<and>
    unchanged_outside VGA_MEMORY 4000 (mem s) (mem s') \<and>
    ports s' = ports s \<and> tty.more s' = tty.more s"
  using tty_sink.write_inv [OF assms(1) assms(2) [unfolded terminal_write_def]]
    tty_sink.write_frame [OF assms(1) assms(2) [unfolded terminal_write_def]]
  by (simp add: tty_inv_def tty_frame_def)

theorem terminal_write_safe_witness:
  "\<exists>s'. tty_inv boot_tty \<and> terminal_write [65, 8, 10] boot_tty = Some s' \<and> mem s' 0xC0000 = 0"
proof -
  obtain s' where s': "terminal_write [65, 8, 10] boot_tty = Some s'"
    by (auto simp: terminal_write_def terminal_putchar_def)
  have "\<not> in_region 0xC0000 VGA_MEMORY 4000" by (simp add: in_region_def)
  with terminal_write_safe [OF boot_tty_inv s'] have "mem s' 0xC0000 = mem boot_tty 0xC0000"
    by (blast dest: unchanged_outsideD)
  with s' boot_tty_inv show ?thesis by (auto simp: boot_tty_def)
qed

text \<open>
  When \<open>terminal_putchar\<close> returns: it returns for every character except a tab, and for a tab exactly
  when the cursor is left of column 72. In the last tab column the loop writes blanks until the column
  reaches 80, which wraps it to 0, below the stop again, so the call never returns.
\<close>

theorem terminal_putchar_returns_iff:
  assumes "tty_inv s"
  shows "(\<exists>s'. terminal_putchar c s = Some s') \<longleftrightarrow> c \<noteq> 9 \<or> terminal_column s < 72"
proof (cases "c = 9")
  case True
  with putchar_tab [OF assms] show ?thesis by (simp add: word_less_nat_alt)
next
  case False
  then show ?thesis by (simp add: terminal_putchar_def)
qed

theorem terminal_putchar_returns_iff_witness:
  "tty_inv (boot_tty\<lparr>terminal_column := 75\<rparr>) \<and>
   \<not> (\<exists>s'. terminal_putchar 9 (boot_tty\<lparr>terminal_column := 75\<rparr>) = Some s')"
proof -
  have h: "tty_inv (boot_tty\<lparr>terminal_column := 75\<rparr>)" by (simp add: tty_inv_def boot_tty_def)
  show ?thesis using h terminal_putchar_returns_iff [OF h, of 9] by simp
qed

section \<open>Initialisation\<close>

lemma blank_row:
  fixes s0 :: "'a tty_scheme"
  defines "body \<equiv> \<lambda>y x (s :: 'a tty_scheme). s\<lparr>mem := store16 (terminal_buffer s + 2 * (of_nat y * VGA_WIDTH + of_nat x))
      (vga_entry 32 (terminal_color s)) (mem s)\<rparr>"
  assumes "y < 25" and inv: "tty_inv s0"
    and blank: "\<And>r c. r < y \<Longrightarrow> c < 80 \<Longrightarrow> load16 (mem s0) (cell_addr r c) = vga_entry 32 (terminal_color s0)"
  defines "s1 \<equiv> for_up 80 (body y) s0"
  shows "tty_inv s1 \<and> tty_frame s0 s1 \<and> terminal_row s1 = terminal_row s0 \<and>
    terminal_column s1 = terminal_column s0 \<and>
    (\<forall>r < Suc y. \<forall>c < 80. load16 (mem s1) (cell_addr r c) = vga_entry 32 (terminal_color s0))"
proof -
  let ?v = "vga_entry 32 (terminal_color s0)"
  define I where "I x s \<longleftrightarrow> tty_inv s \<and> tty_frame s0 s \<and> terminal_row s = terminal_row s0 \<and>
    terminal_column s = terminal_column s0 \<and>
    (\<forall>r c. r < 25 \<and> c < 80 \<and> (r < y \<or> r = y \<and> c < x) \<longrightarrow> load16 (mem s) (cell_addr r c) = ?v)"
    for x and s :: "'a tty_scheme"
  have "I 80 (for_up 80 (body y) s0)"
  proof (rule for_up_invariant)
    show "I 0 s0" using inv blank by (auto simp: I_def tty_frame_refl)
  next
    fix x and s :: "'a tty_scheme"
    assume x: "x < 80" and I: "I x s"
    then have buf: "terminal_buffer s = VGA_MEMORY" and col: "terminal_color s = terminal_color s0"
      by (auto simp: I_def tty_inv_def tty_frame_def)
    then have eq: "body y x s = terminal_putentryat 32 (terminal_color s) (of_nat x) (of_nat y) s"
      by (simp add: body_def terminal_putentryat_def)
    have xy: "(of_nat y :: u32) < VGA_HEIGHT" "(of_nat x :: u32) < VGA_WIDTH"
      "unat (of_nat y :: u32) = y" "unat (of_nat x :: u32) = x"
      using x \<open>y < 25\<close> by (simp_all add: word_less_nat_alt)
    have "tty_frame s (body y x s)" unfolding eq by (rule putentryat_frame [OF buf xy(1,2)])
    with I x \<open>y < 25\<close> show "I (Suc x) (body y x s)"
      by (auto simp: I_def eq tty_inv_def putentryat_cell [OF buf] xy(3,4) load_cell_store_cell col
          less_Suc_eq intro: tty_frame_trans)
  qed
  with \<open>y < 25\<close> show ?thesis by (auto simp: I_def s1_def less_Suc_eq)
qed

lemma initialize_blank:
  "tty_inv (terminal_initialize s) \<and>
   tty_abs (terminal_initialize s) = \<lparr>cur_row = 0, cur_col = 0, cur_color = 7,
      cells = (\<lambda>r c. if r < 25 \<and> c < 80 then 0x0720 else 0)\<rparr> \<and>
   unchanged_outside VGA_MEMORY 4000 (mem s) (mem (terminal_initialize s)) \<and>
   ports (terminal_initialize s) = ports s \<and> tty.more (terminal_initialize s) = tty.more s"
proof -
  let ?s1 = "s\<lparr>terminal_row := 0, terminal_column := 0, terminal_color := 7, terminal_buffer := VGA_MEMORY\<rparr>"
  let ?row = "\<lambda>y. for_up 80 (\<lambda>x (s :: 'a tty_scheme). s\<lparr>mem := store16 (terminal_buffer s + 2 * (of_nat y * VGA_WIDTH + of_nat x))
      (vga_entry 32 (terminal_color s)) (mem s)\<rparr>)"
  let ?f = "for_up 25 ?row ?s1"
  have eq: "terminal_initialize s = ?f"
    by (simp add: terminal_initialize_def vga_entry_color_def Let_def)
  have v: "vga_entry 32 7 = 0x0720" by (simp add: vga_entry_def)
  define I where "I y t \<longleftrightarrow> tty_inv t \<and> tty_frame ?s1 t \<and> terminal_row t = 0 \<and> terminal_column t = 0 \<and>
    (\<forall>r < y. \<forall>c < 80. load16 (mem t) (cell_addr r c) = vga_entry 32 7)" for y and t :: "'a tty_scheme"
  have "I 25 ?f"
  proof (rule for_up_invariant)
    show "I 0 ?s1" by (simp add: I_def tty_inv_def tty_frame_refl)
  next
    fix y t
    assume y: "y < 25" and I: "I y t"
    then have "terminal_color t = 7" by (simp add: I_def tty_frame_def)
    with blank_row [OF y, of t] I show "I (Suc y) (?row y t)"
      by (auto simp: I_def intro: tty_frame_trans)
  qed
  then show ?thesis
    unfolding eq by (auto simp: I_def tty_abs_def tty_frame_def v intro!: ext)
qed

text \<open>
  \<open>terminal_initialize\<close> establishes the terminal invariant from any state: cursor at the top left,
  light grey on black, all 2000 cells blank, and nothing outside video memory touched.
\<close>

theorem terminal_initialize_blank:
  "tty_inv (terminal_initialize s) \<and>
   tty_abs (terminal_initialize s) = \<lparr>cur_row = 0, cur_col = 0, cur_color = 7,
      cells = (\<lambda>r c. if r < 25 \<and> c < 80 then 0x0720 else 0)\<rparr> \<and>
   unchanged_outside VGA_MEMORY 4000 (mem s) (mem (terminal_initialize s)) \<and>
   ports (terminal_initialize s) = ports s \<and> tty.more (terminal_initialize s) = tty.more s"
  by (rule initialize_blank)

end
