(* ===== verification/Libc_Stdio.thy ===== *)
theory Libc_Stdio
  imports Tty
begin

text \<open>
  Formatted output of the C library, \<^verbatim>\<open>src/libc/stdio/\<close> and \<^verbatim>\<open>src/libc/stdlib/abort.c\<close>, as built into the
  kernel (\<open>__is_libk\<close>), where \<open>putchar\<close> writes to the terminal. The loop of \<open>printf\<close> consumes its format
  in chunks; \<open>render\<close> is the reference definition, one character at a time, and the theory shows that
  the two agree. Variable arguments are a list of tagged values; a conversion that finds no argument of
  its type has no defined behaviour in C, which is \<^const>\<open>None\<close>, as is output that never ends.
\<close>

section \<open>Definitions\<close>

abbreviation EOF :: int where "EOF \<equiv> - 1"
abbreviation INT_MAX :: int where "INT_MAX \<equiv> 2147483647"

datatype va_arg = VaInt int | VaStr "u8 list"

definition putchar :: "int \<Rightarrow> 'a tty_scheme \<Rightarrow> (int \<times> 'a tty_scheme) option" where
  "putchar ic s = map_option (Pair ic) (terminal_write [word_of_int ic] s)"

primrec print :: "u8 list \<Rightarrow> 'a tty_scheme \<Rightarrow> (bool \<times> 'a tty_scheme) option" where
  "print [] s = Some (True, s)"
| "print (b # bs) s =
     Option.bind (putchar (uint b) s) (\<lambda>(r, s'). if r = EOF then Some (False, s') else print bs s')"

text \<open>One chunk of output: \<open>-1\<close> when the count would overflow or a character fails, else go on.\<close>

definition emit :: "u8 list \<Rightarrow> int \<Rightarrow> (int \<Rightarrow> 'a tty_scheme \<Rightarrow> (int \<times> 'a tty_scheme) option) \<Rightarrow>
    'a tty_scheme \<Rightarrow> (int \<times> 'a tty_scheme) option" where
  "emit bs written k s =
     (if INT_MAX - written < int (length bs) then Some (- 1, s)
      else Option.bind (print bs s)
        (\<lambda>(ok, s'). if \<not> ok then Some (- 1, s') else k (written + int (length bs)) s'))"

function printf_loop :: "u8 list \<Rightarrow> va_arg list \<Rightarrow> int \<Rightarrow> 'a tty_scheme \<Rightarrow> (int \<times> 'a tty_scheme) option" where
  "printf_loop [] args written s = Some (written, s)"
| "printf_loop (c # rest) args written s =
     (if c \<noteq> 37 \<or> (rest \<noteq> [] \<and> hd rest = 37) then
        (let format = (if c = 37 then rest else c # rest);
             amount = Suc (length (takeWhile (\<lambda>x. x \<noteq> 37) (tl format)))
         in emit (take amount format) written (printf_loop (drop amount format) args) s)
      else if rest \<noteq> [] \<and> hd rest = 99 then
        (case args of
           VaInt v # args' \<Rightarrow> emit [word_of_int v] written (printf_loop (tl rest) args') s
         | _ \<Rightarrow> None)
      else if rest \<noteq> [] \<and> hd rest = 115 then
        (case args of
           VaStr str # args' \<Rightarrow> emit str written (printf_loop (tl rest) args') s
         | _ \<Rightarrow> None)
      else emit (c # rest) written (printf_loop [] args) s)"
  by pat_completeness auto
termination
  by (relation "measure (\<lambda>(format, args, written, s). length format)")
    (auto simp: neq_Nil_conv)

declare printf_loop.simps(2) [simp del]

definition printf :: "u8 list \<Rightarrow> va_arg list \<Rightarrow> 'a tty_scheme \<Rightarrow> (int \<times> 'a tty_scheme) option" where
  "printf format args s = printf_loop format args 0 s"

definition puts :: "u8 list \<Rightarrow> 'a tty_scheme \<Rightarrow> (int \<times> 'a tty_scheme) option" where
  "puts string s = printf [37, 115, 10] [VaStr string] s"

text \<open>\<open>abort\<close> never returns; its value is the state it spins in.\<close>

definition abort :: "'a tty_scheme \<Rightarrow> 'a tty_scheme option" where
  "abort s = map_option snd (printf (cstr ''kernel: panic: abort()'' @ [10]) [] s)"

section \<open>The reference definition\<close>

fun render :: "u8 list \<Rightarrow> va_arg list \<Rightarrow> u8 list option" where
  "render [] args = Some []"
| "render [c] args = Some [c]"
| "render (c # d # ds) args =
     (if c \<noteq> 37 then map_option ((#) c) (render (d # ds) args)
      else if d = 37 then map_option ((#) 37) (render ds args)
      else if d = 99 then
        (case args of VaInt v # args' \<Rightarrow> map_option ((#) (word_of_int v)) (render ds args') | _ \<Rightarrow> None)
      else if d = 115 then
        (case args of VaStr str # args' \<Rightarrow> map_option ((@) str) (render ds args') | _ \<Rightarrow> None)
      else Some (c # d # ds))"

lemma render_plain:
  "37 \<notin> set xs \<Longrightarrow> render (xs @ ys) args = map_option ((@) xs) (render ys args)"
proof (induction xs)
  case Nil
  show ?case by (simp add: map_option.id [unfolded id_def])
next
  case (Cons x xs)
  then show ?case
    by (cases "xs @ ys") (auto simp: option.map_comp o_def)
qed

lemma print_write: "print bs s = map_option (Pair True) (terminal_write bs s)"
proof (induction bs arbitrary: s)
  case Nil
  show ?case by (simp add: terminal_write_def)
next
  case (Cons b bs)
  have "uint b \<noteq> EOF" using uint_ge_0 [of b] by linarith
  with Cons show ?case
    by (auto simp: putchar_def terminal_write_def split: bind_splits)
qed

lemma emit_write:
  assumes "written + int (length bs) \<le> INT_MAX"
  shows "emit bs written k s = Option.bind (terminal_write bs s) (k (written + int (length bs)))"
  using assms by (simp add: emit_def print_write bind_map_option o_def)

lemma write_prefix:
  "Option.bind (terminal_write bs s) (\<lambda>t. map_option f (terminal_write cs t)) =
   map_option f (terminal_write (bs @ cs) s)"
  by (simp add: terminal_write_def write_chars_append split: bind_splits)

lemma emit_step:
  assumes "0 \<le> written" and "written + int (length (bs @ out)) \<le> INT_MAX"
    and "\<And>n t. 0 \<le> n \<Longrightarrow> n + int (length out) \<le> INT_MAX \<Longrightarrow>
      k n t = map_option (Pair (n + int (length out))) (terminal_write out t)"
  shows "emit bs written k s =
    map_option (Pair (written + int (length (bs @ out)))) (terminal_write (bs @ out) s)"
proof -
  let ?n = "written + int (length bs)"
  have "emit bs written k s = Option.bind (terminal_write bs s) (k ?n)"
    using assms(2) by (simp add: emit_write)
  also have "k ?n = (\<lambda>t. map_option (Pair (?n + int (length out))) (terminal_write out t))"
    using assms(1,2) by (intro ext assms(3)) auto
  finally show ?thesis by (simp add: write_prefix add.assoc)
qed

lemma append_Cons_fun: "(@) (x # xs) = (\<lambda>ys. x # xs @ ys)"
  by (simp add: fun_eq_iff)

lemma render_chunk:
  assumes "c \<noteq> 37 \<or> (rest \<noteq> [] \<and> hd rest = 37)"
    and "format = (if c = 37 then rest else c # rest)"
    and "amount = Suc (length (takeWhile (\<lambda>x. x \<noteq> 37) (tl format)))"
  shows "render (c # rest) args = map_option ((@) (take amount format)) (render (drop amount format) args)"
proof -
  from assms(1,2) obtain f fs where f: "format = f # fs" "c \<noteq> 37 \<Longrightarrow> f = c \<and> fs = rest"
    "c = 37 \<Longrightarrow> f = 37 \<and> rest = 37 # fs"
    by (cases "c = 37"; cases rest) auto
  have head: "render (c # rest) args = map_option ((#) f) (render fs args)"
    using f by (cases "c = 37"; cases rest) (auto simp: option.map_comp)
  have "37 \<notin> set (takeWhile (\<lambda>x. x \<noteq> 37) fs)" by (auto dest: set_takeWhileD)
  then have "render fs args = map_option ((@) (takeWhile (\<lambda>x. x \<noteq> 37) fs))
      (render (dropWhile (\<lambda>x. x \<noteq> 37) fs) args)"
    using render_plain [of "takeWhile (\<lambda>x. x \<noteq> 37) fs" "dropWhile (\<lambda>x. x \<noteq> 37) fs"] by simp
  with head f(1) assms(3) show ?thesis
    by (simp add: takeWhile_eq_take [symmetric] dropWhile_eq_drop [symmetric] option.map_comp
        o_def append_Cons_fun)
qed

lemma printf_loop_render:
  assumes "render format args = Some out" and "0 \<le> written" and "written + int (length out) \<le> INT_MAX"
  shows "printf_loop format args written s =
    map_option (Pair (written + int (length out))) (terminal_write out s)"
  using assms
proof (induction format args written s arbitrary: out rule: printf_loop.induct)
  case (1 args written s)
  then show ?case by (simp add: terminal_write_def)
next
  case (2 c rest args written s)
  note unfold = printf_loop.simps(2) [of c rest args written s]
  show ?case
  proof (cases "c \<noteq> 37 \<or> (rest \<noteq> [] \<and> hd rest = 37)")
    case True
    define format where "format = (if c = 37 then rest else c # rest)"
    define amount where "amount = Suc (length (takeWhile (\<lambda>x. x \<noteq> 37) (tl format)))"
    from "2.prems"(1) render_chunk [OF True format_def amount_def, of args]
    obtain out' where out': "render (drop amount format) args = Some out'" "out = take amount format @ out'"
      by auto
    have "emit (take amount format) written (printf_loop (drop amount format) args) s =
        map_option (Pair (written + int (length out))) (terminal_write out s)"
      unfolding out'(2)
      by (rule emit_step)
        (use "2.prems" out' "2.IH"(1) [OF True format_def amount_def _ _ _] in auto)
    with True show ?thesis by (simp add: unfold format_def amount_def Let_def)
  next
    case False
    then have c: "c = 37" by simp
    consider (chr) v ds args' out' where "rest = 99 # ds" "args = VaInt v # args'"
        "render ds args' = Some out'" "out = [word_of_int v] @ out'"
      | (str) xs ds args' out' where "rest = 115 # ds" "args = VaStr xs # args'"
        "render ds args' = Some out'" "out = xs @ out'"
      | (raw) "\<not> (rest \<noteq> [] \<and> hd rest = 99)" "\<not> (rest \<noteq> [] \<and> hd rest = 115)" "out = (c # rest) @ []"
      using "2.prems"(1) False c
      by (cases rest) (auto split: if_splits list.splits va_arg.splits)
    then show ?thesis
    proof cases
      case chr
      have "emit [word_of_int v] written (printf_loop ds args') s =
          map_option (Pair (written + int (length out))) (terminal_write out s)"
        unfolding chr(4) by (rule emit_step) (use "2.prems" chr c "2.IH"(2) [OF False] in auto)
      with c chr show ?thesis by (simp add: printf_loop.simps(2))
    next
      case str
      have "emit xs written (printf_loop ds args') s =
          map_option (Pair (written + int (length out))) (terminal_write out s)"
        unfolding str(4) by (rule emit_step) (use "2.prems" str c "2.IH"(3) [OF False] in auto)
      with c str show ?thesis by (simp add: printf_loop.simps(2))
    next
      case raw
      have "emit (c # rest) written (printf_loop [] args) s =
          map_option (Pair (written + int (length out))) (terminal_write out s)"
        unfolding raw(3) by (rule emit_step) (use "2.prems" raw in \<open>auto simp: terminal_write_def\<close>)
      with False raw show ?thesis by (auto simp: printf_loop.simps(2))
    qed
  qed
qed

lemma printf_write:
  assumes "render format args = Some out" and "length out \<le> nat INT_MAX"
  shows "printf format args s = map_option (Pair (int (length out))) (terminal_write out s)"
  using printf_loop_render [OF assms(1), of 0 s] assms(2) by (simp add: printf_def)

text \<open>
  C12. \<open>printf\<close> implements the reference rendering: whenever the format has a rendering of at most
  \<open>INT_MAX\<close> bytes, \<open>printf\<close> writes exactly those bytes to the terminal, in order, and returns their
  number.
\<close>

theorem printf_renders:
  assumes "render format args = Some out" and "length out \<le> nat INT_MAX"
  shows "printf format args s = map_option (Pair (int (length out))) (terminal_write out s)"
  by (rule printf_write [OF assms])

theorem printf_renders_witness:
  "\<exists>s. printf [65, 37, 37, 37, 115, 37, 99] [VaStr [66, 67], VaInt 68] boot_tty = Some (5, s)"
proof -
  have h: "render [65, 37, 37, 37, 115, 37, 99] [VaStr [66, 67], VaInt 68] = Some [65, 37, 66, 67, 68]"
    and len: "length [65, 37, 66, 67, 68 :: u8] \<le> nat INT_MAX" by simp_all
  show ?thesis using printf_renders [OF h len, of boot_tty]
    by (auto simp: terminal_write_def terminal_putchar_def)
qed

text \<open>
  \<open>puts\<close> writes its string followed by a newline, for every string that fits an \<open>int\<close> count and has
  no tab, and returns the number of characters written.
\<close>

theorem puts_writes_line:
  assumes "tty_inv s" and "length string < nat INT_MAX" and "9 \<notin> set string"
  shows "\<exists>s'. puts string s = Some (int (length string) + 1, s') \<and>
    terminal_write (string @ [10]) s = Some s' \<and> tty_inv s' \<and> tty_frame s s'"
proof -
  obtain s' where s': "terminal_write (string @ [10]) s = Some s'" "tty_inv s'" "tty_frame s s'"
    using tty_sink.write_returns [OF assms(1), of "string @ [10]"] assms(3)
    by (auto simp: terminal_write_def)
  have "render [37, 115, 10] [VaStr string] = Some (string @ [10])" by simp
  from printf_write [OF this, of s] s' assms(2) show ?thesis by (auto simp: puts_def)
qed

theorem puts_writes_line_witness:
  "tty_inv boot_tty \<and> (\<exists>s'. puts [72, 105] boot_tty = Some (3, s'))"
proof -
  have h: "length [72, 105 :: u8] < nat INT_MAX" "(9 :: u8) \<notin> set [72, 105]" by simp_all
  show ?thesis using puts_writes_line [OF boot_tty_inv h] boot_tty_inv by auto
qed

end
