(* ===== verification/Port_IO.thy ===== *)
theory Port_IO
  imports Interfaces
begin

text \<open>
  Port access, \<^verbatim>\<open>src/legacy/kernel/arch/i386/cpu/io.h\<close>, and the contract of the hardware behind the
  ports that the kernels program: the pair of 8259A interrupt controllers.

  \<open>outb\<close> and \<open>inb\<close> append to the history of port accesses; what \<open>inb\<close> returns is the device's answer.
  \<open>pic_chip\<close> interprets the writes of a history as the 8259A data sheet does: a command write with
  bit 4 starts an initialisation sequence whose next three data writes are ICW2 (vector base), ICW3
  and ICW4; any other data write sets the interrupt mask. \<open>pic_device\<close> is the promise of the hardware
  that a read of a data port returns the mask.
\<close>

section \<open>Definitions\<close>

definition outb :: "u16 \<Rightarrow> u8 \<Rightarrow> 'a machine_scheme \<Rightarrow> 'a machine_scheme" where
  "outb port val s = s\<lparr>ports := Out port val # ports s\<rparr>"

definition inb :: "device \<Rightarrow> u16 \<Rightarrow> 'a machine_scheme \<Rightarrow> u8 \<times> 'a machine_scheme" where
  "inb dev port s = (let ret = dev (ports s) port in (ret, s\<lparr>ports := In port ret # ports s\<rparr>))"

definition io_wait :: "'a machine_scheme \<Rightarrow> 'a machine_scheme" where
  "io_wait s = outb 0x80 0 s"

lemma outb_fields [simp]:
  "mem (outb p v s) = mem s"
  "ports (outb p v s) = Out p v # ports s"
  "machine.more (outb p v s) = machine.more s"
  by (simp_all add: outb_def)

lemma io_wait_fields [simp]:
  "mem (io_wait s) = mem s"
  "ports (io_wait s) = Out 0x80 0 # ports s"
  "machine.more (io_wait s) = machine.more s"
  by (simp_all add: io_wait_def)

section \<open>The 8259A contract\<close>

record pic_chip =
  icw :: nat  \<comment> \<open>number of the initialisation word expected next; 0 when operating\<close>
  vector_base :: u8
  imr :: u8

definition chip_command :: "u8 \<Rightarrow> pic_chip \<Rightarrow> pic_chip" where
  "chip_command v c = (if bit v 4 then c\<lparr>icw := 2, imr := 0\<rparr> else c)"

definition chip_data :: "u8 \<Rightarrow> pic_chip \<Rightarrow> pic_chip" where
  "chip_data v c =
     (if icw c = 2 then c\<lparr>icw := 3, vector_base := v\<rparr>
      else if icw c = 3 then c\<lparr>icw := 4\<rparr>
      else if icw c = 4 then c\<lparr>icw := 0\<rparr>
      else c\<lparr>imr := v\<rparr>)"

fun pic_state :: "u16 \<Rightarrow> u16 \<Rightarrow> io_event list \<Rightarrow> pic_chip" where
  "pic_state cmd dat [] = \<lparr>icw = 0, vector_base = 0, imr = 0\<rparr>"
| "pic_state cmd dat (In p v # h) = pic_state cmd dat h"
| "pic_state cmd dat (Out p v # h) =
     (if p = cmd then chip_command v (pic_state cmd dat h)
      else if p = dat then chip_data v (pic_state cmd dat h)
      else pic_state cmd dat h)"

abbreviation master :: "io_event list \<Rightarrow> pic_chip" where "master \<equiv> pic_state 0x20 0x21"
abbreviation slave :: "io_event list \<Rightarrow> pic_chip" where "slave \<equiv> pic_state 0xA0 0xA1"

definition pic_ready :: "'a machine_scheme \<Rightarrow> bool" where
  "pic_ready s \<longleftrightarrow> icw (master (ports s)) = 0 \<and> icw (slave (ports s)) = 0"

definition irq_masked :: "'a machine_scheme \<Rightarrow> u8 \<Rightarrow> bool" where
  "irq_masked s i =
     (if i < 8 then bit (imr (master (ports s))) (unat i)
      else bit (imr (slave (ports s))) (unat i - 8))"

locale pic_device =
  fixes dev :: device
  assumes read_master: "icw (master h) = 0 \<Longrightarrow> dev h 0x21 = imr (master h)"
    and read_slave: "icw (slave h) = 0 \<Longrightarrow> dev h 0xA1 = imr (slave h)"

text \<open>The device the data sheet describes, as a concrete one.\<close>

definition pic_dev :: device where
  "pic_dev h p = (if p = 0x21 then imr (master h) else if p = 0xA1 then imr (slave h) else 0)"

interpretation chip: pic_device pic_dev
  by unfold_locales (simp_all add: pic_dev_def)

lemma set_mask_bit: "n < 8 \<Longrightarrow> bit (v OR 2 ^ k :: u8) n \<longleftrightarrow> n = k \<or> bit v n"
  by (auto simp: bit_simps)

lemma clear_mask_bit: "n < 8 \<Longrightarrow> bit (v AND NOT (2 ^ k) :: u8) n \<longleftrightarrow> n \<noteq> k \<and> bit v n"
  by (auto simp: bit_simps)

lemma unat_irq_less:
  "i < 8 \<Longrightarrow> unat (i :: u8) < 8"
  "\<not> i < 8 \<Longrightarrow> i < 16 \<Longrightarrow> unat (i :: u8) - 8 < 8"
  "\<not> i < 8 \<Longrightarrow> i < 16 \<Longrightarrow> unat (i - 8 :: u8) = unat i - 8"
  by (simp_all add: word_less_nat_alt unat_sub_if')

lemma irq_line_eq:
  "i < 8 \<Longrightarrow> j < 8 \<Longrightarrow> unat (i :: u8) = unat j \<longleftrightarrow> i = j"
  "\<not> i < 8 \<Longrightarrow> \<not> j < 8 \<Longrightarrow> unat (i :: u8) - 8 = unat j - 8 \<longleftrightarrow> i = j"
  by (auto simp: word_less_nat_alt u8_eq_iff_unat)

end
