(* ===== verification/Idt.thy ===== *)
theory Idt
  imports Tty Port_IO
begin

text \<open>
  The interrupt descriptor table of the i386 kernel, \<^verbatim>\<open>src/legacy/kernel/arch/i386/cpu/idt.c\<close> and
  \<^verbatim>\<open>idt.h\<close>. The static table and pointer extend the state of the terminal; \<open>idtr\<close> is the processor
  register that \<^verbatim>\<open>lidt\<close> loads. The addresses the linker gives to \<open>idt\<close> and \<open>idtp\<close> are parameters.
  \<open>gate_of\<close> reads a gate as the processor does, and the table implements the interface \<open>gate_table\<close>.
\<close>

section \<open>Definitions\<close>

abbreviation IDT_ENTRIES :: nat where "IDT_ENTRIES \<equiv> 256"
abbreviation KERNEL_CS :: u16 where "KERNEL_CS \<equiv> 0x08"
abbreviation IDT_FLAG_INTERRUPT_GATE :: u8 where "IDT_FLAG_INTERRUPT_GATE \<equiv> 0x8E"

record idt_entry =
  base_low :: u16
  sel :: u16
  always0 :: u8
  flags :: u8
  base_high :: u16

record idt_ptr =
  limit :: u16
  base :: u32

record idt_state = tty +
  idt :: "idt_entry list"
  idtp :: idt_ptr
  idtr :: idt_ptr

text \<open>\<open>sizeof(struct idt_entry)\<close> of the packed struct.\<close>

abbreviation sizeof_idt_entry :: nat where "sizeof_idt_entry \<equiv> 8"

definition zero_entry :: idt_entry where
  "zero_entry = \<lparr>base_low = 0, sel = 0, always0 = 0, flags = 0, base_high = 0\<rparr>"

definition idt_set_gate :: "u8 \<Rightarrow> u32 \<Rightarrow> u16 \<Rightarrow> u8 \<Rightarrow> 'a idt_state_scheme \<Rightarrow> 'a idt_state_scheme" where
  "idt_set_gate num addr selector fl s =
     s\<lparr>idt := (idt s)[unat num :=
        \<lparr>base_low = ucast (addr AND 0xFFFF), sel = selector, always0 = 0, flags = fl,
         base_high = ucast (drop_bit 16 addr AND 0xFFFF)\<rparr>]\<rparr>"

text \<open>\<open>memset\<close> over the whole table makes every entry zero; \<open>idt_flush\<close> is \<^verbatim>\<open>lidt\<close> on \<open>idtp\<close>.\<close>

definition idt_flush :: "'a idt_state_scheme \<Rightarrow> 'a idt_state_scheme" where
  "idt_flush s = s\<lparr>idtr := idtp s\<rparr>"

definition idt_install :: "u32 \<Rightarrow> 'a idt_state_scheme \<Rightarrow> 'a idt_state_scheme" where
  "idt_install idt_addr s =
     (let s1 = s\<lparr>idtp := \<lparr>limit = of_nat (sizeof_idt_entry * IDT_ENTRIES - 1), base = idt_addr\<rparr>\<rparr>;
          s2 = s1\<lparr>idt := replicate IDT_ENTRIES zero_entry\<rparr>
      in idt_flush s2)"

section \<open>Gates as the processor reads them\<close>

text \<open>Target offset, selector and type byte of a present gate.\<close>

definition gate_target :: "idt_entry \<Rightarrow> (u32 \<times> u16 \<times> u8) option" where
  "gate_target e =
     (if bit (flags e) 7
      then Some (push_bit 16 (ucast (base_high e)) OR ucast (base_low e), sel e, flags e) else None)"

definition gate_of :: "'a idt_state_scheme \<Rightarrow> nat \<Rightarrow> (u32 \<times> u16 \<times> u8) option" where
  "gate_of s n = gate_target (idt s ! n)"

definition idt_wf :: "'a idt_state_scheme \<Rightarrow> bool" where
  "idt_wf s \<longleftrightarrow> length (idt s) = IDT_ENTRIES"

definition kernel_gate :: "nat \<Rightarrow> u32 \<Rightarrow> 'a idt_state_scheme \<Rightarrow> 'a idt_state_scheme" where
  "kernel_gate n h s = idt_set_gate (of_nat n) h KERNEL_CS IDT_FLAG_INTERRUPT_GATE s"

lemma unat_of_nat_u8 [simp]: "n < 256 \<Longrightarrow> unat (of_nat n :: u8) = n"
  by (simp add: unat_of_nat)

lemma set_gate_fields [simp]:
  "mem (idt_set_gate n h c f s) = mem s" "ports (idt_set_gate n h c f s) = ports s"
  "terminal_row (idt_set_gate n h c f s) = terminal_row s"
  "terminal_column (idt_set_gate n h c f s) = terminal_column s"
  "terminal_color (idt_set_gate n h c f s) = terminal_color s"
  "terminal_buffer (idt_set_gate n h c f s) = terminal_buffer s"
  "idtr (idt_set_gate n h c f s) = idtr s" "idtp (idt_set_gate n h c f s) = idtp s"
  "idt_state.more (idt_set_gate n h c f s) = idt_state.more s"
  by (simp_all add: idt_set_gate_def)

interpretation kernel_idt: gate_table kernel_gate gate_of
  "\<lambda>h. (h, KERNEL_CS, IDT_FLAG_INTERRUPT_GATE)" idt_wf
proof
  fix s :: "'a idt_state_scheme" and n m :: nat and h :: u32
  assume wf: "idt_wf s" and n: "n < 256"
  then show "idt_wf (kernel_gate n h s)"
    by (simp add: idt_wf_def kernel_gate_def idt_set_gate_def)
  assume m: "m < 256"
  have "gate_target \<lparr>base_low = ucast (h AND 0xFFFF), sel = KERNEL_CS, always0 = 0,
      flags = IDT_FLAG_INTERRUPT_GATE, base_high = ucast (drop_bit 16 h AND 0xFFFF)\<rparr> =
      Some (h, KERNEL_CS, IDT_FLAG_INTERRUPT_GATE)"
    unfolding gate_target_def by (simp only: idt_entry.select_convs split_address) simp
  with wf n m show "gate_of (kernel_gate n h s) m =
      (if m = n then Some (h, KERNEL_CS, IDT_FLAG_INTERRUPT_GATE) else gate_of s m)"
    by (simp add: idt_wf_def kernel_gate_def idt_set_gate_def gate_of_def)
qed

lemma idt_install_wf [simp]: "idt_wf (idt_install a s)"
  by (simp add: idt_install_def idt_wf_def idt_flush_def Let_def)

lemma idt_install_empty: "n < 256 \<Longrightarrow> gate_of (idt_install a s) n = None"
  by (simp add: idt_install_def gate_of_def gate_target_def zero_entry_def idt_flush_def Let_def)

lemma idt_install_register:
  "idtr (idt_install a s) = \<lparr>limit = 2047, base = a\<rparr>"
  by (simp add: idt_install_def idt_flush_def Let_def)

end
