(* ===== verification/Pic.thy ===== *)
theory Pic
  imports Port_IO
begin

text \<open>
  The interrupt controller driver of the i386 kernel, \<^verbatim>\<open>src/legacy/kernel/arch/i386/cpu/pic.c\<close>. Against the
  8259A contract of \<open>Port_IO\<close> the theory shows that \<open>pic_remap\<close> moves the vector bases and keeps the
  masks, and that \<open>pic_set_mask\<close> and \<open>pic_clear_mask\<close> implement the interface \<open>irq_mask_ctl\<close>.
\<close>

section \<open>Definitions\<close>

abbreviation PIC1_COMMAND :: u16 where "PIC1_COMMAND \<equiv> 0x20"
abbreviation PIC1_DATA :: u16 where "PIC1_DATA \<equiv> 0x21"
abbreviation PIC2_COMMAND :: u16 where "PIC2_COMMAND \<equiv> 0xA0"
abbreviation PIC2_DATA :: u16 where "PIC2_DATA \<equiv> 0xA1"
abbreviation PIC_EOI :: u8 where "PIC_EOI \<equiv> 0x20"
abbreviation ICW1_ICW4 :: u8 where "ICW1_ICW4 \<equiv> 0x01"
abbreviation ICW1_INIT :: u8 where "ICW1_INIT \<equiv> 0x10"
abbreviation ICW4_8086 :: u8 where "ICW4_8086 \<equiv> 0x01"

definition pic_remap :: "device \<Rightarrow> int \<Rightarrow> int \<Rightarrow> 'a machine_scheme \<Rightarrow> 'a machine_scheme" where
  "pic_remap dev offset1 offset2 s =
     (let (a1, s) = inb dev PIC1_DATA s;
          (a2, s) = inb dev PIC2_DATA s
      in steps
        [outb PIC1_COMMAND (ICW1_INIT OR ICW1_ICW4), io_wait,
         outb PIC2_COMMAND (ICW1_INIT OR ICW1_ICW4), io_wait,
         outb PIC1_DATA (word_of_int offset1), io_wait,
         outb PIC2_DATA (word_of_int offset2), io_wait,
         outb PIC1_DATA 4, io_wait,
         outb PIC2_DATA 2, io_wait,
         outb PIC1_DATA ICW4_8086, io_wait,
         outb PIC2_DATA ICW4_8086, io_wait,
         outb PIC1_DATA a1,
         outb PIC2_DATA a2] s)"

definition pic_send_eoi :: "u8 \<Rightarrow> 'a machine_scheme \<Rightarrow> 'a machine_scheme" where
  "pic_send_eoi irq s =
     (let s1 = (if irq \<ge> 8 then outb PIC2_COMMAND PIC_EOI s else s)
      in outb PIC1_COMMAND PIC_EOI s1)"

definition pic_set_mask :: "device \<Rightarrow> u8 \<Rightarrow> 'a machine_scheme \<Rightarrow> 'a machine_scheme" where
  "pic_set_mask dev irq_line s =
     (let port = (if irq_line < 8 then PIC1_DATA else PIC2_DATA);
          line = (if irq_line < 8 then irq_line else irq_line - 8);
          (v, s) = inb dev port s
      in outb port (v OR push_bit (unat line) 1) s)"

definition pic_clear_mask :: "device \<Rightarrow> u8 \<Rightarrow> 'a machine_scheme \<Rightarrow> 'a machine_scheme" where
  "pic_clear_mask dev irq_line s =
     (let port = (if irq_line < 8 then PIC1_DATA else PIC2_DATA);
          line = (if irq_line < 8 then irq_line else irq_line - 8);
          (v, s) = inb dev port s
      in outb port (v AND NOT (push_bit (unat line) 1)) s)"

section \<open>Properties\<close>

lemma pic_remap_trace:
  "ports (pic_remap dev o1 o2 s) =
    (let a1 = dev (ports s) 0x21; a2 = dev (In 0x21 a1 # ports s) 0xA1
     in [Out 0xA1 a2, Out 0x21 a1,
         Out 0x80 0, Out 0xA1 1, Out 0x80 0, Out 0x21 1,
         Out 0x80 0, Out 0xA1 2, Out 0x80 0, Out 0x21 4,
         Out 0x80 0, Out 0xA1 (word_of_int o2), Out 0x80 0, Out 0x21 (word_of_int o1),
         Out 0x80 0, Out 0xA0 0x11, Out 0x80 0, Out 0x20 0x11, In 0xA1 a2, In 0x21 a1] @ ports s)"
  by (simp add: pic_remap_def inb_def Let_def)

lemma pic_remap_keeps: "mem (pic_remap dev o1 o2 s) = mem s"
  "machine.more (pic_remap dev o1 o2 s) = machine.more s"
  by (simp_all add: pic_remap_def inb_def Let_def)

lemma pic_remap_master:
  "master (ports (pic_remap dev o1 o2 s)) =
    \<lparr>icw = 0, vector_base = word_of_int o1, imr = dev (ports s) 0x21\<rparr>"
  by (simp add: pic_remap_trace Let_def chip_command_def chip_data_def)

lemma pic_remap_slave:
  "slave (ports (pic_remap dev o1 o2 s)) =
    \<lparr>icw = 0, vector_base = word_of_int o2, imr = dev (In 0x21 (dev (ports s) 0x21) # ports s) 0xA1\<rparr>"
  by (simp add: pic_remap_trace Let_def chip_command_def chip_data_def)

context pic_device
begin

lemma remap_keeps_masks:
  assumes "pic_ready s"
  shows "pic_ready (pic_remap dev o1 o2 s)" "irq_masked (pic_remap dev o1 o2 s) i = irq_masked s i"
  using assms read_master [of "ports s"] read_slave [of "In 0x21 (dev (ports s) 0x21) # ports s"]
  by (simp_all add: pic_ready_def irq_masked_def pic_remap_master pic_remap_slave)

lemma set_mask_imr:
  assumes "pic_ready s"
  shows "master (ports (pic_set_mask dev i s)) =
      (if i < 8 then (master (ports s))\<lparr>imr := imr (master (ports s)) OR push_bit (unat i) 1\<rparr>
       else master (ports s))"
    and "slave (ports (pic_set_mask dev i s)) =
      (if i < 8 then slave (ports s)
       else (slave (ports s))\<lparr>imr := imr (slave (ports s)) OR push_bit (unat (i - 8)) 1\<rparr>)"
  using assms
  by (simp_all add: pic_ready_def pic_set_mask_def inb_def Let_def chip_data_def read_master read_slave)

lemma clear_mask_imr:
  assumes "pic_ready s"
  shows "master (ports (pic_clear_mask dev i s)) =
      (if i < 8 then (master (ports s))\<lparr>imr := imr (master (ports s)) AND NOT (push_bit (unat i) 1)\<rparr>
       else master (ports s))"
    and "slave (ports (pic_clear_mask dev i s)) =
      (if i < 8 then slave (ports s)
       else (slave (ports s))\<lparr>imr := imr (slave (ports s)) AND NOT (push_bit (unat (i - 8)) 1)\<rparr>)"
  using assms
  by (simp_all add: pic_ready_def pic_clear_mask_def inb_def Let_def chip_data_def read_master read_slave)

end

sublocale pic_device \<subseteq> pic_ctl: irq_mask_ctl "pic_set_mask dev" "pic_clear_mask dev" irq_masked pic_ready
proof
  fix s :: "'a machine_scheme" and i j :: u8
  assume s: "pic_ready s" and i: "i < 16"
  note set = set_mask_imr [OF s, of i] and clear = clear_mask_imr [OF s, of i]
  show "pic_ready (pic_set_mask dev i s)" "pic_ready (pic_clear_mask dev i s)"
    using s by (simp_all add: pic_ready_def set [unfolded pic_ready_def] clear [unfolded pic_ready_def])
  assume j: "j < 16"
  show "irq_masked (pic_set_mask dev i s) j \<longleftrightarrow> j = i \<or> irq_masked s j"
    using i j by (auto simp: irq_masked_def set set_mask_bit unat_irq_less irq_line_eq)
  show "irq_masked (pic_clear_mask dev i s) j \<longleftrightarrow> j \<noteq> i \<and> irq_masked s j"
    using i j by (auto simp: irq_masked_def clear clear_mask_bit unat_irq_less irq_line_eq)
qed

context pic_device
begin

lemma mask_exact:
  assumes "pic_ready s" "i < 16" "j < 16"
  shows "irq_masked (pic_set_mask dev i s) j \<longleftrightarrow> j = i \<or> irq_masked s j"
    and "irq_masked (pic_clear_mask dev i s) j \<longleftrightarrow> j \<noteq> i \<and> irq_masked s j"
  by (rule pic_ctl.masked_mask [OF assms], rule pic_ctl.masked_unmask [OF assms])

end

text \<open>
  Masks: on 8259A controllers that are not being initialised, \<open>pic_set_mask\<close> masks exactly its own
  line and \<open>pic_clear_mask\<close> unmasks exactly its own line, for all sixteen lines across both chips.
\<close>

theorem pic_mask_exact:
  assumes "pic_device dev" and "pic_ready s" and "i < 16" and "j < 16"
  shows "(irq_masked (pic_set_mask dev i s) j \<longleftrightarrow> j = i \<or> irq_masked s j) \<and>
    (irq_masked (pic_clear_mask dev i s) j \<longleftrightarrow> j \<noteq> i \<and> irq_masked s j)"
  using pic_device.mask_exact [OF assms] by blast

theorem pic_mask_exact_witness:
  "pic_device pic_dev \<and> pic_ready \<lparr>mem = (\<lambda>_. 0), ports = []\<rparr> \<and>
   irq_masked (pic_set_mask pic_dev 12 \<lparr>mem = (\<lambda>_. 0), ports = []\<rparr>) 12"
proof -
  have h: "pic_ready \<lparr>mem = (\<lambda>_. 0), ports = []\<rparr>" by (simp add: pic_ready_def)
  show ?thesis using h chip.pic_device_axioms pic_mask_exact [OF chip.pic_device_axioms h, of 12 12]
    by simp
qed

text \<open>
  C35. \<open>pic_remap\<close> leaves both controllers operating with the requested vector bases and, on 8259A
  controllers that were operating before, with every interrupt line masked exactly as it was.
\<close>

theorem pic_remap_correct:
  assumes "pic_device dev" and "pic_ready s"
  shows "vector_base (master (ports (pic_remap dev o1 o2 s))) = word_of_int o1 \<and>
    vector_base (slave (ports (pic_remap dev o1 o2 s))) = word_of_int o2 \<and>
    pic_ready (pic_remap dev o1 o2 s) \<and>
    irq_masked (pic_remap dev o1 o2 s) = irq_masked s"
  using pic_device.remap_keeps_masks [OF assms]
  by (auto simp: pic_remap_master pic_remap_slave)

theorem pic_remap_correct_witness:
  "pic_ready \<lparr>mem = (\<lambda>_. 0), ports = [Out 0x21 0xB8]\<rparr> \<and>
   vector_base (master (ports (pic_remap pic_dev 32 40 \<lparr>mem = (\<lambda>_. 0), ports = [Out 0x21 0xB8]\<rparr>))) = 32"
proof -
  have h: "pic_ready \<lparr>mem = (\<lambda>_. 0), ports = [Out 0x21 0xB8]\<rparr>"
    by (simp add: pic_ready_def chip_data_def)
  show ?thesis using h pic_remap_correct [OF chip.pic_device_axioms h, of 32 40] by simp
qed

end
