(* ===== verification/Isr.thy ===== *)
theory Isr
  imports Idt Pic
begin

text \<open>
  Interrupt dispatch of the i386 kernel: \<^verbatim>\<open>isr.c\<close>, \<^verbatim>\<open>irq.c\<close> and \<^verbatim>\<open>interrupts.c\<close> under
  \<^verbatim>\<open>src/legacy/kernel/arch/i386/cpu/\<close>. The entry stubs of \<^verbatim>\<open>isr_stubs.S\<close> are assembly: their addresses are
  the parameters \<open>isr_stub\<close> and \<open>irq_stub\<close>. Function pointers are addresses, 0 the null pointer; the effect
  of calling one is the parameter \<open>call\<close>. \<open>intr_flag\<close> is the processor's interrupt flag.

  Shown: the number writer prints the decimal numeral and stays inside its ten-byte buffer, the hexadecimal
  writer prints the eight digits of the value, \<open>interrupts_initialize\<close> builds exactly the intended table and
  leaves only the keyboard line unmasked, an unhandled exception prints its message and halts, and a hardware
  interrupt is acknowledged without looking at the registered handlers.
\<close>

section \<open>Definitions\<close>

record registers =
  ds :: u32
  edi :: u32
  esi :: u32
  ebp :: u32
  esp :: u32
  ebx :: u32
  edx :: u32
  ecx :: u32
  eax :: u32
  int_no :: u32
  err_code :: u32
  eip :: u32
  cs :: u32
  eflags :: u32
  useresp :: u32
  ss :: u32

record intr_state = idt_state +
  interrupt_handlers :: "u32 list"
  intr_flag :: bool

text \<open>How a handler ends: it returns, it stops the processor for good, or it has no defined end.\<close>

datatype 's outcome = Returned 's | Halted 's | NoReturn

definition exception_messages :: "string list" where
  "exception_messages =
    [''Division By Zero'', ''Debug'', ''Non Maskable Interrupt'', ''Breakpoint'',
     ''Into Detected Overflow'', ''Out of Bounds'', ''Invalid Opcode'', ''No Coprocessor'',
     ''Double Fault'', ''Coprocessor Segment Overrun'', ''Bad TSS'', ''Segment Not Present'',
     ''Stack Fault'', ''General Protection Fault'', ''Page Fault'', ''Unknown Interrupt'',
     ''Coprocessor Fault'', ''Alignment Check'', ''Machine Check'', ''SIMD Floating-Point'',
     ''Reserved'', ''Reserved'', ''Reserved'', ''Reserved'',
     ''Reserved'', ''Reserved'', ''Reserved'', ''Reserved'',
     ''Reserved'', ''Reserved'', ''Reserved'', ''Reserved'']"

text \<open>
  The loop that fills \<open>digits[]\<close>; the list holds \<open>digits[i-1]\<close> down to \<open>digits[0]\<close>, the order in which the
  second loop prints them.
\<close>

function digit_loop :: "u32 \<Rightarrow> u8 list \<Rightarrow> u8 list" where
  "digit_loop n digits =
     (if n > 0 then digit_loop (n div 10) ((48 + ucast (n mod 10)) # digits) else digits)"
  by pat_completeness auto
termination
  by (relation "measure (\<lambda>(n, digits). unat n)") (auto simp: word_less_nat_alt unat_div_distrib)

declare digit_loop.simps [simp del]

definition write_uint :: "u32 \<Rightarrow> 'a tty_scheme \<Rightarrow> 'a tty_scheme option" where
  "write_uint n s =
     (if n = 0 then terminal_putchar 48 s else terminal_write (digit_loop n []) s)"

definition isr_register_handler :: "u8 \<Rightarrow> u32 \<Rightarrow> 'a intr_state_scheme \<Rightarrow> 'a intr_state_scheme" where
  "isr_register_handler n handler s =
     s\<lparr>interrupt_handlers := (interrupt_handlers s)[unat n := handler]\<rparr>"

definition isr_install :: "(nat \<Rightarrow> u32) \<Rightarrow> 'a idt_state_scheme \<Rightarrow> 'a idt_state_scheme" where
  "isr_install isr_stub s =
     for_up 32 (\<lambda>n. idt_set_gate (of_nat n) (isr_stub n) KERNEL_CS IDT_FLAG_INTERRUPT_GATE) s"

definition panic :: "registers \<Rightarrow> 'a tty_scheme \<Rightarrow> 'a tty_scheme option" where
  "panic regs s =
     Option.bind (terminal_writestring (10 # cstr ''PANIC: '') s) (\<lambda>s.
     Option.bind (terminal_writestring (cstr (exception_messages ! unat (int_no regs))) s) (\<lambda>s.
     Option.bind (terminal_writestring (cstr '' (interrupt '') s) (\<lambda>s.
     Option.bind (write_uint (int_no regs) s) (\<lambda>s.
     Option.bind (terminal_writestring (cstr '', error code '') s) (\<lambda>s.
     Option.bind (write_uint (err_code regs) s) (\<lambda>s.
     terminal_writestring (cstr '')'' @ [10]) s))))))"

definition isr_handler :: "(u32 \<Rightarrow> registers \<Rightarrow> 'a intr_state_scheme \<Rightarrow> 'a intr_state_scheme) \<Rightarrow>
    registers \<Rightarrow> 'a intr_state_scheme \<Rightarrow> 'a intr_state_scheme outcome" where
  "isr_handler call regs s =
     (if unat (int_no regs) \<ge> length (interrupt_handlers s) then NoReturn
      else if interrupt_handlers s ! unat (int_no regs) \<noteq> 0
      then Returned (call (interrupt_handlers s ! unat (int_no regs)) regs s)
      else if int_no regs < 32 then
        (case panic regs s of None \<Rightarrow> NoReturn | Some s' \<Rightarrow> Halted (s'\<lparr>intr_flag := False\<rparr>))
      else Returned s)"

abbreviation IRQ_BASE :: u8 where "IRQ_BASE \<equiv> 0x20"

definition irq_install :: "device \<Rightarrow> (nat \<Rightarrow> u32) \<Rightarrow> 'a idt_state_scheme \<Rightarrow> 'a idt_state_scheme" where
  "irq_install dev irq_stub s =
     (let s = pic_remap dev (uint IRQ_BASE) (uint IRQ_BASE + 8) s
      in for_up 16 (\<lambda>n. idt_set_gate (of_nat (32 + n)) (irq_stub n) KERNEL_CS IDT_FLAG_INTERRUPT_GATE) s)"

definition irq_register_handler :: "device \<Rightarrow> u8 \<Rightarrow> u32 \<Rightarrow> 'a intr_state_scheme \<Rightarrow> 'a intr_state_scheme" where
  "irq_register_handler dev irq handler s =
     (let s = isr_register_handler (IRQ_BASE + irq) handler s in pic_clear_mask dev irq s)"

definition irq_handler :: "registers \<Rightarrow> 'a machine_scheme \<Rightarrow> 'a machine_scheme" where
  "irq_handler regs s = outb 0x20 0x20 s"

definition interrupts_initialize :: "device \<Rightarrow> u32 \<Rightarrow> (nat \<Rightarrow> u32) \<Rightarrow> (nat \<Rightarrow> u32) \<Rightarrow>
    'a idt_state_scheme \<Rightarrow> 'a idt_state_scheme" where
  "interrupts_initialize dev idt_addr isr_stub irq_stub s =
     steps [idt_install idt_addr, isr_install isr_stub, irq_install dev irq_stub,
            outb 0x21 0xFF, outb 0xA1 0xFF, outb 0x21 0xFD] s"

definition interrupts_enable :: "'a intr_state_scheme \<Rightarrow> 'a intr_state_scheme" where
  "interrupts_enable s = s\<lparr>intr_flag := True\<rparr>"

definition interrupts_disable :: "'a intr_state_scheme \<Rightarrow> 'a intr_state_scheme" where
  "interrupts_disable s = s\<lparr>intr_flag := False\<rparr>"

definition hex_char :: "u8 \<Rightarrow> u8" where
  "hex_char nibble = (if nibble < 10 then 48 + nibble else 65 + (nibble - 10))"

definition hex_digits32 :: "u32 \<Rightarrow> u8 list" where
  "hex_digits32 v = map (\<lambda>sh. hex_char (ucast (drop_bit sh v AND 0xF))) [28, 24, 20, 16, 12, 8, 4, 0]"

definition print_hex32 :: "u32 \<Rightarrow> 'a tty_scheme \<Rightarrow> 'a tty_scheme option" where
  "print_hex32 v s =
     Option.bind (terminal_writestring (cstr ''0x'') s) (write_chars terminal_putchar (hex_digits32 v))"

definition print_hex8 :: "u8 \<Rightarrow> 'a tty_scheme \<Rightarrow> 'a tty_scheme option" where
  "print_hex8 v s =
     Option.bind (terminal_writestring (cstr ''0x'') s) (\<lambda>s.
     Option.bind (terminal_putchar (cstr ''0123456789ABCDEF'' ! unat (drop_bit 4 v AND 0xF)) s) (\<lambda>s.
     terminal_putchar (cstr ''0123456789ABCDEF'' ! unat (v AND 0xF)) s))"

text \<open>\<open>flags_word\<close> is the processor's EFLAGS, which the code reads with \<^verbatim>\<open>pushf\<close>.\<close>

definition interrupts_debug_dump :: "device \<Rightarrow> u32 \<Rightarrow> 'a tty_scheme \<Rightarrow> 'a tty_scheme option" where
  "interrupts_debug_dump dev flags_word s =
     (let (pic1_mask, s) = inb dev 0x21 s;
          (pic2_mask, s) = inb dev 0xA1 s
      in Option.bind (terminal_writestring (10 # cstr ''[debug] EFLAGS='') s) (\<lambda>s.
         Option.bind (print_hex32 flags_word s) (\<lambda>s.
         Option.bind (terminal_writestring (if flags_word AND 0x200 \<noteq> 0
            then cstr '' (IF=1, interrupts ON)'' else cstr '' (IF=0, interrupts OFF!)'') s) (\<lambda>s.
         Option.bind (terminal_writestring (10 # cstr ''[debug] PIC1 mask='') s) (\<lambda>s.
         Option.bind (print_hex8 pic1_mask s) (\<lambda>s.
         Option.bind (terminal_writestring (if pic1_mask AND 0x02 \<noteq> 0
            then cstr '' (IRQ1/keyboard MASKED!)'' else cstr '' (IRQ1/keyboard unmasked)'') s) (\<lambda>s.
         Option.bind (terminal_writestring (10 # cstr ''[debug] PIC2 mask='') s) (\<lambda>s.
         Option.bind (print_hex8 pic2_mask s) (\<lambda>s.
         terminal_writestring [10] s)))))))))"

section \<open>Numbers on the terminal\<close>

lemma digit_loop_decimal:
  "digit_loop n acc = (if n = 0 then acc else map digit_char (decimal (unat n)) @ acc)"
proof (induction n acc rule: digit_loop.induct)
  case (1 n acc)
  show ?case
  proof (cases "n = 0")
    case True
    then show ?thesis by (simp add: digit_loop.simps)
  next
    case False
    then have pos: "n > 0" by (simp add: word_neq_0_conv)
    from 1 [OF pos] pos show ?thesis
      by (simp add: digit_loop.simps [of n acc] u32_digit_step decimal.simps [of "unat n"])
  qed
qed

lemma write_uint_decimal:
  "write_uint n s = terminal_write (map digit_char (decimal (unat n))) s"
proof (cases "n = 0")
  case True
  then show ?thesis
    by (simp add: write_uint_def decimal.simps [of 0] digit_char_def terminal_write_def split: bind_splits)
next
  case False
  then show ?thesis by (simp add: write_uint_def digit_loop_decimal)
qed

text \<open>
  \<open>write_uint\<close> prints the decimal numeral of its argument: the characters written are digits, their
  value in base ten is the argument, and there are at most ten of them, so \<open>digits[10]\<close> never overflows.
\<close>

theorem write_uint_prints_decimal:
  "write_uint n s = terminal_write (map digit_char (decimal (unat n))) s \<and>
   numeral_value (decimal (unat n)) = unat n \<and> length (digit_loop n []) \<le> 10"
proof -
  have "unat n < 10 ^ 10" by (rule order.strict_trans [OF unat_u32_less]) simp
  then have "length (decimal (unat n)) \<le> 10" by (intro decimal_length_le) auto
  then show ?thesis by (simp add: write_uint_decimal digit_loop_decimal)
qed

definition hex_value :: "u8 \<Rightarrow> nat" where
  "hex_value c = (if c < 58 then unat c - 48 else unat c - 55)"

lemma hex_value_char: "n < 16 \<Longrightarrow> hex_value (hex_char n) = unat n"
  by (auto simp: hex_value_def hex_char_def word_less_nat_alt unat_word_ariths unat_sub_if')

lemma nibble_at: "hex_value (hex_char (ucast (drop_bit sh v AND 0xF))) = unat v div 2 ^ sh mod 16" for v :: u32
proof -
  have m: "x AND 0xF = take_bit 4 x" for x :: u32 by (simp add: take_bit_eq_mask mask_eq_exp_minus_1)
  let ?n = "ucast (take_bit 4 (drop_bit sh v)) :: u8"
  have "unat ?n = take_bit 8 (unat (take_bit 4 (drop_bit sh v)))"
    by (simp add: unsigned_ucast_eq)
  also have "\<dots> = take_bit 4 (drop_bit sh (unat v))"
    by (simp add: unsigned_take_bit_eq unat_drop_bit_eq)
  also have "\<dots> = unat v div 2 ^ sh mod 16" by (simp add: take_bit_eq_mod drop_bit_eq_div)
  finally have n: "unat ?n = unat v div 2 ^ sh mod 16" .
  then have "?n < 16" by (simp add: word_less_nat_alt)
  with n show ?thesis by (simp add: m hex_value_char)
qed

lemma print_hex32_writes: "print_hex32 v s = terminal_write (cstr ''0x'' @ hex_digits32 v) s"
  by (simp add: print_hex32_def terminal_writestring_def terminal_write_def write_chars_append)

text \<open>
  \<open>print_hex32\<close> writes \<open>0x\<close> and eight hexadecimal digits, most significant first, whose value in base
  sixteen is the argument.
\<close>

theorem print_hex32_prints_hex:
  "print_hex32 v s = terminal_write (cstr ''0x'' @ hex_digits32 v) s \<and> length (hex_digits32 v) = 8 \<and>
   foldl (\<lambda>a c. 16 * a + hex_value c) 0 (hex_digits32 v) = unat v"
proof -
  have "foldl (\<lambda>a c. 16 * a + hex_value c) 0 (hex_digits32 v) =
      foldl (\<lambda>a sh. 16 * a + unat v div 2 ^ sh mod 16) 0 [28, 24, 20, 16, 12, 8, 4, 0]"
    unfolding hex_digits32_def foldl_map by (simp only: nibble_at)
  also have "\<dots> = unat v"
  proof -
    have step: "16 * (unat v div 2 ^ (n + 4)) + unat v div 2 ^ n mod 16 = unat v div 2 ^ n" for n
      using mult_div_mod_eq [of 16 "unat v div 2 ^ n"] by (simp add: power_add div_mult2_eq)
    have "unat v div 2 ^ 28 < 16"
      by (rule less_mult_imp_div_less, rule order.strict_trans2 [OF unat_u32_less]) simp
    then show ?thesis
      using step [of 24] step [of 20] step [of 16] step [of 12] step [of 8] step [of 4] step [of 0]
      by simp
  qed
  finally show ?thesis
    by (simp add: print_hex32_writes) (simp add: hex_digits32_def)
qed

section \<open>Initialisation\<close>

lemma kernel_gate_fun: "kernel_gate n h = idt_set_gate (of_nat n) h KERNEL_CS IDT_FLAG_INTERRUPT_GATE"
  by (rule ext) (simp add: kernel_gate_def)

lemma isr_install_gates: "isr_install isr_stub s = for_up 32 (\<lambda>i. kernel_gate (0 + i) (isr_stub i)) s"
  by (simp add: isr_install_def kernel_gate_fun)

lemma irq_install_gates: "irq_install dev irq_stub s =
    for_up 16 (\<lambda>i. kernel_gate (32 + i) (irq_stub i)) (pic_remap dev 32 40 s)"
  by (simp add: irq_install_def kernel_gate_fun Let_def)

lemma pic_remap_idt [simp]:
  "idt (pic_remap dev a b s) = idt s" "idtr (pic_remap dev a b s) = idtr s"
  "mem (pic_remap dev a b s) = mem s"
  by (simp_all add: pic_remap_def inb_def outb_def io_wait_def Let_def)

lemma outb_idt [simp]: "idt (outb p v s) = idt s" "idtr (outb p v s) = idtr s"
  by (simp_all add: outb_def)

lemma gates_idtr: "idtr (for_up k (\<lambda>i. kernel_gate (b + i) (h i)) s) = idtr s"
  and gates_ports: "ports (for_up k (\<lambda>i. kernel_gate (b + i) (h i)) s) = ports s"
  and gates_mem: "mem (for_up k (\<lambda>i. kernel_gate (b + i) (h i)) s) = mem s"
  by (simp_all add: for_up_keeps kernel_gate_def)

lemma gate_of_cong: "idt s = idt t \<Longrightarrow> gate_of s n = gate_of t n" "idt s = idt t \<Longrightarrow> idt_wf s = idt_wf t"
  by (simp_all add: gate_of_def idt_wf_def)

lemma initialize_interrupts:
  "idtr (interrupts_initialize dev idt_addr isr_stub irq_stub s) = \<lparr>limit = 2047, base = idt_addr\<rparr> \<and>
   map (gate_of (interrupts_initialize dev idt_addr isr_stub irq_stub s)) [0..<256] =
     map (\<lambda>n. if n < 32 then Some (isr_stub n, 0x08, 0x8E)
       else if n < 48 then Some (irq_stub (n - 32), 0x08, 0x8E) else None) [0..<256] \<and>
   pic_ready (interrupts_initialize dev idt_addr isr_stub irq_stub s) \<and>
   vector_base (master (ports (interrupts_initialize dev idt_addr isr_stub irq_stub s))) = 32 \<and>
   vector_base (slave (ports (interrupts_initialize dev idt_addr isr_stub irq_stub s))) = 40 \<and>
   filter (\<lambda>i. \<not> irq_masked (interrupts_initialize dev idt_addr isr_stub irq_stub s) (of_nat i)) [0..<16] = [1]"
proof -
  define s1 where "s1 = idt_install idt_addr s"
  define s2 where "s2 = for_up 32 (\<lambda>i. kernel_gate (0 + i) (isr_stub i)) s1"
  define s3 where "s3 = pic_remap dev 32 40 s2"
  define s4 where "s4 = for_up 16 (\<lambda>i. kernel_gate (32 + i) (irq_stub i)) s3"
  define t where "t = interrupts_initialize dev idt_addr isr_stub irq_stub s"
  have t: "t = outb 0x21 0xFD (outb 0xA1 0xFF (outb 0x21 0xFF s4))"
    by (simp add: t_def interrupts_initialize_def s4_def s3_def s2_def s1_def
        isr_install_gates irq_install_gates)
  have g1: "idt_wf s1" "\<And>n. n < 256 \<Longrightarrow> gate_of s1 n = None"
    by (simp_all add: s1_def idt_install_empty)
  have g2: "idt_wf s2 \<and> (\<forall>n < 256. gate_of s2 n = (if n < 32 then Some (isr_stub n, 0x08, 0x8E) else None))"
    using kernel_idt.install_range [OF g1(1), of 0 32 isr_stub] g1(2) by (simp add: s2_def)
  have e3: "idt s3 = idt s2" by (simp add: s3_def)
  have "idt_wf s3" using g2 gate_of_cong(2) [OF e3] by simp
  then have g4: "\<forall>n < 256. gate_of s4 n = (if 32 \<le> n \<and> n < 48 then Some (irq_stub (n - 32), 0x08, 0x8E)
      else gate_of s3 n)"
    using kernel_idt.install_range [of s3 32 16 irq_stub] by (simp add: s4_def)
  have gates: "gate_of t n = (if n < 32 then Some (isr_stub n, 0x08, 0x8E)
       else if n < 48 then Some (irq_stub (n - 32), 0x08, 0x8E) else None)" if "n < 256" for n
  proof -
    have "gate_of t n = gate_of s4 n" by (rule gate_of_cong) (simp add: t)
    also have "\<dots> = (if 32 \<le> n \<and> n < 48 then Some (irq_stub (n - 32), 0x08, 0x8E) else gate_of s2 n)"
      using g4 gate_of_cong(1) [OF e3] that by simp
    finally show ?thesis using g2 that by auto
  qed
  have reg: "idtr t = \<lparr>limit = 2047, base = idt_addr\<rparr>"
    by (simp add: t s4_def s3_def s2_def s1_def gates_idtr gates_idtr [where b = 0, simplified]
        idt_install_register)
  have m: "master (ports s4) = \<lparr>icw = 0, vector_base = 32, imr = dev (ports s2) 0x21\<rparr>"
    and sl: "icw (slave (ports s4)) = 0" "vector_base (slave (ports s4)) = 40"
    by (simp_all add: s4_def gates_ports s3_def pic_remap_master pic_remap_slave)
  have mt: "master (ports t) = \<lparr>icw = 0, vector_base = 32, imr = 0xFD\<rparr>"
    using m by (simp add: t chip_data_def)
  have st: "slave (ports t) = \<lparr>icw = 0, vector_base = 40, imr = 0xFF\<rparr>"
    using sl by (cases "slave (ports s4)") (simp add: t chip_data_def)
  have masks: "filter (\<lambda>i. \<not> irq_masked t (of_nat i)) [0..<16] = [1]"
    by (simp add: irq_masked_def mt st upt_rec)
  show ?thesis
    using gates reg mt st masks by (simp add: t_def pic_ready_def)
qed

text \<open>
  C14. \<open>interrupts_initialize\<close> builds the intended interrupt system from any state: the processor's table
  register covers all 256 entries, vectors 0 to 31 lead to the exception stubs, 32 to 47 to the hardware
  interrupt stubs (kernel code segment, 32-bit interrupt gate), every other vector is absent, both
  controllers are operating with vector bases 32 and 40, and of the sixteen lines only line 1, the
  keyboard, is unmasked.
\<close>

theorem interrupts_initialize_correct:
  "idtr (interrupts_initialize dev idt_addr isr_stub irq_stub s) = \<lparr>limit = 2047, base = idt_addr\<rparr> \<and>
   map (gate_of (interrupts_initialize dev idt_addr isr_stub irq_stub s)) [0..<256] =
     map (\<lambda>n. if n < 32 then Some (isr_stub n, 0x08, 0x8E)
       else if n < 48 then Some (irq_stub (n - 32), 0x08, 0x8E) else None) [0..<256] \<and>
   pic_ready (interrupts_initialize dev idt_addr isr_stub irq_stub s) \<and>
   vector_base (master (ports (interrupts_initialize dev idt_addr isr_stub irq_stub s))) = 32 \<and>
   vector_base (slave (ports (interrupts_initialize dev idt_addr isr_stub irq_stub s))) = 40 \<and>
   filter (\<lambda>i. \<not> irq_masked (interrupts_initialize dev idt_addr isr_stub irq_stub s) (of_nat i)) [0..<16] = [1]"
  by (rule initialize_interrupts)

section \<open>Dispatch\<close>

definition panic_text :: "registers \<Rightarrow> u8 list" where
  "panic_text regs =
     10 # cstr ''PANIC: '' @ cstr (exception_messages ! unat (int_no regs)) @ cstr '' (interrupt '' @
     map digit_char (decimal (unat (int_no regs))) @ cstr '', error code '' @
     map digit_char (decimal (unat (err_code regs))) @ cstr '')'' @ [10]"

lemma write_bind:
  "Option.bind (terminal_write xs s) (terminal_write ys) = terminal_write (xs @ ys) s"
  by (simp add: terminal_write_def [abs_def] write_chars_append)

lemma write_bind_assoc:
  "Option.bind (terminal_write xs s) (\<lambda>t. Option.bind (terminal_write ys t) k) =
   Option.bind (terminal_write (xs @ ys) s) k"
  by (simp add: write_bind [symmetric])

lemma panic_writes: "panic regs s = terminal_write (panic_text regs) s"
  by (simp add: panic_def panic_text_def terminal_writestring_def write_uint_decimal
      write_bind write_bind_assoc)

lemma exception_messages_no_tab: "n < 32 \<Longrightarrow> 9 \<notin> set (cstr (exception_messages ! n))"
proof -
  have "list_all (\<lambda>m. 9 \<notin> set (cstr m)) exception_messages \<and> length exception_messages = 32"
    by (simp add: exception_messages_def cstr_def)
  then show "n < 32 \<Longrightarrow> ?thesis" by (simp add: list_all_length)
qed

lemma panic_text_no_tab: "int_no regs < 32 \<Longrightarrow> set (panic_text regs) \<inter> {9} = {}"
  using digit_char_no_tab exception_messages_no_tab [of "unat (int_no regs)"]
  by (auto simp: panic_text_def word_less_nat_alt) (auto simp: cstr_def)

text \<open>
  An exception without a registered handler panics: \<open>isr_handler\<close> prints the exception's name, its
  number and the error code in decimal, turns interrupts off and halts; it always gets that far, because
  no part of the message is a tab.
\<close>

theorem isr_handler_panics:
  assumes "tty_inv s" and "length (interrupt_handlers s) = 256"
    and "int_no regs < 32" and "interrupt_handlers s ! unat (int_no regs) = 0"
  shows "\<exists>t. terminal_write (panic_text regs) s = Some t \<and>
    isr_handler call regs s = Halted (t\<lparr>intr_flag := False\<rparr>) \<and> tty_inv t \<and> tty_frame s t"
proof -
  obtain t where t: "terminal_write (panic_text regs) s = Some t" "tty_inv t" "tty_frame s t"
    using tty_sink.write_returns [OF assms(1) panic_text_no_tab [OF assms(3)]]
    by (auto simp: terminal_write_def)
  have "unat (int_no regs) < 256" using assms(3) by (simp add: word_less_nat_alt)
  with t assms show ?thesis by (simp add: isr_handler_def panic_writes)
qed

definition boot_intr :: intr_state where
  "boot_intr = \<lparr>mem = (\<lambda>_. 0), ports = [], terminal_row = 0, terminal_column = 0,
     terminal_color = 7, terminal_buffer = VGA_MEMORY, idt = replicate 256 zero_entry,
     idtp = \<lparr>limit = 0, base = 0\<rparr>, idtr = \<lparr>limit = 0, base = 0\<rparr>,
     interrupt_handlers = replicate 256 0, intr_flag = False\<rparr>"

definition trap_frame :: "u32 \<Rightarrow> u32 \<Rightarrow> registers" where
  "trap_frame n err = \<lparr>ds = 16, edi = 0, esi = 0, ebp = 0, esp = 0, ebx = 0, edx = 0, ecx = 0, eax = 0,
     int_no = n, err_code = err, eip = 0, cs = 8, eflags = 0, useresp = 0, ss = 16\<rparr>"

lemma boot_intr_inv: "tty_inv boot_intr"
  by (simp add: tty_inv_def boot_intr_def)

theorem isr_handler_panics_witness:
  "tty_inv boot_intr \<and> (\<exists>t. isr_handler (\<lambda>_ _ s. s) (trap_frame 14 2) boot_intr = Halted t)"
proof -
  have h: "length (interrupt_handlers boot_intr) = 256" "int_no (trap_frame 14 2) < 32"
    "interrupt_handlers boot_intr ! unat (int_no (trap_frame 14 2)) = 0"
    by (simp_all add: boot_intr_def trap_frame_def)
  show ?thesis using boot_intr_inv isr_handler_panics [OF boot_intr_inv h, of "\<lambda>_ _ s. s"] by blast
qed

text \<open>
  A handler registered for a vector with \<open>isr_register_handler\<close> is the one \<open>isr_handler\<close> calls for it, and
  registering it changes the dispatch of no other vector.
\<close>

theorem isr_register_dispatch:
  assumes "length (interrupt_handlers s) = 256" and "handler \<noteq> 0" and "int_no regs = ucast n"
  shows "isr_handler call regs (isr_register_handler n handler s) =
      Returned (call handler regs (isr_register_handler n handler s)) \<and>
    (\<forall>m < 256. m \<noteq> unat n \<longrightarrow>
      interrupt_handlers (isr_register_handler n handler s) ! m = interrupt_handlers s ! m)"
proof -
  have "unat (int_no regs) = unat n"
    using assms(3) by (simp add: unsigned_ucast_eq take_bit_nat_eq_self_iff)
      (rule order.strict_trans [OF unat_u8_less], simp)
  with assms show ?thesis by (simp add: isr_handler_def isr_register_handler_def not_le)
qed

theorem isr_register_dispatch_witness:
  "isr_handler (\<lambda>h _ s. s\<lparr>terminal_row := h\<rparr>) (trap_frame 3 0) (isr_register_handler 3 7 boot_intr) =
    Returned ((isr_register_handler 3 7 boot_intr)\<lparr>terminal_row := 7\<rparr>)"
proof -
  have h: "length (interrupt_handlers boot_intr) = 256" "(7 :: u32) \<noteq> 0"
    "int_no (trap_frame 3 0) = ucast (3 :: u8)"
    by (simp_all add: boot_intr_def trap_frame_def)
  show ?thesis using isr_register_dispatch [OF h, of "\<lambda>h _ s. s\<lparr>terminal_row := h\<rparr>"] by simp
qed

text \<open>
  \<open>irq_handler\<close> acknowledges an interrupt correctly only for the master's lines: its effect is that of
  \<open>pic_send_eoi\<close> exactly for lines 0 to 7, for lines 8 to 15 the slave is never acknowledged; and its effect
  does not depend on the handlers registered with \<open>irq_register_handler\<close>.
\<close>

theorem irq_handler_acknowledges:
  fixes s :: "'a intr_state_scheme"
  shows "(irq_handler regs s = pic_send_eoi irq s \<longleftrightarrow> irq < 8) \<and>
    irq_handler regs (s\<lparr>interrupt_handlers := hs\<rparr>) = (irq_handler regs s)\<lparr>interrupt_handlers := hs\<rparr>"
proof -
  have "outb 0x20 0x20 s \<noteq> outb 0x20 0x20 (outb 0xA0 0x20 s)"
  proof
    assume "outb 0x20 0x20 s = outb 0x20 0x20 (outb 0xA0 0x20 s)"
    then have "length (ports (outb 0x20 0x20 s)) = length (ports (outb 0x20 0x20 (outb 0xA0 0x20 s)))"
      by simp
    then show False by simp
  qed
  then show ?thesis
    by (auto simp: irq_handler_def pic_send_eoi_def not_le [symmetric]) (simp add: outb_def)+
qed

end
