(* ===== verification/Keyboard.thy ===== *)
theory Keyboard
  imports Isr
begin

text \<open>
  The PS/2 keyboard driver of the i386 kernel, \<^verbatim>\<open>src/legacy/kernel/arch/i386/drivers/keyboard.c\<close>: the ring
  buffer between the interrupt handler and the reader, the modifier state, the 8042 handshake with its
  timeouts, the LED command, the interrupt callback as it stands (the decoding code is commented out in
  the source) and the scan code tables.

  The ring buffer implements the interface \<open>bounded_fifo\<close> with capacity 255: it delivers the last 255
  characters pushed, in order.
\<close>

section \<open>Definitions\<close>

abbreviation KBD_BUFFER_SIZE :: u32 where "KBD_BUFFER_SIZE \<equiv> 256"
abbreviation KBD_LED_CAPS_LOCK :: u8 where "KBD_LED_CAPS_LOCK \<equiv> 0x04"
abbreviation KBD_CMD_SET_LEDS :: u8 where "KBD_CMD_SET_LEDS \<equiv> 0xED"
abbreviation PS2_DATA_PORT :: u16 where "PS2_DATA_PORT \<equiv> 0x60"
abbreviation PS2_STATUS_PORT :: u16 where "PS2_STATUS_PORT \<equiv> 0x64"
abbreviation KBD_IRQ :: u8 where "KBD_IRQ \<equiv> 1"

record kbd_state = intr_state +
  buffer :: "u8 list"
  buf_head :: u32
  buf_tail :: u32
  shift_pressed :: bool
  ctrl_pressed :: bool
  alt_pressed :: bool
  caps_lock :: bool
  probe :: u8  \<comment> \<open>the static variable \<open>p\<close> of \<open>keyboard_callback\<close>\<close>

definition scancode_ascii :: "u8 list" where
  "scancode_ascii =
     [0, 27] @ cstr ''12345678'' @
     cstr ''90-='' @ [8, 9] @ cstr ''qwer'' @
     cstr ''tyuiop[]'' @ [10, 0] @
     cstr ''asdfghjkl;'' @
     [39, 96, 0, 92] @ cstr ''zxcvbn'' @
     cstr ''m,./'' @ [0] @ cstr ''*'' @ [0] @ cstr '' '' @ [0, 0] @ replicate 68 0"

definition scancode_ascii_shift :: "u8 list" where
  "scancode_ascii_shift =
     [0, 27] @ cstr ''!@#$%^&*'' @
     cstr ''()_+'' @ [8, 9] @ cstr ''QWER'' @
     cstr ''TYUIOP{}'' @ [10, 0] @
     cstr ''ASDFGHJKL:'' @
     [34, 126, 0, 124] @ cstr ''ZXCVBN'' @
     cstr ''M<>?'' @ [0] @ cstr ''*'' @ [0] @ cstr '' '' @ [0, 0] @ replicate 68 0"

definition buffer_push :: "u8 \<Rightarrow> 'a kbd_state_scheme \<Rightarrow> 'a kbd_state_scheme" where
  "buffer_push c s =
     (let nxt = (buf_head s + 1) mod KBD_BUFFER_SIZE;
          s = (if nxt = buf_tail s then s\<lparr>buf_tail := (buf_tail s + 1) mod KBD_BUFFER_SIZE\<rparr> else s);
          s = s\<lparr>buffer := (buffer s)[unat (buf_head s) := c]\<rparr>
      in s\<lparr>buf_head := nxt\<rparr>)"

text \<open>The result, the value of \<open>*out_c\<close> after the call, and the new state.\<close>

definition keyboard_read :: "u8 \<Rightarrow> 'a kbd_state_scheme \<Rightarrow> bool \<times> u8 \<times> 'a kbd_state_scheme" where
  "keyboard_read out_c s =
     (if buf_tail s = buf_head s then (False, out_c, s)
      else (True, buffer s ! unat (buf_tail s),
            s\<lparr>buf_tail := (buf_tail s + 1) mod KBD_BUFFER_SIZE\<rparr>))"

definition keyboard_ctrl_pressed :: "'a kbd_state_scheme \<Rightarrow> bool" where
  "keyboard_ctrl_pressed s = ctrl_pressed s"

definition keyboard_alt_pressed :: "'a kbd_state_scheme \<Rightarrow> bool" where
  "keyboard_alt_pressed s = alt_pressed s"

definition keyboard_shift_pressed :: "'a kbd_state_scheme \<Rightarrow> bool" where
  "keyboard_shift_pressed s = shift_pressed s"

primrec wait_input_clear :: "device \<Rightarrow> nat \<Rightarrow> 'a machine_scheme \<Rightarrow> 'a machine_scheme" where
  "wait_input_clear dev 0 s = s"
| "wait_input_clear dev (Suc t) s =
     (let (v, s) = inb dev 0x64 s in if v AND 0x02 = 0 then s else wait_input_clear dev t s)"

definition ps2_wait_input_clear :: "device \<Rightarrow> 'a machine_scheme \<Rightarrow> 'a machine_scheme" where
  "ps2_wait_input_clear dev s = wait_input_clear dev 100000 s"

primrec wait_output_full :: "device \<Rightarrow> nat \<Rightarrow> 'a machine_scheme \<Rightarrow> int \<times> 'a machine_scheme" where
  "wait_output_full dev 0 s = (0, s)"
| "wait_output_full dev (Suc t) s =
     (let (v, s) = inb dev 0x64 s in if v AND 0x01 \<noteq> 0 then (1, s) else wait_output_full dev t s)"

definition ps2_wait_output_full :: "device \<Rightarrow> 'a machine_scheme \<Rightarrow> int \<times> 'a machine_scheme" where
  "ps2_wait_output_full dev s = wait_output_full dev 100000 s"

definition ps2_output_has_data :: "device \<Rightarrow> 'a machine_scheme \<Rightarrow> bool \<times> 'a machine_scheme" where
  "ps2_output_has_data dev s =
     (let (v, s) = inb dev PS2_STATUS_PORT s in (v AND 0x01 \<noteq> 0, s))"

definition kbd_send_command :: "device \<Rightarrow> u8 \<Rightarrow> 'a machine_scheme \<Rightarrow> 'a machine_scheme" where
  "kbd_send_command dev command s = outb PS2_DATA_PORT command (ps2_wait_input_clear dev s)"

definition kbd_set_leds :: "device \<Rightarrow> 'a kbd_state_scheme \<Rightarrow> 'a kbd_state_scheme" where
  "kbd_set_leds dev s =
     (let mask = (if caps_lock s then 0 OR KBD_LED_CAPS_LOCK else 0);
          s = kbd_send_command dev KBD_CMD_SET_LEDS s;
          s = ps2_wait_input_clear dev s
      in outb PS2_DATA_PORT mask s)"

definition keyboard_callback :: "device \<Rightarrow> registers \<Rightarrow> 'a kbd_state_scheme \<Rightarrow> 'a kbd_state_scheme" where
  "keyboard_callback dev regs s =
     (let s = s\<lparr>mem := store16 0xB8000 (ucast (probe s) OR push_bit 8 0x4F) (mem s)\<rparr>;
          s = s\<lparr>probe := (if probe s = 57 then 48 else probe s + 1)\<rparr>;
          (v, s) = inb dev 0x64 s
      in if v AND 1 \<noteq> 0 then snd (inb dev 0x60 s) else s)"

text \<open>\<open>callback\<close> is the address of \<open>keyboard_callback\<close>.\<close>

definition keyboard_initialize :: "device \<Rightarrow> u32 \<Rightarrow> 'a kbd_state_scheme \<Rightarrow> 'a kbd_state_scheme" where
  "keyboard_initialize dev callback s =
     (let s = s\<lparr>buf_tail := 0, buf_head := 0\<rparr> in irq_register_handler dev KBD_IRQ callback s)"

section \<open>The ring buffer is a bounded queue\<close>

definition ring :: "u8 list \<Rightarrow> nat \<Rightarrow> nat \<Rightarrow> u8 list" where
  "ring buf t n = map (\<lambda>i. buf ! ((t + i) mod 256)) [0..<n]"

definition kbd_inv :: "'a kbd_state_scheme \<Rightarrow> bool" where
  "kbd_inv s \<longleftrightarrow> length (buffer s) = 256 \<and> buf_head s < KBD_BUFFER_SIZE \<and> buf_tail s < KBD_BUFFER_SIZE"

definition kbd_count :: "'a kbd_state_scheme \<Rightarrow> nat" where
  "kbd_count s = (unat (buf_head s) + 256 - unat (buf_tail s)) mod 256"

definition kbd_contents :: "'a kbd_state_scheme \<Rightarrow> u8 list" where
  "kbd_contents s = ring (buffer s) (unat (buf_tail s)) (kbd_count s)"

definition kbd_pop :: "'a kbd_state_scheme \<Rightarrow> (u8 \<times> 'a kbd_state_scheme) option" where
  "kbd_pop s = (case keyboard_read 0 s of (ok, c, t) \<Rightarrow> if ok then Some (c, t) else None)"

lemma length_ring [simp]: "length (ring buf t n) = n"
  by (simp add: ring_def)

lemma ring_mod: "ring buf (t mod 256) n = ring buf t n"
  by (simp add: ring_def mod_add_left_eq)

lemma ring_Suc: "ring buf t (Suc n) = buf ! (t mod 256) # ring buf (Suc t) n"
  unfolding ring_def by (subst upt_conv_Cons, simp, subst map_Suc_upt [symmetric]) simp

lemma mod256_neq: "i < n \<Longrightarrow> n < 256 \<Longrightarrow> (t + i) mod 256 \<noteq> (t + n) mod (256 :: nat)"
proof
  assume "i < n" "n < 256" "(t + i) mod 256 = (t + n) mod 256"
  then have "256 dvd (t + n) - (t + i)" by (metis mod_eq_dvd_iff_nat add_le_cancel_left less_imp_le)
  with \<open>i < n\<close> \<open>n < 256\<close> show False by (auto dest: dvd_imp_le)
qed

lemma ring_snoc:
  assumes "n < 256" "length buf = 256" "h = (t + n) mod 256"
  shows "ring (buf[h := c]) t (Suc n) = ring buf t n @ [c]"
proof (rule nth_equalityI)
  fix i assume i: "i < length (ring (buf[h := c]) t (Suc n))"
  show "ring (buf[h := c]) t (Suc n) ! i = (ring buf t n @ [c]) ! i"
  proof (cases "i = n")
    case True
    with assms show ?thesis by (simp add: ring_def nth_append)
  next
    case False
    with i have "i < n" by simp
    with mod256_neq [OF this assms(1), of t] assms show ?thesis
      by (simp add: ring_def nth_append del: upt_Suc)
  qed
qed simp

lemma unat_inc_mod: "x < KBD_BUFFER_SIZE \<Longrightarrow> unat ((x + 1) mod KBD_BUFFER_SIZE) = (unat x + 1) mod 256"
  by (simp add: unat_mod_distrib unat_word_ariths word_less_nat_alt)

lemma kbd_count_head:
  assumes "kbd_inv s"
  shows "unat (buf_head s) = (unat (buf_tail s) + kbd_count s) mod 256" "kbd_count s < 256"
proof -
  from assms have b: "unat (buf_head s) < 256" "unat (buf_tail s) < 256"
    by (simp_all add: kbd_inv_def word_less_nat_alt)
  then have "unat (buf_tail s) + (unat (buf_head s) + 256 - unat (buf_tail s)) = unat (buf_head s) + 256"
    by simp
  then have "(unat (buf_tail s) + kbd_count s) mod 256 = (unat (buf_head s) + 256) mod 256"
    by (simp add: kbd_count_def mod_add_right_eq)
  with b show "unat (buf_head s) = (unat (buf_tail s) + kbd_count s) mod 256" by simp
  show "kbd_count s < 256" by (simp add: kbd_count_def)
qed

lemma kbd_countI:
  assumes "unat (buf_head s) = (unat (buf_tail s) + n) mod 256" "unat (buf_tail s) < 256" "n < 256"
  shows "kbd_count s = n"
proof (cases "unat (buf_tail s) + n < 256")
  case True
  with assms show ?thesis by (simp add: kbd_count_def)
next
  case False
  with assms have "unat (buf_head s) = unat (buf_tail s) + n - 256" by (simp add: mod_if)
  with False assms show ?thesis by (simp add: kbd_count_def)
qed

lemma push_inv: "kbd_inv s \<Longrightarrow> kbd_inv (buffer_push c s)"
  by (auto simp: kbd_inv_def buffer_push_def Let_def word_less_nat_alt unat_mod_distrib)

lemma push_contents:
  assumes inv: "kbd_inv s"
  shows "kbd_contents (buffer_push c s) = last_n 255 (kbd_contents s @ [c])"
proof -
  let ?t = "unat (buf_tail s)" and ?h = "unat (buf_head s)" and ?n = "kbd_count s"
  from inv have len: "length (buffer s) = 256" and hd: "buf_head s < KBD_BUFFER_SIZE"
    and tl: "buf_tail s < KBD_BUFFER_SIZE" "?t < 256" by (simp_all add: kbd_inv_def word_less_nat_alt)
  note h = kbd_count_head [OF inv] and inc = unat_inc_mod [OF hd] unat_inc_mod [OF tl(1)]
  note snoc = ring_snoc [OF h(2) len h(1), of c]
  have nxt: "unat ((buf_head s + 1) mod KBD_BUFFER_SIZE) = (?t + Suc ?n) mod 256"
    using inc(1) h(1) by (simp add: mod_simps)
  have full: "(buf_head s + 1) mod KBD_BUFFER_SIZE = buf_tail s \<longleftrightarrow> ?n = 255"
  proof -
    have "(?t + Suc ?n) mod 256 = ?t \<longleftrightarrow> ?n = 255"
      using h(2) tl(2) by (cases "?t + Suc ?n < 256") (auto simp: mod_if)
    with nxt show ?thesis by (simp add: u32_eq_iff_unat)
  qed
  show ?thesis
  proof (cases "?n = 255")
    case True
    let ?s = "buffer_push c s"
    have e: "buffer ?s = (buffer s)[?h := c]" "unat (buf_head ?s) = (?t + Suc ?n) mod 256"
      "unat (buf_tail ?s) = (?t + 1) mod 256"
      using full True nxt inc(2) by (simp_all add: buffer_push_def Let_def)
    have "kbd_count ?s = 255"
      by (rule kbd_countI) (use e True in \<open>simp_all add: mod_simps\<close>)
    then have "kbd_contents ?s = ring ((buffer s)[?h := c]) (Suc ?t) 255"
      by (simp add: kbd_contents_def e ring_mod)
    also have "\<dots> = tl (ring ((buffer s)[?h := c]) ?t (Suc 255))" by (simp only: ring_Suc list.sel)
    also have "\<dots> = tl (kbd_contents s @ [c])" using snoc True by (simp add: kbd_contents_def)
    finally have "kbd_contents ?s = tl (kbd_contents s @ [c])" .
    moreover have "length (kbd_contents s) = 255" using True by (simp add: kbd_contents_def)
    ultimately show ?thesis by (simp add: last_n_def drop_Suc del: drop_append)
  next
    case False
    let ?s = "buffer_push c s"
    have e: "buffer ?s = (buffer s)[?h := c]" "unat (buf_head ?s) = (?t + Suc ?n) mod 256"
      "buf_tail ?s = buf_tail s"
      using full False nxt by (simp_all add: buffer_push_def Let_def)
    have "kbd_count ?s = Suc ?n"
      by (rule kbd_countI) (use e False h(2) tl in simp_all)
    then have "kbd_contents ?s = kbd_contents s @ [c]"
      using snoc by (simp add: kbd_contents_def e)
    with False h(2) show ?thesis by (simp add: last_n_def kbd_contents_def)
  qed
qed

lemma kbd_empty_iff: "kbd_inv s \<Longrightarrow> kbd_contents s = [] \<longleftrightarrow> buf_tail s = buf_head s"
proof -
  assume inv: "kbd_inv s"
  have "kbd_contents s = [] \<longleftrightarrow> kbd_count s = 0" by (metis kbd_contents_def length_0_conv length_ring)
  also have "\<dots> \<longleftrightarrow> unat (buf_tail s) = unat (buf_head s)"
  proof
    have b: "unat (buf_tail s) < 256" using inv by (simp add: kbd_inv_def word_less_nat_alt)
    show "unat (buf_tail s) = unat (buf_head s)" if "kbd_count s = 0"
      using kbd_count_head(1) [OF inv] b unfolding that by simp
    show "kbd_count s = 0" if "unat (buf_tail s) = unat (buf_head s)"
      by (rule kbd_countI) (use that b in simp_all)
  qed
  finally show "kbd_contents s = [] \<longleftrightarrow> buf_tail s = buf_head s" by (simp add: u32_eq_iff_unat)
qed

lemma pop_contents:
  assumes inv: "kbd_inv s" and c: "kbd_contents s = x # xs"
  shows "\<exists>t. kbd_pop s = Some (x, t) \<and> kbd_inv t \<and> kbd_contents t = xs"
proof -
  let ?u = "s\<lparr>buf_tail := (buf_tail s + 1) mod KBD_BUFFER_SIZE\<rparr>"
  from inv have tl: "buf_tail s < KBD_BUFFER_SIZE" "unat (buf_tail s) < 256"
    by (simp_all add: kbd_inv_def word_less_nat_alt)
  from c obtain n where n: "kbd_count s = Suc n"
    by (cases "kbd_count s") (auto simp: kbd_contents_def ring_def)
  have "kbd_count ?u = n"
    by (rule kbd_countI)
      (use n kbd_count_head [OF inv] unat_inc_mod [OF tl(1)] in \<open>simp_all add: mod_simps\<close>)
  then have "kbd_contents ?u = ring (buffer s) (Suc (unat (buf_tail s))) n"
    using unat_inc_mod [OF tl(1)] by (simp add: kbd_contents_def ring_mod)
  moreover have "kbd_contents s = buffer s ! unat (buf_tail s) # ring (buffer s) (Suc (unat (buf_tail s))) n"
    using tl(2) by (simp add: kbd_contents_def n ring_Suc)
  moreover have "kbd_inv ?u" using inv by (auto simp: kbd_inv_def word_less_nat_alt unat_mod_distrib)
  moreover have "kbd_pop s = Some (buffer s ! unat (buf_tail s), ?u)"
    using c kbd_empty_iff [OF inv] by (simp add: kbd_pop_def keyboard_read_def)
  ultimately show ?thesis using c by simp
qed

interpretation kbd_ring: bounded_fifo buffer_push kbd_pop kbd_contents kbd_inv 255
proof
  fix s :: "'a kbd_state_scheme" and x t
  assume inv: "kbd_inv s"
  show "kbd_inv (buffer_push x s)" by (rule push_inv [OF inv])
  show "kbd_contents (buffer_push x s) = last_n 255 (kbd_contents s @ [x])" by (rule push_contents [OF inv])
  show "length (kbd_contents s) \<le> 255" using kbd_count_head(2) [OF inv] by (simp add: kbd_contents_def)
  show "kbd_pop s = None" if "kbd_contents s = []"
    using that kbd_empty_iff [OF inv] by (simp add: kbd_pop_def keyboard_read_def)
  show "\<exists>t. kbd_pop s = Some (x, t) \<and> kbd_contents t = xs" if "kbd_contents s = x # xs" for xs
    using pop_contents [OF inv that] by blast
  show "kbd_inv t" if "kbd_pop s = Some (x, t)"
  proof -
    from that have "kbd_contents s \<noteq> []"
      using kbd_empty_iff [OF inv] by (auto simp: kbd_pop_def keyboard_read_def)
    then obtain y ys where "kbd_contents s = y # ys" by (cases "kbd_contents s") auto
    with pop_contents [OF inv this] that show ?thesis by auto
  qed
qed

text \<open>
  C15. The keyboard ring buffer is a first-in first-out queue of capacity 255 that drops its oldest
  characters: after any sequence of \<open>buffer_push\<close> calls on an empty buffer, repeated \<open>keyboard_read\<close> calls
  return exactly the last 255 characters pushed (all of them when there are no more), in order, and then
  report the buffer empty.
\<close>

theorem keyboard_buffer_fifo:
  assumes "kbd_inv s" and "buf_tail s = buf_head s"
  shows "\<exists>t. reads kbd_pop (length (last_n 255 xs)) (fold buffer_push xs s) = Some (last_n 255 xs, t) \<and>
    fst (keyboard_read out_c t) = False"
proof -
  from assms have "kbd_contents s = []" by (simp add: kbd_empty_iff)
  from kbd_ring.push_all_read_all [OF assms(1) this] obtain t where
    t: "reads kbd_pop (length (last_n 255 xs)) (fold buffer_push xs s) = Some (last_n 255 xs, t)"
      "kbd_pop t = None" by blast
  then show ?thesis by (auto simp: kbd_pop_def keyboard_read_def split: if_splits)
qed

definition boot_kbd :: kbd_state where
  "boot_kbd = intr_state.extend boot_intr (kbd_state.fields (replicate 256 0) 0 0 False False False False 48)"

lemma boot_kbd_simps: "buffer boot_kbd = replicate 256 0" "buf_head boot_kbd = 0" "buf_tail boot_kbd = 0"
  "caps_lock boot_kbd = False" "probe boot_kbd = 48" "ports boot_kbd = []"
  by (simp_all add: boot_kbd_def kbd_state.defs intr_state.defs boot_intr_def)

theorem keyboard_buffer_fifo_witness:
  "kbd_inv boot_kbd \<and>
   (\<exists>t. reads kbd_pop 2 (fold buffer_push [104, 105] boot_kbd) = Some ([104, 105], t))"
proof -
  have h: "kbd_inv boot_kbd" "buf_tail boot_kbd = buf_head boot_kbd"
    by (simp_all add: kbd_inv_def boot_kbd_simps)
  have l: "last_n 255 [104, 105 :: u8] = [104, 105]" by (simp add: last_n_def)
  show ?thesis using h keyboard_buffer_fifo [OF h, of "[104, 105]"] unfolding l
    by (auto simp: numeral_2_eq_2)
qed

section \<open>Talking to the controller\<close>

definition status_polls :: "(u8 \<Rightarrow> bool) \<Rightarrow> io_event list \<Rightarrow> bool" where
  "status_polls busy polls \<longleftrightarrow> list_all (\<lambda>e. case e of In p v \<Rightarrow> p = 0x64 \<and> busy v | Out p v \<Rightarrow> False) polls"

text \<open>
  What a wait leaves in the history: busy answers only, or at most \<open>n - 1\<close> of them and then a ready one.
\<close>

definition waited :: "(u8 \<Rightarrow> bool) \<Rightarrow> nat \<Rightarrow> io_event list \<Rightarrow> io_event list \<Rightarrow> bool" where
  "waited busy n h h' \<longleftrightarrow>
     (\<exists>polls. h' = polls @ h \<and> length polls \<le> n \<and>
        (if status_polls busy polls then length polls = n
         else \<exists>v rest. polls = In 0x64 v # rest \<and> \<not> busy v \<and> status_polls busy rest))"

lemma waited_ready: "\<not> busy v \<Longrightarrow> waited busy (Suc n) h (In 0x64 v # h)"
  unfolding waited_def by (rule exI [of _ "[In 0x64 v]"]) (simp add: status_polls_def)

lemma waited_busy:
  assumes "busy v" and "waited busy n (In 0x64 v # h) h'"
  shows "waited busy (Suc n) h h'"
proof -
  from assms(2) obtain polls where p: "h' = (polls @ [In 0x64 v]) @ h" "length polls \<le> n"
    "if status_polls busy polls then length polls = n
     else \<exists>v rest. polls = In 0x64 v # rest \<and> \<not> busy v \<and> status_polls busy rest"
    by (auto simp: waited_def)
  have sp: "status_polls busy (ps @ [In 0x64 v]) = status_polls busy ps" for ps
    using assms(1) by (simp add: status_polls_def)
  show ?thesis unfolding waited_def
    by (rule exI [of _ "polls @ [In 0x64 v]"]) (use p sp in \<open>auto split: if_splits\<close>)
qed

abbreviation input_full :: "u8 \<Rightarrow> bool" where "input_full v \<equiv> v AND 0x02 \<noteq> 0"

lemma wait_input_clear_waited: "waited input_full n (ports s) (ports (wait_input_clear dev n s))"
proof (induction n arbitrary: s)
  case 0
  show ?case by (simp add: waited_def status_polls_def)
next
  case (Suc n)
  let ?v = "dev (ports s) 0x64"
  show ?case
  proof (cases "input_full ?v")
    case True
    with Suc [of "s\<lparr>ports := In 0x64 ?v # ports s\<rparr>"] show ?thesis
      by (auto simp: inb_def Let_def intro: waited_busy)
  next
    case False
    then show ?thesis by (auto simp: inb_def Let_def intro: waited_ready)
  qed
qed

lemma wait_input_clear_frame: "wait_input_clear dev n s = s\<lparr>ports := ports (wait_input_clear dev n s)\<rparr>"
proof (induction n arbitrary: s)
  case 0
  show ?case by simp
next
  case (Suc n)
  let ?t = "s\<lparr>ports := In 0x64 (dev (ports s) 0x64) # ports s\<rparr>"
  have "wait_input_clear dev n ?t = s\<lparr>ports := ports (wait_input_clear dev n ?t)\<rparr>"
    by (subst Suc) simp
  then show ?case by (auto simp: inb_def Let_def)
qed

lemma waited_writes: "waited busy n h h' \<Longrightarrow> writes_to p h' = writes_to p h"
proof -
  have "status_polls busy polls \<Longrightarrow> writes_to p (polls @ h) = writes_to p h" for polls
    by (induction polls) (auto simp: status_polls_def split: io_event.splits)
  then show "waited busy n h h' \<Longrightarrow> writes_to p h' = writes_to p h"
    by (auto simp: waited_def split: if_splits)
qed

text \<open>
  \<open>kbd_set_leds\<close> follows the 8042 protocol: it writes exactly the command 0xED and then the LED mask to
  the data port and nothing to any other port; before each of the two writes it polls the status port until
  the input buffer is clear, or 100000 times; and it changes nothing but the port history.
\<close>

theorem kbd_set_leds_protocol:
  "\<exists>h1 h2. ports (kbd_set_leds dev s) = Out 0x60 (if caps_lock s then 4 else 0) # h2 \<and>
    waited input_full 100000 (Out 0x60 0xED # h1) h2 \<and> waited input_full 100000 (ports s) h1 \<and>
    writes_to p (ports (kbd_set_leds dev s)) =
      writes_to p (ports s) @ (if p = 0x60 then [0xED, if caps_lock s then 4 else 0] else []) \<and>
    kbd_set_leds dev s = s\<lparr>ports := ports (kbd_set_leds dev s)\<rparr>"
proof -
  let ?a = "outb 0x60 0xED (ps2_wait_input_clear dev s)"
  let ?h1 = "ports (ps2_wait_input_clear dev s)" and ?h2 = "ports (ps2_wait_input_clear dev ?a)"
  have w: "waited input_full 100000 (ports s) ?h1" "waited input_full 100000 (Out 0x60 0xED # ?h1) ?h2"
    using wait_input_clear_waited [of 100000 s dev] wait_input_clear_waited [of 100000 ?a dev]
    by (simp_all add: ps2_wait_input_clear_def)
  have e: "kbd_set_leds dev s = outb 0x60 (if caps_lock s then 4 else 0) (ps2_wait_input_clear dev ?a)"
    by (simp add: kbd_set_leds_def kbd_send_command_def)
  have "?a = s\<lparr>ports := Out 0x60 0xED # ?h1\<rparr>"
    unfolding ps2_wait_input_clear_def by (subst wait_input_clear_frame) (simp add: outb_def)
  moreover have "ps2_wait_input_clear dev ?a = ?a\<lparr>ports := ?h2\<rparr>"
    unfolding ps2_wait_input_clear_def by (rule wait_input_clear_frame)
  ultimately have f: "ps2_wait_input_clear dev ?a = s\<lparr>ports := ?h2\<rparr>" by simp
  have g: "kbd_set_leds dev s = outb 0x60 (if caps_lock s then 4 else 0) (s\<lparr>ports := ?h2\<rparr>)"
    by (subst f [symmetric]) (rule e)
  show ?thesis unfolding g
    by (rule exI [of _ ?h1], rule exI [of _ ?h2])
      (use w waited_writes [OF w(1), of p] waited_writes [OF w(2), of p] in \<open>simp add: outb_def\<close>)
qed

section \<open>The interrupt callback\<close>

lemma keyboard_callback_fields [simp]:
  "buffer (keyboard_callback dev regs s) = buffer s"
  "buf_head (keyboard_callback dev regs s) = buf_head s"
  "buf_tail (keyboard_callback dev regs s) = buf_tail s"
  "probe (keyboard_callback dev regs s) = (if probe s = 57 then 48 else probe s + 1)"
  "mem (keyboard_callback dev regs s) = store16 0xB8000 (ucast (probe s) OR 0x4F00) (mem s)"
  by (simp_all add: keyboard_callback_def inb_def Let_def)

lemma probe_after:
  "probe s = 48 \<Longrightarrow> probe ((keyboard_callback dev regs ^^ n) s) = 48 + of_nat (n mod 10)"
proof (induction n)
  case (Suc n)
  have "n mod 10 \<in> {0..<10}" by simp
  also have "{0..<10 :: nat} = {0, 1, 2, 3, 4, 5, 6, 7, 8, 9}" by code_simp
  finally show ?case using Suc by (auto simp: mod_Suc)
qed simp

text \<open>
  The keyboard delivers nothing: whatever the hardware answers and however many key presses the callback
  serves after \<open>keyboard_initialize\<close>, \<open>keyboard_read\<close> reports an empty buffer, because the callback discards
  the scan code.
\<close>

theorem keyboard_never_delivers:
  "fst (keyboard_read c ((keyboard_callback dev regs ^^ n) (keyboard_initialize dev callback s))) = False"
proof -
  have "buf_head ((keyboard_callback dev regs ^^ n) t) = buf_head t"
    "buf_tail ((keyboard_callback dev regs ^^ n) t) = buf_tail t" for t :: "'a kbd_state_scheme"
    by (induction n) simp_all
  moreover have "buf_head (keyboard_initialize dev callback s) = 0" "buf_tail (keyboard_initialize dev callback s) = 0"
    by (simp_all add: keyboard_initialize_def irq_register_handler_def isr_register_handler_def
        pic_clear_mask_def inb_def outb_def Let_def)
  ultimately show ?thesis by (simp add: keyboard_read_def)
qed

end
