(* ===== verification/Kernel.thy ===== *)
theory Kernel
  imports Libc_Stdio Keyboard
begin

text \<open>
  The i386 kernel put together, \<^verbatim>\<open>src/legacy/kernel/kernel.c\<close>: \<open>kernel_main\<close> calls the terminal, the
  formatted output and the interrupt system in the order of the source and ends in the idle loop.

  The processor's part of an interrupt is \<open>enter_gate\<close>: it follows the gate of the vector to one of the entry
  stubs of \<^verbatim>\<open>isr_stubs.S\<close>, which call \<open>isr_handler\<close> or \<open>irq_handler\<close> with the saved registers and return with
  the interrupt flag as it was. A vector without a gate, or a gate that leads to no known stub, has no
  defined end. \<open>idle\<close> is the idle loop as a transition system: the states that hardware interrupts can lead to
  while the processor is halted with interrupts on.
\<close>

section \<open>Definitions\<close>

definition stub_index :: "(nat \<Rightarrow> u32) \<Rightarrow> nat \<Rightarrow> u32 \<Rightarrow> nat option" where
  "stub_index stub n addr = List.find (\<lambda>k. stub k = addr) [0..<n]"

definition enter_gate :: "(u32 \<Rightarrow> registers \<Rightarrow> 'a intr_state_scheme \<Rightarrow> 'a intr_state_scheme) \<Rightarrow>
    (nat \<Rightarrow> u32) \<Rightarrow> (nat \<Rightarrow> u32) \<Rightarrow> nat \<Rightarrow> registers \<Rightarrow> 'a intr_state_scheme \<Rightarrow>
    'a intr_state_scheme outcome" where
  "enter_gate call isr_stub irq_stub vector regs s =
     (if vector \<ge> length (idt s) then NoReturn
      else case gate_of s vector of
        None \<Rightarrow> NoReturn
      | Some (addr, _, _) \<Rightarrow>
          (let saved = intr_flag s; s = s\<lparr>intr_flag := False\<rparr>
           in case stub_index irq_stub 16 addr of
             Some k \<Rightarrow> Returned ((irq_handler (regs\<lparr>int_no := of_nat (32 + k)\<rparr>) s)\<lparr>intr_flag := saved\<rparr>)
           | None \<Rightarrow>
               (case stub_index isr_stub 32 addr of
                  Some k \<Rightarrow>
                    (case isr_handler call (regs\<lparr>int_no := of_nat k\<rparr>) s of
                       Returned t \<Rightarrow> Returned (t\<lparr>intr_flag := saved\<rparr>)
                     | r \<Rightarrow> r)
                | None \<Rightarrow> NoReturn)))"

text \<open>\<open>kernel_main\<close> never returns; its value is the state in which it enters the idle loop.\<close>

definition kernel_main :: "device \<Rightarrow> (u32 \<Rightarrow> registers \<Rightarrow> 'a intr_state_scheme \<Rightarrow> 'a intr_state_scheme) \<Rightarrow>
    u32 \<Rightarrow> (nat \<Rightarrow> u32) \<Rightarrow> (nat \<Rightarrow> u32) \<Rightarrow> registers \<Rightarrow> 'a intr_state_scheme \<Rightarrow>
    'a intr_state_scheme option" where
  "kernel_main dev call idt_addr isr_stub irq_stub regs s =
     (let s = terminal_initialize s
      in Option.bind (printf (cstr ''SzOS'' @ [10]) [] s) (\<lambda>(_, s).
         let s = interrupts_initialize dev idt_addr isr_stub irq_stub s
         in Option.bind (printf (cstr ''irq1='') [] s) (\<lambda>(_, s).
            Option.bind (print_hex32 (irq_stub 1) s) (\<lambda>s.
            Option.bind (printf [10] [] s) (\<lambda>(_, s).
            let s = interrupts_enable s
            in Option.bind (printf (cstr ''Antes do int 33'' @ [10]) [] s) (\<lambda>(_, s).
               case enter_gate call isr_stub irq_stub 33 regs s of
                 Returned s \<Rightarrow> map_option snd (printf (cstr ''depois do int 33 - stub OK'' @ [10]) [] s)
               | _ \<Rightarrow> None))))))"

text \<open>A line that the controllers would raise: unmasked, and for the slave's lines the cascade unmasked too.\<close>

definition deliverable :: "u8 \<Rightarrow> 'a intr_state_scheme \<Rightarrow> bool" where
  "deliverable i s \<longleftrightarrow> i < 16 \<and> intr_flag s \<and> \<not> irq_masked s i \<and> (i \<ge> 8 \<longrightarrow> \<not> irq_masked s 2)"

definition irq_vector :: "u8 \<Rightarrow> 'a machine_scheme \<Rightarrow> nat" where
  "irq_vector i s =
     (if i < 8 then unat (vector_base (master (ports s))) + unat i
      else unat (vector_base (slave (ports s))) + unat (i - 8))"

inductive idle :: "(u32 \<Rightarrow> registers \<Rightarrow> 'a intr_state_scheme \<Rightarrow> 'a intr_state_scheme) \<Rightarrow>
    (nat \<Rightarrow> u32) \<Rightarrow> (nat \<Rightarrow> u32) \<Rightarrow> 'a intr_state_scheme \<Rightarrow> 'a intr_state_scheme \<Rightarrow> bool"
  for call isr_stub irq_stub s where
  idle_start: "idle call isr_stub irq_stub s s"
| idle_irq: "idle call isr_stub irq_stub s t \<Longrightarrow> deliverable i t \<Longrightarrow>
    enter_gate call isr_stub irq_stub (irq_vector i t) regs t = Returned u \<Longrightarrow>
    idle call isr_stub irq_stub s u"

inductive_cases idle_cases: "idle call isr_stub irq_stub s t"

section \<open>What is on the screen\<close>

definition blank_screen :: screen where
  "blank_screen = \<lparr>cur_row = 0, cur_col = 0, cur_color = 7,
      cells = (\<lambda>r c. if r < 25 \<and> c < 80 then 0x0720 else 0)\<rparr>"

definition shown :: "u8 list \<Rightarrow> 'a tty_scheme \<Rightarrow> bool" where
  "shown text s \<longleftrightarrow> tty_inv s \<and> write_chars screen_char text blank_screen = Some (tty_abs s)"

lemma shown_initialize: "shown [] (terminal_initialize s)"
  using initialize_blank [of s] by (simp add: shown_def blank_screen_def)

lemma shown_write:
  assumes "shown text s" and "9 \<notin> set xs"
  obtains t where "terminal_write xs s = Some t" "shown (text @ xs) t" "tty_frame s t"
proof -
  obtain t where t: "write_chars terminal_putchar xs s = Some t" "tty_inv t" "tty_frame s t"
    "write_chars screen_char xs (tty_abs s) = Some (tty_abs t)"
    using tty_sink.write_returns [of s xs] assms by (auto simp: shown_def)
  show thesis
    by (rule that [of t]) (use t assms in \<open>simp_all add: terminal_write_def shown_def write_chars_append\<close>)
qed

lemma shown_printf:
  assumes "shown text s" and "9 \<notin> set xs" and "37 \<notin> set xs" and "length xs < 100"
  obtains t n where "printf xs [] s = Some (n, t)" "shown (text @ xs) t" "tty_frame s t"
proof -
  obtain t where t: "terminal_write xs s = Some t" "shown (text @ xs) t" "tty_frame s t"
    using shown_write [OF assms(1,2)] .
  have "render xs [] = Some xs" using render_plain [OF assms(3), of "[]" "[]"] by simp
  from printf_write [OF this, of s] t(1) assms(4) show thesis
    by (intro that [OF _ t(2,3)]) simp
qed

lemma shown_cong:
  "mem t = mem s \<Longrightarrow> terminal_row t = terminal_row s \<Longrightarrow> terminal_column t = terminal_column s \<Longrightarrow>
   terminal_color t = terminal_color s \<Longrightarrow> terminal_buffer t = terminal_buffer s \<Longrightarrow>
   shown text t = shown text s"
  by (simp add: shown_def tty_inv_def tty_abs_def cong: if_cong)

lemma frame_intr:
  fixes s t :: "'a intr_state_scheme"
  assumes "tty_frame s t"
  shows "idt t = idt s" "idtr t = idtr s" "intr_flag t = intr_flag s"
    "interrupt_handlers t = interrupt_handlers s" "ports t = ports s"
proof -
  have "tty.more t = tty.more s" "ports t = ports s" using assms by (simp_all add: tty_frame_def)
  then show "idt t = idt s" "idtr t = idtr s" "intr_flag t = intr_flag s"
    "interrupt_handlers t = interrupt_handlers s" "ports t = ports s"
    by (cases s; cases t; simp)+
qed

lemma pic_remap_tty [simp]:
  fixes s :: "'a tty_scheme"
  shows "terminal_row (pic_remap dev a b s) = terminal_row s"
  "terminal_column (pic_remap dev a b s) = terminal_column s"
  "terminal_color (pic_remap dev a b s) = terminal_color s"
  "terminal_buffer (pic_remap dev a b s) = terminal_buffer s"
  by (simp_all add: pic_remap_def inb_def outb_def io_wait_def Let_def)

lemma outb_tty [simp]:
  fixes s :: "'a tty_scheme"
  shows "terminal_row (outb p v s) = terminal_row s" "terminal_column (outb p v s) = terminal_column s"
  "terminal_color (outb p v s) = terminal_color s" "terminal_buffer (outb p v s) = terminal_buffer s"
  by (simp_all add: outb_def)

lemma shown_interrupts_initialize:
  "shown text (interrupts_initialize dev a isr_stub irq_stub s) = shown text s"
proof (rule shown_cong)
  have g: "terminal_row (for_up k (\<lambda>i. kernel_gate (f i) (h i)) s) = terminal_row s"
    "terminal_column (for_up k (\<lambda>i. kernel_gate (f i) (h i)) s) = terminal_column s"
    "terminal_color (for_up k (\<lambda>i. kernel_gate (f i) (h i)) s) = terminal_color s"
    "terminal_buffer (for_up k (\<lambda>i. kernel_gate (f i) (h i)) s) = terminal_buffer s"
    "mem (for_up k (\<lambda>i. kernel_gate (f i) (h i)) s) = mem s" for k f h and s :: "'a idt_state_scheme"
    by (simp_all add: for_up_keeps kernel_gate_def)
  note defs = interrupts_initialize_def isr_install_gates irq_install_gates g idt_install_def
    idt_flush_def Let_def
  let ?t = "interrupts_initialize dev a isr_stub irq_stub s"
  show "mem ?t = mem s" by (simp add: defs)
  show "terminal_row ?t = terminal_row s" "terminal_column ?t = terminal_column s"
    "terminal_color ?t = terminal_color s" "terminal_buffer ?t = terminal_buffer s"
    by (simp_all add: defs)
qed

section \<open>Booting\<close>

text \<open>The interrupt system that the kernel runs with.\<close>

definition intr_ok :: "(nat \<Rightarrow> u32) \<Rightarrow> (nat \<Rightarrow> u32) \<Rightarrow> 'a intr_state_scheme \<Rightarrow> bool" where
  "intr_ok isr_stub irq_stub s \<longleftrightarrow> idt_wf s \<and>
     map (gate_of s) [0..<256] =
       map (\<lambda>n. if n < 32 then Some (isr_stub n, 0x08, 0x8E)
         else if n < 48 then Some (irq_stub (n - 32), 0x08, 0x8E) else None) [0..<256] \<and>
     pic_ready s \<and> vector_base (master (ports s)) = 32 \<and> vector_base (slave (ports s)) = 40 \<and>
     filter (\<lambda>i. \<not> irq_masked s (of_nat i)) [0..<16] = [1]"

lemma intr_ok_cong:
  fixes s t :: "'a intr_state_scheme"
  assumes "idt t = idt s" "ports t = ports s"
  shows "intr_ok a b t = intr_ok a b s"
  using gate_of_cong [OF assms(1)] assms(2)
  by (simp add: intr_ok_def pic_ready_def irq_masked_def fun_eq_iff)

lemma interrupts_initialize_ok: "intr_ok isr_stub irq_stub (interrupts_initialize dev a isr_stub irq_stub s)"
proof -
  have g: "length (idt (for_up k (\<lambda>i. kernel_gate (f i) (h i)) s)) = length (idt s)"
    for k f h and s :: "'a intr_state_scheme"
    by (rule for_up_keeps [where f = "\<lambda>s. length (idt s)"]) (simp add: kernel_gate_def idt_set_gate_def)
  have "idt_wf (interrupts_initialize dev a isr_stub irq_stub s)"
    using idt_install_wf [of a s]
    by (simp add: interrupts_initialize_def isr_install_gates irq_install_gates idt_wf_def g)
  with initialize_interrupts [of dev a isr_stub irq_stub s] show ?thesis by (simp add: intr_ok_def)
qed

lemma stub_index_hit: "k < n \<Longrightarrow> stub_index stub n (stub k) \<noteq> None"
  by (auto simp: stub_index_def find_None_iff)

lemma intr_ok_gate:
  assumes "intr_ok isr_stub irq_stub s" "32 \<le> n" "n < 48"
  shows "gate_of s n = Some (irq_stub (n - 32), 0x08, 0x8E)"
proof -
  have "map (gate_of s) [0..<256] ! n = Some (irq_stub (n - 32), 0x08, 0x8E)"
    using assms by (simp add: intr_ok_def)
  with assms show ?thesis by simp
qed

text \<open>A hardware vector is served by acknowledging the master controller, and by nothing else.\<close>

lemma enter_irq_gate:
  assumes "intr_ok isr_stub irq_stub s" "32 \<le> n" "n < 48"
  shows "enter_gate call isr_stub irq_stub n regs s = Returned (outb 0x20 0x20 s)"
proof -
  have l: "\<not> length (idt s) \<le> n" using assms by (simp add: intr_ok_def idt_wf_def)
  obtain k where k: "stub_index irq_stub 16 (irq_stub (n - 32)) = Some k"
  proof -
    have "n - 32 < 16" using assms by simp
    from stub_index_hit [OF this, of irq_stub] that show thesis by auto
  qed
  show ?thesis using l k intr_ok_gate [OF assms]
    by (simp add: enter_gate_def irq_handler_def Let_def outb_def)
qed

lemma intr_ok_eoi: "intr_ok a b (outb 0x20 0x20 s) = intr_ok a b s"
  using gate_of_cong [of "outb 0x20 0x20 s" s]
  by (simp add: intr_ok_def pic_ready_def irq_masked_def chip_command_def fun_eq_iff)

definition kernel_text :: "u32 \<Rightarrow> u8 list" where
  "kernel_text irq1 =
     cstr ''SzOS'' @ [10] @ cstr ''irq1='' @ (cstr ''0x'' @ hex_digits32 irq1) @ [10] @
     cstr ''Antes do int 33'' @ [10] @ cstr ''depois do int 33 - stub OK'' @ [10]"

lemma hex_char_range: "nibble < 16 \<Longrightarrow> 48 \<le> hex_char nibble"
  by (auto simp: hex_char_def word_less_nat_alt word_le_nat_alt unat_word_ariths unat_sub_if')

lemma hex_digits32_no_tab: "9 \<notin> set (hex_digits32 v)"
proof -
  have "(ucast (drop_bit sh v AND 0xF) :: u8) < 16" for sh
  proof -
    have "drop_bit sh v AND 0xF \<le> 0xF" by (rule word_and_le1)
    then have "unat (drop_bit sh v AND 0xF) < 16" by (simp add: word_le_nat_alt)
    then show ?thesis by (simp add: word_less_nat_alt unsigned_ucast_eq take_bit_nat_eq_self)
  qed
  then have le: "48 \<le> hex_char (ucast (drop_bit sh v AND 0xF))" for sh by (rule hex_char_range)
  have "hex_char (ucast (drop_bit sh v AND 0xF)) \<noteq> 9" for sh
    using le [of sh] by (intro notI) simp
  from this [of 0] this show ?thesis by (simp add: hex_digits32_def)
qed

text \<open>One output statement of \<open>kernel_main\<close>, and the rest of it.\<close>

definition plain :: "u8 list \<Rightarrow> bool" where
  "plain xs \<longleftrightarrow> 9 \<notin> set xs \<and> 37 \<notin> set xs \<and> length xs < 100"

lemma printf_then:
  assumes "shown out s" and "plain xs"
    and "\<And>t. shown (out @ xs) t \<Longrightarrow> tty_frame s t \<Longrightarrow> \<exists>u. k t = Some u \<and> P u"
  shows "\<exists>u. Option.bind (printf xs [] s) (\<lambda>(_, t). k t) = Some u \<and> P u"
proof -
  obtain t n where t: "printf xs [] s = Some (n, t)" "shown (out @ xs) t" "tty_frame s t"
    using shown_printf assms(1,2) unfolding plain_def by blast
  from assms(3) [OF t(2,3)] t(1) show ?thesis by simp
qed

lemma print_hex32_then:
  assumes "shown out s"
    and "\<And>t. shown (out @ cstr ''0x'' @ hex_digits32 v) t \<Longrightarrow> tty_frame s t \<Longrightarrow> \<exists>u. k t = Some u \<and> P u"
  shows "\<exists>u. Option.bind (print_hex32 v s) k = Some u \<and> P u"
proof -
  have "9 \<notin> set (cstr ''0x'' @ hex_digits32 v)" using hex_digits32_no_tab by (simp add: cstr_def)
  then obtain t where t: "terminal_write (cstr ''0x'' @ hex_digits32 v) s = Some t"
    "shown (out @ cstr ''0x'' @ hex_digits32 v) t" "tty_frame s t"
    using shown_write assms(1) by blast
  from assms(2) [OF t(2,3)] t(1) show ?thesis by (simp add: print_hex32_writes)
qed

lemma frame_intr_ok: "tty_frame s t \<Longrightarrow> intr_ok a b s \<Longrightarrow> intr_ok a b t \<and> intr_flag t = intr_flag s"
  using frame_intr [of s t] intr_ok_cong [of t s] by simp

text \<open>\<open>kernel_main\<close> from the point where interrupts are on.\<close>

lemma kernel_main_tail:
  assumes "shown out s" "intr_ok isr_stub irq_stub s" "intr_flag s"
  shows "\<exists>u. Option.bind (printf (cstr ''Antes do int 33'' @ [10]) [] s) (\<lambda>(_, s).
      case enter_gate call isr_stub irq_stub 33 regs s of
        Returned s \<Rightarrow> map_option snd (printf (cstr ''depois do int 33 - stub OK'' @ [10]) [] s)
      | _ \<Rightarrow> None) = Some u \<and>
    shown ((out @ cstr ''Antes do int 33'' @ [10]) @ cstr ''depois do int 33 - stub OK'' @ [10]) u \<and>
    intr_flag u \<and> intr_ok isr_stub irq_stub u"
proof (rule printf_then [OF assms(1)])
  show "plain (cstr ''Antes do int 33'' @ [10])" by (simp add: plain_def cstr_def)
next
  fix t assume t: "shown (out @ cstr ''Antes do int 33'' @ [10]) t" "tty_frame s t"
  let ?v = "outb 0x20 0x20 t"
  from t(2) assms have ok: "intr_ok isr_stub irq_stub t" "intr_flag t" using frame_intr_ok by blast+
  have g: "enter_gate call isr_stub irq_stub 33 regs t = Returned ?v"
    by (rule enter_irq_gate [OF ok(1)]) simp_all
  have v: "shown (out @ cstr ''Antes do int 33'' @ [10]) ?v" "intr_ok isr_stub irq_stub ?v" "intr_flag ?v"
    using t(1) shown_cong [of ?v t] ok by (simp_all add: intr_ok_eoi) (simp add: outb_def)
  have "\<exists>u. Option.bind (printf (cstr ''depois do int 33 - stub OK'' @ [10]) [] ?v) (\<lambda>(_, u). Some u) = Some u \<and>
    (shown ((out @ cstr ''Antes do int 33'' @ [10]) @ cstr ''depois do int 33 - stub OK'' @ [10]) u \<and>
     intr_flag u \<and> intr_ok isr_stub irq_stub u)"
    by (rule printf_then [OF v(1)]) (use frame_intr_ok v in \<open>auto simp: plain_def cstr_def\<close>)
  then show "\<exists>u. (case enter_gate call isr_stub irq_stub 33 regs t of
        Returned s \<Rightarrow> map_option snd (printf (cstr ''depois do int 33 - stub OK'' @ [10]) [] s)
      | _ \<Rightarrow> None) = Some u \<and>
    shown ((out @ cstr ''Antes do int 33'' @ [10]) @ cstr ''depois do int 33 - stub OK'' @ [10]) u \<and>
    intr_flag u \<and> intr_ok isr_stub irq_stub u"
    unfolding g by (auto split: bind_splits)
qed

lemma kernel_main_reaches_idle:
  "\<exists>t. kernel_main dev call idt_addr isr_stub irq_stub regs s = Some t \<and>
    shown (kernel_text (irq_stub 1)) t \<and> intr_flag t \<and> intr_ok isr_stub irq_stub t"
  unfolding kernel_main_def Let_def
proof (rule printf_then [OF shown_initialize])
  show "plain (cstr ''SzOS'' @ [10])" by (simp add: plain_def cstr_def)
next
  let ?goal = "\<lambda>t. shown (kernel_text (irq_stub 1)) t \<and> intr_flag t \<and> intr_ok isr_stub irq_stub t"
  fix s1 :: "'a intr_state_scheme"
  assume s1: "shown ([] @ cstr ''SzOS'' @ [10]) s1"
  let ?s2 = "interrupts_initialize dev idt_addr isr_stub irq_stub s1"
  have s2: "shown ([] @ cstr ''SzOS'' @ [10]) ?s2" "intr_ok isr_stub irq_stub ?s2"
    using s1 by (simp_all add: shown_interrupts_initialize interrupts_initialize_ok)
  show "\<exists>u. Option.bind (printf (cstr ''irq1='') [] ?s2) (\<lambda>(_, s).
      Option.bind (print_hex32 (irq_stub 1) s) (\<lambda>s.
      Option.bind (printf [10] [] s) (\<lambda>(_, s).
      Option.bind (printf (cstr ''Antes do int 33'' @ [10]) [] (interrupts_enable s)) (\<lambda>(_, s).
      case enter_gate call isr_stub irq_stub 33 regs s of
        Returned s \<Rightarrow> map_option snd (printf (cstr ''depois do int 33 - stub OK'' @ [10]) [] s)
      | _ \<Rightarrow> None)))) = Some u \<and> ?goal u"
  proof (rule printf_then [OF s2(1)], simp add: plain_def cstr_def, rule print_hex32_then, assumption,
      rule printf_then, assumption, simp add: plain_def)
    fix s3 s4 s5 :: "'a intr_state_scheme"
    assume f: "tty_frame ?s2 s3" "tty_frame s3 s4" "tty_frame s4 s5"
      and sh: "shown (((([] @ cstr ''SzOS'' @ [10]) @ cstr ''irq1='') @ cstr ''0x'' @ hex_digits32 (irq_stub 1)) @ [10]) s5"
    have ok: "intr_ok isr_stub irq_stub s5" using f s2(2) frame_intr_ok by blast
    have e: "shown (((([] @ cstr ''SzOS'' @ [10]) @ cstr ''irq1='') @ cstr ''0x'' @ hex_digits32 (irq_stub 1)) @ [10])
        (interrupts_enable s5)" "intr_ok isr_stub irq_stub (interrupts_enable s5)" "intr_flag (interrupts_enable s5)"
      using sh ok shown_cong [of "interrupts_enable s5" s5] intr_ok_cong [of "interrupts_enable s5" s5]
      by (simp_all add: interrupts_enable_def)
    show "\<exists>u. Option.bind (printf (cstr ''Antes do int 33'' @ [10]) [] (interrupts_enable s5)) (\<lambda>(_, s).
      case enter_gate call isr_stub irq_stub 33 regs s of
        Returned s \<Rightarrow> map_option snd (printf (cstr ''depois do int 33 - stub OK'' @ [10]) [] s)
      | _ \<Rightarrow> None) = Some u \<and> ?goal u"
      using kernel_main_tail [OF e, of call regs] by (simp add: kernel_text_def)
  qed
qed

text \<open>
  C1. The kernel boots: from any initial state and whatever the hardware answers, \<open>kernel_main\<close> reaches its
  idle loop. The screen then shows exactly the boot messages on a cleared screen, with the address of the
  keyboard stub in hexadecimal; interrupts are on, the table holds the 48 gates, the controllers are at
  vectors 32 and 40 and only the keyboard line is unmasked.
\<close>

theorem kernel_main_boots:
  "\<exists>t. kernel_main dev call idt_addr isr_stub irq_stub regs s = Some t \<and>
    shown (kernel_text (irq_stub 1)) t \<and> intr_flag t \<and> intr_ok isr_stub irq_stub t"
  by (rule kernel_main_reaches_idle)

section \<open>The idle loop\<close>

lemma only_line_1:
  assumes "intr_ok isr_stub irq_stub s" "deliverable i s"
  shows "i = 1"
proof -
  from assms(2) have "unat i \<in> set (filter (\<lambda>i. \<not> irq_masked s (of_nat i)) [0..<16])"
    by (simp add: deliverable_def word_less_nat_alt)
  with assms(1) have "unat i = 1" by (simp add: intr_ok_def)
  then show ?thesis by (simp add: u8_eq_iff_unat)
qed

lemma line_1_vector: "intr_ok isr_stub irq_stub s \<Longrightarrow> irq_vector 1 s = 33"
  by (simp add: intr_ok_def irq_vector_def)

lemma idle_keeps:
  assumes "idle call isr_stub irq_stub s t" "intr_ok isr_stub irq_stub s" "intr_flag s"
  shows "intr_ok isr_stub irq_stub t \<and> intr_flag t \<and> t = s\<lparr>ports := ports t\<rparr>"
  using assms
proof (induction rule: idle.induct)
  case idle_start
  then show ?case by simp
next
  case (idle_irq t i regs u)
  then have ok: "intr_ok isr_stub irq_stub t" "intr_flag t" and eq: "t = s\<lparr>ports := ports t\<rparr>" by simp_all
  have "i = 1" using only_line_1 [OF ok(1) idle_irq.hyps(2)] .
  then have u: "u = outb 0x20 0x20 t"
    using idle_irq.hyps(3) enter_irq_gate [OF ok(1), of 33 call regs] line_1_vector [OF ok(1)] by simp
  have "u = s\<lparr>ports := ports u\<rparr>" unfolding u outb_def by (subst eq) simp
  moreover have "intr_flag u" using ok(2) by (simp add: u outb_def)
  moreover have "intr_ok isr_stub irq_stub u" using ok(1) by (simp add: u intr_ok_eoi)
  ultimately show ?case by simp
qed

text \<open>
  The idle loop is stable: in every state that hardware interrupts can lead to after booting, interrupts
  are on, the keyboard line is the only one that can be delivered, serving it returns to the loop after
  acknowledging the controller, and nothing in memory has changed since the loop was entered.
\<close>

theorem idle_loop_stable:
  assumes "kernel_main dev call idt_addr isr_stub irq_stub regs s = Some t"
    and "idle call isr_stub irq_stub t u"
  shows "intr_flag u \<and> (\<forall>i. deliverable i u \<longleftrightarrow> i = 1) \<and>
    enter_gate call isr_stub irq_stub (irq_vector 1 u) regs' u = Returned (outb 0x20 0x20 u) \<and>
    u = t\<lparr>ports := ports u\<rparr>"
proof -
  have t: "intr_ok isr_stub irq_stub t" "intr_flag t"
    using kernel_main_reaches_idle [of dev call idt_addr isr_stub irq_stub regs s] assms(1) by auto
  note u = idle_keeps [OF assms(2) t]
  have "1 \<in> set (filter (\<lambda>i. \<not> irq_masked u (of_nat i)) [0..<16])"
    using u by (simp add: intr_ok_def)
  then have "deliverable 1 u" using u by (simp add: deliverable_def word_le_nat_alt)
  then have "deliverable i u \<longleftrightarrow> i = 1" for i using only_line_1 u by blast
  moreover have "irq_vector 1 u = 33" using u line_1_vector by blast
  moreover have "enter_gate call isr_stub irq_stub 33 regs' u = Returned (outb 0x20 0x20 u)"
    by (rule enter_irq_gate) (use u in simp_all)
  ultimately show ?thesis using u by simp
qed

theorem idle_loop_stable_witness:
  "\<exists>t. kernel_main pic_dev (\<lambda>_ _ s. s) 0x5000 (\<lambda>n. 0x1000 + 16 * of_nat n) (\<lambda>n. 0x2000 + 16 * of_nat n)
      (trap_frame 0 0) boot_intr = Some t \<and>
    enter_gate (\<lambda>_ _ s. s) (\<lambda>n. 0x1000 + 16 * of_nat n) (\<lambda>n. 0x2000 + 16 * of_nat n)
      (irq_vector 1 t) (trap_frame 0 0) t = Returned (outb 0x20 0x20 t)"
proof -
  obtain t where t: "kernel_main pic_dev (\<lambda>_ _ s. s) 0x5000 (\<lambda>n. 0x1000 + 16 * of_nat n)
      (\<lambda>n. 0x2000 + 16 * of_nat n) (trap_frame 0 0) boot_intr = Some t"
    using kernel_main_reaches_idle [of pic_dev "\<lambda>_ _ s. s" "0x5000" "\<lambda>n. 0x1000 + 16 * of_nat n"
        "\<lambda>n. 0x2000 + 16 * of_nat n" "trap_frame 0 0" boot_intr] by blast
  from idle_loop_stable [OF t idle_start] t show ?thesis by blast
qed

end
