(* ===== verification/KC_Util.thy ===== *)
theory KC_Util
  imports Libc_String
begin

text \<open>
  The helpers of the 32-bit tutorial kernel, \<^verbatim>\<open>src/legacy/kernel-c/kernel/util.c\<close>: a block copy and the
  conversion of an \<open>int\<close> to decimal text. \<open>int_to_ascii\<close> returns the bytes it stores from \<open>str[0]\<close> on, the
  terminating zero included; its division truncates towards zero as C's does, and negation wraps.

  Shown: \<open>memory_copy\<close> meets the block copy contract of \<open>Libc_String\<close> where no byte is read after it was
  overwritten; \<open>int_to_ascii\<close> writes the signed decimal numeral for every \<open>int\<close> but the smallest.
\<close>

section \<open>Definitions\<close>

definition memory_copy :: "u32 \<Rightarrow> u32 \<Rightarrow> int \<Rightarrow> mem \<Rightarrow> mem" where
  "memory_copy source dest nbytes m =
     for_up (nat nbytes) (\<lambda>i m. m(dest + of_nat i := m (source + of_nat i))) m"

function itoa_loop :: "int \<Rightarrow> u8 list \<Rightarrow> u8 list" where
  "itoa_loop n str =
     (let str = str @ [word_of_int (n smod 10 + 48)];
          n = n sdiv 10
      in if n > 0 then itoa_loop n str else str)"
  by pat_completeness auto
termination
proof (relation "measure (\<lambda>(n, str). nat n)")
  fix n :: int and str x xa
  assume "xa = n sdiv 10" "0 < xa"
  then have "0 < n sdiv 10" by simp
  then have "0 < n" by (cases "0 < n") (auto simp: signed_divide_int_def sgn_if split: if_splits)
  then have "n sdiv 10 = n div 10" by (simp add: signed_divide_int_def)
  with \<open>0 < n\<close> \<open>xa = n sdiv 10\<close> show "((xa, x), (n, str)) \<in> measure (\<lambda>(n, str). nat n)" by simp
qed simp

declare itoa_loop.simps [simp del]

definition swap_ends :: "nat \<Rightarrow> nat \<Rightarrow> u8 list \<Rightarrow> u8 list" where
  "swap_ends i j str = (let temp = str ! j in (str[j := str ! (i - j - 1)])[i - j - 1 := temp])"

definition int_to_ascii :: "int \<Rightarrow> u8 list" where
  "int_to_ascii n =
     (let sgn = n;
          n = (if sgn < 0 then s32 (- n) else n);
          str = itoa_loop n [];
          str = (if sgn < 0 then str @ [45] else str);
          i = length str;
          str = str @ [0]
      in for_up (i div 2) (swap_ends i) str)"

section \<open>Block copies\<close>

lemma memory_copy_copied:
  assumes "0 \<le> n" "n \<le> 4294967296"
    and "\<And>i j. i < j \<Longrightarrow> j < nat n \<Longrightarrow> dest + of_nat i \<noteq> source + of_nat j"
  shows "memory_copy source dest n m = copied m dest source (nat n)"
  using copy_up_copied [of "nat n" dest source m] assms
  by (simp add: memory_copy_def copy_byte_def [abs_def])

section \<open>Numbers\<close>

lemma itoa_loop_digits:
  "0 \<le> n \<Longrightarrow> itoa_loop n acc = acc @ rev (map digit_char (decimal (nat n)))"
proof (induction n acc rule: itoa_loop.induct)
  case (1 n acc)
  have dm: "n sdiv 10 = n div 10" "n smod 10 = n mod 10"
    using \<open>0 \<le> n\<close> by (simp_all add: signed_divide_int_def signed_modulo_int_def minus_div_mult_eq_mod sgn_if)
  have d: "word_of_int (n mod 10 + 48) = digit_char (nat n mod 10)"
    using digit_char_word [of "n mod 10"] \<open>0 \<le> n\<close> by (simp add: nat_mod_distrib)
  show ?case
  proof (cases "n < 10")
    case True
    with \<open>0 \<le> n\<close> d show ?thesis
      by (simp add: itoa_loop.simps [of n] dm decimal.simps [of "nat n"])
  next
    case False
    then have q: "0 < n div 10" "nat (n div 10) = nat n div 10" by (simp_all add: nat_div_distrib)
    from False q "1.IH" [OF refl refl] d show ?thesis
      by (simp add: itoa_loop.simps [of n acc] dm decimal.simps [of "nat n"] Let_def)
  qed
qed

lemma swap_ends_nth:
  assumes "j < i" "i \<le> length str" "k < length str"
  shows "swap_ends i j str ! k = (if k = j then str ! (i - j - 1) else if k = i - j - 1 then str ! j else str ! k)"
  using assms by (auto simp: swap_ends_def nth_list_update)

text \<open>The swapping loop reverses everything before the terminator.\<close>

lemma swap_ends_rev: "for_up (length xs div 2) (swap_ends (length xs)) (xs @ [z]) = rev xs @ [z]"
proof -
  let ?i = "length xs"
  let ?r = "for_up (?i div 2) (swap_ends ?i) (xs @ [z])"
  define I where "I j str \<longleftrightarrow> length str = Suc ?i \<and>
    (\<forall>k < Suc ?i. str ! k = (if k < ?i \<and> (k < j \<or> ?i - 1 - k < j) then (xs @ [z]) ! (?i - 1 - k) else (xs @ [z]) ! k))"
    for j str
  have "I (?i div 2) (for_up (?i div 2) (swap_ends ?i) (xs @ [z]))"
  proof (rule for_up_invariant)
    show "I 0 (xs @ [z])" by (simp add: I_def)
  next
    fix j str
    assume j: "j < ?i div 2" and I: "I j str"
    then have j2: "2 * j + 1 < ?i" by simp
    have len: "length (swap_ends ?i j str) = Suc ?i" using I by (simp add: I_def swap_ends_def)
    have "swap_ends ?i j str ! k = (if k < ?i \<and> (k < Suc j \<or> ?i - 1 - k < Suc j)
        then (xs @ [z]) ! (?i - 1 - k) else (xs @ [z]) ! k)" if k: "k < Suc ?i" for k
    proof -
      have val: "str ! m = (if m < ?i \<and> (m < j \<or> ?i - 1 - m < j) then (xs @ [z]) ! (?i - 1 - m) else (xs @ [z]) ! m)"
        if "m < Suc ?i" for m using I that by (simp add: I_def)
      have sw: "swap_ends ?i j str ! k =
          (if k = j then str ! (?i - j - 1) else if k = ?i - j - 1 then str ! j else str ! k)"
        using swap_ends_nth [of j ?i str k] I j2 k by (simp add: I_def)
      consider "k = j" | "k = ?i - j - 1" "k \<noteq> j" | "k \<noteq> j" "k \<noteq> ?i - j - 1" by blast
      then show ?thesis
      proof cases
        case 1
        with sw val [of "?i - j - 1"] j2 show ?thesis by auto
      next
        case 2
        with sw val [of j] j2 show ?thesis by auto
      next
        case 3
        with sw val [OF k] j2 k show ?thesis by (auto simp: less_Suc_eq)
      qed
    qed
    with len show "I (Suc j) (swap_ends ?i j str)" by (simp add: I_def)
  qed
  then have I: "I (?i div 2) ?r" .
  have mid: "xs ! i = xs ! (?i - Suc i)" if "\<not> i < ?i div 2" "\<not> ?i - Suc i < ?i div 2" "i < ?i" for i
  proof -
    have "?i - Suc i = i" using that by linarith
    then show ?thesis by simp
  qed
  show ?thesis
  proof (rule nth_equalityI)
    show "length ?r = length (rev xs @ [z])" using I by (simp add: I_def)
  next
    fix i assume "i < length ?r"
    then have i: "i < Suc ?i" using I by (simp add: I_def)
    with I have "?r ! i = (if i < ?i \<and> (i < ?i div 2 \<or> ?i - 1 - i < ?i div 2)
        then (xs @ [z]) ! (?i - 1 - i) else (xs @ [z]) ! i)" by (simp add: I_def)
    with i mid [of i] show "?r ! i = (rev xs @ [z]) ! i"
      by (cases "i = ?i") (auto simp: nth_append rev_nth split: if_splits)
  qed
qed

lemma int_to_ascii_digits:
  assumes "- 2147483648 < n" "n < 2147483648"
  shows "int_to_ascii n = (if n < 0 then [45] else []) @ map digit_char (decimal (nat \<bar>n\<bar>)) @ [0]"
proof -
  let ?ds = "rev (map digit_char (decimal (nat \<bar>n\<bar>)))"
  have "itoa_loop (if n < 0 then s32 (- n) else n) [] = ?ds"
    using assms by (simp add: itoa_loop_digits)
  then have "int_to_ascii n =
      (let str = (if n < 0 then ?ds @ [45] else ?ds)
       in for_up (length str div 2) (swap_ends (length str)) (str @ [0]))"
    unfolding int_to_ascii_def Let_def by (simp only:)
  then show ?thesis by (simp only: Let_def swap_ends_rev) simp
qed

text \<open>
  \<open>int_to_ascii\<close> writes the decimal numeral of every \<open>int\<close> except the smallest one: a minus sign for
  negative numbers, the digits of the absolute value, whose value in base ten is that number, and a
  terminating zero; it never needs more than twelve bytes.
\<close>

theorem int_to_ascii_decimal:
  assumes "- 2147483648 < n" and "n < 2147483648"
  shows "int_to_ascii n = (if n < 0 then [45] else []) @ map digit_char (decimal (nat \<bar>n\<bar>)) @ [0] \<and>
    int (numeral_value (decimal (nat \<bar>n\<bar>))) = \<bar>n\<bar> \<and> length (int_to_ascii n) \<le> 12"
proof -
  have "nat \<bar>n\<bar> < 10 ^ 10" using assms by simp
  then have "length (decimal (nat \<bar>n\<bar>)) \<le> 10" by (intro decimal_length_le) auto
  then have "length (int_to_ascii n) \<le> 12" by (cases "n < 0") (simp_all add: int_to_ascii_digits [OF assms])
  then show ?thesis by (simp add: int_to_ascii_digits [OF assms])
qed

theorem int_to_ascii_decimal_witness: "int_to_ascii (- 105) = [45, 49, 48, 53, 0]"
proof -
  have h: "- 2147483648 < (- 105 :: int)" "(- 105 :: int) < 2147483648" by simp_all
  show ?thesis using int_to_ascii_decimal [OF h]
    by (simp add: decimal.simps [of 105] decimal.simps [of 10] decimal.simps [of "Suc 0"] digit_char_def)
qed

text \<open>
  The smallest \<open>int\<close> is converted wrongly: its negation overflows back to itself, and the text written is
  a minus sign and an opening bracket.
\<close>

theorem int_to_ascii_smallest: "int_to_ascii (- 2147483648) = [45, 40, 0]"
  by (simp add: int_to_ascii_def s32_def itoa_loop.simps signed_take_bit_eq_take_bit_shift take_bit_eq_mod
      signed_divide_int_def signed_modulo_int_def for_up_def swap_ends_def)

end
