(* ===== verification/KC_Screen.thy ===== *)
theory KC_Screen
  imports KC_Util Port_IO
begin

text \<open>
  The text screen driver of the tutorial kernel, \<^verbatim>\<open>src/legacy/kernel-c/drivers/screen.c\<close>, with the port access
  of \<^verbatim>\<open>ports.c\<close>. The cursor is kept in the CRT controller: \<open>crtc_state\<close> reads the history of port writes as
  the controller's index and data registers do, and \<open>crtc_device\<close> is the promise that reads return what was
  written.

  \<open>grid\<close> is the abstract screen: 2000 character cells in reading order and a cursor position; a character
  past the last cell scrolls the screen up by one line. Printing refines it.
\<close>

section \<open>Definitions\<close>

abbreviation VIDEO_ADDRESS :: u32 where "VIDEO_ADDRESS \<equiv> 0xb8000"
abbreviation MAX_ROWS :: int where "MAX_ROWS \<equiv> 25"
abbreviation MAX_COLS :: int where "MAX_COLS \<equiv> 80"
abbreviation WHITE_ON_BLACK :: u8 where "WHITE_ON_BLACK \<equiv> 0x0f"
abbreviation RED_ON_WHITE :: u8 where "RED_ON_WHITE \<equiv> 0xf4"
abbreviation REG_SCREEN_CTRL :: u16 where "REG_SCREEN_CTRL \<equiv> 0x3d4"
abbreviation REG_SCREEN_DATA :: u16 where "REG_SCREEN_DATA \<equiv> 0x3d5"

definition port_byte_in :: "device \<Rightarrow> u16 \<Rightarrow> 'a machine_scheme \<Rightarrow> u8 \<times> 'a machine_scheme" where
  "port_byte_in dev port s = inb dev port s"

definition port_byte_out :: "u16 \<Rightarrow> u8 \<Rightarrow> 'a machine_scheme \<Rightarrow> 'a machine_scheme" where
  "port_byte_out port data s = outb port data s"

definition get_offset :: "int \<Rightarrow> int \<Rightarrow> int" where
  "get_offset col row = s32 (2 * s32 (s32 (row * MAX_COLS) + col))"

definition get_offset_row :: "int \<Rightarrow> int" where
  "get_offset_row offset = offset sdiv (2 * MAX_COLS)"

definition get_offset_col :: "int \<Rightarrow> int" where
  "get_offset_col offset = (offset - get_offset_row offset * 2 * MAX_COLS) sdiv 2"

text \<open>The address of a byte of video memory, \<open>vidmem + offset\<close>.\<close>

definition vid :: "int \<Rightarrow> u32" where
  "vid offset = VIDEO_ADDRESS + word_of_int offset"

definition get_cursor_offset :: "device \<Rightarrow> 'a machine_scheme \<Rightarrow> int \<times> 'a machine_scheme" where
  "get_cursor_offset dev s =
     (let s = port_byte_out REG_SCREEN_CTRL 14 s;
          (hi, s) = port_byte_in dev REG_SCREEN_DATA s;
          offset = push_bit 8 (uint hi);
          s = port_byte_out REG_SCREEN_CTRL 15 s;
          (lo, s) = port_byte_in dev REG_SCREEN_DATA s
      in ((offset + uint lo) * 2, s))"

definition set_cursor_offset :: "int \<Rightarrow> 'a machine_scheme \<Rightarrow> 'a machine_scheme" where
  "set_cursor_offset offset s =
     (let offset = offset sdiv 2
      in steps [port_byte_out REG_SCREEN_CTRL 14, port_byte_out REG_SCREEN_DATA (word_of_int (drop_bit 8 offset)),
                port_byte_out REG_SCREEN_CTRL 15, port_byte_out REG_SCREEN_DATA (word_of_int (offset AND 0xff))] s)"

text \<open>The scrolling block of \<open>print_char\<close>: the rows move up by one, the last one is cleared.\<close>

definition scroll_up :: "mem \<Rightarrow> mem" where
  "scroll_up m =
     (let m = for_up (nat MAX_ROWS - 1) (\<lambda>i. memory_copy (vid (get_offset 0 (int (i + 1))))
                (vid (get_offset 0 (int i))) (MAX_COLS * 2)) m;
          last_line = vid (get_offset 0 (MAX_ROWS - 1))
      in for_up (nat (MAX_COLS * 2)) (\<lambda>i m. m(last_line + of_nat i := 0)) m)"

definition print_char :: "device \<Rightarrow> u8 \<Rightarrow> int \<Rightarrow> int \<Rightarrow> u8 \<Rightarrow> 'a machine_scheme \<Rightarrow> int \<times> 'a machine_scheme" where
  "print_char dev c col row attr s =
     (let attr = (if attr = 0 then WHITE_ON_BLACK else attr)
      in if col \<ge> MAX_COLS \<or> row \<ge> MAX_ROWS then
        (get_offset col row,
         s\<lparr>mem := (mem s)(vid (2 * MAX_COLS * MAX_ROWS - 2) := 69, vid (2 * MAX_COLS * MAX_ROWS - 1) := RED_ON_WHITE)\<rparr>)
      else
        (let (offset, s) = (if col \<ge> 0 \<and> row \<ge> 0 then (get_offset col row, s) else get_cursor_offset dev s);
             (offset, s) = (if c = 10 then (get_offset 0 (get_offset_row offset + 1), s)
               else (offset + 2, s\<lparr>mem := (mem s)(vid offset := c, vid (offset + 1) := attr)\<rparr>));
             (offset, s) = (if offset \<ge> MAX_ROWS * MAX_COLS * 2
               then (offset - 2 * MAX_COLS, s\<lparr>mem := scroll_up (mem s)\<rparr>) else (offset, s))
         in (offset, set_cursor_offset offset s)))"

definition kprint_step :: "device \<Rightarrow> u8 \<Rightarrow> int \<times> int \<times> 'a machine_scheme \<Rightarrow> int \<times> int \<times> 'a machine_scheme" where
  "kprint_step dev c = (\<lambda>(col, row, s).
     let (offset, s) = print_char dev c col row WHITE_ON_BLACK s
     in (get_offset_col offset, get_offset_row offset, s))"

definition kprint_at :: "device \<Rightarrow> u8 list \<Rightarrow> int \<Rightarrow> int \<Rightarrow> 'a machine_scheme \<Rightarrow> 'a machine_scheme" where
  "kprint_at dev message col row s =
     (let (col, row, s) = (if col \<ge> 0 \<and> row \<ge> 0 then (col, row, s)
        else let (offset, s) = get_cursor_offset dev s
             in (get_offset_col offset, get_offset_row offset, s))
      in snd (snd (fold (kprint_step dev) message (col, row, s))))"

definition kprint :: "device \<Rightarrow> u8 list \<Rightarrow> 'a machine_scheme \<Rightarrow> 'a machine_scheme" where
  "kprint dev message s = kprint_at dev message (- 1) (- 1) s"

definition clear_screen :: "'a machine_scheme \<Rightarrow> 'a machine_scheme" where
  "clear_screen s =
     (let screen_size = MAX_COLS * MAX_ROWS;
          s = for_up (nat screen_size) (\<lambda>i s. s\<lparr>mem := (mem s)(vid (int i * 2) := 32, vid (int i * 2 + 1) := WHITE_ON_BLACK)\<rparr>) s
      in set_cursor_offset (get_offset 0 0) s)"

section \<open>The cursor registers\<close>

record crtc =
  crtc_index :: u8
  cursor_high :: u8
  cursor_low :: u8

fun crtc_state :: "io_event list \<Rightarrow> crtc" where
  "crtc_state [] = \<lparr>crtc_index = 0, cursor_high = 0, cursor_low = 0\<rparr>"
| "crtc_state (In p v # h) = crtc_state h"
| "crtc_state (Out p v # h) =
     (let c = crtc_state h
      in if p = 0x3d4 then c\<lparr>crtc_index := v\<rparr>
         else if p = 0x3d5 \<and> crtc_index c = 14 then c\<lparr>cursor_high := v\<rparr>
         else if p = 0x3d5 \<and> crtc_index c = 15 then c\<lparr>cursor_low := v\<rparr>
         else c)"

definition cursor_pos :: "io_event list \<Rightarrow> nat" where
  "cursor_pos h = 256 * unat (cursor_high (crtc_state h)) + unat (cursor_low (crtc_state h))"

locale crtc_device =
  fixes dev :: device
  assumes read_high: "crtc_index (crtc_state h) = 14 \<Longrightarrow> dev h 0x3d5 = cursor_high (crtc_state h)"
    and read_low: "crtc_index (crtc_state h) = 15 \<Longrightarrow> dev h 0x3d5 = cursor_low (crtc_state h)"
begin

lemma get_cursor:
  "fst (get_cursor_offset dev s) = 2 * int (cursor_pos (ports s))"
  "mem (snd (get_cursor_offset dev s)) = mem s"
  "machine.more (snd (get_cursor_offset dev s)) = machine.more s"
  "cursor_pos (ports (snd (get_cursor_offset dev s))) = cursor_pos (ports s)"
  by (simp_all add: get_cursor_offset_def port_byte_in_def port_byte_out_def inb_def Let_def cursor_pos_def
      read_high read_low push_bit_eq_mult)

end

text \<open>The controller the data sheet describes, as a concrete device.\<close>

definition crtc_dev :: device where
  "crtc_dev h p =
     (let c = crtc_state h
      in if p = 0x3d5 \<and> crtc_index c = 14 then cursor_high c
         else if p = 0x3d5 \<and> crtc_index c = 15 then cursor_low c else 0)"

interpretation crtc_chip: crtc_device crtc_dev
  by unfold_locales (simp_all add: crtc_dev_def Let_def)

lemma set_cursor_pos:
  assumes "0 \<le> offset" "offset < 131072"
  shows "cursor_pos (ports (set_cursor_offset offset s)) = nat (offset div 2)"
proof -
  have d: "offset sdiv 2 = offset div 2"
    using assms(1) by (cases "offset = 0") (simp_all add: signed_divide_int_def)
  let ?p = "offset div 2"
  have p: "0 \<le> ?p" "?p < 65536" using assms by simp_all
  have hi: "unat (word_of_int (drop_bit 8 ?p) :: u8) = nat (?p div 256)"
  proof -
    have "?p div 256 < 256" using p by linarith
    with p show ?thesis by (simp add: drop_bit_eq_div unat_word_of_int_u8)
  qed
  have lo: "unat (word_of_int (?p AND 255) :: u8) = nat (?p mod 256)"
  proof -
    have "?p AND 255 = ?p mod 256"
      using take_bit_eq_mask [of 8 ?p] by (simp add: take_bit_eq_mod mask_eq_exp_minus_1)
    then show ?thesis by (simp add: unat_word_of_int_u8)
  qed
  have "256 * nat (?p div 256) + nat (?p mod 256) = nat ?p"
  proof -
    obtain n where n: "?p = int n" using nonneg_int_cases [OF p(1)] by blast
    have "nat (int n div 256) = n div 256" "nat (int n mod 256) = n mod 256"
      by (simp_all add: nat_div_distrib nat_mod_distrib)
    then show ?thesis unfolding n by simp
  qed
  then show ?thesis
    by (simp add: set_cursor_offset_def port_byte_out_def cursor_pos_def d hi lo Let_def)
qed

lemma set_cursor_fields [simp]:
  "mem (set_cursor_offset offset s) = mem s" "machine.more (set_cursor_offset offset s) = machine.more s"
  by (simp_all add: set_cursor_offset_def port_byte_out_def Let_def)

section \<open>The abstract screen\<close>

record grid =
  gpos :: nat
  gcell :: "nat \<Rightarrow> u8 \<times> u8"

definition grid_scroll :: "grid \<Rightarrow> grid" where
  "grid_scroll g = g\<lparr>gpos := gpos g - 80,
     gcell := (\<lambda>i. if i < 1920 then gcell g (i + 80) else (0, 0))\<rparr>"

definition grid_put :: "u8 \<Rightarrow> grid \<Rightarrow> grid" where
  "grid_put c g =
     (let g = (if c = 10 then g\<lparr>gpos := 80 * (gpos g div 80 + 1)\<rparr>
               else g\<lparr>gcell := (gcell g)(gpos g := (c, WHITE_ON_BLACK)), gpos := gpos g + 1\<rparr>)
      in if gpos g \<ge> 2000 then grid_scroll g else g)"

definition cells_of :: "mem \<Rightarrow> nat \<Rightarrow> u8 \<times> u8" where
  "cells_of m i = (if i < 2000 then (m (VIDEO_ADDRESS + of_nat (2 * i)), m (VIDEO_ADDRESS + of_nat (2 * i + 1)))
     else (0, 0))"

lemma vid_of_nat: "vid (int n) = VIDEO_ADDRESS + of_nat n"
  by (simp add: vid_def)

lemma vid_eq: "i < 4294967296 \<Longrightarrow> j < 4294967296 \<Longrightarrow>
    (VIDEO_ADDRESS + of_nat i = VIDEO_ADDRESS + of_nat j) = (i = j)"
  by (rule offset_inject)

lemma get_offset_in_range:
  assumes "0 \<le> col" "col < 80" "0 \<le> row" "row \<le> 25"
  shows "get_offset col row = 2 * (80 * row + col)"
  using assms by (simp add: get_offset_def mult.commute)

lemma offset_row_col:
  "get_offset_row (2 * int p) = int (p div 80)" "get_offset_col (2 * int p) = int (p mod 80)"
proof -
  have d: "x sdiv y = x div y" if "0 \<le> x" "0 < y" for x y :: int
    using that by (cases "x = 0") (simp_all add: signed_divide_int_def)
  have r: "2 * int p div 160 = int (p div 80)"
    using div_mult_mult1 [of 2 "int p" 80] by (simp add: zdiv_int)
  then show "get_offset_row (2 * int p) = int (p div 80)" by (simp add: get_offset_row_def d)
  have "2 * int p - int (p div 80) * 2 * 80 = 2 * int (p mod 80)"
    by (simp add: minus_div_mult_eq_mod [symmetric] zdiv_int zmod_int algebra_simps)
  then show "get_offset_col (2 * int p) = int (p mod 80)"
    using \<open>get_offset_row (2 * int p) = _\<close> by (simp add: get_offset_col_def d)
qed

lemma scroll_up_bytes:
  "scroll_up m = (\<lambda>a. if in_region a (VIDEO_ADDRESS + 3840) 160 then 0
     else if in_region a VIDEO_ADDRESS 3840 then m (VIDEO_ADDRESS + 160 + (a - VIDEO_ADDRESS)) else m a)"
proof -
  have row: "memory_copy (vid (get_offset 0 (int (i + 1)))) (vid (get_offset 0 (int i))) 160 =
      for_up 160 (\<lambda>k. copy_byte VIDEO_ADDRESS (VIDEO_ADDRESS + 160) (160 * i + k))" if "i < 24" for i
  proof
    fix m
    have "get_offset 0 (int (i + 1)) = int (160 * i + 160)" "get_offset 0 (int i) = int (160 * i)"
      using that by (simp_all add: get_offset_in_range)
    then have "vid (get_offset 0 (int (i + 1))) = VIDEO_ADDRESS + 160 + of_nat (160 * i)"
      "vid (get_offset 0 (int i)) = VIDEO_ADDRESS + of_nat (160 * i)"
      by (simp_all only: vid_of_nat) simp
    then show "memory_copy (vid (get_offset 0 (int (i + 1)))) (vid (get_offset 0 (int i))) 160 m =
        for_up 160 (\<lambda>k. copy_byte VIDEO_ADDRESS (VIDEO_ADDRESS + 160) (160 * i + k)) m"
      by (simp add: memory_copy_def copy_byte_def [abs_def] add.assoc)
  qed
  have "for_up 24 (\<lambda>i. memory_copy (vid (get_offset 0 (int (i + 1)))) (vid (get_offset 0 (int i))) 160) m =
      for_up 24 (\<lambda>i. for_up 160 (\<lambda>k. copy_byte VIDEO_ADDRESS (VIDEO_ADDRESS + 160) (160 * i + k))) m"
    by (rule for_up_cong) (simp only: row)
  also have "\<dots> = for_up 3840 (copy_byte VIDEO_ADDRESS (VIDEO_ADDRESS + 160)) m"
    using for_up_nested [where n = 24 and w = 160] by simp
  also have "\<dots> = copied m VIDEO_ADDRESS (VIDEO_ADDRESS + 160) 3840"
  proof (rule copy_up_copied)
    fix i j :: nat assume "i < j" "j < 3840"
    then show "VIDEO_ADDRESS + of_nat i \<noteq> VIDEO_ADDRESS + 160 + of_nat j"
      using vid_eq [of i "160 + j"] by (simp add: add.assoc)
  qed simp
  finally have "for_up 24 (\<lambda>i. memory_copy (vid (get_offset 0 (int (i + 1)))) (vid (get_offset 0 (int i))) 160) m =
      copied m VIDEO_ADDRESS (VIDEO_ADDRESS + 160) 3840" .
  moreover have "vid (get_offset 0 24) = VIDEO_ADDRESS + 3840" by (simp add: get_offset_in_range vid_def)
  ultimately show ?thesis
    by (simp add: scroll_up_def Let_def memset_loop copied_def cong: if_cong)
qed

lemma scroll_up_cells:
  "cells_of (scroll_up m) i = (if i < 1920 then cells_of m (i + 80) else (0, 0))"
proof -
  have r: "in_region (VIDEO_ADDRESS + of_nat k) (VIDEO_ADDRESS + 3840) 160 \<longleftrightarrow> 3840 \<le> k"
    "in_region (VIDEO_ADDRESS + of_nat k) VIDEO_ADDRESS 3840 \<longleftrightarrow> k < 3840" if "k < 4000" for k
  proof -
    show "in_region (VIDEO_ADDRESS + of_nat k) VIDEO_ADDRESS 3840 \<longleftrightarrow> k < 3840" using that by simp
    have "VIDEO_ADDRESS + of_nat k - (VIDEO_ADDRESS + 3840) = (of_nat k - 3840 :: u32)" by simp
    then have "unat (VIDEO_ADDRESS + of_nat k - (VIDEO_ADDRESS + 3840)) =
        (if 3840 \<le> k then k - 3840 else k + 4294967296 - 3840)"
      using that by (simp only: unat_sub_if') (simp add: unat_of_nat)
    with that show "in_region (VIDEO_ADDRESS + of_nat k) (VIDEO_ADDRESS + 3840) 160 \<longleftrightarrow> 3840 \<le> k"
      by (auto simp: in_region_def)
  qed
  have "scroll_up m (VIDEO_ADDRESS + of_nat k) = (if k < 3840 then m (VIDEO_ADDRESS + of_nat (k + 160)) else 0)"
    if "k < 4000" for k
    using r [OF that] by (simp add: scroll_up_bytes add.commute add.left_commute)
  from this [of "2 * i"] this [of "2 * i + 1"] show ?thesis
    by (simp add: cells_of_def del: of_nat_add of_nat_mult of_nat_Suc)
qed

lemma scroll_up_frame: "unchanged_outside VIDEO_ADDRESS 4000 m (scroll_up m)"
proof -
  have "in_region a VIDEO_ADDRESS 4000" if "in_region a (VIDEO_ADDRESS + 3840) 160" for a
  proof -
    let ?k = "unat (a - (VIDEO_ADDRESS + 3840))"
    have "?k < 160" using that by (simp add: in_region_def)
    then have "in_region (VIDEO_ADDRESS + of_nat (3840 + ?k)) VIDEO_ADDRESS 4000"
      by (subst in_region_offset) simp_all
    moreover have "VIDEO_ADDRESS + of_nat (3840 + ?k) = a" by simp
    ultimately show ?thesis by (simp only:)
  qed
  then show ?thesis
    unfolding unchanged_outside_def scroll_up_bytes by (auto simp: in_region_def)
qed

lemma store_cell:
  assumes "p < 2000"
  shows "cells_of (m(vid (2 * int p) := c, vid (2 * int p + 1) := a)) = (cells_of m)(p := (c, a))"
    and "unchanged_outside VIDEO_ADDRESS 4000 m (m(vid (2 * int p) := c, vid (2 * int p + 1) := a))"
proof -
  have v: "vid (2 * int p) = VIDEO_ADDRESS + of_nat (2 * p)" "vid (2 * int p + 1) = VIDEO_ADDRESS + of_nat (2 * p + 1)"
    using vid_of_nat [of "2 * p"] vid_of_nat [of "2 * p + 1"] by (simp_all add: add.commute)
  show "cells_of (m(vid (2 * int p) := c, vid (2 * int p + 1) := a)) = (cells_of m)(p := (c, a))"
    unfolding v
  proof
    fix i
    have e: "(VIDEO_ADDRESS + of_nat x = VIDEO_ADDRESS + of_nat y) = (x = y)" if "x < 4000" "y < 4000" for x y
      using vid_eq [of x y] that by simp
    have ne: "2 * i + 1 \<noteq> 2 * p" "2 * i \<noteq> 2 * p + 1" by arith+
    show "cells_of (m(VIDEO_ADDRESS + of_nat (2 * p) := c, VIDEO_ADDRESS + of_nat (2 * p + 1) := a)) i =
        ((cells_of m)(p := (c, a))) i"
      using assms e [of "2 * i" "2 * p"] e [of "2 * i" "2 * p + 1"] e [of "2 * i + 1" "2 * p"]
        e [of "2 * i + 1" "2 * p + 1"] e [of "2 * p" "2 * p + 1"] ne
      by (simp add: cells_of_def del: of_nat_add of_nat_mult of_nat_Suc add_left_cancel)
  qed
  show "unchanged_outside VIDEO_ADDRESS 4000 m (m(vid (2 * int p) := c, vid (2 * int p + 1) := a))"
    unfolding v unchanged_outside_def using assms in_region_offset [of "2 * p" VIDEO_ADDRESS 4000]
      in_region_offset [of "2 * p + 1" VIDEO_ADDRESS 4000] by auto
qed

text \<open>One character at a position of the screen.\<close>

lemma print_char_grid:
  fixes s :: "'a machine_scheme" and c :: u8
  assumes "p < 2000"
  defines "g \<equiv> grid_put c \<lparr>gpos = p, gcell = cells_of (mem s)\<rparr>"
  obtains s' where "print_char dev c (int (p mod 80)) (int (p div 80)) WHITE_ON_BLACK s = (2 * int (gpos g), s')"
    "gpos g < 2000" "cells_of (mem s') = gcell g" "cursor_pos (ports s') = gpos g"
    "unchanged_outside VIDEO_ADDRESS 4000 (mem s) (mem s')" "machine.more s' = machine.more s"
proof -
  have pd: "p div 80 < 25" using assms(1) by (simp add: less_mult_imp_div_less)
  have off: "get_offset (int (p mod 80)) (int (p div 80)) = 2 * int p"
  proof -
    have "80 * int (p div 80) + int (p mod 80) = int p"
      by (metis mult_div_mod_eq of_nat_add of_nat_mult of_nat_numeral)
    then show ?thesis using pd get_offset_in_range [of "int (p mod 80)" "int (p div 80)"] by simp
  qed
  define q where "q = (if c = 10 then 80 * (p div 80 + 1) else p + 1)"
  define m where "m = (if c = 10 then mem s else (mem s)(vid (2 * int p) := c, vid (2 * int p + 1) := WHITE_ON_BLACK))"
  have q: "q \<le> 2000" using assms(1) pd by (auto simp: q_def)
  have m: "cells_of m = (if c = 10 then cells_of (mem s) else (cells_of (mem s))(p := (c, WHITE_ON_BLACK)))"
    "unchanged_outside VIDEO_ADDRESS 4000 (mem s) m"
    using store_cell [OF assms(1), of "mem s" c WHITE_ON_BLACK] by (simp_all add: m_def)
  define q' where "q' = (if 2000 \<le> q then q - 80 else q)"
  define m' where "m' = (if 2000 \<le> q then scroll_up m else m)"
  have nl: "get_offset 0 (get_offset_row (2 * int p) + 1) = 2 * int (80 * (p div 80 + 1))"
    using pd by (simp add: offset_row_col get_offset_in_range)
  have "print_char dev c (int (p mod 80)) (int (p div 80)) WHITE_ON_BLACK s =
      (2 * int q', set_cursor_offset (2 * int q') (s\<lparr>mem := m'\<rparr>))"
  proof -
    have b: "\<not> 80 \<le> int (p mod 80)" "\<not> 25 \<le> int (p div 80)" using pd by simp_all
    show ?thesis
    proof (cases "c = 10")
      case True
      with b nl show ?thesis
        by (simp only: print_char_def off) (auto simp: Let_def q_def m_def q'_def m'_def)
    next
      case False
      have e: "2 * int p + 2 = 2 * int q" "2000 \<le> q \<longleftrightarrow> 1999 \<le> p" using False by (auto simp: q_def)
      have e2: "1999 \<le> p \<Longrightarrow> 2 * int (q - 80) = 2 * int q - 160" using False by (auto simp: q_def)
      from False b show ?thesis
        by (simp only: print_char_def off) (auto simp: e e2 Let_def m_def q'_def m'_def)
    qed
  qed
  moreover have "gpos g = q'" "gcell g = cells_of m'"
    using m(1) scroll_up_cells [of m]
    by (simp_all add: g_def grid_put_def grid_scroll_def q_def q'_def m'_def fun_eq_iff)
  moreover have "cursor_pos (ports (set_cursor_offset (2 * int q') (s\<lparr>mem := m'\<rparr>))) = q'"
    using q by (simp add: set_cursor_pos q'_def)
  moreover have "unchanged_outside VIDEO_ADDRESS 4000 (mem s) m'"
    using m(2) scroll_up_frame unchanged_outside_trans by (auto simp: m'_def)
  moreover have "q' < 2000" using q by (auto simp: q'_def)
  ultimately show thesis by (intro that [of "set_cursor_offset (2 * int q') (s\<lparr>mem := m'\<rparr>)"]) simp_all
qed

section \<open>Printing refines the abstract screen\<close>

type_synonym 'a at = "int \<times> int \<times> 'a machine_scheme"

definition at_pos :: "nat \<Rightarrow> 'a at \<Rightarrow> bool" where
  "at_pos p = (\<lambda>(col, row, s). p < 2000 \<and> col = int (p mod 80) \<and> row = int (p div 80))"

definition at_inv :: "'a at \<Rightarrow> bool" where
  "at_inv = (\<lambda>(col, row, s). 0 \<le> col \<and> col < 80 \<and> 0 \<le> row \<and> row < 25)"

definition at_abs :: "'a at \<Rightarrow> grid" where
  "at_abs = (\<lambda>(col, row, s). \<lparr>gpos = nat (80 * row + col), gcell = cells_of (mem s)\<rparr>)"

definition at_frame :: "'a at \<Rightarrow> 'a at \<Rightarrow> bool" where
  "at_frame = (\<lambda>(_, _, s) (_, _, t). unchanged_outside VIDEO_ADDRESS 4000 (mem s) (mem t) \<and>
     machine.more t = machine.more s)"

lemma at_pos_inv: "at_inv x \<longleftrightarrow> (\<exists>p. at_pos p x)"
proof
  obtain col row s where x: "x = (col, row, s)" by (cases x)
  assume "at_inv x"
  then obtain c r where cr: "col = int c" "row = int r" "c < 80" "r < 25"
    unfolding at_inv_def x by (auto elim!: nonneg_int_cases)
  then have "at_pos (80 * r + c) x" by (simp add: at_pos_def x)
  then show "\<exists>p. at_pos p x" ..
next
  assume "\<exists>p. at_pos p x"
  then show "at_inv x" by (auto simp: at_pos_def at_inv_def less_mult_imp_div_less split: prod.splits)
qed

lemma at_pos_abs: "at_pos p (col, row, s) \<Longrightarrow> at_abs (col, row, s) = \<lparr>gpos = p, gcell = cells_of (mem s)\<rparr>"
proof -
  have "80 * int (p div 80) + int (p mod 80) = int p"
    by (metis mult_div_mod_eq of_nat_add of_nat_mult of_nat_numeral)
  then show "at_pos p (col, row, s) \<Longrightarrow> ?thesis" by (simp add: at_pos_def at_abs_def)
qed

lemma kprint_step_grid:
  assumes "at_pos p (col, row, s)"
  obtains col' row' s' where "kprint_step dev c (col, row, s) = (col', row', s')"
    "at_pos (gpos (grid_put c (at_abs (col, row, s)))) (col', row', s')"
    "at_abs (col', row', s') = grid_put c (at_abs (col, row, s))"
    "cursor_pos (ports s') = gpos (grid_put c (at_abs (col, row, s)))"
    "at_frame (col, row, s) (col', row', s')"
proof -
  define g where "g = grid_put c \<lparr>gpos = p, gcell = cells_of (mem s)\<rparr>"
  have p: "p < 2000" and cr: "col = int (p mod 80)" "row = int (p div 80)"
    using assms by (simp_all add: at_pos_def)
  obtain s' where s': "print_char dev c col row WHITE_ON_BLACK s = (2 * int (gpos g), s')"
    "gpos g < 2000" "cells_of (mem s') = gcell g" "cursor_pos (ports s') = gpos g"
    "unchanged_outside VIDEO_ADDRESS 4000 (mem s) (mem s')" "machine.more s' = machine.more s"
    using print_char_grid [OF p, of dev c s] unfolding g_def cr by blast
  let ?x = "(int (gpos g mod 80), int (gpos g div 80), s')"
  have pos: "at_pos (gpos g) ?x" using s'(2) by (simp add: at_pos_def)
  show thesis
  proof (rule that)
    show "kprint_step dev c (col, row, s) = ?x"
      using s'(1) by (simp add: kprint_step_def offset_row_col)
    show "at_pos (gpos (grid_put c (at_abs (col, row, s)))) ?x"
      using pos by (simp add: at_pos_abs [OF assms] g_def)
    show "at_abs ?x = grid_put c (at_abs (col, row, s))"
      using at_pos_abs [OF pos] s'(3) by (simp add: at_pos_abs [OF assms] g_def [symmetric])
    show "cursor_pos (ports s') = gpos (grid_put c (at_abs (col, row, s)))"
      using s'(4) by (simp add: at_pos_abs [OF assms] g_def)
    show "at_frame (col, row, s) ?x" using s'(5,6) by (simp add: at_frame_def)
  qed
qed

interpretation kc_sink: char_sink "\<lambda>c x. Some (kprint_step dev c x)" at_inv at_frame at_abs
  "\<lambda>c g. Some (grid_put c g)" "{}" for dev
proof
  fix x y z :: "'a at" and c
  obtain col row s where x: "x = (col, row, s)" by (cases x)
  assume inv: "at_inv x"
  then obtain p where "at_pos p (col, row, s)" using at_pos_inv x by blast
  from kprint_step_grid [OF this] obtain col' row' s' where
    st: "kprint_step dev c x = (col', row', s')" "\<exists>p. at_pos p (col', row', s')"
      "at_abs (col', row', s') = grid_put c (at_abs x)" "at_frame x (col', row', s')"
    unfolding x by metis
  show "map_option at_abs (Some (kprint_step dev c x)) = Some (grid_put c (at_abs x))"
    using st by simp
  show "Some (kprint_step dev c x) \<noteq> None" by simp
  assume "Some (kprint_step dev c x) = Some y"
  with st show "at_inv y" "at_frame x y" using at_pos_inv [of y] by (metis option.inject)+
next
  fix x y z :: "'a at"
  show "at_frame x x" by (auto simp: at_frame_def split: prod.splits)
  show "at_frame x y \<Longrightarrow> at_frame y z \<Longrightarrow> at_frame x z"
    by (auto simp: at_frame_def split: prod.splits intro: unchanged_outside_trans)
qed

lemma kprint_fold:
  assumes "at_pos p (col, row, s)"
  obtains col' row' s' where "fold (kprint_step dev) xs (col, row, s) = (col', row', s')"
    "at_inv (col', row', s')" "at_abs (col', row', s') = fold grid_put xs \<lparr>gpos = p, gcell = cells_of (mem s)\<rparr>"
    "unchanged_outside VIDEO_ADDRESS 4000 (mem s) (mem s')" "machine.more s' = machine.more s"
    "xs \<noteq> [] \<Longrightarrow> cursor_pos (ports s') = gpos (fold grid_put xs \<lparr>gpos = p, gcell = cells_of (mem s)\<rparr>)"
    "xs = [] \<Longrightarrow> s' = s"
proof -
  obtain col' row' s' where r: "fold (kprint_step dev) xs (col, row, s) = (col', row', s')"
    by (rule prod_cases3)
  have inv: "at_inv (col, row, s)" using assms at_pos_inv by blast
  note w = kc_sink.write_inv [OF inv, of dev xs] kc_sink.write_frame [OF inv, of dev xs]
    kc_sink.write_abs [OF inv, of dev xs]
  have cur: "cursor_pos (ports s') = gpos (fold grid_put xs (at_abs (col, row, s)))" if "xs \<noteq> []"
    using that r
  proof (cases xs rule: rev_cases)
    case (snoc ys y)
    obtain c2 r2 s2 where m: "fold (kprint_step dev) ys (col, row, s) = (c2, r2, s2)" by (rule prod_cases3)
    have "at_inv (c2, r2, s2)" "at_abs (c2, r2, s2) = fold grid_put ys (at_abs (col, row, s))"
      using kc_sink.write_inv [OF inv, of dev ys] kc_sink.write_abs [OF inv, of dev ys] m
      by (simp_all add: write_chars_total)
    moreover from this(1) obtain q where "at_pos q (c2, r2, s2)" using at_pos_inv by blast
    ultimately show ?thesis
      using kprint_step_grid [of q c2 r2 s2 dev y] r m snoc by (metis fold_simps(1,2) fold_append comp_apply Pair_inject)
  qed simp
  show thesis
    by (rule that [OF r]) (use w r cur at_pos_abs [OF assms] in \<open>auto simp: write_chars_total at_frame_def\<close>)
qed

definition grid_of :: "'a machine_scheme \<Rightarrow> grid" where
  "grid_of s = \<lparr>gpos = cursor_pos (ports s), gcell = cells_of (mem s)\<rparr>"

lemma kprint_grid:
  assumes "crtc_device dev" and "cursor_pos (ports s) < 2000"
  shows "grid_of (kprint dev message s) = fold grid_put message (grid_of s) \<and>
    cursor_pos (ports (kprint dev message s)) < 2000 \<and>
    unchanged_outside VIDEO_ADDRESS 4000 (mem s) (mem (kprint dev message s)) \<and>
    machine.more (kprint dev message s) = machine.more s"
proof -
  let ?p = "cursor_pos (ports s)"
  obtain t where t: "get_cursor_offset dev s = (2 * int ?p, t)" "mem t = mem s"
    "machine.more t = machine.more s" "cursor_pos (ports t) = ?p"
    using crtc_device.get_cursor [OF assms(1), of s] by (cases "get_cursor_offset dev s") auto
  have "at_pos ?p (int (?p mod 80), int (?p div 80), t)" using assms(2) by (simp add: at_pos_def)
  from kprint_fold [OF this, of dev message] obtain col' row' s' where
    r: "fold (kprint_step dev) message (int (?p mod 80), int (?p div 80), t) = (col', row', s')"
      "at_inv (col', row', s')" "at_abs (col', row', s') = fold grid_put message (grid_of s)"
      "unchanged_outside VIDEO_ADDRESS 4000 (mem s) (mem s')" "machine.more s' = machine.more s"
      "message \<noteq> [] \<Longrightarrow> cursor_pos (ports s') = gpos (fold grid_put message (grid_of s))"
      "message = [] \<Longrightarrow> s' = t"
    using t by (auto simp: grid_of_def)
  have k: "kprint dev message s = s'"
    using r(1) t(1) by (simp add: kprint_def kprint_at_def offset_row_col)
  have cells: "gcell (fold grid_put message (grid_of s)) = cells_of (mem s')"
    and lt: "gpos (fold grid_put message (grid_of s)) < 2000"
    using r(2) by (auto simp: r(3) [symmetric] at_abs_def at_inv_def)
  have cur: "cursor_pos (ports s') = gpos (fold grid_put message (grid_of s))"
    using r(6,7) t(4) by (cases "message = []") (auto simp: grid_of_def)
  have "grid_of s' = fold grid_put message (grid_of s)" using cells cur by (simp add: grid_of_def)
  with k r(4,5) cur lt show ?thesis by simp
qed

text \<open>
  C17. Printing refines the abstract screen: on a controller that returns the cursor it was given, \<open>kprint\<close> has
  exactly the effect of feeding its characters one by one to the 2000-cell grid at the cursor, with
  newlines, wrapping at the right margin and scrolling at the bottom; the hardware cursor follows and stays
  on the screen, and nothing outside video memory changes.
\<close>

theorem kprint_refines:
  assumes "crtc_device dev" and "cursor_pos (ports s) < 2000"
  shows "grid_of (kprint dev message s) = fold grid_put message (grid_of s) \<and>
    cursor_pos (ports (kprint dev message s)) < 2000 \<and>
    unchanged_outside VIDEO_ADDRESS 4000 (mem s) (mem (kprint dev message s)) \<and>
    machine.more (kprint dev message s) = machine.more s"
  by (rule kprint_grid [OF assms])

theorem kprint_refines_witness:
  "crtc_device crtc_dev \<and>
   gpos (grid_of (kprint crtc_dev [72, 105, 10] \<lparr>mem = (\<lambda>_. 0), ports = []\<rparr>)) = 80"
proof -
  have h: "cursor_pos (ports \<lparr>mem = (\<lambda>_. 0), ports = []\<rparr>) < 2000" by (simp add: cursor_pos_def)
  show ?thesis using crtc_chip.crtc_device_axioms kprint_refines [OF crtc_chip.crtc_device_axioms h, of "[72, 105, 10]"]
    by (simp add: grid_put_def grid_of_def cursor_pos_def)
qed

text \<open>
  \<open>kprint_at\<close> with coordinates on the screen prints there: the cells become those of the abstract screen
  after the message was fed to it at that position, whatever the hardware cursor was.
\<close>

theorem kprint_at_refines:
  assumes "0 \<le> col" and "col < 80" and "0 \<le> row" and "row < 25"
  shows "cells_of (mem (kprint_at dev message col row s)) =
      gcell (fold grid_put message \<lparr>gpos = nat (80 * row + col), gcell = cells_of (mem s)\<rparr>) \<and>
    unchanged_outside VIDEO_ADDRESS 4000 (mem s) (mem (kprint_at dev message col row s))"
proof -
  have "at_inv (col, row, s)" using assms by (simp add: at_inv_def)
  then obtain p where p: "at_pos p (col, row, s)" using at_pos_inv by blast
  have "nat (80 * row + col) = p" using at_pos_abs [OF p] by (simp add: at_abs_def)
  moreover obtain col' row' s' where "fold (kprint_step dev) message (col, row, s) = (col', row', s')"
    "at_abs (col', row', s') = fold grid_put message \<lparr>gpos = p, gcell = cells_of (mem s)\<rparr>"
    "unchanged_outside VIDEO_ADDRESS 4000 (mem s) (mem s')"
    using kprint_fold [OF p, of dev message] by metis
  ultimately show ?thesis using assms
    by (simp add: kprint_at_def) (metis at_abs_def grid.select_convs(2) split_conv)
qed

theorem kprint_at_refines_witness:
  "cells_of (mem (kprint_at crtc_dev [72] 79 24 \<lparr>mem = (\<lambda>_. 0), ports = []\<rparr>)) 1919 = (72, 0x0f)"
  using kprint_at_refines [of 79 24 crtc_dev "[72]" "\<lparr>mem = (\<lambda>_. 0), ports = []\<rparr>"]
  by (simp add: grid_put_def grid_scroll_def)

text \<open>
  \<open>clear_screen\<close> blanks all 2000 cells to spaces, white on black, moves the hardware cursor to the top left
  and changes nothing outside video memory.
\<close>

theorem clear_screen_blank:
  "grid_of (clear_screen s) = \<lparr>gpos = 0, gcell = (\<lambda>i. if i < 2000 then (32, 0x0f) else (0, 0))\<rparr> \<and>
   unchanged_outside VIDEO_ADDRESS 4000 (mem s) (mem (clear_screen s)) \<and>
   machine.more (clear_screen s) = machine.more s"
proof -
  define body where "body i s = s\<lparr>mem := (mem s)(vid (int i * 2) := 32, vid (int i * 2 + 1) := WHITE_ON_BLACK)\<rparr>"
    for i and s :: "'a machine_scheme"
  define I where "I n t \<longleftrightarrow> (\<forall>i < n. cells_of (mem t) i = (32, WHITE_ON_BLACK)) \<and>
    unchanged_outside VIDEO_ADDRESS 4000 (mem s) (mem t) \<and> machine.more t = machine.more s"
    for n and t :: "'a machine_scheme"
  have "I 2000 (for_up 2000 body s)"
  proof (rule for_up_invariant)
    show "I 0 s" by (simp add: I_def)
  next
    fix n t assume n: "n < 2000" and I: "I n t"
    note st = store_cell [OF n, of "mem t" 32 WHITE_ON_BLACK]
    have "mem (body n t) = (mem t)(vid (2 * int n) := 32, vid (2 * int n + 1) := WHITE_ON_BLACK)"
      by (simp add: body_def mult.commute)
    with I st unchanged_outside_trans show "I (Suc n) (body n t)"
      by (auto simp: I_def less_Suc_eq body_def)
  qed
  then have I: "I 2000 (for_up 2000 body s)" .
  have c: "clear_screen s = set_cursor_offset 0 (for_up 2000 body s)"
    by (simp add: clear_screen_def body_def [abs_def] get_offset_def)
  have "gcell (grid_of (clear_screen s)) i = (if i < 2000 then (32, 0x0f) else (0, 0))" for i
  proof (cases "i < 2000")
    case True
    with I show ?thesis by (simp add: c grid_of_def I_def)
  next
    case False
    then show ?thesis by (simp add: grid_of_def cells_of_def)
  qed
  with I show ?thesis by (auto simp: c grid_of_def I_def set_cursor_pos)
qed

end
