(* ===== verification/KC_Heap.thy ===== *)
theory KC_Heap
  imports Interfaces
begin

text \<open>
  The heap of the tutorial kernel, \<^verbatim>\<open>src/legacy/kernel-c/kernel/heap.c\<close>: an allocator that advances a pointer
  through four mebibytes and loops for ever, which is \<^const>\<open>None\<close>, when they are used up.

  For requests of up to 0xFF000000 bytes the allocator meets the interface \<open>bump_allocator\<close>; for larger ones
  the size computation overflows.
\<close>

section \<open>Definitions\<close>

abbreviation HEAP_START :: u32 where "HEAP_START \<equiv> 0x100000"
abbreviation HEAP_SIZE :: u32 where "HEAP_SIZE \<equiv> 0x400000"

record heap_state = machine +
  heap_current :: u32
  heap_end :: u32

definition heap_init :: "'a heap_state_scheme \<Rightarrow> 'a heap_state_scheme" where
  "heap_init s = s\<lparr>heap_current := HEAP_START, heap_end := HEAP_START + HEAP_SIZE\<rparr>"

definition kmalloc :: "u32 \<Rightarrow> 'a heap_state_scheme \<Rightarrow> (u32 \<times> 'a heap_state_scheme) option" where
  "kmalloc sz s =
     (let sz = (sz + 3) AND NOT 3
      in if heap_current s + sz > heap_end s then None
         else (let ptr = heap_current s in Some (ptr, s\<lparr>heap_current := heap_current s + sz\<rparr>)))"

definition kfree :: "u32 \<Rightarrow> 'a heap_state_scheme \<Rightarrow> 'a heap_state_scheme" where
  "kfree ptr s = s"

section \<open>Blocks\<close>

definition heap_inv :: "'a heap_state_scheme \<Rightarrow> bool" where
  "heap_inv s \<longleftrightarrow> heap_end s = 0x500000 \<and> HEAP_START \<le> heap_current s \<and> heap_current s \<le> heap_end s \<and>
     4 dvd unat (heap_current s)"

lemma heap_inv_unat:
  assumes "heap_inv s"
  shows "unat (heap_end s) = 0x500000" "unat (heap_current s) \<le> 0x500000" "heap_end s = 0x500000"
proof -
  from assms show e: "heap_end s = 0x500000" by (simp add: heap_inv_def)
  then show "unat (heap_end s) = 0x500000" by simp
  then show "unat (heap_current s) \<le> 0x500000" using assms unfolding heap_inv_def word_le_nat_alt by metis
qed

lemma heap_init_inv: "heap_inv (heap_init s)"
  by (simp add: heap_inv_def heap_init_def)

lemma round_up_4:
  assumes "unat sz \<le> 0xFF000000"
  shows "unat ((sz + 3) AND NOT 3 :: u32) = 4 * ((unat sz + 3) div 4)"
proof -
  have "unat (sz + 3) = unat sz + 3" using assms by (simp add: unat_word_ariths)
  moreover have "NOT 3 = NOT (mask 2 :: u32)" by (simp add: mask_eq_exp_minus_1)
  ultimately show ?thesis using unat_and_not_mask [of "sz + 3" 2] by simp
qed

text \<open>What an allocation does, with the overflow-free sizes.\<close>

lemma kmalloc_cases:
  assumes "heap_inv s" "unat sz \<le> 0xFF000000"
  shows "kmalloc sz s =
    (if unat (heap_current s) + 4 * ((unat sz + 3) div 4) \<le> 0x500000
     then Some (heap_current s, s\<lparr>heap_current := of_nat (unat (heap_current s) + 4 * ((unat sz + 3) div 4))\<rparr>)
     else None)"
proof -
  let ?r = "(sz + 3) AND NOT 3"
  have c: "unat (heap_current s) \<le> 0x500000" "heap_end s = 0x500000"
    using heap_inv_unat [OF assms(1)] by simp_all
  have r: "unat ?r = 4 * ((unat sz + 3) div 4)" by (rule round_up_4 [OF assms(2)])
  have le: "4 * ((unat sz + 3) div 4) \<le> unat sz + 3" by (metis times_div_less_eq_dividend)
  have sum: "unat (heap_current s + ?r) = unat (heap_current s) + 4 * ((unat sz + 3) div 4)"
    using c le assms(2) r by (simp add: unat_word_ariths)
  then have "heap_current s + ?r = of_nat (unat (heap_current s) + 4 * ((unat sz + 3) div 4))"
    by (metis of_nat_unat_u32)
  with sum c show ?thesis by (simp add: kmalloc_def Let_def word_less_nat_alt not_le)
qed

definition kalloc :: "u32 \<Rightarrow> 'a heap_state_scheme \<Rightarrow> (nat \<times> 'a heap_state_scheme) option" where
  "kalloc sz s = map_option (map_prod unat id) (kmalloc sz s)"

interpretation kheap: bump_allocator kalloc unat "\<lambda>sz. unat sz \<le> 0xFF000000" heap_inv
  "\<lambda>s. unat (heap_current s)" "\<lambda>s. unat (heap_end s)" "\<lambda>p. 4 dvd p"
proof
  fix s t :: "'a heap_state_scheme" and n :: u32 and p
  assume inv: "heap_inv s"
  then show "unat (heap_current s) \<le> unat (heap_end s)" by (simp add: heap_inv_unat)
  assume ok: "unat n \<le> 0xFF000000" and al: "kalloc n s = Some (p, t)"
  define q where "q = unat (heap_current s) + 4 * ((unat n + 3) div 4)"
  have q: "q \<le> 0x500000" "p = unat (heap_current s)" "t = s\<lparr>heap_current := of_nat q\<rparr>"
    using al kmalloc_cases [OF inv ok] by (auto simp: kalloc_def q_def split: if_splits)
  have uq: "unat (of_nat q :: u32) = q" using q(1) by (intro unat_of_nat_u32) simp
  have "unat n \<le> 4 * ((unat n + 3) div 4)" by linarith
  then show "p + unat n \<le> unat (heap_current t)" using uq by (simp add: q(2,3)) (simp add: q_def)
  show "unat (heap_current s) \<le> p" "unat (heap_end t) = unat (heap_end s)" by (simp_all add: q)
  show "4 dvd p" using inv by (simp add: q heap_inv_def)
  have "4 dvd q" "0x100000 \<le> q" using inv by (simp_all add: q_def heap_inv_def word_le_nat_alt)
  then show "heap_inv t" using inv q(1) uq by (simp add: heap_inv_def word_le_nat_alt q(3))
qed

text \<open>
  C19. The kernel heap hands out good memory: after \<open>heap_init\<close>, any sequence of \<open>kmalloc\<close> calls (each for at
  most 0xFF000000 bytes) that all return yields blocks of the sizes asked for that start at multiples of
  four, lie between one and five mebibytes, and do not overlap, in rising order.
\<close>

theorem kmalloc_blocks:
  assumes "list_all (\<lambda>sz. unat sz \<le> 0xFF000000) sizes"
    and "alloc_all kalloc unat sizes (heap_init s) = Some (bs, t)"
  shows "map snd bs = map unat sizes \<and> blocks_within 0x100000 0x500000 bs \<and> list_all (\<lambda>(p, n). 4 dvd p) bs"
proof -
  have ok: "\<forall>n \<in> set sizes. unat n \<le> 0xFF000000" using assms(1) by (simp add: list_all_iff)
  have w: "heap_inv t \<and> unat (heap_end t) = unat (heap_end (heap_init s)) \<and>
    blocks_within (unat (heap_current (heap_init s))) (unat (heap_current t)) bs \<and>
    (\<forall>(p, n) \<in> set bs. 4 dvd p) \<and> map snd bs = map unat sizes"
    by (rule kheap.alloc_all_blocks [OF heap_init_inv ok assms(2)])
  moreover have "unat (heap_current t) \<le> 0x500000" using w heap_inv_unat(2) by blast
  moreover have "blocks_within lo hi bs \<Longrightarrow> hi \<le> hi' \<Longrightarrow> blocks_within lo hi' bs" for lo hi hi'
    by (induction lo hi bs rule: blocks_within.induct) auto
  ultimately show ?thesis by (auto simp: heap_init_def list_all_iff)
qed

theorem kmalloc_blocks_witness:
  "\<exists>t. alloc_all kalloc unat [5, 128] (heap_init \<lparr>mem = (\<lambda>_. 0), ports = [], heap_current = 0, heap_end = 0\<rparr>) =
    Some ([(0x100000, 5), (0x100008, 128)], t) \<and> blocks_within 0x100000 0x500000 [(0x100000, 5), (0x100008, 128)]"
proof -
  let ?s = "\<lparr>mem = (\<lambda>_. 0), ports = [], heap_current = 0, heap_end = 0\<rparr>"
  have h: "list_all (\<lambda>sz. unat sz \<le> 0xFF000000) [5, 128 :: u32]" by simp
  obtain t where t: "alloc_all kalloc unat [5, 128] (heap_init ?s) = Some ([(0x100000, 5), (0x100008, 128)], t)"
    by (simp add: kalloc_def kmalloc_def heap_init_def Let_def)
  from kmalloc_blocks [OF h t] t show ?thesis by blast
qed

text \<open>
  An allocation returns exactly when it fits: for requests of at most 0xFF000000 bytes \<open>kmalloc\<close> returns
  if and only if the request, rounded up to a multiple of four, is at most what is left of the heap;
  otherwise it loops for ever.
\<close>

theorem kmalloc_returns_iff:
  assumes "heap_inv s" and "unat sz \<le> 0xFF000000"
  shows "(\<exists>r. kmalloc sz s = Some r) \<longleftrightarrow>
    4 * ((unat sz + 3) div 4) \<le> unat (heap_end s) - unat (heap_current s)"
proof -
  from heap_inv_unat [OF assms(1)] kmalloc_cases [OF assms] show ?thesis by auto
qed

theorem kmalloc_returns_iff_witness:
  "\<not> (\<exists>r. kmalloc 0x400001 (heap_init \<lparr>mem = (\<lambda>_. 0), ports = [], heap_current = 0, heap_end = 0\<rparr>) = Some r)"
proof -
  have h: "unat (0x400001 :: u32) \<le> 0xFF000000" by simp
  show ?thesis unfolding kmalloc_returns_iff [OF heap_init_inv h] by (simp add: heap_init_def)
qed

text \<open>
  Requests near the end of the address space overflow: the sizes 0xFFFFFFFD to 0xFFFFFFFF round to zero, so
  the call returns a block without reserving a byte, and a request of 0xFFF00000 bytes right after
  \<open>heap_init\<close> returns and moves the heap pointer back to address zero.
\<close>

theorem kmalloc_overflows:
  "kmalloc 0xFFFFFFFD s = (if heap_current s > heap_end s then None else Some (heap_current s, s)) \<and>
   kmalloc 0xFFF00000 (heap_init s) = Some (HEAP_START, (heap_init s)\<lparr>heap_current := 0\<rparr>)"
proof -
  have "(0xFFFFFFFD + 3) AND NOT 3 = (0 :: u32)" "HEAP_START + ((0xFFF00000 + 3) AND NOT 3) = 0"
    by (simp_all add: u32_eq_iff_unat)
  then show ?thesis by (simp only: kmalloc_def heap_init_def Let_def) simp
qed

end
