(* ===== verification/KC_Interrupts.thy ===== *)
theory KC_Interrupts
  imports KC_Screen KC_Heap Pic
begin

text \<open>
  Interrupts and the keyboard of the tutorial kernel: \<^verbatim>\<open>cpu/idt.c\<close>, \<^verbatim>\<open>cpu/isr.c\<close>, \<^verbatim>\<open>cpu/irq.c\<close>,
  \<^verbatim>\<open>drivers/pic.c\<close>, \<^verbatim>\<open>drivers/keyboard.c\<close> and \<^verbatim>\<open>drivers/vga.c\<close> under \<^verbatim>\<open>src/legacy/kernel-c/\<close>. Names that the
  i386 kernel uses too carry the prefix \<open>kc_\<close>. The addresses of the assembly stubs are parameters.

  Shown: \<open>isr_install\<close> builds the table through the interface \<open>gate_table\<close> and starts the controllers; the mask
  operations are those of the i386 kernel; the exception handler reports the exception on the screen within
  its three-byte buffer; the key table holds the keys that are down.
\<close>

section \<open>Definitions\<close>

record idt_gate_t =
  low_offset :: u16
  gate_sel :: u16
  gate_always0 :: u8
  gate_flags :: u8
  high_offset :: u16

record idt_register_t =
  reg_limit :: u16
  reg_base :: u32

record kc_idt_state = heap_state +
  kc_idt :: "idt_gate_t list"
  idt_reg :: idt_register_t
  kc_idtr :: idt_register_t
  key_buffer :: "u8 list"
  last_scancode :: u8
  kc_intr_flag :: bool

definition set_idt_gate :: "int \<Rightarrow> u32 \<Rightarrow> 'a kc_idt_state_scheme \<Rightarrow> 'a kc_idt_state_scheme" where
  "set_idt_gate n handler s =
     s\<lparr>kc_idt := (kc_idt s)[nat n :=
        \<lparr>low_offset = ucast (handler AND 0xFFFF), gate_sel = 0x08, gate_always0 = 0, gate_flags = 0x8E,
         high_offset = ucast (drop_bit 16 handler AND 0xFFFF)\<rparr>]\<rparr>"

definition set_idt :: "u32 \<Rightarrow> 'a kc_idt_state_scheme \<Rightarrow> 'a kc_idt_state_scheme" where
  "set_idt idt_addr s =
     (let s = s\<lparr>idt_reg := \<lparr>reg_limit = of_nat (8 * 256 - 1), reg_base = idt_addr\<rparr>\<rparr>
      in s\<lparr>kc_idtr := idt_reg s\<rparr>)"

definition kc_isr_install :: "u32 \<Rightarrow> (nat \<Rightarrow> u32) \<Rightarrow> (nat \<Rightarrow> u32) \<Rightarrow> 'a kc_idt_state_scheme \<Rightarrow> 'a kc_idt_state_scheme" where
  "kc_isr_install idt_addr isr irq s =
     (let s = for_up 32 (\<lambda>n. set_idt_gate (int n) (isr n)) s;
          s = steps [port_byte_out 0x20 0x11, port_byte_out 0xA0 0x11,
                     port_byte_out 0x21 0x20, port_byte_out 0xA1 0x28,
                     port_byte_out 0x21 0x04, port_byte_out 0xA1 0x02,
                     port_byte_out 0x21 0x01, port_byte_out 0xA1 0x01,
                     port_byte_out 0x21 0x0, port_byte_out 0xA1 0x0] s;
          s = for_up 16 (\<lambda>n. set_idt_gate (int (32 + n)) (irq n)) s
      in set_idt idt_addr s)"

definition kc_exception_messages :: "string list" where
  "kc_exception_messages =
    [''Division By Zero'', ''Debug'', ''Non Maskable Interrupt'', ''Breakpoint'',
     ''Into Detected Overflow'', ''Out of Bounds'', ''Invalid Opcode'', ''No Coprocessor'',
     ''Double Fault'', ''Coprocessor Segment Overrun'', ''Bad TSS'', ''Segment Not Present'',
     ''Stack Fault'', ''General Protection Fault'', ''Page Fault'', ''Unknown Interrupt'',
     ''Coprocessor Fault'', ''Alignment Check'', ''Machine Check'', ''Reserved'',
     ''Reserved'', ''Reserved'', ''Reserved'', ''Reserved'',
     ''Reserved'', ''Reserved'', ''Reserved'', ''Reserved'',
     ''Reserved'', ''Reserved'', ''Reserved'', ''Reserved'']"

text \<open>The bytes of a buffer up to its terminating zero.\<close>

definition c_string :: "u8 list \<Rightarrow> u8 list" where
  "c_string bs = takeWhile (\<lambda>b. b \<noteq> 0) bs"

text \<open>
  \<open>int_no\<close> is the field of the saved registers. A number that does not fit \<open>char s[3]\<close> or is not an index of
  the messages has no defined behaviour, which is \<^const>\<open>None\<close>.
\<close>

definition kc_isr_handler :: "device \<Rightarrow> u32 \<Rightarrow> 'a machine_scheme \<Rightarrow> 'a machine_scheme option" where
  "kc_isr_handler dev int_no s =
     (let s1 = kprint dev (cstr ''received interrupt: '') s;
          buf = int_to_ascii (s32 (uint int_no))
      in if length buf > 3 \<or> unat int_no \<ge> length kc_exception_messages then None
         else Some (steps [kprint dev (c_string buf), kprint dev [10],
                           kprint dev (cstr (kc_exception_messages ! unat int_no)), kprint dev [10]] s1))"

definition keyboard_handler :: "u8 \<Rightarrow> 'a kc_idt_state_scheme \<Rightarrow> 'a kc_idt_state_scheme" where
  "keyboard_handler scancode s =
     (let s = s\<lparr>last_scancode := scancode\<rparr>
      in if scancode AND 0x80 \<noteq> 0 then s\<lparr>key_buffer := (key_buffer s)[unat (scancode AND 0x7F) := 0]\<rparr>
         else s\<lparr>key_buffer := (key_buffer s)[unat scancode := 1]\<rparr>)"

definition kc_irq_handler :: "device \<Rightarrow> u32 \<Rightarrow> 'a kc_idt_state_scheme \<Rightarrow> 'a kc_idt_state_scheme" where
  "kc_irq_handler dev irq_number s =
     (let s = (if irq_number = 33 then let (scancode, s) = port_byte_in dev 0x60 s in keyboard_handler scancode s else s);
          s = (if irq_number \<ge> 40 then port_byte_out 0xA0 0x20 s else s)
      in port_byte_out 0x20 0x20 s)"

definition pic_init :: "device \<Rightarrow> 'a machine_scheme \<Rightarrow> 'a machine_scheme" where
  "pic_init dev s =
     (let (mask1, s) = port_byte_in dev PIC1_DATA s;
          (mask2, s) = port_byte_in dev PIC2_DATA s;
          s = steps [port_byte_out PIC1_COMMAND (ICW1_INIT OR ICW1_ICW4), port_byte_out PIC2_COMMAND (ICW1_INIT OR ICW1_ICW4),
                     port_byte_out PIC1_DATA 0x20, port_byte_out PIC2_DATA 0x28,
                     port_byte_out PIC1_DATA 0x04, port_byte_out PIC2_DATA 0x02,
                     port_byte_out PIC1_DATA ICW4_8086, port_byte_out PIC2_DATA ICW4_8086,
                     port_byte_out PIC1_DATA 0x00, port_byte_out PIC2_DATA 0x00] s
      in kprint dev (cstr ''PIC initialized'' @ [10]) s)"

definition pic_enable_irq :: "device \<Rightarrow> u8 \<Rightarrow> 'a machine_scheme \<Rightarrow> 'a machine_scheme" where
  "pic_enable_irq dev irq s =
     (let (port, irq) = (if irq < 8 then (PIC1_DATA, irq) else (PIC2_DATA, irq - 8));
          (value, s) = port_byte_in dev port s;
          value = value AND NOT (push_bit (unat irq) 1)
      in port_byte_out port value s)"

definition pic_disable_irq :: "device \<Rightarrow> u8 \<Rightarrow> 'a machine_scheme \<Rightarrow> 'a machine_scheme" where
  "pic_disable_irq dev irq s =
     (let (port, irq) = (if irq < 8 then (PIC1_DATA, irq) else (PIC2_DATA, irq - 8));
          (value, s) = port_byte_in dev port s;
          value = value OR push_bit (unat irq) 1
      in port_byte_out port value s)"

definition keyboard_init :: "device \<Rightarrow> u32 \<Rightarrow> 'a kc_idt_state_scheme \<Rightarrow> 'a kc_idt_state_scheme" where
  "keyboard_init dev keyboard_isr s =
     (let s = for_up 256 (\<lambda>i s. s\<lparr>key_buffer := (key_buffer s)[i := 0]\<rparr>) s;
          s = set_idt_gate 33 keyboard_isr s
      in kprint dev (cstr ''Keyboard initialized'' @ [10]) s)"

definition key_pressed :: "u8 \<Rightarrow> 'a kc_idt_state_scheme \<Rightarrow> int" where
  "key_pressed key_code s = (if key_buffer s ! unat key_code \<noteq> 0 then 1 else 0)"

definition get_last_scancode :: "'a kc_idt_state_scheme \<Rightarrow> u8" where
  "get_last_scancode s = last_scancode s"

text \<open>The assembly entry of the keyboard gate: it reads the scan code and calls \<open>keyboard_handler\<close>.\<close>

definition keyboard_isr_entry :: "device \<Rightarrow> 'a kc_idt_state_scheme \<Rightarrow> 'a kc_idt_state_scheme" where
  "keyboard_isr_entry dev s = (let (scancode, s) = port_byte_in dev 0x60 s in keyboard_handler scancode s)"

abbreviation KC_VGA_MEMORY :: u32 where "KC_VGA_MEMORY \<equiv> 0xA0000"

definition vga_put_pixel :: "int \<Rightarrow> int \<Rightarrow> u8 \<Rightarrow> 'a machine_scheme \<Rightarrow> 'a machine_scheme" where
  "vga_put_pixel x y color s =
     (if x < 0 \<or> x \<ge> 320 \<or> y < 0 \<or> y \<ge> 200 then s
      else s\<lparr>mem := (mem s)(KC_VGA_MEMORY + word_of_int (y * 320 + x) := color)\<rparr>)"

definition vga_clear_screen :: "u8 \<Rightarrow> 'a machine_scheme \<Rightarrow> 'a machine_scheme" where
  "vga_clear_screen color s =
     for_up (nat (320 * 200)) (\<lambda>i s. s\<lparr>mem := (mem s)(KC_VGA_MEMORY + of_nat i := color)\<rparr>) s"

section \<open>The descriptor table\<close>

definition kc_gate_of :: "'a kc_idt_state_scheme \<Rightarrow> nat \<Rightarrow> (u32 \<times> u16 \<times> u8) option" where
  "kc_gate_of s n =
     (let e = kc_idt s ! n
      in if bit (gate_flags e) 7
         then Some (push_bit 16 (ucast (high_offset e)) OR ucast (low_offset e), gate_sel e, gate_flags e) else None)"

lemma set_idt_gate_fields [simp]:
  "mem (set_idt_gate n h s) = mem s" "ports (set_idt_gate n h s) = ports s"
  "kc_idtr (set_idt_gate n h s) = kc_idtr s" "key_buffer (set_idt_gate n h s) = key_buffer s"
  "length (kc_idt (set_idt_gate n h s)) = length (kc_idt s)"
  by (simp_all add: set_idt_gate_def)

interpretation kc_table: gate_table "\<lambda>n. set_idt_gate (int n)" kc_gate_of "\<lambda>h. (h, 0x08, 0x8E)"
  "\<lambda>s. length (kc_idt s) = 256"
proof
  fix s :: "'a kc_idt_state_scheme" and n m :: nat and h :: u32
  assume wf: "length (kc_idt s) = 256" and n: "n < 256"
  then show "length (kc_idt (set_idt_gate (int n) h s)) = 256" by simp
  assume m: "m < 256"
  show "kc_gate_of (set_idt_gate (int n) h s) m = (if m = n then Some (h, 0x08, 0x8E) else kc_gate_of s m)"
    using wf n m unfolding kc_gate_of_def set_idt_gate_def
    by (simp only: kc_idt_state.simps Let_def nat_int nth_list_update) (simp add: split_address)
qed

lemma set_idt_gate_loop [simp]:
  "ports (for_up k (\<lambda>n. set_idt_gate (f n) (h n)) s) = ports s"
  "length (kc_idt (for_up k (\<lambda>n. set_idt_gate (f n) (h n)) s)) = length (kc_idt s)"
  by (simp_all add: for_up_keeps) (rule for_up_keeps [where f = "\<lambda>s. length (kc_idt s)"], simp)

lemma port_byte_out_fields [simp]:
  "ports (port_byte_out p v s) = Out p v # ports s" "mem (port_byte_out p v s) = mem s"
  by (simp_all add: port_byte_out_def)

lemma port_byte_out_kc [simp]:
  fixes s :: "'a kc_idt_state_scheme"
  shows "kc_idt (port_byte_out p v s) = kc_idt s" "kc_gate_of (port_byte_out p v s) n = kc_gate_of s n"
    "key_buffer (port_byte_out p v s) = key_buffer s"
  by (simp_all add: port_byte_out_def outb_def kc_gate_of_def)

text \<open>
  \<open>isr_install\<close> builds the interrupt system: the processor's table register covers the table, vectors 0 to
  31 lead to the exception stubs and 32 to 47 to the hardware stubs, other vectors keep their gates, and the
  controllers operate with vector bases 32 and 40 and all sixteen lines unmasked.
\<close>

theorem kc_isr_install_correct:
  assumes "length (kc_idt s) = 256"
  shows "kc_idtr (kc_isr_install idt_addr isr irq s) = \<lparr>reg_limit = 2047, reg_base = idt_addr\<rparr> \<and>
    map (kc_gate_of (kc_isr_install idt_addr isr irq s)) [0..<256] =
      map (\<lambda>n. if n < 32 then Some (isr n, 0x08, 0x8E)
        else if n < 48 then Some (irq (n - 32), 0x08, 0x8E) else kc_gate_of s n) [0..<256] \<and>
    master (ports (kc_isr_install idt_addr isr irq s)) = \<lparr>icw = 0, vector_base = 32, imr = 0\<rparr> \<and>
    slave (ports (kc_isr_install idt_addr isr irq s)) = \<lparr>icw = 0, vector_base = 40, imr = 0\<rparr>"
proof -
  define s1 where "s1 = for_up 32 (\<lambda>n. set_idt_gate (int (0 + n)) (isr n)) s"
  define s2 where "s2 = steps [port_byte_out 0x20 0x11, port_byte_out 0xA0 0x11,
                     port_byte_out 0x21 0x20, port_byte_out 0xA1 0x28,
                     port_byte_out 0x21 0x04, port_byte_out 0xA1 0x02,
                     port_byte_out 0x21 0x01, port_byte_out 0xA1 0x01,
                     port_byte_out 0x21 0x0, port_byte_out 0xA1 0x0] s1"
  define s3 where "s3 = for_up 16 (\<lambda>n. set_idt_gate (int (32 + n)) (irq n)) s2"
  have t: "kc_isr_install idt_addr isr irq s = set_idt idt_addr s3"
    unfolding kc_isr_install_def s1_def s2_def s3_def Let_def by simp
  have g: "kc_gate_of (set_idt idt_addr u) n = kc_gate_of u n" "ports (set_idt idt_addr u) = ports u"
    for u :: "'a kc_idt_state_scheme" and n by (simp_all add: set_idt_def kc_gate_of_def)
  have g1: "length (kc_idt s1) = 256" "\<And>n. n < 256 \<Longrightarrow> kc_gate_of s1 n = (if n < 32 then Some (isr n, 0x08, 0x8E) else kc_gate_of s n)"
    using kc_table.install_range [OF assms, of 0 32 isr] by (simp_all add: s1_def)
  have e2: "kc_idt s2 = kc_idt s1" "\<And>n. kc_gate_of s2 n = kc_gate_of s1 n" by (simp_all add: s2_def)
  have "length (kc_idt s2) = 256" using g1 e2 by simp
  from kc_table.install_range [OF this, of 32 16 irq]
  have g3: "kc_gate_of s3 n = (if 32 \<le> n \<and> n < 48 then Some (irq (n - 32), 0x08, 0x8E) else kc_gate_of s2 n)"
    if "n < 256" for n using that by (simp add: s3_def)
  have p: "ports s3 = ports s2" by (simp add: s3_def)
  have m: "master (ports s3) = \<lparr>icw = 0, vector_base = 32, imr = 0\<rparr>"
    "slave (ports s3) = \<lparr>icw = 0, vector_base = 40, imr = 0\<rparr>"
    unfolding p by (simp_all add: s2_def chip_command_def chip_data_def)
  show ?thesis unfolding t
    using g1(2) e2(2) g3 m by (auto simp: g) (simp add: set_idt_def)
qed

definition boot_kc :: kc_idt_state where
  "boot_kc = \<lparr>mem = (\<lambda>_. 0), ports = [], heap_current = 0, heap_end = 0,
     kc_idt = replicate 256 \<lparr>low_offset = 0, gate_sel = 0, gate_always0 = 0, gate_flags = 0, high_offset = 0\<rparr>,
     idt_reg = \<lparr>reg_limit = 0, reg_base = 0\<rparr>, kc_idtr = \<lparr>reg_limit = 0, reg_base = 0\<rparr>,
     key_buffer = replicate 256 0, last_scancode = 0, kc_intr_flag = False\<rparr>"

theorem kc_isr_install_correct_witness:
  "imr (master (ports (kc_isr_install 0x3000 (\<lambda>n. 0x1000) (\<lambda>n. 0x2000) boot_kc))) = 0"
proof -
  have h: "length (kc_idt boot_kc) = 256" by (simp add: boot_kc_def)
  show ?thesis using kc_isr_install_correct [OF h, of "0x3000" "\<lambda>n. 0x1000" "\<lambda>n. 0x2000"] by simp
qed

text \<open>
  The mask operations of the two kernels are the same: \<open>pic_enable_irq\<close> is \<open>pic_clear_mask\<close> and
  \<open>pic_disable_irq\<close> is \<open>pic_set_mask\<close>, for every line, state and device.
\<close>

theorem pic_enable_equiv:
  "pic_enable_irq dev irq s = pic_clear_mask dev irq s \<and> pic_disable_irq dev irq s = pic_set_mask dev irq s"
  by (simp add: pic_enable_irq_def pic_disable_irq_def pic_clear_mask_def pic_set_mask_def
      port_byte_in_def port_byte_out_def)

interpretation kc_pic: irq_mask_ctl "pic_disable_irq pic_dev" "pic_enable_irq pic_dev" irq_masked pic_ready
proof -
  have e: "pic_disable_irq pic_dev i s = pic_set_mask pic_dev i s"
    "pic_enable_irq pic_dev i s = pic_clear_mask pic_dev i s" for i and s :: "'a machine_scheme"
    by (simp_all add: pic_enable_irq_def pic_disable_irq_def pic_clear_mask_def pic_set_mask_def
        port_byte_in_def port_byte_out_def)
  have c: "irq_mask_ctl (pic_set_mask pic_dev) (pic_clear_mask pic_dev) irq_masked (pic_ready :: 'a machine_scheme \<Rightarrow> bool)"
    by (rule chip.pic_ctl.irq_mask_ctl_axioms)
  show "irq_mask_ctl (pic_disable_irq pic_dev) (pic_enable_irq pic_dev) irq_masked (pic_ready :: 'a machine_scheme \<Rightarrow> bool)"
    using c by (simp add: e [abs_def])
qed

section \<open>Exceptions\<close>

text \<open>A run of \<open>kprint\<close> calls that printed a text since a state.\<close>

definition kprinted :: "u8 list \<Rightarrow> 'a machine_scheme \<Rightarrow> 'a machine_scheme \<Rightarrow> bool" where
  "kprinted txt s t \<longleftrightarrow> grid_of t = fold grid_put txt (grid_of s) \<and> cursor_pos (ports t) < 2000 \<and>
     unchanged_outside VIDEO_ADDRESS 4000 (mem s) (mem t) \<and> machine.more t = machine.more s"

lemma kprinted_refl: "cursor_pos (ports s) < 2000 \<Longrightarrow> kprinted [] s s"
  by (simp add: kprinted_def)

lemma kprinted_kprint: "crtc_device dev \<Longrightarrow> kprinted txt s t \<Longrightarrow> kprinted (txt @ xs) s (kprint dev xs t)"
  using kprint_grid [of dev t xs] by (auto simp: kprinted_def intro: unchanged_outside_trans)

definition exception_text :: "u32 \<Rightarrow> u8 list" where
  "exception_text int_no = cstr ''received interrupt: '' @ map digit_char (decimal (unat int_no)) @ [10] @
     cstr (kc_exception_messages ! unat int_no) @ [10]"

lemma digit_char_nonzero: "d < 10 \<Longrightarrow> digit_char d \<noteq> 0"
proof -
  assume "d < 10"
  then have "unat (digit_char d) = 48 + d" by (simp add: digit_char_def unat_of_nat del: of_nat_add)
  then show ?thesis by auto
qed

lemma c_string_digits: "c_string (map digit_char (decimal n) @ [0]) = map digit_char (decimal n)"
proof -
  have "\<forall>b \<in> set (map digit_char (decimal n)). b \<noteq> 0" using decimal_less_10 digit_char_nonzero by auto
  then show ?thesis unfolding c_string_def by (subst takeWhile_append2) auto
qed

text \<open>
  The exception handler reports every exception: for the vectors 0 to 31 the number fits its three-byte
  buffer, and the screen receives exactly the message with the number in decimal and the exception's name,
  from the cursor on; nothing outside video memory changes.
\<close>

theorem kc_isr_handler_reports:
  assumes "crtc_device dev" and "cursor_pos (ports s) < 2000" and "int_no < 32"
  shows "\<exists>t. kc_isr_handler dev int_no s = Some t \<and> kprinted (exception_text int_no) s t \<and>
    length (int_to_ascii (uint int_no)) \<le> 3"
proof -
  have n: "unat int_no < 32" using assms(3) by (simp add: word_less_nat_alt)
  have u: "0 \<le> uint int_no" "uint int_no < 32" using assms(3) by (simp_all add: word_less_def)
  have a: "int_to_ascii (uint int_no) = map digit_char (decimal (unat int_no)) @ [0]"
  proof -
    have "- 2147483648 < uint int_no" "uint int_no < 2147483648" using u by linarith+
    from int_to_ascii_digits [OF this] u(1) show ?thesis by (simp add: not_less)
  qed
  have sid: "s32 (uint int_no) = uint int_no" by (rule s32_id) (use u in linarith)+
  have len: "length (decimal (unat int_no)) \<le> 2" using n by (intro decimal_length_le) simp_all
  have m: "length kc_exception_messages = 32" by (simp add: kc_exception_messages_def)
  let ?t = "steps [kprint dev (map digit_char (decimal (unat int_no))), kprint dev [10],
      kprint dev (cstr (kc_exception_messages ! unat int_no)), kprint dev [10]] (kprint dev (cstr ''received interrupt: '') s)"
  have "kc_isr_handler dev int_no s = Some ?t"
    using len n m by (simp only: kc_isr_handler_def Let_def sid a c_string_digits) simp
  moreover have "kprinted ((((([] @ cstr ''received interrupt: '') @ map digit_char (decimal (unat int_no))) @ [10]) @
      cstr (kc_exception_messages ! unat int_no)) @ [10]) s ?t"
    unfolding steps_simps by (intro kprinted_kprint kprinted_refl assms)
  ultimately show ?thesis using len by (simp add: a exception_text_def)
qed

theorem kc_isr_handler_reports_witness:
  "crtc_device crtc_dev \<and> (\<exists>t. kc_isr_handler crtc_dev 14 boot_kc = Some t \<and> kprinted (exception_text 14) boot_kc t)"
proof -
  have h: "cursor_pos (ports boot_kc) < 2000" "(14 :: u32) < 32" by (simp_all add: boot_kc_def cursor_pos_def)
  show ?thesis
    using crtc_chip.crtc_device_axioms kc_isr_handler_reports [OF crtc_chip.crtc_device_axioms h] by blast
qed

section \<open>The keyboard\<close>

definition key_events :: "u8 \<Rightarrow> u8 list \<Rightarrow> u8 list" where
  "key_events k scs = filter (\<lambda>sc. sc AND 0x7F = k) scs"

lemma and_7F: "sc AND 0x7F = take_bit 7 (sc :: u8)"
  by (simp add: take_bit_eq_mask mask_eq_exp_minus_1)

lemma scancode_press: "sc AND 0x80 \<noteq> 0 \<longleftrightarrow> \<not> sc < (0x80 :: u8)" "sc < 0x80 \<Longrightarrow> sc AND 0x7F = (sc :: u8)"
proof -
  have b: "bit sc 7 \<longleftrightarrow> 128 \<le> unat sc"
  proof -
    have "bit sc 7 \<longleftrightarrow> odd (unat sc div 128)" 
    proof -
      have "bit (unat sc) 7 \<longleftrightarrow> bit sc 7" by (simp add: bit_simps)
      then show ?thesis by (simp add: bit_iff_odd [of "unat sc"])
    qed
    moreover have "unat sc div 128 = 0 \<or> unat sc div 128 = 1" using unat_u8_less [of sc] by linarith
    moreover have "unat sc div 128 = 1 \<longleftrightarrow> 128 \<le> unat sc" using unat_u8_less [of sc] by linarith
    ultimately show ?thesis by auto
  qed
  have "sc AND 0x80 = (if bit sc 7 then 0x80 else 0)"
  proof -
    have "bit (2 ^ 7 :: u8) n \<longleftrightarrow> n = 7" for n by (subst bit_exp_iff) auto
    then have e: "bit (0x80 :: u8) n \<longleftrightarrow> n = 7" for n by simp
    show ?thesis by (intro bit_word_eqI, cases "bit sc 7") (simp_all only: if_True if_False bit_and_iff e, auto)
  qed
  with b show "sc AND 0x80 \<noteq> 0 \<longleftrightarrow> \<not> sc < 0x80" by (simp add: word_less_nat_alt not_less)
  show "sc AND 0x7F = sc" if "sc < 0x80"
    using that by (simp add: and_7F u8_eq_iff_unat unsigned_take_bit_eq take_bit_nat_eq_self_iff word_less_nat_alt)
qed

lemma keyboard_handler_key:
  assumes "length (key_buffer s) = 256" "k < 128"
  shows "key_pressed k (keyboard_handler sc s) =
    (if sc AND 0x7F = k then if sc < 0x80 then 1 else 0 else key_pressed k s)"
proof -
  have i: "unat (sc AND 0x7F) < 256" "unat sc < 256" by simp_all
  have e: "unat x = unat k \<longleftrightarrow> x = k" for x :: u8 by (simp add: u8_eq_iff_unat)
  show ?thesis
  proof (cases "sc < 0x80")
    case True
    with assms i e scancode_press [of sc] show ?thesis
      by (simp add: keyboard_handler_def key_pressed_def nth_list_update)
  next
    case False
    with assms i e scancode_press(1) [of sc] show ?thesis
      by (simp add: keyboard_handler_def key_pressed_def nth_list_update)
  qed
qed

lemma keyboard_handler_length [simp]: "length (key_buffer (keyboard_handler sc s)) = length (key_buffer s)"
  by (simp add: keyboard_handler_def Let_def)

lemma keyboard_handler_fold_length [simp]: "length (key_buffer (fold keyboard_handler scs s)) = length (key_buffer s)"
  by (induction scs arbitrary: s) simp_all

lemma keys_after:
  assumes "length (key_buffer s) = 256" "k < 128"
  shows "key_pressed k (fold keyboard_handler scs s) =
    (if key_events k scs = [] then key_pressed k s else if last (key_events k scs) < 0x80 then 1 else 0)"
proof (induction scs rule: rev_induct)
  case Nil
  show ?case by (simp add: key_events_def)
next
  case (snoc sc scs)
  with keyboard_handler_key [of "fold keyboard_handler scs s" k sc] assms show ?case
    by (simp add: key_events_def)
qed

text \<open>
  The key table holds the keys that are down: after any sequence of scan codes, \<open>key_pressed k\<close> is 1 exactly
  when the last scan code for key \<open>k\<close> was its make code, and it is what it was before when there was none;
  \<open>get_last_scancode\<close> is the last one.
\<close>

theorem key_pressed_last_event:
  assumes "length (key_buffer s) = 256" and "k < 128"
  shows "key_pressed k (fold keyboard_handler (scs @ [sc]) s) =
      (if key_events k (scs @ [sc]) = [] then key_pressed k s
       else if last (key_events k (scs @ [sc])) < 0x80 then 1 else 0) \<and>
    get_last_scancode (fold keyboard_handler (scs @ [sc]) s) = sc"
  using keys_after [OF assms, of "scs @ [sc]"]
  by (simp add: get_last_scancode_def keyboard_handler_def Let_def)

theorem key_pressed_last_event_witness:
  "key_pressed 0x11 (fold keyboard_handler [0x11, 0x1E, 0x9E] boot_kc) = 1"
proof -
  have h: "length (key_buffer boot_kc) = 256" "(0x11 :: u8) < 128" by (simp_all add: boot_kc_def)
  show ?thesis using key_pressed_last_event [OF h, of "[0x11, 0x1E]" "0x9E"] by (simp add: key_events_def)
qed

text \<open>
  The hardware interrupt handler acknowledges every line correctly (the slave too for vectors from 40 on)
  and serves the keyboard on vector 33; the keyboard gate that \<open>keyboard_init\<close> installs instead leads to an
  entry that never writes an acknowledgement to either controller.
\<close>

theorem kc_irq_handler_acknowledges:
  "(n < 16 \<longrightarrow> kc_irq_handler dev (32 + of_nat n) s =
     pic_send_eoi (of_nat n) (if n = 1 then keyboard_isr_entry dev s else s)) \<and>
   writes_to 0x20 (ports (keyboard_isr_entry dev s)) = writes_to 0x20 (ports s) \<and>
   writes_to 0xA0 (ports (keyboard_isr_entry dev s)) = writes_to 0xA0 (ports s)"
proof -
  have "kc_irq_handler dev (32 + of_nat n) s =
     pic_send_eoi (of_nat n) (if n = 1 then keyboard_isr_entry dev s else s)" if n: "n < 16"
  proof -
    have a: "(32 + of_nat n :: u32) = 33 \<longleftrightarrow> n = 1" "(40 \<le> (32 + of_nat n :: u32)) \<longleftrightarrow> 8 \<le> n"
      "(8 \<le> (of_nat n :: u8)) \<longleftrightarrow> 8 \<le> n"
      using n by (simp_all add: u32_eq_iff_unat word_le_nat_alt unat_word_ariths unat_of_nat)
    show ?thesis
      by (simp add: kc_irq_handler_def pic_send_eoi_def keyboard_isr_entry_def port_byte_out_def a Let_def)
  qed
  moreover have "ports (keyboard_isr_entry dev s) = In 0x60 (dev (ports s) 0x60) # ports s"
    by (simp add: keyboard_isr_entry_def port_byte_in_def inb_def keyboard_handler_def Let_def)
  ultimately show ?thesis by simp
qed

theorem kc_irq_handler_acknowledges_witness:
  "kc_irq_handler crtc_dev 45 boot_kc = pic_send_eoi 13 boot_kc"
  using kc_irq_handler_acknowledges [of 13 crtc_dev boot_kc] by simp

section \<open>Graphics\<close>

text \<open>
  \<open>vga_put_pixel\<close> is safe and exact: with coordinates on the 320 by 200 screen it sets the byte of that
  pixel and no other byte; with any other coordinates, negative or too large, it changes nothing.
\<close>

theorem vga_put_pixel_exact:
  "vga_put_pixel x y color s =
     (if x \<in> {0..319} \<and> y \<in> {0..199}
      then s\<lparr>mem := (mem s)(KC_VGA_MEMORY + of_nat (320 * nat y + nat x) := color)\<rparr> else s) \<and>
   unchanged_outside KC_VGA_MEMORY 64000 (mem s) (mem (vga_put_pixel x y color s))"
proof -
  have "vga_put_pixel x y color s =
     (if x \<in> {0..319} \<and> y \<in> {0..199}
      then s\<lparr>mem := (mem s)(KC_VGA_MEMORY + of_nat (320 * nat y + nat x) := color)\<rparr> else s)"
    by (auto simp: vga_put_pixel_def of_nat_nat mult.commute)
  moreover have "unchanged_outside KC_VGA_MEMORY 64000 (mem s) ((mem s)(KC_VGA_MEMORY + of_nat k := color))"
    if "k < 64000" for k
    using that in_region_offset [of k KC_VGA_MEMORY 64000] by (auto simp: unchanged_outside_def)
  moreover have "320 * nat y + nat x < 64000" if "x \<in> {0..319}" "y \<in> {0..199}" using that by auto
  ultimately show ?thesis by (simp del: of_nat_add of_nat_mult)
qed

lemma vga_clear_screen_fills:
  "mem (vga_clear_screen color s) = (\<lambda>a. if in_region a KC_VGA_MEMORY 64000 then color else mem s a)"
proof -
  have "mem (for_up n (\<lambda>i s. s\<lparr>mem := (mem s)(KC_VGA_MEMORY + of_nat i := color)\<rparr>) s) =
      for_up n (\<lambda>i m. m(KC_VGA_MEMORY + of_nat i := color)) (mem s)" for n
    by (induction n) (simp_all add: for_up_Suc cong: if_cong)
  then show ?thesis by (simp add: vga_clear_screen_def memset_loop)
qed

end
