(* ===== verification/KC_Main.thy ===== *)
theory KC_Main
  imports KC_Interrupts
begin

text \<open>
  The tutorial kernel put together, \<^verbatim>\<open>src/legacy/kernel-c/kernel/kernel.c\<close>: \<open>main\<close> up to the keyboard test, and
  the test loop. Interrupts arrive between two rounds of the loop: \<open>test_loop\<close> takes, for each round, the scan
  codes that the keyboard interrupt has delivered since the round before, and is \<^const>\<open>None\<close> when the loop is
  still running after the rounds given.
\<close>

section \<open>Definitions\<close>

abbreviation KEY_ESC :: u8 where "KEY_ESC \<equiv> 0x01"
abbreviation KEY_W :: u8 where "KEY_W \<equiv> 0x11"
abbreviation KEY_A :: u8 where "KEY_A \<equiv> 0x1E"
abbreviation KEY_S :: u8 where "KEY_S \<equiv> 0x1F"
abbreviation KEY_D :: u8 where "KEY_D \<equiv> 0x20"
abbreviation KEY_SPACE :: u8 where "KEY_SPACE \<equiv> 0x39"

definition show_key :: "device \<Rightarrow> u8 \<Rightarrow> u8 list \<Rightarrow> int \<Rightarrow> 'a kc_idt_state_scheme \<Rightarrow> 'a kc_idt_state_scheme" where
  "show_key dev key label col s =
     (if key_pressed key s \<noteq> 0 then kprint_at dev label col 3 s
      else kprint_at dev (cstr ''         '') col 3 s)"

text \<open>One round of the loop, and whether it goes on.\<close>

definition test_round :: "device \<Rightarrow> 'a kc_idt_state_scheme \<Rightarrow> bool \<times> 'a kc_idt_state_scheme" where
  "test_round dev s =
     (let s = steps [show_key dev KEY_W (cstr ''W pressed'') 0, show_key dev KEY_A (cstr ''A pressed'') 10,
                     show_key dev KEY_S (cstr ''S pressed'') 20, show_key dev KEY_D (cstr ''D pressed'') 30,
                     show_key dev KEY_SPACE (cstr ''SPACE pressed'') 40] s
      in if key_pressed KEY_ESC s \<noteq> 0
         then (False, kprint dev (10 # cstr ''Test ended. Exiting...'' @ [10]) s) else (True, s))"

primrec test_loop :: "device \<Rightarrow> u8 list list \<Rightarrow> 'a kc_idt_state_scheme \<Rightarrow> 'a kc_idt_state_scheme option" where
  "test_loop dev [] s = None"
| "test_loop dev (scs # rounds) s =
     (let s = fold keyboard_handler scs s; (loop, s) = test_round dev s
      in if loop then test_loop dev rounds s else Some s)"

definition test_keyboard :: "device \<Rightarrow> u8 list list \<Rightarrow> 'a kc_idt_state_scheme \<Rightarrow> 'a kc_idt_state_scheme option" where
  "test_keyboard dev rounds s =
     (let s = kprint dev (10 # cstr ''=== Keyboard Test ==='' @ [10]) s;
          s = kprint dev (cstr ''Press keys to test (W, A, S, D, SPACE, ESC):'' @ [10]) s;
          s = kprint dev (cstr ''Press ESC to exit'' @ [10, 10]) s
      in test_loop dev rounds s)"

text \<open>\<open>main\<close> up to the call of \<open>test_keyboard\<close>; \<^const>\<open>None\<close> when \<open>kmalloc\<close> does not return.\<close>

definition kc_main_setup :: "device \<Rightarrow> u32 \<Rightarrow> (nat \<Rightarrow> u32) \<Rightarrow> (nat \<Rightarrow> u32) \<Rightarrow> u32 \<Rightarrow> 'a kc_idt_state_scheme \<Rightarrow>
    'a kc_idt_state_scheme option" where
  "kc_main_setup dev idt_addr isr irq keyboard_isr s =
     (let s = kc_isr_install idt_addr isr irq s;
          s = pic_init dev s;
          s = keyboard_init dev keyboard_isr s;
          s = vga_clear_screen 1 s;
          s = vga_put_pixel 160 100 15 s;
          s = heap_init s
      in Option.bind (kmalloc 128 s) (\<lambda>(teste, s).
         let s = s\<lparr>kc_intr_flag := True\<rparr>;
             s = kprint dev (10 # cstr ''Starting keyboard test...'' @ [10]) s
         in Some (kprint dev (cstr ''The loop is running. Press keys:'' @ [10]) s)))"

definition kc_main :: "device \<Rightarrow> u32 \<Rightarrow> (nat \<Rightarrow> u32) \<Rightarrow> (nat \<Rightarrow> u32) \<Rightarrow> u32 \<Rightarrow> u8 list list \<Rightarrow>
    'a kc_idt_state_scheme \<Rightarrow> 'a kc_idt_state_scheme option" where
  "kc_main dev idt_addr isr irq keyboard_isr rounds s =
     Option.bind (kc_main_setup dev idt_addr isr irq keyboard_isr s) (test_keyboard dev rounds)"

section \<open>What printing leaves alone\<close>

lemma get_cursor_more: "machine.more (snd (get_cursor_offset dev s)) = machine.more s"
  by (simp add: get_cursor_offset_def port_byte_in_def port_byte_out_def inb_def Let_def)

lemma print_char_more: "machine.more (snd (print_char dev c col row attr s)) = machine.more s"
  using get_cursor_more [of dev s]
  by (auto simp: print_char_def Let_def split: prod.splits if_splits)

lemma kprint_fold_more: "machine.more (snd (snd (fold (kprint_step dev) xs (col, row, s)))) = machine.more s"
proof (induction xs arbitrary: col row s)
  case (Cons x xs)
  obtain o' s' where "print_char dev x col row WHITE_ON_BLACK s = (o', s')" by fastforce
  with Cons [of _ _ s'] print_char_more [of dev x col row WHITE_ON_BLACK s] show ?case
    by (simp add: kprint_step_def)
qed simp

lemma kprint_at_more: "machine.more (kprint_at dev xs col row s) = machine.more s"
  using get_cursor_more [of dev s] by (auto simp: kprint_at_def Let_def kprint_fold_more split: prod.splits)

lemma more_fields:
  fixes s t :: "'a kc_idt_state_scheme"
  assumes "machine.more t = machine.more s"
  shows "key_buffer t = key_buffer s" "kc_idt t = kc_idt s" "kc_idtr t = kc_idtr s"
    "heap_current t = heap_current s" "kc_intr_flag t = kc_intr_flag s"
  using assms by (cases s; cases t; simp)+

lemma kprint_keys [simp]:
  fixes s :: "'a kc_idt_state_scheme"
  shows "key_buffer (kprint_at dev xs col row s) = key_buffer s" "key_buffer (kprint dev xs s) = key_buffer s"
    "kc_idt (kprint dev xs s) = kc_idt s" "kc_idtr (kprint dev xs s) = kc_idtr s"
  using more_fields [OF kprint_at_more] by (simp_all add: kprint_def)

lemma test_round_keys [simp]: "key_buffer (snd (test_round dev s)) = key_buffer s"
  and test_round_goes_on: "fst (test_round dev s) \<longleftrightarrow> key_pressed KEY_ESC s = 0"
proof -
  have k: "key_buffer (show_key dev k l c s) = key_buffer s" for k l c and s :: "'a kc_idt_state_scheme"
    by (simp add: show_key_def)
  then show "key_buffer (snd (test_round dev s)) = key_buffer s" "fst (test_round dev s) \<longleftrightarrow> key_pressed KEY_ESC s = 0"
    by (simp_all add: test_round_def Let_def key_pressed_def)
qed

section \<open>The test loop\<close>

definition esc_down :: "u8 list \<Rightarrow> bool" where
  "esc_down scs \<longleftrightarrow> key_events KEY_ESC scs \<noteq> [] \<and> last (key_events KEY_ESC scs) < 0x80"

lemma handler_keys_cong: "key_buffer s = key_buffer t \<Longrightarrow>
    key_buffer (fold keyboard_handler scs s) = key_buffer (fold keyboard_handler scs t)"
  by (induction scs arbitrary: s t) (simp_all add: keyboard_handler_def Let_def)

lemma test_loop_ends:
  assumes "length (key_buffer s) = 256"
  shows "test_loop dev rounds s \<noteq> None \<longleftrightarrow>
    (\<exists>i < length rounds. key_pressed KEY_ESC (fold keyboard_handler (concat (take (Suc i) rounds)) s) \<noteq> 0)"
  using assms
proof (induction rounds arbitrary: s)
  case (Cons scs rounds)
  let ?s1 = "fold keyboard_handler scs s" and ?s2 = "snd (test_round dev (fold keyboard_handler scs s))"
  have len: "length (key_buffer ?s2) = 256" using Cons.prems by simp
  have eq: "key_pressed KEY_ESC (fold keyboard_handler ys ?s2) = key_pressed KEY_ESC (fold keyboard_handler (scs @ ys) s)" for ys
    using handler_keys_cong [of ?s2 ?s1 ys] by (simp add: key_pressed_def)
  have step: "test_loop dev (scs # rounds) s \<noteq> None \<longleftrightarrow>
      key_pressed KEY_ESC ?s1 \<noteq> 0 \<or> test_loop dev rounds ?s2 \<noteq> None"
    using test_round_goes_on [of dev ?s1] by (auto simp: Let_def split: prod.splits)
  show ?case unfolding step Cons.IH [OF len] eq
  proof (rule iffI)
    assume "key_pressed KEY_ESC ?s1 \<noteq> 0 \<or>
      (\<exists>i<length rounds. key_pressed KEY_ESC (fold keyboard_handler (scs @ concat (take (Suc i) rounds)) s) \<noteq> 0)"
    then show "\<exists>i<length (scs # rounds).
        key_pressed KEY_ESC (fold keyboard_handler (concat (take (Suc i) (scs # rounds))) s) \<noteq> 0"
      by (elim disjE exE) (rule exI [of _ 0], simp, rule_tac x = "Suc i" in exI, simp)
  next
    assume "\<exists>i<length (scs # rounds).
        key_pressed KEY_ESC (fold keyboard_handler (concat (take (Suc i) (scs # rounds))) s) \<noteq> 0"
    then obtain i where "i < length (scs # rounds)"
      "key_pressed KEY_ESC (fold keyboard_handler (concat (take (Suc i) (scs # rounds))) s) \<noteq> 0" by blast
    then show "key_pressed KEY_ESC ?s1 \<noteq> 0 \<or>
      (\<exists>i<length rounds. key_pressed KEY_ESC (fold keyboard_handler (scs @ concat (take (Suc i) rounds)) s) \<noteq> 0)"
      by (cases i) auto
  qed
qed simp

text \<open>
  C34. The keyboard test ends exactly when Escape is down at a poll: with no key down at the start,
  \<open>test_keyboard\<close> returns within the rounds given if and only if after the scan codes of some round the last
  code of the Escape key was its make code; otherwise it is still running.
\<close>

theorem test_keyboard_ends_iff:
  assumes "length (key_buffer s) = 256" and "key_pressed KEY_ESC s = 0"
  shows "test_keyboard dev rounds s \<noteq> None \<longleftrightarrow>
    list_ex (\<lambda>i. esc_down (concat (take (Suc i) rounds))) [0..<length rounds]"
proof -
  let ?t = "kprint dev (cstr ''Press ESC to exit'' @ [10, 10])
    (kprint dev (cstr ''Press keys to test (W, A, S, D, SPACE, ESC):'' @ [10])
    (kprint dev (10 # cstr ''=== Keyboard Test ==='' @ [10]) s))"
  have t: "length (key_buffer ?t) = 256" "key_pressed KEY_ESC ?t = 0"
    using assms by (simp_all add: key_pressed_def)
  have "key_pressed KEY_ESC (fold keyboard_handler scs ?t) \<noteq> 0 \<longleftrightarrow> esc_down scs" for scs
    using keys_after [OF t(1), of KEY_ESC scs] t(2) by (simp add: esc_down_def)
  then show ?thesis
    using test_loop_ends [OF t(1), of dev rounds]
    by (auto simp: test_keyboard_def list_ex_iff)
qed

theorem test_keyboard_ends_iff_witness:
  "test_keyboard crtc_dev [[0x11], [], [0x91, 0x01], [0x81]] boot_kc \<noteq> None"
proof -
  have h: "length (key_buffer boot_kc) = 256" "key_pressed KEY_ESC boot_kc = 0"
    by (simp_all add: boot_kc_def key_pressed_def)
  show ?thesis unfolding test_keyboard_ends_iff [OF h]
    by (simp add: esc_down_def key_events_def upt_rec)
qed

section \<open>Starting up\<close>

lemma print_char_pic:
  assumes "cmd \<notin> {0x3d4, 0x3d5}" "dat \<notin> {0x3d4, 0x3d5}"
  shows "pic_state cmd dat (ports (snd (print_char dev c col row attr s))) = pic_state cmd dat (ports s)"
    "pic_state cmd dat (ports (snd (get_cursor_offset dev s))) = pic_state cmd dat (ports s)"
proof -
  have g: "pic_state cmd dat (ports (snd (get_cursor_offset dev s))) = pic_state cmd dat (ports s)"
    for s :: "'a machine_scheme"
    using assms by (auto simp: get_cursor_offset_def port_byte_in_def port_byte_out_def inb_def Let_def)
  then show "pic_state cmd dat (ports (snd (get_cursor_offset dev s))) = pic_state cmd dat (ports s)" .
  have "pic_state cmd dat (ports (set_cursor_offset off s)) = pic_state cmd dat (ports s)"
    for off and s :: "'a machine_scheme"
    using assms by (auto simp: set_cursor_offset_def port_byte_out_def Let_def)
  with g [of s] show "pic_state cmd dat (ports (snd (print_char dev c col row attr s))) = pic_state cmd dat (ports s)"
    by (auto simp: print_char_def Let_def split: prod.splits if_splits)
qed

lemma kprint_pic:
  assumes "cmd \<notin> {0x3d4, 0x3d5}" "dat \<notin> {0x3d4, 0x3d5}"
  shows "pic_state cmd dat (ports (kprint dev xs s)) = pic_state cmd dat (ports s)"
proof -
  have "pic_state cmd dat (ports (snd (snd (fold (kprint_step dev) xs (col, row, s))))) = pic_state cmd dat (ports s)"
    for col row and s :: "'a machine_scheme"
  proof (induction xs arbitrary: col row s)
    case (Cons x xs)
    obtain o' s' where "print_char dev x col row WHITE_ON_BLACK s = (o', s')" by fastforce
    with Cons [of _ _ s'] print_char_pic(1) [OF assms, of dev x col row WHITE_ON_BLACK s] show ?case
      by (simp add: kprint_step_def)
  qed simp
  with print_char_pic(2) [OF assms, of dev s] show ?thesis
    by (auto simp: kprint_def kprint_at_def Let_def split: prod.splits)
qed

text \<open>The screen after a text was printed on a given one, and the two video memories apart.\<close>

definition on_screen :: "u8 list \<Rightarrow> grid \<Rightarrow> 'a machine_scheme \<Rightarrow> bool" where
  "on_screen txt g s \<longleftrightarrow> grid_of s = fold grid_put txt g \<and> cursor_pos (ports s) < 2000"

lemma on_screen_kprint:
  "crtc_device dev \<Longrightarrow> on_screen txt g s \<Longrightarrow> on_screen (txt @ xs) g (kprint dev xs s)"
  using kprint_grid [of dev s xs] by (simp add: on_screen_def)

lemma on_screen_cong:
  assumes "cells_of (mem t) = cells_of (mem s)" "cursor_pos (ports t) = cursor_pos (ports s)"
  shows "on_screen txt g t = on_screen txt g s"
  using assms by (simp add: on_screen_def grid_of_def)

lemma vga_video_apart:
  "k < 64000 \<Longrightarrow> \<not> in_region (KC_VGA_MEMORY + of_nat k) VIDEO_ADDRESS 4000"
  "i < 4000 \<Longrightarrow> \<not> in_region (VIDEO_ADDRESS + of_nat i) KC_VGA_MEMORY 64000"
proof -
  assume k: "k < 64000"
  have "unat (KC_VGA_MEMORY + of_nat k) = 655360 + k" using k by (simp add: unat_word_ariths unat_of_nat)
  then have "unat (KC_VGA_MEMORY + of_nat k - VIDEO_ADDRESS) = 655360 + k + 4294967296 - 753664"
    using k by (simp only: unat_sub_if') simp
  then show "\<not> in_region (KC_VGA_MEMORY + of_nat k) VIDEO_ADDRESS 4000" by (simp only: in_region_def)
next
  assume i: "i < 4000"
  have "VIDEO_ADDRESS + of_nat i = KC_VGA_MEMORY + of_nat (98304 + i)" by simp
  then show "\<not> in_region (VIDEO_ADDRESS + of_nat i) KC_VGA_MEMORY 64000"
    using i by (simp only: in_region_offset)
qed

lemma cells_of_outside:
  assumes "unchanged_outside KC_VGA_MEMORY 64000 m m'"
  shows "cells_of m' = cells_of m"
  using unchanged_outsideD [OF assms vga_video_apart(2)]
  by (auto simp: cells_of_def fun_eq_iff simp del: of_nat_add of_nat_mult of_nat_Suc)

definition pixels :: "mem \<Rightarrow> u8 list" where
  "pixels m = map (\<lambda>k. m (KC_VGA_MEMORY + of_nat k)) [0..<64000]"

lemma pixels_outside: "unchanged_outside VIDEO_ADDRESS 4000 m m' \<Longrightarrow> pixels m' = pixels m"
  using unchanged_outsideD [OF _ vga_video_apart(1)] by (auto simp: pixels_def)

lemma pixels_dot:
  assumes "m = (\<lambda>a. if in_region a KC_VGA_MEMORY 64000 then c else m0 a)" "p < 64000"
  shows "pixels (m(KC_VGA_MEMORY + of_nat p := d)) = (replicate 64000 c)[p := d]"
  unfolding pixels_def
  by (rule nth_equalityI) (use assms offset_inject [of _ p KC_VGA_MEMORY] in \<open>auto simp: nth_list_update\<close>)

definition setup_text :: "u8 list" where
  "setup_text = ((([] @ cstr ''PIC initialized'' @ [10]) @ cstr ''Keyboard initialized'' @ [10]) @
     10 # cstr ''Starting keyboard test...'' @ [10]) @ cstr ''The loop is running. Press keys:'' @ [10]"

lemma clear_keys:
  "length (key_buffer s) = 256 \<Longrightarrow>
   key_buffer (for_up 256 (\<lambda>i s. s\<lparr>key_buffer := (key_buffer s)[i := 0]\<rparr>) s) = replicate 256 0"
proof -
  assume len: "length (key_buffer s) = 256"
  have "n \<le> 256 \<Longrightarrow> key_buffer (for_up n (\<lambda>i s. s\<lparr>key_buffer := (key_buffer s)[i := 0]\<rparr>) s) =
      replicate n 0 @ drop n (key_buffer s)" for n
  proof (induction n)
    case (Suc n)
    then have "drop n (key_buffer s) = key_buffer s ! n # drop (Suc n) (key_buffer s)"
      using len by (simp add: Cons_nth_drop_Suc)
    with Suc show ?case by (simp add: for_up_Suc list_update_append replicate_append_same)
  qed simp
  from this [of 256] len show ?thesis by simp
qed

lemma clear_keys_frame:
  fixes s :: "'a kc_idt_state_scheme"
  defines "t \<equiv> for_up 256 (\<lambda>i s. s\<lparr>key_buffer := (key_buffer s)[i := 0]\<rparr>) s"
  shows "mem t = mem s" "ports t = ports s" "kc_idt t = kc_idt s" "kc_idtr t = kc_idtr s"
  unfolding t_def by (simp_all add: for_up_keeps)

lemma isr_install_frame:
  "mem (kc_isr_install a isr irq s) = mem s" "cursor_pos (ports (kc_isr_install a isr irq s)) = cursor_pos (ports s)"
  "key_buffer (kc_isr_install a isr irq s) = key_buffer s" "length (kc_idt (kc_isr_install a isr irq s)) = length (kc_idt s)"
proof -
  have g: "mem (for_up k (\<lambda>n. set_idt_gate (f n) (h n)) u) = mem u" "key_buffer (for_up k (\<lambda>n. set_idt_gate (f n) (h n)) u) = key_buffer u"
    for k f h and u :: "'a kc_idt_state_scheme" by (simp_all add: for_up_keeps)
  have e: "mem (set_idt a u) = mem u" "ports (set_idt a u) = ports u" "key_buffer (set_idt a u) = key_buffer u"
    "kc_idt (set_idt a u) = kc_idt u" for u :: "'a kc_idt_state_scheme" by (simp_all add: set_idt_def Let_def)
  show "mem (kc_isr_install a isr irq s) = mem s" "key_buffer (kc_isr_install a isr irq s) = key_buffer s"
    "length (kc_idt (kc_isr_install a isr irq s)) = length (kc_idt s)"
    by (simp_all add: kc_isr_install_def Let_def e g)
  show "cursor_pos (ports (kc_isr_install a isr irq s)) = cursor_pos (ports s)"
    by (simp add: kc_isr_install_def Let_def e cursor_pos_def)
qed

lemma pic_init_state:
  fixes s :: "'a kc_idt_state_scheme"
  assumes "crtc_device dev" "on_screen txt g s"
  shows "on_screen (txt @ cstr ''PIC initialized'' @ [10]) g (pic_init dev s)"
    "master (ports (pic_init dev s)) = \<lparr>icw = 0, vector_base = 32, imr = 0\<rparr>"
    "slave (ports (pic_init dev s)) = \<lparr>icw = 0, vector_base = 40, imr = 0\<rparr>"
    "key_buffer (pic_init dev s) = key_buffer s" "kc_idt (pic_init dev s) = kc_idt s" "kc_idtr (pic_init dev s) = kc_idtr s"
proof -
  let ?in = "\<lambda>s. snd (port_byte_in dev PIC2_DATA (snd (port_byte_in dev PIC1_DATA s)))"
  define u where "u = steps [port_byte_out PIC1_COMMAND (ICW1_INIT OR ICW1_ICW4), port_byte_out PIC2_COMMAND (ICW1_INIT OR ICW1_ICW4),
                     port_byte_out PIC1_DATA 0x20, port_byte_out PIC2_DATA 0x28,
                     port_byte_out PIC1_DATA 0x04, port_byte_out PIC2_DATA 0x02,
                     port_byte_out PIC1_DATA ICW4_8086, port_byte_out PIC2_DATA ICW4_8086,
                     port_byte_out PIC1_DATA 0x00, port_byte_out PIC2_DATA 0x00] (?in s)"
  have e: "pic_init dev s = kprint dev (cstr ''PIC initialized'' @ [10]) u"
    by (simp add: pic_init_def u_def Let_def split: prod.splits)
  have u: "mem u = mem s" "cursor_pos (ports u) = cursor_pos (ports s)" "key_buffer u = key_buffer s" "kc_idt u = kc_idt s"
    "kc_idtr u = kc_idtr s" "master (ports u) = \<lparr>icw = 0, vector_base = 32, imr = 0\<rparr>" "slave (ports u) = \<lparr>icw = 0, vector_base = 40, imr = 0\<rparr>"
    by (simp_all add: u_def port_byte_in_def port_byte_out_def inb_def outb_def Let_def cursor_pos_def chip_command_def chip_data_def)
  have "on_screen txt g u" using assms(2) on_screen_cong [of u s] u(1,2) by simp
  from on_screen_kprint [OF assms(1) this]
  show "on_screen (txt @ cstr ''PIC initialized'' @ [10]) g (pic_init dev s)" by (simp add: e)
  show "master (ports (pic_init dev s)) = \<lparr>icw = 0, vector_base = 32, imr = 0\<rparr>"
    "slave (ports (pic_init dev s)) = \<lparr>icw = 0, vector_base = 40, imr = 0\<rparr>"
    using u by (simp_all add: e kprint_pic)
  show "key_buffer (pic_init dev s) = key_buffer s" "kc_idt (pic_init dev s) = kc_idt s" "kc_idtr (pic_init dev s) = kc_idtr s"
    using u by (simp_all add: e)
qed

lemma keyboard_init_state:
  assumes "crtc_device dev" "on_screen txt g s" "length (kc_idt s) = 256" "length (key_buffer s) = 256"
  shows "on_screen (txt @ cstr ''Keyboard initialized'' @ [10]) g (keyboard_init dev h s)"
    "n < 256 \<Longrightarrow> kc_gate_of (keyboard_init dev h s) n = (if n = 33 then Some (h, 0x08, 0x8E) else kc_gate_of s n)"
    "kc_idtr (keyboard_init dev h s) = kc_idtr s"
    "key_buffer (keyboard_init dev h s) = replicate 256 0"
    "master (ports (keyboard_init dev h s)) = master (ports s)" "slave (ports (keyboard_init dev h s)) = slave (ports s)"
proof -
  let ?c = "for_up 256 (\<lambda>i s. s\<lparr>key_buffer := (key_buffer s)[i := 0]\<rparr>) s"
  define u where "u = set_idt_gate 33 h ?c"
  have e: "keyboard_init dev h s = kprint dev (cstr ''Keyboard initialized'' @ [10]) u"
    by (simp add: keyboard_init_def u_def Let_def)
  note c = clear_keys_frame [of s]
  show "kc_gate_of (keyboard_init dev h s) n = (if n = 33 then Some (h, 0x08, 0x8E) else kc_gate_of s n)" if "n < 256"
  proof -
    have "kc_gate_of u n = (if n = 33 then Some (h, 0x08, 0x8E) else kc_gate_of ?c n)"
      using kc_table.gate_of_set [of ?c 33 n h] that assms(3) c(3) by (simp add: u_def)
    moreover have "kc_idt (keyboard_init dev h s) = kc_idt u" by (simp add: e)
    ultimately show ?thesis using c(3) by (simp add: kc_gate_of_def)
  qed
  show "kc_idtr (keyboard_init dev h s) = kc_idtr s" using c(4) by (simp add: e u_def)
  have "on_screen txt g u" using assms(2) on_screen_cong [of u s] c by (simp add: u_def)
  from on_screen_kprint [OF assms(1) this]
  show "on_screen (txt @ cstr ''Keyboard initialized'' @ [10]) g (keyboard_init dev h s)" by (simp add: e)
  show "key_buffer (keyboard_init dev h s) = replicate 256 0"
    using clear_keys [OF assms(4)] by (simp add: e u_def)
  show "master (ports (keyboard_init dev h s)) = master (ports s)" "slave (ports (keyboard_init dev h s)) = slave (ports s)"
    using c by (simp_all add: e kprint_pic u_def)
qed

text \<open>
  C18. \<open>main\<close> sets the tutorial kernel up: on a working cursor controller it reaches the keyboard test, with
  the interrupt table loaded whose vectors 0 to 31 lead to the exception stubs, 32 to 47 to the hardware stubs but
  33 to the keyboard entry, and whose other vectors are as before, all keys up, the controllers at vectors 32 and 40 with every line
  unmasked, interrupts on, 128 bytes taken from the heap, one pixel set on the cleared graphics screen, and
  exactly its messages printed on the text screen from the cursor on.
\<close>

theorem kc_main_setup_correct:
  assumes "crtc_device dev" and "cursor_pos (ports s) < 2000"
    and "length (kc_idt s) = 256" and "length (key_buffer s) = 256"
  shows "\<exists>t. kc_main_setup dev idt_addr isr irq keyboard_isr s = Some t \<and>
    on_screen setup_text (grid_of s) t \<and> pixels (mem t) = (replicate 64000 1)[32160 := 15] \<and>
    kc_idtr t = \<lparr>reg_limit = 2047, reg_base = idt_addr\<rparr> \<and>
    map (kc_gate_of t) [0..<256] =
      map (\<lambda>n. if n = 33 then Some (keyboard_isr, 0x08, 0x8E)
        else if n < 32 then Some (isr n, 0x08, 0x8E)
        else if n < 48 then Some (irq (n - 32), 0x08, 0x8E) else kc_gate_of s n) [0..<256] \<and>
    key_buffer t = replicate 256 0 \<and>
    master (ports t) = \<lparr>icw = 0, vector_base = 32, imr = 0\<rparr> \<and>
    slave (ports t) = \<lparr>icw = 0, vector_base = 40, imr = 0\<rparr> \<and>
    kc_intr_flag t \<and> heap_current t = 0x100080"
proof -
  define s1 where "s1 = kc_isr_install idt_addr isr irq s"
  define s2 where "s2 = pic_init dev s1"
  define s3 where "s3 = keyboard_init dev keyboard_isr s2"
  define s4 where "s4 = vga_put_pixel 160 100 15 (vga_clear_screen 1 s3)"
  define s5 where "s5 = s4\<lparr>heap_end := 0x500000, heap_current := 0x100080, kc_intr_flag := True\<rparr>"
  note f1 = isr_install_frame [of idt_addr isr irq s, folded s1_def]
  have s1: "on_screen [] (grid_of s) s1" using assms(2) f1 on_screen_cong [of s1 s "[]" "grid_of s"] by (simp add: on_screen_def)
  note s2 = pic_init_state [OF assms(1) s1, folded s2_def]
  have l2: "length (kc_idt s2) = 256" "length (key_buffer s2) = 256" using s2 f1 assms by simp_all
  note s3 = keyboard_init_state [OF assms(1) s2(1) l2, where h = keyboard_isr, folded s3_def]
  note i = kc_isr_install_correct [OF assms(3), of idt_addr isr irq, folded s1_def]
  have m4: "mem s4 = (mem (vga_clear_screen 1 s3))(KC_VGA_MEMORY + of_nat 32160 := 15)"
    by (simp add: s4_def vga_put_pixel_def)
  have o4: "ports s4 = ports s3" "kc_idt s4 = kc_idt s3" "key_buffer s4 = key_buffer s3" "kc_idtr s4 = kc_idtr s3"
    by (simp_all add: s4_def vga_put_pixel_def vga_clear_screen_def for_up_keeps)
  have px: "pixels (mem s4) = (replicate 64000 1)[32160 := 15]"
    unfolding m4 by (rule pixels_dot [OF vga_clear_screen_fills]) simp
  have "unchanged_outside KC_VGA_MEMORY 64000 (mem s3) (mem s4)"
    using in_region_offset [of 32160 KC_VGA_MEMORY 64000]
    unfolding m4 vga_clear_screen_fills by (auto simp: unchanged_outside_def)
  then have s5: "on_screen (([] @ cstr ''PIC initialized'' @ [10]) @ cstr ''Keyboard initialized'' @ [10]) (grid_of s) s5"
    using s3(1) on_screen_cong [of s5 s3] cells_of_outside [of "mem s3" "mem s4"] o4 by (simp add: s5_def)
  define t where "t = kprint dev (cstr ''The loop is running. Press keys:'' @ [10])
    (kprint dev (10 # cstr ''Starting keyboard test...'' @ [10]) s5)"
  have fr: "machine.more t = machine.more s5" by (simp add: t_def kprint_def kprint_at_more)
  have g: "kc_gate_of t n = kc_gate_of s3 n" for n
    using more_fields(2) [OF fr] o4 by (simp add: kc_gate_of_def s5_def)
  have "cursor_pos (ports s5) < 2000" using s5 by (simp add: on_screen_def)
  then have "kprinted (([] @ 10 # cstr ''Starting keyboard test...'' @ [10]) @
      cstr ''The loop is running. Press keys:'' @ [10]) s5 t"
    unfolding t_def by (intro kprinted_kprint kprinted_refl assms(1))
  then have mt: "unchanged_outside VIDEO_ADDRESS 4000 (mem s4) (mem t)" by (simp add: kprinted_def s5_def)
  have "kc_main_setup dev idt_addr isr irq keyboard_isr s = Some t"
    by (simp add: kc_main_setup_def t_def s5_def s4_def s3_def s2_def s1_def Let_def kmalloc_def heap_init_def)
  moreover have "on_screen setup_text (grid_of s) t"
    unfolding setup_text_def t_def by (intro on_screen_kprint assms(1) s5)
  moreover have "pixels (mem t) = (replicate 64000 1)[32160 := 15]" using pixels_outside [OF mt] px by simp
  moreover have "master (ports t) = master (ports s3)" "slave (ports t) = slave (ports s3)"
    using o4 by (simp_all add: t_def kprint_pic s5_def)
  moreover have "kc_idtr t = \<lparr>reg_limit = 2047, reg_base = idt_addr\<rparr>"
    using i s2(6) s3(3) o4 more_fields [OF fr] by (simp add: s5_def)
  moreover have "kc_gate_of t n = (if n = 33 then Some (keyboard_isr, 0x08, 0x8E)
        else if n < 32 then Some (isr n, 0x08, 0x8E)
        else if n < 48 then Some (irq (n - 32), 0x08, 0x8E) else kc_gate_of s n)" if "n < 256" for n
  proof -
    have "kc_gate_of s2 n = kc_gate_of s1 n" using s2(5) by (simp add: kc_gate_of_def)
    moreover have "kc_gate_of s1 n = (if n < 32 then Some (isr n, 0x08, 0x8E)
        else if n < 48 then Some (irq (n - 32), 0x08, 0x8E) else kc_gate_of s n)"
      using i that by simp
    ultimately show ?thesis using s3(2) [OF that] g [of n] by simp
  qed
  ultimately show ?thesis using s3(4) more_fields [OF fr] o4 s3(5,6) s2(2,3) by (auto simp: s5_def)
qed

theorem kc_main_setup_correct_witness:
  "\<exists>t. kc_main_setup crtc_dev 0x3000 (\<lambda>n. 0x1000) (\<lambda>n. 0x2000) 0x4000 boot_kc = Some t \<and> kc_intr_flag t \<and>
     map (kc_gate_of t) [13, 33, 34] = [Some (0x1000, 0x08, 0x8E), Some (0x4000, 0x08, 0x8E), Some (0x2000, 0x08, 0x8E)]"
proof -
  have h: "cursor_pos (ports boot_kc) < 2000" "length (kc_idt boot_kc) = 256" "length (key_buffer boot_kc) = 256"
    by (simp_all add: boot_kc_def cursor_pos_def)
  obtain t where t: "kc_main_setup crtc_dev 0x3000 (\<lambda>n. 0x1000) (\<lambda>n. 0x2000) 0x4000 boot_kc = Some t" "kc_intr_flag t"
    "\<forall>n\<in>{0..<256}. kc_gate_of t n = (if n = 33 then Some (0x4000, 0x08, 0x8E)
        else if n < 32 then Some (0x1000, 0x08, 0x8E) else if n < 48 then Some (0x2000, 0x08, 0x8E) else kc_gate_of boot_kc n)"
    using kc_main_setup_correct [OF crtc_chip.crtc_device_axioms h, of "0x3000" "\<lambda>n. 0x1000" "\<lambda>n. 0x2000" "0x4000"]
    by auto
  then show ?thesis by simp
qed

end
