(* ===== verification/EFI_Memory.thy ===== *)
theory EFI_Memory
  imports Interfaces
begin

text \<open>
  Memory management of the UEFI program, \<^verbatim>\<open>src/efi-boot/memory.c\<close>: the search of the firmware's memory map
  for a region, the allocator on top of it and the copy of a pixel buffer. The program runs in 64-bit mode;
  all the memory it touches holds 32-bit pixels, so \<open>pix\<close> maps the addresses of 32-bit cells to their values.
  The memory map is the list of descriptors that the firmware returned.
\<close>

section \<open>Definitions\<close>

abbreviation EfiConventionalMemory :: u32 where "EfiConventionalMemory \<equiv> 7"

record efi_memory_descriptor_t =
  md_Type :: u32
  PhysicalStart :: u64
  NumberOfPages :: u64

record efi_mem_state = machine +
  pix :: "u64 \<Rightarrow> u32"
  next_addr_available :: u64

primrec find_region_loop :: "efi_memory_descriptor_t list \<Rightarrow> u64 \<Rightarrow> u64" where
  "find_region_loop [] pages_needed = 0"
| "find_region_loop (entry # rest) pages_needed =
     (if md_Type entry = EfiConventionalMemory then
        (if NumberOfPages entry \<ge> pages_needed then PhysicalStart entry
         else find_region_loop rest pages_needed)
      else find_region_loop rest pages_needed)"

definition find_region_for_malloc :: "efi_memory_descriptor_t list \<Rightarrow> int \<Rightarrow> u64 \<Rightarrow> u64" where
  "find_region_for_malloc memory_map how_many_entries pages_needed =
     find_region_loop (take (nat how_many_entries) memory_map) pages_needed"

definition my_malloc :: "int \<Rightarrow> efi_memory_descriptor_t list \<Rightarrow> int \<Rightarrow> 'a efi_mem_state_scheme \<Rightarrow>
    u64 \<times> 'a efi_mem_state_scheme" where
  "my_malloc size_in_bytes memory_map how_many_entries s =
     (let s = (if next_addr_available s = 0
               then (let pages = word_of_int (size_in_bytes sdiv 4096 + 1)
                     in s\<lparr>next_addr_available := find_region_for_malloc memory_map how_many_entries pages\<rparr>)
               else s);
          address = next_addr_available s
      in (address, s\<lparr>next_addr_available := next_addr_available s + word_of_int size_in_bytes\<rparr>))"

definition copy_memory :: "u64 \<Rightarrow> u64 \<Rightarrow> u32 \<Rightarrow> 'a efi_mem_state_scheme \<Rightarrow> 'a efi_mem_state_scheme" where
  "copy_memory destiny origem many_bytes s =
     (let many_pixels = many_bytes div 4
      in for_up (unat many_pixels) (\<lambda>i s. s\<lparr>pix := (pix s)(destiny + 4 * of_nat i := pix s (origem + 4 * of_nat i))\<rparr>) s)"

section \<open>Finding a region\<close>

definition usable :: "u64 \<Rightarrow> efi_memory_descriptor_t \<Rightarrow> bool" where
  "usable pages e \<longleftrightarrow> md_Type e = EfiConventionalMemory \<and> pages \<le> NumberOfPages e"

lemma find_region_first_usable:
  "find_region_loop es pages = (case List.find (usable pages) es of Some e \<Rightarrow> PhysicalStart e | None \<Rightarrow> 0)"
  by (induction es) (simp_all add: usable_def)

text \<open>
  The first allocation fits its region: when \<open>my_malloc\<close> is called for the first time and the memory map has
  a usable region, the block it returns is the start of the first usable one, which is conventional memory
  and has at least as many bytes as were asked for.
\<close>

theorem my_malloc_first_fits:
  assumes "next_addr_available s = 0" and "0 \<le> n" and "n < 2147483648"
    and "list_ex (usable (word_of_int (n sdiv 4096 + 1))) (take (nat k) memory_map)"
  shows "\<exists>e. e \<in> set (take (nat k) memory_map) \<and> md_Type e = EfiConventionalMemory \<and>
    fst (my_malloc n memory_map k s) = PhysicalStart e \<and> n < 4096 * int (unat (NumberOfPages e))"
proof -
  let ?p = "word_of_int (n sdiv 4096 + 1) :: u64" and ?es = "take (nat k) memory_map"
  have d: "n sdiv 4096 = n div 4096" using assms(2) by (cases "n = 0") (simp_all add: signed_divide_int_def)
  from assms(4) obtain e where e: "List.find (usable ?p) ?es = Some e"
    by (cases "List.find (usable ?p) ?es") (auto simp: find_None_iff list_ex_iff)
  then have in_es: "e \<in> set ?es" "usable ?p e" by (metis find_Some_iff nth_mem)+
  have "unat ?p = nat (n div 4096 + 1)"
  proof -
    have "n div 4096 + 1 < 2 ^ 64" "0 \<le> n div 4096 + 1" using assms(2,3) by simp_all
    then show ?thesis unfolding d by (intro unat_word_of_int_u64)
  qed
  then have "nat (n div 4096 + 1) \<le> unat (NumberOfPages e)" using in_es(2) by (simp add: usable_def word_le_nat_alt)
  then have "n div 4096 + 1 \<le> int (unat (NumberOfPages e))" using assms(2) by linarith
  then have "n < 4096 * int (unat (NumberOfPages e))" by linarith
  moreover have "fst (my_malloc n memory_map k s) = PhysicalStart e"
    using assms(1) e by (simp add: my_malloc_def find_region_for_malloc_def find_region_first_usable)
  ultimately show ?thesis using in_es by (auto simp: usable_def)
qed

definition small_map :: "efi_memory_descriptor_t list" where
  "small_map = [\<lparr>md_Type = 4, PhysicalStart = 0x1000, NumberOfPages = 50\<rparr>,
     \<lparr>md_Type = 7, PhysicalStart = 0x80000, NumberOfPages = 2\<rparr>]"

definition fresh_mem :: efi_mem_state where
  "fresh_mem = \<lparr>mem = (\<lambda>_. 0), ports = [], pix = (\<lambda>_. 0), next_addr_available = 0\<rparr>"

theorem my_malloc_first_fits_witness:
  "\<exists>e. e \<in> set small_map \<and> fst (my_malloc 4096 small_map 2 fresh_mem) = PhysicalStart e"
proof -
  have h: "next_addr_available fresh_mem = 0" "(0 :: int) \<le> 4096" "(4096 :: int) < 2147483648"
    "list_ex (usable (word_of_int (4096 sdiv 4096 + 1))) (take (nat 2) small_map)"
    by (simp_all add: fresh_mem_def small_map_def usable_def signed_divide_int_def)
  have "take (nat 2) small_map = small_map" by (simp add: small_map_def)
  with my_malloc_first_fits [OF h] show ?thesis by auto
qed

text \<open>
  Later allocations are never checked: once an address has been handed out, \<open>my_malloc\<close> does not look at the
  memory map, so with a region of two pages a second request of a mebibyte is answered with an address inside
  the region whose block ends far beyond it; and when the map has no usable region the first request is
  answered with address zero.
\<close>

theorem my_malloc_unchecked:
  "(next_addr_available s \<noteq> 0 \<longrightarrow> my_malloc n m1 k1 s = my_malloc n m2 k2 s) \<and>
   fst (my_malloc 1048576 small_map 2 (snd (my_malloc 4096 small_map 2 fresh_mem))) = 0x81000 \<and>
   fst (my_malloc n [] k fresh_mem) = 0"
  by (simp add: my_malloc_def find_region_for_malloc_def small_map_def fresh_mem_def signed_divide_int_def)

theorem my_malloc_unchecked_witness:
  "my_malloc 64 [] 0 (fresh_mem\<lparr>next_addr_available := 0x5000\<rparr>) =
   my_malloc 64 small_map 2 (fresh_mem\<lparr>next_addr_available := 0x5000\<rparr>)"
  using my_malloc_unchecked [of "fresh_mem\<lparr>next_addr_available := 0x5000\<rparr>" 64 "[]" 0 small_map 2]
  by (simp add: fresh_mem_def)

section \<open>Blocks and copies\<close>

text \<open>An allocation as the interface sees it: it is refused where the addresses would wrap around.\<close>

definition efi_alloc :: "efi_memory_descriptor_t list \<Rightarrow> int \<Rightarrow> int \<Rightarrow> 'a efi_mem_state_scheme \<Rightarrow>
    (nat \<times> 'a efi_mem_state_scheme) option" where
  "efi_alloc memory_map k n s =
     (let (a, t) = my_malloc n memory_map k s
      in if unat a + nat n < 2 ^ 64 then Some (unat a, t) else None)"

interpretation efi_heap: bump_allocator "efi_alloc memory_map k" nat "\<lambda>n. 0 < n"
  "\<lambda>s. next_addr_available s \<noteq> 0" "\<lambda>s. unat (next_addr_available s)" "\<lambda>s. 2 ^ 64" "\<lambda>p. True"
  for memory_map k
proof
  fix s t :: "'a efi_mem_state_scheme" and n :: int and p
  have b: "unat (x :: u64) < 2 ^ 64" for x using unsigned_less [of x] by simp
  then show "unat (next_addr_available s) \<le> 2 ^ 64" by (rule less_imp_le)
  assume inv: "next_addr_available s \<noteq> 0" and n: "0 < n" and al: "efi_alloc memory_map k n s = Some (p, t)"
  have p: "p = unat (next_addr_available s)" "unat (next_addr_available s) + nat n < 2 ^ 64"
    "next_addr_available t = next_addr_available s + word_of_int n"
    using al inv by (auto simp: efi_alloc_def my_malloc_def Let_def split: if_splits)
  have "unat (word_of_int n :: u64) = nat n"
  proof (rule unat_word_of_int_u64)
    have "nat n < 2 ^ 64" using p(2) by simp
    then show "n < 2 ^ 64" using n by (simp add: nat_less_iff)
  qed (use n in simp)
  then have "unat (next_addr_available t) = unat (next_addr_available s) + nat n"
    using p(2,3) by (simp add: unat_word_ariths)
  with n p show "next_addr_available t \<noteq> 0" "unat (next_addr_available s) \<le> p"
    "p + nat n \<le> unat (next_addr_available t)" by auto
qed simp_all

text \<open>
  Blocks never overlap: once an address is set, any sequence of allocations of positive size that does not
  run past the end of the address space yields disjoint blocks in rising order.
\<close>

theorem my_malloc_disjoint:
  assumes "next_addr_available s \<noteq> 0" and "list_all (\<lambda>n. 0 < n) sizes"
    and "alloc_all (efi_alloc memory_map k) nat sizes s = Some (bs, t)"
  shows "blocks_within (unat (next_addr_available s)) (unat (next_addr_available t)) bs \<and>
    map snd bs = map nat sizes"
  using efi_heap.alloc_all_blocks [OF assms(1) _ assms(3)] assms(2) by (simp add: list_all_iff)

theorem my_malloc_disjoint_witness:
  "\<exists>t. alloc_all (efi_alloc [] 0) nat [16, 64] (fresh_mem\<lparr>next_addr_available := 0x5000\<rparr>) =
      Some ([(0x5000, 16), (0x5010, 64)], t) \<and>
    blocks_within 0x5000 (unat (next_addr_available t)) [(0x5000, 16), (0x5010, 64)]"
proof -
  let ?s = "fresh_mem\<lparr>next_addr_available := 0x5000\<rparr>"
  obtain t where t: "alloc_all (efi_alloc [] 0) nat [16, 64] ?s = Some ([(0x5000, 16), (0x5010, 64)], t)"
    by (simp add: efi_alloc_def my_malloc_def fresh_mem_def)
  have h: "next_addr_available ?s \<noteq> 0" "list_all (\<lambda>n. 0 < n) [16, 64 :: int]" by (simp_all add: fresh_mem_def)
  from my_malloc_disjoint [OF h t] t show ?thesis by (auto simp: fresh_mem_def)
qed

text \<open>Cells of a pixel buffer, a buffer as a list, and what lies outside of it.\<close>

definition pixel_at :: "u64 \<Rightarrow> nat \<Rightarrow> u64" where
  "pixel_at p i = p + 4 * of_nat i"

definition pix_block :: "(u64 \<Rightarrow> u32) \<Rightarrow> u64 \<Rightarrow> nat \<Rightarrow> u32 list" where
  "pix_block m p n = map (\<lambda>i. m (pixel_at p i)) [0..<n]"

definition pix_frame :: "u64 \<Rightarrow> nat \<Rightarrow> (u64 \<Rightarrow> u32) \<Rightarrow> (u64 \<Rightarrow> u32) \<Rightarrow> bool" where
  "pix_frame p n m m' \<longleftrightarrow> (\<forall>a. a \<notin> pixel_at p ` {..<n} \<longrightarrow> m' a = m a)"

definition apart :: "u64 \<Rightarrow> u64 \<Rightarrow> nat \<Rightarrow> bool" where
  "apart p q n \<longleftrightarrow> pixel_at p ` {..<n} \<inter> pixel_at q ` {..<n} = {}"

lemma pixel_at_inject: "i < 2 ^ 60 \<Longrightarrow> j < 2 ^ 60 \<Longrightarrow> pixel_at p i = pixel_at p j \<longleftrightarrow> i = j"
proof -
  assume ij: "i < 2 ^ 60" "j < 2 ^ 60"
  have u: "unat (of_nat (4 * k) :: u64) = 4 * k" if "k < 2 ^ 60" for k
    unfolding unat_of_nat by (rule mod_less) (use that in simp)
  have "i = j" if "pixel_at p i = pixel_at p j"
  proof -
    from that have "(of_nat (4 * i) :: u64) = of_nat (4 * j)" by (simp add: pixel_at_def)
    then have "unat (of_nat (4 * i) :: u64) = unat (of_nat (4 * j) :: u64)" by (rule arg_cong)
    then have "4 * i = 4 * j" unfolding u [OF ij(1)] u [OF ij(2)] .
    then show ?thesis by simp
  qed
  then show ?thesis by blast
qed

lemma pix_frame_refl [simp]: "pix_frame p n m m"
  by (simp add: pix_frame_def)

lemma pix_frame_trans: "pix_frame p n m m' \<Longrightarrow> pix_frame p n m' m'' \<Longrightarrow> pix_frame p n m m''"
  by (simp add: pix_frame_def)

lemma pix_frame_upd: "i < n \<Longrightarrow> pix_frame p n m (m(pixel_at p i := v))"
  by (auto simp: pix_frame_def)

text \<open>
  \<open>copy_memory\<close> copies a frame: for buffers that do not overlap, each of the \<open>many_bytes / 4\<close> pixels of the
  destination becomes the pixel of the source, and no other memory changes.
\<close>

theorem copy_memory_copies:
  assumes "apart destiny origem (unat (many_bytes div 4))"
  shows "pix_block (pix (copy_memory destiny origem many_bytes s)) destiny (unat (many_bytes div 4)) =
      pix_block (pix s) origem (unat (many_bytes div 4)) \<and>
    pix_frame destiny (unat (many_bytes div 4)) (pix s) (pix (copy_memory destiny origem many_bytes s))"
proof -
  define n where "n = unat (many_bytes div 4)"
  have n: "n < 2 ^ 60"
    unfolding n_def by (rule order.strict_trans [OF unat_u32_less]) simp
  define body where "body i s = s\<lparr>pix := (pix s)(pixel_at destiny i := pix s (pixel_at origem i))\<rparr>"
    for i and s :: "'a efi_mem_state_scheme"
  define I where "I k t \<longleftrightarrow> (\<forall>i < n. pix t (pixel_at origem i) = pix s (pixel_at origem i)) \<and>
    (\<forall>i < k. pix t (pixel_at destiny i) = pix s (pixel_at origem i)) \<and> pix_frame destiny n (pix s) (pix t)"
    for k and t :: "'a efi_mem_state_scheme"
  have "I n (for_up n body s)"
  proof (rule for_up_invariant)
    show "I 0 s" by (simp add: I_def)
  next
    fix k t assume k: "k < n" and I: "I k t"
    have ne: "pixel_at origem i \<noteq> pixel_at destiny k" if "i < n" for i
      using assms k that unfolding apart_def n_def [symmetric] by auto
    have inj: "pixel_at destiny i = pixel_at destiny k \<longleftrightarrow> i = k" if "i < n" for i
      using that k n by (intro pixel_at_inject) simp_all
    from I k ne inj pix_frame_upd [OF k] show "I (Suc k) (body k t)"
      by (auto simp: I_def body_def less_Suc_eq intro: pix_frame_trans)
  qed
  moreover have "copy_memory destiny origem many_bytes s = for_up n body s"
    by (simp add: copy_memory_def n_def body_def [abs_def] pixel_at_def)
  ultimately show ?thesis by (simp add: I_def pix_block_def n_def [symmetric])
qed

theorem copy_memory_copies_witness:
  "apart 0x1000 0x2000 2 \<and>
   pix_block (pix (copy_memory 0x1000 0x2000 8 (fresh_mem\<lparr>pix := (\<lambda>a. 9)\<rparr>))) 0x1000 2 = [9, 9]"
proof -
  have e: "unat (8 div 4 :: u32) = 2" by code_simp
  have "{..<2 :: nat} = {0, 1}" by auto
  then have h: "apart 0x1000 0x2000 (unat (8 div 4 :: u32))" unfolding e by (simp add: apart_def pixel_at_def)
  show ?thesis using h copy_memory_copies [OF h, of "fresh_mem\<lparr>pix := (\<lambda>a. 9)\<rparr>"] unfolding e
    by (simp add: pix_block_def upt_rec)
qed

end
