(* ===== verification/EFI_Graphics.thy ===== *)
theory EFI_Graphics
  imports EFI_Memory
begin

text \<open>
  Drawing in the UEFI program, \<^verbatim>\<open>src/efi-boot/graphics.c\<close> and \<^verbatim>\<open>font.c\<close>. Every routine draws into the buffer that
  \<open>g_draw_target\<close> points to; its \<open>framebuffer\<close> argument is ignored by the code and left out here. The picture
  \<open>gimp_image\<close> is generated data that is not part of the sources and is a parameter; so is the library's
  \<open>printf\<close>, which \<open>draw_logo\<close> calls.

  \<open>canvas\<close> is the abstract picture in the draw target: the colour of each column and row. The theory gives the
  exact effect of each routine on it.
\<close>

section \<open>Definitions\<close>

record efi_gfx_state = efi_mem_state +
  g_framebuffer :: u64
  g_pixels_per_line :: u32
  g_draw_target :: u64

definition draw_pixel :: "int \<Rightarrow> int \<Rightarrow> u32 \<Rightarrow> u32 \<Rightarrow> 'a efi_gfx_state_scheme \<Rightarrow> 'a efi_gfx_state_scheme" where
  "draw_pixel x y pixels_per_line color s =
     s\<lparr>pix := (pix s)(g_draw_target s + 4 * ucast (word_of_int y * pixels_per_line) + 4 * word_of_int x := color)\<rparr>"

definition draw_box :: "int \<Rightarrow> int \<Rightarrow> int \<Rightarrow> u32 \<Rightarrow> u32 \<Rightarrow> 'a efi_gfx_state_scheme \<Rightarrow> 'a efi_gfx_state_scheme" where
  "draw_box x y sz pixels_per_line color s =
     for_up (nat sz) (\<lambda>b_y. for_up (nat sz) (\<lambda>b_x. draw_pixel (x + int b_x) (y + int b_y) pixels_per_line color)) s"

record gimp_picture =
  img_width :: u32
  img_height :: u32
  bytes_per_pixel :: u32
  pixel_data :: "u32 \<Rightarrow> u8"

definition gimp_color :: "gimp_picture \<Rightarrow> u32 \<Rightarrow> u32 \<Rightarrow> u32" where
  "gimp_color img x y =
     (let index = (y * img_width img + x) * bytes_per_pixel img;
          r = pixel_data img (index + 0);
          g = pixel_data img (index + 1);
          b = pixel_data img (index + 2)
      in push_bit 16 (ucast r) OR push_bit 8 (ucast g) OR ucast b)"

definition draw_gimp_image :: "gimp_picture \<Rightarrow> u32 \<Rightarrow> u32 \<Rightarrow> u32 \<Rightarrow> 'a efi_gfx_state_scheme \<Rightarrow> 'a efi_gfx_state_scheme" where
  "draw_gimp_image img screen_x screen_y pixels_per_line s =
     for_up (unat (img_height img)) (\<lambda>y. for_up (unat (img_width img)) (\<lambda>x s.
       let color = gimp_color img (of_nat x) (of_nat y);
           fb_x = screen_x + of_nat x;
           fb_y = screen_y + of_nat y
       in s\<lparr>pix := (pix s)(g_draw_target s + 4 * ucast (fb_y * pixels_per_line + fb_x) := color)\<rparr>)) s"

text \<open>The lines of the logo, with \<^verbatim>\<open>~\<close> for an apostrophe and \<^verbatim>\<open>#\<close> for a backslash.\<close>

definition logo_line :: "string \<Rightarrow> u8 list" where
  "logo_line l = map (\<lambda>c. if c = CHR ''~'' then 0x27 else if c = CHR ''#'' then 0x5C else of_char c) l"

definition logo :: "u8 list list" where
  "logo = map logo_line
    ['' >>========================================<< '',
     '' ||  .-~)      .-~) _               .-~)   || '',
     '' || ( OO ).   (  OO) )             ( OO ). || '',
     '' ||(_)---#_),(_)----. .-~),-----. (_)---#_)|| '',
     '' ||/    _ | |       |( OO~  .-.  ~/    _ | || '',
     '' ||#  :` `. ~--.   / /   |  | |  |#  :` `. || '',
     '' || ~..`~~.)(_/   /  #_) |  |#|  | ~..`~~.)|| '',
     '' ||.-._)   # /   /___  # |  | |  |.-._)   #|| '',
     '' ||#       /|        |  `~  ~-~  ~#       /|| '',
     '' || `-----~ `--------~    `-----~  `-----~ || '',
     '' >>========================================<< '']"

definition draw_logo :: "(u8 list \<Rightarrow> u8 list \<Rightarrow> 's \<Rightarrow> 's) \<Rightarrow> 's \<Rightarrow> 's" where
  "draw_logo printf s = fold (\<lambda>line. printf (cstr ''%s'' @ [10]) line) logo s"

definition font_digits :: "u8 list list" where
  "font_digits =
    [[0x7C,0xC6,0xCE,0xDE,0xF6,0xE6,0xC6,0x7C],
     [0x18,0x38,0x78,0x18,0x18,0x18,0x18,0x7E],
     [0x7C,0xC6,0x06,0x0C,0x18,0x30,0x60,0xFE],
     [0x7C,0xC6,0x06,0x3C,0x06,0x06,0xC6,0x7C],
     [0x0C,0x1C,0x3C,0x6C,0xCC,0xFE,0x0C,0x0C],
     [0xFE,0xC0,0xC0,0xFC,0x06,0x06,0xC6,0x7C],
     [0x3C,0x60,0xC0,0xFC,0xC6,0xC6,0xC6,0x7C],
     [0xFE,0xC6,0x0C,0x18,0x30,0x30,0x30,0x30],
     [0x7C,0xC6,0xC6,0x7C,0xC6,0xC6,0xC6,0x7C],
     [0x7C,0xC6,0xC6,0x7E,0x06,0x06,0x0C,0x78]]"

definition draw_char :: "u8 \<Rightarrow> int \<Rightarrow> int \<Rightarrow> u32 \<Rightarrow> 'a efi_gfx_state_scheme \<Rightarrow> 'a efi_gfx_state_scheme" where
  "draw_char c x y color s =
     (if c < 48 \<or> c > 57 then s
      else let rows = font_digits ! unat (c - 48)
           in for_up 8 (\<lambda>row. let bits = rows ! row
                in for_up 8 (\<lambda>col s. if bits AND drop_bit col 0x80 \<noteq> 0
                     then draw_pixel (x + int col) (y + int row) (g_pixels_per_line s) color s else s)) s)"

primrec draw_string_loop :: "u8 list \<Rightarrow> int \<Rightarrow> int \<Rightarrow> u32 \<Rightarrow> 'a efi_gfx_state_scheme \<Rightarrow> 'a efi_gfx_state_scheme" where
  "draw_string_loop [] cursor_x y color s = s"
| "draw_string_loop (c # cs) cursor_x y color s =
     draw_string_loop cs (cursor_x + 9) y color (draw_char c cursor_x y color s)"

definition draw_string :: "u8 list \<Rightarrow> int \<Rightarrow> int \<Rightarrow> u32 \<Rightarrow> 'a efi_gfx_state_scheme \<Rightarrow> 'a efi_gfx_state_scheme" where
  "draw_string txt x y color s = draw_string_loop txt x y color s"

text \<open>The loop that fills \<open>digits[]\<close>, with \<open>digits[0]\<close> first.\<close>

function number_loop :: "u32 \<Rightarrow> u8 list \<Rightarrow> u8 list" where
  "number_loop value digits =
     (if value > 0 then number_loop (value div 10) (digits @ [48 + ucast (value mod 10)]) else digits)"
  by pat_completeness auto
termination
  by (relation "measure (\<lambda>(value, digits). unat value)") (auto simp: word_less_nat_alt unat_div_distrib)

declare number_loop.simps [simp del]

definition draw_number :: "u32 \<Rightarrow> int \<Rightarrow> int \<Rightarrow> u32 \<Rightarrow> 'a efi_gfx_state_scheme \<Rightarrow> 'a efi_gfx_state_scheme" where
  "draw_number value x y color s =
     (let digits = (if value = 0 then [48] else number_loop value []);
          count = length digits
      in snd (for_down count (\<lambda>i (cursor_x, s). (cursor_x + 9, draw_char (digits ! i) cursor_x y color s)) (x, s)))"

section \<open>The picture in the draw target\<close>

abbreviation ppl :: "'a efi_gfx_state_scheme \<Rightarrow> nat" where "ppl s \<equiv> unat (g_pixels_per_line s)"

definition canvas :: "nat \<Rightarrow> 'a efi_gfx_state_scheme \<Rightarrow> nat \<times> nat \<Rightarrow> u32" where
  "canvas h s = (\<lambda>(cx, cy). if cx < ppl s \<and> cy < h then pix s (pixel_at (g_draw_target s) (cy * ppl s + cx)) else 0)"

text \<open>A screen of \<open>h\<close> lines whose pixel numbers fit a signed 32-bit integer.\<close>

definition fits :: "nat \<Rightarrow> 'a efi_gfx_state_scheme \<Rightarrow> bool" where
  "fits h s \<longleftrightarrow> ppl s * h < 2147483648"

definition plot :: "nat \<Rightarrow> nat \<Rightarrow> u32 \<Rightarrow> 'a efi_gfx_state_scheme \<Rightarrow> 'a efi_gfx_state_scheme" where
  "plot x y c s = s\<lparr>pix := (pix s)(pixel_at (g_draw_target s) (y * ppl s + x) := c)\<rparr>"

text \<open>What drawing on the screen keeps: everything but the pixels of the draw target.\<close>

definition drew :: "nat \<Rightarrow> 'a efi_gfx_state_scheme \<Rightarrow> 'a efi_gfx_state_scheme \<Rightarrow> bool" where
  "drew h s t \<longleftrightarrow> pix_frame (g_draw_target s) (ppl s * h) (pix s) (pix t) \<and> t = s\<lparr>pix := pix t\<rparr>"

lemma drew_refl [simp]: "drew h s s"
  by (simp add: drew_def)

lemma drew_fields:
  assumes "drew h s t"
  shows "g_draw_target t = g_draw_target s" "g_pixels_per_line t = g_pixels_per_line s" "fits h t = fits h s"
proof -
  have t: "t = s\<lparr>pix := pix t\<rparr>" using assms by (simp add: drew_def)
  show "g_draw_target t = g_draw_target s" "g_pixels_per_line t = g_pixels_per_line s"
    by (subst t, simp)+
  then show "fits h t = fits h s" by (simp add: fits_def)
qed

lemma drew_trans: "drew h s t \<Longrightarrow> drew h t u \<Longrightarrow> drew h s u"
proof -
  assume st: "drew h s t" and tu: "drew h t u"
  then have "u = t\<lparr>pix := pix u\<rparr>" "t = s\<lparr>pix := pix t\<rparr>" by (simp_all add: drew_def)
  then have "u = s\<lparr>pix := pix u\<rparr>" by (metis efi_mem_state.update_convs(1) efi_mem_state.cases_scheme efi_gfx_state.cases_scheme)
  with st tu drew_fields [OF st] show ?thesis by (auto simp: drew_def intro: pix_frame_trans)
qed

lemma cell_bound: "cx < w \<Longrightarrow> cy < h \<Longrightarrow> cy * w + cx < w * (h :: nat)"
proof -
  assume "cx < w" "cy < h"
  then have "cy * w + cx < Suc cy * w" by simp
  also have "\<dots> \<le> h * w" using \<open>cy < h\<close> by (intro mult_le_mono1) simp
  finally show ?thesis by (simp add: mult.commute)
qed

lemma cell_inject: "cx < w \<Longrightarrow> x < w \<Longrightarrow> cy * w + cx = y * w + x \<longleftrightarrow> cx = x \<and> cy = (y :: nat)"
proof
  assume w: "cx < w" "x < w" and eq: "cy * w + cx = y * w + x"
  have "(a * w + b) mod w = b \<and> (a * w + b) div w = a" if "b < w" for a b using that by simp
  with w eq show "cx = x \<and> cy = y" by metis
qed simp

lemma plot_canvas:
  assumes "fits h s" "x < ppl s" "y < h"
  shows "canvas h (plot x y c s) = (canvas h s)((x, y) := c)" "drew h s (plot x y c s)"
proof -
  have b: "j * ppl s + i < 2 ^ 60" if "i < ppl s" "j < h" for i j
  proof -
    have "j * ppl s + i < ppl s * h" by (rule cell_bound [OF that])
    also have "\<dots> < 2 ^ 60" using assms(1) by (simp add: fits_def)
    finally show ?thesis .
  qed
  have "pixel_at (g_draw_target s) (cy * ppl s + cx) = pixel_at (g_draw_target s) (y * ppl s + x) \<longleftrightarrow> cx = x \<and> cy = y"
    if "cx < ppl s" "cy < h" for cx cy
    using pixel_at_inject [OF b [OF that] b [OF assms(2,3)]] cell_inject [OF that(1) assms(2)] by blast
  then show "canvas h (plot x y c s) = (canvas h s)((x, y) := c)"
    using assms(2,3) by (auto simp: canvas_def plot_def fun_eq_iff)
  show "drew h s (plot x y c s)"
    unfolding drew_def plot_def using pix_frame_upd [OF cell_bound [OF assms(2,3)]] by simp
qed

text \<open>Pixels painted row by row.\<close>

definition paint :: "nat \<Rightarrow> nat \<Rightarrow> nat \<Rightarrow> nat \<Rightarrow> (nat \<Rightarrow> nat \<Rightarrow> u32 option) \<Rightarrow> 'a efi_gfx_state_scheme \<Rightarrow> 'a efi_gfx_state_scheme" where
  "paint x y w n f s = for_up n (\<lambda>j. for_up w (\<lambda>i s. case f i j of Some c \<Rightarrow> plot (x + i) (y + j) c s | None \<Rightarrow> s)) s"

definition painted :: "nat \<Rightarrow> nat \<Rightarrow> nat \<Rightarrow> nat \<Rightarrow> (nat \<Rightarrow> nat \<Rightarrow> u32 option) \<Rightarrow> (nat \<times> nat \<Rightarrow> u32) \<Rightarrow> nat \<times> nat \<Rightarrow> u32" where
  "painted x y w n f g = (\<lambda>(cx, cy).
     if x \<le> cx \<and> cx < x + w \<and> y \<le> cy \<and> cy < y + n
     then (case f (cx - x) (cy - y) of Some c \<Rightarrow> c | None \<Rightarrow> g (cx, cy)) else g (cx, cy))"

lemma paint_row:
  assumes "fits h s" "x + w \<le> ppl s" "y < h"
  shows "canvas h (for_up w (\<lambda>i s. case f i of Some c \<Rightarrow> plot (x + i) y c s | None \<Rightarrow> s) s) =
      painted x y w 1 (\<lambda>i j. f i) (canvas h s) \<and>
    drew h s (for_up w (\<lambda>i s. case f i of Some c \<Rightarrow> plot (x + i) y c s | None \<Rightarrow> s) s)"
  using assms(2)
proof (induction w)
  case 0
  show ?case by (auto simp: painted_def fun_eq_iff)
next
  case (Suc w)
  let ?t = "for_up w (\<lambda>i s. case f i of Some c \<Rightarrow> plot (x + i) y c s | None \<Rightarrow> s) s"
  from Suc have IH: "canvas h ?t = painted x y w 1 (\<lambda>i j. f i) (canvas h s)" "drew h s ?t" by simp_all
  note tf = drew_fields [OF IH(2)]
  show ?case
  proof (cases "f w")
    case None
    with IH show ?thesis by (auto simp: for_up_Suc painted_def fun_eq_iff less_Suc_eq split: option.splits)
  next
    case (Some c)
    have "fits h ?t" "x + w < ppl ?t" using assms(1) tf Suc.prems by simp_all
    note pc = plot_canvas [OF this assms(3), of c]
    with Some IH drew_trans [OF IH(2) pc(2)] show ?thesis
      by (auto simp: for_up_Suc painted_def fun_eq_iff less_Suc_eq split: option.splits)
  qed
qed

lemma paint_canvas:
  assumes "fits h s" "x + w \<le> ppl s" "y + n \<le> h"
  shows "canvas h (paint x y w n f s) = painted x y w n f (canvas h s) \<and> drew h s (paint x y w n f s)"
  using assms(3)
proof (induction n)
  case 0
  show ?case by (auto simp: paint_def painted_def fun_eq_iff)
next
  case (Suc n)
  let ?t = "paint x y w n f s"
  from Suc have IH: "canvas h ?t = painted x y w n f (canvas h s)" "drew h s ?t" by simp_all
  note tf = drew_fields [OF IH(2)]
  have "fits h ?t" "x + w \<le> ppl ?t" "y + n < h" using assms(1,2) tf Suc.prems by simp_all
  note row = paint_row [OF this, of "\<lambda>i. f i n"]
  have step: "paint x y w (Suc n) f s = for_up w (\<lambda>i s. case f i n of Some c \<Rightarrow> plot (x + i) (y + n) c s | None \<Rightarrow> s) ?t"
    by (simp add: paint_def for_up_Suc)
  have "painted x (y + n) w 1 (\<lambda>i j. f i n) (painted x y w n f (canvas h s)) = painted x y w (Suc n) f (canvas h s)"
  proof
    fix p :: "nat \<times> nat"
    obtain cx cy where p: "p = (cx, cy)" by (cases p)
    show "painted x (y + n) w 1 (\<lambda>i j. f i n) (painted x y w n f (canvas h s)) p = painted x y w (Suc n) f (canvas h s) p"
    proof (cases "cy = y + n")
      case True
      then show ?thesis by (cases "f (cx - x) n") (simp_all add: painted_def p)
    next
      case False
      then have "(y + n \<le> cy \<and> cy < y + n + 1) = False" "cy < y + Suc n \<longleftrightarrow> cy < y + n" by auto
      then show ?thesis by (simp add: painted_def p)
    qed
  qed
  then show ?case unfolding step using row drew_trans [OF IH(2)] by (simp add: IH(1))
qed

lemma ucast_of_nat_u32: "k < 4294967296 \<Longrightarrow> (ucast (of_nat k :: u32) :: u64) = of_nat k"
proof -
  assume "k < 4294967296"
  then have "unat (of_nat k :: u32) = k" by simp
  then show ?thesis by (metis of_nat_unat)
qed

lemma draw_pixel_plot:
  assumes "fits h s" "x < ppl s" "y < h"
  shows "draw_pixel (int x) (int y) (g_pixels_per_line s) c s = plot x y c s"
proof -
  have "y * ppl s + x < ppl s * h" by (rule cell_bound [OF assms(2,3)])
  then have b: "y * ppl s < 4294967296" using assms(1) by (simp add: fits_def)
  have "(of_nat y * g_pixels_per_line s :: u32) = of_nat (y * ppl s)" by simp
  then have "(ucast (word_of_int (int y) * g_pixels_per_line s) :: u64) = of_nat (y * ppl s)"
    using ucast_of_nat_u32 [OF b] by simp
  then show ?thesis by (simp add: draw_pixel_def plot_def pixel_at_def algebra_simps)
qed

text \<open>A double loop whose body plots a pixel or leaves the picture alone is a painting.\<close>

lemma nested_paint:
  assumes "fits h s" "x + w \<le> ppl s" "y + n \<le> h"
    and body: "\<And>i j u. i < w \<Longrightarrow> j < n \<Longrightarrow> drew h s u \<Longrightarrow>
      body j i u = (case f i j of Some c \<Rightarrow> plot (x + i) (y + j) c u | None \<Rightarrow> u)"
  shows "for_up n (\<lambda>j. for_up w (body j)) s = paint x y w n f s"
proof -
  have "k \<le> n \<Longrightarrow> for_up k (\<lambda>j. for_up w (body j)) s = paint x y w k f s" for k
  proof (induction k)
    case 0
    show ?case by (simp add: paint_def)
  next
    case (Suc k)
    let ?t = "paint x y w k f s"
    have t: "drew h s ?t" using paint_canvas [OF assms(1,2), of y k f] assms(3) Suc.prems by simp
    note tf = drew_fields [OF t]
    have ft: "fits h ?t" "y + k < h" using tf assms Suc.prems by simp_all
    have "m \<le> w \<Longrightarrow> for_up m (body k) ?t =
        for_up m (\<lambda>i s. case f i k of Some c \<Rightarrow> plot (x + i) (y + k) c s | None \<Rightarrow> s) ?t" for m
    proof (induction m)
      case (Suc m)
      have "x + m \<le> ppl ?t" using assms(2) tf Suc.prems by simp
      from paint_row [OF ft(1) this ft(2), of "\<lambda>i. f i k"]
      have "drew h s (for_up m (\<lambda>i s. case f i k of Some c \<Rightarrow> plot (x + i) (y + k) c s | None \<Rightarrow> s) ?t)"
        using drew_trans [OF t] by blast
      with Suc body [of m k] \<open>Suc k \<le> n\<close> show ?case by (simp add: for_up_Suc)
    qed simp
    from this [of w] Suc show ?case by (simp add: for_up_Suc paint_def)
  qed
  from this [of n] show ?thesis by simp
qed

lemma drew_pixel:
  assumes "fits h s" "drew h s u" "x < ppl s" "y < h"
  shows "draw_pixel (int x) (int y) (g_pixels_per_line s) c u = plot x y c u"
  using draw_pixel_plot [of h u x y c] drew_fields [OF assms(2)] assms by simp

lemma draw_box_paint:
  assumes "fits h s" "x + n \<le> ppl s" "y + n \<le> h"
  shows "draw_box (int x) (int y) (int n) (g_pixels_per_line s) c s = paint x y n n (\<lambda>i j. Some c) s"
proof -
  have "draw_pixel (int x + int i) (int y + int j) (g_pixels_per_line s) c u = plot (x + i) (y + j) c u"
    if "i < n" "j < n" "drew h s u" for i j u
    using drew_pixel [OF assms(1) that(3), of "x + i" "y + j" c] that assms by simp
  then show ?thesis
    using nested_paint [OF assms, of "\<lambda>b_y b_x. draw_pixel (int x + int b_x) (int y + int b_y) (g_pixels_per_line s) c"
        "\<lambda>i j. Some c"]
    by (simp add: draw_box_def)
qed

text \<open>
  \<open>draw_box\<close> draws exactly its box: a box that lies on the screen changes the picture in the draw target to
  the box's colour in its rows and columns and nowhere else, and changes nothing outside that picture.
\<close>

theorem draw_box_exact:
  assumes "fits h s" and "x + n \<le> ppl s" and "y + n \<le> h"
  shows "canvas h (draw_box (int x) (int y) (int n) (g_pixels_per_line s) c s) =
      (\<lambda>(cx, cy). if x \<le> cx \<and> cx < x + n \<and> y \<le> cy \<and> cy < y + n then c else canvas h s (cx, cy)) \<and>
    drew h s (draw_box (int x) (int y) (int n) (g_pixels_per_line s) c s)"
  using paint_canvas [OF assms, of "\<lambda>i j. Some c"] unfolding draw_box_paint [OF assms]
  by (auto simp: painted_def)

definition fresh_gfx :: efi_gfx_state where
  "fresh_gfx = \<lparr>mem = (\<lambda>_. 0), ports = [], pix = (\<lambda>_. 0), next_addr_available = 0,
     g_framebuffer = 0x80000000, g_pixels_per_line = 1024, g_draw_target = 0x100000\<rparr>"

theorem draw_box_exact_witness:
  "fits 768 fresh_gfx \<and> canvas 768 (draw_box 100 100 60 1024 5 fresh_gfx) (159, 100) = 5"
proof -
  have h: "fits 768 fresh_gfx" "100 + 60 \<le> ppl fresh_gfx" "100 + 60 \<le> (768 :: nat)"
    by (simp_all add: fits_def fresh_gfx_def)
  show ?thesis using h draw_box_exact [OF h, of 5] by (simp add: fresh_gfx_def)
qed

text \<open>
  \<open>draw_gimp_image\<close> draws the picture exactly: when it lies on the screen, column \<open>i\<close> and row \<open>j\<close> of the image
  appear at \<open>screen_x + i\<close> and \<open>screen_y + j\<close> in the draw target, in the colour of its three bytes, and nothing
  else changes.
\<close>

theorem draw_gimp_image_exact:
  assumes "fits h s" and "unat sx + unat (img_width img) \<le> ppl s" and "unat sy + unat (img_height img) \<le> h"
  shows "canvas h (draw_gimp_image img sx sy (g_pixels_per_line s) s) =
      painted (unat sx) (unat sy) (unat (img_width img)) (unat (img_height img))
        (\<lambda>i j. Some (gimp_color img (of_nat i) (of_nat j))) (canvas h s) \<and>
    drew h s (draw_gimp_image img sx sy (g_pixels_per_line s) s)"
proof -
  let ?w = "unat (img_width img)" and ?n = "unat (img_height img)"
  define body where "body j i u = (let color = gimp_color img (of_nat i) (of_nat j);
           fb_x = sx + of_nat i; fb_y = sy + of_nat j
       in u\<lparr>pix := (pix u)(g_draw_target u + 4 * ucast (fb_y * g_pixels_per_line s + fb_x) := color)\<rparr>)"
    for j i and u :: "'a efi_gfx_state_scheme"
  have "body j i u = plot (unat sx + i) (unat sy + j) (gimp_color img (of_nat i) (of_nat j)) u"
    if "i < ?w" "j < ?n" "drew h s u" for i j u
  proof -
    let ?k = "(unat sy + j) * ppl s + (unat sx + i)"
    have "unat sx + i < ppl s" "unat sy + j < h" using that assms by simp_all
    then have "?k < ppl s * h" by (rule cell_bound)
    then have k: "?k < 4294967296" using assms(1) by (simp add: fits_def)
    have "(sy + of_nat j) * g_pixels_per_line s + (sx + of_nat i) = (of_nat ?k :: u32)" by simp
    then have "(ucast ((sy + of_nat j) * g_pixels_per_line s + (sx + of_nat i)) :: u64) = of_nat ?k"
      using ucast_of_nat_u32 [OF k] by simp
    then show ?thesis using drew_fields [OF that(3)] by (simp add: body_def plot_def pixel_at_def)
  qed
  then have "for_up ?n (\<lambda>j. for_up ?w (body j)) s =
      paint (unat sx) (unat sy) ?w ?n (\<lambda>i j. Some (gimp_color img (of_nat i) (of_nat j))) s"
    by (intro nested_paint [OF assms]) simp
  moreover have "draw_gimp_image img sx sy (g_pixels_per_line s) s = for_up ?n (\<lambda>j. for_up ?w (body j)) s"
    by (simp add: draw_gimp_image_def body_def [abs_def])
  ultimately show ?thesis using paint_canvas [OF assms] by simp
qed

theorem draw_gimp_image_exact_witness:
  "canvas 768 (draw_gimp_image \<lparr>img_width = 2, img_height = 1, bytes_per_pixel = 3, pixel_data = (\<lambda>i. ucast i)\<rparr>
     40 50 1024 fresh_gfx) (41, 50) = 0x030405"
proof -
  let ?img = "\<lparr>img_width = 2, img_height = 1, bytes_per_pixel = 3, pixel_data = (\<lambda>i. ucast i)\<rparr>"
  have h: "fits 768 fresh_gfx" "unat (40 :: u32) + unat (img_width ?img) \<le> ppl fresh_gfx" "unat (50 :: u32) + unat (img_height ?img) \<le> 768"
    by (simp_all add: fits_def fresh_gfx_def)
  show ?thesis using draw_gimp_image_exact [OF h] by (simp add: fresh_gfx_def painted_def gimp_color_def)
qed

section \<open>Digits and numbers\<close>

text \<open>The pixels of a glyph: those of the digit's bitmap, none for any other character.\<close>

definition glyph :: "u8 \<Rightarrow> u32 \<Rightarrow> nat \<Rightarrow> nat \<Rightarrow> u32 option" where
  "glyph c color col row =
     (if 48 \<le> c \<and> c \<le> 57 \<and> bit (font_digits ! unat (c - 48) ! row) (7 - col) then Some color else None)"

lemma high_bit_shift: "col < 8 \<Longrightarrow> bits AND drop_bit col 0x80 \<noteq> 0 \<longleftrightarrow> bit (bits :: u8) (7 - col)"
proof -
  assume col: "col < 8"
  have "drop_bit col (0x80 :: u8) = 2 ^ (7 - col)"
  proof -
    have "col \<in> {0..<8}" using col by simp
    also have "{0..<8 :: nat} = {0, 1, 2, 3, 4, 5, 6, 7}" by code_simp
    finally show ?thesis by auto
  qed
  then show ?thesis by (simp add: and_exp_eq_0_iff_not_bit)
qed

lemma draw_char_canvas:
  assumes "fits h s" "x + 8 \<le> ppl s" "y + 8 \<le> h"
  shows "canvas h (draw_char c (int x) (int y) color s) = painted x y 8 8 (glyph c color) (canvas h s) \<and>
    drew h s (draw_char c (int x) (int y) color s)"
proof (cases "c < 48 \<or> c > 57")
  case True
  then have "glyph c color i j = None" for i j by (auto simp: glyph_def)
  with True show ?thesis by (auto simp: draw_char_def painted_def fun_eq_iff)
next
  case False
  let ?rows = "font_digits ! unat (c - 48)"
  let ?body = "\<lambda>row col s. if ?rows ! row AND drop_bit col 0x80 \<noteq> 0
      then draw_pixel (int x + int col) (int y + int row) (g_pixels_per_line s) color s else s"
  have "?body j i u = (case glyph c color i j of Some k \<Rightarrow> plot (x + i) (y + j) k u | None \<Rightarrow> u)"
    if "i < 8" "j < 8" "drew h s u" for i j u
  proof -
    have "draw_pixel (int x + int i) (int y + int j) (g_pixels_per_line u) color u = plot (x + i) (y + j) color u"
      using drew_pixel [OF assms(1) that(3), of "x + i" "y + j" color] that assms drew_fields [OF that(3)] by simp
    with False high_bit_shift [OF that(1), of "?rows ! j"] show ?thesis by (auto simp: glyph_def)
  qed
  then have "for_up 8 (\<lambda>j. for_up 8 (?body j)) s = paint x y 8 8 (glyph c color) s"
    by (rule nested_paint [OF assms])
  moreover have "draw_char c (int x) (int y) color s = for_up 8 (\<lambda>j. for_up 8 (?body j)) s"
    using False by (simp add: draw_char_def Let_def)
  ultimately show ?thesis using paint_canvas [OF assms] by simp
qed

text \<open>
  \<open>draw_char\<close> draws exactly the digit's bitmap: a pixel of the eight by eight cell gets the colour when its
  bit of the font is set (the most significant bit on the left) and keeps its value otherwise; a character
  that is not a digit draws nothing.
\<close>

theorem draw_char_exact:
  assumes "fits h s" and "x + 8 \<le> ppl s" and "y + 8 \<le> h"
  shows "canvas h (draw_char c (int x) (int y) color s) = painted x y 8 8 (glyph c color) (canvas h s) \<and>
    drew h s (draw_char c (int x) (int y) color s)"
  by (rule draw_char_canvas [OF assms])

theorem draw_char_exact_witness:
  "canvas 768 (draw_char 49 10 10 7 fresh_gfx) (13, 10) = 7 \<and> canvas 768 (draw_char 49 10 10 7 fresh_gfx) (12, 10) = 0"
proof -
  have h: "fits 768 fresh_gfx" "10 + 8 \<le> ppl fresh_gfx" "10 + 8 \<le> (768 :: nat)" by (simp_all add: fits_def fresh_gfx_def)
  show ?thesis using draw_char_exact [OF h, of 49 7]
    by (simp add: painted_def glyph_def font_digits_def canvas_def fresh_gfx_def)
qed

lemma number_loop_digits:
  "number_loop n acc = (if n = 0 then acc else acc @ rev (map digit_char (decimal (unat n))))"
proof (induction n acc rule: number_loop.induct)
  case (1 n acc)
  show ?case
  proof (cases "n = 0")
    case True
    then show ?thesis by (simp add: number_loop.simps)
  next
    case False
    then have pos: "n > 0" by (simp add: word_neq_0_conv)
    from 1 [OF pos] pos show ?thesis
      by (simp add: number_loop.simps [of n acc] u32_digit_step decimal.simps [of "unat n"])
  qed
qed

lemma draw_backwards:
  fixes s :: "'a efi_gfx_state_scheme"
  shows "snd (for_down (length ds) (\<lambda>i (cursor_x, s). (cursor_x + 9, draw_char (ds ! i) cursor_x y color s)) (x, s)) =
   draw_string_loop (rev ds) x y color s"
proof (induction ds arbitrary: x s rule: rev_induct)
  case (snoc d ds)
  have "for_down (length ds) (\<lambda>i (cursor_x, s). (cursor_x + 9, draw_char ((ds @ [d]) ! i) cursor_x y color s)) p =
      for_down (length ds) (\<lambda>i (cursor_x, s). (cursor_x + 9, draw_char (ds ! i) cursor_x y color s)) p"
    for p :: "int \<times> 'a efi_gfx_state_scheme"
    unfolding for_down_def by (rule fold_cong) (auto simp: nth_append)
  with snoc show ?case by (simp add: for_down_Suc)
qed simp

text \<open>
  \<open>draw_number\<close> draws the decimal numeral: it is \<open>draw_string\<close> of the number's decimal digits, most significant
  first, whose value in base ten is the number, and there are at most ten of them, so \<open>digits[10]\<close> never
  overflows.
\<close>

theorem draw_number_decimal:
  "draw_number value x y color s = draw_string (map digit_char (decimal (unat value))) x y color s \<and>
   numeral_value (decimal (unat value)) = unat value \<and> length (number_loop value []) \<le> 10"
proof -
  have "unat value < 10 ^ 10" by (rule order.strict_trans [OF unat_u32_less]) simp
  then have l: "length (decimal (unat value)) \<le> 10" by (intro decimal_length_le) auto
  have "(if value = 0 then [48] else number_loop value []) = rev (map digit_char (decimal (unat value)))"
    by (simp add: number_loop_digits decimal.simps [of 0] digit_char_def)
  then have "draw_number value x y color s = draw_string (map digit_char (decimal (unat value))) x y color s"
    by (simp only: draw_number_def Let_def draw_backwards draw_string_def rev_rev_ident)
  with l show ?thesis by (simp add: number_loop_digits)
qed

end
