(* ===== verification/EFI_Interrupts.thy ===== *)
theory EFI_Interrupts
  imports EFI_Graphics Pic
begin

text \<open>
  Interrupts of the UEFI program: the 64-bit descriptor table (\<^verbatim>\<open>src/efi-boot/idt.c\<close>), the interrupt controllers,
  the timer and the keyboard (\<^verbatim>\<open>pic_timer.c\<close>) and the PS/2 mouse (\<^verbatim>\<open>mouse.c\<close>). Port access (\<^verbatim>\<open>ports.c\<close>) is that of
  \<open>Port_IO\<close>. Loops that wait for the hardware may never end: they are partial functions, and the wait for
  timer ticks takes the number of ticks that arrive before each poll.
\<close>

section \<open>Definitions\<close>

record idt_entry_t =
  addr_low :: u16
  entry_sel :: u16
  ist :: u8
  entry_flags :: u8
  addr_mid :: u16
  addr_high :: u32
  reserved :: u32

record idt_pointer_t =
  ptr_limit :: u16
  ptr_base :: u64

record efi_state = efi_gfx_state +
  efi_idt :: "idt_entry_t list"
  efi_idtr :: idt_pointer_t
  g_ticks :: u64
  g_last_key :: int
  g_mouse_x :: int
  g_mouse_y :: int
  byte_index :: nat  \<comment> \<open>static variables of \<open>handler_mouse\<close>\<close>
  packet :: "int list"
  efi_intr_flag :: bool

definition empty_entry :: idt_entry_t where
  "empty_entry = \<lparr>addr_low = 0, entry_sel = 0, ist = 0, entry_flags = 0, addr_mid = 0, addr_high = 0, reserved = 0\<rparr>"

definition configure_entry_empty :: "int \<Rightarrow> 'a efi_state_scheme \<Rightarrow> 'a efi_state_scheme" where
  "configure_entry_empty number s = s\<lparr>efi_idt := (efi_idt s)[nat number := empty_entry]\<rparr>"

text \<open>\<open>cs\<close> is the value of the code segment register that \<open>read_current_cs\<close> reads.\<close>

definition configure_entry_real :: "u16 \<Rightarrow> int \<Rightarrow> u64 \<Rightarrow> 'a efi_state_scheme \<Rightarrow> 'a efi_state_scheme" where
  "configure_entry_real cs number address s =
     s\<lparr>efi_idt := (efi_idt s)[nat number :=
        \<lparr>addr_low = ucast (address AND 0xFFFF), entry_sel = cs, ist = 0, entry_flags = 0x8E,
         addr_mid = ucast (drop_bit 16 address AND 0xFFFF),
         addr_high = ucast (drop_bit 32 address AND 0xFFFFFFFF), reserved = 0\<rparr>]\<rparr>"

definition initiate_idt :: "u64 \<Rightarrow> 'a efi_state_scheme \<Rightarrow> 'a efi_state_scheme" where
  "initiate_idt idt_addr s =
     (let s = for_up 256 (\<lambda>i. configure_entry_empty (int i)) s;
          ptr = \<lparr>ptr_limit = of_nat (16 * 256 - 1), ptr_base = idt_addr\<rparr>
      in s\<lparr>efi_idtr := ptr\<rparr>)"

abbreviation PIC1_MASK_DEFAULT :: u8 where "PIC1_MASK_DEFAULT \<equiv> 0xF8"
abbreviation PIC2_MASK_DEFAULT :: u8 where "PIC2_MASK_DEFAULT \<equiv> 0xEF"

definition remap_pic :: "'a machine_scheme \<Rightarrow> 'a machine_scheme" where
  "remap_pic s =
     steps [outb PIC1_COMMAND 0x11, outb PIC2_COMMAND 0x11,
            outb PIC1_DATA 32, outb PIC2_DATA 40,
            outb PIC1_DATA 0x04, outb PIC2_DATA 0x02,
            outb PIC1_DATA 0x01, outb PIC2_DATA 0x01,
            outb PIC1_DATA PIC1_MASK_DEFAULT, outb PIC1_DATA PIC2_MASK_DEFAULT] s"

definition send_eoi :: "u8 \<Rightarrow> 'a machine_scheme \<Rightarrow> 'a machine_scheme" where
  "send_eoi irq s =
     (let s = (if irq \<ge> 8 then outb PIC2_COMMAND PIC_EOI s else s) in outb PIC1_COMMAND PIC_EOI s)"

abbreviation PIT_FREQUENCY_HZ :: u32 where "PIT_FREQUENCY_HZ \<equiv> 1193182"

text \<open>A frequency of zero divides by zero, which is \<^const>\<open>None\<close>.\<close>

definition program_pit :: "u32 \<Rightarrow> 'a machine_scheme \<Rightarrow> 'a machine_scheme option" where
  "program_pit freq_desired s =
     (if freq_desired = 0 then None
      else let d = PIT_FREQUENCY_HZ div freq_desired
           in Some (steps [outb 0x43 0x36, outb 0x40 (ucast (d AND 0xFF)), outb 0x40 (ucast (drop_bit 8 d AND 0xFF))] s))"

definition handler_time :: "'a efi_state_scheme \<Rightarrow> 'a efi_state_scheme" where
  "handler_time s = send_eoi 0 (s\<lparr>g_ticks := g_ticks s + 1\<rparr>)"

definition handler_keyboard :: "device \<Rightarrow> 'a efi_state_scheme \<Rightarrow> 'a efi_state_scheme" where
  "handler_keyboard dev s = (let (v, s) = inb dev 0x60 s in send_eoi 1 (s\<lparr>g_last_key := uint v\<rparr>))"

definition handler_interruption_test :: "'a efi_state_scheme \<Rightarrow> 'a efi_state_scheme" where
  "handler_interruption_test s = draw_pixel 930 0 (g_pixels_per_line s) 0x00FFFF00 s"

primrec delay_loop :: "u64 \<Rightarrow> u64 \<Rightarrow> nat list \<Rightarrow> 'a efi_state_scheme \<Rightarrow> 'a efi_state_scheme option" where
  "delay_loop ticks_initial ticks_for_wait [] s =
     (if g_ticks s - ticks_initial < ticks_for_wait then None else Some s)"
| "delay_loop ticks_initial ticks_for_wait (k # ks) s =
     (if g_ticks s - ticks_initial < ticks_for_wait
      then delay_loop ticks_initial ticks_for_wait ks ((handler_time ^^ k) s) else Some s)"

definition delay_real :: "u64 \<Rightarrow> nat list \<Rightarrow> 'a efi_state_scheme \<Rightarrow> 'a efi_state_scheme option" where
  "delay_real ticks_for_wait arrivals s = delay_loop (g_ticks s) ticks_for_wait arrivals s"

definition mouse_init_state :: "int \<Rightarrow> int \<Rightarrow> 'a efi_state_scheme \<Rightarrow> 'a efi_state_scheme" where
  "mouse_init_state start_x start_y s = s\<lparr>g_mouse_x := start_x, g_mouse_y := start_y\<rparr>"

text \<open>The body of \<open>handler_mouse\<close> after the byte was read.\<close>

definition mouse_byte :: "u8 \<Rightarrow> 'a efi_state_scheme \<Rightarrow> 'a efi_state_scheme" where
  "mouse_byte v s =
     (let s = s\<lparr>packet := (packet s)[byte_index s := uint v], byte_index := byte_index s + 1\<rparr>
      in if byte_index s = 3 then
           (let dx = sint (word_of_int (packet s ! 1) :: u8);
                dy = sint (word_of_int (packet s ! 2) :: u8);
                s = s\<lparr>g_mouse_x := s32 (g_mouse_x s + dx), g_mouse_y := s32 (g_mouse_y s - dy)\<rparr>;
                s = (if g_mouse_x s < 0 then s\<lparr>g_mouse_x := 0\<rparr> else s);
                s = (if g_mouse_y s < 0 then s\<lparr>g_mouse_y := 0\<rparr> else s)
            in s\<lparr>byte_index := 0\<rparr>)
         else s)"

definition handler_mouse :: "device \<Rightarrow> 'a efi_state_scheme \<Rightarrow> 'a efi_state_scheme" where
  "handler_mouse dev s = (let (v, s) = inb dev 0x60 s in send_eoi 12 (mouse_byte v s))"

partial_function (option) wait_input_buffer_clear :: "device \<Rightarrow> 'a machine_scheme \<Rightarrow> 'a machine_scheme option" where
  "wait_input_buffer_clear dev s =
     (let (v, s) = inb dev 0x64 s in if v AND 0x01 \<noteq> 0 then wait_input_buffer_clear dev s else Some s)"

partial_function (option) wait_input_buffer_full :: "device \<Rightarrow> 'a machine_scheme \<Rightarrow> 'a machine_scheme option" where
  "wait_input_buffer_full dev s =
     (let (v, s) = inb dev 0x64 s in if v AND 0x01 = 0 then wait_input_buffer_full dev s else Some s)"

definition ps2_write_command :: "device \<Rightarrow> u8 \<Rightarrow> 'a machine_scheme \<Rightarrow> 'a machine_scheme option" where
  "ps2_write_command dev byte s = map_option (outb 0x64 byte) (wait_input_buffer_clear dev s)"

definition ps2_write_data :: "device \<Rightarrow> u8 \<Rightarrow> 'a machine_scheme \<Rightarrow> 'a machine_scheme option" where
  "ps2_write_data dev byte s = map_option (outb 0x60 byte) (wait_input_buffer_clear dev s)"

definition read_data :: "device \<Rightarrow> 'a machine_scheme \<Rightarrow> (int \<times> 'a machine_scheme) option" where
  "read_data dev s = map_option (\<lambda>s. let (v, s) = inb dev 0x60 s in (uint v, s)) (wait_input_buffer_full dev s)"

text \<open>\<open>write_data\<close> is declared in \<^verbatim>\<open>mouse.h\<close> and defined nowhere: it is a parameter.\<close>

definition activate_mouse :: "device \<Rightarrow> (u8 \<Rightarrow> 'a machine_scheme \<Rightarrow> 'a machine_scheme option) \<Rightarrow>
    'a machine_scheme \<Rightarrow> 'a machine_scheme option" where
  "activate_mouse dev write_data s =
     Option.bind (ps2_write_command dev 0xA8 s) (\<lambda>s.
     Option.bind (ps2_write_command dev 0x20 s) (\<lambda>s.
     Option.bind (read_data dev s) (\<lambda>(config, s).
     let config = config OR 0x02; config = config AND NOT 0x20
     in Option.bind (ps2_write_command dev 0x60 s) (\<lambda>s.
        Option.bind (ps2_write_data dev (word_of_int config) s) (\<lambda>s.
        Option.bind (ps2_write_command dev 0xD4 s) (\<lambda>s.
        Option.bind (ps2_write_data dev 0xF6 s) (\<lambda>s.
        Option.bind (read_data dev s) (\<lambda>(_, s).
        Option.bind (ps2_write_command dev 0xD4 s) (\<lambda>s.
        Option.bind (write_data 0xF4 s) (\<lambda>s.
        map_option snd (read_data dev s)))))))))))"

section \<open>The descriptor table\<close>

definition efi_gate_of :: "'a efi_state_scheme \<Rightarrow> nat \<Rightarrow> (u64 \<times> u16 \<times> u8) option" where
  "efi_gate_of s n =
     (let e = efi_idt s ! n
      in if bit (entry_flags e) 7
         then Some (push_bit 32 (ucast (addr_high e)) OR push_bit 16 (ucast (addr_mid e)) OR ucast (addr_low e),
                    entry_sel e, entry_flags e)
         else None)"

lemma split_address64:
  "push_bit 32 (ucast (ucast (drop_bit 32 a AND 0xFFFFFFFF) :: u32)) OR
   push_bit 16 (ucast (ucast (drop_bit 16 a AND 0xFFFF) :: u16)) OR ucast (ucast (a AND 0xFFFF) :: u16) = (a :: u64)"
proof -
  have f: "x AND 0xFFFFFFFF = take_bit 32 (x :: u64)" for x by (simp add: take_bit_eq_mask mask_eq_exp_minus_1)
  show ?thesis unfolding and_FFFF f
  proof (rule bit_word_eqI)
    fix n assume "n < LENGTH(64)"
    moreover have "32 \<le> n \<Longrightarrow> 32 + (n - 32) = n" "16 \<le> n \<Longrightarrow> 16 + (n - 16) = n" by simp_all
    ultimately show "bit (push_bit 32 (ucast (ucast (take_bit 32 (drop_bit 32 a)) :: u32)) OR
        push_bit 16 (ucast (ucast (take_bit 16 (drop_bit 16 a)) :: u16)) OR ucast (ucast (take_bit 16 a) :: u16) :: u64) n = bit a n"
      by (cases "n < 16"; cases "n < 32") (auto simp: bit_simps)
  qed
qed

interpretation efi_table: gate_table "\<lambda>n. configure_entry_real cs (int n)" efi_gate_of "\<lambda>h. (h, cs, 0x8E)"
  "\<lambda>s. length (efi_idt s) = 256" for cs
proof
  fix s :: "'a efi_state_scheme" and n m :: nat and h :: u64
  assume wf: "length (efi_idt s) = 256" and n: "n < 256"
  then show "length (efi_idt (configure_entry_real cs (int n) h s)) = 256" by (simp add: configure_entry_real_def)
  assume m: "m < 256"
  show "efi_gate_of (configure_entry_real cs (int n) h s) m = (if m = n then Some (h, cs, 0x8E) else efi_gate_of s m)"
    using wf n m unfolding efi_gate_of_def configure_entry_real_def
    by (simp only: efi_state.simps Let_def nat_int nth_list_update) (simp add: split_address64)
qed

lemma configure_entry_real_fields [simp]:
  "ports (configure_entry_real cs n h s) = ports s" "efi_idtr (configure_entry_real cs n h s) = efi_idtr s"
  "length (efi_idt (configure_entry_real cs n h s)) = length (efi_idt s)"
  by (simp_all add: configure_entry_real_def)

lemma initiate_idt_empty:
  assumes "length (efi_idt s) = 256"
  shows "efi_idt (initiate_idt a s) = replicate 256 empty_entry" "efi_idtr (initiate_idt a s) = \<lparr>ptr_limit = 4095, ptr_base = a\<rparr>"
proof -
  have "n \<le> 256 \<Longrightarrow> efi_idt (for_up n (\<lambda>i. configure_entry_empty (int i)) s) =
      replicate n empty_entry @ drop n (efi_idt s)" for n
  proof (induction n)
    case (Suc n)
    then have "drop n (efi_idt s) = efi_idt s ! n # drop (Suc n) (efi_idt s)"
      using assms by (simp add: Cons_nth_drop_Suc)
    with Suc show ?case
      by (simp add: for_up_Suc configure_entry_empty_def list_update_append replicate_append_same)
  qed simp
  from this [of 256] assms show "efi_idt (initiate_idt a s) = replicate 256 empty_entry"
    by (simp add: initiate_idt_def Let_def)
  show "efi_idtr (initiate_idt a s) = \<lparr>ptr_limit = 4095, ptr_base = a\<rparr>" by (simp add: initiate_idt_def Let_def)
qed

section \<open>Controllers, timer and keyboard\<close>

lemma send_eoi_pic: "send_eoi irq s = pic_send_eoi irq s"
  by (simp add: send_eoi_def pic_send_eoi_def Let_def)

lemma remap_pic_chips:
  "master (ports (remap_pic s)) = \<lparr>icw = 0, vector_base = 32, imr = 0xEF\<rparr>"
  "slave (ports (remap_pic s)) = \<lparr>icw = 0, vector_base = 40, imr = 0\<rparr>"
  by (simp_all add: remap_pic_def chip_command_def chip_data_def)

text \<open>
  \<open>remap_pic\<close> sets both vector bases but masks the wrong lines: the mask meant for the slave overwrites the
  master's, so on the master only line 4 is unmasked (the timer on line 0, the keyboard on line 1 and the
  cascade on line 2 are all masked), and the slave's mask is left open.
\<close>

theorem remap_pic_masks:
  "pic_ready (remap_pic s) \<and> vector_base (master (ports (remap_pic s))) = 32 \<and>
   vector_base (slave (ports (remap_pic s))) = 40 \<and>
   filter (\<lambda>i. \<not> irq_masked (remap_pic s) (of_nat i)) [0..<16] = [4, 8, 9, 10, 11, 12, 13, 14, 15]"
  by (simp add: pic_ready_def irq_masked_def remap_pic_chips upt_rec)

text \<open>
  \<open>program_pit\<close> writes the rate generator command and then the low and the high byte of the divisor: the
  timer gets the frequency's exact divisor for every frequency of at least 19 Hz, the low sixteen bits of it
  below that, and a frequency of zero divides by zero.
\<close>

theorem program_pit_divisor:
  "if freq = 0 then program_pit freq s = None
   else \<exists>t lo hi. program_pit freq s = Some t \<and> writes_to 0x43 (ports t) = writes_to 0x43 (ports s) @ [0x36] \<and>
     writes_to 0x40 (ports t) = writes_to 0x40 (ports s) @ [lo, hi] \<and>
     unat lo + 256 * unat hi = 1193182 div unat freq mod 65536 \<and>
     (unat lo + 256 * unat hi = 1193182 div unat freq \<longleftrightarrow> 19 \<le> unat freq)"
proof (cases "freq = 0")
  case True
  then show ?thesis by (simp add: program_pit_def)
next
  case f: False
  define d where "d = PIT_FREQUENCY_HZ div freq"
  have ud: "unat d = 1193182 div unat freq" by (simp add: d_def unat_div_distrib)
  let ?lo = "ucast (d AND 0xFF) :: u8" and ?hi = "ucast (drop_bit 8 d AND 0xFF) :: u8"
  have "unat ?lo = unat d mod 256" "unat ?hi = unat d div 256 mod 256"
    unfolding and_FF by (simp_all add: unsigned_ucast_eq unsigned_take_bit_eq unat_drop_bit_eq take_bit_eq_mod drop_bit_eq_div
        unat_mod_distrib unat_div_distrib)
  then have sum: "unat ?lo + 256 * unat ?hi = unat d mod 65536"
    by (simp add: mod_mult2_eq [of "unat d" 256 256, simplified])
  have "unat freq \<noteq> 0" using f by (simp add: unat_eq_zero)
  then have "1193182 div unat freq < 65536 \<longleftrightarrow> 19 \<le> unat freq"
  proof -
    have "1193182 div unat freq < 65536 \<longleftrightarrow> 1193182 < 65536 * unat freq"
      using \<open>unat freq \<noteq> 0\<close> by (simp add: div_less_iff_less_mult)
    then show ?thesis by linarith
  qed
  moreover have "x mod 65536 = x \<longleftrightarrow> x < 65536" for x :: nat by (metis mod_less mod_less_divisor zero_less_numeral)
  ultimately have "unat ?lo + 256 * unat ?hi = 1193182 div unat freq \<longleftrightarrow> 19 \<le> unat freq"
    using sum ud by metis
  then show ?thesis using f sum ud by (simp add: program_pit_def d_def [symmetric] Let_def)
qed

lemma handler_time_ticks: "g_ticks ((handler_time ^^ k) s) = g_ticks s + of_nat k"
  by (induction k) (simp_all add: handler_time_def send_eoi_def outb_def Let_def)

lemma delay_loop_returns_iff:
  assumes "g_ticks s = t0 + of_nat a" "a + sum_list ks < 2 ^ 64"
  shows "delay_loop t0 w ks s \<noteq> None \<longleftrightarrow> unat w \<le> a + sum_list ks"
  using assms
proof (induction ks arbitrary: a s)
  case Nil
  then have "g_ticks s - t0 < w \<longleftrightarrow> a < unat w" by (simp add: word_less_nat_alt unat_of_nat)
  then show ?case by auto
next
  case (Cons k ks)
  then have c: "g_ticks s - t0 < w \<longleftrightarrow> a < unat w" by (simp add: word_less_nat_alt unat_of_nat)
  have "g_ticks ((handler_time ^^ k) s) = t0 + of_nat (a + k)" using Cons.prems by (simp add: handler_time_ticks)
  from Cons.IH [OF this] Cons.prems c show ?case by (auto simp: add.assoc)
qed

text \<open>
  C36. \<open>delay_real\<close> waits for the ticks asked for and no longer: it returns if and only if at least that many timer
  interrupts arrive, also when the tick counter wraps around in between.
\<close>

theorem delay_real_returns_iff:
  assumes "sum_list arrivals < 2 ^ 64"
  shows "delay_real ticks_for_wait arrivals s \<noteq> None \<longleftrightarrow> unat ticks_for_wait \<le> sum_list arrivals"
  using delay_loop_returns_iff [of s "g_ticks s" 0 arrivals ticks_for_wait] assms by (simp add: delay_real_def)

definition fresh_efi :: efi_state where
  "fresh_efi = \<lparr>mem = (\<lambda>_. 0), ports = [], pix = (\<lambda>_. 0), next_addr_available = 0,
     g_framebuffer = 0, g_pixels_per_line = 0, g_draw_target = 0,
     efi_idt = replicate 256 empty_entry, efi_idtr = \<lparr>ptr_limit = 0, ptr_base = 0\<rparr>,
     g_ticks = 0, g_last_key = 0, g_mouse_x = 0, g_mouse_y = 0, byte_index = 0, packet = [0, 0, 0],
     efi_intr_flag = False\<rparr>"

theorem delay_real_returns_iff_witness: "delay_real 10 [0, 3, 0, 7] fresh_efi \<noteq> None"
proof -
  have h: "sum_list [0, 3, 0, 7 :: nat] < 2 ^ 64" by simp
  show ?thesis unfolding delay_real_returns_iff [OF h] by simp
qed

section \<open>The mouse\<close>

definition mouse_move :: "u8 \<times> u8 \<times> u8 \<Rightarrow> int \<times> int \<Rightarrow> int \<times> int" where
  "mouse_move = (\<lambda>(b0, b1, b2) (x, y). (max 0 (s32 (x + sint b1)), max 0 (s32 (y - sint b2))))"

definition packet_bytes :: "u8 \<times> u8 \<times> u8 \<Rightarrow> u8 list" where
  "packet_bytes = (\<lambda>(b0, b1, b2). [b0, b1, b2])"

lemma mouse_packet:
  assumes "byte_index s = 0" "length (packet s) = 3"
  shows "(g_mouse_x (fold mouse_byte (packet_bytes p) s), g_mouse_y (fold mouse_byte (packet_bytes p) s)) =
      mouse_move p (g_mouse_x s, g_mouse_y s) \<and>
    byte_index (fold mouse_byte (packet_bytes p) s) = 0 \<and> length (packet (fold mouse_byte (packet_bytes p) s)) = 3"
proof -
  obtain b0 b1 b2 where p: "p = (b0, b1, b2)" by (cases p)
  obtain x0 x1 x2 where x: "packet s = [x0, x1, x2]"
    using assms(2) by (auto simp: numeral_3_eq_3 length_Suc_conv)
  show ?thesis
    using assms(1) by (simp add: p packet_bytes_def mouse_move_def mouse_byte_def x Let_def)
qed

text \<open>
  The mouse follows its packets: from a packet boundary, the bytes of any sequence of three-byte packets move
  the pointer by the signed differences of each packet (up is negative) and keep it from going left of or
  above the screen; afterwards the driver is at a packet boundary again.
\<close>

theorem mouse_tracks_packets:
  assumes "byte_index s = 0" and "length (packet s) = 3"
  shows "(g_mouse_x (fold mouse_byte (concat (map packet_bytes ps)) s),
      g_mouse_y (fold mouse_byte (concat (map packet_bytes ps)) s)) = fold mouse_move ps (g_mouse_x s, g_mouse_y s) \<and>
    byte_index (fold mouse_byte (concat (map packet_bytes ps)) s) = 0"
  using assms
proof (induction ps arbitrary: s)
  case (Cons p ps)
  let ?t = "fold mouse_byte (packet_bytes p) s"
  note t = mouse_packet [OF Cons.prems, of p]
  from Cons.IH [of ?t] t show ?case by simp
qed simp

theorem mouse_tracks_packets_witness:
  "g_mouse_x (fold mouse_byte [8, 5, 0xFF, 8, 0xFE, 0] fresh_efi) = 3"
proof -
  have h: "byte_index fresh_efi = 0" "length (packet fresh_efi) = 3" by (simp_all add: fresh_efi_def)
  have e: "concat (map packet_bytes [(8, 5, 0xFF), (8, 0xFE, 0)]) = [8, 5, 0xFF, 8, 0xFE, 0 :: u8]"
    by (simp add: packet_bytes_def)
  have g: "g_mouse_x fresh_efi = 0" "g_mouse_y fresh_efi = 0" by (simp_all add: fresh_efi_def)
  show ?thesis using mouse_tracks_packets [OF h, of "[(8, 5, 0xFF), (8, 0xFE, 0)]"] unfolding e g
    by (simp add: mouse_move_def)
qed

lemma mouse_byte_index:
  "byte_index s < 3 \<Longrightarrow> byte_index (mouse_byte v s) < 3"
  by (auto simp: mouse_byte_def Let_def)

section \<open>The PS/2 controller\<close>

lemma wait_clear_constant:
  assumes "\<And>h. dev h 0x64 = v"
  shows "wait_input_buffer_clear dev s =
    (if v AND 0x01 = 0 then Some (s\<lparr>ports := In 0x64 v # ports s\<rparr>) else None)"
proof (cases "v AND 0x01 = 0")
  case True
  then show ?thesis by (subst wait_input_buffer_clear.simps) (simp add: inb_def assms Let_def)
next
  case False
  have "v AND 0x01 = 0" if "wait_input_buffer_clear dev s = Some t" for t
  proof (rule wait_input_buffer_clear.raw_induct [where P = "\<lambda>dev' s t. dev' = dev \<longrightarrow> v AND 0x01 = 0", THEN mp, OF _ that refl])
    fix w and dev' :: device and s t :: "'a machine_scheme"
    assume IH: "\<And>dev' s t. w dev' s = Some t \<Longrightarrow> dev' = dev \<longrightarrow> v AND 0x01 = 0"
      and r: "(let (v, s) = inb dev' 0x64 s in if v AND 0x01 \<noteq> 0 then w dev' s else Some s) = Some t"
    show "dev' = dev \<longrightarrow> v AND 0x01 = 0"
      using r IH [of dev' "s\<lparr>ports := In 0x64 v # ports s\<rparr>" t] by (auto simp: inb_def assms Let_def split: if_splits)
  qed
  with False show ?thesis by (cases "wait_input_buffer_clear dev s") auto
qed

text \<open>
  Commands to the controller test the wrong status bit: with a controller whose status stays the same,
  \<open>ps2_write_command\<close> writes at once whenever the output-full bit is clear, also while the input buffer is still
  full (status 0x02), and waits for ever when a byte is waiting to be read (status 0x01).
\<close>

theorem ps2_write_command_waits:
  assumes "\<And>h. dev h 0x64 = v"
  shows "ps2_write_command dev b s =
    (if v AND 0x01 = 0 then Some (outb 0x64 b (s\<lparr>ports := In 0x64 v # ports s\<rparr>)) else None)"
  by (simp add: ps2_write_command_def wait_clear_constant [of dev v, OF assms])

theorem ps2_write_command_waits_witness:
  "ps2_write_command (\<lambda>_ _. 0x02) 0xA8 fresh_efi \<noteq> None \<and> ps2_write_command (\<lambda>_ _. 0x01) 0xA8 fresh_efi = None"
  using ps2_write_command_waits [of "\<lambda>_ _. 0x02" "0x02" "0xA8" fresh_efi]
    ps2_write_command_waits [of "\<lambda>_ _. 0x01" "0x01" "0xA8" fresh_efi] by simp

end
