(* ===== verification/EFI_Main.thy ===== *)
theory EFI_Main
  imports EFI_Interrupts
begin

text \<open>
  The UEFI program put together, \<^verbatim>\<open>src/efi-boot/main.c\<close>: the calls to the firmware with their error exits, the
  setup of memory, interrupts and drawing, and the rounds of the animation loop.

  The firmware is a parameter: \<open>firmware\<close> holds its answers to the calls that \<open>main\<close> makes. \<open>efi_boot\<close> is \<open>main\<close>
  up to \<open>ExitBootServices\<close>: an error is the message printed (none for the last one), with exit code 1. The
  timer interrupts that arrive while a round waits are a parameter of the round.
\<close>

section \<open>Definitions\<close>

record gop_mode =
  HorizontalResolution :: u32
  VerticalResolution :: u32
  PixelsPerScanLine :: u32
  FrameBufferBase :: u64

record firmware =
  locate_error :: bool
  located_gop :: "gop_mode option"
  malloc_null :: bool
  map_error :: bool
  the_map :: "efi_memory_descriptor_t list"
  map_size :: u64
  descriptor_size :: u64
  exit_error :: bool

definition efi_boot :: "firmware \<Rightarrow> u8 list + gop_mode \<times> int" where
  "efi_boot fw =
     (if locate_error fw then Inl (cstr ''GOP not available'' @ [10])
      else case located_gop fw of
        None \<Rightarrow> Inl (cstr ''GOP not available'' @ [10])
      | Some gop \<Rightarrow>
          if malloc_null fw then Inl (cstr ''malloc failed'' @ [10])
          else if map_error fw then Inl (cstr ''GetMemoryMap 2nd attempt failed'' @ [10])
          else let how_many_entries = s32 (uint (map_size fw div descriptor_size fw))
               in if exit_error fw then Inl [] else Inr (gop, how_many_entries))"

text \<open>The test of the allocator: the value written is read back and decides the colour of a box.\<close>

definition memory_test :: "efi_memory_descriptor_t list \<Rightarrow> int \<Rightarrow> u32 \<Rightarrow> 'a efi_state_scheme \<Rightarrow> 'a efi_state_scheme" where
  "memory_test memory_map how_many_entries pixels_per_line s =
     (let (pointer_test, s) = my_malloc 4096 memory_map how_many_entries s;
          s = s\<lparr>pix := (pix s)(pointer_test := 12345)\<rparr>;
          value_read = pix s pointer_test
      in if value_read = 12345 then draw_box 0 0 20 pixels_per_line 0x0000FF00 s
         else draw_box 0 0 20 pixels_per_line 0x00FF0000 s)"

text \<open>\<open>handlers\<close> are the addresses of the test, timer, keyboard and mouse handlers.\<close>

definition install_handlers :: "u64 \<Rightarrow> u16 \<Rightarrow> u64 \<times> u64 \<times> u64 \<times> u64 \<Rightarrow> 'a efi_state_scheme \<Rightarrow> 'a efi_state_scheme" where
  "install_handlers idt_addr cs handlers s =
     (case handlers of (h_test, h_time, h_keyboard, h_mouse) \<Rightarrow>
        steps [initiate_idt idt_addr, configure_entry_real cs 3 h_test, configure_entry_real cs 32 h_time,
               configure_entry_real cs 33 h_keyboard, configure_entry_real cs 44 h_mouse] s)"

definition efi_setup :: "device \<Rightarrow> (u8 \<Rightarrow> 'a efi_state_scheme \<Rightarrow> 'a efi_state_scheme option) \<Rightarrow> u64 \<Rightarrow> u16 \<Rightarrow>
    u64 \<times> u64 \<times> u64 \<times> u64 \<Rightarrow> gop_mode \<Rightarrow> efi_memory_descriptor_t list \<Rightarrow> int \<Rightarrow>
    'a efi_state_scheme \<Rightarrow> 'a efi_state_scheme option" where
  "efi_setup dev write_data idt_addr cs handlers gop memory_map how_many_entries s =
     (let width = HorizontalResolution gop;
          height = VerticalResolution gop;
          s = s\<lparr>g_framebuffer := FrameBufferBase gop, g_pixels_per_line := PixelsPerScanLine gop\<rparr>;
          s = memory_test memory_map how_many_entries (PixelsPerScanLine gop) s;
          s = install_handlers idt_addr cs handlers s;
          s = mouse_init_state (s32 (uint (width div 2))) (s32 (uint (height div 2))) s
      in Option.bind (activate_mouse dev write_data s) (\<lambda>s.
         Option.bind (program_pit 100 (remap_pic s)) (\<lambda>s.
         let s = s\<lparr>efi_intr_flag := True\<rparr>;
             size_buffer = s32 (uint (height * (g_pixels_per_line s * 4)));
             (buffer_rasc, s) = my_malloc size_buffer memory_map how_many_entries s
         in Some (s\<lparr>g_draw_target := buffer_rasc\<rparr>))))"

record anim =
  box_x :: int
  box_y :: int
  box_dx :: int
  box_dy :: int
  color_index :: int
  paused :: int

abbreviation box_size :: int where "box_size \<equiv> 60"

definition list_colors :: "u32 list" where
  "list_colors = [0x00E67E22, 0x003498DB, 0x002ECC71, 0x009B59B6]"

definition anim_start :: anim where
  "anim_start = \<lparr>box_x = 100, box_y = 100, box_dx = 4, box_dy = 3, color_index = 0, paused = 0\<rparr>"

text \<open>The keyboard part of a round: the new animation state and the new \<open>g_last_key\<close>.\<close>

definition anim_key :: "int \<Rightarrow> anim \<Rightarrow> anim \<times> int" where
  "anim_key key a =
     (if key = 57 then (a\<lparr>paused := (if paused a = 1 then 0 else 1)\<rparr>, 0)
      else if key = 72 then (a\<lparr>box_y := s32 (box_y a - 10)\<rparr>, 0)
      else if key = 75 then (a\<lparr>box_x := s32 (box_x a - 10)\<rparr>, 0)
      else if key = 77 then (a\<lparr>box_x := s32 (box_x a + 10)\<rparr>, 0)
      else if key = 80 then (a\<lparr>box_y := s32 (box_y a + 10)\<rparr>, 0)
      else (a, key))"

definition anim_clamp :: "u32 \<Rightarrow> u32 \<Rightarrow> anim \<Rightarrow> anim" where
  "anim_clamp width height a =
     (let a = (if box_x a < 0 then a\<lparr>box_x := 0\<rparr> else a);
          a = (if s32 (box_x a + box_size) > s32 (uint width) then a\<lparr>box_x := s32 (uint (width - 60))\<rparr> else a);
          a = (if box_y a < 0 then a\<lparr>box_y := 0\<rparr> else a)
      in if s32 (box_y a + box_size) > s32 (uint height) then a\<lparr>box_y := s32 (uint (height - 60))\<rparr> else a)"

definition bounce :: "int \<Rightarrow> int" where
  "bounce d = (let d = s32 (- d) in s32 (d + (if d > 0 then 1 else - 1)))"

definition anim_move :: "u32 \<Rightarrow> u32 \<Rightarrow> anim \<Rightarrow> anim" where
  "anim_move width height a =
     (let a = a\<lparr>box_x := s32 (box_x a + box_dx a), box_y := s32 (box_y a + box_dy a)\<rparr>;
          hit_x = (box_x a \<le> 0 \<or> s32 (box_x a + box_size) \<ge> s32 (uint width));
          a = (if hit_x then a\<lparr>box_dx := bounce (box_dx a)\<rparr> else a);
          hit_y = (box_y a \<le> 0 \<or> s32 (box_y a + box_size) \<ge> s32 (uint height));
          a = (if hit_y then a\<lparr>box_dy := bounce (box_dy a)\<rparr> else a)
      in if hit_x \<or> hit_y
         then (let i = color_index a + 1 in a\<lparr>color_index := (if i \<ge> int (length list_colors) then 0 else i)\<rparr>)
         else a)"

definition draw_frame :: "gimp_picture \<Rightarrow> gop_mode \<Rightarrow> anim \<Rightarrow> 'a efi_state_scheme \<Rightarrow> 'a efi_state_scheme" where
  "draw_frame img gop a s =
     (let width = HorizontalResolution gop; height = VerticalResolution gop; ppl = PixelsPerScanLine gop;
          size_buffer = s32 (uint (height * (g_pixels_per_line s * 4)));
          buffer_rasc = g_draw_target s;
          s = for_up (unat height) (\<lambda>py. for_up (unat width) (\<lambda>px. draw_pixel (int px) (int py) ppl 0)) s;
          s = draw_gimp_image img 40 50 ppl s;
          s = draw_box (box_x a) (box_y a) box_size ppl (list_colors ! nat (color_index a)) s;
          s = draw_box (g_mouse_x s) (g_mouse_y s) 8 (g_pixels_per_line s) 0x00FFFFFF s;
          s = draw_number (ucast (g_ticks s)) 10 10 0x00FFFFFF s
      in copy_memory (FrameBufferBase gop) buffer_rasc (word_of_int size_buffer) s)"

text \<open>One round of the loop; \<^const>\<open>None\<close> when the wait at its end does not return.\<close>

definition anim_round :: "gimp_picture \<Rightarrow> gop_mode \<Rightarrow> nat list \<Rightarrow> anim \<times> 'a efi_state_scheme \<Rightarrow>
    (anim \<times> 'a efi_state_scheme) option" where
  "anim_round img gop arrivals = (\<lambda>(a, s).
     let (a, key) = anim_key (g_last_key s) a;
         s = s\<lparr>g_last_key := key\<rparr>;
         a = anim_clamp (HorizontalResolution gop) (VerticalResolution gop) a
     in if paused a = 0 then
          (let s = draw_frame img gop a s;
               a = anim_move (HorizontalResolution gop) (VerticalResolution gop) a
           in map_option (Pair a) (delay_real 10 arrivals s))
        else Some (a, s))"

section \<open>Errors of the firmware\<close>

text \<open>
  The program leaves with an error exactly when a firmware call fails, before it has touched the hardware:
  \<open>main\<close> goes past \<open>ExitBootServices\<close> if and only if the graphics protocol was found, the memory for the map was
  allocated, the map was read and boot services ended; it then works with the mode that was found.
\<close>

theorem efi_boot_succeeds_iff:
  "(\<exists>n. efi_boot fw = Inr (gop, n)) \<longleftrightarrow>
     \<not> locate_error fw \<and> located_gop fw = Some gop \<and> \<not> malloc_null fw \<and> \<not> map_error fw \<and> \<not> exit_error fw"
  by (auto simp: efi_boot_def Let_def split: option.splits)

section \<open>The animation\<close>

lemma clamp_in_screen:
  assumes "60 \<le> uint width" "uint width < 2147483648" "60 \<le> uint height" "uint height < 2147483648"
    "box_x a < 2147483000" "box_y a < 2147483000"
  shows "0 \<le> box_x (anim_clamp width height a) \<and> box_x (anim_clamp width height a) + 60 \<le> uint width \<and>
    0 \<le> box_y (anim_clamp width height a) \<and> box_y (anim_clamp width height a) + 60 \<le> uint height"
proof -
  have s: "s32 (uint w) = uint w" "s32 (uint (w - 60)) = uint w - 60"
    if "60 \<le> uint w" "uint w < 2147483648" for w :: u32
  proof -
    show "s32 (uint w) = uint w" by (intro s32_id) (use that in linarith)+
    have "uint (w - 60) = uint w - 60" using that by (simp add: uint_word_ariths)
    moreover have "s32 (uint w - 60) = uint w - 60" by (intro s32_id) (use that in linarith)+
    ultimately show "s32 (uint (w - 60)) = uint w - 60" by simp
  qed
  show ?thesis using assms by (auto simp: anim_clamp_def Let_def s)
qed

definition anim_next :: "u32 \<Rightarrow> u32 \<Rightarrow> int \<Rightarrow> anim \<Rightarrow> anim" where
  "anim_next width height key a =
     (let a = anim_clamp width height (fst (anim_key key a)) in if paused a = 0 then anim_move width height a else a)"

text \<open>What holds of the animation after \<open>n\<close> rounds: its speed has grown by at most one in each.\<close>

definition anim_ok :: "int \<Rightarrow> u32 \<Rightarrow> u32 \<Rightarrow> anim \<Rightarrow> bool" where
  "anim_ok n width height a \<longleftrightarrow> \<bar>box_dx a\<bar> \<le> n + 4 \<and> \<bar>box_dy a\<bar> \<le> n + 4 \<and>
     - (n + 4) \<le> box_x a \<and> box_x a \<le> uint width + n + 100 \<and>
     - (n + 4) \<le> box_y a \<and> box_y a \<le> uint height + n + 100 \<and> color_index a \<in> {0..3}"

lemma bounce_bound: "\<bar>d\<bar> \<le> m \<Longrightarrow> m < 2147483000 \<Longrightarrow> \<bar>bounce d\<bar> \<le> m + 1"
  by (auto simp: bounce_def Let_def)

lemma anim_key_ok:
  assumes "anim_ok n width height a" "0 \<le> n" "n < 536870912" "uint width < 536870912" "uint height < 536870912"
  shows "box_x (fst (anim_key key a)) < 2147483000" "box_y (fst (anim_key key a)) < 2147483000"
    "box_dx (fst (anim_key key a)) = box_dx a" "box_dy (fst (anim_key key a)) = box_dy a"
    "color_index (fst (anim_key key a)) = color_index a"
  using assms by (auto simp: anim_key_def anim_ok_def)

lemma clamp_fields [simp]:
  "box_dx (anim_clamp w h a) = box_dx a" "box_dy (anim_clamp w h a) = box_dy a"
  "color_index (anim_clamp w h a) = color_index a"
  by (simp_all add: anim_clamp_def Let_def)

definition in_screen :: "u32 \<Rightarrow> u32 \<Rightarrow> anim \<Rightarrow> bool" where
  "in_screen width height a \<longleftrightarrow> 0 \<le> box_x a \<and> box_x a + 60 \<le> uint width \<and>
     0 \<le> box_y a \<and> box_y a + 60 \<le> uint height \<and> color_index a \<in> {0..3}"

lemma anim_move_fields:
  "box_x (anim_move w h a) = s32 (box_x a + box_dx a)" "box_y (anim_move w h a) = s32 (box_y a + box_dy a)"
  "box_dx (anim_move w h a) = box_dx a \<or> box_dx (anim_move w h a) = bounce (box_dx a)"
  "box_dy (anim_move w h a) = box_dy a \<or> box_dy (anim_move w h a) = bounce (box_dy a)"
  "color_index a \<in> {0..3} \<Longrightarrow> color_index (anim_move w h a) \<in> {0..3}"
  by (simp_all add: anim_move_def Let_def list_colors_def)

lemma anim_move_ok:
  assumes "in_screen width height a" "\<bar>box_dx a\<bar> \<le> n + 4" "\<bar>box_dy a\<bar> \<le> n + 4"
    "0 \<le> n" "n < 536870912" "uint width < 536870912" "uint height < 536870912"
  shows "anim_ok (n + 1) width height (anim_move width height a)"
proof -
  have i: "0 \<le> box_x a" "box_x a + 60 \<le> uint width" "0 \<le> box_y a" "box_y a + 60 \<le> uint height" "color_index a \<in> {0..3}"
    using assms(1) by (simp_all add: in_screen_def)
  have x: "box_x (anim_move width height a) = box_x a + box_dx a" "box_y (anim_move width height a) = box_y a + box_dy a"
    unfolding anim_move_fields by (intro s32_id; use assms i in linarith)+
  have b: "\<bar>box_dx (anim_move width height a)\<bar> \<le> n + 5" "\<bar>box_dy (anim_move width height a)\<bar> \<le> n + 5"
    using bounce_bound [OF assms(2)] bounce_bound [OF assms(3)] assms anim_move_fields(3,4) [of width height a]
    by linarith+
  have "- (n + 5) \<le> box_x a + box_dx a" "box_x a + box_dx a \<le> uint width + n + 101"
    "- (n + 5) \<le> box_y a + box_dy a" "box_y a + box_dy a \<le> uint height + n + 101"
    using i assms by linarith+
  with i x b anim_move_fields(5) [OF i(5), of width height] show ?thesis by (simp add: anim_ok_def)
qed

lemma clamp_on_screen:
  assumes "anim_ok n width height a" "0 \<le> n" "n < 536870912" "60 \<le> uint width" "uint width < 536870912"
    "60 \<le> uint height" "uint height < 536870912"
  shows "in_screen width height (anim_clamp width height (fst (anim_key key a)))"
proof -
  note k = anim_key_ok [OF assms(1-3,5,7), of key]
  have "uint width < 2147483648" "uint height < 2147483648" using assms by simp_all
  from clamp_in_screen [OF assms(4) this(1) assms(6) this(2) k(1,2)] k(5) assms(1)
  show ?thesis by (simp add: in_screen_def anim_ok_def)
qed

lemma anim_next_ok:
  assumes "anim_ok n width height a" "0 \<le> n" "n < 536870912" "60 \<le> uint width" "uint width < 536870912"
    "60 \<le> uint height" "uint height < 536870912"
  shows "anim_ok (n + 1) width height (anim_next width height key a)"
proof -
  let ?c = "anim_clamp width height (fst (anim_key key a))"
  have c: "in_screen width height ?c" by (rule clamp_on_screen [OF assms])
  note k = anim_key_ok [OF assms(1-3,5,7), of key]
  have d: "\<bar>box_dx ?c\<bar> \<le> n + 4" "\<bar>box_dy ?c\<bar> \<le> n + 4" using k assms(1) by (simp_all add: anim_ok_def)
  show ?thesis
  proof (cases "paused ?c = 0")
    case True
    with anim_move_ok [OF c d assms(2,3,5,7)] show ?thesis by (simp add: anim_next_def)
  next
    case False
    with c d assms(2) show ?thesis by (simp add: anim_next_def anim_ok_def in_screen_def)
  qed
qed

text \<open>
  C21. The moving box is always drawn on the screen: on any screen from 60 by 60 pixels up, for any keys pressed
  in up to \<open>2\<^sup>2\<^sup>9\<close> rounds of the loop, the box that a round draws lies inside the screen and its colour is one of
  the four colours of the list.
\<close>

theorem box_stays_on_screen:
  assumes "60 \<le> uint width" and "uint width < 536870912" and "60 \<le> uint height" and "uint height < 536870912"
    and "length keys < 536870912"
  shows "in_screen width height
    (anim_clamp width height (fst (anim_key key (fold (anim_next width height) keys anim_start))))"
proof -
  have start: "anim_ok 0 width height anim_start" using assms(1,3) by (simp add: anim_ok_def anim_start_def)
  have run: "anim_ok n width height a \<Longrightarrow> 0 \<le> n \<Longrightarrow> n + int (length ks) < 536870912 \<Longrightarrow>
      anim_ok (n + int (length ks)) width height (fold (anim_next width height) ks a)" for n a ks
  proof (induction ks arbitrary: n a)
    case (Cons k ks)
    have "anim_ok (n + 1) width height (anim_next width height k a)"
      by (rule anim_next_ok [OF Cons.prems(1,2)]) (use Cons.prems assms in simp_all)
    from Cons.IH [OF this] Cons.prems show ?case by (simp add: add.assoc)
  qed simp
  have "anim_ok (0 + int (length keys)) width height (fold (anim_next width height) keys anim_start)"
    by (rule run [OF start]) (use assms(5) in simp_all)
  from clamp_on_screen [OF this] assms show ?thesis by simp
qed

theorem box_stays_on_screen_witness:
  "in_screen 1024 768 (anim_clamp 1024 768 (fst (anim_key 77 (fold (anim_next 1024 768) (replicate 500 80) anim_start))))"
  using box_stays_on_screen [of 1024 768 "replicate 500 80" 77] by simp

section \<open>The setup\<close>

lemma wait_clear_more:
  fixes s t :: "'a machine_scheme"
  assumes "wait_input_buffer_clear dev s = Some t"
  shows "machine.more t = machine.more s"
proof (rule wait_input_buffer_clear.raw_induct [where P = "\<lambda>_ s t. machine.more t = machine.more s", OF _ assms])
  fix w and dev :: device and s t :: "'a machine_scheme"
  assume IH: "\<And>dev s t. w dev s = Some t \<Longrightarrow> machine.more t = machine.more s"
    and r: "(let (v, s) = inb dev 0x64 s in if v AND 0x01 \<noteq> 0 then w dev s else Some s) = Some t"
  show "machine.more t = machine.more s"
    using r IH [of dev "s\<lparr>ports := In 0x64 (dev (ports s) 0x64) # ports s\<rparr>" t]
    by (auto simp: inb_def Let_def split: if_splits)
qed

lemma wait_full_more:
  fixes s t :: "'a machine_scheme"
  assumes "wait_input_buffer_full dev s = Some t"
  shows "machine.more t = machine.more s"
proof (rule wait_input_buffer_full.raw_induct [where P = "\<lambda>_ s t. machine.more t = machine.more s", OF _ assms])
  fix w and dev :: device and s t :: "'a machine_scheme"
  assume IH: "\<And>dev s t. w dev s = Some t \<Longrightarrow> machine.more t = machine.more s"
    and r: "(let (v, s) = inb dev 0x64 s in if v AND 0x01 = 0 then w dev s else Some s) = Some t"
  show "machine.more t = machine.more s"
    using r IH [of dev "s\<lparr>ports := In 0x64 (dev (ports s) 0x64) # ports s\<rparr>" t]
    by (auto simp: inb_def Let_def split: if_splits)
qed

lemma ps2_more:
  "ps2_write_command dev b s = Some t \<Longrightarrow> machine.more t = machine.more s"
  "ps2_write_data dev b s = Some t \<Longrightarrow> machine.more t = machine.more s"
  "read_data dev s = Some (v, t) \<Longrightarrow> machine.more t = machine.more s"
  using wait_clear_more [of dev s] wait_full_more [of dev s]
  by (auto simp: ps2_write_command_def ps2_write_data_def read_data_def inb_def Let_def)

lemma activate_mouse_more:
  assumes "\<And>b s t. write_data b s = Some t \<Longrightarrow> machine.more t = machine.more s"
    and "activate_mouse dev write_data s = Some t"
  shows "machine.more t = machine.more s"
  using assms(2) unfolding activate_mouse_def Let_def
  by (auto simp: bind_eq_Some_conv dest!: ps2_more assms(1))

lemma efi_more_fields:
  fixes s t :: "'a efi_state_scheme"
  assumes "machine.more t = machine.more s"
  shows "efi_idt t = efi_idt s"
  using assms by (cases s; cases t; simp)

lemma my_malloc_fields [simp]:
  fixes s :: "'a efi_state_scheme"
  shows "ports (snd (my_malloc n m k s)) = ports s" "efi_idt (snd (my_malloc n m k s)) = efi_idt s"
    "efi_intr_flag (snd (my_malloc n m k s)) = efi_intr_flag s" "g_ticks (snd (my_malloc n m k s)) = g_ticks s"
  by (simp_all add: my_malloc_def Let_def)

lemma draw_box_idt [simp]:
  fixes s :: "'a efi_state_scheme"
  shows "efi_idt (draw_box x y n p c s) = efi_idt s"
  by (simp add: draw_box_def for_up_keeps draw_pixel_def)

lemma memory_test_idt [simp]: "efi_idt (memory_test m k p s) = efi_idt s"
  by (simp add: memory_test_def Let_def split: prod.splits) (metis my_malloc_fields(2) snd_conv)

lemma install_handlers_gates:
  assumes "length (efi_idt s) = 256"
  shows "map (efi_gate_of (install_handlers a cs (h1, h2, h3, h4) s)) [3, 32, 33, 44] =
    map (\<lambda>h. Some (h, cs, 0x8E)) [h1, h2, h3, h4]"
proof -
  let ?s0 = "initiate_idt a s"
  let ?s1 = "configure_entry_real cs 3 h1 ?s0"
  let ?s2 = "configure_entry_real cs 32 h2 ?s1"
  let ?s3 = "configure_entry_real cs 33 h3 ?s2"
  have l: "length (efi_idt ?s0) = 256" "length (efi_idt ?s1) = 256" "length (efi_idt ?s2) = 256" "length (efi_idt ?s3) = 256"
    using initiate_idt_empty [OF assms, of a] by simp_all
  have e: "efi_gate_of (configure_entry_real cs (int n) h u) m = (if m = n then Some (h, cs, 0x8E) else efi_gate_of u m)"
    if "length (efi_idt u) = 256" "n < 256" "m < 256" for n m h and u :: "'a efi_state_scheme"
    using efi_table.gate_of_set [OF that, of cs h] .
  note g = e [OF l(1), of 3 _ h1, simplified] e [OF l(2), of 32 _ h2, simplified] e [OF l(3), of 33 _ h3, simplified]
    e [OF l(4), of 44 _ h4, simplified]
  show ?thesis by (simp add: install_handlers_def g)
qed

text \<open>
  C20. The animation never gets past its first frame: whenever the setup completes, the table leads vectors 3, 32,
  33 and 44 to their handlers and interrupts are on, but the controllers mask the timer, the keyboard and the
  cascade line of the mouse, so no tick ever arrives, and a wait during which no tick arrives does not
  return. (\<open>write_data\<close>, which the sources do not define, is assumed to change nothing but ports and memory.)
\<close>

theorem efi_setup_masks_timer:
  assumes "\<And>b s t. write_data b s = Some t \<Longrightarrow> machine.more t = machine.more s"
    and "length (efi_idt s) = 256"
    and "efi_setup dev write_data idt_addr cs (h1, h2, h3, h4) gop memory_map how_many s = Some t"
  shows "map (efi_gate_of t) [3, 32, 33, 44] = map (\<lambda>h. Some (h, cs, 0x8E)) [h1, h2, h3, h4] \<and>
    efi_intr_flag t \<and> irq_masked t 0 \<and> irq_masked t 1 \<and> irq_masked t 2 \<and>
    delay_real 10 (replicate k 0) t = None"
proof -
  define s1 where "s1 = memory_test memory_map how_many (PixelsPerScanLine gop)
    (s\<lparr>g_framebuffer := FrameBufferBase gop, g_pixels_per_line := PixelsPerScanLine gop\<rparr>)"
  define s2 where "s2 = install_handlers idt_addr cs (h1, h2, h3, h4) s1"
  define s3 where "s3 = mouse_init_state (s32 (uint (HorizontalResolution gop div 2))) (s32 (uint (VerticalResolution gop div 2))) s2"
  obtain s4 s5 where s4: "activate_mouse dev write_data s3 = Some s4" and s5: "program_pit 100 (remap_pic s4) = Some s5"
    and t: "t = (let u = my_malloc (s32 (uint (VerticalResolution gop * (g_pixels_per_line s5 * 4)))) memory_map how_many
        (s5\<lparr>efi_intr_flag := True\<rparr>) in (snd u)\<lparr>g_draw_target := fst u\<rparr>)"
    using assms(3) unfolding efi_setup_def Let_def s1_def [symmetric] s2_def [symmetric] s3_def [symmetric]
    by (auto simp: bind_eq_Some_conv case_prod_beta Let_def)
  have l1: "length (efi_idt s1) = 256" using assms(2) by (simp add: s1_def)
  have "efi_idt s4 = efi_idt s2"
    using efi_more_fields [OF activate_mouse_more [OF assms(1) s4]] by (simp add: s3_def mouse_init_state_def)
  moreover have "efi_idt s5 = efi_idt s4"
    using s5 by (auto simp: program_pit_def remap_pic_def outb_def)
  ultimately have "efi_idt t = efi_idt s2" by (simp add: t Let_def)
  then have g: "efi_gate_of t n = efi_gate_of s2 n" for n by (simp add: efi_gate_of_def)
  have "ports t = ports s5" "efi_intr_flag t" by (simp_all add: t Let_def)
  moreover have "master (ports s5) = \<lparr>icw = 0, vector_base = 32, imr = 0xEF\<rparr>"
    using s5 remap_pic_chips [of s4] by (auto simp: program_pit_def)
  moreover have "delay_real 10 (replicate k 0) t = None"
    using delay_loop_returns_iff [of t "g_ticks t" 0 "replicate k 0" 10] by (simp add: delay_real_def sum_list_replicate)
  ultimately show ?thesis
    using install_handlers_gates [OF l1, of idt_addr cs h1 h2 h3 h4] g by (simp add: irq_masked_def s2_def)
qed

text \<open>
  A controller that answers: a byte waits from the configuration read (command 0x20) and from the mouse
  commands 0xF6 and 0xF4 until it is read.
\<close>

fun pending :: "io_event list \<Rightarrow> bool" where
  "pending [] = False"
| "pending (In p v # h) = (p \<noteq> 0x60 \<and> pending h)"
| "pending (Out p v # h) = (p = 0x64 \<and> v = 0x20 \<or> p = 0x60 \<and> v \<in> {0xF6, 0xF4} \<or> pending h)"

definition answering :: device where
  "answering h p = (if p = 0x64 \<and> pending h then 1 else 0)"

lemma wait_clear_answering:
  "\<not> pending (ports s) \<Longrightarrow> wait_input_buffer_clear answering s = Some (s\<lparr>ports := In 0x64 0 # ports s\<rparr>)"
  by (subst wait_input_buffer_clear.simps) (simp add: inb_def answering_def Let_def)

lemma wait_full_answering:
  "pending (ports s) \<Longrightarrow> wait_input_buffer_full answering s = Some (s\<lparr>ports := In 0x64 1 # ports s\<rparr>)"
  by (subst wait_input_buffer_full.simps) (simp add: inb_def answering_def Let_def)

lemma activate_mouse_answering:
  "\<not> pending (ports s) \<Longrightarrow> activate_mouse answering (ps2_write_data answering) s \<noteq> None"
  by (simp add: activate_mouse_def ps2_write_command_def ps2_write_data_def read_data_def wait_clear_answering
      wait_full_answering inb_def answering_def Let_def)

lemma setup_ports [simp]:
  "ports (memory_test m k p s) = ports s" "ports (install_handlers a cs hs s) = ports s"
proof -
  have d: "ports (draw_box x y n p c u) = ports u" for x y n p c and u :: "'a efi_state_scheme"
    by (simp add: draw_box_def for_up_keeps draw_pixel_def)
  show "ports (memory_test m k p s) = ports s"
    by (simp add: memory_test_def Let_def d split: prod.splits) (metis my_malloc_fields(1) snd_conv)
  have "ports (initiate_idt a s) = ports s"
    by (simp add: initiate_idt_def Let_def for_up_keeps configure_entry_empty_def)
  then show "ports (install_handlers a cs hs s) = ports s"
    by (simp add: install_handlers_def split: prod.splits)
qed

lemma efi_setup_answering:
  assumes "\<not> pending (ports s)"
  shows "\<exists>t. efi_setup answering (ps2_write_data answering) a cs hs gop m k s = Some t"
proof -
  have "activate_mouse answering (ps2_write_data answering) u \<noteq> None" if "ports u = ports s" for u :: "'a efi_state_scheme"
    using activate_mouse_answering [of u] that assms by simp
  then show ?thesis
    by (auto simp: efi_setup_def Let_def program_pit_def case_prod_beta bind_eq_Some_conv mouse_init_state_def)
qed

theorem efi_setup_masks_timer_witness:
  "\<exists>t. efi_setup answering (ps2_write_data answering) 0x200000 0x38 (0x1003, 0x1020, 0x1021, 0x102C)
      \<lparr>HorizontalResolution = 1024, VerticalResolution = 768, PixelsPerScanLine = 1024, FrameBufferBase = 0x80000000\<rparr>
      [] 0 fresh_efi = Some t \<and> efi_gate_of t 32 = Some (0x1020, 0x38, 0x8E) \<and> irq_masked t 0 \<and>
    delay_real 10 (replicate 1000 0) t = None"
proof -
  let ?hs = "(0x1003, 0x1020, 0x1021, 0x102C)"
    and ?gop = "\<lparr>HorizontalResolution = 1024, VerticalResolution = 768, PixelsPerScanLine = 1024, FrameBufferBase = 0x80000000\<rparr>"
  obtain t where t: "efi_setup answering (ps2_write_data answering) 0x200000 0x38 ?hs ?gop [] 0 fresh_efi = Some t"
    using efi_setup_answering [of fresh_efi "0x200000" "0x38" ?hs ?gop "[]" 0] by (auto simp: fresh_efi_def)
  have l: "length (efi_idt fresh_efi) = 256" by (simp add: fresh_efi_def)
  from efi_setup_masks_timer [OF ps2_more(2) l t, where k = 1000] t show ?thesis by auto
qed

end
