(* ===== verification/GRUB_Strings.thy ===== *)
theory GRUB_Strings
  imports C_Machine "HOL-Library.List_Lexorder" "HOL-Library.Sublist"
begin

text \<open>
  The string routines of the boot loader, from \<^verbatim>\<open>src/legacy/SZoS/grub-0.97/stage2/char_io.c\<close>: conversion of numbers to
  text and back, comparison, search and concatenation. A C string that is only read is the list of its bytes
  without the terminating zero, and \<open>cur\<close> is the byte a pointer to it points to; \<open>char\<close> is signed.

  Shown: numbers print in decimal and hexadecimal and parse back, overflow is detected exactly, and the
  comparison and search routines agree with order, prefix and occurrence on lists.
\<close>

section \<open>Definitions\<close>

text \<open>The error codes of \<^verbatim>\<open>shared.h\<close>, in the order of their numbers from 0.\<close>

datatype grub_error_t =
    ERR_NONE | ERR_BAD_FILENAME | ERR_BAD_FILETYPE | ERR_BAD_GZIP_DATA | ERR_BAD_GZIP_HEADER |
    ERR_BAD_PART_TABLE | ERR_BAD_VERSION | ERR_BELOW_1MB | ERR_BOOT_COMMAND | ERR_BOOT_FAILURE |
    ERR_BOOT_FEATURES | ERR_DEV_FORMAT | ERR_DEV_VALUES | ERR_EXEC_FORMAT | ERR_FILELENGTH |
    ERR_FILE_NOT_FOUND | ERR_FSYS_CORRUPT | ERR_FSYS_MOUNT | ERR_GEOM | ERR_NEED_LX_KERNEL |
    ERR_NEED_MB_KERNEL | ERR_NO_DISK | ERR_NO_PART | ERR_NUMBER_PARSING | ERR_OUTSIDE_PART | ERR_READ |
    ERR_SYMLINK_LOOP | ERR_UNRECOGNIZED | ERR_WONT_FIT | ERR_WRITE | ERR_BAD_ARGUMENT | ERR_UNALIGNED |
    ERR_PRIVILEGED | ERR_DEV_NEED_INIT | ERR_NO_DISK_SPACE | ERR_NUMBER_OVERFLOW

definition cur :: "u8 list \<Rightarrow> u8" where
  "cur s = (case s of [] \<Rightarrow> 0 | c # _ \<Rightarrow> c)"

text \<open>The \<open>do\<close> loop of \<open>convert_to_ascii\<close>; \<open>mult\<close> is 10 or 16.\<close>

function conv_digits :: "u32 \<Rightarrow> u32 \<Rightarrow> u8 list" where
  "conv_digits num mult =
     (let dig = num mod mult;
          c = (if dig > 9 then ucast dig + 97 - 10 else 48 + ucast dig)
      in if mult \<le> 1 \<or> num div mult = 0 then [c] else c # conv_digits (num div mult) mult)"
  by pat_completeness auto
termination
proof (relation "measure (\<lambda>(num, mult). unat num)")
  fix num mult dig :: u32 and c :: u8
  assume "\<not> (mult \<le> 1 \<or> num div mult = 0)"
  then have "unat mult > 1" "num \<noteq> 0" by (auto simp: word_le_nat_alt)
  then have "unat num div unat mult < unat num" by (intro div_less_dividend) (auto simp: unat_gt_0)
  then show "((num div mult, mult), (num, mult)) \<in> measure (\<lambda>(num, mult). unat num)" by (simp add: unat_div_distrib)
qed simp

declare conv_digits.simps [simp del]

text \<open>The loop that exchanges the characters at \<open>ptr1\<close> and \<open>ptr2\<close> until they meet.\<close>

function reorder :: "int \<Rightarrow> int \<Rightarrow> u8 list \<Rightarrow> u8 list" where
  "reorder ptr1 ptr2 buf =
     (if ptr1 > ptr2
      then reorder (ptr1 - 1) (ptr2 + 1) (buf[nat ptr1 := buf ! nat ptr2, nat ptr2 := buf ! nat ptr1])
      else buf)"
  by pat_completeness auto
termination by (relation "measure (\<lambda>(ptr1, ptr2, buf). nat (ptr1 - ptr2))") auto

declare reorder.simps [simp del]

text \<open>\<open>c\<close> is the conversion character; the result is what is stored from \<open>buf\<close> up to the returned pointer.\<close>

definition convert_to_ascii :: "u8 \<Rightarrow> u32 \<Rightarrow> u8 list" where
  "convert_to_ascii c num =
     (let mult = (if c = 120 \<or> c = 88 then 16 else 10);
          (num, sign) = (if num AND 0x80000000 \<noteq> 0 \<and> c = 100 then (NOT num + 1, [45]) else (num, []));
          str = sign @ conv_digits num mult
      in reorder (int (length str) - 1) (int (length sign)) str)"

definition grub_tolower :: "int \<Rightarrow> int" where
  "grub_tolower c = (if c \<ge> 65 \<and> c \<le> 90 then c + (97 - 65) else c)"

definition grub_isspace :: "int \<Rightarrow> bool" where
  "grub_isspace c = (c = 32 \<or> c = 9 \<or> c = 13 \<or> c = 10)"

abbreviation MAXINT :: u32 where "MAXINT \<equiv> 0x7FFFFFFF"

text \<open>The digit at the pointer as \<open>safe_parse_maxint\<close> computes it; \<^const>\<open>None\<close> where the loop breaks.\<close>

definition parse_digit :: "u32 \<Rightarrow> u8 \<Rightarrow> u32 option" where
  "parse_digit mult c =
     (let digit = word_of_int (grub_tolower (sint c) - 48) :: u32
      in if digit > 9 then
           (let digit = digit - (97 - 48)
            in if mult = 10 \<or> digit > 5 then None else Some (digit + 10))
         else Some digit)"

primrec parse_loop :: "u32 \<Rightarrow> bool \<Rightarrow> u32 \<Rightarrow> u8 list \<Rightarrow> grub_error_t + u32 \<times> u8 list" where
  "parse_loop mult found myint [] = (if found then Inr (myint, []) else Inl ERR_NUMBER_PARSING)"
| "parse_loop mult found myint (c # cs) =
     (case parse_digit mult c of
        None \<Rightarrow> if found then Inr (myint, c # cs) else Inl ERR_NUMBER_PARSING
      | Some digit \<Rightarrow>
          if myint > (MAXINT - digit) div mult then Inl ERR_NUMBER_OVERFLOW
          else parse_loop mult True (myint * mult + digit) cs)"

definition safe_parse_maxint :: "u8 list \<Rightarrow> grub_error_t + u32 \<times> u8 list" where
  "safe_parse_maxint ptr =
     (if cur ptr = 48 \<and> grub_tolower (sint (cur (tl ptr))) = 120
      then parse_loop 16 False 0 (drop 2 ptr) else parse_loop 10 False 0 ptr)"

primrec grub_memcmp :: "nat \<Rightarrow> u8 list \<Rightarrow> u8 list \<Rightarrow> int" where
  "grub_memcmp 0 s1 s2 = 0"
| "grub_memcmp (Suc n) s1 s2 =
     (if sint (s1 ! 0) < sint (s2 ! 0) then - 1 else if sint (s1 ! 0) > sint (s2 ! 0) then 1
      else grub_memcmp n (tl s1) (tl s2))"

function grub_strcmp :: "u8 list \<Rightarrow> u8 list \<Rightarrow> int" where
  "grub_strcmp s1 s2 =
     (if cur s1 \<noteq> 0 \<or> cur s2 \<noteq> 0 then
        (if sint (cur s1) < sint (cur s2) then - 1 else if sint (cur s1) > sint (cur s2) then 1
         else grub_strcmp (tl s1) (tl s2))
      else 0)"
  by pat_completeness auto
termination
  by (relation "measure (\<lambda>(s1, s2). length s1 + length s2)") (auto simp: cur_def split: list.splits)

declare grub_strcmp.simps [simp del]

fun substring :: "u8 list \<Rightarrow> u8 list \<Rightarrow> int" where
  "substring [] [] = 0"
| "substring (a # s1) (b # s2) = (if a = b then substring s1 s2 else 1)"
| "substring [] (b # s2) = - 1"
| "substring (a # s1) [] = 1"

text \<open>\<open>nul_terminate\<close>: the character overwritten (zero at the end), and the shortened string.\<close>

fun nul_terminate :: "u8 list \<Rightarrow> u8 \<times> u8 list" where
  "nul_terminate [] = (0, [])"
| "nul_terminate (c # cs) = (if grub_isspace (sint c) then (c, []) else map_prod id ((#) c) (nul_terminate cs))"

fun matches_here :: "u8 list \<Rightarrow> u8 list \<Rightarrow> bool" where
  "matches_here ptr [] = True"
| "matches_here [] (t # tmp) = False"
| "matches_here (p # ptr) (t # tmp) = (p = t \<and> matches_here ptr tmp)"

text \<open>The result of \<open>grub_strstr\<close> is the offset of the pointer it returns. An empty needle is never found.\<close>

fun grub_strstr :: "u8 list \<Rightarrow> u8 list \<Rightarrow> nat option" where
  "grub_strstr [] s2 = None"
| "grub_strstr (c # s1) s2 = (if s2 \<noteq> [] \<and> matches_here (c # s1) s2 then Some 0 else map_option Suc (grub_strstr s1 s2))"

definition grub_strlen :: "u8 list \<Rightarrow> int" where
  "grub_strlen str = int (length str)"

text \<open>\<open>s1\<close> is the array of at least \<open>n\<close> bytes that is written.\<close>

function strncat_scan :: "u8 list \<Rightarrow> nat \<Rightarrow> nat \<Rightarrow> nat" where
  "strncat_scan s1 n i = (if i < n \<and> s1 ! i \<noteq> 0 then strncat_scan s1 n (i + 1) else i)"
  by pat_completeness auto
termination by (relation "measure (\<lambda>(s1, n, i). n - i)") auto

declare strncat_scan.simps [simp del]

function strncat_copy :: "u8 list \<Rightarrow> u8 list \<Rightarrow> nat \<Rightarrow> nat \<Rightarrow> u8 list \<times> nat" where
  "strncat_copy s1 s2 n i =
     (if i < n then
        (let s1 = s1[i := cur s2]
         in if s1 ! i \<noteq> 0 then strncat_copy s1 (tl s2) n (i + 1) else (s1, i + 1))
      else (s1, i))"
  by pat_completeness auto
termination by (relation "measure (\<lambda>(s1, s2, n, i). n - i)") auto

declare strncat_copy.simps [simp del]

definition grub_strncat :: "u8 list \<Rightarrow> u8 list \<Rightarrow> nat \<Rightarrow> int \<times> u8 list" where
  "grub_strncat s1 s2 n =
     (let i = strncat_scan s1 n 0;
          (s1, i) = strncat_copy s1 s2 n i;
          s1 = s1[n - 1 := 0]
      in if i \<ge> n then (0, s1) else (1, s1[i := 0]))"

section \<open>Numerals in a base\<close>

fun base_digits :: "nat \<Rightarrow> nat \<Rightarrow> nat list" where
  "base_digits b n = (if b \<le> 1 \<or> n < b then [n] else base_digits b (n div b) @ [n mod b])"

declare base_digits.simps [simp del]

definition digit_ascii :: "nat \<Rightarrow> u8" where
  "digit_ascii d = (if d < 10 then of_nat (48 + d) else of_nat (87 + d))"

definition base_text :: "nat \<Rightarrow> nat \<Rightarrow> u8 list" where
  "base_text b n = map digit_ascii (base_digits b n)"

definition base_value :: "nat \<Rightarrow> nat \<Rightarrow> nat list \<Rightarrow> nat" where
  "base_value b v ds = foldl (\<lambda>v d. v * b + d) v ds"

lemma base_value_simps [simp]:
  "base_value b v [] = v" "base_value b v (d # ds) = base_value b (v * b + d) ds"
  "base_value b v (ds @ es) = base_value b (base_value b v ds) es"
  by (simp_all add: base_value_def)

lemma base_value_ge: "0 < b \<Longrightarrow> v \<le> base_value b v ds"
proof (induction ds arbitrary: v)
  case (Cons d ds)
  then have "v \<le> v * b" by simp
  with Cons.IH [OF Cons.prems, of "v * b + d"] show ?case unfolding base_value_simps(2) by linarith
qed simp

lemma base_digits_value: "1 < b \<Longrightarrow> base_value b 0 (base_digits b n) = n"
proof (induction b n rule: base_digits.induct)
  case (1 b n)
  then show ?case by (cases "n < b") (simp_all add: base_digits.simps [of b n])
qed

lemma base_digits_less: "1 < b \<Longrightarrow> d \<in> set (base_digits b n) \<Longrightarrow> d < b"
proof (induction b n rule: base_digits.induct)
  case (1 b n)
  then show ?case by (cases "n < b") (auto simp: base_digits.simps [of b n])
qed

lemma base_digits_length: "1 < b \<Longrightarrow> 0 < k \<Longrightarrow> n < b ^ k \<Longrightarrow> length (base_digits b n) \<le> k"
proof (induction b n arbitrary: k rule: base_digits.induct)
  case (1 b n)
  show ?case
  proof (cases "n < b")
    case True
    with 1 show ?thesis by (simp add: base_digits.simps [of b n])
  next
    case False
    with 1(2-4) obtain j where j: "k = Suc j" "0 < j" by (cases k; cases "k - 1") auto
    with 1(2,4) have "n div b < b ^ j" by (simp add: less_mult_imp_div_less mult.commute)
    with 1(1,2) False j show ?thesis by (simp add: base_digits.simps [of b n])
  qed
qed

lemma base_digits_not_Nil [simp]: "base_digits b n \<noteq> []"
  by (simp add: base_digits.simps [of b n])

section \<open>Printing numbers\<close>

lemma conv_digits_base:
  assumes "1 < unat mult" "unat mult \<le> 16"
  shows "conv_digits num mult = rev (base_text (unat mult) (unat num))"
  using assms
proof (induction num mult rule: conv_digits.induct)
  case (1 num mult)
  define d where "d = unat num mod unat mult"
  have um: "unat (num mod mult) = d" "unat (num div mult) = unat num div unat mult"
    by (simp_all add: unat_mod_distrib unat_div_distrib d_def)
  have "d < unat mult" using "1.prems" by (simp add: d_def)
  then have d: "d < 16" using "1.prems"(2) by linarith
  have "of_nat (unat (num mod mult)) = (ucast (num mod mult) :: u8)" by (rule of_nat_unat)
  then have u: "ucast (num mod mult) = (of_nat d :: u8)" by (simp only: um)
  have c: "(if num mod mult > 9 then ucast (num mod mult) + 97 - 10 else 48 + ucast (num mod mult)) = digit_ascii d"
    using d by (auto simp: u digit_ascii_def word_less_nat_alt um)
  have z: "num div mult = 0 \<longleftrightarrow> unat num < unat mult"
    using "1.prems"(1) um(2) by (auto simp: u32_eq_iff_unat div_eq_0_iff)
  have m1: "\<not> mult \<le> 1" using "1.prems" by (simp add: word_le_nat_alt)
  show ?case
  proof (cases "unat num < unat mult")
    case True
    with z c "1.prems" show ?thesis
      by (simp add: conv_digits.simps [of num] base_text_def base_digits.simps [of _ "unat num"] Let_def d_def)
  next
    case False
    then have "conv_digits num mult = digit_ascii d # conv_digits (num div mult) mult"
      using z m1 c by (simp add: conv_digits.simps [of num] Let_def)
    also have "\<dots> = digit_ascii d # rev (base_text (unat mult) (unat num div unat mult))"
      using "1.IH" [OF refl refl] False m1 z "1.prems" um(2) by simp
    also have "\<dots> = rev (base_text (unat mult) (unat num))"
      using False "1.prems" by (simp add: base_text_def base_digits.simps [of _ "unat num"] d_def)
    finally show ?thesis .
  qed
qed

lemma reorder_rev:
  "reorder (int (length pre + length xs) - 1) (int (length pre)) (pre @ xs @ post) = pre @ rev xs @ post"
proof (induction "length xs" arbitrary: pre xs post rule: less_induct)
  case less
  show ?case
  proof (cases "length xs \<le> 1")
    case True
    then show ?thesis by (cases xs) (simp_all add: reorder.simps)
  next
    case False
    then obtain x ys y where xs: "xs = x # ys @ [y]"
      by (cases xs; cases "tl xs" rule: rev_cases) auto
    have n: "nat (int (length pre + length xs) - 1) = length pre + Suc (length ys)" by (simp add: xs)
    have "(pre @ xs @ post)[length pre + Suc (length ys) := x, length pre := y] = pre @ (y # ys @ [x]) @ post"
      by (simp add: xs list_update_append)
    moreover have "(pre @ xs @ post) ! (length pre + Suc (length ys)) = y" "(pre @ xs @ post) ! length pre = x"
      by (simp_all add: xs nth_append)
    ultimately have "reorder (int (length pre + length xs) - 1) (int (length pre)) (pre @ xs @ post) =
        reorder (int (length pre + length xs) - 2) (int (length pre) + 1) (pre @ (y # ys @ [x]) @ post)"
      using False by (subst reorder.simps) (simp only: n nat_int if_True, simp add: xs)
    also have "\<dots> = (pre @ [y]) @ rev ys @ [x] @ post"
      using less [of ys "pre @ [y]" "[x] @ post"] by (simp add: xs add.commute)
    finally show ?thesis by (simp add: xs)
  qed
qed

lemma convert_to_ascii_text:
  "convert_to_ascii c num =
     (if c = 100 \<and> sint num < 0 then 45 # base_text 10 (nat (- sint num))
      else base_text (if c = 120 \<or> c = 88 then 16 else 10) (unat num))"
proof -
  have b: "num AND 0x80000000 \<noteq> 0 \<longleftrightarrow> bit num 31"
    using and_exp_eq_0_iff_not_bit [of num 31] by simp
  have s: "sint num < 0 \<longleftrightarrow> bit num 31" by (simp add: sint_uint signed_take_bit_negative_iff bit_uint_iff)
  have neg: "unat (NOT num + 1) = nat (- sint num)" if "bit num 31"
  proof -
    have n: "NOT num + 1 = - num" by (simp add: minus_eq_not_plus_1)
    have "num \<noteq> 0" using that by auto
    then have "uint num \<noteq> 0" by (simp add: unsigned_eq_0_iff)
    moreover have "0 \<le> uint num" "uint num < 4294967296" using uint_lt2p [of num] by simp_all
    ultimately have "uint (- num) = 4294967296 - uint num"
      by (simp add: uint_word_ariths zmod_zminus1_eq_if take_bit_eq_mod)
    moreover have "sint num = uint num - 4294967296"
      using that by (simp add: sint_uint signed_take_bit_eq_take_bit_minus bit_uint_iff take_bit_int_eq_self_iff uint_lt2p [of num, simplified])
    ultimately have "nat (uint (- num)) = nat (- sint num)" by simp
    then show ?thesis unfolding n by simp
  qed
  have r: "reorder (int (length (pre @ xs)) - 1) (int (length pre)) (pre @ xs) = pre @ rev xs" for pre xs
    using reorder_rev [of pre xs "[]"] by simp
  have e: "convert_to_ascii c num =
      (if bit num 31 \<and> c = 100 then [45] @ rev (conv_digits (NOT num + 1) 10)
       else [] @ rev (conv_digits num (if c = 120 \<or> c = 88 then 16 else 10)))"
    unfolding convert_to_ascii_def b Let_def using r [of "[45]"] r [of "[]"] by simp
  show ?thesis unfolding e s using neg
    by (simp add: conv_digits_base base_text_def)
qed

lemma convert_to_ascii_length: "length (convert_to_ascii c num) \<le> 11"
proof -
  have "unat num < 10 ^ 10" by (rule order.strict_trans [OF unat_u32_less]) simp
  then have "length (base_digits 10 (unat num)) \<le> 10" by (intro base_digits_length) simp_all
  moreover have "unat num < 16 ^ 8" using unat_u32_less [of num] by simp
  then have "length (base_digits 16 (unat num)) \<le> 8" by (intro base_digits_length) simp_all
  moreover have "nat (- sint num) < 10 ^ 10"
    using sint_greater_eq [of num] by simp
  then have "length (base_digits 10 (nat (- sint num))) \<le> 10" by (intro base_digits_length) simp_all
  ultimately show ?thesis by (simp add: convert_to_ascii_text base_text_def)
qed

section \<open>Parsing numbers\<close>

lemma uint_u8_range: "0 \<le> uint (c :: u8)" "uint (c :: u8) < 256"
  using uint_lt2p [of c] by simp_all

lemma sint_u8: "sint (c :: u8) = (if uint c < 128 then uint c else uint c - 256)"
proof (cases "uint c < 128")
  case True
  moreover have "- 128 \<le> uint c" using uint_u8_range(1) [of c] by linarith
  ultimately show ?thesis by (simp add: sint_uint signed_take_bit_int_eq_self_iff)
next
  case False
  have "signed_take_bit 7 (uint c) = signed_take_bit 7 (uint c - 256)"
    unfolding signed_take_bit_eq_iff_take_bit_eq by (simp add: take_bit_eq_mod)
  also have "\<dots> = uint c - 256" using False uint_u8_range [of c] by (intro signed_take_bit_int_eq_self) simp_all
  finally show ?thesis using False by (simp add: sint_uint)
qed

lemma u32_int_greater:
  assumes "- 1000 \<le> y" "y < 1000" "k < 1000"
  shows "(word_of_int y :: u32) > of_nat k \<longleftrightarrow> y < 0 \<or> int k < y"
proof -
  have "unat (word_of_int y :: u32) = nat (if y < 0 then y + 4294967296 else y)"
  proof (cases "y < 0")
    case True
    then have "(y + 4294967296) mod 4294967296 = y + 4294967296" using assms by (intro mod_pos_pos_trivial) simp_all
    then have "y mod 4294967296 = y + 4294967296" by simp
    with True show ?thesis by (simp add: unat_word_of_int_u32)
  next
    case False
    with assms show ?thesis by (simp add: unat_word_of_int_u32)
  qed
  then show ?thesis using assms by (simp add: word_less_nat_alt) linarith
qed

text \<open>The value of a digit character in base 10 or 16.\<close>

definition digit_of :: "nat \<Rightarrow> u8 \<Rightarrow> nat option" where
  "digit_of b c =
     (let v = unat c
      in if 48 \<le> v \<and> v \<le> 57 then Some (v - 48)
         else if b = 16 \<and> 97 \<le> v \<and> v \<le> 102 then Some (v - 87)
         else if b = 16 \<and> 65 \<le> v \<and> v \<le> 70 then Some (v - 55) else None)"

lemma parse_digit_of:
  "parse_digit 10 c = map_option of_nat (digit_of 10 c)" "parse_digit 16 c = map_option of_nat (digit_of 16 c)"
proof -
  define x where "x = grub_tolower (sint c)"
  have v: "unat c = nat (uint c)" "0 \<le> uint c" "uint c < 256" using uint_u8_range [of c] by simp_all
  have v4: "- 128 \<le> uint c" using v(2) by linarith
  have x: "- 128 \<le> x" "x < 160" using v(3) v4 unfolding x_def grub_tolower_def sint_u8 by (simp_all split: if_splits)
  have g: "(word_of_int (x - 48) :: u32) > 9 \<longleftrightarrow> x < 48 \<or> 57 < x"
    using u32_int_greater [of "x - 48" 9] x by auto
  have e: "(word_of_int (x - 48) :: u32) - 49 = word_of_int (x - 97)" by simp
  have h: "(word_of_int (x - 97) :: u32) > 5 \<longleftrightarrow> x < 97 \<or> 102 < x"
    using u32_int_greater [of "x - 97" 5] x by auto
  have p: "parse_digit m c = (if 48 \<le> x \<and> x \<le> 57 then Some (word_of_int (x - 48))
      else if m \<noteq> 10 \<and> 97 \<le> x \<and> x \<le> 102 then Some (word_of_int (x - 87)) else None)" for m
    unfolding parse_digit_def x_def [symmetric] Let_def
    using g h by (simp add: e)
  have w: "word_of_int (uint c - k) = (of_nat (unat c - nat k) :: u32)" if "0 \<le> k" "k \<le> uint c" for k
  proof -
    have "unat c - nat k = nat (uint c - k)" unfolding v(1) using that(1) by (rule nat_diff_distrib' [OF v(2), symmetric])
    then show ?thesis using that by (simp only: of_nat_nat diff_ge_0_iff_ge)
  qed
  define u where "u = uint c"
  have xu: "x = (if u < 128 then if 65 \<le> u \<and> u \<le> 90 then u + 32 else u else u - 256)"
    using v(3) by (auto simp: x_def grub_tolower_def sint_u8 u_def)
  have d: "digit_of m c = (if 48 \<le> u \<and> u \<le> 57 then Some (unat c - 48)
      else if m = 16 \<and> 97 \<le> u \<and> u \<le> 102 then Some (unat c - 87)
      else if m = 16 \<and> 65 \<le> u \<and> u \<le> 70 then Some (unat c - 55) else None)" for m
  proof -
    define N where "N = unat c"
    have N: "unat c = N" "u = int N" by (simp_all only: N_def u_def uint_nat)
    show ?thesis unfolding digit_of_def Let_def N by simp
  qed
  have "parse_digit 10 c = map_option of_nat (digit_of 10 c) \<and> parse_digit 16 c = map_option of_nat (digit_of 16 c)"
  proof -
    consider "48 \<le> u \<and> u \<le> 57" | "65 \<le> u \<and> u \<le> 70" | "97 \<le> u \<and> u \<le> 102"
      | "\<not> (48 \<le> u \<and> u \<le> 57)" "\<not> (65 \<le> u \<and> u \<le> 70)" "\<not> (97 \<le> u \<and> u \<le> 102)" by blast
    then show ?thesis
    proof cases
      case 1
      then have "x = u" by (simp add: xu)
      with 1 w [of 48] show ?thesis unfolding p d by (simp add: u_def)
    next
      case 2
      then have "x = u + 32" by (simp add: xu)
      with 2 w [of 55] show ?thesis unfolding p d by (simp add: u_def)
    next
      case 3
      then have "x = u" by (simp add: xu)
      with 3 w [of 87] show ?thesis unfolding p d by (simp add: u_def)
    next
      case 4
      have "\<not> (48 \<le> x \<and> x \<le> 57)" "\<not> (97 \<le> x \<and> x \<le> 102)" using 4 v(3) unfolding xu u_def by (simp_all split: if_splits)
      with 4 show ?thesis unfolding p d by simp
    qed
  qed
  then show "parse_digit 10 c = map_option of_nat (digit_of 10 c)" "parse_digit 16 c = map_option of_nat (digit_of 16 c)"
    by simp_all
qed

lemma digit_of_less: "b = 10 \<or> b = 16 \<Longrightarrow> digit_of b c = Some d \<Longrightarrow> d < b"
  by (auto simp: digit_of_def Let_def split: if_splits)

definition leading_digits :: "nat \<Rightarrow> u8 list \<Rightarrow> nat list" where
  "leading_digits b s = map (\<lambda>c. the (digit_of b c)) (takeWhile (\<lambda>c. digit_of b c \<noteq> None) s)"

definition after_digits :: "nat \<Rightarrow> u8 list \<Rightarrow> u8 list" where
  "after_digits b s = dropWhile (\<lambda>c. digit_of b c \<noteq> None) s"

lemma overflow_test:
  fixes myint :: u32
  assumes "d < b" "b \<le> 16"
  shows "myint > (MAXINT - of_nat d) div of_nat b \<longleftrightarrow> unat myint * b + d > 2147483647"
proof -
  have d: "unat (of_nat d :: u32) = d" "unat (of_nat b :: u32) = b" using assms by simp_all
  have "unat (MAXINT - of_nat d) = 2147483647 - d" using assms d by (simp add: unat_sub word_le_nat_alt)
  then have "myint > (MAXINT - of_nat d) div of_nat b \<longleftrightarrow> (2147483647 - d) div b < unat myint"
    using d by (simp add: word_less_nat_alt unat_div_distrib)
  also have "\<dots> \<longleftrightarrow> 2147483647 - d < unat myint * b"
    using assms by (simp add: div_less_iff_less_mult)
  finally show ?thesis using assms by linarith
qed

lemma parse_loop_value:
  assumes "mult = 10 \<and> b = 10 \<or> mult = 16 \<and> b = 16" "unat myint \<le> 2147483647"
  shows "parse_loop mult found myint s =
    (let ds = leading_digits b s; v = base_value b (unat myint) ds
     in if \<not> found \<and> ds = [] then Inl ERR_NUMBER_PARSING
        else if v > 2147483647 then Inl ERR_NUMBER_OVERFLOW else Inr (of_nat v, after_digits b s))"
  using assms
proof (induction s arbitrary: found myint)
  case Nil
  then show ?case by (auto simp: leading_digits_def after_digits_def Let_def)
next
  case (Cons c s)
  have p: "parse_digit mult c = map_option of_nat (digit_of b c)" and mb: "mult = of_nat b" and b: "b \<le> 16" "0 < b" "b = 10 \<or> b = 16"
    using Cons.prems parse_digit_of by auto
  show ?case
  proof (cases "digit_of b c")
    case None
    with Cons.prems p show ?thesis by (auto simp: leading_digits_def after_digits_def Let_def)
  next
    case (Some d)
    then have d: "d < b" using digit_of_less b by blast
    let ?m = "myint * mult + of_nat d"
    have l: "leading_digits b (c # s) = d # leading_digits b s" "after_digits b (c # s) = after_digits b s"
      using Some by (simp_all add: leading_digits_def after_digits_def)
    show ?thesis
    proof (cases "unat myint * b + d > 2147483647")
      case True
      then have "base_value b (unat myint) (leading_digits b (c # s)) > 2147483647"
        using base_value_ge [OF b(2), of "unat myint * b + d" "leading_digits b s"] unfolding l by simp
      with True overflow_test [OF d b(1), of myint] p Some l mb show ?thesis by (simp add: Let_def)
    next
      case False
      have "unat ?m = unat myint * b + d"
      proof -
        have "?m = of_nat (unat myint * b + d)" by (simp add: mb)
        then show ?thesis using False by (simp only: unat_of_nat_u32)
      qed
      with False Cons.IH [of ?m True] Cons.prems overflow_test [OF d b(1), of myint] p Some l mb show ?thesis
        by (simp add: Let_def)
    qed
  qed
qed

definition hex_prefix :: "u8 list \<Rightarrow> bool" where
  "hex_prefix s \<longleftrightarrow> take 2 s = [48, 120] \<or> take 2 s = [48, 88]"

lemma hex_prefix_test: "cur s = 48 \<and> grub_tolower (sint (cur (tl s))) = 120 \<longleftrightarrow> hex_prefix s"
proof -
  have "\<forall>c :: u8. grub_tolower (sint c) = 120 \<longleftrightarrow> c = 120 \<or> c = 88"
  proof
    fix c :: u8
    have "c = 120 \<longleftrightarrow> uint c = 120" "c = 88 \<longleftrightarrow> uint c = 88" by (simp_all add: word_uint_eq_iff)
    then show "grub_tolower (sint c) = 120 \<longleftrightarrow> c = 120 \<or> c = 88"
      using uint_u8_range [of c] by (simp add: grub_tolower_def sint_u8) linarith
  qed
  moreover have "take 2 s = [a, b] \<longleftrightarrow> (\<exists>r. s = a # b # r)" for a b
    by (cases s; cases "tl s") auto
  ultimately show ?thesis by (cases s; cases "tl s") (auto simp: hex_prefix_def cur_def grub_tolower_def)
qed

lemma safe_parse_value:
  "safe_parse_maxint s =
    (let b = (if hex_prefix s then 16 else 10);
         body = (if hex_prefix s then drop 2 s else s);
         ds = leading_digits b body
     in if ds = [] then Inl ERR_NUMBER_PARSING
        else if base_value b 0 ds > 2147483647 then Inl ERR_NUMBER_OVERFLOW
        else Inr (of_nat (base_value b 0 ds), after_digits b body))"
proof (cases "hex_prefix s")
  case True
  with parse_loop_value [of 16 16 0 False "drop 2 s"] show ?thesis
    by (simp add: safe_parse_maxint_def hex_prefix_test Let_def)
next
  case False
  with parse_loop_value [of 10 10 0 False s] show ?thesis
    by (simp add: safe_parse_maxint_def hex_prefix_test Let_def)
qed

text \<open>
  C24. Parsing a number is exact: \<open>safe_parse_maxint\<close> reads the longest run of digits, hexadecimal after a prefix
  0x or 0X and decimal otherwise. Without a digit it reports a parsing error; when the value of the digits
  exceeds the largest \<open>int\<close> an overflow; otherwise it returns the value and the rest of the text.
\<close>

theorem safe_parse_maxint_exact:
  "safe_parse_maxint s =
    (let b = (if hex_prefix s then 16 else 10);
         body = (if hex_prefix s then drop 2 s else s);
         ds = leading_digits b body
     in if ds = [] then Inl ERR_NUMBER_PARSING
        else if base_value b 0 ds > 2147483647 then Inl ERR_NUMBER_OVERFLOW
        else Inr (of_nat (base_value b 0 ds), after_digits b body))"
  by (rule safe_parse_value)

lemma digit_of_ascii: "d < b \<Longrightarrow> b = 10 \<or> b = 16 \<Longrightarrow> digit_of b (digit_ascii d) = Some d"
proof -
  have "list_all (\<lambda>d. digit_of 16 (digit_ascii d) = Some d) [0..<16]" "list_all (\<lambda>d. digit_of 10 (digit_ascii d) = Some d) [0..<10]"
    by code_simp+
  then show "d < b \<Longrightarrow> b = 10 \<or> b = 16 \<Longrightarrow> digit_of b (digit_ascii d) = Some d" by (auto simp: list_all_iff)
qed

lemma leading_digits_text:
  assumes "b = 10 \<or> b = 16" "digit_of b (cur rest) = None \<or> rest = []"
  shows "leading_digits b (base_text b n @ rest) = base_digits b n" "after_digits b (base_text b n @ rest) = rest"
proof -
  have d: "digit_of b (digit_ascii d) = Some d" if "d \<in> set (base_digits b n)" for d
    using base_digits_less [of b d n] digit_of_ascii [of d b] that assms(1) by auto
  then have a: "digit_of b c \<noteq> None" if "c \<in> set (base_text b n)" for c
    using that by (auto simp: base_text_def)
  have r: "takeWhile (\<lambda>c. digit_of b c \<noteq> None) rest = []" "dropWhile (\<lambda>c. digit_of b c \<noteq> None) rest = rest"
    using assms(2) by (cases rest; simp add: cur_def)+
  show "after_digits b (base_text b n @ rest) = rest"
    unfolding after_digits_def using a r by (simp add: dropWhile_append2)
  have "map (\<lambda>c. the (digit_of b c)) (base_text b n) = base_digits b n"
    unfolding base_text_def map_map o_def by (rule map_idI) (simp add: d)
  then show "leading_digits b (base_text b n @ rest) = base_digits b n"
    unfolding leading_digits_def using a r by (simp add: takeWhile_append2)
qed

lemma number_text_parse:
  assumes "unat n \<le> 2147483647" and "rest = [] \<or> digit_of 16 (cur rest) = None \<and> cur rest \<notin> {120, 88}"
  shows "safe_parse_maxint (convert_to_ascii 100 n @ rest) = Inr (n, rest) \<and>
    safe_parse_maxint (48 # 120 # convert_to_ascii 120 n @ rest) = Inr (n, rest)"
proof -
  have s: "\<not> sint n < 0"
  proof -
    have "int (unat n) \<le> 2147483647" using assms(1) by linarith
    then have "uint n < 2147483648" unfolding uint_nat by linarith
    moreover have "0 \<le> uint n" by simp
    ultimately have "sint n = uint n" unfolding sint_uint by (intro signed_take_bit_int_eq_self order.trans [OF _ \<open>0 \<le> uint n\<close>]) simp_all
    then show ?thesis using \<open>0 \<le> uint n\<close> by linarith
  qed
  have r10: "digit_of 10 (cur rest) = None \<or> rest = []" and r16: "digit_of 16 (cur rest) = None \<or> rest = []"
    using assms(2) by (auto simp: digit_of_def Let_def split: if_splits)
  let ?d = "base_text 10 (unat n) @ rest"
  have "\<not> hex_prefix ?d"
  proof
    assume "hex_prefix ?d"
    then obtain x ys where x: "?d = 48 # x # ys" "x = 120 \<or> x = 88"
      by (cases ?d; cases "tl ?d") (auto simp: hex_prefix_def)
    have "digit_of 10 x = None" using x(2) by (auto simp: digit_of_def)
    then have "after_digits 10 ?d = x # ys" by (simp add: x(1) after_digits_def digit_of_def)
    with leading_digits_text(2) [OF _ r10] have "rest = x # ys" by simp
    with assms(2) x(2) show False by (auto simp: cur_def)
  qed
  then have "safe_parse_maxint ?d = Inr (n, rest)"
    using leading_digits_text [of 10 rest "unat n"] r10 assms(1)
    by (simp add: safe_parse_value base_digits_value Let_def)
  moreover have "safe_parse_maxint (48 # 120 # base_text 16 (unat n) @ rest) = Inr (n, rest)"
    using leading_digits_text [of 16 rest "unat n"] r16 assms(1)
    by (simp add: safe_parse_value base_digits_value Let_def hex_prefix_def)
  ultimately show ?thesis using s by (simp add: convert_to_ascii_text)
qed

text \<open>
  C25. Numbers survive printing and parsing: what \<open>convert_to_ascii\<close> prints for a number below \<open>2\<^sup>3\<^sup>1\<close>, in decimal or
  after 0x in hexadecimal, parses back to the number and leaves the following text, provided this does not
  go on with a digit or (after a decimal zero) an x.
\<close>

theorem number_roundtrip:
  assumes "unat n \<le> 2147483647" and "rest = [] \<or> digit_of 16 (cur rest) = None \<and> cur rest \<notin> {120, 88}"
  shows "safe_parse_maxint (convert_to_ascii 100 n @ rest) = Inr (n, rest) \<and>
    safe_parse_maxint (48 # 120 # convert_to_ascii 120 n @ rest) = Inr (n, rest)"
  by (rule number_text_parse [OF assms])

theorem number_roundtrip_witness:
  "safe_parse_maxint (convert_to_ascii 100 640 @ cstr '' mem'') = Inr (640, cstr '' mem'') \<and>
   safe_parse_maxint (48 # 120 # convert_to_ascii 120 640 @ cstr '' mem'') = Inr (640, cstr '' mem'')"
  by (rule number_roundtrip) (simp_all add: cstr_def cur_def digit_of_def)

section \<open>Comparison and search\<close>

text \<open>A string as the routines compare it: signed characters, with the terminating zero.\<close>

definition signed_text :: "u8 list \<Rightarrow> int list" where
  "signed_text s = map sint s @ [0]"

lemma signed_text_Cons [simp]: "signed_text (c # s) = sint c # signed_text s"
  by (simp add: signed_text_def)

lemma signed_text_Nil [simp]: "signed_text [] = [0]"
  by (simp add: signed_text_def)

lemma sint_eq_0 [simp]: "sint (c :: u8) = 0 \<longleftrightarrow> c = 0"
  using signed_word_eqI [of c 0] by auto

lemma sint_inject: "sint (a :: u8) = sint b \<longleftrightarrow> a = b"
  using signed_word_eqI [of a b] by auto

lemma grub_strcmp_signed:
  assumes "0 \<notin> set s" and "0 \<notin> set t"
  shows "grub_strcmp s t = (if signed_text s < signed_text t then - 1 else if s = t then 0 else 1)"
  using assms
proof (induction s t rule: grub_strcmp.induct)
  case (1 s t)
  show ?case
  proof (cases s)
    case Nil
    show ?thesis
    proof (cases t)
      case (Cons b t')
      then have "b \<noteq> 0" using 1(3) by auto
      then show ?thesis unfolding Nil Cons by (subst grub_strcmp.simps) (auto simp: cur_def linorder_neq_iff)
    qed (simp add: Nil grub_strcmp.simps [of "[]"] cur_def)
  next
    case s: (Cons a s')
    show ?thesis
    proof (cases t)
      case Nil
      have "a \<noteq> 0" using s 1(2) by auto
      then show ?thesis unfolding Nil s by (subst grub_strcmp.simps) (auto simp: cur_def linorder_neq_iff)
    next
      case t: (Cons b t')
      show ?thesis
      proof (cases "a = b")
        case True
        with s t 1 have "grub_strcmp s' t' = (if signed_text s' < signed_text t' then - 1 else if s' = t' then 0 else 1)"
          by (simp add: cur_def)
        with True 1(2) show ?thesis unfolding s t by (subst grub_strcmp.simps) (auto simp: cur_def)
      next
        case False
        then have "sint a \<noteq> sint b" by (simp add: sint_inject)
        with False 1(2) show ?thesis unfolding s t by (subst grub_strcmp.simps) (auto simp: cur_def)
      qed
    qed
  qed
qed

text \<open>
  \<open>grub_strcmp\<close> decides the lexicographic order of two strings with their terminators, by signed characters:
  its result is minus one, zero or one for less, equal or greater.
\<close>

theorem grub_strcmp_order:
  assumes "0 \<notin> set s" and "0 \<notin> set t"
  shows "grub_strcmp s t = (if signed_text s < signed_text t then - 1 else if s = t then 0 else 1)"
  by (rule grub_strcmp_signed [OF assms])

theorem grub_strcmp_order_witness: "grub_strcmp (cstr ''boot'') (cstr ''booting'') = - 1"
  using grub_strcmp_order [of "cstr ''boot''" "cstr ''booting''"] by (simp add: cstr_def sint_u8)

text \<open>
  \<open>substring\<close> is zero for equal strings, minus one when the first is a proper prefix of the second, and one
  otherwise.
\<close>

theorem substring_prefix:
  "substring s t = (if s = t then 0 else if strict_prefix s t then - 1 else 1)"
  by (induction s t rule: substring.induct) auto

lemma matches_here_prefix: "matches_here ptr tmp = prefix tmp ptr"
  by (induction ptr tmp rule: matches_here.induct) auto

text \<open>
  \<open>grub_strstr\<close> finds the first occurrence: it returns an offset exactly when the needle is not empty and
  occurs there, and the needle occurs at no earlier offset. (For an empty needle it finds nothing, where C's
  \<open>strstr\<close> finds the start.)
\<close>

theorem grub_strstr_first:
  "grub_strstr s t = Some i \<longleftrightarrow> t \<noteq> [] \<and> prefix t (drop i s) \<and> (\<forall>j. j < i \<longrightarrow> \<not> prefix t (drop j s))"
proof (induction s arbitrary: i)
  case Nil
  show ?case by auto
next
  case (Cons c s)
  show ?case
  proof (cases "t \<noteq> [] \<and> prefix t (c # s)")
    case True
    then show ?thesis by (auto simp: matches_here_prefix intro: gr0I)
  next
    case False
    have "(\<forall>j. j < Suc k \<longrightarrow> \<not> prefix t (drop j (c # s))) \<longleftrightarrow>
        \<not> prefix t (c # s) \<and> (\<forall>j. j < k \<longrightarrow> \<not> prefix t (drop j s))" for k
      by (auto simp: less_Suc_eq_0_disj)
    with False Cons.IH show ?thesis by (cases i) (auto simp: matches_here_prefix)
  qed
qed

theorem grub_strstr_first_witness: "grub_strstr (cstr ''abcabd'') (cstr ''abd'') = Some 3"
proof -
  have "\<forall>j. j < 3 \<longrightarrow> \<not> prefix (cstr ''abd'') (drop j (cstr ''abcabd''))"
    by (auto simp: cstr_def numeral_eq_Suc less_Suc_eq)
  then show ?thesis unfolding grub_strstr_first by (simp add: cstr_def)
qed

lemma nul_terminate_word:
  "nul_terminate s = (cur (dropWhile (\<lambda>c. \<not> grub_isspace (sint c)) s), takeWhile (\<lambda>c. \<not> grub_isspace (sint c)) s)"
  by (induction s) (auto simp: cur_def)

section \<open>Concatenation\<close>

lemma strncat_scan_end:
  "s1 = a @ 0 # r \<Longrightarrow> 0 \<notin> set a \<Longrightarrow> length a < n \<Longrightarrow> i \<le> length a \<Longrightarrow> strncat_scan s1 n i = length a"
proof (induction s1 n i rule: strncat_scan.induct)
  case (1 s1 n i)
  show ?case
  proof (cases "i = length a")
    case True
    with 1(2-5) show ?thesis by (subst strncat_scan.simps) simp
  next
    case False
    with 1(5) have "a ! i \<in> set a" by simp
    with 1(3) have "a ! i \<noteq> 0" by metis
    with 1(2-5) False have "s1 ! i \<noteq> 0" "i < n" by (auto simp: nth_append)
    with 1 False show ?thesis by (subst strncat_scan.simps) simp
  qed
qed

lemma strncat_copy_result:
  assumes "0 \<notin> set b" "length a + length r = m" "n \<le> m" "length a \<le> n"
  shows "strncat_copy (a @ r) b n (length a) =
    (if length a + length b < n
     then (a @ b @ 0 # drop (Suc (length b)) r, Suc (length a + length b))
     else (a @ take (n - length a) b @ drop (n - length a) r, n))"
  using assms
proof (induction "n - length a" arbitrary: a b r)
  case 0
  then show ?case by (simp add: strncat_copy.simps)
next
  case (Suc k)
  then have n: "length a < n" by simp
  then obtain y ys where r: "r = y # ys" using Suc.prems by (cases r) auto
  show ?case
  proof (cases b)
    case Nil
    with n r show ?thesis by (subst strncat_copy.simps) (simp add: cur_def list_update_append)
  next
    case (Cons c cs)
    have IH: "strncat_copy ((a @ [c]) @ ys) cs n (length (a @ [c])) =
      (if length (a @ [c]) + length cs < n
       then ((a @ [c]) @ cs @ 0 # drop (Suc (length cs)) ys, Suc (length (a @ [c]) + length cs))
       else ((a @ [c]) @ take (n - length (a @ [c])) cs @ drop (n - length (a @ [c])) ys, n))"
      by (rule Suc.hyps(1)) (use Suc r Cons in auto)
    have "n - length a = Suc (n - Suc (length a))" using n by simp
    with IH n r Cons Suc.prems(1) show ?thesis
      by (subst strncat_copy.simps) (simp add: cur_def list_update_append)
  qed
qed

text \<open>
  \<open>grub_strncat\<close> never writes past \<open>n\<close> bytes: it appends as much as fits and always terminates the result, so
  that the buffer afterwards holds the first \<open>n - 1\<close> characters of the concatenation. It reports success only
  when a byte is left over: a concatenation that fits exactly is complete but reported as truncated.
\<close>

theorem grub_strncat_bounded:
  assumes "buf = a @ 0 # r" and "0 \<notin> set a" and "0 \<notin> set b" and "length a < n" and "n \<le> length buf"
  shows "\<exists>res. grub_strncat buf b n = ((if length a + length b + 1 < n then 1 else 0), res) \<and>
    length res = length buf \<and> prefix (take (n - 1) (a @ b) @ [0]) res \<and> drop n res = drop n buf"
proof -
  have s: "strncat_scan buf n 0 = length a" using strncat_scan_end [OF assms(1,2,4)] by simp
  have l: "length buf = Suc (length a + length r)" by (simp add: assms(1))
  define X where "X = (if length a + length b < n then a @ b @ 0 # drop (length b) r
      else a @ take (n - length a) b @ drop (n - length a) (0 # r))"
  define i where "i = (if length a + length b < n then Suc (length a + length b) else n)"
  have c: "strncat_copy buf b n (length a) = (X, i)"
    unfolding assms(1) using strncat_copy_result [of b a "0 # r" "length buf" n] assms(3,4,5) l by (simp add: X_def i_def)
  have lX: "length X = length buf" using assms(4,5) l by (auto simp: X_def)
  have dX: "drop n X = drop n buf" using assms(4)
    by (auto simp: X_def assms(1) drop_append drop_Cons' add.commute diff_diff_add)
  have tX: "take (n - 1) X = (if length a + length b < n then take (n - 1) (a @ b @ 0 # drop (length b) r) else take (n - 1) (a @ b))"
    using assms(4) by (auto simp: X_def min_def)
  have upd: "take n (X[n - 1 := 0]) = take (n - 1) X @ [0]"
    using assms(4,5) lX take_Suc_conv_app_nth [of "n - 1" "X[n - 1 := 0]"] by simp
  show ?thesis
  proof (cases "Suc (length a + length b) < n")
    case True
    let ?res = "X[n - 1 := 0, Suc (length a + length b) := 0]"
    have g: "grub_strncat buf b n = (1, ?res)" using True by (simp add: grub_strncat_def s c i_def Let_def)
    have "take (Suc (length a + length b)) ?res = (a @ b) @ [0]" using True by (simp add: X_def)
    then have "prefix ((a @ b) @ [0]) ?res" by (metis take_is_prefix)
    then show ?thesis using True g lX dX by simp
  next
    case False
    let ?res = "X[n - 1 := 0]"
    have g: "grub_strncat buf b n = (0, ?res)" using False assms(4) by (auto simp: grub_strncat_def s c i_def Let_def)
    have "take n ?res = take (n - 1) (a @ b) @ [0]" using False upd tX by (auto simp: not_less_eq le_Suc_eq)
    then have "prefix (take (n - 1) (a @ b) @ [0]) ?res" by (metis take_is_prefix)
    then show ?thesis using False g lX dX assms(4) by simp
  qed
qed

theorem grub_strncat_bounded_witness:
  "\<exists>res. grub_strncat (cstr ''ab'' @ [0, 7, 7, 7]) (cstr ''cde'') 5 = (0, res) \<and> prefix (cstr ''abcd'' @ [0]) res \<and> drop 5 res = [7]"
  using grub_strncat_bounded [of "cstr ''ab'' @ [0, 7, 7, 7]" "cstr ''ab''" "[7, 7, 7]" "cstr ''cde''" 5]
  by (auto simp: cstr_def)

end
