(* ===== verification/GRUB_Memory.thy ===== *)
theory GRUB_Memory
  imports GRUB_Strings Libc_String Port_IO
begin

text \<open>
  Memory access of the boot loader, from \<^verbatim>\<open>src/legacy/SZoS/grub-0.97/stage2/char_io.c\<close>: every block operation asks
  \<open>memcheck\<close> first whether its destination is memory that the machine has, and does nothing when it is not, or
  when an error is already pending in \<open>errnum\<close>. The strings copied in \<open>rep movsb\<close> instructions are written out as
  the loops they are.
\<close>

section \<open>Definitions\<close>

record grub = machine +
  errnum :: grub_error_t
  mem_lower :: u32  \<comment> \<open>\<open>mbi.mem_lower\<close> and \<open>mbi.mem_upper\<close>, in KB\<close>
  mem_upper :: u32

definition memcheck :: "u32 \<Rightarrow> u32 \<Rightarrow> 'a grub_scheme \<Rightarrow> bool \<times> 'a grub_scheme" where
  "memcheck addr len s =
     (let s = (if sint addr < 0x1000
                 \<or> (sint addr < 0x100000 \<and> mem_lower s * 1024 < addr + len)
                 \<or> (sint addr \<ge> 0x100000 \<and> mem_upper s * 1024 < (addr - 0x100000) + len)
               then s\<lparr>errnum := ERR_WONT_FIT\<rparr> else s)
      in (errnum s = ERR_NONE, s))"

definition grub_memmove :: "u32 \<Rightarrow> u32 \<Rightarrow> u32 \<Rightarrow> 'a grub_scheme \<Rightarrow> u32 \<times> 'a grub_scheme" where
  "grub_memmove to from len s =
     (let (ok, s) = memcheck to len s;
          s = (if ok then s\<lparr>mem := (if to < from then for_up (unat len) (copy_byte to from) (mem s)
                                    else for_down (unat len) (copy_byte to from) (mem s))\<rparr> else s)
      in (if errnum s \<noteq> ERR_NONE then 0 else to, s))"

definition grub_memset :: "u32 \<Rightarrow> int \<Rightarrow> u32 \<Rightarrow> 'a grub_scheme \<Rightarrow> u32 \<times> 'a grub_scheme" where
  "grub_memset start c len s =
     (let (ok, s) = memcheck start len s;
          s = (if ok then s\<lparr>mem := for_up (nat (sint len)) (\<lambda>i m. m(start + of_nat i := word_of_int c)) (mem s)\<rparr> else s)
      in (if errnum s \<noteq> ERR_NONE then 0 else start, s))"

text \<open>The loop of \<open>grub_strlen\<close> is that of \<open>strlen\<close>.\<close>

definition grub_strcpy :: "u32 \<Rightarrow> u32 \<Rightarrow> 'a grub_scheme \<Rightarrow> (u32 \<times> 'a grub_scheme) option" where
  "grub_strcpy dest src s =
     Option.bind (strlen src (mem s)) (\<lambda>n. Some (dest, snd (grub_memmove dest src (n + 1) s)))"

section \<open>Checked memory\<close>

text \<open>A block of usable memory: from 4 KB up to the end of lower memory, or in upper memory.\<close>

definition usable_block :: "nat \<Rightarrow> nat \<Rightarrow> u32 \<Rightarrow> nat \<Rightarrow> bool" where
  "usable_block lower upper p n \<longleftrightarrow>
     4096 \<le> unat p \<and> unat p < 1048576 \<and> unat p + n \<le> lower * 1024 \<or>
     1048576 \<le> unat p \<and> unat p + n \<le> 1048576 + upper * 1024"

lemma sint_u32_small:
  assumes "unat (x :: u32) < 2147483648"
  shows "sint x = int (unat x)"
proof -
  define k where "k = int (unat x)"
  have "uint x = k" "0 \<le> k" "k < 2147483648" using assms by (simp_all only: k_def uint_nat)
  then show ?thesis unfolding sint_uint k_def [symmetric] by (simp add: signed_take_bit_int_eq_self)
qed

lemma memcheck_usable:
  assumes "errnum s = ERR_NONE" "unat p + n < 2147483648" "unat len = n"
    "unat (mem_lower s) < 2097152" "unat (mem_upper s) < 2097152"
  shows "fst (memcheck p len s) \<longleftrightarrow> usable_block (unat (mem_lower s)) (unat (mem_upper s)) p n"
proof -
  define P where "P = unat p"
  have sp: "sint p = int P" unfolding P_def using assms(2) by (intro sint_u32_small) simp
  have kb: "unat (w * 1024 :: u32) = unat w * 1024" if "unat w < 2097152" for w :: u32
    using that by (simp add: unat_word_ariths)
  have a: "unat (p + len) = P + n" using assms(2,3) by (simp add: unat_word_ariths P_def)
  have b: "unat (p - 0x100000 + len) = P - 1048576 + n" if "1048576 \<le> P"
  proof -
    have "unat (p - 0x100000) = P - 1048576" using that by (simp add: unat_sub word_le_nat_alt P_def)
    then show ?thesis using assms(2,3) that by (simp add: unat_word_ariths P_def)
  qed
  show ?thesis
  proof (cases "P < 1048576")
    case True
    then show ?thesis using assms(1) kb [OF assms(4)] a
      by (auto simp: memcheck_def sp usable_block_def Let_def word_less_nat_alt P_def [symmetric])
  next
    case False
    then have "1048576 \<le> P" by simp
    from b [OF this] this show ?thesis using assms(1) kb [OF assms(5)]
      by (auto simp: memcheck_def sp usable_block_def Let_def word_less_nat_alt P_def [symmetric])
  qed
qed

lemma memcheck_fields [simp]:
  "mem (snd (memcheck p n s)) = mem s" "ports (snd (memcheck p n s)) = ports s"
  "mem_lower (snd (memcheck p n s)) = mem_lower s" "mem_upper (snd (memcheck p n s)) = mem_upper s"
  by (simp_all add: memcheck_def Let_def)

lemma memcheck_ok: "fst (memcheck p n s) \<Longrightarrow> snd (memcheck p n s) = s \<and> errnum s = ERR_NONE"
  by (auto simp: memcheck_def Let_def split: if_splits)

lemma memcheck_not_ok: "\<not> fst (memcheck p n s) \<Longrightarrow> errnum (snd (memcheck p n s)) \<noteq> ERR_NONE"
  by (simp add: memcheck_def Let_def)

lemma memcheck_refused:
  assumes "errnum s = ERR_NONE" "\<not> fst (memcheck p n s)"
  shows "snd (memcheck p n s) = s\<lparr>errnum := ERR_WONT_FIT\<rparr>"
  using assms by (auto simp: memcheck_def Let_def)

lemma grub_memmove_cases:
  "grub_memmove to from len s =
    (if fst (memcheck to len s)
     then (to, s\<lparr>mem := (if to < from then for_up (unat len) (copy_byte to from) (mem s)
                          else for_down (unat len) (copy_byte to from) (mem s))\<rparr>)
     else (0, snd (memcheck to len s)))"
proof (cases "fst (memcheck to len s)")
  case True
  then show ?thesis using memcheck_ok [OF True] by (simp add: grub_memmove_def split_beta Let_def)
next
  case False
  then show ?thesis using memcheck_not_ok [OF False] by (simp add: grub_memmove_def split_beta Let_def)
qed

lemma grub_memmove_copied:
  assumes "fst (memcheck to len s)" "no_wrap to (unat len)" "no_wrap from (unat len)"
  shows "grub_memmove to from len s = (to, s\<lparr>mem := copied (mem s) to from (unat len)\<rparr>)"
  using assms(1) move_copied [OF assms(2,3), of "mem s"] by (simp add: grub_memmove_cases)


definition fresh_grub :: grub where
  "fresh_grub = \<lparr>mem = (\<lambda>a. ucast a), ports = [], errnum = ERR_NONE, mem_lower = 640, mem_upper = 64512\<rparr>"


lemma grub_memset_cases:
  "grub_memset start c len s =
    (if fst (memcheck start len s)
     then (start, s\<lparr>mem := for_up (nat (sint len)) (\<lambda>i m. m(start + of_nat i := word_of_int c)) (mem s)\<rparr>)
     else (0, snd (memcheck start len s)))"
proof (cases "fst (memcheck start len s)")
  case True
  then show ?thesis using memcheck_ok [OF True] by (simp add: grub_memset_def split_beta Let_def)
next
  case False
  then show ?thesis using memcheck_not_ok [OF False] by (simp add: grub_memset_def split_beta Let_def)
qed

lemma grub_memset_fills:
  assumes "fst (memcheck start len s)" "unat len < 2147483648"
  shows "grub_memset start c len s =
    (start, s\<lparr>mem := (\<lambda>a. if in_region a start (unat len) then word_of_int c else mem s a)\<rparr>)"
  using assms by (simp add: grub_memset_cases sint_u32_small memset_loop less_imp_le)

end
