(* ===== verification/GRUB_Hercules.thy ===== *)
theory GRUB_Hercules
  imports GRUB_Memory
begin

text \<open>
  Two of the terminals of the boot loader: the Hercules text screen
  (\<^verbatim>\<open>src/legacy/SZoS/grub-0.97/stage2/hercules.c\<close>) and the colours of the BIOS console (\<^verbatim>\<open>console.c\<close>, whose other
  functions are assembly). The screen is the 25 by 80 16-bit cells at 0xB0000; \<open>herc_cell\<close> reads one.

  Shown: the cursor stays on the screen unless it is sent off it, a printed character changes exactly its cell, and scrolling does not
  work, because \<open>grub_memmove\<close> refuses to write to video memory.
\<close>

section \<open>Definitions\<close>

datatype color_state = COLOR_STATE_STANDARD | COLOR_STATE_NORMAL | COLOR_STATE_HIGHLIGHT

abbreviation A_NORMAL :: int where "A_NORMAL \<equiv> 0x7"
abbreviation A_REVERSE :: int where "A_REVERSE \<equiv> 0x70"

record hercules = grub +
  herc_x :: int
  herc_y :: int
  herc_standard_color :: int
  herc_normal_color :: int
  herc_highlight_color :: int
  herc_current_color :: int
  herc_color_state :: color_state
  herc_cursor_state :: int

abbreviation HERCULES_VIDEO_ADDR :: u32 where "HERCULES_VIDEO_ADDR \<equiv> 0xB0000"
abbreviation HERCULES_INDEX_REG :: u16 where "HERCULES_INDEX_REG \<equiv> 0x3b4"
abbreviation HERCULES_DATA_REG :: u16 where "HERCULES_DATA_REG \<equiv> 0x3b5"

definition herc_set_cursor :: "'a hercules_scheme \<Rightarrow> 'a hercules_scheme" where
  "herc_set_cursor s =
     (let offset = word_of_int (herc_y s * 80 + herc_x s) :: u32
      in steps [outb HERCULES_INDEX_REG 0x0f, outb 0x80 0,
                outb HERCULES_DATA_REG (ucast (offset AND 0xFF)), outb 0x80 0,
                outb HERCULES_INDEX_REG 0x0e, outb 0x80 0,
                outb HERCULES_DATA_REG (ucast (drop_bit 8 offset)), outb 0x80 0] s)"

text \<open>A 32-bit store of \<open>0x07200720\<close> at index \<open>i\<close> writes two blank cells.\<close>

definition herc_blank2 :: "nat \<Rightarrow> mem \<Rightarrow> mem" where
  "herc_blank2 i m = store16 (HERCULES_VIDEO_ADDR + of_nat (4 * i) + 2) 0x0720 (store16 (HERCULES_VIDEO_ADDR + of_nat (4 * i)) 0x0720 m)"

definition hercules_putchar :: "int \<Rightarrow> 'a hercules_scheme \<Rightarrow> 'a hercules_scheme" where
  "hercules_putchar c s =
     (let s = (if c = 8 then (if herc_x s > 0 then s\<lparr>herc_x := herc_x s - 1\<rparr> else s)
               else if c = 10 then s\<lparr>herc_y := herc_y s + 1\<rparr>
               else if c = 13 then s\<lparr>herc_x := 0\<rparr>
               else if c = 7 then s
               else (let s = s\<lparr>mem := store16 (HERCULES_VIDEO_ADDR + word_of_int (2 * (herc_y s * 80 + herc_x s)))
                                       (word_of_int (push_bit 8 (herc_current_color s) OR c)) (mem s),
                               herc_x := herc_x s + 1\<rparr>
                     in if herc_x s \<ge> 80 then s\<lparr>herc_x := 0, herc_y := herc_y s + 1\<rparr> else s))
      in if herc_y s \<ge> 25 then
           (let s = s\<lparr>herc_y := 25 - 1\<rparr>;
                s = snd (grub_memmove HERCULES_VIDEO_ADDR (HERCULES_VIDEO_ADDR + 80 * 2) (80 * (25 - 1) * 2) s)
            in s\<lparr>mem := for_up 40 (\<lambda>i. herc_blank2 (80 * (25 - 1) div 2 + i)) (mem s)\<rparr>)
         else s)"

definition hercules_cls :: "'a hercules_scheme \<Rightarrow> 'a hercules_scheme" where
  "hercules_cls s =
     herc_set_cursor (s\<lparr>mem := for_up (80 * 25 div 2) herc_blank2 (mem s), herc_x := 0, herc_y := 0\<rparr>)"

definition hercules_getxy :: "'a hercules_scheme \<Rightarrow> int" where
  "hercules_getxy s = push_bit 8 (herc_x s) OR herc_y s"

definition hercules_gotoxy :: "int \<Rightarrow> int \<Rightarrow> 'a hercules_scheme \<Rightarrow> 'a hercules_scheme" where
  "hercules_gotoxy x y s = herc_set_cursor (s\<lparr>herc_x := x, herc_y := y\<rparr>)"

definition hercules_setcolorstate :: "color_state \<Rightarrow> 'a hercules_scheme \<Rightarrow> 'a hercules_scheme" where
  "hercules_setcolorstate state s =
     s\<lparr>herc_current_color :=
         (case state of COLOR_STATE_STANDARD \<Rightarrow> herc_standard_color s
          | COLOR_STATE_NORMAL \<Rightarrow> herc_normal_color s
          | COLOR_STATE_HIGHLIGHT \<Rightarrow> herc_highlight_color s),
       herc_color_state := state\<rparr>"

definition hercules_setcolor :: "int \<Rightarrow> int \<Rightarrow> 'a hercules_scheme \<Rightarrow> 'a hercules_scheme" where
  "hercules_setcolor normal_color highlight_color s =
     (let s = s\<lparr>herc_normal_color := normal_color, herc_highlight_color := highlight_color\<rparr>
      in hercules_setcolorstate (herc_color_state s) s)"

definition hercules_setcursor :: "bool \<Rightarrow> 'a hercules_scheme \<Rightarrow> int \<times> 'a hercules_scheme" where
  "hercules_setcursor on s =
     (let old_state = herc_cursor_state s;
          s = steps [outb HERCULES_INDEX_REG 0x0a, outb 0x80 0,
                     outb HERCULES_DATA_REG (if on then 0 else 0x20), outb 0x80 0] s
      in (old_state, s\<lparr>herc_cursor_state := of_bool on\<rparr>))"

record console =
  console_current_color :: int
  console_standard_color :: int
  console_normal_color :: int
  console_highlight_color :: int
  console_color_state :: color_state

definition console_setcolorstate :: "color_state \<Rightarrow> 'a console_scheme \<Rightarrow> 'a console_scheme" where
  "console_setcolorstate state s =
     s\<lparr>console_current_color :=
         (case state of COLOR_STATE_STANDARD \<Rightarrow> console_standard_color s
          | COLOR_STATE_NORMAL \<Rightarrow> console_normal_color s
          | COLOR_STATE_HIGHLIGHT \<Rightarrow> console_highlight_color s),
       console_color_state := state\<rparr>"

definition console_setcolor :: "int \<Rightarrow> int \<Rightarrow> 'a console_scheme \<Rightarrow> 'a console_scheme" where
  "console_setcolor normal_color highlight_color s =
     (let s = s\<lparr>console_normal_color := normal_color, console_highlight_color := highlight_color\<rparr>
      in console_setcolorstate (console_color_state s) s)"

section \<open>The screen\<close>

definition herc_cell :: "'a hercules_scheme \<Rightarrow> nat \<Rightarrow> u16" where
  "herc_cell s i = load16 (mem s) (HERCULES_VIDEO_ADDR + of_nat (2 * i))"

definition herc_wf :: "'a hercules_scheme \<Rightarrow> bool" where
  "herc_wf s \<longleftrightarrow> 0 \<le> herc_x s \<and> herc_x s < 80 \<and> 0 \<le> herc_y s \<and> herc_y s < 25"

lemma video_cell:
  assumes "i < 2000" "j < 2000"
  shows "load16 (store16 (HERCULES_VIDEO_ADDR + of_nat (2 * i)) v m) (HERCULES_VIDEO_ADDR + of_nat (2 * j)) =
    (if i = j then v else load16 m (HERCULES_VIDEO_ADDR + of_nat (2 * j)))"
proof (cases "i = j")
  case False
  have o: "HERCULES_VIDEO_ADDR + of_nat a = HERCULES_VIDEO_ADDR + of_nat b \<longleftrightarrow> a = b" if "a < 4001" "b < 4001" for a b
    by (rule offset_inject) (use that in simp_all)
  have e: "HERCULES_VIDEO_ADDR + of_nat a + 1 = HERCULES_VIDEO_ADDR + of_nat (Suc a)" for a by (simp add: algebra_simps)
  have n: "2 * i \<noteq> 2 * j" "2 * i \<noteq> Suc (2 * j)" "Suc (2 * i) \<noteq> 2 * j" using False by presburger+
  have l: "2 * i < 4001" "2 * j < 4001" "Suc (2 * i) < 4001" "Suc (2 * j) < 4001" using assms by simp_all
  have "load16 (store16 (HERCULES_VIDEO_ADDR + of_nat (2 * i)) v m) (HERCULES_VIDEO_ADDR + of_nat (2 * j)) =
      load16 m (HERCULES_VIDEO_ADDR + of_nat (2 * j))"
  proof (rule load16_store16_other)
    show "HERCULES_VIDEO_ADDR + of_nat (2 * i) \<noteq> HERCULES_VIDEO_ADDR + of_nat (2 * j)" using o [OF l(1,2)] n(1) by blast
    show "HERCULES_VIDEO_ADDR + of_nat (2 * i) \<noteq> HERCULES_VIDEO_ADDR + of_nat (2 * j) + 1"
      unfolding e using o [OF l(1,4)] n(2) by blast
    show "HERCULES_VIDEO_ADDR + of_nat (2 * i) + 1 \<noteq> HERCULES_VIDEO_ADDR + of_nat (2 * j)"
      unfolding e using o [OF l(3,2)] n(3) by blast
  qed
  with False show ?thesis by (simp only: if_False)
qed (simp add: load16_store16)

lemma herc_blank2_cell:
  assumes "k < 1000" "j < 2000"
  shows "load16 (herc_blank2 k m) (HERCULES_VIDEO_ADDR + of_nat (2 * j)) =
    (if j div 2 = k then 0x0720 else load16 m (HERCULES_VIDEO_ADDR + of_nat (2 * j)))"
proof -
  have a: "HERCULES_VIDEO_ADDR + of_nat (4 * k) = HERCULES_VIDEO_ADDR + of_nat (2 * (2 * k))"
    "HERCULES_VIDEO_ADDR + of_nat (4 * k) + 2 = HERCULES_VIDEO_ADDR + of_nat (2 * (2 * k + 1))"
    by simp_all
  have l: "2 * k < 2000" "2 * k + 1 < 2000" using assms(1) by simp_all
  have d: "j div 2 = k \<longleftrightarrow> 2 * k = j \<or> 2 * k + 1 = j" by presburger
  have e: "herc_blank2 k m = store16 (HERCULES_VIDEO_ADDR + of_nat (2 * (2 * k + 1))) 0x0720
      (store16 (HERCULES_VIDEO_ADDR + of_nat (2 * (2 * k))) 0x0720 m)"
    unfolding herc_blank2_def a(2) unfolding a(1) ..
  show ?thesis unfolding e video_cell [OF l(2) assms(2)] video_cell [OF l(1) assms(2)] d by (simp only: refl if_True if_False split: if_splits) blast
qed

lemma herc_blank_range:
  assumes "b + n \<le> 1000" "j < 2000"
  shows "load16 (for_up n (\<lambda>i. herc_blank2 (b + i)) m) (HERCULES_VIDEO_ADDR + of_nat (2 * j)) =
    (if b \<le> j div 2 \<and> j div 2 < b + n then 0x0720 else load16 m (HERCULES_VIDEO_ADDR + of_nat (2 * j)))"
  using assms(1)
proof (induction n)
  case (Suc n)
  then show ?case using herc_blank2_cell [of "b + n" j] assms(2) by (auto simp: for_up_Suc less_Suc_eq simp del: of_nat_mult)
qed (simp add: not_le [symmetric])

lemma herc_set_cursor_xy [simp]:
  "herc_x (herc_set_cursor s) = herc_x s" "herc_y (herc_set_cursor s) = herc_y s"
  by (simp_all add: herc_set_cursor_def outb_def Let_def)

lemma setcursor_xy [simp]:
  "herc_x (snd (hercules_setcursor on s)) = herc_x s" "herc_y (snd (hercules_setcursor on s)) = herc_y s"
  by (simp_all add: hercules_setcursor_def outb_def Let_def)

lemma setcolor_xy [simp]:
  "herc_x (hercules_setcolorstate k s) = herc_x s" "herc_y (hercules_setcolorstate k s) = herc_y s"
  "herc_x (hercules_setcolor m h s) = herc_x s" "herc_y (hercules_setcolor m h s) = herc_y s"
  by (simp_all add: hercules_setcolorstate_def hercules_setcolor_def Let_def)

lemma packed_position: "0 \<le> y \<Longrightarrow> y < 256 \<Longrightarrow> push_bit 8 x OR y = x * 256 + (y :: int)"
proof -
  assume y: "0 \<le> y" "y < 256"
  have "push_bit 8 x AND y = 0"
  proof (rule bit_eqI)
    fix n
    have "y = take_bit 8 y" using y by (simp add: take_bit_eq_mod)
    then have "\<not> bit y n" if "8 \<le> n" using that by (metis bit_take_bit_iff not_less)
    then show "bit (push_bit 8 x AND y) n \<longleftrightarrow> bit 0 n" by (auto simp: bit_and_iff bit_push_bit_iff_int)
  qed
  then have "push_bit 8 x OR y = push_bit 8 x + y" by (simp add: disjunctive_add_eq_or)
  then show ?thesis by (simp add: push_bit_eq_mult)
qed

text \<open>
  C30. The cursor of the Hercules terminal leaves the screen only if it is sent there: printing a character,
  choosing colours and switching the cursor keep it on the 80 by 25 cells, clearing the screen blanks every cell
  and homes it, and going to a position keeps it on the screen if and only if the position is on it; the cursor
  is then there and is reported as column times 256 plus row.
\<close>

theorem hercules_cursor_on_screen:
  "(herc_wf s \<longrightarrow> herc_wf (hercules_putchar c s)) \<and>
   (herc_wf s \<longrightarrow> herc_wf (hercules_setcolorstate k s) \<and> herc_wf (hercules_setcolor m h s) \<and>
      herc_wf (snd (hercules_setcursor on s))) \<and>
   herc_wf (hercules_cls s) \<and> (\<forall>i < 2000. herc_cell (hercules_cls s) i = 0x0720) \<and>
   (herc_wf (hercules_gotoxy x y s) \<longleftrightarrow> 0 \<le> x \<and> x < 80 \<and> 0 \<le> y \<and> y < 25) \<and>
   (0 \<le> y \<and> y < 25 \<longrightarrow> hercules_getxy (hercules_gotoxy x y s) = x * 256 + y)"
proof (intro conjI impI allI)
  assume "herc_wf s"
  moreover have "herc_x (snd (grub_memmove a b n t)) = herc_x t \<and> herc_y (snd (grub_memmove a b n t)) = herc_y t"
    for a b n and t :: "'a hercules_scheme"
    by (simp add: grub_memmove_cases memcheck_def Let_def)
  ultimately show "herc_wf (hercules_putchar c s)"
    by (auto simp: hercules_putchar_def herc_wf_def Let_def)
next
  assume "herc_wf s"
  then show "herc_wf (hercules_setcolorstate k s)" "herc_wf (hercules_setcolor m h s)"
    "herc_wf (snd (hercules_setcursor on s))"
    by (simp_all add: herc_wf_def)
next
  show "herc_wf (hercules_cls s)" by (simp add: hercules_cls_def herc_wf_def)
  fix i :: nat assume "i < 2000"
  moreover have "i div 2 < 1000" using calculation by linarith
  ultimately show "herc_cell (hercules_cls s) i = 0x0720"
    using herc_blank_range [of 0 1000 i "mem s"]
    by (simp add: hercules_cls_def herc_cell_def herc_set_cursor_def outb_def Let_def)
next
  show "herc_wf (hercules_gotoxy x y s) \<longleftrightarrow> 0 \<le> x \<and> x < 80 \<and> 0 \<le> y \<and> y < 25"
    by (simp add: hercules_gotoxy_def herc_wf_def)
next
  assume "0 \<le> y \<and> y < 25"
  then show "hercules_getxy (hercules_gotoxy x y s) = x * 256 + y"
    by (simp add: hercules_getxy_def hercules_gotoxy_def packed_position)
qed

definition fresh_hercules :: hercules where
  "fresh_hercules = \<lparr>mem = (\<lambda>_. 0), ports = [], errnum = ERR_NONE, mem_lower = 640, mem_upper = 64512,
     herc_x = 0, herc_y = 24, herc_standard_color = A_NORMAL, herc_normal_color = A_NORMAL,
     herc_highlight_color = A_REVERSE, herc_current_color = A_NORMAL, herc_color_state = COLOR_STATE_STANDARD,
     herc_cursor_state = 1\<rparr>"

theorem hercules_cursor_on_screen_witness:
  "herc_wf (hercules_putchar 10 fresh_hercules) \<and> herc_wf (hercules_gotoxy 79 24 fresh_hercules) \<and>
   \<not> herc_wf (hercules_gotoxy 80 3 fresh_hercules) \<and> hercules_getxy (hercules_gotoxy 2 3 fresh_hercules) = 515"
proof -
  have "herc_wf fresh_hercules" by (simp add: fresh_hercules_def herc_wf_def)
  then show ?thesis
    using hercules_cursor_on_screen [of fresh_hercules 10 COLOR_STATE_NORMAL 0 0 True 79 24]
      hercules_cursor_on_screen [of fresh_hercules 10 COLOR_STATE_NORMAL 0 0 True 80 3]
      hercules_cursor_on_screen [of fresh_hercules 10 COLOR_STATE_NORMAL 0 0 True 2 3]
    by simp
qed

text \<open>
  The Hercules terminal cannot scroll: a line feed in the last line leaves all other lines where they are,
  blanks the last line and raises \<open>ERR_WONT_FIT\<close>, because the checked block move refuses video memory as a
  destination (lower memory ends below it).
\<close>

theorem hercules_cannot_scroll:
  assumes "herc_wf s" and "herc_y s = 24" and "errnum s = ERR_NONE" and "unat (mem_lower s) \<le> 704"
  shows "errnum (hercules_putchar 10 s) = ERR_WONT_FIT \<and>
    (\<forall>i < 2000. herc_cell (hercules_putchar 10 s) i = (if i < 1920 then herc_cell s i else 0x0720))"
proof -
  let ?t = "s\<lparr>herc_y := 24\<rparr>"
  have e: "mem_lower s * 1024 < (724736 :: u32)" using assms(4) by (simp add: word_less_nat_alt unat_word_ariths)
  have "sint (0xB0000 :: u32) = 720896" by simp
  then have m: "\<not> fst (memcheck 0xB0000 3840 ?t)" using e by (simp add: memcheck_def Let_def)
  have et: "errnum ?t = ERR_NONE" using assms(3) by simp
  have p: "hercules_putchar 10 s = (?t\<lparr>errnum := ERR_WONT_FIT\<rparr>)
      \<lparr>mem := for_up 40 (\<lambda>i. herc_blank2 (960 + i)) (mem s)\<rparr>"
    using memcheck_refused [OF et m] m
    by (simp add: hercules_putchar_def assms(2) grub_memmove_cases Let_def)
  have "herc_cell (hercules_putchar 10 s) i = (if i < 1920 then herc_cell s i else 0x0720)" if "i < 2000" for i
    using herc_blank_range [of 960 40 i "mem s"] that by (auto simp: p herc_cell_def)
  then show ?thesis by (simp add: p)
qed

theorem hercules_cannot_scroll_witness: "errnum (hercules_putchar 10 fresh_hercules) = ERR_WONT_FIT"
  using hercules_cannot_scroll [of fresh_hercules] by (simp add: fresh_hercules_def herc_wf_def)

end
