(* ===== verification/GRUB_Terminal.thy ===== *)
theory GRUB_Terminal
  imports GRUB_Hercules
begin

text \<open>
  Terminal output and input of the boot loader, from \<^verbatim>\<open>src/legacy/SZoS/grub-0.97/stage2/char_io.c\<close> with the error
  messages of \<^verbatim>\<open>common.c\<close>. A \<open>struct term_entry\<close> is a record of functions on the terminal's own state; a null
  pointer is \<^const>\<open>None\<close>. Waiting for a key may never end, which is \<^const>\<open>None\<close>, and so is a format whose
  conversions do not fit its arguments or that ends in a percent sign (the code then reads past its end).

  Shown: formatted output is exactly the reference rendering, on the terminal and in a buffer; the pager stops
  every \<open>max_lines - 2\<close> lines and goes on after a return key, as seen on a terminal that records its events.
\<close>

section \<open>Definitions\<close>

record 's term_entry =
  term_flags :: u32
  term_putchar :: "int \<Rightarrow> 's \<Rightarrow> 's"
  term_checkkey :: "'s \<Rightarrow> int \<times> 's"
  term_getkey :: "'s \<Rightarrow> (int \<times> 's) option"
  term_getxy :: "('s \<Rightarrow> int) option"
  term_gotoxy :: "int \<Rightarrow> int \<Rightarrow> 's \<Rightarrow> 's"
  term_cls :: "'s \<Rightarrow> 's"
  term_setcolorstate :: "(color_state \<Rightarrow> 's \<Rightarrow> 's) option"
  term_setcolor :: "(int \<Rightarrow> int \<Rightarrow> 's \<Rightarrow> 's) option"
  term_setcursor :: "(bool \<Rightarrow> 's \<Rightarrow> int \<times> 's) option"

abbreviation TERM_NO_ECHO :: u32 where "TERM_NO_ECHO \<equiv> 1"
abbreviation TERM_NO_EDIT :: u32 where "TERM_NO_EDIT \<equiv> 2"
abbreviation TERM_DUMB :: u32 where "TERM_DUMB \<equiv> 4"

record 's char_io =
  max_lines :: int
  count_lines :: int
  tstate :: 's

definition ASCII_CHAR :: "int \<Rightarrow> int" where
  "ASCII_CHAR x = x AND 0xFF"

definition getkey :: "'s term_entry \<Rightarrow> 's char_io \<Rightarrow> (int \<times> 's char_io) option" where
  "getkey term s = map_option (\<lambda>(k, t). (k, s\<lparr>tstate := t\<rparr>)) (term_getkey term (tstate s))"

definition checkkey :: "'s term_entry \<Rightarrow> 's char_io \<Rightarrow> int \<times> 's char_io" where
  "checkkey term s = (case term_checkkey term (tstate s) of (k, t) \<Rightarrow> (k, s\<lparr>tstate := t\<rparr>))"

definition gotoxy :: "'s term_entry \<Rightarrow> int \<Rightarrow> int \<Rightarrow> 's char_io \<Rightarrow> 's char_io" where
  "gotoxy term x y s = s\<lparr>tstate := term_gotoxy term x y (tstate s)\<rparr>"

text \<open>\<open>getxy\<close> is only called on terminals that have it.\<close>

definition getxy :: "'s term_entry \<Rightarrow> 's char_io \<Rightarrow> int" where
  "getxy term s = (case term_getxy term of Some f \<Rightarrow> f (tstate s) | None \<Rightarrow> 0)"

definition setcursor :: "'s term_entry \<Rightarrow> bool \<Rightarrow> 's char_io \<Rightarrow> int \<times> 's char_io" where
  "setcursor term on s =
     (case term_setcursor term of
        Some f \<Rightarrow> (case f on (tstate s) of (r, t) \<Rightarrow> (r, s\<lparr>tstate := t\<rparr>))
      | None \<Rightarrow> (1, s))"

text \<open>
  \<open>grub_putchar\<close> for a character that is not a newline, or while the pager is off (\<open>count_lines < 0\<close>): a newline
  is preceded by a carriage return and a tab is expanded.
\<close>

definition putchar_plain :: "'s term_entry \<Rightarrow> int \<Rightarrow> 's char_io \<Rightarrow> 's char_io" where
  "putchar_plain term c s =
     (if c = 10 then s\<lparr>tstate := term_putchar term 10 (term_putchar term 13 (tstate s))\<rparr>
      else if c = 9 \<and> term_getxy term \<noteq> None then
        (let n = 8 - (drop_bit 8 (getxy term s) AND 3)
         in s\<lparr>tstate := (term_putchar term 32 ^^ nat n) (tstate s)\<rparr>)
      else s\<lparr>tstate := term_putchar term c (tstate s)\<rparr>)"

definition set_state :: "'s term_entry \<Rightarrow> color_state \<Rightarrow> 's char_io \<Rightarrow> 's char_io" where
  "set_state term c s = (case term_setcolorstate term of Some f \<Rightarrow> s\<lparr>tstate := f c (tstate s)\<rparr> | None \<Rightarrow> s)"

partial_function (option) wait_return :: "'s term_entry \<Rightarrow> 's char_io \<Rightarrow> 's char_io option" where
  "wait_return term s =
     Option.bind (getkey term s) (\<lambda>(k, s).
       let tmp = ASCII_CHAR k
       in if tmp \<noteq> 10 \<and> tmp \<noteq> 13 then wait_return term s else Some s)"

definition grub_putchar :: "'s term_entry \<Rightarrow> int \<Rightarrow> 's char_io \<Rightarrow> 's char_io option" where
  "grub_putchar term c s =
     (if c = 10 \<and> count_lines s \<ge> 0 then
        (let s = putchar_plain term 13 s;
             s = s\<lparr>count_lines := count_lines s + 1\<rparr>
         in if count_lines s \<ge> max_lines s - 2 then
              (let s = s\<lparr>count_lines := - 1\<rparr>;
                   s = set_state term COLOR_STATE_HIGHLIGHT s;
                   s = fold (putchar_plain term) (map sint (10 # cstr ''[Hit return to continue]'')) s;
                   s = set_state term COLOR_STATE_NORMAL s
               in map_option (\<lambda>s.
                    (fold (putchar_plain term) (map sint (13 # cstr ''                        '' @ [13])) s)
                      \<lparr>count_lines := 0\<rparr>)
                    (wait_return term s))
            else Some (s\<lparr>tstate := term_putchar term c (tstate s)\<rparr>))
      else Some (putchar_plain term c s))"

primrec putchars :: "'s term_entry \<Rightarrow> int list \<Rightarrow> 's char_io \<Rightarrow> 's char_io option" where
  "putchars term [] s = Some s"
| "putchars term (c # cs) s = Option.bind (grub_putchar term c s) (putchars term cs)"

definition grub_putstr :: "'s term_entry \<Rightarrow> u8 list \<Rightarrow> 's char_io \<Rightarrow> 's char_io option" where
  "grub_putstr term str s = putchars term (map sint str) s"

text \<open>The arguments on the stack.\<close>

datatype grub_arg = ArgInt u32 | ArgStr "u8 list"

fun grub_printf :: "'s term_entry \<Rightarrow> u8 list \<Rightarrow> grub_arg list \<Rightarrow> 's char_io \<Rightarrow> 's char_io option" where
  "grub_printf term [] args s = Some s"
| "grub_printf term [c] args s = (if c \<noteq> 37 then grub_putchar term (sint c) s else None)"
| "grub_printf term (c # d # format) args s =
     (if c \<noteq> 37 then Option.bind (grub_putchar term (sint c) s) (grub_printf term (d # format) args)
      else if d \<in> {100, 120, 88, 117} then
        (case args of ArgInt v # args \<Rightarrow> Option.bind (grub_putstr term (convert_to_ascii d v) s) (grub_printf term format args)
         | _ \<Rightarrow> None)
      else if d = 99 then
        (case args of ArgInt v # args \<Rightarrow> Option.bind (grub_putchar term (uint (v AND 0xff)) s) (grub_printf term format args)
         | _ \<Rightarrow> None)
      else if d = 115 then
        (case args of ArgStr str # args \<Rightarrow> Option.bind (grub_putstr term str s) (grub_printf term format args)
         | _ \<Rightarrow> None)
      else grub_printf term format args s)"

text \<open>The text that \<open>grub_sprintf\<close> stores before the terminating zero; its result is the length of the text.\<close>

fun grub_sprintf :: "u8 list \<Rightarrow> grub_arg list \<Rightarrow> u8 list \<Rightarrow> u8 list option" where
  "grub_sprintf [] args bp = Some bp"
| "grub_sprintf [c] args bp = (if c \<noteq> 37 then Some (bp @ [c]) else None)"
| "grub_sprintf (c # d # format) args bp =
     (if c \<noteq> 37 then grub_sprintf (d # format) args (bp @ [c])
      else if d = 100 \<or> d = 117 \<or> d = 120 then
        (case args of ArgInt v # args \<Rightarrow> grub_sprintf format args (bp @ convert_to_ascii d v) | _ \<Rightarrow> None)
      else if d = 99 then
        (case args of ArgInt v # args \<Rightarrow> grub_sprintf format args (bp @ [ucast (v AND 0xff)]) | _ \<Rightarrow> None)
      else if d = 115 then
        (case args of ArgStr str # args \<Rightarrow> grub_sprintf format args (bp @ str) | _ \<Rightarrow> None)
      else grub_sprintf format args bp)"

definition cls :: "'s term_entry \<Rightarrow> 's char_io \<Rightarrow> 's char_io option" where
  "cls term s =
     (if term_flags term AND TERM_DUMB \<noteq> 0 then grub_putchar term 10 s
      else Some (s\<lparr>tstate := term_cls term (tstate s)\<rparr>))"

definition init_page :: "'s term_entry \<Rightarrow> u8 list \<Rightarrow> u32 \<Rightarrow> u32 \<Rightarrow> 's char_io \<Rightarrow> 's char_io option" where
  "init_page term version_string lower upper s =
     Option.bind (cls term s)
       (grub_printf term ([10] @ cstr ''    GNU GRUB  version %s  (%dK lower / %dK upper memory)'' @ [10, 10])
          [ArgStr version_string, ArgInt lower, ArgInt upper])"

fun err_list :: "grub_error_t \<Rightarrow> string" where
  "err_list ERR_NONE = ''''"
| "err_list ERR_BAD_ARGUMENT = ''Invalid argument''"
| "err_list ERR_BAD_FILENAME = ''Filename must be either an absolute pathname or blocklist''"
| "err_list ERR_BAD_FILETYPE = ''Bad file or directory type''"
| "err_list ERR_BAD_GZIP_DATA = ''Bad or corrupt data while decompressing file''"
| "err_list ERR_BAD_GZIP_HEADER = ''Bad or incompatible header in compressed file''"
| "err_list ERR_BAD_PART_TABLE = ''Partition table invalid or corrupt''"
| "err_list ERR_BAD_VERSION = ''Mismatched or corrupt version of stage1/stage2''"
| "err_list ERR_BELOW_1MB = ''Loading below 1MB is not supported''"
| "err_list ERR_BOOT_COMMAND = ''Kernel must be loaded before booting''"
| "err_list ERR_BOOT_FAILURE = ''Unknown boot failure''"
| "err_list ERR_BOOT_FEATURES = ''Unsupported Multiboot features requested''"
| "err_list ERR_DEV_FORMAT = ''Unrecognized device string''"
| "err_list ERR_DEV_NEED_INIT = ''Device not initialized yet''"
| "err_list ERR_DEV_VALUES = ''Invalid device requested''"
| "err_list ERR_EXEC_FORMAT = ''Invalid or unsupported executable format''"
| "err_list ERR_FILELENGTH = ''Filesystem compatibility error, cannot read whole file''"
| "err_list ERR_FILE_NOT_FOUND = ''File not found''"
| "err_list ERR_FSYS_CORRUPT = ''Inconsistent filesystem structure''"
| "err_list ERR_FSYS_MOUNT = ''Cannot mount selected partition''"
| "err_list ERR_GEOM = ''Selected cylinder exceeds maximum supported by BIOS''"
| "err_list ERR_NEED_LX_KERNEL = ''Linux kernel must be loaded before initrd''"
| "err_list ERR_NEED_MB_KERNEL = ''Multiboot kernel must be loaded before modules''"
| "err_list ERR_NO_DISK = ''Selected disk does not exist''"
| "err_list ERR_NO_DISK_SPACE = ''No spare sectors on the disk''"
| "err_list ERR_NO_PART = ''No such partition''"
| "err_list ERR_NUMBER_OVERFLOW = ''Overflow while parsing number''"
| "err_list ERR_NUMBER_PARSING = ''Error while parsing number''"
| "err_list ERR_OUTSIDE_PART = ''Attempt to access block outside partition''"
| "err_list ERR_PRIVILEGED = ''Must be authenticated''"
| "err_list ERR_READ = ''Disk read error''"
| "err_list ERR_SYMLINK_LOOP = ''Too many symbolic links''"
| "err_list ERR_UNALIGNED = ''File is not sector aligned''"
| "err_list ERR_UNRECOGNIZED = ''Unrecognized command''"
| "err_list ERR_WONT_FIT = ''Selected item cannot fit into memory''"
| "err_list ERR_WRITE = ''Disk write error''"

definition errors_in_order :: "grub_error_t list" where
  "errors_in_order =
    [ERR_NONE, ERR_BAD_FILENAME, ERR_BAD_FILETYPE, ERR_BAD_GZIP_DATA, ERR_BAD_GZIP_HEADER, ERR_BAD_PART_TABLE,
     ERR_BAD_VERSION, ERR_BELOW_1MB, ERR_BOOT_COMMAND, ERR_BOOT_FAILURE, ERR_BOOT_FEATURES, ERR_DEV_FORMAT,
     ERR_DEV_VALUES, ERR_EXEC_FORMAT, ERR_FILELENGTH, ERR_FILE_NOT_FOUND, ERR_FSYS_CORRUPT, ERR_FSYS_MOUNT,
     ERR_GEOM, ERR_NEED_LX_KERNEL, ERR_NEED_MB_KERNEL, ERR_NO_DISK, ERR_NO_PART, ERR_NUMBER_PARSING,
     ERR_OUTSIDE_PART, ERR_READ, ERR_SYMLINK_LOOP, ERR_UNRECOGNIZED, ERR_WONT_FIT, ERR_WRITE, ERR_BAD_ARGUMENT,
     ERR_UNALIGNED, ERR_PRIVILEGED, ERR_DEV_NEED_INIT, ERR_NO_DISK_SPACE, ERR_NUMBER_OVERFLOW]"

text \<open>The number of an error code.\<close>

definition err_number :: "grub_error_t \<Rightarrow> u32" where
  "err_number e = of_nat (length (takeWhile (\<lambda>x. x \<noteq> e) errors_in_order))"

definition print_error :: "'s term_entry \<Rightarrow> grub_error_t \<Rightarrow> 's char_io \<Rightarrow> 's char_io option" where
  "print_error term e s =
     (if e \<noteq> ERR_NONE
      then grub_printf term ([10] @ cstr ''Error %u: %s'' @ [10]) [ArgInt (err_number e), ArgStr (cstr (err_list e))] s
      else Some s)"

section \<open>Formatted output\<close>

text \<open>The characters a format stands for, as the integers that \<open>putchar\<close> gets.\<close>

fun grub_render :: "u8 list \<Rightarrow> grub_arg list \<Rightarrow> int list option" where
  "grub_render [] args = Some []"
| "grub_render [c] args = (if c \<noteq> 37 then Some [sint c] else None)"
| "grub_render (c # d # format) args =
     (if c \<noteq> 37 then map_option ((#) (sint c)) (grub_render (d # format) args)
      else if d \<in> {100, 120, 88, 117} then
        (case args of ArgInt v # args \<Rightarrow> map_option ((@) (map sint (convert_to_ascii d v))) (grub_render format args) | _ \<Rightarrow> None)
      else if d = 99 then
        (case args of ArgInt v # args \<Rightarrow> map_option ((#) (uint (v AND 0xff))) (grub_render format args) | _ \<Rightarrow> None)
      else if d = 115 then
        (case args of ArgStr str # args \<Rightarrow> map_option ((@) (map sint str)) (grub_render format args) | _ \<Rightarrow> None)
      else grub_render format args)"

lemma putchars_append: "putchars term (xs @ ys) s = Option.bind (putchars term xs s) (putchars term ys)"
proof (induction xs arbitrary: s)
  case (Cons c xs)
  then show ?case by (cases "grub_putchar term c s") simp_all
qed simp

lemma printf_putchars:
  assumes "grub_render format args = Some cs"
  shows "grub_printf term format args s = putchars term cs s"
  using assms
proof (induction format args arbitrary: cs s rule: grub_render.induct)
  case (3 c d format args)
  consider (plain) "c \<noteq> 37" | (num) "c = 37" "d \<in> {100, 120, 88, 117}" | (char) "c = 37" "d = 99" | (str) "c = 37" "d = 115"
    | (other) "c = 37" "d \<notin> {100, 120, 88, 117, 99, 115}" by auto
  then show ?case
  proof cases
    case plain
    then obtain cs' where c: "grub_render (d # format) args = Some cs'" "cs = sint c # cs'" using "3.prems" by auto
    have "grub_printf term (d # format) args t = putchars term cs' t" for t using "3.IH"(1) [OF plain c(1)] .
    then show ?thesis using plain c(2) by (cases "grub_putchar term (sint c) s") simp_all
  next
    case num
    with "3.prems" obtain v as cs' where a: "args = ArgInt v # as" "grub_render format as = Some cs'"
      "cs = map sint (convert_to_ascii d v) @ cs'"
      by (auto split: list.splits grub_arg.splits)
    have "grub_printf term format as t = putchars term cs' t" for t
      using "3.IH"(2) [OF _ num(2) a(1) refl a(2)] num(1) by simp
    then have f: "grub_printf term format as = putchars term cs'" by (rule ext)
    from num a(1,3) show ?thesis by (auto simp: grub_putstr_def putchars_append f)
  next
    case char
    with "3.prems" obtain v as cs' where a: "args = ArgInt v # as" "grub_render format as = Some cs'"
      "cs = uint (v AND 0xff) # cs'"
      by (auto split: list.splits grub_arg.splits)
    have "grub_printf term format as t = putchars term cs' t" for t
      using "3.IH"(3) [OF _ _ char(2) a(1) refl a(2)] char by simp
    then have f: "grub_printf term format as = putchars term cs'" by (rule ext)
    from char a(1,3) show ?thesis by (simp add: f)
  next
    case str
    with "3.prems" obtain v as cs' where a: "args = ArgStr v # as" "grub_render format as = Some cs'"
      "cs = map sint v @ cs'"
      by (auto split: list.splits grub_arg.splits)
    have "grub_printf term format as t = putchars term cs' t" for t
      using "3.IH"(4) [OF _ _ _ str(2) a(1) refl a(2)] str by simp
    then have f: "grub_printf term format as = putchars term cs'" by (rule ext)
    from str a(1,3) show ?thesis by (simp add: grub_putstr_def putchars_append f)
  next
    case other
    with "3.prems" "3.IH"(5) show ?thesis by simp
  qed
next
  case (2 c args)
  then show ?case by (cases "grub_putchar term (sint c) s") (auto split: if_splits)
qed (auto split: if_splits)

lemma printf_undefined:
  assumes "grub_render format args = None"
  shows "grub_printf term format args s = None"
  using assms
proof (induction format args arbitrary: s rule: grub_render.induct)
  case (3 c d format args)
  then show ?case by (auto split: if_splits list.splits grub_arg.splits simp: bind_eq_None_conv)
qed (auto split: if_splits)

lemma grub_printf_render:
  "grub_printf term format args s = Option.bind (grub_render format args) (\<lambda>cs. putchars term cs s)"
  using printf_putchars [of format args _ "term" s] printf_undefined [of format args "term" s]
  by (cases "grub_render format args") simp_all

text \<open>
  What a message consists of, apart from any format: the text of each piece in positional notation, and the format
  and the arguments that ask for it.
\<close>

datatype piece = Plain "u8 list" | Signed u32 | Unsigned u32 | Hexadecimal u32 | UpperHex u32 | Character u32 | Str "u8 list"

primrec piece_format :: "piece \<Rightarrow> u8 list" where
  "piece_format (Plain str) = str"
| "piece_format (Signed v) = cstr ''%d''"
| "piece_format (Unsigned v) = cstr ''%u''"
| "piece_format (Hexadecimal v) = cstr ''%x''"
| "piece_format (UpperHex v) = cstr ''%X''"
| "piece_format (Character v) = cstr ''%c''"
| "piece_format (Str str) = cstr ''%s''"

primrec piece_args :: "piece \<Rightarrow> grub_arg list" where
  "piece_args (Plain str) = []"
| "piece_args (Signed v) = [ArgInt v]"
| "piece_args (Unsigned v) = [ArgInt v]"
| "piece_args (Hexadecimal v) = [ArgInt v]"
| "piece_args (UpperHex v) = [ArgInt v]"
| "piece_args (Character v) = [ArgInt v]"
| "piece_args (Str str) = [ArgStr str]"

primrec piece_text :: "piece \<Rightarrow> int list" where
  "piece_text (Plain str) = map sint str"
| "piece_text (Signed v) = map sint ((if sint v < 0 then cstr ''-'' else []) @ base_text 10 (nat \<bar>sint v\<bar>))"
| "piece_text (Unsigned v) = map sint (base_text 10 (unat v))"
| "piece_text (Hexadecimal v) = map sint (base_text 16 (unat v))"
| "piece_text (UpperHex v) = map sint (base_text 16 (unat v))"
| "piece_text (Character v) = [uint v mod 256]"
| "piece_text (Str str) = map sint str"

lemma render_plain_text:
  "37 \<notin> set str \<Longrightarrow> grub_render (str @ format) args = map_option ((@) (map sint str)) (grub_render format args)"
proof (induction str)
  case (Cons c str)
  have "grub_render (c # fm) args = map_option ((#) (sint c)) (grub_render fm args)" if "c \<noteq> 37" for fm
    using that by (cases fm) simp_all
  then have "grub_render (c # str @ format) args = map_option ((#) (sint c)) (grub_render (str @ format) args)"
    using Cons.prems by simp
  with Cons show ?case by (simp add: option.map_comp o_def)
next
  case Nil
  then show ?case by (cases "grub_render format args") simp_all
qed

lemma low_byte_mod: "uint (v AND 0xff :: u32) = uint v mod 256"
proof -
  have "v AND 0xff = take_bit 8 v" by (simp add: take_bit_eq_mask mask_eq_exp_minus_1)
  then have "uint (v AND 0xff) = take_bit 8 (uint v)" by (simp only: unsigned_take_bit_eq)
  then show ?thesis by (simp add: take_bit_eq_mod)
qed

lemma render_piece:
  assumes "\<forall>str. p = Plain str \<longrightarrow> 37 \<notin> set str"
  shows "grub_render (piece_format p @ format) (piece_args p @ args) =
    map_option ((@) (piece_text p)) (grub_render format args)"
proof (cases p)
  case (Plain str)
  with assms render_plain_text show ?thesis by simp
next
  case (Signed v)
  have "nat \<bar>sint v\<bar> = unat v" if "\<not> sint v < 0"
  proof -
    have "\<not> bit (uint v) 31" using that by (simp add: sint_uint signed_take_bit_negative_iff)
    moreover have "take_bit 31 (uint v) = uint v"
    proof (rule bit_eqI)
      fix n show "bit (take_bit 31 (uint v)) n \<longleftrightarrow> bit (uint v) n"
        using calculation bit_imp_le_length [of v n] by (cases "n = 31") (auto simp: bit_take_bit_iff bit_uint_iff)
    qed
    ultimately have "sint v = uint v" by (simp add: sint_uint signed_take_bit_eq_if_positive)
    then show ?thesis by simp
  qed
  with Signed show ?thesis by (auto simp: cstr_def convert_to_ascii_text)
next
  case (Character v)
  then show ?thesis by (simp add: cstr_def low_byte_mod) (metis append_Cons append_Nil)
qed (simp_all add: cstr_def convert_to_ascii_text)

lemma render_pieces:
  assumes "\<forall>str. Plain str \<in> set ps \<longrightarrow> 37 \<notin> set str"
  shows "grub_render (concat (map piece_format ps)) (concat (map piece_args ps)) = Some (concat (map piece_text ps))"
  using assms
proof (induction ps)
  case (Cons p ps)
  then show ?case by (simp add: render_piece)
qed simp

text \<open>
  C23. \<open>grub_printf\<close> prints what its format asks for, through any terminal and with the pager: for any sequence of
  plain text without percent signs and of conversions, exactly their texts are put out in this order: a signed
  number as its sign and the decimal digits of its absolute value, an unsigned one as its decimal and a
  hexadecimal one as its hexadecimal digits from the most significant on, a character by its low byte and a string as it is.
\<close>

theorem grub_printf_renders:
  assumes "\<forall>str. Plain str \<in> set ps \<longrightarrow> 37 \<notin> set str"
  shows "grub_printf term (concat (map piece_format ps)) (concat (map piece_args ps)) s =
    putchars term (concat (map piece_text ps)) s"
  by (rule printf_putchars [OF render_pieces [OF assms]])

theorem grub_printf_renders_witness:
  "\<forall>(tm :: hercules term_entry) s. grub_printf tm (cstr ''%d: %x%c'') [ArgInt (- 5), ArgInt 255, ArgInt 0x141] s =
     putchars tm (map sint (cstr ''-5: ffA'')) s"
proof (intro allI)
  fix tm :: "hercules term_entry" and s
  let ?ps = "[Signed (- 5), Plain (cstr '': ''), Hexadecimal 255, Character 0x141]"
  have h: "\<forall>str. Plain str \<in> set ?ps \<longrightarrow> 37 \<notin> set str" by (simp add: cstr_def)
  have f: "concat (map piece_format ?ps) = cstr ''%d: %x%c''" by (simp add: cstr_def)
  have a: "concat (map piece_args ?ps) = [ArgInt (- 5), ArgInt 255, ArgInt 0x141]" by simp
  have "base_text 10 5 = cstr ''5''" "base_text 16 255 = cstr ''ff''"
    by (simp_all add: base_text_def base_digits.simps digit_ascii_def cstr_def)
  then have t: "concat (map piece_text ?ps) = map sint (cstr ''-5: ffA'')" by (simp add: cstr_def)
  show "grub_printf tm (cstr ''%d: %x%c'') [ArgInt (- 5), ArgInt 255, ArgInt 0x141] s = putchars tm (map sint (cstr ''-5: ffA'')) s"
    using grub_printf_renders [OF h, of tm s] unfolding f a t .
qed

text \<open>\<open>grub_sprintf\<close> does not know \<^verbatim>\<open>%X\<close>.\<close>

fun no_upper_x :: "u8 list \<Rightarrow> bool" where
  "no_upper_x (c # d # format) = (if c \<noteq> 37 then no_upper_x (d # format) else d \<noteq> 88 \<and> no_upper_x format)"
| "no_upper_x format = True"

lemma ucast_and_ff: "word_of_int (uint (v AND 0xff :: u32)) = (ucast (v AND 0xff) :: u8)"
  by simp

text \<open>
  \<open>grub_sprintf\<close> stores the same characters that \<open>grub_printf\<close> prints, for every format without \<^verbatim>\<open>%X\<close>, which it
  ignores together with the argument's place.
\<close>

theorem grub_sprintf_renders:
  assumes "no_upper_x format"
  shows "grub_sprintf format args bp = map_option (\<lambda>cs. bp @ map word_of_int cs) (grub_render format args)"
  using assms
proof (induction format args bp rule: grub_sprintf.induct)
  case (3 c d format args bp)
  consider (plain) "c \<noteq> 37" | (num) "c = 37" "d = 100 \<or> d = 117 \<or> d = 120" | (char) "c = 37" "d = 99" | (str) "c = 37" "d = 115"
    | (other) "c = 37" "d \<notin> {100, 120, 88, 117, 99, 115}" using "3.prems" by auto
  then show ?case
  proof cases
    case plain
    with 3 show ?thesis by (simp add: option.map_comp o_def)
  next
    case num
    then have "d \<in> {100, 120, 88, 117}" "d \<noteq> 88" by auto
    with num 3 show ?thesis
      by (auto simp: option.map_comp o_def map_idI split: list.splits grub_arg.splits)
  next
    case char
    with 3 show ?thesis by (auto simp: option.map_comp o_def split: list.splits grub_arg.splits)
  next
    case str
    with 3 show ?thesis by (auto simp: option.map_comp o_def map_idI split: list.splits grub_arg.splits)
  next
    case other
    with 3 show ?thesis by simp
  qed
qed (auto simp: o_def)

theorem grub_sprintf_renders_witness:
  "grub_sprintf (cstr ''%u-%s'') [ArgInt 42, ArgStr (cstr ''ab'')] [] = Some (cstr ''42-ab'')"
proof -
  have h: "no_upper_x (cstr ''%u-%s'')" by (simp add: cstr_def)
  have "base_text 10 42 = cstr ''42''" by (simp add: base_text_def base_digits.simps digit_ascii_def cstr_def)
  then show ?thesis unfolding grub_sprintf_renders [OF h] by (simp add: cstr_def convert_to_ascii_text)
qed

section \<open>Errors\<close>

lemma errors_in_order_complete: "distinct errors_in_order" "set errors_in_order = UNIV"
proof -
  show "distinct errors_in_order" by (simp add: errors_in_order_def)
  have "e \<in> set errors_in_order" for e by (cases e) (simp_all add: errors_in_order_def)
  then show "set errors_in_order = UNIV" by blast
qed

lemma takeWhile_neq_nth: "distinct xs \<Longrightarrow> i < length xs \<Longrightarrow> length (takeWhile (\<lambda>x. x \<noteq> xs ! i) xs) = i"
proof (induction xs arbitrary: i)
  case (Cons x xs)
  then show ?case by (cases i) auto
qed simp

text \<open>
  Every error has its number and its message: the numbers run from 0 to 35 without gaps, every code but
  \<open>ERR_NONE\<close> has a message of its own, and \<open>print_error\<close> prints a line with both, or nothing without an error.
\<close>

theorem print_error_message:
  "(\<exists>i < 36. e = errors_in_order ! i \<and> err_number e = of_nat i) \<and> inj err_list \<and>
   print_error term e s =
     (if e = ERR_NONE then Some s
      else putchars term (map sint ([10] @ cstr ''Error '' @ base_text 10 (unat (err_number e)) @ cstr '': '' @ cstr (err_list e) @ [10])) s)"
proof (intro conjI)
  have "e \<in> set errors_in_order" by (simp add: errors_in_order_complete)
  then obtain i where i: "i < length errors_in_order" "e = errors_in_order ! i" by (auto simp: in_set_conv_nth)
  moreover have "length errors_in_order = 36" by (simp add: errors_in_order_def)
  ultimately show "\<exists>i < 36. e = errors_in_order ! i \<and> err_number e = of_nat i"
    using takeWhile_neq_nth [OF errors_in_order_complete(1), of i] by (auto simp: err_number_def)
  have "distinct (map err_list errors_in_order)" by (simp add: errors_in_order_def)
  then show "inj err_list" by (simp add: distinct_map errors_in_order_complete)
  have r: "grub_render ([10] @ cstr ''Error %u: %s'' @ [10]) [ArgInt v, ArgStr str] =
      Some (map sint ([10] @ cstr ''Error '' @ base_text 10 (unat v) @ cstr '': '' @ str @ [10]))" for v str
    by (simp add: cstr_def convert_to_ascii_text)
  show "print_error term e s = (if e = ERR_NONE then Some s
      else putchars term (map sint ([10] @ cstr ''Error '' @ base_text 10 (unat (err_number e)) @ cstr '': '' @ cstr (err_list e) @ [10])) s)"
    unfolding print_error_def printf_putchars [OF r] by simp
qed

section \<open>The pager\<close>

lemma plain_fields [simp]:
  "max_lines (putchar_plain term c s) = max_lines s" "count_lines (putchar_plain term c s) = count_lines s"
  "max_lines (set_state term k s) = max_lines s" "count_lines (set_state term k s) = count_lines s"
  by (simp_all add: putchar_plain_def set_state_def Let_def split: option.splits)

lemma plain_fold [simp]:
  "max_lines (fold (putchar_plain term) cs s) = max_lines s" "count_lines (fold (putchar_plain term) cs s) = count_lines s"
  by (induction cs arbitrary: s) simp_all

text \<open>
  What happens at a terminal, latest first: the characters shown and the keys read. Any terminal can be observed
  without a change to what it does.
\<close>

datatype tty_event = Shown int | Pressed int

definition observed :: "'s term_entry \<Rightarrow> ('s \<times> tty_event list) term_entry" where
  "observed tm =
     \<lparr>term_flags = term_flags tm,
      term_putchar = (\<lambda>c (t, es). (term_putchar tm c t, Shown c # es)),
      term_checkkey = (\<lambda>(t, es). case term_checkkey tm t of (k, t) \<Rightarrow> (k, (t, es))),
      term_getkey = (\<lambda>(t, es). map_option (\<lambda>(k, t). (k, (t, Pressed k # es))) (term_getkey tm t)),
      term_getxy = map_option (\<lambda>f (t, es). f t) (term_getxy tm),
      term_gotoxy = (\<lambda>x y (t, es). (term_gotoxy tm x y t, es)),
      term_cls = (\<lambda>(t, es). (term_cls tm t, es)),
      term_setcolorstate = map_option (\<lambda>f k (t, es). (f k t, es)) (term_setcolorstate tm),
      term_setcolor = map_option (\<lambda>f m h (t, es). (f m h t, es)) (term_setcolor tm),
      term_setcursor = map_option (\<lambda>f on (t, es). case f on t of (r, t) \<Rightarrow> (r, (t, es))) (term_setcursor tm)\<rparr>"

abbreviation events :: "('s \<times> tty_event list) char_io \<Rightarrow> tty_event list" where "events s \<equiv> snd (tstate s)"

fun is_return :: "tty_event \<Rightarrow> bool" where
  "is_return (Pressed k) = (k mod 256 = 10 \<or> k mod 256 = 13)"
| "is_return (Shown c) = False"

text \<open>The new lines shown since the return key was last pressed, and all of them.\<close>

definition unread_lines :: "tty_event list \<Rightarrow> nat" where
  "unread_lines es = count_list (takeWhile (\<lambda>e. \<not> is_return e) es) (Shown 10)"

definition returns :: "tty_event list \<Rightarrow> nat" where
  "returns es = length (filter is_return es)"

text \<open>At no time more than \<open>n\<close> unread lines.\<close>

primrec readable :: "nat \<Rightarrow> tty_event list \<Rightarrow> bool" where
  "readable n [] = True"
| "readable n (e # es) = (unread_lines (e # es) \<le> n \<and> readable n es)"

lemma unread_lines_simps [simp]:
  "unread_lines [] = 0" "is_return e \<Longrightarrow> unread_lines (e # es) = 0"
  "unread_lines (Shown c # es) = (if c = 10 then Suc (unread_lines es) else unread_lines es)"
  "\<not> is_return (Pressed k) \<Longrightarrow> unread_lines (Pressed k # es) = unread_lines es"
  "returns [] = 0" "returns (e # es) = of_bool (is_return e) + returns es"
  by (simp_all add: unread_lines_def returns_def)

text \<open>Events that show no new line and are no return key.\<close>

definition silent :: "tty_event list \<Rightarrow> bool" where
  "silent es \<longleftrightarrow> (\<forall>e \<in> set es. e \<noteq> Shown 10 \<and> \<not> is_return e)"

lemma silent_simps [simp]:
  "silent []" "silent (e # es) \<longleftrightarrow> e \<noteq> Shown 10 \<and> \<not> is_return e \<and> silent es"
  by (auto simp: silent_def)

lemma silent_append:
  assumes "silent es"
  shows "unread_lines (es @ fs) = unread_lines fs" "count_list es (Shown 10) = 0"
    "returns (es @ fs) = returns fs" "readable n fs \<Longrightarrow> unread_lines fs \<le> n \<Longrightarrow> readable n (es @ fs)"
proof -
  have u: "silent es \<Longrightarrow> unread_lines (es @ fs) = unread_lines fs" for es
  proof (induction es)
    case (Cons e es)
    then show ?case by (cases e) auto
  qed simp
  with assms show "unread_lines (es @ fs) = unread_lines fs" by simp
  show "count_list es (Shown 10) = 0"
    using assms by (auto simp: silent_def count_list_0_iff)
  show "returns (es @ fs) = returns fs" using assms by (auto simp: returns_def silent_def filter_empty_conv)
  assume "readable n fs" "unread_lines fs \<le> n"
  with assms show "readable n (es @ fs)"
  proof (induction es)
    case (Cons e es)
    then have "unread_lines (e # es @ fs) = unread_lines fs" by (cases e) (auto simp: u silent_def)
    with Cons show ?case by simp
  qed simp
qed

text \<open>Waiting reads keys up to the first return key; everything but a new line is silent.\<close>

lemma wait_return_events:
  fixes tm :: "'a term_entry"
  assumes "wait_return (observed tm) s = Some t"
  shows "\<exists>k ks. is_return (Pressed k) \<and> (\<forall>k \<in> set ks. \<not> is_return (Pressed k)) \<and>
    events t = Pressed k # map Pressed ks @ events s \<and> max_lines t = max_lines s"
proof -
  define Q where "Q = (\<lambda>(tm' :: ('a \<times> tty_event list) term_entry) (s :: ('a \<times> tty_event list) char_io) (t :: ('a \<times> tty_event list) char_io). tm' = observed tm \<longrightarrow>
    (\<exists>k ks. is_return (Pressed k) \<and> (\<forall>k \<in> set ks. \<not> is_return (Pressed k)) \<and>
    events t = Pressed k # map Pressed ks @ events s \<and> max_lines t = max_lines s))"
  have "Q (observed tm) s t"
  proof (rule wait_return.raw_induct [where P = Q, OF _ assms])
    fix w and tm' :: "('a \<times> tty_event list) term_entry" and s t :: "('a \<times> tty_event list) char_io"
    assume IH: "\<And>tm' s t. w tm' s = Some t \<Longrightarrow> Q tm' s t"
      and r: "Option.bind (getkey tm' s) (\<lambda>(k, s). let tmp = ASCII_CHAR k
         in if tmp \<noteq> 10 \<and> tmp \<noteq> 13 then w tm' s else Some s) = Some t"
    have ascii: "ASCII_CHAR k = k mod 256" for k
      using take_bit_eq_mask [of 8 k] by (simp add: ASCII_CHAR_def take_bit_eq_mod mask_eq_exp_minus_1)
    show "Q tm' s t"
      unfolding Q_def
    proof
      assume tm': "tm' = observed tm"
      from r obtain k u where k: "getkey tm' s = Some (k, u)" "(if is_return (Pressed k) then Some u else w tm' u) = Some t"
        by (auto simp: bind_eq_Some_conv Let_def ascii split: if_splits)
      have u: "events u = Pressed k # events s" "max_lines u = max_lines s"
        using k(1) by (auto simp: tm' getkey_def observed_def split: prod.splits)
      show "\<exists>k ks. is_return (Pressed k) \<and> (\<forall>k \<in> set ks. \<not> is_return (Pressed k)) \<and>
          events t = Pressed k # map Pressed ks @ events s \<and> max_lines t = max_lines s"
      proof (cases "is_return (Pressed k)")
        case True
        then have "u = t" using k(2) by simp
        with u True show ?thesis by (intro exI [of _ k] exI [of _ "[]"]) simp
      next
        case False
        then have "Q tm' u t" using k(2) IH by simp
        then obtain l ks where "is_return (Pressed l)" "\<forall>k \<in> set ks. \<not> is_return (Pressed k)"
          "events t = Pressed l # map Pressed ks @ events u" "max_lines t = max_lines u"
          unfolding Q_def tm' by auto
        with False u show ?thesis by (intro exI [of _ l] exI [of _ "ks @ [k]"]) auto
      qed
    qed
  qed
  then show ?thesis by (simp add: Q_def)
qed

lemma plain_events:
  "c \<noteq> 10 \<Longrightarrow> \<exists>es. silent es \<and> events (putchar_plain (observed tm) c s) = es @ events s"
  "events (putchar_plain (observed tm) 10 s) = Shown 10 # Shown 13 # events s"
  "events (set_state (observed tm) k s) = events s"
proof -
  have p: "events (s\<lparr>tstate := term_putchar (observed tm) c (tstate s)\<rparr>) = Shown c # events s" for c
    by (cases "tstate s") (simp add: observed_def)
  have r: "snd ((term_putchar (observed tm) 32 ^^ n) u) = replicate n (Shown 32) @ snd u" for n u
    by (induction n) (simp_all add: observed_def case_prod_beta)
  assume "c \<noteq> 10"
  show "\<exists>es. silent es \<and> events (putchar_plain (observed tm) c s) = es @ events s"
  proof (cases "c = 9 \<and> term_getxy (observed tm) \<noteq> None")
    case True
    then have "\<exists>n. events (putchar_plain (observed tm) c s) = replicate n (Shown 32) @ events s"
      by (auto simp: putchar_plain_def Let_def r)
    moreover have "silent (replicate n (Shown 32))" for n by (simp add: silent_def)
    ultimately show ?thesis by blast
  next
    case False
    with \<open>c \<noteq> 10\<close> have e: "putchar_plain (observed tm) c s = s\<lparr>tstate := term_putchar (observed tm) c (tstate s)\<rparr>"
      by (auto simp: putchar_plain_def)
    have "events (putchar_plain (observed tm) c s) = [Shown c] @ events s" unfolding e p by simp
    with \<open>c \<noteq> 10\<close> show ?thesis by (intro exI [of _ "[Shown c]"]) simp
  qed
next
  show "events (putchar_plain (observed tm) 10 s) = Shown 10 # Shown 13 # events s"
    by (cases "tstate s") (simp add: putchar_plain_def observed_def)
  show "events (set_state (observed tm) k s) = events s"
    by (cases "tstate s") (simp add: set_state_def observed_def split: option.splits)
qed

lemma plain_fold_events:
  "10 \<notin> set cs \<Longrightarrow> \<exists>es. silent es \<and> events (fold (putchar_plain (observed tm)) cs s) = es @ events s"
proof (induction cs arbitrary: s)
  case (Cons c cs)
  from plain_events(1) [of c tm s] Cons.prems obtain es where es: "silent es" "events (putchar_plain (observed tm) c s) = es @ events s"
    by auto
  from Cons.IH [of "putchar_plain (observed tm) c s"] Cons.prems obtain fs where
    "silent fs" "events (fold (putchar_plain (observed tm)) cs (putchar_plain (observed tm) c s)) = fs @ es @ events s"
    by (auto simp: es(2))
  with es(1) show ?case by (intro exI [of _ "fs @ es"]) (auto simp: silent_def)
qed simp

text \<open>
  While the pager is on it counts the unread lines, which stay below the page between two characters, and every
  full page is one return key.
\<close>

definition page :: "'s char_io \<Rightarrow> nat" where
  "page s = nat (max 1 (max_lines s - 2))"

definition paging :: "('s \<times> tty_event list) char_io \<Rightarrow> bool" where
  "paging s \<longleftrightarrow> count_lines s = int (unread_lines (events s)) \<and> unread_lines (events s) < page s \<and>
     readable (page s) (events s) \<and>
     count_list (events s) (Shown 10) = returns (events s) * page s + unread_lines (events s)"

lemma paging_silent:
  assumes "paging s" "silent es" "events t = es @ events s" "count_lines t = count_lines s" "max_lines t = max_lines s"
  shows "paging t"
  using assms by (simp add: paging_def silent_append page_def)

lemma putchar_stop:
  fixes tm :: "'a term_entry"
  assumes "paging s" "count_lines s + 1 \<ge> max_lines s - 2" "grub_putchar (observed tm) 10 s = Some t"
  shows "paging t \<and> max_lines t = max_lines s \<and> count_list (events t) (Shown 10) = Suc (count_list (events s) (Shown 10))"
proof -
  define s1 where "s1 = set_state (observed tm) COLOR_STATE_HIGHLIGHT
    ((putchar_plain (observed tm) 13 s)\<lparr>count_lines := - 1\<rparr>)"
  define s2 where "s2 = putchar_plain (observed tm) 10 s1"
  define s3 where "s3 = fold (putchar_plain (observed tm)) (map sint (cstr ''[Hit return to continue]'')) s2"
  define s4 where "s4 = set_state (observed tm) COLOR_STATE_NORMAL s3"
  have on: "0 \<le> count_lines s" using assms(1) by (simp add: paging_def)
  define f where "f = (\<lambda>s :: ('a \<times> tty_event list) char_io.
    (fold (putchar_plain (observed tm)) (map sint (13 # cstr ''                        '' @ [13])) s)\<lparr>count_lines := 0\<rparr>)"
  have "grub_putchar (observed tm) 10 s = map_option f (wait_return (observed tm) s4)"
    using on assms(2) by (simp add: grub_putchar_def Let_def s4_def s3_def s2_def s1_def f_def del: map_append cong: if_cong)
  then obtain s5 where s5: "wait_return (observed tm) s4 = Some s5" "t = f s5"
    using assms(3) by (cases "wait_return (observed tm) s4") auto
  note s5 = s5(1) s5(2) [unfolded f_def]
  obtain es1 where es1: "silent es1" "events s1 = es1 @ events s"
    using plain_events(1) [of 13 tm s] by (auto simp: s1_def plain_events(3))
  have e2: "events s2 = Shown 10 # Shown 13 # es1 @ events s" by (simp add: s2_def plain_events(2) es1(2))
  have "10 \<notin> set (map sint (cstr ''[Hit return to continue]''))" by (simp add: cstr_def)
  from plain_fold_events [OF this, of tm s2] obtain es3 where es3: "silent es3" "events s4 = es3 @ events s2"
    by (auto simp: s4_def s3_def plain_events(3))
  obtain k ks where k: "is_return (Pressed k)" "\<forall>k \<in> set ks. \<not> is_return (Pressed k)"
    "events s5 = Pressed k # map Pressed ks @ events s4" "max_lines s5 = max_lines s4"
    using wait_return_events [OF s5(1)] by blast
  have "10 \<notin> set (map sint (13 # cstr ''                        '' @ [13]))" by (simp add: cstr_def)
  from plain_fold_events [OF this, of tm s5] obtain es5 where es5: "silent es5" "events t = es5 @ events s5"
    by (auto simp: s5(2))
  have q: "silent (map Pressed ks @ es3)" "silent (Shown 13 # es1)" using k(2) es3(1) es1(1) by (auto simp: silent_def)
  have m: "max_lines t = max_lines s" using k(4) by (simp add: s5(2) s4_def s3_def s2_def s1_def)
  have et: "events t = es5 @ Pressed k # (map Pressed ks @ es3) @ Shown 10 # (Shown 13 # es1) @ events s"
    by (simp add: es5(2) k(3) es3(2) e2)
  have pg: "Suc (unread_lines (events s)) = page s" "page t = page s" "count_lines t = 0"
    using assms(1,2) m by (auto simp: paging_def page_def s5(2))
  have r: "readable (page s) (events s)" "unread_lines (events s) \<le> page s"
    "count_list (events s) (Shown 10) = returns (events s) * page s + unread_lines (events s)"
    using assms(1) by (simp_all add: paging_def)
  have "readable (page s) (Shown 10 # (Shown 13 # es1) @ events s)"
    using silent_append(4) [OF q(2) r(1,2)] silent_append(1) [OF q(2), of "events s"] pg(1) by simp
  then have "readable (page s) ((map Pressed ks @ es3) @ Shown 10 # (Shown 13 # es1) @ events s)"
    by (rule silent_append(4) [OF q(1)]) (use silent_append(1) [OF q(2), of "events s"] pg(1) in simp)
  then have "readable (page s) (events t)"
    unfolding et by (intro silent_append(4) [OF es5(1)]) (use k(1) in simp_all)
  moreover have "unread_lines (events t) = 0" unfolding et by (simp only: silent_append [OF es5(1)] unread_lines_simps(2) [OF k(1)])
  moreover have "returns (events t) = Suc (returns (events s))"
    unfolding et silent_append [OF es5(1)] using k(1) by (simp only: unread_lines_simps(6) silent_append [OF q(1)] silent_append [OF q(2)]) simp
  moreover have c: "count_list (events t) (Shown 10) = Suc (count_list (events s) (Shown 10))"
    unfolding et using silent_append(2) [OF es5(1)] silent_append(2) [OF q(1)] silent_append(2) [OF q(2)] by simp
  ultimately show ?thesis using pg r(3) m by (simp add: paging_def page_def)
qed

lemma putchar_pages:
  assumes "paging s" "grub_putchar (observed tm) c s = Some t"
  shows "paging t \<and> max_lines t = max_lines s \<and>
    count_list (events t) (Shown 10) = count_list (events s) (Shown 10) + of_bool (c = 10)"
proof (cases "c = 10")
  case False
  then have t: "t = putchar_plain (observed tm) c s" using assms(2) by (simp add: grub_putchar_def)
  obtain es where es: "silent es" "events t = es @ events s" using plain_events(1) [OF False, of tm s] by (auto simp: t)
  have f: "count_lines t = count_lines s" "max_lines t = max_lines s" by (simp_all add: t)
  from paging_silent [OF assms(1) es f] f(2) False es show ?thesis by (simp add: silent_append(2))
next
  case c: True
  show ?thesis
  proof (cases "count_lines s + 1 \<ge> max_lines s - 2")
    case True
    with putchar_stop [OF assms(1) True] assms(2) c show ?thesis by simp
  next
    case False
    define u where "u = putchar_plain (observed tm) 13 s"
    have on: "0 \<le> count_lines s" using assms(1) by (simp add: paging_def)
    have t: "t = (u\<lparr>count_lines := count_lines s + 1\<rparr>)\<lparr>tstate := term_putchar (observed tm) 10 (tstate u)\<rparr>"
      using assms(2) on False by (simp add: grub_putchar_def Let_def c u_def)
    obtain es where es: "silent es" "events u = es @ events s" using plain_events(1) [of 13 tm s] by (auto simp: u_def)
    have "events t = Shown 10 # events u" by (cases "tstate u") (simp add: t observed_def)
    moreover have "max_lines t = max_lines s" "count_lines t = count_lines s + 1" by (simp_all add: t u_def)
    moreover have "paging u" by (rule paging_silent [OF assms(1) es]) (simp_all add: u_def)
    moreover have "max_lines u = max_lines s" "count_lines u = count_lines s" by (simp_all add: u_def)
    ultimately show ?thesis using False c es by (auto simp: paging_def page_def silent_append(2))
  qed
qed

lemma putchars_page:
  assumes "paging s" "putchars (observed tm) cs s = Some t"
  shows "paging t \<and> max_lines t = max_lines s \<and>
    count_list (events t) (Shown 10) = count_list (events s) (Shown 10) + count_list cs 10"
  using assms
proof (induction cs arbitrary: s)
  case (Cons c cs)
  then obtain u where u: "grub_putchar (observed tm) c s = Some u" "putchars (observed tm) cs u = Some t"
    by (auto simp: bind_eq_Some_conv)
  from putchar_pages [OF Cons.prems(1) u(1)] Cons.IH [OF _ u(2)] show ?case by auto
qed simp

lemma putchars_unpaged:
  assumes "count_lines s < 0"
  shows "putchars term cs s = Some (fold (putchar_plain term) cs s)"
  using assms by (induction cs arbitrary: s) (simp_all add: grub_putchar_def)

text \<open>
  C29. The pager never lets a page scroll away. On any terminal, observed from a fresh start with the pager on, and
  for any characters put out: at every moment at most \<open>max_lines - 2\<close> lines (at least one) have been shown since the return key
  was last pressed; every new line is shown exactly once; the return key was pressed exactly once for every full
  page; and \<open>count_lines\<close> is the number of lines shown since. With the pager off nothing waits.
\<close>

theorem pager_stops_every_page:
  assumes "tstate s = (u, [])" and "putchars (observed tm) cs s = Some t"
  shows "(count_lines s = 0 \<longrightarrow>
      readable (page s) (events t) \<and> count_list (events t) (Shown 10) = count_list cs 10 \<and>
      returns (events t) = count_list cs 10 div page s \<and> count_lines t = int (count_list cs 10 mod page s) \<and>
      count_lines t = int (unread_lines (events t))) \<and>
    (count_lines s < 0 \<longrightarrow> t = fold (putchar_plain (observed tm)) cs s)"
proof (intro conjI impI)
  assume z: "count_lines s = 0"
  have "0 < page s" by (simp add: page_def)
  then have "paging s" using assms(1) z by (simp add: paging_def)
  from putchars_page [OF this assms(2)] have t: "paging t" "page t = page s" "count_list (events t) (Shown 10) = count_list cs 10"
    using assms(1) by (simp_all add: page_def)
  then show "readable (page s) (events t)" "count_list (events t) (Shown 10) = count_list cs 10"
    "count_lines t = int (unread_lines (events t))"
    by (simp_all add: paging_def)
  have e: "count_list cs 10 = returns (events t) * page s + unread_lines (events t)" "unread_lines (events t) < page s"
    using t by (simp_all add: paging_def)
  then show "returns (events t) = count_list cs 10 div page s" by simp
  show "count_lines t = int (count_list cs 10 mod page s)" using t(1) e by (simp add: paging_def)
next
  assume "count_lines s < 0"
  with assms(2) show "t = fold (putchar_plain (observed tm)) cs s" by (simp add: putchars_unpaged)
qed

section \<open>The Hercules terminal\<close>

definition hercules_term :: "(hercules \<Rightarrow> int \<times> hercules) \<Rightarrow> (hercules \<Rightarrow> (int \<times> hercules) option) \<Rightarrow> hercules term_entry" where
  "hercules_term console_checkkey console_getkey =
     \<lparr>term_flags = 0, term_putchar = hercules_putchar, term_checkkey = console_checkkey, term_getkey = console_getkey,
      term_getxy = Some hercules_getxy, term_gotoxy = hercules_gotoxy, term_cls = hercules_cls,
      term_setcolorstate = Some hercules_setcolorstate, term_setcolor = Some hercules_setcolor,
      term_setcursor = Some hercules_setcursor\<rparr>"

theorem pager_stops_every_page_witness:
  "\<exists>t. putchars (observed (hercules_term (Pair 0) (\<lambda>s. Some (13, s)))) [65, 10, 10, 10]
      \<lparr>max_lines = 4, count_lines = 0, tstate = (fresh_hercules, [])\<rparr> = Some t \<and>
    returns (events t) = 1 \<and> count_lines t = 1 \<and> readable 2 (events t)"
proof -
  let ?tm = "observed (hercules_term (Pair 0) (\<lambda>s. Some (13, s)))"
  let ?s = "\<lparr>max_lines = 4, count_lines = 0, tstate = (fresh_hercules, [])\<rparr> :: (hercules \<times> tty_event list) char_io"
  have "wait_return ?tm u \<noteq> None" for u
    by (subst wait_return.simps) (simp add: getkey_def observed_def hercules_term_def ASCII_CHAR_def split: prod.splits)
  then have "grub_putchar ?tm c u \<noteq> None" for c u by (simp add: grub_putchar_def Let_def)
  then have "putchars ?tm cs u \<noteq> None" for cs u
    by (induction cs arbitrary: u) (auto simp: bind_eq_None_conv)
  then obtain t where t: "putchars ?tm [65, 10, 10, 10] ?s = Some t" by blast
  from pager_stops_every_page [OF _ t, of fresh_hercules] t show ?thesis by (auto simp: page_def)
qed

lemma hercules_column: "0 \<le> y \<Longrightarrow> y < 256 \<Longrightarrow> drop_bit 8 (push_bit 8 x OR y) = (x :: int)"
proof -
  assume y: "0 \<le> y" "y < 256"
  then have "drop_bit 8 y = 0" by (simp add: drop_bit_eq_div)
  then have "\<not> bit y (8 + n)" for n using bit_drop_bit_eq [of 8 y] by (metis bit_0_eq bot_apply bot_bool_def o_apply)
  then show ?thesis by (intro bit_eqI) (simp add: bit_drop_bit_eq bit_or_iff bit_push_bit_iff_int)
qed

text \<open>
  Tabs do not reach tab stops: on the Hercules terminal a tab in column \<open>x\<close> prints \<open>8 - x mod 4\<close> spaces, so the
  next column is a multiple of eight only when \<open>x mod 8 < 4\<close>.
\<close>

theorem tab_columns:
  assumes "herc_wf (tstate s)"
  shows "putchar_plain (hercules_term ck gk) 9 s =
      s\<lparr>tstate := (hercules_putchar 32 ^^ nat (8 - herc_x (tstate s) mod 4)) (tstate s)\<rparr> \<and>
    ((herc_x (tstate s) + (8 - herc_x (tstate s) mod 4)) mod 8 = 0 \<longleftrightarrow> herc_x (tstate s) mod 8 < 4)"
proof -
  have "drop_bit 8 (hercules_getxy (tstate s)) = herc_x (tstate s)"
    using assms hercules_column by (simp add: hercules_getxy_def herc_wf_def)
  moreover have "k AND 3 = k mod 4" for k :: int
    using take_bit_eq_mask [of 2 k] by (simp add: take_bit_eq_mod mask_eq_exp_minus_1)
  moreover have "(x + (8 - x mod 4)) mod 8 = 0 \<longleftrightarrow> x mod 8 < 4" for x :: int by presburger
  ultimately show ?thesis by (simp add: putchar_plain_def hercules_term_def getxy_def Let_def)
qed

theorem tab_columns_witness:
  "putchar_plain (hercules_term (Pair 0) (\<lambda>s. None)) 9 \<lparr>max_lines = 24, count_lines = 0, tstate = fresh_hercules\<rparr> =
     \<lparr>max_lines = 24, count_lines = 0, tstate = (hercules_putchar 32 ^^ 8) fresh_hercules\<rparr>"
  using tab_columns [of "\<lparr>max_lines = 24, count_lines = 0, tstate = fresh_hercules\<rparr>"]
  by (simp add: fresh_hercules_def herc_wf_def)

end
