(* ===== verification/GRUB_Cmdline.thy ===== *)
theory GRUB_Cmdline
  imports GRUB_Terminal "HOL-Library.Monad_Syntax"
begin

text \<open>
  The command line editor of the boot loader, \<open>real_get_cmdline\<close> and \<open>get_cmdline\<close> of
  \<^verbatim>\<open>src/legacy/SZoS/grub-0.97/stage2/char_io.c\<close>, with its history.

  The buffers are in memory at their addresses of \<^verbatim>\<open>shared.h\<close>: the working buffer, behind it the kill buffer and
  the history. The variables of \<open>real_get_cmdline\<close> are the record \<open>editor\<close>; its parameters and the terminal are
  \<open>cl_env\<close>. \<open>print_completions\<close>, which searches files, is a parameter.

  Shown: every key edits the line as an abstract editor on a text and a cursor does, never past the buffer; the
  cursor on the screen is where the text position says; deleting can damage the kill buffer; the reduced editor
  for simple terminals stores any number of characters.
\<close>

section \<open>Definitions\<close>

abbreviation MAX_CMDLINE :: int where "MAX_CMDLINE \<equiv> 1600"
abbreviation CMDLINE_BUF :: u32 where "CMDLINE_BUF \<equiv> 0x78260"
abbreviation KILL_BUF :: u32 where "KILL_BUF \<equiv> 0x788A0"
abbreviation HISTORY_BUF :: u32 where "HISTORY_BUF \<equiv> 0x78EE0"
abbreviation COMPLETION_BUF :: u32 where "COMPLETION_BUF \<equiv> 0x7AE20"
abbreviation HISTORY_SIZE :: int where "HISTORY_SIZE \<equiv> 5"
abbreviation CMDLINE_WIDTH :: int where "CMDLINE_WIDTH \<equiv> 78"
abbreviation CMDLINE_MARGIN :: int where "CMDLINE_MARGIN \<equiv> 10"

record 's editor =
  gm :: grub
  cio :: "'s char_io"
  xpos :: int
  lpos :: int
  llen :: int
  sect :: int
  history :: int
  num_history :: int
  buf_drive :: int

record 's cl_env =
  cl_term :: "'s term_entry"
  prompt :: "u8 list"
  cmdline :: u32
  maxlen :: int
  echo_char :: int
  readline :: bool
  print_completions :: "bool \<Rightarrow> bool \<Rightarrow> 's editor \<Rightarrow> (int \<times> 's editor) option"

definition plen :: "'s cl_env \<Rightarrow> int" where
  "plen env = int (length (prompt env))"

definition get_history :: "int \<Rightarrow> 's editor \<Rightarrow> u32 option" where
  "get_history no s =
     (if no < 0 \<or> no \<ge> num_history s then None else Some (HISTORY_BUF + word_of_int (MAX_CMDLINE * no)))"

definition add_history :: "u32 \<Rightarrow> int \<Rightarrow> 's editor \<Rightarrow> 's editor option" where
  "add_history line no s =
     (let s = s\<lparr>gm := snd (grub_memmove (HISTORY_BUF + word_of_int (MAX_CMDLINE * (no + 1)))
                        (HISTORY_BUF + word_of_int (MAX_CMDLINE * no))
                        (word_of_int (MAX_CMDLINE * (num_history s - no))) (gm s))\<rparr>
      in do {
        (_, m) \<leftarrow> grub_strcpy (HISTORY_BUF + word_of_int (MAX_CMDLINE * no)) line (gm s);
        let s = s\<lparr>gm := m\<rparr>;
        Some (if num_history s < HISTORY_SIZE then s\<lparr>num_history := num_history s + 1\<rparr> else s)
      })"

definition put :: "'s cl_env \<Rightarrow> int \<Rightarrow> 's editor \<Rightarrow> 's editor option" where
  "put env c s = map_option (\<lambda>t. s\<lparr>cio := t\<rparr>) (grub_putchar (cl_term env) c (cio s))"

definition put_all :: "'s cl_env \<Rightarrow> int list \<Rightarrow> 's editor \<Rightarrow> 's editor option" where
  "put_all env cs s = map_option (\<lambda>t. s\<lparr>cio := t\<rparr>) (putchars (cl_term env) cs (cio s))"

definition dumb :: "'s cl_env \<Rightarrow> bool" where
  "dumb env \<longleftrightarrow> term_flags (cl_term env) AND TERM_DUMB \<noteq> 0"

text \<open>\<open>gotoxy (xpos, getxy () & 0xFF)\<close>\<close>

definition goto_xpos :: "'s cl_env \<Rightarrow> 's editor \<Rightarrow> 's editor" where
  "goto_xpos env s = s\<lparr>cio := gotoxy (cl_term env) (xpos s) (getxy (cl_term env) (cio s) AND 0xFF) (cio s)\<rparr>"

definition buf_at :: "'s editor \<Rightarrow> int \<Rightarrow> u8" where
  "buf_at s i = mem (gm s) (CMDLINE_BUF + word_of_int i)"

definition echo_at :: "'s cl_env \<Rightarrow> 's editor \<Rightarrow> int \<Rightarrow> int" where
  "echo_at env s i = (if echo_char env = 0 then sint (buf_at s i) else echo_char env)"

text \<open>
  The section that shows a text position, the index of the first character that section \<open>n\<close> shows, and the
  column of a text position in it.
\<close>

definition section_of :: "'s cl_env \<Rightarrow> int \<Rightarrow> int" where
  "section_of env pos =
     (if pos + plen env < CMDLINE_WIDTH then 0
      else (pos + plen env - CMDLINE_WIDTH) div (CMDLINE_WIDTH - 1 - CMDLINE_MARGIN) + 1)"

definition section_base :: "'s cl_env \<Rightarrow> int \<Rightarrow> int" where
  "section_base env n =
     (if n = 0 then 0 else (n - 1) * (CMDLINE_WIDTH - 1 - CMDLINE_MARGIN) + CMDLINE_WIDTH - plen env - CMDLINE_MARGIN)"

definition cursor_column :: "'s cl_env \<Rightarrow> int \<Rightarrow> int \<Rightarrow> int" where
  "cursor_column env n pos = (if n = 0 then pos + plen env else pos + 1 - section_base env n)"

text \<open>\<open>cl_refresh\<close> in three parts: the prompt or the mark at the left, the text with the mark at the right, and the way back.\<close>

definition refresh_head :: "'s cl_env \<Rightarrow> bool \<Rightarrow> int \<Rightarrow> 's editor \<Rightarrow> ('s editor \<times> int \<times> int) option" where
  "refresh_head env full len s =
     (if full then
        (let s = s\<lparr>sect := section_of env (lpos s)\<rparr>
         in do {
           s \<leftarrow> put env 13 s;
           if sect s = 0
           then map_option (\<lambda>s. (s, CMDLINE_WIDTH - plen env, plen env)) (put_all env (map sint (prompt env)) s)
           else map_option (\<lambda>s. (s, CMDLINE_WIDTH - 1, 1)) (put env 60 s)
         })
      else Some (s, len, xpos s))"

definition refresh_text :: "'s cl_env \<Rightarrow> int \<Rightarrow> int \<Rightarrow> int \<Rightarrow> 's editor \<Rightarrow> ('s editor \<times> int) option" where
  "refresh_text env start len pos s =
     (let i = max start (min (start + len) (llen s));
          rest = max 0 (start + len - i)
      in do {
        s \<leftarrow> put_all env (map (echo_at env s) [start..i - 1]) s;
        s \<leftarrow> put_all env (replicate (nat rest) 32) s;
        let pos = pos + (i - start) + rest;
        if pos = CMDLINE_WIDTH
        then map_option (\<lambda>s. (s, pos + 1)) (put env (if start + len < llen s then 62 else 32) s)
        else Some (s, pos)
      })"

definition refresh_back :: "'s cl_env \<Rightarrow> int \<Rightarrow> 's editor \<Rightarrow> 's editor option" where
  "refresh_back env pos s =
     (if dumb env then put_all env (replicate (nat (pos - xpos s)) 8) s else Some (goto_xpos env s))"

definition cl_refresh :: "'s cl_env \<Rightarrow> bool \<Rightarrow> int \<Rightarrow> 's editor \<Rightarrow> 's editor option" where
  "cl_refresh env full len s =
     do {
       (s, len, pos) \<leftarrow> refresh_head env full len s;
       let start = section_base env (sect s) + (if full then 0 else if sect s = 0 then xpos s - plen env else xpos s - 1);
       let s = s\<lparr>xpos := cursor_column env (sect s) (lpos s)\<rparr>;
       (s, pos) \<leftarrow> refresh_text env start len pos s;
       refresh_back env pos s
     }"

definition cl_backward :: "'s cl_env \<Rightarrow> int \<Rightarrow> 's editor \<Rightarrow> 's editor option" where
  "cl_backward env count s =
     (let s = s\<lparr>lpos := lpos s - count\<rparr>
      in if sect s = 1 \<and> plen env + lpos s < CMDLINE_WIDTH then cl_refresh env True 0 s
         else if xpos s - count < 1 then cl_refresh env True 0 s
         else let s = s\<lparr>xpos := xpos s - count\<rparr>
              in if dumb env then put_all env (replicate (nat count) 8) s else Some (goto_xpos env s))"

definition cl_forward :: "'s cl_env \<Rightarrow> int \<Rightarrow> 's editor \<Rightarrow> 's editor option" where
  "cl_forward env count s =
     (let s = s\<lparr>lpos := lpos s + count\<rparr>
      in if xpos s + count \<ge> CMDLINE_WIDTH then cl_refresh env True 0 s
         else let s = s\<lparr>xpos := xpos s + count\<rparr>
              in if dumb env then put_all env (map (echo_at env s) [lpos s - count..lpos s - 1]) s
                 else Some (goto_xpos env s))"

definition cl_init :: "'s cl_env \<Rightarrow> 's editor \<Rightarrow> 's editor option" where
  "cl_init env s = do { s \<leftarrow> put env 10 s; cl_refresh env True 0 s }"

text \<open>
  \<open>grub_memmove (buf + i, str, l)\<close> where \<open>str\<close> lies outside the working buffer: the bytes of \<open>str\<close> are stored.
\<close>

definition store_str :: "int \<Rightarrow> u8 list \<Rightarrow> grub \<Rightarrow> grub" where
  "store_str i str s =
     (let (ok, s) = memcheck (CMDLINE_BUF + word_of_int i) (of_nat (length str)) s
      in if ok then s\<lparr>mem := (\<lambda>a. if in_region a (CMDLINE_BUF + word_of_int i) (length str)
             then str ! unat (a - (CMDLINE_BUF + word_of_int i)) else mem s a)\<rparr> else s)"

definition cl_insert :: "'s cl_env \<Rightarrow> u8 list \<Rightarrow> 's editor \<Rightarrow> 's editor option" where
  "cl_insert env str s =
     (let l = int (length str)
      in if llen s + l < maxlen env then
           (let s = s\<lparr>gm :=
                  (if lpos s = llen s then store_str (lpos s) (str @ [0]) (gm s)
                   else store_str (lpos s) str
                     (snd (grub_memmove (CMDLINE_BUF + word_of_int (lpos s + l)) (CMDLINE_BUF + word_of_int (lpos s))
                        (word_of_int (llen s - lpos s + 1)) (gm s))))\<rparr>;
                s = s\<lparr>llen := llen s + l, lpos := lpos s + l\<rparr>
            in if xpos s + l \<ge> CMDLINE_WIDTH then cl_refresh env True 0 s
               else if xpos s + l + llen s - lpos s > CMDLINE_WIDTH then cl_refresh env False (CMDLINE_WIDTH - xpos s) s
               else cl_refresh env False (l + llen s - lpos s) s)
         else Some s)"

definition cl_delete :: "'s cl_env \<Rightarrow> int \<Rightarrow> 's editor \<Rightarrow> 's editor option" where
  "cl_delete env count s =
     (let s = s\<lparr>gm := snd (grub_memmove (CMDLINE_BUF + word_of_int (lpos s)) (CMDLINE_BUF + word_of_int (lpos s + count))
                  (word_of_int (llen s - count + 1)) (gm s))\<rparr>;
          s = s\<lparr>llen := llen s - count\<rparr>
      in if xpos s + llen s + count - lpos s > CMDLINE_WIDTH then cl_refresh env False (CMDLINE_WIDTH - xpos s) s
         else cl_refresh env False (llen s + count - lpos s) s)"

text \<open>The C string in memory at an address; \<open>n\<close> bounds its length by the address space.\<close>

definition str_at :: "mem \<Rightarrow> u32 \<Rightarrow> u8 list option" where
  "str_at m p = map_option (\<lambda>n. bytes_at m p (unat n)) (strlen p m)"

definition move_buf :: "u32 \<Rightarrow> u32 \<Rightarrow> int \<Rightarrow> 's editor \<Rightarrow> 's editor" where
  "move_buf to from len s = s\<lparr>gm := snd (grub_memmove to from (word_of_int len) (gm s))\<rparr>"

definition poke :: "u32 \<Rightarrow> u8 \<Rightarrow> 's editor \<Rightarrow> 's editor" where
  "poke a v s = s\<lparr>gm := (gm s)\<lparr>mem := (mem (gm s))(a := v)\<rparr>\<rparr>"

definition copy_str :: "u32 \<Rightarrow> u32 \<Rightarrow> 's editor \<Rightarrow> 's editor option" where
  "copy_str to from s = map_option (\<lambda>(_, m). s\<lparr>gm := m\<rparr>) (grub_strcpy to from (gm s))"

text \<open>The line at \<open>p\<close> becomes the working line (C-p and C-n).\<close>

definition load_line :: "'s cl_env \<Rightarrow> u32 \<Rightarrow> 's editor \<Rightarrow> 's editor option" where
  "load_line env p s =
     do {
       s \<leftarrow> copy_str CMDLINE_BUF p s;
       n \<leftarrow> strlen CMDLINE_BUF (mem (gm s));
       cl_refresh env True 0 (s\<lparr>llen := uint n, lpos := uint n\<rparr>)
     }"

text \<open>If the working line differs from its history entry, it is added to the history.\<close>

definition save_if_modified :: "'s editor \<Rightarrow> 's editor option" where
  "save_if_modified s =
     do {
       h \<leftarrow> get_history (history s) s;
       a \<leftarrow> str_at (mem (gm s)) h;
       b \<leftarrow> str_at (mem (gm s)) CMDLINE_BUF;
       if grub_strcmp a b \<noteq> 0 then add_history CMDLINE_BUF (history s) s else Some s
     }"

function skip_chars :: "(int \<Rightarrow> bool) \<Rightarrow> int \<Rightarrow> int \<Rightarrow> int" where
  "skip_chars P lim i = (if i < lim \<and> P i then skip_chars P lim (i + 1) else i)"
  by pat_completeness auto
termination by (relation "measure (\<lambda>(P, lim, i). nat (lim - i))") auto

declare skip_chars.simps [simp del]

text \<open>
  Completion, lines 566 to 632. The searches in \<open>buf\<close> end at the terminating zero at \<open>llen\<close>.
\<close>

definition word_start :: "'s editor \<Rightarrow> int" where
  "word_start s = lpos s - int (length (takeWhile (\<lambda>i. buf_at s (i - 1) \<noteq> 32) (rev [1..lpos s])))"

definition complete :: "'s cl_env \<Rightarrow> 's editor \<Rightarrow> 's editor option" where
  "complete env s =
     (let pos = skip_chars (\<lambda>i. buf_at s i = 32) (llen s) 0;
          pos = skip_chars (\<lambda>i. buf_at s i \<noteq> 0 \<and> buf_at s i \<noteq> 61 \<and> buf_at s i \<noteq> 32) (llen s) pos;
          is_filename = (lpos s > pos);
          e = skip_chars (\<lambda>i. buf_at s i \<noteq> 0 \<and> buf_at s i \<noteq> 32 \<and> buf_at s i \<noteq> 61) (llen s) pos;
          equal_pos = (if e < llen s \<and> buf_at s e = 61 then e else - 1);
          s = (if equal_pos \<ge> 0 then poke (CMDLINE_BUF + word_of_int equal_pos) 32 s else s);
          i = word_start s;
          s = s\<lparr>buf_drive := - 1\<rparr>;
          s = move_buf COMPLETION_BUF (CMDLINE_BUF + word_of_int i) (lpos s - i) s;
          s = poke (COMPLETION_BUF + word_of_int (lpos s - i)) 0 s
      in do {
        (ret, s) \<leftarrow> print_completions env is_filename True s;
        let s = s\<lparr>gm := (gm s)\<lparr>errnum := ERR_NONE\<rparr>\<rparr>;
        s \<leftarrow> (if ret \<ge> 0 then
                do {
                  str \<leftarrow> str_at (mem (gm s)) (COMPLETION_BUF + word_of_int (lpos s - i));
                  s \<leftarrow> cl_insert env str s;
                  if ret > 0 then
                    do {
                      s \<leftarrow> put env 10 s;
                      (_, s) \<leftarrow> print_completions env is_filename False s;
                      Some (s\<lparr>gm := (gm s)\<lparr>errnum := ERR_NONE\<rparr>\<rparr>)
                    }
                  else Some s
                }
              else Some s);
        let s = (if equal_pos \<ge> 0 then poke (CMDLINE_BUF + word_of_int equal_pos) 61 s else s);
        if ret \<noteq> 0 then cl_init env s else Some s
      })"

text \<open>The key bindings that are active when \<open>readline\<close> is set.\<close>

definition readline_key :: "'s cl_env \<Rightarrow> int \<Rightarrow> 's editor \<Rightarrow> 's editor option" where
  "readline_key env c s =
     (if c = 9 then complete env s
      else if c = 1 then cl_backward env (lpos s) s
      else if c = 5 then cl_forward env (llen s - lpos s) s
      else if c = 6 then (if lpos s < llen s then cl_forward env 1 s else Some s)
      else if c = 2 then (if lpos s > 0 then cl_backward env 1 s else Some s)
      else if c = 21 then
        (if lpos s = 0 then Some s
         else (let s = move_buf KILL_BUF CMDLINE_BUF (lpos s) s;
                   s = poke (KILL_BUF + word_of_int (lpos s)) 0 s;
                   count = lpos s
               in do { s \<leftarrow> cl_backward env (lpos s) s; cl_delete env count s }))
      else if c = 11 then
        (if lpos s = llen s then Some s
         else cl_delete env (llen s - lpos s)
                (move_buf KILL_BUF (CMDLINE_BUF + word_of_int (lpos s)) (llen s - lpos s + 1) s))
      else if c = 25 then do { str \<leftarrow> str_at (mem (gm s)) KILL_BUF; cl_insert env str s }
      else if c = 16 then
        do {
          s \<leftarrow> (if history s < 0 then copy_str (cmdline env) CMDLINE_BUF s else save_if_modified s);
          let s = s\<lparr>history := history s + 1\<rparr>;
          case get_history (history s) s of
            None \<Rightarrow> Some (s\<lparr>history := history s - 1\<rparr>)
          | Some p \<Rightarrow> load_line env p s
        }
      else if c = 14 then
        (if history s < 0 then Some s
         else do {
           s \<leftarrow> save_if_modified s;
           let s = s\<lparr>history := history s - 1\<rparr>;
           load_line env (case get_history (history s) s of None \<Rightarrow> cmdline env | Some p \<Rightarrow> p) s
         })
      else Some s)"

text \<open>One round of the loop for a key other than newline and return: true when the editor was left by ESC.\<close>

definition edit_key :: "'s cl_env \<Rightarrow> int \<Rightarrow> 's editor \<Rightarrow> (bool \<times> 's editor) option" where
  "edit_key env c s =
     do {
       s \<leftarrow> (if readline env then readline_key env c s else Some s);
       if c = 27 then Some (True, s)
       else if c = 4 then (if lpos s = llen s then Some (False, s) else map_option (Pair False) (cl_delete env 1 s))
       else if c = 8 then
         (if lpos s > 0 then do { s \<leftarrow> cl_backward env 1 s; map_option (Pair False) (cl_delete env 1 s) } else Some (False, s))
       else if c \<ge> 32 \<and> c \<le> 126 then map_option (Pair False) (cl_insert env [word_of_int c] s)
       else Some (False, s)
     }"

text \<open>The keys are typed from \<open>getkey\<close>; waiting for ever is \<^const>\<open>None\<close>.\<close>

partial_function (option) edit_loop :: "'s cl_env \<Rightarrow> 's editor \<Rightarrow> (bool \<times> 's editor) option" where
  "edit_loop env s =
     Option.bind (getkey (cl_term env) (cio s)) (\<lambda>(k, t).
       let s = s\<lparr>cio := t\<rparr>; c = ASCII_CHAR k
       in if c \<noteq> 10 \<and> c \<noteq> 13
          then Option.bind (edit_key env c s) (\<lambda>(esc, s). if esc then Some (True, s) else edit_loop env s)
          else Some (False, s))"

text \<open>The end of \<open>real_get_cmdline\<close>, lines 757 to 773.\<close>

definition finish_line :: "'s cl_env \<Rightarrow> 's editor \<Rightarrow> 's editor option" where
  "finish_line env s =
     do {
       s \<leftarrow> put env 10 s;
       let s = s\<lparr>lpos := (if echo_char env = 0 then skip_chars (\<lambda>i. buf_at s i = 32) (llen s) 0 else 0)\<rparr>;
       let s = move_buf (cmdline env) (CMDLINE_BUF + word_of_int (lpos s)) (llen s - lpos s + 1) s;
       if readline env \<and> lpos s < llen s then add_history (cmdline env) 0 s else Some s
     }"

text \<open>The variables at the start: \<open>cmdline\<close> is copied to the working buffer, cut at \<open>MAX_CMDLINE\<close>.\<close>

definition real_get_cmdline :: "'s cl_env \<Rightarrow> 's editor \<Rightarrow> (int \<times> 's editor) option" where
  "real_get_cmdline env s =
     do {
       n \<leftarrow> strlen (cmdline env) (mem (gm s));
       let cut = (maxlen env > MAX_CMDLINE \<and> uint n \<ge> MAX_CMDLINE);
       let env = (if maxlen env > MAX_CMDLINE then env\<lparr>maxlen := MAX_CMDLINE\<rparr> else env);
       let s = s\<lparr>llen := (if cut then MAX_CMDLINE - 1 else uint n), history := - 1\<rparr>;
       let s = (if cut then poke (cmdline env + word_of_int MAX_CMDLINE) 0 s else s);
       let s = s\<lparr>lpos := llen s\<rparr>;
       s \<leftarrow> copy_str CMDLINE_BUF (cmdline env) s;
       s \<leftarrow> cl_init env s;
       (esc, s) \<leftarrow> edit_loop env s;
       if esc then Some (1, s) else map_option (Pair 0) (finish_line env s)
     }"

text \<open>
  The reduced editor of \<open>get_cmdline\<close> for terminals without echo or editing, lines 810 to 831: the characters
  stored from \<open>cmdline\<close> on. Its \<open>maxlen\<close> is computed but never used.
\<close>

partial_function (option) gather_loop :: "'s term_entry \<Rightarrow> u8 list \<Rightarrow> 's char_io \<Rightarrow> (bool \<times> u8 list \<times> 's char_io) option" where
  "gather_loop tm p s =
     Option.bind (getkey tm s) (\<lambda>(k, s).
       let c = ASCII_CHAR k
       in if c \<noteq> 10 \<and> c \<noteq> 13 then
            (if c = 27 then Some (True, p, s)
             else if c \<ge> 32 \<and> c \<le> 126 then
               Option.bind (if term_flags tm AND TERM_NO_ECHO = 0 then grub_putchar tm c s else Some s)
                 (gather_loop tm (if c \<noteq> 32 \<or> p \<noteq> [] then p @ [word_of_int c] else p))
             else gather_loop tm p s)
          else Some (False, p, s))"

text \<open>Bytes stored at an address, without a check.\<close>

definition store_raw :: "u32 \<Rightarrow> u8 list \<Rightarrow> 's editor \<Rightarrow> 's editor" where
  "store_raw a str s = s\<lparr>gm := (gm s)\<lparr>mem := (\<lambda>b. if in_region b a (length str) then str ! unat (b - a) else mem (gm s) b)\<rparr>\<rparr>"

definition get_cmdline :: "'s cl_env \<Rightarrow> 's editor \<Rightarrow> (int \<times> 's editor) option" where
  "get_cmdline env s =
     (let tm = cl_term env;
          (old_cursor, t) = setcursor tm True (cio s);
          s = s\<lparr>cio := t\<rparr>;
          restore = (\<lambda>s. s\<lparr>cio := snd (setcursor tm (old_cursor \<noteq> 0) (cio s))\<rparr>)
      in if term_flags tm AND (TERM_NO_ECHO OR TERM_NO_EDIT) \<noteq> 0 then
           do {
             t \<leftarrow> putchars tm (map sint (prompt env)) (cio s);
             (esc, p, t) \<leftarrow> gather_loop tm [] t;
             let s = s\<lparr>cio := t\<rparr>;
             if esc then Some (1, restore (store_raw (cmdline env) p s))
             else do {
               let s = store_raw (cmdline env) (p @ [0]) s;
               t \<leftarrow> (if term_flags tm AND TERM_NO_ECHO = 0 then grub_putchar tm 10 (cio s) else Some (cio s));
               Some (0, restore (s\<lparr>cio := t\<rparr>))
             }
           }
         else map_option (\<lambda>(ret, s). (ret, restore s)) (real_get_cmdline env s))"

section \<open>The display\<close>

text \<open>
  With the pager off, which is how the loader edits lines, output always returns and touches neither the buffers
  nor the text position.
\<close>

abbreviation pager_off :: "'s editor \<Rightarrow> bool" where "pager_off s \<equiv> count_lines (cio s) < 0"

lemma plain_funpow [simp]: "count_lines ((putchar_plain tm c ^^ n) s) = count_lines s"
  by (induction n) simp_all

lemma putchars_off: "count_lines s < 0 \<Longrightarrow> putchars tm cs s = Some (fold (putchar_plain tm) cs s)"
  by (induction cs arbitrary: s) (simp_all add: grub_putchar_def)

lemma put_all_off: "pager_off s \<Longrightarrow> put_all env cs s = Some (s\<lparr>cio := fold (putchar_plain (cl_term env)) cs (cio s)\<rparr>)"
  by (simp add: put_all_def putchars_off)

lemma put_off: "pager_off s \<Longrightarrow> put env c s = Some (s\<lparr>cio := putchar_plain (cl_term env) c (cio s)\<rparr>)"
  by (simp add: put_def grub_putchar_def)

lemma goto_xpos_fields [simp]: "count_lines (cio (goto_xpos env s)) = count_lines (cio s)"
  by (simp add: goto_xpos_def gotoxy_def)

text \<open>Only the display differs: the screen, \<open>xpos\<close> and \<open>sect\<close>.\<close>

definition display_only :: "'s editor \<Rightarrow> 's editor \<Rightarrow> bool" where
  "display_only s t \<longleftrightarrow> gm t = gm s \<and> lpos t = lpos s \<and> llen t = llen s \<and> history t = history s \<and>
     num_history t = num_history s \<and> pager_off t"

lemma refresh_head_display:
  assumes "pager_off s"
  obtains u len' pos' where "refresh_head env full len s =
      Some (s\<lparr>sect := if full then section_of env (lpos s) else sect s, cio := u\<rparr>, len', pos')" "count_lines u < 0"
proof (cases full)
  case True
  let ?s = "s\<lparr>sect := section_of env (lpos s)\<rparr>"
  have "refresh_head env full len s = do {
      s \<leftarrow> put env 13 ?s;
      if sect s = 0
      then map_option (\<lambda>s. (s, CMDLINE_WIDTH - plen env, plen env)) (put_all env (map sint (prompt env)) s)
      else map_option (\<lambda>s. (s, CMDLINE_WIDTH - 1, 1)) (put env 60 s) }"
    using True by (simp add: refresh_head_def)
  moreover have "\<exists>u len' pos'. do {
      s \<leftarrow> put env 13 ?s;
      if sect s = 0
      then map_option (\<lambda>s. (s, CMDLINE_WIDTH - plen env, plen env)) (put_all env (map sint (prompt env)) s)
      else map_option (\<lambda>s. (s, CMDLINE_WIDTH - 1, 1)) (put env 60 s) } = Some (?s\<lparr>cio := u\<rparr>, len', pos') \<and> count_lines u < 0"
    using assms by (auto simp: put_off put_all_off)
  ultimately show thesis using True that by auto
next
  case False
  then have "refresh_head env full len s = Some (s\<lparr>sect := if full then section_of env (lpos s) else sect s, cio := cio s\<rparr>, len, xpos s)"
    by (simp add: refresh_head_def)
  with assms show thesis by (intro that)
qed

lemma refresh_text_display:
  assumes "pager_off s"
  obtains u pos' where "refresh_text env start len pos s = Some (s\<lparr>cio := u\<rparr>, pos')" "count_lines u < 0"
proof -
  define i where "i = max start (min (start + len) (llen s))"
  define rest where "rest = max 0 (start + len - i)"
  define u where "u = fold (putchar_plain (cl_term env)) (replicate (nat rest) 32)
      (fold (putchar_plain (cl_term env)) (map (echo_at env s) [start..i - 1]) (cio s))"
  have u: "count_lines u < 0" using assms by (simp only: u_def plain_fold)
  have e: "refresh_text env start len pos s =
      (if pos + (i - start) + rest = CMDLINE_WIDTH
       then map_option (\<lambda>s. (s, pos + (i - start) + rest + 1)) (put env (if start + len < llen s then 62 else 32) (s\<lparr>cio := u\<rparr>))
       else Some (s\<lparr>cio := u\<rparr>, pos + (i - start) + rest))"
    using assms unfolding refresh_text_def i_def [symmetric] rest_def [symmetric] Let_def
    by (simp add: put_all_off u_def del: fold_replicate)
  show thesis
  proof (cases "pos + (i - start) + rest = CMDLINE_WIDTH")
    case True
    with e u show thesis by (intro that [of "putchar_plain (cl_term env) (if start + len < llen s then 62 else 32) u"]) (simp_all add: put_off)
  next
    case False
    with e u show thesis by (intro that [of u]) simp_all
  qed
qed

lemma refresh_back_display:
  assumes "pager_off s"
  obtains u where "refresh_back env pos s = Some (s\<lparr>cio := u\<rparr>)" "count_lines u < 0"
proof (cases "dumb env")
  case True
  with assms show thesis by (intro that [of "fold (putchar_plain (cl_term env)) (replicate (nat (pos - xpos s)) 8) (cio s)"])
      (simp_all only: refresh_back_def put_all_off if_True plain_fold)
next
  case False
  with assms show thesis by (intro that [of "gotoxy (cl_term env) (xpos s) (getxy (cl_term env) (cio s) AND 0xFF) (cio s)"])
      (simp_all add: refresh_back_def goto_xpos_def gotoxy_def)
qed

lemma cl_refresh_display:
  assumes "pager_off s"
  obtains t where "cl_refresh env full len s = Some t" "display_only s t"
    "sect t = (if full then section_of env (lpos s) else sect s)"
    "xpos t = cursor_column env (sect t) (lpos s)"
proof -
  obtain u1 len1 pos1 where h: "refresh_head env full len s =
      Some (s\<lparr>sect := if full then section_of env (lpos s) else sect s, cio := u1\<rparr>, len1, pos1)" "count_lines u1 < 0"
    using refresh_head_display [OF assms] .
  define n where "n = (if full then section_of env (lpos s) else sect s)"
  define start where "start = section_base env n + (if full then 0 else if n = 0 then xpos s - plen env else xpos s - 1)"
  define s2 where "s2 = s\<lparr>sect := n, cio := u1, xpos := cursor_column env n (lpos s)\<rparr>"
  have "pager_off s2" using h(2) by (simp add: s2_def)
  then obtain u2 pos2 where t2: "refresh_text env start len1 pos1 s2 = Some (s2\<lparr>cio := u2\<rparr>, pos2)" "count_lines u2 < 0"
    using refresh_text_display by blast
  have "pager_off (s2\<lparr>cio := u2\<rparr>)" using t2(2) by simp
  then obtain u3 where t3: "refresh_back env pos2 (s2\<lparr>cio := u2\<rparr>) = Some (s2\<lparr>cio := u3\<rparr>)" "count_lines u3 < 0"
    using refresh_back_display [of "s2\<lparr>cio := u2\<rparr>" env pos2] by auto
  show thesis
  proof (rule that [of "s2\<lparr>cio := u3\<rparr>"])
    show "cl_refresh env full len s = Some (s2\<lparr>cio := u3\<rparr>)"
      using t2(1) t3(1) unfolding cl_refresh_def h(1) n_def [symmetric]
      by (simp only: bind.bind_lunit prod.case Let_def editor.simps s2_def start_def)
        (simp split del: if_split cong: if_cong)
    show "display_only s (s2\<lparr>cio := u3\<rparr>)" using t3(2) by (simp add: display_only_def s2_def)
    show "sect (s2\<lparr>cio := u3\<rparr>) = (if full then section_of env (lpos s) else sect s)" by (simp add: s2_def n_def)
    show "xpos (s2\<lparr>cio := u3\<rparr>) = cursor_column env (sect (s2\<lparr>cio := u3\<rparr>)) (lpos s)"
      by (simp add: s2_def)
  qed
qed

text \<open>The cursor is where the text position is, inside the line.\<close>

definition cursor_ok :: "'s cl_env \<Rightarrow> 's editor \<Rightarrow> bool" where
  "cursor_ok env s \<longleftrightarrow> xpos s = cursor_column env (sect s) (lpos s) \<and> 0 \<le> xpos s \<and> xpos s < 78 \<and> 0 \<le> sect s"

lemma full_refresh_cursor:
  assumes "0 \<le> pos"
  shows "0 \<le> cursor_column env (section_of env pos) pos" "cursor_column env (section_of env pos) pos < 78"
    "0 \<le> section_of env pos"
proof -
  have p: "0 \<le> plen env" by (simp add: plen_def)
  define q where "q = (pos + plen env - 78) div 67"
  have m: "67 * q \<le> pos + plen env - 78" "pos + plen env - 78 < 67 * q + 67" unfolding q_def by linarith+
  show "0 \<le> cursor_column env (section_of env pos) pos" "cursor_column env (section_of env pos) pos < 78"
    using assms p m by (auto simp: cursor_column_def section_of_def section_base_def q_def [symmetric])
  show "0 \<le> section_of env pos"
    by (auto simp: section_of_def pos_imp_zdiv_nonneg_iff)
qed

lemma refresh_full:
  assumes "pager_off s" "0 \<le> lpos s"
  obtains t where "cl_refresh env True len s = Some t" "display_only s t" "cursor_ok env t"
proof -
  obtain t where t: "cl_refresh env True len s = Some t" "display_only s t"
    "sect t = section_of env (lpos s)" "xpos t = cursor_column env (sect t) (lpos s)"
    using cl_refresh_display [OF assms(1), of env True len] by auto
  have "cursor_ok env t"
    using t full_refresh_cursor [OF assms(2), of env] by (simp add: cursor_ok_def display_only_def)
  then show thesis using that t by blast
qed

lemma refresh_part:
  assumes "pager_off s" "0 \<le> cursor_column env (sect s) (lpos s)" "cursor_column env (sect s) (lpos s) < 78" "0 \<le> sect s"
  obtains t where "cl_refresh env False len s = Some t" "display_only s t" "cursor_ok env t"
proof -
  obtain t where t: "cl_refresh env False len s = Some t" "display_only s t"
    "sect t = sect s" "xpos t = cursor_column env (sect t) (lpos s)"
    using cl_refresh_display [OF assms(1), of env False len] by auto
  have "cursor_ok env t" using t assms by (simp add: cursor_ok_def display_only_def)
  then show thesis using that t by blast
qed

lemma cl_backward_moves:
  assumes "pager_off s" "cursor_ok env s" "0 \<le> count" "count \<le> lpos s"
  obtains t where "cl_backward env count s = Some t" "display_only (s\<lparr>lpos := lpos s - count\<rparr>) t" "cursor_ok env t"
proof -
  let ?s = "s\<lparr>lpos := lpos s - count\<rparr>"
  have o: "pager_off ?s" "0 \<le> lpos ?s" using assms by simp_all
  have "\<exists>t. cl_backward env count s = Some t \<and> display_only ?s t \<and> cursor_ok env t"
  proof (cases "sect s = 1 \<and> plen env + lpos ?s < 78 \<or> xpos s - count < 1")
    case True
    then have "cl_backward env count s = cl_refresh env True 0 ?s" by (auto simp: cl_backward_def Let_def)
    then show ?thesis using refresh_full [OF o, of env 0] by metis
  next
    case False
    then have d: "cl_backward env count s = (let s = ?s\<lparr>xpos := xpos s - count\<rparr> in if dumb env then put_all env (replicate (nat count) 8) s else Some (goto_xpos env s))"
      by (auto simp: cl_backward_def Let_def)
    have c: "cursor_ok env (?s\<lparr>xpos := xpos s - count, cio := u\<rparr>)" for u
      using False assms by (auto simp: cursor_ok_def cursor_column_def)
    show ?thesis
    proof (cases "dumb env")
      case True
      with assms(1) c show ?thesis unfolding d by (simp add: put_all_off display_only_def Let_def)
    next
      case False
      with assms(1) c show ?thesis unfolding d by (simp add: display_only_def goto_xpos_def gotoxy_def Let_def)
    qed
  qed
  then show thesis using that by blast
qed

lemma cl_forward_moves:
  assumes "pager_off s" "cursor_ok env s" "0 \<le> count" "0 \<le> lpos s"
  obtains t where "cl_forward env count s = Some t" "display_only (s\<lparr>lpos := lpos s + count\<rparr>) t" "cursor_ok env t"
proof -
  let ?s = "s\<lparr>lpos := lpos s + count\<rparr>"
  have o: "pager_off ?s" "0 \<le> lpos ?s" using assms by simp_all
  have "\<exists>t. cl_forward env count s = Some t \<and> display_only ?s t \<and> cursor_ok env t"
  proof (cases "xpos s + count \<ge> 78")
    case True
    then have "cl_forward env count s = cl_refresh env True 0 ?s" by (simp add: cl_forward_def)
    then show ?thesis using refresh_full [OF o, of env 0] by metis
  next
    case False
    then have d: "cl_forward env count s = (let s = ?s\<lparr>xpos := xpos s + count\<rparr> in if dumb env then put_all env (map (echo_at env s) [lpos s - count..lpos s - 1]) s else Some (goto_xpos env s))"
      by (simp add: cl_forward_def Let_def)
    have c: "cursor_ok env (?s\<lparr>xpos := xpos s + count, cio := u\<rparr>)" for u
      using False assms by (auto simp: cursor_ok_def cursor_column_def)
    show ?thesis
    proof (cases "dumb env")
      case True
      with assms(1) c show ?thesis unfolding d by (simp add: put_all_off display_only_def Let_def)
    next
      case False
      with assms(1) c show ?thesis unfolding d by (simp add: display_only_def goto_xpos_def gotoxy_def Let_def)
    qed
  qed
  then show thesis using that by blast
qed

section \<open>The text in the buffer\<close>

lemma cstring_nth:
  "cstring_at m p s \<longleftrightarrow> length s < 4294967296 \<and> 0 \<notin> set s \<and> (\<forall>i \<le> length s. m (p + of_nat i) = (s @ [0]) ! i)"
proof -
  have "bytes_at m p (length s) = s \<longleftrightarrow> (\<forall>i < length s. m (p + of_nat i) = s ! i)"
    unfolding list_eq_iff_nth_eq [of "bytes_at m p (length s)"] by (simp add: bytes_at_def)
  moreover have "(\<forall>i \<le> length s. m (p + of_nat i) = (s @ [0]) ! i) \<longleftrightarrow>
      (\<forall>i < length s. m (p + of_nat i) = s ! i) \<and> m (p + of_nat (length s)) = 0"
    by (metis le_neq_implies_less nat_less_le nth_append nth_append_length order_refl)
  ultimately show ?thesis unfolding cstring_at_def by blast
qed

text \<open>Reads at an offset of the working buffer after a copy or a store.\<close>

lemma buf_diff: "a \<le> i \<Longrightarrow> (CMDLINE_BUF + of_nat i) - (CMDLINE_BUF + of_nat a) = (of_nat (i - a) :: u32)"
  by (simp only: add_diff_cancel_left of_nat_diff)

lemma unat_buf: "i < 100000 \<Longrightarrow> unat (CMDLINE_BUF + of_nat i) = 492128 + i"
  by (simp add: unat_word_ariths)

lemma in_buf_region:
  assumes "i < 100000" "a < 100000" "n < 100000"
  shows "in_region (CMDLINE_BUF + of_nat i) (CMDLINE_BUF + of_nat a) n \<longleftrightarrow> a \<le> i \<and> i < a + n"
  using assms unfolding in_region_def unat_sub_if' unat_buf [OF assms(1)] unat_buf [OF assms(2)] by auto

lemma copied_buf:
  assumes "i < 100000" "a < 100000" "n < 100000"
  shows "copied m (CMDLINE_BUF + of_nat a) (CMDLINE_BUF + of_nat b) n (CMDLINE_BUF + of_nat i) =
    (if a \<le> i \<and> i < a + n then m (CMDLINE_BUF + of_nat (i - a + b)) else m (CMDLINE_BUF + of_nat i))"
proof (cases "a \<le> i \<and> i < a + n")
  case True
  have "CMDLINE_BUF + of_nat b + of_nat (i - a) = (CMDLINE_BUF + of_nat (i - a + b) :: u32)"
    by (simp only: of_nat_add add.assoc add.commute [of "of_nat b"])
  then show ?thesis using True unfolding copied_def in_buf_region [OF assms] by (simp only: buf_diff if_True)
next
  case False
  then show ?thesis unfolding copied_def in_buf_region [OF assms] by (simp only: if_False)
qed

text \<open>A usable machine for the editor: no error is pending and lower memory covers the buffers.\<close>

definition grub_ready :: "grub \<Rightarrow> bool" where
  "grub_ready g \<longleftrightarrow> errnum g = ERR_NONE \<and> 512 \<le> unat (mem_lower g) \<and> unat (mem_lower g) < 2097152 \<and> unat (mem_upper g) < 2097152"

lemma grub_ready_mem [simp]: "grub_ready (g\<lparr>mem := m\<rparr>) = grub_ready g"
  by (simp add: grub_ready_def)

lemma memcheck_buf:
  assumes "grub_ready g" "a + n \<le> 28000" "unat len = n"
  shows "fst (memcheck (CMDLINE_BUF + of_nat a) len g)"
proof -
  have p: "unat (CMDLINE_BUF + of_nat a) = 492128 + a" using assms(2) by (simp add: unat_word_ariths)
  have "usable_block (unat (mem_lower g)) (unat (mem_upper g)) (CMDLINE_BUF + of_nat a) n"
    using assms p by (simp add: usable_block_def grub_ready_def)
  then show ?thesis using assms p memcheck_usable [of g "CMDLINE_BUF + of_nat a" n len] by (simp add: grub_ready_def)
qed

lemma grub_memmove_buf:
  assumes "grub_ready g" "a + n \<le> 28000" "b + n \<le> 28000" "unat len = n"
  shows "snd (grub_memmove (CMDLINE_BUF + of_nat a) (CMDLINE_BUF + of_nat b) len g) =
    g\<lparr>mem := copied (mem g) (CMDLINE_BUF + of_nat a) (CMDLINE_BUF + of_nat b) n\<rparr>"
proof -
  have "no_wrap (CMDLINE_BUF + of_nat c) n" if "c + n \<le> 28000" for c
    using that by (simp add: no_wrap_def unat_word_ariths)
  then show ?thesis
    using grub_memmove_copied [OF memcheck_buf [OF assms(1,2,4)], of "CMDLINE_BUF + of_nat b"] assms by simp
qed

lemma store_str_mem:
  assumes "grub_ready g" "a + length str \<le> 28000"
  shows "store_str (int a) str g = g\<lparr>mem := mem (store_str (int a) str g)\<rparr>"
    "i < 100000 \<Longrightarrow> mem (store_str (int a) str g) (CMDLINE_BUF + of_nat i) =
      (if a \<le> i \<and> i < a + length str then str ! (i - a) else mem g (CMDLINE_BUF + of_nat i))"
proof -
  have l: "unat (of_nat (length str) :: u32) = length str" using assms(2) by simp
  note ok = memcheck_buf [OF assms l]
  have e: "store_str (int a) str g = g\<lparr>mem := (\<lambda>x. if in_region x (CMDLINE_BUF + of_nat a) (length str)
      then str ! unat (x - (CMDLINE_BUF + of_nat a)) else mem g x)\<rparr>"
    using ok memcheck_ok [OF ok] unfolding store_str_def of_int_of_nat_eq [where 'a = "32 word"]
    by (simp only: split_beta Let_def if_True)
  show "store_str (int a) str g = g\<lparr>mem := mem (store_str (int a) str g)\<rparr>" by (simp add: e)
  assume i: "i < 100000"
  have n: "a < 100000" "length str < 100000" using assms(2) by simp_all
  have "unat (of_nat (i - a) :: u32) = i - a" using i by (intro unat_of_nat_u32) simp
  then show "mem (store_str (int a) str g) (CMDLINE_BUF + of_nat i) =
      (if a \<le> i \<and> i < a + length str then str ! (i - a) else mem g (CMDLINE_BUF + of_nat i))"
    unfolding e using in_buf_region [OF i n] buf_diff [of a i]
    by (cases "a \<le> i \<and> i < a + length str") (auto simp del: of_nat_diff)
qed

text \<open>The editor holds the text \<open>txt\<close> with the cursor at \<open>p\<close>.\<close>

definition holds :: "'s cl_env \<Rightarrow> 's editor \<Rightarrow> u8 list \<Rightarrow> nat \<Rightarrow> bool" where
  "holds env s txt p \<longleftrightarrow> cstring_at (mem (gm s)) CMDLINE_BUF txt \<and> llen s = int (length txt) \<and> lpos s = int p \<and>
     p \<le> length txt \<and> int (length txt) < maxlen env \<and> maxlen env \<le> 1600 \<and> grub_ready (gm s) \<and> pager_off s \<and> cursor_ok env s"

lemma holds_display:
  assumes "cstring_at (mem (gm s)) CMDLINE_BUF txt" "llen s = int (length txt)" "lpos s = int p"
    "p \<le> length txt" "int (length txt) < maxlen env" "maxlen env \<le> 1600" "grub_ready (gm s)"
    "display_only s t" "cursor_ok env t"
  shows "holds env t txt p"
  using assms by (simp add: holds_def display_only_def)

lemma cl_backward_holds:
  assumes "holds env s txt p" "k \<le> p"
  obtains t where "cl_backward env (int k) s = Some t" "holds env t txt (p - k)" "gm t = gm s"
    "history t = history s" "num_history t = num_history s"
proof -
  obtain t where t: "cl_backward env (int k) s = Some t" "display_only (s\<lparr>lpos := lpos s - int k\<rparr>) t" "cursor_ok env t"
    using cl_backward_moves [of s env "int k"] assms by (auto simp: holds_def)
  then have "holds env t txt (p - k)" using assms by (auto simp: holds_def display_only_def of_nat_diff)
  then show thesis using that t by (auto simp: display_only_def)
qed

lemma cl_forward_holds:
  assumes "holds env s txt p" "p + k \<le> length txt"
  obtains t where "cl_forward env (int k) s = Some t" "holds env t txt (p + k)" "gm t = gm s"
    "history t = history s" "num_history t = num_history s"
proof -
  obtain t where t: "cl_forward env (int k) s = Some t" "display_only (s\<lparr>lpos := lpos s + int k\<rparr>) t" "cursor_ok env t"
    using cl_forward_moves [of s env "int k"] assms by (auto simp: holds_def)
  then have "holds env t txt (p + k)" using assms by (auto simp: holds_def display_only_def)
  then show thesis using that t by (auto simp: display_only_def)
qed

lemma insert_nth:
  assumes "p \<le> length txt" "i \<le> length txt + length str"
  shows "((take p txt @ str @ drop p txt) @ [0]) ! i =
    (if i < p then txt ! i else if i < p + length str then str ! (i - p) else (txt @ [0]) ! (i - length str))"
proof -
  consider "i < p" | "p \<le> i" "i < p + length str" | "p + length str \<le> i" "i < length txt + length str" | "i = length txt + length str"
    using assms(2) by linarith
  then show ?thesis using assms
    by cases (auto simp: nth_append min_def)
qed

lemma insert_mem:
  assumes "grub_ready g" "cstring_at (mem g) CMDLINE_BUF txt" "0 \<notin> set str" "p \<le> length txt" "length txt + length str < 1600"
  defines "l \<equiv> length str"
  defines "g' \<equiv> (if p = length txt then store_str (int p) (str @ [0]) g
      else store_str (int p) str (snd (grub_memmove (CMDLINE_BUF + of_nat (p + l)) (CMDLINE_BUF + of_nat p) (of_nat (length txt - p + 1)) g)))"
  shows "cstring_at (mem g') CMDLINE_BUF (take p txt @ str @ drop p txt)" "grub_ready g'"
    "\<exists>m. g' = g\<lparr>mem := m\<rparr>"
proof -
  have rd: "mem g (CMDLINE_BUF + of_nat i) = (txt @ [0]) ! i" if "i \<le> length txt" for i
    using assms(2) that by (simp add: cstring_nth)
  define h where "h = g\<lparr>mem := copied (mem g) (CMDLINE_BUF + of_nat (p + l)) (CMDLINE_BUF + of_nat p) (length txt - p + 1)\<rparr>"
  have len: "unat (of_nat (length txt - p + 1) :: u32) = length txt - p + 1" using assms(5) by (intro unat_of_nat_u32) simp
  have mv: "snd (grub_memmove (CMDLINE_BUF + of_nat (p + l)) (CMDLINE_BUF + of_nat p) (of_nat (length txt - p + 1)) g) = h"
    unfolding h_def by (rule grub_memmove_buf [OF assms(1) _ _ len]) (use assms(4,5) in \<open>simp_all add: l_def\<close>)
  have hr: "grub_ready h" using assms(1) by (simp add: h_def grub_ready_def)
  have hm: "mem h (CMDLINE_BUF + of_nat i) = (if p + l \<le> i then (txt @ [0]) ! (i - l) else (txt @ [0]) ! i)"
    if "i \<le> length txt + l" "p + l \<le> i \<or> i \<le> length txt" for i
    using that assms(4,5) rd [of "i - (p + l) + p"] rd [of i] copied_buf [of i "p + l" "length txt - p + 1" "mem g" p]
    by (auto simp: h_def l_def)
  have "(\<forall>i \<le> length (take p txt @ str @ drop p txt). mem g' (CMDLINE_BUF + of_nat i) = ((take p txt @ str @ drop p txt) @ [0]) ! i) \<and>
      grub_ready g' \<and> (\<exists>m. g' = g\<lparr>mem := m\<rparr>)"
  proof (cases "p = length txt")
    case True
    have g': "g' = store_str (int p) (str @ [0]) g" using True by (simp add: g'_def)
    note st = store_str_mem [OF assms(1), of p "str @ [0]"]
    have "mem g' (CMDLINE_BUF + of_nat i) = ((take p txt @ str @ drop p txt) @ [0]) ! i" if "i \<le> length txt + length str" for i
      using st(2) [of i] that assms(5) rd [of i] unfolding g' insert_nth [OF assms(4) that]
      by (auto simp: True nth_append)
    moreover have "g' = g\<lparr>mem := mem g'\<rparr>" unfolding g' using st(1) assms(5) True by simp
    then have "grub_ready g'" "\<exists>m. g' = g\<lparr>mem := m\<rparr>" using assms(1) grub_ready_mem by metis+
    ultimately show ?thesis using assms(4) by simp
  next
    case False
    have g': "g' = store_str (int p) str h" using False unfolding g'_def mv by simp
    note st = store_str_mem [OF hr, of p str]
    have "mem g' (CMDLINE_BUF + of_nat i) = ((take p txt @ str @ drop p txt) @ [0]) ! i" if "i \<le> length txt + length str" for i
      using st(2) [of i] that assms(4,5) hm [of i] unfolding g' insert_nth [OF assms(4) that]
      by (auto simp: l_def nth_append)
    moreover have e: "g' = h\<lparr>mem := mem g'\<rparr>" unfolding g' using st(1) assms(4,5) by simp
    then have "g' = g\<lparr>mem := mem g'\<rparr>" by (simp add: h_def)
    then have "grub_ready g'" "\<exists>m. g' = g\<lparr>mem := m\<rparr>" using assms(1) grub_ready_mem by metis+
    ultimately show ?thesis using assms(4) by simp
  qed
  then show "cstring_at (mem g') CMDLINE_BUF (take p txt @ str @ drop p txt)" "grub_ready g'" "\<exists>m. g' = g\<lparr>mem := m\<rparr>"
    using assms(2-5) by (auto simp: cstring_nth dest: in_set_takeD in_set_dropD)
qed

lemma cl_insert_holds:
  assumes "holds env s txt p" "0 \<notin> set str"
  obtains t where "cl_insert env str s = Some t" "history t = history s" "num_history t = num_history s"
    "if int (length txt + length str) < maxlen env then holds env t (take p txt @ str @ drop p txt) (p + length str) else t = s"
proof (cases "int (length txt + length str) < maxlen env")
  case False
  with assms(1) show thesis by (intro that [of s]) (simp_all add: cl_insert_def holds_def)
next
  case True
  let ?l = "length str" and ?new = "take p txt @ str @ drop p txt"
  have h: "cstring_at (mem (gm s)) CMDLINE_BUF txt" "llen s = int (length txt)" "lpos s = int p" "p \<le> length txt"
    "maxlen env \<le> 1600" "grub_ready (gm s)" "pager_off s" "cursor_ok env s"
    using assms(1) by (simp_all add: holds_def)
  define g' where "g' = (if p = length txt then store_str (int p) (str @ [0]) (gm s)
      else store_str (int p) str (snd (grub_memmove (CMDLINE_BUF + of_nat (p + ?l)) (CMDLINE_BUF + of_nat p) (of_nat (length txt - p + 1)) (gm s))))"
  have lt: "length txt + ?l < 1600" using True h(5) by linarith
  note im = insert_mem [OF h(6,1) assms(2) h(4) lt, folded g'_def]
  have w: "word_of_int (int p + int ?l) = (of_nat (p + ?l) :: u32)" "word_of_int (int (length txt) - int p + 1) = (of_nat (length txt - p + 1) :: u32)"
    "word_of_int (int p) = (of_nat p :: u32)"
    using h(4) by (simp_all add: of_nat_diff)
  define u where "u = s\<lparr>gm := g', llen := int (length txt + ?l), lpos := int (p + ?l)\<rparr>"
  have e: "cl_insert env str s =
      (if xpos s + int ?l \<ge> CMDLINE_WIDTH then cl_refresh env True 0 u
       else if xpos s + int ?l + llen u - lpos u > CMDLINE_WIDTH then cl_refresh env False (CMDLINE_WIDTH - xpos s) u
       else cl_refresh env False (int ?l + llen u - lpos u) u)"
  proof -
    have gm_eq: "(if lpos s = llen s then store_str (lpos s) (str @ [0]) (gm s)
         else store_str (lpos s) str
           (snd (grub_memmove (CMDLINE_BUF + word_of_int (lpos s + int ?l)) (CMDLINE_BUF + word_of_int (lpos s))
              (word_of_int (llen s - lpos s + 1)) (gm s)))) = g'"
      unfolding h(2,3) w g'_def by (simp only: of_nat_eq_iff)
    have u_eq: "s\<lparr>gm := g', llen := llen (s\<lparr>gm := g'\<rparr>) + int ?l, lpos := lpos (s\<lparr>gm := g'\<rparr>) + int ?l\<rparr> = u"
      by (simp add: u_def h(2,3))
    have c: "llen s + int ?l < maxlen env" "xpos u = xpos s" using True by (simp_all add: h(2) u_def)
    show ?thesis unfolding cl_insert_def Let_def gm_eq u_eq by (simp only: c if_True)
  qed
  have u: "pager_off u" "0 \<le> lpos u" using h(7) by (simp_all add: u_def)
  have "\<exists>t. cl_insert env str s = Some t \<and> display_only u t \<and> cursor_ok env t"
  proof (cases "xpos s + int ?l \<ge> CMDLINE_WIDTH")
    case full: True
    then show ?thesis unfolding e using refresh_full [OF u, of env 0] by (metis)
  next
    case part: False
    have "cursor_column env (sect u) (lpos u) = xpos s + int ?l" using h(3,8) by (simp add: u_def cursor_ok_def cursor_column_def)
    then have c: "0 \<le> cursor_column env (sect u) (lpos u)" "cursor_column env (sect u) (lpos u) < 78" "0 \<le> sect u"
      using part h(8) by (simp_all add: cursor_ok_def u_def)
    show ?thesis unfolding e using part refresh_part [OF u(1) c] by (metis)
  qed
  then obtain t where t: "cl_insert env str s = Some t" "display_only u t" "cursor_ok env t" by blast
  have "holds env t ?new (p + ?l)"
    by (rule holds_display [OF _ _ _ _ _ h(5) _ t(2,3)]) (use im h(4) True in \<open>simp_all add: u_def\<close>)
  then show thesis using that t True by (simp add: display_only_def u_def)
qed

lemma delete_mem:
  assumes "grub_ready g" "cstring_at (mem g) CMDLINE_BUF txt" "p + k \<le> length txt" "length txt < 1600"
  defines "g' \<equiv> snd (grub_memmove (CMDLINE_BUF + of_nat p) (CMDLINE_BUF + of_nat (p + k)) (of_nat (length txt - k + 1)) g)"
  shows "cstring_at (mem g') CMDLINE_BUF (take p txt @ drop (p + k) txt)"
    "g' = g\<lparr>mem := copied (mem g) (CMDLINE_BUF + of_nat p) (CMDLINE_BUF + of_nat (p + k)) (length txt - k + 1)\<rparr>"
proof -
  have len: "unat (of_nat (length txt - k + 1) :: u32) = length txt - k + 1" using assms(4) by (intro unat_of_nat_u32) simp
  show g': "g' = g\<lparr>mem := copied (mem g) (CMDLINE_BUF + of_nat p) (CMDLINE_BUF + of_nat (p + k)) (length txt - k + 1)\<rparr>"
    unfolding g'_def by (rule grub_memmove_buf [OF assms(1) _ _ len]) (use assms(3,4) in simp_all)
  have rd: "mem g (CMDLINE_BUF + of_nat i) = (txt @ [0]) ! i" if "i \<le> length txt" for i
    using assms(2) that by (simp add: cstring_nth)
  have "mem g' (CMDLINE_BUF + of_nat i) = ((take p txt @ drop (p + k) txt) @ [0]) ! i" if "i \<le> length txt - k" for i
  proof -
    have n: "((take p txt @ drop (p + k) txt) @ [0]) ! i = (if i < p then txt ! i else (txt @ [0]) ! (i + k))"
      using that assms(3) by (auto simp: nth_append min_def add.commute)
    show ?thesis
    proof (cases "p \<le> i")
      case True
      have "i - p + (p + k) = i + k" "i < p + (length txt - k + 1)" using True that assms(3) by simp_all
      then have "copied (mem g) (CMDLINE_BUF + of_nat p) (CMDLINE_BUF + of_nat (p + k)) (length txt - k + 1) (CMDLINE_BUF + of_nat i) =
          mem g (CMDLINE_BUF + of_nat (i + k))"
        using True that assms(3,4) copied_buf [of i p "length txt - k + 1" "mem g" "p + k"] by (simp del: of_nat_add of_nat_Suc)
      with True that assms(3) n rd [of "i + k"] show ?thesis by (simp add: g')
    next
      case False
      then have "copied (mem g) (CMDLINE_BUF + of_nat p) (CMDLINE_BUF + of_nat (p + k)) (length txt - k + 1) (CMDLINE_BUF + of_nat i) =
          mem g (CMDLINE_BUF + of_nat i)"
        using that assms(3,4) copied_buf [of i p "length txt - k + 1" "mem g" "p + k"] by simp
      with False that assms(3) n rd [of i] show ?thesis by (simp add: g' nth_append)
    qed
  qed
  then show "cstring_at (mem g') CMDLINE_BUF (take p txt @ drop (p + k) txt)"
    using assms(2-4) by (auto simp: cstring_nth dest: in_set_takeD in_set_dropD)
qed

lemma cl_delete_holds:
  assumes "holds env s txt p" "p + k \<le> length txt"
  obtains t where "cl_delete env (int k) s = Some t" "holds env t (take p txt @ drop (p + k) txt) p"
    "mem (gm t) = copied (mem (gm s)) (CMDLINE_BUF + of_nat p) (CMDLINE_BUF + of_nat (p + k)) (length txt - k + 1)"
    "history t = history s" "num_history t = num_history s"
proof -
  have h: "cstring_at (mem (gm s)) CMDLINE_BUF txt" "llen s = int (length txt)" "lpos s = int p" "p \<le> length txt"
    "maxlen env \<le> 1600" "grub_ready (gm s)" "pager_off s" "cursor_ok env s" "int (length txt) < maxlen env"
    using assms(1) by (simp_all add: holds_def)
  define g' where "g' = snd (grub_memmove (CMDLINE_BUF + of_nat p) (CMDLINE_BUF + of_nat (p + k)) (of_nat (length txt - k + 1)) (gm s))"
  have lt: "length txt < 1600" using h(5,9) by linarith
  note dm = delete_mem [OF h(6,1) assms(2) lt, folded g'_def]
  have k: "k \<le> length txt" using assms(2) by simp
  then have w: "word_of_int (int p + int k) = (of_nat (p + k) :: u32)" "word_of_int (int (length txt) - int k + 1) = (of_nat (length txt - k + 1) :: u32)"
    "word_of_int (int p) = (of_nat p :: u32)"
    by (simp_all add: of_nat_diff)
  define u where "u = s\<lparr>gm := g', llen := int (length txt - k)\<rparr>"
  have e: "cl_delete env (int k) s =
      (if xpos u + llen u + int k - lpos u > CMDLINE_WIDTH then cl_refresh env False (CMDLINE_WIDTH - xpos u) u
       else cl_refresh env False (llen u + int k - lpos u) u)"
  proof -
    have gm_eq: "snd (grub_memmove (CMDLINE_BUF + word_of_int (lpos s)) (CMDLINE_BUF + word_of_int (lpos s + int k))
        (word_of_int (llen s - int k + 1)) (gm s)) = g'"
      unfolding h(2,3) w g'_def ..
    have u_eq: "s\<lparr>gm := g', llen := llen (s\<lparr>gm := g'\<rparr>) - int k\<rparr> = u" using k by (simp add: u_def h(2) of_nat_diff)
    show ?thesis unfolding cl_delete_def Let_def gm_eq u_eq ..
  qed
  have c: "pager_off u" "0 \<le> cursor_column env (sect u) (lpos u)" "cursor_column env (sect u) (lpos u) < 78" "0 \<le> sect u"
    using h(7,8) by (simp_all add: u_def cursor_ok_def)
  obtain t where t: "cl_delete env (int k) s = Some t" "display_only u t" "cursor_ok env t"
    unfolding e using refresh_part [OF c] by metis
  have "holds env t (take p txt @ drop (p + k) txt) p"
    by (rule holds_display [OF _ _ _ _ _ h(5) _ t(2,3)]) (use dm h k assms(2) in \<open>simp_all add: u_def of_nat_diff\<close>)
  then show thesis using that t dm(2) by (simp add: display_only_def u_def)
qed

lemma cursor_ok_gm [simp]: "cursor_ok env (s\<lparr>gm := g\<rparr>) = cursor_ok env s"
  by (simp add: cursor_ok_def)

text \<open>Writing into the kill buffer does not disturb the line.\<close>

lemma kill_store:
  assumes "holds env s txt p" "a \<le> 1600" "n \<le> 1600" "unat len = n"
  defines "g' \<equiv> snd (grub_memmove KILL_BUF (CMDLINE_BUF + of_nat a) len (gm s))"
  shows "g' = (gm s)\<lparr>mem := copied (mem (gm s)) KILL_BUF (CMDLINE_BUF + of_nat a) n\<rparr>" "holds env (s\<lparr>gm := g'\<rparr>) txt p"
proof -
  have k: "KILL_BUF = CMDLINE_BUF + of_nat 1600" by simp
  show g': "g' = (gm s)\<lparr>mem := copied (mem (gm s)) KILL_BUF (CMDLINE_BUF + of_nat a) n\<rparr>"
    unfolding g'_def k by (rule grub_memmove_buf) (use assms in \<open>simp_all add: holds_def\<close>)
  have l: "length txt < 1600" using assms(1) unfolding holds_def by linarith
  have "mem g' (CMDLINE_BUF + of_nat i) = mem (gm s) (CMDLINE_BUF + of_nat i)" if "i \<le> length txt" for i
    using that l assms(3) copied_buf [of i 1600 n "mem (gm s)" a] by (simp add: g')
  then have "cstring_at (mem g') CMDLINE_BUF txt" using assms(1) by (simp add: holds_def cstring_nth)
  then show "holds env (s\<lparr>gm := g'\<rparr>) txt p" using assms(1) by (simp add: holds_def g')
qed

lemma poke_kill_holds:
  assumes "holds env s txt p" "i \<le> 1600"
  shows "holds env (poke (KILL_BUF + of_nat i) v s) txt p"
proof -
  have l: "length txt < 1600" using assms(1) unfolding holds_def by linarith
  have "CMDLINE_BUF + of_nat j \<noteq> KILL_BUF + of_nat i" if "j \<le> length txt" for j
  proof -
    have "KILL_BUF + of_nat i = CMDLINE_BUF + of_nat (1600 + i)" by simp
    moreover have "unat (CMDLINE_BUF + of_nat j) \<noteq> unat (CMDLINE_BUF + of_nat (1600 + i))"
      using that l assms(2) unat_buf [of j] unat_buf [of "1600 + i"] by simp
    ultimately show ?thesis by metis
  qed
  then show ?thesis using assms(1) by (simp add: holds_def poke_def cstring_nth)
qed

section \<open>Keys edit an abstract line\<close>

text \<open>The abstract editor: a text and a cursor in it; \<open>mx\<close> bounds the text with its terminator.\<close>

fun line_key :: "int \<Rightarrow> int \<Rightarrow> u8 list \<times> nat \<Rightarrow> u8 list \<times> nat" where
  "line_key mx c (txt, p) =
     (if c = 1 then (txt, 0)
      else if c = 5 then (txt, length txt)
      else if c = 6 then (txt, min (p + 1) (length txt))
      else if c = 2 then (txt, p - 1)
      else if c = 21 then (drop p txt, 0)
      else if c = 11 then (take p txt, p)
      else if c = 4 then (take p txt @ drop (p + 1) txt, p)
      else if c = 8 then (take (p - 1) txt @ drop p txt, p - 1)
      else if int (length txt) + 1 < mx then (take p txt @ word_of_int c # drop p txt, p + 1)
      else (txt, p))"

definition edit_keys :: "int set" where
  "edit_keys = {1, 2, 4, 5, 6, 8, 11, 21} \<union> {32..126}"

lemma kill_back_holds:
  assumes "holds env s txt p"
  obtains t where "readline_key env 21 s = Some t" "holds env t (drop p txt) 0"
proof (cases "p = 0")
  case True
  with assms show thesis by (intro that [of s]) (simp_all add: readline_key_def holds_def)
next
  case False
  have h: "lpos s = int p" "p \<le> length txt" "length txt < 1600" using assms unfolding holds_def by linarith+
  have len: "unat (of_nat p :: u32) = p" using h by (intro unat_of_nat_u32) simp
  define s1 where "s1 = move_buf KILL_BUF CMDLINE_BUF (int p) s"
  have s1: "holds env s1 txt p"
    using kill_store(2) [OF assms, of 0 p "of_nat p"] h len by (simp add: s1_def move_buf_def)
  define s2 where "s2 = poke (KILL_BUF + of_nat p) 0 s1"
  have s2: "holds env s2 txt p" unfolding s2_def by (rule poke_kill_holds [OF s1]) (use h in simp)
  obtain s3 where s3: "cl_backward env (int p) s2 = Some s3" "holds env s3 txt 0"
    using cl_backward_holds [OF s2, of p] by auto
  obtain t where t: "cl_delete env (int p) s3 = Some t" "holds env t (drop p txt) 0"
    using cl_delete_holds [OF s3(2), of p] h by auto
  have f: "lpos s1 = int p" "lpos s2 = int p" using h by (simp_all add: s1_def s2_def move_buf_def poke_def)
  have "readline_key env 21 s = Some t"
    using False t s3 f h by (simp add: readline_key_def Let_def s1_def [symmetric] s2_def [symmetric])
  then show thesis using that t by blast
qed

lemma kill_forward_holds:
  assumes "holds env s txt p"
  obtains t where "readline_key env 11 s = Some t" "holds env t (take p txt) p"
proof (cases "p = length txt")
  case True
  with assms show thesis by (intro that [of s]) (simp_all add: readline_key_def holds_def)
next
  case False
  have h: "lpos s = int p" "llen s = int (length txt)" "p \<le> length txt" "length txt < 1600" using assms unfolding holds_def by linarith+
  have len: "unat (of_nat (length txt - p + 1) :: u32) = length txt - p + 1" using h by (intro unat_of_nat_u32) simp
  have w: "int (length txt) - int p = int (length txt - p)" using h by simp
  define s1 where "s1 = move_buf KILL_BUF (CMDLINE_BUF + of_nat p) (int (length txt - p) + 1) s"
  have w2: "int (length txt - p) + 1 = int (length txt - p + 1)" by simp
  have s1: "holds env s1 txt p"
    unfolding s1_def move_buf_def w2 of_int_of_nat_eq by (rule kill_store(2) [OF assms _ _ len]) (use h in simp_all)
  obtain t where t: "cl_delete env (int (length txt - p)) s1 = Some t" "holds env t (take p txt) p"
    using cl_delete_holds [OF s1, of "length txt - p"] h by auto
  have "readline_key env 11 s = Some t"
    using False t h(1,2) by (simp add: readline_key_def w s1_def del: of_nat_diff)
  then show thesis using that t by blast
qed

lemma delete_at_holds:
  assumes "holds env s txt p"
  obtains t where "(if lpos s = llen s then Some s else cl_delete env 1 s) = Some t" "holds env t (take p txt @ drop (p + 1) txt) p"
proof (cases "p = length txt")
  case True
  with assms show thesis by (intro that [of s]) (simp_all add: holds_def)
next
  case False
  then have "p + 1 \<le> length txt" "lpos s \<noteq> llen s" using assms by (simp_all add: holds_def)
  then show thesis using cl_delete_holds [OF assms, of 1] that by auto
qed

lemma backspace_holds:
  assumes "holds env s txt p"
  obtains t where "(if lpos s > 0 then do { s \<leftarrow> cl_backward env 1 s; cl_delete env 1 s } else Some s) = Some t"
    "holds env t (take (p - 1) txt @ drop p txt) (p - 1)"
proof (cases "p = 0")
  case True
  with assms show thesis by (intro that [of s]) (simp_all add: holds_def)
next
  case False
  then have 1: "1 \<le> p" "lpos s > 0" "p - 1 + 1 \<le> length txt" "p - 1 + 1 = p" using assms by (auto simp: holds_def)
  obtain u where u: "cl_backward env 1 s = Some u" "holds env u txt (p - 1)"
    using cl_backward_holds [OF assms 1(1)] by (metis of_nat_1)
  obtain t where "cl_delete env 1 u = Some t" "holds env t (take (p - 1) txt @ drop p txt) (p - 1)"
    using cl_delete_holds [OF u(2) 1(3)] unfolding 1(4) by (metis of_nat_1)
  then show thesis using that u 1(2) by simp
qed

lemma motion_holds:
  assumes "holds env s txt p" "c \<in> {1, 2, 5, 6}"
  obtains t where "readline_key env c s = Some t" "holds env t txt (snd (line_key mx c (txt, p)))"
proof -
  have h: "lpos s = int p" "llen s = int (length txt)" "p \<le> length txt" using assms(1) by (simp_all add: holds_def)
  note bwd = cl_backward_holds [OF assms(1)] and fwd = cl_forward_holds [OF assms(1)]
  have w: "int (length txt) - int p = int (length txt - p)" using h(3) by simp
  consider "c = 1" | "c = 5" | "c = 6" "p = length txt" | "c = 6" "p + 1 \<le> length txt" | "c = 2" "p = 0" | "c = 2" "1 \<le> p"
    using assms(2) h(3) by fastforce
  then have "\<exists>t. readline_key env c s = Some t \<and> holds env t txt (snd (line_key mx c (txt, p)))"
  proof cases
    case 1
    with bwd [of p] h show ?thesis by (auto simp: readline_key_def)
  next
    case 2
    with fwd [of "length txt - p"] h show ?thesis by (auto simp: readline_key_def w simp del: of_nat_diff)
  next
    case 4
    with fwd [of 1] h show ?thesis by (auto simp: readline_key_def)
  next
    case 6
    with bwd [of 1] h show ?thesis by (auto simp: readline_key_def)
  qed (use assms(1) h in \<open>simp_all add: readline_key_def\<close>)
  then show thesis using that by blast
qed

text \<open>Two bundles: keys handled by the second switch, and a printable character.\<close>

lemma readline_key_other: "c \<notin> {1, 2, 5, 6, 9, 11, 14, 16, 21, 25} \<Longrightarrow> readline_key env c s = Some s"
  by (simp add: readline_key_def)

lemma insert_char_holds:
  assumes "holds env s txt p" "32 \<le> c" "c \<le> 126"
  obtains t where "cl_insert env [word_of_int c] s = Some t"
    "holds env t (fst (line_key (maxlen env) c (txt, p))) (snd (line_key (maxlen env) c (txt, p)))"
proof -
  have "unat (word_of_int c :: u8) = nat c" using assms(2,3) by (simp add: unat_word_of_int_u8)
  then have "(word_of_int c :: u8) \<noteq> 0" using assms(2) by auto
  then have z: "0 \<notin> set [word_of_int c :: u8]" by simp
  obtain t where t: "cl_insert env [word_of_int c] s = Some t"
      "if int (length txt + length [word_of_int c :: u8]) < maxlen env
       then holds env t (take p txt @ [word_of_int c] @ drop p txt) (p + length [word_of_int c :: u8]) else t = s"
    by (rule cl_insert_holds [OF assms(1) z])
  have l: "line_key (maxlen env) c (txt, p) = (if int (length txt + 1) < maxlen env then (take p txt @ [word_of_int c] @ drop p txt, p + 1) else (txt, p))"
    using assms(2,3) by simp
  show thesis
  proof (rule that [OF t(1)])
    show "holds env t (fst (line_key (maxlen env) c (txt, p))) (snd (line_key (maxlen env) c (txt, p)))"
      unfolding l using t(2) assms(1) by (cases "int (length txt + 1) < maxlen env") simp_all
  qed
qed

lemma edit_key_holds:
  assumes "holds env s txt p" "readline env" "c \<in> edit_keys"
  obtains t where "edit_key env c s = Some (False, t)"
    "holds env t (fst (line_key (maxlen env) c (txt, p))) (snd (line_key (maxlen env) c (txt, p)))"
proof -
  consider "c \<in> {1, 2, 5, 6}" | "c = 21" | "c = 11" | "c = 4" | "c = 8" | "32 \<le> c" "c \<le> 126"
    using assms(3) by (auto simp: edit_keys_def)
  then have "\<exists>t. edit_key env c s = Some (False, t) \<and>
    holds env t (fst (line_key (maxlen env) c (txt, p))) (snd (line_key (maxlen env) c (txt, p)))"
  proof cases
    case 1
    moreover have "fst (line_key (maxlen env) c (txt, p)) = txt" using 1 by auto
    moreover obtain t where "readline_key env c s = Some t" "holds env t txt (snd (line_key (maxlen env) c (txt, p)))"
      by (rule motion_holds [OF assms(1) 1])
    moreover have "c \<noteq> 27" "c \<noteq> 4" "c \<noteq> 8" "\<not> 32 \<le> c" using 1 by auto
    ultimately show ?thesis using assms(2) by (simp add: edit_key_def del: line_key.simps)
  next
    case 2
    obtain t where "readline_key env 21 s = Some t" "holds env t (drop p txt) 0" by (rule kill_back_holds [OF assms(1)])
    with 2 assms(2) show ?thesis by (simp add: edit_key_def)
  next
    case 3
    obtain t where "readline_key env 11 s = Some t" "holds env t (take p txt) p" by (rule kill_forward_holds [OF assms(1)])
    with 3 assms(2) show ?thesis by (simp add: edit_key_def)
  next
    case 4
    obtain t where "(if lpos s = llen s then Some s else cl_delete env 1 s) = Some t" "holds env t (take p txt @ drop (p + 1) txt) p"
      using delete_at_holds [OF assms(1)] .
    then show ?thesis using 4 assms(2) by (cases "lpos s = llen s") (simp_all add: edit_key_def readline_key_other)
  next
    case 5
    obtain t where "(if lpos s > 0 then do { s \<leftarrow> cl_backward env 1 s; cl_delete env 1 s } else Some s) = Some t"
      "holds env t (take (p - 1) txt @ drop p txt) (p - 1)"
      using backspace_holds [OF assms(1)] .
    then show ?thesis using 5 assms(2)
      by (cases "lpos s > 0") (auto simp: edit_key_def readline_key_other bind_eq_Some_conv)
  next
    case 6
    then obtain t where "cl_insert env [word_of_int c] s = Some t"
      "holds env t (fst (line_key (maxlen env) c (txt, p))) (snd (line_key (maxlen env) c (txt, p)))"
      using insert_char_holds [OF assms(1)] by blast
    then show ?thesis using 6 assms(2) by (auto simp: edit_key_def readline_key_other simp del: line_key.simps)
  qed
  then show thesis using that by blast
qed

text \<open>A sequence of keys, none of which leaves the editor.\<close>

primrec edit_all :: "'s cl_env \<Rightarrow> int list \<Rightarrow> 's editor \<Rightarrow> 's editor option" where
  "edit_all env [] s = Some s"
| "edit_all env (c # cs) s = do { (esc, s) \<leftarrow> edit_key env c s; if esc then None else edit_all env cs s }"

lemma edit_all_holds:
  assumes "holds env s txt p" "readline env" "set cs \<subseteq> edit_keys"
  shows "\<exists>t. edit_all env cs s = Some t \<and> (case fold (line_key (maxlen env)) cs (txt, p) of (txt', p') \<Rightarrow> holds env t txt' p')"
  using assms(1,3)
proof (induction cs arbitrary: s "txt" p)
  case (Cons c cs)
  from Cons.prems have "c \<in> edit_keys" "set cs \<subseteq> edit_keys" by simp_all
  obtain u where u: "edit_key env c s = Some (False, u)"
    "holds env u (fst (line_key (maxlen env) c (txt, p))) (snd (line_key (maxlen env) c (txt, p)))"
    by (rule edit_key_holds [OF Cons.prems(1) assms(2) \<open>c \<in> edit_keys\<close>])
  from Cons.IH [OF u(2) \<open>set cs \<subseteq> edit_keys\<close>] u(1) show ?case by (simp del: line_key.simps)
qed simp

text \<open>A terminal without output, and an editor with an empty line on it, for the examples.\<close>

definition null_term :: "'s term_entry" where
  "null_term = \<lparr>term_flags = 4, term_putchar = (\<lambda>_ s. s), term_checkkey = Pair (- 1), term_getkey = (\<lambda>_. None), term_getxy = None,
     term_gotoxy = (\<lambda>_ _ s. s), term_cls = (\<lambda>s. s), term_setcolorstate = None, term_setcolor = None, term_setcursor = None\<rparr>"

definition shell_env :: "unit cl_env" where
  "shell_env = \<lparr>cl_term = null_term, prompt = cstr ''grub> '', cmdline = 0x20000, maxlen = 1600, echo_char = 0, readline = True,
     print_completions = (\<lambda>_ _ s. Some (- 1, s))\<rparr>"

definition fresh_editor :: "unit editor" where
  "fresh_editor = \<lparr>gm = \<lparr>mem = (\<lambda>_. 0), ports = [], errnum = ERR_NONE, mem_lower = 640, mem_upper = 64512\<rparr>,
     cio = \<lparr>max_lines = 24, count_lines = - 1, tstate = ()\<rparr>, xpos = 6, lpos = 0, llen = 0, sect = 0, history = - 1,
     num_history = 0, buf_drive = - 1\<rparr>"

lemma fresh_editor_holds: "holds shell_env fresh_editor [] 0"
  by (simp add: holds_def fresh_editor_def shell_env_def grub_ready_def cursor_ok_def cursor_column_def plen_def cstr_def cstring_nth)

text \<open>
  C2. Refinement of the line editor: with the buffer holding a text and the cursor in it, every sequence of
  editing keys (C-a, C-e, C-f, C-b, C-d, backspace, C-k, C-u and the printable characters) is handled without
  failure and leaves the buffer, the length and the cursor where the abstract editor on a pair of text and
  position leaves them. In particular the text stays zero terminated and shorter than \<open>maxlen\<close>, and the
  screen column is the one of the cursor's place in the displayed section.
\<close>

theorem editor_refines_line:
  assumes "holds env s txt p" "readline env" "set cs \<subseteq> edit_keys"
  shows "\<exists>t. edit_all env cs s = Some t \<and> (case fold (line_key (maxlen env)) cs (txt, p) of (txt', p') \<Rightarrow> holds env t txt' p')"
  by (rule edit_all_holds [OF assms])

theorem editor_refines_line_witness:
  "\<exists>t. edit_all shell_env [98, 2, 97, 99, 8] fresh_editor = Some t \<and> holds shell_env t [97, 98] 1"
  using editor_refines_line [OF fresh_editor_holds, of "[98, 2, 97, 99, 8]"]
  by (simp add: shell_env_def edit_keys_def)

section \<open>The kill buffer\<close>

text \<open>
  Deleting \<open>k\<close> characters at \<open>p\<close> moves \<open>llen - k + 1\<close> bytes, not the \<open>llen - p - k + 1\<close> that follow the
  gap. When the line is long enough the move passes the end of the working buffer: every byte from
  \<open>CMDLINE_BUF + 1600\<close>, where the kill buffer starts, to \<open>CMDLINE_BUF + p + llen - k\<close> is replaced by the one
  \<open>k\<close> places behind it.
\<close>

theorem cl_delete_spills:
  assumes "holds env s txt p" "p + k \<le> length txt" "1600 \<le> j" "j \<le> p + length txt - k"
  shows "\<exists>t. cl_delete env (int k) s = Some t \<and>
    mem (gm t) (CMDLINE_BUF + of_nat j) = mem (gm s) (CMDLINE_BUF + of_nat (j + k))"
proof -
  have l: "length txt < 1600" using assms(1) unfolding holds_def by linarith
  obtain t where t: "cl_delete env (int k) s = Some t"
    "mem (gm t) = copied (mem (gm s)) (CMDLINE_BUF + of_nat p) (CMDLINE_BUF + of_nat (p + k)) (length txt - k + 1)"
    by (rule cl_delete_holds [OF assms(1,2)])
  have e: "j - p + (p + k) = j + k" "p \<le> j" "j < p + (length txt - k + 1)" "j < 100000" "p < 100000" "length txt - k + 1 < 100000"
    using assms(2-4) l by linarith+
  have "mem (gm t) (CMDLINE_BUF + of_nat j) = mem (gm s) (CMDLINE_BUF + of_nat (j + k))"
    unfolding t(2) copied_buf [OF e(4-6)] e(1) using e(2,3) by (simp only: simp_thms if_True)
  with t(1) show ?thesis by blast
qed

text \<open>A line of a thousand characters with the cursor at 900, and a byte in the kill buffer.\<close>

definition long_editor :: "unit editor" where
  "long_editor = fresh_editor
     \<lparr>gm := (gm fresh_editor)\<lparr>mem := (\<lambda>a. if in_region a CMDLINE_BUF 1000 then 97 else if a = KILL_BUF + 1 then 5 else 0)\<rparr>,
      xpos := 35, lpos := 900, llen := 1000, sect := 13\<rparr>"

lemma long_editor_holds: "holds shell_env long_editor (replicate 1000 97) 900"
proof -
  have "mem (gm long_editor) (CMDLINE_BUF + of_nat i) = (replicate 1000 97 @ [0]) ! i" if "i \<le> 1000" for i
  proof -
    have "in_region (CMDLINE_BUF + of_nat i) CMDLINE_BUF 1000 \<longleftrightarrow> i < 1000"
      using in_buf_region [of i 0 1000] that by simp
    moreover have "unat (CMDLINE_BUF + of_nat i) \<noteq> unat (KILL_BUF + 1)" using unat_buf [of i] that by simp
    then have "CMDLINE_BUF + of_nat i \<noteq> KILL_BUF + 1" by metis
    ultimately show ?thesis using that by (simp add: long_editor_def nth_append)
  qed
  then have "cstring_at (mem (gm long_editor)) CMDLINE_BUF (replicate 1000 97)" by (simp add: cstring_nth)
  moreover have "grub_ready (gm long_editor)" "pager_off long_editor" by (simp_all add: long_editor_def fresh_editor_def grub_ready_def)
  ultimately show ?thesis
    by (simp add: holds_def long_editor_def fresh_editor_def shell_env_def cursor_ok_def cursor_column_def section_base_def plen_def cstr_def)
qed

theorem cl_delete_spills_witness:
  "\<exists>t. cl_delete shell_env 1 long_editor = Some t \<and> mem (gm long_editor) KILL_BUF = 0 \<and> mem (gm t) KILL_BUF = 5"
  using cl_delete_spills [OF long_editor_holds, of 1 1600] by (simp add: long_editor_def in_region_def)

lemma str_at_cstring: "cstring_at m p s \<Longrightarrow> str_at m p = Some s"
  by (simp add: str_at_def strlen_of_cstring) (simp add: cstring_at_def)

lemma kill_forward_saves:
  assumes "holds env s txt p" "2 * p < 1600"
  obtains t where "readline_key env 11 s = Some t" "holds env t (take p txt) p"
    "p < length txt \<Longrightarrow> cstring_at (mem (gm t)) KILL_BUF (drop p txt)" "p = length txt \<Longrightarrow> t = s"
proof (cases "p = length txt")
  case True
  with assms show thesis by (intro that [of s]) (simp_all add: readline_key_def holds_def)
next
  case False
  have h: "cstring_at (mem (gm s)) CMDLINE_BUF txt" "lpos s = int p" "llen s = int (length txt)" "p \<le> length txt"
    using assms(1) by (simp_all add: holds_def)
  have l: "length txt < 1600" using assms(1) unfolding holds_def by linarith
  let ?n = "length txt - p"
  have len: "unat (of_nat (?n + 1) :: u32) = ?n + 1" using l by (intro unat_of_nat_u32) simp
  have w: "int (length txt) - int p = int ?n" using h by simp
  have w2: "int ?n + 1 = int (?n + 1)" by simp
  define s1 where "s1 = move_buf KILL_BUF (CMDLINE_BUF + of_nat p) (int ?n + 1) s"
  have n: "p \<le> 1600" "?n + 1 \<le> 1600" using l h(4) by simp_all
  note ks = kill_store [OF assms(1) n len]
  have s1: "holds env s1 txt p" unfolding s1_def move_buf_def w2 of_int_of_nat_eq by (rule ks(2))
  have m1: "mem (gm s1) = copied (mem (gm s)) (CMDLINE_BUF + of_nat 1600) (CMDLINE_BUF + of_nat p) (?n + 1)"
    unfolding s1_def move_buf_def w2 of_int_of_nat_eq using ks(1) by simp
  obtain t where t: "cl_delete env (int ?n) s1 = Some t" "holds env t (take p txt @ drop (p + ?n) txt) p"
    "mem (gm t) = copied (mem (gm s1)) (CMDLINE_BUF + of_nat p) (CMDLINE_BUF + of_nat (p + ?n)) (length txt - ?n + 1)"
    using cl_delete_holds [OF s1, of ?n] h(4) by (metis le_add_diff_inverse order_refl)
  have r: "readline_key env 11 s = Some t"
    using False t(1) h(2,3) by (simp add: readline_key_def w s1_def del: of_nat_diff)
  have "mem (gm t) (KILL_BUF + of_nat i) = (drop p txt @ [0]) ! i" if "i \<le> ?n" for i
  proof -
    have e: "KILL_BUF + of_nat i = CMDLINE_BUF + of_nat (1600 + i)" by simp
    have b: "1600 + i < 100000" "p < 100000" "length txt - ?n + 1 < 100000" "(1600 :: nat) < 100000" "?n + 1 < 100000"
      using that l h(4) by linarith+
    have c: "\<not> 1600 + i < p + (length txt - ?n + 1)" using assms(2) h(4) by linarith
    have d: "1600 + i - 1600 + p = p + i" "(1600 :: nat) \<le> 1600 + i" "1600 + i < 1600 + (?n + 1)" using that by linarith+
    have "mem (gm t) (KILL_BUF + of_nat i) = mem (gm s) (CMDLINE_BUF + of_nat (p + i))"
      unfolding e t(3) copied_buf [OF b(1-3)] m1 copied_buf [OF b(1,4,5)] d(1) using c d(2,3) by (simp only: simp_thms if_False if_True)
    also have "\<dots> = (txt @ [0]) ! (p + i)" using h(1,4) that by (simp only: cstring_nth)
    also have "\<dots> = (drop p txt @ [0]) ! i" using that h(4) by (auto simp: nth_append)
    finally show ?thesis .
  qed
  then have k: "cstring_at (mem (gm t)) KILL_BUF (drop p txt)"
    using h(1,4) by (auto simp: cstring_nth dest: in_set_dropD)
  show thesis by (rule that [OF r]) (use t(2) k False h(4) in simp_all)
qed

lemma kill_yank:
  assumes "holds env s txt p" "readline env" "p < length txt" "2 * p < 1600"
  shows "\<exists>t. edit_all env [11, 25] s = Some t \<and> holds env t txt (length txt)"
proof -
  obtain u where u: "readline_key env 11 s = Some u" "holds env u (take p txt) p" "cstring_at (mem (gm u)) KILL_BUF (drop p txt)"
    using kill_forward_saves [OF assms(1,4)] assms(3) by blast
  have z: "0 \<notin> set (drop p txt)" using u(3) by (simp add: cstring_at_def)
  have mx: "int (length txt) < maxlen env" using assms(1) by (simp add: holds_def)
  obtain t where t: "cl_insert env (drop p txt) u = Some t"
    "if int (length (take p txt) + length (drop p txt)) < maxlen env
     then holds env t (take p (take p txt) @ drop p txt @ drop p (take p txt)) (p + length (drop p txt)) else t = u"
    by (rule cl_insert_holds [OF u(2) z])
  have "holds env t txt (length txt)" using t(2) mx assms(3) by (simp add: min_def split: if_splits)
  moreover have "readline_key env 25 u = Some t" using t(1) u(3) by (simp add: readline_key_def str_at_cstring)
  ultimately show ?thesis using u(1) assms(2) by (simp add: edit_key_def)
qed

text \<open>
  Round trip of kill and yank: with the cursor before the end and in the first half of the buffer, C-k
  followed by C-y gives back the same line with the cursor at its end. The bound is needed: further right the
  deletion overwrites the kill buffer.
\<close>

theorem kill_yank_roundtrip:
  assumes "holds env s txt p" "readline env" "p < length txt" "2 * p < 1600"
  shows "\<exists>t. edit_all env [11, 25] s = Some t \<and> holds env t txt (length txt)"
  by (rule kill_yank [OF assms])

lemma short_line: "\<exists>t. edit_all shell_env [97, 98, 99, 2, 2] fresh_editor = Some t \<and> holds shell_env t [97, 98, 99] 1"
  using edit_all_holds [OF fresh_editor_holds, of "[97, 98, 99, 2, 2]"] by (simp add: shell_env_def edit_keys_def)

theorem kill_yank_roundtrip_witness:
  "\<exists>s t. edit_all shell_env [97, 98, 99, 2, 2] fresh_editor = Some s \<and> edit_all shell_env [11, 25] s = Some t \<and>
     holds shell_env t [97, 98, 99] 3"
proof -
  obtain s where s: "edit_all shell_env [97, 98, 99, 2, 2] fresh_editor = Some s" "holds shell_env s [97, 98, 99] 1"
    using short_line by blast
  have "readline shell_env" by (simp add: shell_env_def)
  from kill_yank_roundtrip [OF s(2) this] obtain t where "edit_all shell_env [11, 25] s = Some t" "holds shell_env t [97, 98, 99] 3"
    by (simp del: edit_all.simps) (metis numeral_3_eq_3)
  with s(1) show ?thesis by blast
qed

section \<open>The reduced editor\<close>

text \<open>A terminal that types a list of keys and has neither echo nor output.\<close>

definition typed_term :: "int list term_entry" where
  "typed_term = null_term\<lparr>term_flags := 3, term_getkey := (\<lambda>ks. case ks of [] \<Rightarrow> None | k # ks \<Rightarrow> Some (k, ks))\<rparr>"

lemma gather_typed:
  assumes "\<forall>k \<in> set ks. 32 < k \<and> k \<le> 126"
  shows "gather_loop typed_term p \<lparr>max_lines = a, count_lines = b, tstate = ks @ 13 # r\<rparr> =
    Some (False, p @ map word_of_int ks, \<lparr>max_lines = a, count_lines = b, tstate = r\<rparr>)"
  using assms
proof (induction ks arbitrary: p)
  case Nil
  show ?case by (subst gather_loop.simps) (simp add: getkey_def typed_term_def ASCII_CHAR_def)
next
  case (Cons k ks)
  have "ASCII_CHAR k = k" using Cons.prems take_bit_int_eq_self [of k 8] by (simp add: ASCII_CHAR_def take_bit_eq_mask mask_eq_exp_minus_1)
  then show ?case using Cons
    by (subst gather_loop.simps) (simp add: getkey_def typed_term_def ASCII_CHAR_def)
qed

text \<open>
  The editor for terminals without echo ignores \<open>maxlen\<close>: any number of characters typed before the return
  key is stored, with the terminating zero, from \<open>cmdline\<close> on, whatever bound the caller gave. No memory outside
  these bytes changes.
\<close>

theorem reduced_editor_unbounded:
  assumes "\<forall>k \<in> set ks. 32 < k \<and> k \<le> 126" "cl_term env = typed_term" "prompt env = []"
    "cio s = \<lparr>max_lines = a, count_lines = b, tstate = ks @ 13 # r\<rparr>"
  shows "get_cmdline env s =
    Some (0, store_raw (cmdline env) (map word_of_int ks @ [0]) (s\<lparr>cio := \<lparr>max_lines = a, count_lines = b, tstate = r\<rparr>\<rparr>))"
  using assms gather_typed [OF assms(1), of "[]" a b r]
  by (simp add: get_cmdline_def setcursor_def typed_term_def null_term_def store_raw_def Let_def)

theorem reduced_editor_unbounded_witness:
  "get_cmdline \<lparr>cl_term = typed_term, prompt = [], cmdline = 0x20000, maxlen = 2, echo_char = 0, readline = False,
      print_completions = (\<lambda>_ _ s. Some (- 1, s))\<rparr>
     \<lparr>gm = gm fresh_editor, cio = \<lparr>max_lines = 24, count_lines = - 1, tstate = [97, 98, 99, 13]\<rparr>,
      xpos = 0, lpos = 0, llen = 0, sect = 0, history = - 1, num_history = 0, buf_drive = - 1\<rparr> =
   Some (0, store_raw 0x20000 [97, 98, 99, 0]
     \<lparr>gm = gm fresh_editor, cio = \<lparr>max_lines = 24, count_lines = - 1, tstate = []\<rparr>,
      xpos = 0, lpos = 0, llen = 0, sect = 0, history = - 1, num_history = 0, buf_drive = - 1\<rparr>)"
  by (subst reduced_editor_unbounded [of "[97, 98, 99]" _ _ 24 "- 1" "[]"]) simp_all

end
