(* ===== verification/GRUB_MD5.thy ===== *)
theory GRUB_MD5
  imports C_Machine
begin

text \<open>
  The message digest of the boot loader, \<^verbatim>\<open>src/legacy/SZoS/grub-0.97/stage2/md5.c\<close>, and the password hash built on it.

  The static variables are the record \<open>md5_ctx\<close>. A \<open>const char *\<close> argument with its length is the list of its
  bytes (shorter than \<open>2\<^sup>3\<^sup>1\<close>, so that the \<open>int\<close> lengths do not overflow); the buffer \<open>crypted\<close>, which \<open>md5_password\<close>
  reads and writes, is the list of all its bytes, and an access outside it is \<^const>\<open>None\<close>.

  The digest of a message in any number of pieces is that of RFC 1321, and the password check accepts exactly
  the text that the password function produces for the key and the salt.
\<close>

section \<open>Definitions\<close>

record md5_ctx =
  md5_state :: "u32 list"
  md5_length :: u32
  md5_buffer :: "u8 list"

definition md5_F :: "u32 \<Rightarrow> u32 \<Rightarrow> u32 \<Rightarrow> u32" where "md5_F x y z = (x AND y) OR (NOT x AND z)"
definition md5_G :: "u32 \<Rightarrow> u32 \<Rightarrow> u32 \<Rightarrow> u32" where "md5_G x y z = (x AND z) OR (y AND NOT z)"
definition md5_H :: "u32 \<Rightarrow> u32 \<Rightarrow> u32 \<Rightarrow> u32" where "md5_H x y z = x XOR y XOR z"
definition md5_I :: "u32 \<Rightarrow> u32 \<Rightarrow> u32 \<Rightarrow> u32" where "md5_I x y z = y XOR (x OR NOT z)"

definition ROTATE_LEFT :: "u32 \<Rightarrow> nat \<Rightarrow> u32" where
  "ROTATE_LEFT x n = push_bit n x OR drop_bit (32 - n) x"

definition initstate :: "u32 list" where
  "initstate = [0x67452301, 0xefcdab89, 0x98badcfe, 0x10325476]"

definition md5_s1 :: "nat list" where "md5_s1 = [7, 12, 17, 22]"
definition md5_s2 :: "nat list" where "md5_s2 = [5, 9, 14, 20]"
definition md5_s3 :: "nat list" where "md5_s3 = [4, 11, 16, 23]"
definition md5_s4 :: "nat list" where "md5_s4 = [6, 10, 15, 21]"

definition md5_T :: "u32 list" where
  "md5_T =
   [0xd76aa478, 0xe8c7b756, 0x242070db, 0xc1bdceee,
    0xf57c0faf, 0x4787c62a, 0xa8304613, 0xfd469501,
    0x698098d8, 0x8b44f7af, 0xffff5bb1, 0x895cd7be,
    0x6b901122, 0xfd987193, 0xa679438e, 0x49b40821,
    0xf61e2562, 0xc040b340, 0x265e5a51, 0xe9b6c7aa,
    0xd62f105d, 0x02441453, 0xd8a1e681, 0xe7d3fbc8,
    0x21e1cde6, 0xc33707d6, 0xf4d50d87, 0x455a14ed,
    0xa9e3e905, 0xfcefa3f8, 0x676f02d9, 0x8d2a4c8a,
    0xfffa3942, 0x8771f681, 0x6d9d6122, 0xfde5380c,
    0xa4beea44, 0x4bdecfa9, 0xf6bb4b60, 0xbebfbc70,
    0x289b7ec6, 0xeaa127fa, 0xd4ef3085, 0x04881d05,
    0xd9d4d039, 0xe6db99e5, 0x1fa27cf8, 0xc4ac5665,
    0xf4292244, 0x432aff97, 0xab9423a7, 0xfc93a039,
    0x655b59c3, 0x8f0ccc92, 0xffeff47d, 0x85845dd1,
    0x6fa87e4f, 0xfe2ce6e0, 0xa3014314, 0x4e0811a1,
    0xf7537e82, 0xbd3af235, 0x2ad7d2bb, 0xeb86d391]"

definition b64t :: "u8 list" where
  "b64t = cstr ''./0123456789ABCDEFGHIJKLMNOPQRSTUVWXYZabcdefghijklmnopqrstuvwxyz''"

text \<open>Little-endian access to a byte array, as by \<open>*(UINT4 *)\<close>.\<close>

definition le32 :: "u32 \<Rightarrow> u8 list" where
  "le32 w = [ucast w, ucast (drop_bit 8 w), ucast (drop_bit 16 w), ucast (drop_bit 24 w)]"

definition le32_at :: "u8 list \<Rightarrow> nat \<Rightarrow> u32" where
  "le32_at block i = ucast (block ! i) OR push_bit 8 (ucast (block ! (i + 1))) OR
     push_bit 16 (ucast (block ! (i + 2))) OR push_bit 24 (ucast (block ! (i + 3)))"

text \<open>\<open>memcpy (buf + i, xs, n)\<close> on a byte array.\<close>

definition overwrite :: "'a list \<Rightarrow> nat \<Rightarrow> 'a list \<Rightarrow> 'a list" where
  "overwrite buf i xs = take i buf @ xs @ drop (i + length xs) buf"

text \<open>The body of the four loops of \<open>md5_transform\<close>: \<open>x\<close>, \<open>t\<close> and \<open>s\<close> are the word, the constant and the shift.\<close>

definition md5_step :: "(u32 \<Rightarrow> u32 \<Rightarrow> u32 \<Rightarrow> u32) \<Rightarrow> u32 \<Rightarrow> u32 \<Rightarrow> nat \<Rightarrow>
    u32 \<times> u32 \<times> u32 \<times> u32 \<Rightarrow> u32 \<times> u32 \<times> u32 \<times> u32" where
  "md5_step f x t s = (\<lambda>(a, b, c, d).
     let tmp = a + f b c d + x + t;
         tmp = ROTATE_LEFT tmp s;
         tmp = tmp + b
     in (d, tmp, b, c))"

definition md5_transform :: "u8 list \<Rightarrow> u32 list \<Rightarrow> u32 list" where
  "md5_transform block state =
     (let x = (\<lambda>i. le32_at block (4 * i));
          v = (state ! 0, state ! 1, state ! 2, state ! 3);
          v = for_up 16 (\<lambda>i. md5_step md5_F (x i) (md5_T ! i) (md5_s1 ! (i mod 4))) v;
          v = for_up 16 (\<lambda>i. md5_step md5_G (x ((1 + 5 * i) mod 16)) (md5_T ! (i + 16)) (md5_s2 ! (i mod 4))) v;
          v = for_up 16 (\<lambda>i. md5_step md5_H (x ((5 + 3 * i) mod 16)) (md5_T ! (i + 32)) (md5_s3 ! (i mod 4))) v;
          (a, b, c, d) = for_up 16 (\<lambda>i. md5_step md5_I (x ((7 * i) mod 16)) (md5_T ! (i + 48)) (md5_s4 ! (i mod 4))) v
      in [state ! 0 + a, state ! 1 + b, state ! 2 + c, state ! 3 + d])"

definition md5_init :: "'a md5_ctx_scheme \<Rightarrow> 'a md5_ctx_scheme" where
  "md5_init s = s\<lparr>md5_state := initstate, md5_length := 0\<rparr>"

text \<open>The loop over whole blocks of \<open>md5_update\<close>: the rest of the input and the state.\<close>

function md5_blocks :: "u8 list \<Rightarrow> u32 list \<Rightarrow> u8 list \<times> u32 list" where
  "md5_blocks input state =
     (if length input \<ge> 64 then md5_blocks (drop 64 input) (md5_transform (take 64 input) state)
      else (input, state))"
  by pat_completeness auto
termination
  by (relation "measure (\<lambda>(input, state). length input)") auto

declare md5_blocks.simps [simp del]

definition md5_update :: "u8 list \<Rightarrow> 'a md5_ctx_scheme \<Rightarrow> 'a md5_ctx_scheme" where
  "md5_update input s =
     (let inputlen = length input;
          buflen = unat (md5_length s AND 63);
          s = s\<lparr>md5_length := md5_length s + of_nat inputlen\<rparr>
      in if buflen + inputlen < 64 then s\<lparr>md5_buffer := overwrite (md5_buffer s) buflen input\<rparr>
         else let s = s\<lparr>md5_buffer := overwrite (md5_buffer s) buflen (take (64 - buflen) input)\<rparr>;
                  s = s\<lparr>md5_state := md5_transform (md5_buffer s) (md5_state s)\<rparr>;
                  (rest, state) = md5_blocks (drop (64 - buflen) input) (md5_state s)
              in s\<lparr>md5_state := state, md5_buffer := overwrite (md5_buffer s) 0 rest\<rparr>)"

definition md5_final :: "'a md5_ctx_scheme \<Rightarrow> u8 list \<times> 'a md5_ctx_scheme" where
  "md5_final s =
     (let buflen = unat (md5_length s AND 63);
          s = s\<lparr>md5_buffer := (md5_buffer s)[buflen := 0x80]\<rparr>;
          buflen = buflen + 1;
          s = s\<lparr>md5_buffer := overwrite (md5_buffer s) buflen (replicate (64 - buflen) 0)\<rparr>;
          s = (if buflen > 56
               then s\<lparr>md5_state := md5_transform (md5_buffer s) (md5_state s), md5_buffer := replicate 64 0\<rparr> else s);
          s = s\<lparr>md5_buffer := overwrite (md5_buffer s) 56 (le32 (8 * md5_length s))\<rparr>;
          s = s\<lparr>md5_buffer := overwrite (md5_buffer s) 60 (le32 0)\<rparr>;
          s = s\<lparr>md5_state := md5_transform (md5_buffer s) (md5_state s)\<rparr>
      in (concat (map le32 (md5_state s)), s))"

section \<open>Password definitions\<close>

text \<open>The C string that starts at index \<open>i\<close> of a buffer: \<^const>\<open>None\<close> when no zero byte ends it.\<close>

definition c_string :: "u8 list \<Rightarrow> nat \<Rightarrow> u8 list option" where
  "c_string buf i = (if 0 \<in> set (drop i buf) then Some (takeWhile (\<lambda>c. c \<noteq> 0) (drop i buf)) else None)"

text \<open>\<open>strstr (s, "$")\<close>, as an index.\<close>

definition find_dollar :: "u8 list \<Rightarrow> nat option" where
  "find_dollar s = (if 36 \<in> set s then Some (length (takeWhile (\<lambda>c. c \<noteq> 36) s)) else None)"

function md5_alternate :: "u8 list \<Rightarrow> nat \<Rightarrow> 'a md5_ctx_scheme \<Rightarrow> 'a md5_ctx_scheme" where
  "md5_alternate alt_result i s =
     (if i > 16 then md5_alternate alt_result (i - 16) (md5_update alt_result s) else md5_update (take i alt_result) s)"
  by pat_completeness auto
termination by (relation "measure (\<lambda>(alt_result, i, s). i)") auto

declare md5_alternate.simps [simp del]

text \<open>\<open>key + ((i & 1) ? keylen : 0)\<close> is the terminating zero of the key or its first character.\<close>

function md5_key_bits :: "u8 list \<Rightarrow> nat \<Rightarrow> 'a md5_ctx_scheme \<Rightarrow> 'a md5_ctx_scheme" where
  "md5_key_bits key i s =
     (if i > 0 then md5_key_bits key (i div 2) (md5_update [if odd i then 0 else key ! 0] s) else s)"
  by pat_completeness auto
termination by (relation "measure (\<lambda>(key, i, s). i)") auto

declare md5_key_bits.simps [simp del]

definition md5_stretch :: "u8 list \<Rightarrow> u8 list \<Rightarrow> nat \<Rightarrow> u8 list \<times> 'a md5_ctx_scheme \<Rightarrow> u8 list \<times> 'a md5_ctx_scheme" where
  "md5_stretch key salt i = (\<lambda>(digest, s).
     let alt_result = digest;
         s = md5_init s;
         s = (if odd i then md5_update key s else md5_update alt_result s);
         s = (if i mod 3 \<noteq> 0 then md5_update salt s else s);
         s = (if i mod 7 \<noteq> 0 then md5_update key s else s);
         s = (if odd i then md5_update alt_result s else md5_update key s)
     in md5_final s)"

text \<open>The digest of a key, lines 237 to 278; \<open>header\<close> is \<open>crypted\<close> up to the end of the salt.\<close>

definition md5_password_digest :: "u8 list \<Rightarrow> u8 list \<Rightarrow> u8 list \<Rightarrow> 'a md5_ctx_scheme \<Rightarrow> u8 list \<times> 'a md5_ctx_scheme" where
  "md5_password_digest key header salt s =
     (let s = md5_init s;
          s = md5_update key s;
          s = md5_update salt s;
          s = md5_update key s;
          (alt_result, s) = md5_final s;
          s = md5_init s;
          s = md5_update key s;
          s = md5_update header s;
          s = md5_alternate alt_result (length key) s;
          s = md5_key_bits key (length key) s
      in for_up 1000 (md5_stretch key salt) (md5_final s))"

primrec b64_digits :: "nat \<Rightarrow> u32 \<Rightarrow> u8 list" where
  "b64_digits 0 w = []"
| "b64_digits (Suc n) w = b64t ! unat (w AND 0x3f) # b64_digits n (drop_bit 6 w)"

definition b64_group :: "u8 list \<Rightarrow> nat \<Rightarrow> u32" where
  "b64_group digest i = ucast (digest ! (if i = 4 then 5 else 12 + i)) OR push_bit 8 (ucast (digest ! (6 + i))) OR
     push_bit 16 (ucast (digest ! i))"

definition b64_text :: "u8 list \<Rightarrow> u8 list" where
  "b64_text digest = concat (map (\<lambda>i. b64_digits 4 (b64_group digest i)) [0..<5]) @ b64_digits 2 (ucast (digest ! 11))"

text \<open>The loops over the digits: comparing, or storing.\<close>

primrec check_digits :: "u8 list \<Rightarrow> nat \<Rightarrow> u8 list \<Rightarrow> int option" where
  "check_digits [] p crypted = (if p < length crypted then Some (sint (crypted ! p)) else None)"
| "check_digits (d # ds) p crypted =
     (if p < length crypted then (if crypted ! p \<noteq> d then Some 1 else check_digits ds (p + 1) crypted) else None)"

primrec store_digits :: "u8 list \<Rightarrow> nat \<Rightarrow> u8 list \<Rightarrow> u8 list option" where
  "store_digits [] p crypted = (if p < length crypted then Some (crypted[p := 0]) else None)"
| "store_digits (d # ds) p crypted =
     (if p < length crypted then store_digits ds (p + 1) (crypted[p := d]) else None)"

text \<open>
  The result is the return value, the buffer and the static variables. Checking a text without a second dollar
  sign subtracts a null pointer: \<^const>\<open>None\<close>.
\<close>

definition md5_password :: "u8 list \<Rightarrow> u8 list \<Rightarrow> bool \<Rightarrow> 'a md5_ctx_scheme \<Rightarrow>
    (int \<times> u8 list \<times> 'a md5_ctx_scheme) option" where
  "md5_password key crypted check s =
     (if check then
        Option.bind (c_string crypted 0) (\<lambda>str.
        if length str \<le> 3 then Some (1, crypted, s)
        else Option.bind (Option.bind (c_string crypted 3) find_dollar) (\<lambda>saltlen.
          let salt = take saltlen (drop 3 crypted);
              (digest, s) = md5_password_digest key (take (3 + saltlen) crypted) salt s
          in map_option (\<lambda>r. (r, crypted, s)) (check_digits (b64_text digest) (3 + saltlen + 1) crypted)))
      else
        Option.bind (c_string crypted 3) (\<lambda>str.
        let saltlen = (case find_dollar str of Some e \<Rightarrow> if e < 8 then e else 8 | None \<Rightarrow> 8)
        in if 3 + saltlen < length crypted then
             (let crypted = crypted[3 + saltlen := 36];
                  salt = take saltlen (drop 3 crypted);
                  (digest, s) = md5_password_digest key (take (3 + saltlen) crypted) salt s
              in map_option (\<lambda>crypted. (0, crypted, s)) (store_digits (b64_text digest) (3 + saltlen + 1) crypted))
           else None))"

section \<open>The digest of RFC 1321\<close>

text \<open>
  The reference: the message is padded with a bit one, zeros and its length in bits as 64-bit number, and the
  blocks are compressed by 64 steps, step \<open>i\<close> with its function, word and shift.
\<close>

definition rfc_round :: "nat \<Rightarrow> (u32 \<Rightarrow> u32 \<Rightarrow> u32 \<Rightarrow> u32) \<times> nat \<times> nat list" where
  "rfc_round i =
     (if i < 16 then (md5_F, i, [7, 12, 17, 22])
      else if i < 32 then (md5_G, (5 * i + 1) mod 16, [5, 9, 14, 20])
      else if i < 48 then (md5_H, (3 * i + 5) mod 16, [4, 11, 16, 23])
      else (md5_I, 7 * i mod 16, [6, 10, 15, 21]))"

definition rfc_step :: "(nat \<Rightarrow> u32) \<Rightarrow> nat \<Rightarrow> u32 \<times> u32 \<times> u32 \<times> u32 \<Rightarrow> u32 \<times> u32 \<times> u32 \<times> u32" where
  "rfc_step x i = (\<lambda>(a, b, c, d).
     let (f, k, s) = rfc_round i in (d, b + word_rotl (s ! (i mod 4)) (a + f b c d + x k + md5_T ! i), b, c))"

definition rfc_compress :: "u8 list \<Rightarrow> u32 list \<Rightarrow> u32 list" where
  "rfc_compress block state =
     (let (a, b, c, d) = for_up 64 (rfc_step (\<lambda>k. le32_at block (4 * k))) (state ! 0, state ! 1, state ! 2, state ! 3)
      in [state ! 0 + a, state ! 1 + b, state ! 2 + c, state ! 3 + d])"

fun blocks64 :: "u8 list \<Rightarrow> u8 list list" where
  "blocks64 xs = (if length xs < 64 then [] else take 64 xs # blocks64 (drop 64 xs))"

declare blocks64.simps [simp del]

definition md5_padded :: "u8 list \<Rightarrow> u8 list \<Rightarrow> u8 list" where
  "md5_padded len m = m @ 0x80 # replicate ((119 - length m mod 64) mod 64) 0 @ len"

definition rfc_md5 :: "u8 list \<Rightarrow> u8 list" where
  "rfc_md5 m =
     (let bits = of_nat (8 * length m) :: u64
      in concat (map le32 (fold rfc_compress
           (blocks64 (md5_padded (le32 (ucast bits) @ le32 (ucast (drop_bit 32 bits))) m)) initstate)))"

lemma rotate_left_rotl:
  assumes "0 < n" "n < 32"
  shows "ROTATE_LEFT x n = word_rotl n x"
proof (rule bit_word_eqI)
  fix k assume "k < LENGTH(32)"
  then have k: "k < 32" by simp
  define j where "j = 32 - n"
  have j: "0 < j" "j < 32" "n = 32 - j" using assms by (auto simp: j_def)
  have "bit (word_rotl n x) k = bit x ((k + j) mod 32)"
    using k assms by (simp add: bit_word_rotl_iff j_def)
  also have "(k + j) mod 32 = (if n \<le> k then k - n else k + j)"
    using j k by (auto simp: mod_if)
  also have "bit (ROTATE_LEFT x n) k = ((n \<le> k \<and> bit x (k - n)) \<or> bit x (k + j))"
    using k by (simp add: ROTATE_LEFT_def bit_or_iff bit_push_bit_iff bit_drop_bit_eq j_def [symmetric] add.commute)
  moreover have "\<not> bit x (k + j)" if "n \<le> k"
    using that j(3) bit_imp_le_length [of x "k + j"] by auto
  ultimately show "bit (ROTATE_LEFT x n) k = bit (word_rotl n x) k" by auto
qed

lemma md5_step_rotl:
  "0 < s \<Longrightarrow> s < 32 \<Longrightarrow> md5_step f x t s (a, b, c, d) = (d, b + word_rotl s (a + f b c d + x + t), b, c)"
  by (simp add: md5_step_def rotate_left_rotl Let_def add.commute)

lemma shift_range:
  "i < 4 \<Longrightarrow> 0 < md5_s1 ! i \<and> md5_s1 ! i < 32" "i < 4 \<Longrightarrow> 0 < md5_s2 ! i \<and> md5_s2 ! i < 32"
  "i < 4 \<Longrightarrow> 0 < md5_s3 ! i \<and> md5_s3 ! i < 32" "i < 4 \<Longrightarrow> 0 < md5_s4 ! i \<and> md5_s4 ! i < 32"
proof -
  have c: "i < 4 \<longleftrightarrow> i = 0 \<or> i = 1 \<or> i = 2 \<or> i = 3" by auto
  show "i < 4 \<Longrightarrow> 0 < md5_s1 ! i \<and> md5_s1 ! i < 32" unfolding c by (auto simp: md5_s1_def)
  show "i < 4 \<Longrightarrow> 0 < md5_s2 ! i \<and> md5_s2 ! i < 32" unfolding c by (auto simp: md5_s2_def)
  show "i < 4 \<Longrightarrow> 0 < md5_s3 ! i \<and> md5_s3 ! i < 32" unfolding c by (auto simp: md5_s3_def)
  show "i < 4 \<Longrightarrow> 0 < md5_s4 ! i \<and> md5_s4 ! i < 32" unfolding c by (auto simp: md5_s4_def)
qed

lemma rfc_round_parts:
  "i < 16 \<Longrightarrow> rfc_round i = (md5_F, i, md5_s1)"
  "i < 16 \<Longrightarrow> rfc_round (16 + i) = (md5_G, (1 + 5 * i) mod 16, md5_s2)"
  "i < 16 \<Longrightarrow> rfc_round (32 + i) = (md5_H, (5 + 3 * i) mod 16, md5_s3)"
  "rfc_round (48 + i) = (md5_I, 7 * i mod 16, md5_s4)"
proof -
  have "(5 * (16 + i) + 1) mod 16 = (1 + 5 * i) mod 16" "(3 * (32 + i) + 5) mod 16 = (5 + 3 * i) mod 16"
    "7 * (48 + i) mod 16 = 7 * i mod 16"
    using mod_mult_self2 [of "1 + 5 * i" 16 5] mod_mult_self2 [of "5 + 3 * i" 16 6] mod_mult_self2 [of "7 * i" 16 21]
    by (simp_all add: algebra_simps)
  note m = this
  show "i < 16 \<Longrightarrow> rfc_round i = (md5_F, i, md5_s1)" by (simp add: rfc_round_def md5_s1_def)
  show "i < 16 \<Longrightarrow> rfc_round (16 + i) = (md5_G, (1 + 5 * i) mod 16, md5_s2)"
    unfolding rfc_round_def m md5_s2_def by simp
  show "i < 16 \<Longrightarrow> rfc_round (32 + i) = (md5_H, (5 + 3 * i) mod 16, md5_s3)"
    unfolding rfc_round_def m md5_s3_def by simp
  show "rfc_round (48 + i) = (md5_I, 7 * i mod 16, md5_s4)"
    unfolding rfc_round_def m md5_s4_def by simp
qed

lemma rfc_step_eq:
  assumes "rfc_round j = (f, k, s)" "0 < s ! (j mod 4)" "s ! (j mod 4) < 32"
  shows "rfc_step x j = md5_step f (x k) (md5_T ! j) (s ! (j mod 4))"
proof
  fix v :: "u32 \<times> u32 \<times> u32 \<times> u32"
  obtain a b c d where v: "v = (a, b, c, d)" by (cases v)
  show "rfc_step x j v = md5_step f (x k) (md5_T ! j) (s ! (j mod 4)) v"
    by (simp add: v rfc_step_def assms(1) md5_step_rotl [OF assms(2,3)])
qed

lemma rfc_rounds:
  "i < 16 \<Longrightarrow> rfc_step x i = md5_step md5_F (x i) (md5_T ! i) (md5_s1 ! (i mod 4))"
  "i < 16 \<Longrightarrow> rfc_step x (16 + i) = md5_step md5_G (x ((1 + 5 * i) mod 16)) (md5_T ! (i + 16)) (md5_s2 ! (i mod 4))"
  "i < 16 \<Longrightarrow> rfc_step x (32 + i) = md5_step md5_H (x ((5 + 3 * i) mod 16)) (md5_T ! (i + 32)) (md5_s3 ! (i mod 4))"
  "rfc_step x (48 + i) = md5_step md5_I (x ((7 * i) mod 16)) (md5_T ! (i + 48)) (md5_s4 ! (i mod 4))"
proof -
  have m: "(16 + i) mod 4 = i mod 4" "(32 + i) mod 4 = i mod 4" "(48 + i) mod 4 = i mod 4"
    using mod_mult_self2 [of i 4 4] mod_mult_self2 [of i 4 8] mod_mult_self2 [of i 4 12] by (simp_all add: add.commute)
  have r: "i mod 4 < 4" by simp
  note s = shift_range [OF r]
  show "i < 16 \<Longrightarrow> rfc_step x i = md5_step md5_F (x i) (md5_T ! i) (md5_s1 ! (i mod 4))"
    using s(1) by (simp only: rfc_step_eq [OF rfc_round_parts(1)])
  show "i < 16 \<Longrightarrow> rfc_step x (16 + i) = md5_step md5_G (x ((1 + 5 * i) mod 16)) (md5_T ! (i + 16)) (md5_s2 ! (i mod 4))"
    using s(2) rfc_step_eq [OF rfc_round_parts(2), of i] by (simp only: m add.commute [of i])
  show "i < 16 \<Longrightarrow> rfc_step x (32 + i) = md5_step md5_H (x ((5 + 3 * i) mod 16)) (md5_T ! (i + 32)) (md5_s3 ! (i mod 4))"
    using s(3) rfc_step_eq [OF rfc_round_parts(3), of i] by (simp only: m add.commute [of i])
  show "rfc_step x (48 + i) = md5_step md5_I (x ((7 * i) mod 16)) (md5_T ! (i + 48)) (md5_s4 ! (i mod 4))"
    using s(4) rfc_step_eq [OF rfc_round_parts(4), of i] by (simp only: m add.commute [of i])
qed

lemma md5_transform_rfc: "md5_transform block state = rfc_compress block state"
proof -
  let ?x = "\<lambda>k. le32_at block (4 * k)"
  have split: "for_up 64 (rfc_step ?x) v =
      for_up 16 (\<lambda>i. rfc_step ?x (48 + i)) (for_up 16 (\<lambda>i. rfc_step ?x (32 + i))
        (for_up 16 (\<lambda>i. rfc_step ?x (16 + i)) (for_up 16 (rfc_step ?x) v)))" for v
    using for_up_add [of 48 16 "rfc_step ?x" v] for_up_add [of 32 16 "rfc_step ?x" v]
      for_up_add [of 16 16 "rfc_step ?x" v] by simp
  note rounds = rfc_rounds [where x = ?x]
  have "for_up 16 (rfc_step ?x) v = for_up 16 (\<lambda>i. md5_step md5_F (?x i) (md5_T ! i) (md5_s1 ! (i mod 4))) v"
    "for_up 16 (\<lambda>i. rfc_step ?x (16 + i)) v =
      for_up 16 (\<lambda>i. md5_step md5_G (?x ((1 + 5 * i) mod 16)) (md5_T ! (i + 16)) (md5_s2 ! (i mod 4))) v"
    "for_up 16 (\<lambda>i. rfc_step ?x (32 + i)) v =
      for_up 16 (\<lambda>i. md5_step md5_H (?x ((5 + 3 * i) mod 16)) (md5_T ! (i + 32)) (md5_s3 ! (i mod 4))) v" for v
    by (intro for_up_cong, simp only: rounds)+
  then show ?thesis
    unfolding md5_transform_def rfc_compress_def Let_def split by (simp only: rounds)
qed

section \<open>Digests of messages in pieces\<close>

lemma blocks64_short [simp]: "length xs < 64 \<Longrightarrow> blocks64 xs = []"
  by (simp add: blocks64.simps)

lemma blocks64_append: "64 dvd length xs \<Longrightarrow> blocks64 (xs @ ys) = blocks64 xs @ blocks64 ys"
proof (induction xs rule: blocks64.induct)
  case (1 xs)
  show ?case
  proof (cases "length xs < 64")
    case True
    with 1(2) have "xs = []" by (auto dest: nat_dvd_not_less)
    then show ?thesis by simp
  next
    case False
    with 1 have "blocks64 (drop 64 xs @ ys) = blocks64 (drop 64 xs) @ blocks64 ys" by (simp add: dvd_diff_nat)
    with False show ?thesis by (simp add: blocks64.simps [of "xs @ ys"] blocks64.simps [of xs])
  qed
qed

lemma blocks64_one: "length xs = 64 \<Longrightarrow> blocks64 xs = [xs]"
  by (simp add: blocks64.simps)

lemma md5_blocks_fold:
  obtains full rest where "md5_blocks input st = (rest, fold md5_transform (blocks64 full) st)" "input = full @ rest"
    "64 dvd length full" "length rest < 64"
proof (induction input st arbitrary: thesis rule: md5_blocks.induct)
  case (1 input st)
  show ?case
  proof (cases "64 \<le> length input")
    case True
    obtain full rest where f: "md5_blocks (drop 64 input) (md5_transform (take 64 input) st) =
        (rest, fold md5_transform (blocks64 full) (md5_transform (take 64 input) st))"
      "drop 64 input = full @ rest" "64 dvd length full" "length rest < 64"
      using 1(1) [OF True] by blast
    have l: "length (take 64 input) = 64" using True by simp
    show ?thesis
    proof (rule 1(2) [of rest "take 64 input @ full"])
      show "md5_blocks input st = (rest, fold md5_transform (blocks64 (take 64 input @ full)) st)"
        using True f l by (simp add: md5_blocks.simps [of input] blocks64_append blocks64_one)
      show "input = (take 64 input @ full) @ rest" using f(2) by (metis append.assoc append_take_drop_id)
      show "64 dvd length (take 64 input @ full)" using l f(3) by simp
    qed (rule f(4))
  next
    case False
    then show ?thesis by (intro 1(2) [of input "[]"]) (simp_all add: md5_blocks.simps [of input])
  qed
qed

text \<open>The static variables after the message \<open>m\<close>: its whole blocks are compressed, the rest is in the buffer.\<close>

definition md5_holds :: "u8 list \<Rightarrow> 'a md5_ctx_scheme \<Rightarrow> bool" where
  "md5_holds m s \<longleftrightarrow> (\<exists>full part junk. m = full @ part \<and> 64 dvd length full \<and> length part < 64 \<and>
     md5_buffer s = part @ junk \<and> length junk = 64 - length part \<and>
     md5_state s = fold md5_transform (blocks64 full) initstate \<and> md5_length s = of_nat (length m))"

lemma md5_holds_init: "length (md5_buffer s) = 64 \<Longrightarrow> md5_holds [] (md5_init s)"
  by (simp add: md5_holds_def md5_init_def)

lemma md5_buflen:
  assumes "md5_length s = of_nat (length (full @ part))" "64 dvd length full" "length part < 64"
  shows "unat (md5_length s AND 63) = length part"
proof -
  have "md5_length s AND 63 = take_bit 6 (md5_length s)" by (simp add: take_bit_eq_mask mask_eq_exp_minus_1)
  then have "unat (md5_length s AND 63) = length (full @ part) mod 4294967296 mod 64"
    by (simp add: assms(1) unat_mod_distrib unat_of_nat take_bit_eq_mod del: length_append of_nat_add)
  also have "\<dots> = length (full @ part) mod 64" by (rule mod_mod_cancel) simp
  also have "\<dots> = length part" using assms(2,3) by (auto elim!: dvdE)
  finally show ?thesis .
qed

lemma overwrite_0 [simp]: "overwrite buf 0 xs = xs @ drop (length xs) buf"
  by (simp add: overwrite_def)

lemma overwrite_part [simp]:
  "length ys \<le> length junk \<Longrightarrow> overwrite (part @ junk) (length part) ys = part @ ys @ drop (length ys) junk"
  by (simp add: overwrite_def)

lemma md5_update_holds:
  assumes "md5_holds m s"
  shows "md5_holds (m @ input) (md5_update input s)"
proof -
  obtain full part junk where m: "m = full @ part" "64 dvd length full" "length part < 64"
    and b: "md5_buffer s = part @ junk" "length junk = 64 - length part"
    and st: "md5_state s = fold md5_transform (blocks64 full) initstate" "md5_length s = of_nat (length m)"
    using assms by (auto simp: md5_holds_def)
  have r: "unat (md5_length s AND 63) = length part" by (rule md5_buflen [OF _ m(2,3)]) (simp add: st m)
  show ?thesis
  proof (cases "length part + length input < 64")
    case True
    then have "md5_update input s = s\<lparr>md5_length := md5_length s + of_nat (length input),
        md5_buffer := part @ input @ drop (length input) junk\<rparr>"
      using b(2) by (simp add: md5_update_def r b(1) Let_def)
    with True m b(2) st show ?thesis unfolding md5_holds_def
      by (intro exI [of _ full] exI [of _ "part @ input"] exI [of _ "drop (length input) junk"]) simp
  next
    case False
    define i where "i = take (64 - length part) input"
    define B where "B = part @ i"
    have i: "length i = 64 - length part" and lb: "length B = 64" using False m(3) by (auto simp: i_def B_def)
    obtain full' rest where k: "md5_blocks (drop (64 - length part) input) (md5_transform B (md5_state s)) =
        (rest, fold md5_transform (blocks64 full') (md5_transform B (md5_state s)))"
      "drop (64 - length part) input = full' @ rest" "64 dvd length full'" "length rest < 64"
      by (rule md5_blocks_fold)
    have o1: "overwrite (md5_buffer s) (length part) i = B"
      using i b(2) by (simp add: b(1) B_def)
    have st': "fold md5_transform (blocks64 full') (md5_transform B (md5_state s)) =
        fold md5_transform (blocks64 (full @ B @ full')) initstate"
      using lb m(2) by (simp add: blocks64_append blocks64_one st(1))
    have u: "md5_update input s = s\<lparr>md5_length := md5_length s + of_nat (length input),
        md5_state := fold md5_transform (blocks64 (full @ B @ full')) initstate, md5_buffer := rest @ drop (length rest) B\<rparr>"
      using False by (simp add: md5_update_def r Let_def i_def [symmetric] o1 k(1) st' [symmetric])
    have e: "m @ input = (full @ B @ full') @ rest"
      using k(2) m(1) by (metis B_def i_def append.assoc append_take_drop_id)
    have d: "64 dvd length (full @ B @ full')" using m(2) k(3) lb by (simp add: dvd_add_right_iff)
    show ?thesis unfolding md5_holds_def u
      by (intro exI [of _ "full @ B @ full'"] exI [of _ rest] exI [of _ "drop (length rest) B"] conjI e d k(4))
        (use lb st(2) in simp_all)
  qed
qed

definition md5_digest :: "u8 list \<Rightarrow> u8 list" where
  "md5_digest m = concat (map le32 (fold md5_transform
     (blocks64 (md5_padded (le32 (8 * of_nat (length m)) @ le32 0) m)) initstate))"

lemma length_le32 [simp]: "length (le32 w) = 4"
  by (simp add: le32_def)

lemma length_md5_transform [simp]: "length (md5_transform b st) = 4"
  by (simp add: md5_transform_def Let_def split: prod.splits)

lemma length_fold_transform: "length st = 4 \<Longrightarrow> length (fold md5_transform bs st) = 4"
  by (induction bs arbitrary: st) auto

lemma length_concat_le32: "length (concat (map le32 ws)) = 4 * length ws"
  by (induction ws) simp_all

lemma md5_final_digest:
  assumes "md5_holds m s"
  shows "fst (md5_final s) = md5_digest m" "length (md5_buffer (snd (md5_final s))) = 64"
proof -
  obtain full part junk where m: "m = full @ part" "64 dvd length full" "length part < 64"
    and b: "md5_buffer s = part @ junk" "length junk = 64 - length part"
    and st: "md5_state s = fold md5_transform (blocks64 full) initstate" "md5_length s = of_nat (length m)"
    using assms by (auto simp: md5_holds_def)
  have r: "unat (md5_length s AND 63) = length part" by (rule md5_buflen [OF _ m(2,3)]) (simp add: st m)
  define B where "B = part @ 0x80 # replicate (63 - length part) 0"
  define L where "L = le32 (8 * md5_length s) @ le32 0"
  obtain j js where j: "junk = j # js" using b(2) m(3) by (cases junk) auto
  have B: "overwrite ((md5_buffer s)[length part := 0x80]) (Suc (length part)) (replicate (63 - length part) 0) = B"
    using overwrite_part [of "replicate (63 - length part) 0" js "part @ [0x80]"] b(2) m(3)
    by (simp add: B_def b(1) j del: overwrite_part)
  have lB: "length B = 64" using m(3) by (simp add: B_def)
  have L: "overwrite (overwrite C 56 (le32 (8 * md5_length s))) 60 (le32 0) = take 56 C @ L" if "length C = 64" for C
    using that by (simp add: overwrite_def L_def)
  have lm: "length m mod 64 = length part" using m by (auto elim!: dvdE)
  have "fst (md5_final s) = md5_digest m \<and> length (md5_buffer (snd (md5_final s))) = 64"
  proof (cases "Suc (length part) > 56")
    case True
    then have k: "(119 - length part) mod 64 = (63 - length part) + 56" using m(3) by (simp add: mod_if)
    have "md5_padded L m = full @ B @ replicate 56 0 @ L"
      unfolding md5_padded_def lm k replicate_add by (simp add: m(1) B_def)
    then have p: "blocks64 (md5_padded L m) = blocks64 full @ [B, replicate 56 0 @ L]"
      using m(2) lB by (simp add: blocks64_append blocks64_one L_def)
    have "md5_final s = (concat (map le32 (fold md5_transform (blocks64 (md5_padded L m)) initstate)),
        s\<lparr>md5_buffer := replicate 56 0 @ L, md5_state := fold md5_transform (blocks64 (md5_padded L m)) initstate\<rparr>)"
      using True by (simp add: md5_final_def r B L p st(1) Let_def)
    then show ?thesis by (simp add: md5_digest_def L_def st(2))
  next
    case False
    then have k: "(119 - length part) mod 64 = 55 - length part" by (simp add: mod_if)
    have "replicate (63 - length part) 0 = replicate (55 - length part) 0 @ replicate 8 (0 :: u8)"
      using False by (simp flip: replicate_add)
    then have t: "take 56 B = part @ 0x80 # replicate (55 - length part) 0"
      using False by (simp add: B_def take_Cons')
    then have "md5_padded L m = full @ take 56 B @ L"
      unfolding md5_padded_def lm k by (simp add: m(1))
    then have p: "blocks64 (md5_padded L m) = blocks64 full @ [take 56 B @ L]"
      using m(2) lB by (simp add: blocks64_append blocks64_one L_def)
    have "md5_final s = (concat (map le32 (fold md5_transform (blocks64 (md5_padded L m)) initstate)),
        s\<lparr>md5_buffer := take 56 B @ L, md5_state := fold md5_transform (blocks64 (md5_padded L m)) initstate\<rparr>)"
      using False by (simp add: md5_final_def r B L lB p st(1) Let_def)
    then show ?thesis using lB by (simp add: md5_digest_def L_def st(2))
  qed
  then show "fst (md5_final s) = md5_digest m" "length (md5_buffer (snd (md5_final s))) = 64" by simp_all
qed

lemma md5_fold_holds: "md5_holds m s \<Longrightarrow> md5_holds (m @ concat pieces) (fold md5_update pieces s)"
proof (induction pieces arbitrary: m s)
  case (Cons p pieces)
  from Cons.IH [OF md5_update_holds [OF Cons.prems]] show ?case by simp
qed simp

lemma md5_digest_rfc:
  assumes "length m < 536870912"
  shows "md5_digest m = rfc_md5 m"
proof -
  have lo: "(8 * of_nat (length m) :: u32) = ucast (of_nat (8 * length m) :: u64)"
    unfolding unsigned_of_nat using assms by (simp add: take_bit_nat_eq_self)
  have "drop_bit 32 (of_nat (8 * length m) :: u64) = 0"
    using assms by (simp add: drop_bit_eq_div word_unat_eq_iff unat_div_distrib unat_of_nat word_eq_iff_unsigned del: of_nat_mult)
  then show ?thesis
    by (simp add: md5_digest_def rfc_md5_def Let_def lo md5_transform_rfc [abs_def] del: of_nat_mult)
qed

text \<open>
  C13. The digest is MD5: a message given to \<open>md5_update\<close> in any pieces, of up to \<open>2\<^sup>2\<^sup>9 - 1\<close> bytes in all, has the
  digest that RFC 1321 defines for the whole message, whatever the variables held before.
\<close>

theorem md5_is_rfc1321:
  assumes "length (md5_buffer s) = 64" and "length (concat pieces) < 536870912"
  shows "fst (md5_final (fold md5_update pieces (md5_init s))) = rfc_md5 (concat pieces)"
  using md5_final_digest(1) [OF md5_fold_holds [OF md5_holds_init [OF assms(1)], of pieces]]
    md5_digest_rfc [OF assms(2)] by simp

definition fresh_md5 :: md5_ctx where
  "fresh_md5 = \<lparr>md5_state = [0, 0, 0, 0], md5_length = 0, md5_buffer = replicate 64 0\<rparr>"

lemma rfc_md5_abc:
  "rfc_md5 (cstr ''abc'') = [0x90, 0x01, 0x50, 0x98, 0x3c, 0xd2, 0x4f, 0xb0, 0xd6, 0x96, 0x3f, 0x7d, 0x28, 0xe1, 0x7f, 0x72]"
  by code_simp

theorem md5_is_rfc1321_witness:
  "fst (md5_final (fold md5_update [cstr ''a'', [], cstr ''bc''] (md5_init fresh_md5))) =
     [0x90, 0x01, 0x50, 0x98, 0x3c, 0xd2, 0x4f, 0xb0, 0xd6, 0x96, 0x3f, 0x7d, 0x28, 0xe1, 0x7f, 0x72]"
proof -
  have h: "length (md5_buffer fresh_md5) = 64" "length (concat [cstr ''a'', [], cstr ''bc'']) < 536870912"
    by (simp_all add: fresh_md5_def cstr_def)
  have "concat [cstr ''a'', [], cstr ''bc''] = cstr ''abc''" by (simp add: cstr_def)
  then show ?thesis unfolding md5_is_rfc1321 [OF h] by (simp only: rfc_md5_abc)
qed

section \<open>Passwords\<close>

text \<open>The digest of a key as a function of the key, the salt and the header alone.\<close>

fun key_bit_bytes :: "u8 list \<Rightarrow> nat \<Rightarrow> u8 list" where
  "key_bit_bytes key i = (if i = 0 then [] else (if odd i then 0 else key ! 0) # key_bit_bytes key (i div 2))"

declare key_bit_bytes.simps [simp del]

definition stretch_bytes :: "u8 list \<Rightarrow> u8 list \<Rightarrow> nat \<Rightarrow> u8 list \<Rightarrow> u8 list" where
  "stretch_bytes key salt i d = (if odd i then key else d) @ (if i mod 3 \<noteq> 0 then salt else []) @
     (if i mod 7 \<noteq> 0 then key else []) @ (if odd i then d else key)"

definition crypt_digest :: "u8 list \<Rightarrow> u8 list \<Rightarrow> u8 list \<Rightarrow> u8 list" where
  "crypt_digest key header salt =
     (let alt = md5_digest (key @ salt @ key);
          n = length key
      in for_up 1000 (\<lambda>i d. md5_digest (stretch_bytes key salt i d))
           (md5_digest (key @ header @ take n (concat (replicate (n div 16 + 1) alt)) @ key_bit_bytes key n)))"

lemma length_md5_digest [simp]: "length (md5_digest m) = 16"
  by (simp add: md5_digest_def length_concat_le32 length_fold_transform initstate_def)

lemma md5_alternate_holds:
  "length alt = 16 \<Longrightarrow> md5_holds m s \<Longrightarrow>
     md5_holds (m @ take n (concat (replicate (n div 16 + 1) alt))) (md5_alternate alt n s)"
proof (induction alt n s arbitrary: m rule: md5_alternate.induct)
  case (1 alt n s)
  show ?case
  proof (cases "16 < n")
    case True
    have "n div 16 + 1 = Suc ((n - 16) div 16 + 1)" using True le_div_geq [of 16 n] by simp
    then have e: "take n (concat (replicate (n div 16 + 1) alt)) =
        alt @ take (n - 16) (concat (replicate ((n - 16) div 16 + 1) alt))"
      using True 1(2) by simp
    from 1(1) [OF True 1(2) md5_update_holds [OF 1(3), of alt]] True show ?thesis
      unfolding e by (simp add: md5_alternate.simps [of alt n])
  next
    case False
    then have e: "take n (concat (replicate (n div 16 + 1) alt)) = take n alt"
      using 1(2) by simp
    from False md5_update_holds [OF 1(3), of "take n alt"] show ?thesis
      unfolding e by (simp add: md5_alternate.simps [of alt n])
  qed
qed

lemma md5_key_bits_holds: "md5_holds m s \<Longrightarrow> md5_holds (m @ key_bit_bytes key i) (md5_key_bits key i s)"
proof (induction key i s arbitrary: m rule: md5_key_bits.induct)
  case (1 key i s)
  show ?case
  proof (cases "i = 0")
    case True
    with 1(2) show ?thesis by (simp add: md5_key_bits.simps key_bit_bytes.simps)
  next
    case False
    then have "0 < i" by simp
    from 1(1) [OF this md5_update_holds [OF 1(2)]] False show ?thesis
      by (simp add: md5_key_bits.simps [of key i] key_bit_bytes.simps [of key i])
  qed
qed

lemma md5_stretch_digest:
  assumes "length (md5_buffer s) = 64"
  shows "fst (md5_stretch key salt i (d, s)) = md5_digest (stretch_bytes key salt i d)"
    "length (md5_buffer (snd (md5_stretch key salt i (d, s)))) = 64"
proof -
  let ?s = "fold md5_update ([if odd i then key else d] @ (if i mod 3 \<noteq> 0 then [salt] else []) @
      (if i mod 7 \<noteq> 0 then [key] else []) @ [if odd i then d else key]) (md5_init s)"
  have e: "md5_stretch key salt i (d, s) = md5_final ?s" by (simp add: md5_stretch_def Let_def)
  have "md5_holds (stretch_bytes key salt i d) ?s"
    using md5_fold_holds [OF md5_holds_init [OF assms], of "[if odd i then key else d] @
      (if i mod 3 \<noteq> 0 then [salt] else []) @ (if i mod 7 \<noteq> 0 then [key] else []) @ [if odd i then d else key]"]
    by (simp add: stretch_bytes_def split del: if_split cong: if_cong) (simp split: if_splits)
  from md5_final_digest [OF this] show "fst (md5_stretch key salt i (d, s)) = md5_digest (stretch_bytes key salt i d)"
    "length (md5_buffer (snd (md5_stretch key salt i (d, s)))) = 64" unfolding e by simp_all
qed

lemma md5_password_digest_pure:
  assumes "length (md5_buffer s) = 64"
  shows "fst (md5_password_digest key header salt s) = crypt_digest key header salt"
proof -
  define f where "f = md5_final (fold md5_update [key, salt, key] (md5_init s))"
  have f: "fst f = md5_digest (key @ salt @ key)" "length (md5_buffer (snd f)) = 64"
    using md5_final_digest [OF md5_fold_holds [OF md5_holds_init [OF assms], of "[key, salt, key]"]] by (simp_all add: f_def)
  define n where "n = length key"
  define g where "g = md5_final (md5_key_bits key n (md5_alternate (fst f) n (fold md5_update [key, header] (md5_init (snd f)))))"
  have "length (fst f) = 16" by (simp add: f)
  from md5_final_digest [OF md5_key_bits_holds [OF md5_alternate_holds [OF this
        md5_fold_holds [OF md5_holds_init [OF f(2)], of "[key, header]"]]]]
  have g: "fst g = md5_digest (key @ header @ take n (concat (replicate (n div 16 + 1) (fst f))) @ key_bit_bytes key n)"
    "length (md5_buffer (snd g)) = 64"
    by (simp_all add: g_def)
  have e: "md5_password_digest key header salt s = for_up 1000 (md5_stretch key salt) g"
    by (simp add: md5_password_digest_def f_def g_def n_def Let_def split_beta)
  have "fst (for_up k (md5_stretch key salt) g) = for_up k (\<lambda>i d. md5_digest (stretch_bytes key salt i d)) (fst g) \<and>
      length (md5_buffer (snd (for_up k (md5_stretch key salt) g))) = 64" for k
  proof (induction k)
    case (Suc k)
    obtain d u where du: "for_up k (md5_stretch key salt) g = (d, u)" by (cases "for_up k (md5_stretch key salt) g")
    with Suc have "length (md5_buffer u) = 64" by simp
    from md5_stretch_digest [OF this] Suc du show ?case by (simp add: for_up_Suc)
  qed (simp add: g(2))
  then show ?thesis by (simp only: e g(1) f(1) crypt_digest_def n_def Let_def)
qed

lemma b64_chars: "0 \<notin> set b64t" "length b64t = 64"
  by (simp_all add: b64t_def cstr_def)

lemma b64_digits_nonzero: "0 \<notin> set (b64_digits n w)"
proof (induction n arbitrary: w)
  case (Suc n)
  have "w AND 0x3f = take_bit 6 w" by (simp add: take_bit_eq_mask mask_eq_exp_minus_1)
  then have "unat (w AND 0x3f) < 64"
    using take_bit_nat_less_exp [of 6 "unat w"] by (simp add: unsigned_take_bit_eq del: take_bit_nat_less_exp)
  then have "b64t ! unat (w AND 0x3f) \<in> set b64t" by (simp add: b64_chars(2))
  then show ?case using Suc b64_chars(1) by auto
qed simp

lemma length_b64_digits [simp]: "length (b64_digits n w) = n"
  by (induction n arbitrary: w) simp_all

lemma b64_text_props: "0 \<notin> set (b64_text d)" "length (b64_text d) = 22"
  by (auto simp: b64_text_def b64_digits_nonzero) (simp add: upt_rec)

lemma check_digits_iff:
  assumes "0 \<notin> set ds" "0 \<notin> set rest"
  shows "\<exists>r. check_digits ds (length pre) (pre @ rest @ 0 # junk) = Some r \<and> (r = 0 \<longleftrightarrow> rest = ds)"
  using assms
proof (induction ds arbitrary: pre rest)
  case Nil
  have "sint c = 0 \<longleftrightarrow> c = 0" for c :: u8 using signed_word_eqI [of c 0] by auto
  with Nil show ?case by (cases rest) (auto simp: nth_append)
next
  case (Cons d ds)
  show ?case
  proof (cases rest)
    case Nil
    with Cons.prems show ?thesis by (auto simp: nth_append)
  next
    case (Cons c cs)
    with Cons.IH [of cs "pre @ [c]"] Cons.prems show ?thesis by (auto simp: nth_append)
  qed
qed

lemma store_digits_stores:
  assumes "length ds < length xs"
  shows "store_digits ds (length pre) (pre @ xs) = Some (pre @ ds @ 0 # drop (Suc (length ds)) xs)"
  using assms
proof (induction ds arbitrary: pre xs)
  case Nil
  then show ?case by (cases xs) auto
next
  case (Cons d ds)
  then obtain x ys where x: "xs = x # ys" "length ds < length ys" by (cases xs) auto
  from Cons.IH [OF x(2), of "pre @ [d]"] show ?case by (simp add: x(1))
qed

lemma c_string_append: "0 \<notin> set xs \<Longrightarrow> c_string (xs @ 0 # ys) 0 = Some xs"
  by (auto simp: c_string_def takeWhile_append)

lemma find_dollar_append: "36 \<notin> set xs \<Longrightarrow> find_dollar (xs @ 36 # ys) = Some (length xs)"
  by (auto simp: find_dollar_def takeWhile_append)

lemma c_string_split:
  assumes "c_string buf 0 = Some str"
  obtains xs where "buf = str @ 0 # xs" "0 \<notin> set str"
proof -
  have z: "0 \<in> set buf" and s: "str = takeWhile (\<lambda>c. c \<noteq> 0) buf" using assms by (auto simp: c_string_def split: if_splits)
  have "dropWhile (\<lambda>c. c \<noteq> 0) buf \<noteq> []" using z by (auto simp: dropWhile_eq_Nil_conv)
  then obtain x xs where x: "dropWhile (\<lambda>c. c \<noteq> 0) buf = x # xs" by (cases "dropWhile (\<lambda>c. c \<noteq> 0) buf") auto
  moreover have "x = 0" using hd_dropWhile [of "\<lambda>c. c \<noteq> 0" buf] x by simp
  ultimately have "buf = str @ 0 # xs" using takeWhile_dropWhile_id [of "\<lambda>c. c \<noteq> 0" buf] s by metis
  then show ?thesis using that s by (auto dest: set_takeWhileD)
qed

lemma salt_length:
  defines "n s \<equiv> case find_dollar s of Some e \<Rightarrow> if e < 8 then e else 8 | None \<Rightarrow> 8"
  shows "n s \<le> 8" "8 \<le> length s \<or> 36 \<in> set s \<Longrightarrow> n s \<le> length s"
    "8 \<le> length s \<or> 36 \<in> set s \<Longrightarrow> 36 \<notin> set (take (n s) s)"
proof -
  let ?w = "takeWhile (\<lambda>c. c \<noteq> 36) s"
  show "n s \<le> 8" by (auto simp: n_def split: option.splits)
  have w: "length ?w \<le> length s" by (rule length_takeWhile_le)
  have "n s \<le> length ?w" if "8 \<le> length s \<or> 36 \<in> set s"
  proof (cases "36 \<in> set s")
    case False
    then have "\<forall>x\<in>set s. x \<noteq> 36" by auto
    then have "length ?w = length s" by (simp only: takeWhile_eq_all_conv [THEN iffD2])
    with False that show ?thesis by (auto simp: n_def find_dollar_def)
  qed (simp add: n_def find_dollar_def)
  note le = this
  show "n s \<le> length s" if "8 \<le> length s \<or> 36 \<in> set s" using le [OF that] w by simp
  have "take k (?w @ dropWhile (\<lambda>c. c \<noteq> 36) s) = take k ?w" if "k \<le> length ?w" for k
    using that by (simp del: takeWhile_dropWhile_id)
  then have "take k s = take k ?w" if "k \<le> length ?w" for k using that unfolding takeWhile_dropWhile_id .
  then show "36 \<notin> set (take (n s) s)" if "8 \<le> length s \<or> 36 \<in> set s"
    using le [OF that] by (auto dest!: in_set_takeD set_takeWhileD)
qed

lemma md5_password_check:
  assumes "length (md5_buffer s) = 64" "length hdr = 3" "0 \<notin> set (hdr @ salt @ rest)" "36 \<notin> set salt"
  shows "\<exists>r t. md5_password key (hdr @ salt @ 36 # rest @ 0 # junk) True s =
      Some (r, hdr @ salt @ 36 # rest @ 0 # junk, t) \<and>
    (r = 0 \<longleftrightarrow> rest = b64_text (crypt_digest key (hdr @ salt) salt))"
proof -
  let ?c = "hdr @ salt @ 36 # rest @ 0 # junk"
  have c0: "c_string ?c 0 = Some (hdr @ salt @ 36 # rest)"
    using c_string_append [of "hdr @ salt @ 36 # rest" junk] assms(3) by simp
  have "c_string ?c 3 = c_string (salt @ 36 # rest @ 0 # junk) 0" using assms(2) by (simp add: c_string_def)
  then have c3: "Option.bind (c_string ?c 3) find_dollar = Some (length salt)"
    using c_string_append [of "salt @ 36 # rest" junk] assms(3,4) by (simp add: find_dollar_append)
  have t: "take (3 + length salt) ?c = hdr @ salt" "take (length salt) (drop 3 ?c) = salt" using assms(2) by simp_all
  obtain d u where d: "md5_password_digest key (hdr @ salt) salt s = (d, u)"
    by (cases "md5_password_digest key (hdr @ salt) salt s")
  then have dd: "d = crypt_digest key (hdr @ salt) salt" using md5_password_digest_pure [OF assms(1), of key "hdr @ salt" salt] by simp
  obtain r where r: "check_digits (b64_text d) (3 + length salt + 1) ?c = Some r" "r = 0 \<longleftrightarrow> rest = b64_text d"
    using check_digits_iff [OF b64_text_props(1), of rest d "hdr @ salt @ [36]" junk] assms(2,3) by auto
  have "\<not> length (hdr @ salt @ 36 # rest) \<le> 3" using assms(2) by simp
  then have "md5_password key ?c True s = Some (r, ?c, u)"
    using r(1) by (simp only: md5_password_def c0 c3 t d if_True if_False bind.bind_lunit Let_def prod.case option.map)
  with r(2) dd show ?thesis by simp
qed

lemma md5_password_generates:
  assumes "length (md5_buffer s) = 64" "length hdr = 3" "c_string (hdr @ salt @ y # ys) 3 = Some str"
    "length salt = (case find_dollar str of Some e \<Rightarrow> if e < 8 then e else 8 | None \<Rightarrow> 8)" "22 < length ys"
  shows "\<exists>t. md5_password key (hdr @ salt @ y # ys) False s =
      Some (0, hdr @ salt @ 36 # b64_text (crypt_digest key (hdr @ salt) salt) @ 0 # drop 23 ys, t)"
proof -
  obtain d s' where d: "md5_password_digest key (hdr @ salt) salt s = (d, s')"
    by (cases "md5_password_digest key (hdr @ salt) salt s")
  have dd: "d = crypt_digest key (hdr @ salt) salt" using md5_password_digest_pure [OF assms(1), of key "hdr @ salt" salt] d by simp
  have u: "(hdr @ salt @ y # ys)[3 + length salt := 36] = hdr @ salt @ 36 # ys" by (simp add: list_update_append assms(2))
  have st: "store_digits (b64_text d) (3 + length salt + 1) (hdr @ salt @ 36 # ys) = Some (hdr @ salt @ 36 # b64_text d @ 0 # drop 23 ys)"
    using store_digits_stores [of "b64_text d" ys "hdr @ salt @ [36]"] assms(2,5) by (simp add: b64_text_props)
  have t: "take (3 + length salt) (hdr @ salt @ 36 # ys) = hdr @ salt" "take (length salt) (drop 3 (hdr @ salt @ 36 # ys)) = salt"
    by (simp_all add: assms(2))
  have "3 + length salt < length (hdr @ salt @ y # ys)" by (simp add: assms(2))
  then have "md5_password key (hdr @ salt @ y # ys) False s = Some (0, hdr @ salt @ 36 # b64_text d @ 0 # drop 23 ys, s')"
    by (simp only: md5_password_def if_False if_True assms(3) bind.bind_lunit Let_def assms(4) [symmetric] u t d prod.case st option.map)
  with dd show ?thesis by blast
qed

text \<open>
  C22. The password check is exact. For a header of three characters, a salt of at most eight characters without a
  dollar sign and a key, generating into a buffer that holds header, salt and dollar sign with room for 23 more
  bytes writes 22 characters and a zero behind the dollar sign, which depend on header, salt and key only; checking
  the key against a zero-terminated text of this header and salt succeeds if and only if the rest of the text
  is exactly these characters (a longer, shorter or different text fails), whatever was digested before.
\<close>

theorem md5_password_check_exact:
  assumes "length (md5_buffer s) = 64" and "length (md5_buffer t) = 64" and "length hdr = 3" and "length salt \<le> 8"
    and "0 \<notin> set (hdr @ salt @ rest)" and "36 \<notin> set salt" and "0 \<in> set xs" and "23 \<le> length xs"
  shows "\<exists>digits s' r t'.
    digits = b64_text (crypt_digest key (hdr @ salt) salt) \<and> length digits = 22 \<and>
    md5_password key (hdr @ salt @ 36 # xs) False s = Some (0, hdr @ salt @ 36 # digits @ 0 # drop 23 xs, s') \<and>
    md5_password key (hdr @ salt @ 36 # rest @ 0 # junk) True t = Some (r, hdr @ salt @ 36 # rest @ 0 # junk, t') \<and>
    (r = 0 \<longleftrightarrow> rest = digits)"
proof -
  let ?w = "takeWhile (\<lambda>c. c \<noteq> 0) xs"
  have "c_string (hdr @ salt @ 36 # xs) 3 = c_string (salt @ 36 # xs) 0" using assms(3) by (simp add: c_string_def)
  also have "\<dots> = Some (salt @ 36 # ?w)" using assms(5,7) by (auto simp: c_string_def takeWhile_append)
  finally have c: "c_string (hdr @ salt @ 36 # xs) 3 = Some (salt @ 36 # ?w)" .
  have n: "length salt = (case find_dollar (salt @ 36 # ?w) of Some e \<Rightarrow> if e < 8 then e else 8 | None \<Rightarrow> 8)"
    using assms(4,6) by (simp add: find_dollar_append)
  have "22 < length xs" using assms(8) by simp
  from md5_password_generates [OF assms(1,3) c n this, of key] md5_password_check [OF assms(2,3,5,6), of key junk]
  show ?thesis by (auto simp: b64_text_props(2))
qed

theorem md5_password_check_exact_witness:
  "\<exists>digits s t. md5_password (cstr ''secret'') (cstr ''$1$abc$'' @ replicate 30 0) False fresh_md5 =
      Some (0, cstr ''$1$abc$'' @ digits @ 0 # replicate 7 0, s) \<and>
    md5_password (cstr ''secret'') (cstr ''$1$abc$'' @ digits @ [0]) True fresh_md5 =
      Some (0, cstr ''$1$abc$'' @ digits @ [0], t)"
proof -
  have h: "length (md5_buffer fresh_md5) = 64" "length (cstr ''$1$'') = 3" "length (cstr ''abc'') \<le> 8"
    "36 \<notin> set (cstr ''abc'')" "(0::u8) \<in> set (replicate 30 0)" "23 \<le> length (replicate 30 (0::u8))"
    by (simp_all add: fresh_md5_def cstr_def)
  define digits where "digits = b64_text (crypt_digest (cstr ''secret'') (cstr ''$1$'' @ cstr ''abc'') (cstr ''abc''))"
  have z: "0 \<notin> set (cstr ''$1$'' @ cstr ''abc'' @ digits)" by (simp add: digits_def b64_text_props cstr_def)
  have e: "cstr ''$1$'' @ cstr ''abc'' @ 36 # ys = cstr ''$1$abc$'' @ ys" for ys by (simp add: cstr_def)
  show ?thesis
    using md5_password_check_exact [OF h(1) h(1) h(2,3) z h(4-6), of "cstr ''secret''" "[]", folded digits_def, unfolded e]
    by auto
qed

lemma md5_password_accepts:
  assumes "length (md5_buffer s) = 64" and "length (md5_buffer t) = 64" and "35 \<le> length crypted"
    and "c_string crypted 0 = Some str" and "11 \<le> length str \<or> 36 \<in> set (drop 3 str)"
  shows "\<exists>c s' t'. md5_password key crypted False s = Some (0, c, s') \<and> md5_password key c True t = Some (0, c, t')"
proof -
  obtain xs where xs: "crypted = str @ 0 # xs" "0 \<notin> set str" using c_string_split [OF assms(4)] .
  define s3 where "s3 = drop 3 str"
  define n where "n = (case find_dollar s3 of Some e \<Rightarrow> if e < 8 then e else 8 | None \<Rightarrow> 8)"
  have l3: "3 \<le> length str" using assms(5) by (cases "3 \<le> length str") auto
  note n = salt_length [of s3, folded n_def]
  have "8 \<le> length s3 \<or> 36 \<in> set s3" using assms(5) by (auto simp: s3_def)
  note n = n(1) n(2,3) [OF this]
  define hdr where "hdr = take 3 str"
  define salt where "salt = take n s3"
  have "str = hdr @ s3" "s3 = salt @ drop n s3" by (simp_all add: hdr_def salt_def s3_def del: drop_drop)
  then have str: "str = hdr @ salt @ drop n s3" "length hdr = 3" "length salt = n"
    using l3 n(2) by (metis, simp_all add: hdr_def salt_def s3_def)
  have z: "0 \<notin> set (hdr @ salt @ b64_text d)" for d using xs(2) b64_text_props(1) [of d] by (auto simp: str(1))
  have c3: "c_string crypted 3 = Some s3"
    using c_string_append [of s3 xs] xs(2) l3
    by (simp add: c_string_def xs(1) s3_def) (meson in_set_dropD)
  obtain y ys where y: "drop n s3 @ 0 # xs = y # ys" by (cases "drop n s3 @ 0 # xs") auto
  have ly: "22 < length ys"
  proof -
    have "length crypted = 3 + n + length (drop n s3 @ 0 # xs)" by (simp only: xs(1) str(1) length_append str(2,3))
    then show ?thesis using assms(3) n(1) by (simp only: y) simp
  qed
  have c: "crypted = hdr @ salt @ y # ys" using xs(1) str(1) y by simp
  let ?d = "crypt_digest key (hdr @ salt) salt"
  let ?c = "hdr @ salt @ 36 # b64_text ?d @ 0 # drop 23 ys"
  have ln: "length salt = (case find_dollar s3 of Some e \<Rightarrow> if e < 8 then e else 8 | None \<Rightarrow> 8)"
    unfolding str(3) by (rule n_def)
  obtain s' where "md5_password key crypted False s = Some (0, ?c, s')"
    using md5_password_generates [OF assms(1) str(2) c3 [unfolded c] ln ly, of key] unfolding c by blast
  moreover obtain t' where "md5_password key ?c True t = Some (0, ?c, t')"
    using md5_password_check [OF assms(2) str(2) z [of ?d] n(3) [folded salt_def], where key = key and junk = "drop 23 ys"] by auto
  ultimately show ?thesis by blast
qed

text \<open>
  A password just encrypted is accepted: for a buffer of at least 35 bytes that holds a text with a salt of
  eight characters or one ended by a dollar sign, encrypting succeeds, and checking the same key against the
  result returns zero, whatever was digested in between.
\<close>

theorem md5_password_roundtrip:
  assumes "length (md5_buffer s) = 64" and "length (md5_buffer t) = 64" and "35 \<le> length crypted"
    and "c_string crypted 0 = Some str" and "11 \<le> length str \<or> 36 \<in> set (drop 3 str)"
  shows "\<exists>c s' t'. md5_password key crypted False s = Some (0, c, s') \<and> md5_password key c True t = Some (0, c, t')"
  by (rule md5_password_accepts [OF assms])

theorem md5_password_roundtrip_witness:
  "\<exists>c s t. md5_password (cstr ''secret'') (cstr ''$1$abcd$'' @ replicate 30 0) False fresh_md5 = Some (0, c, s) \<and>
     md5_password (cstr ''secret'') c True fresh_md5 = Some (0, c, t)"
proof (rule md5_password_roundtrip)
  show "c_string (cstr ''$1$abcd$'' @ replicate 30 0) 0 = Some (cstr ''$1$abcd$'')"
    by (simp add: c_string_def cstr_def)
  show "11 \<le> length (cstr ''$1$abcd$'') \<or> 36 \<in> set (drop 3 (cstr ''$1$abcd$''))" by (simp add: cstr_def)
qed (simp_all add: fresh_md5_def cstr_def)

end
