(* ===== verification/GRUB_Commands.thy ===== *)
theory GRUB_Commands
  imports GRUB_Cmdline GRUB_MD5
begin

text \<open>
  The command interpreter of the boot loader, \<^verbatim>\<open>src/legacy/SZoS/grub-0.97/stage2/cmdline.c\<close>, with the table of builtin
  commands of \<^verbatim>\<open>builtins.c\<close>. The configuration macros that select entries of the table are a parameter. A builtin's
  function is a field of its entry; it may not return, which is \<^const>\<open>None\<close>, as when it boots a kernel.

  Shown: the table is in the order that the search relies on in every configuration, so that \<open>find_command\<close> finds
  a command exactly when the first word is its name.
\<close>

section \<open>Definitions\<close>

abbreviation BUILTIN_CMDLINE :: int where "BUILTIN_CMDLINE \<equiv> 1"
abbreviation BUILTIN_MENU :: int where "BUILTIN_MENU \<equiv> 2"
abbreviation BUILTIN_TITLE :: int where "BUILTIN_TITLE \<equiv> 4"
abbreviation BUILTIN_SCRIPT :: int where "BUILTIN_SCRIPT \<equiv> 8"
abbreviation BUILTIN_NO_ECHO :: int where "BUILTIN_NO_ECHO \<equiv> 0x10"
abbreviation BUILTIN_HELP_LIST :: int where "BUILTIN_HELP_LIST \<equiv> 0x20"

datatype kernel_t =
  KERNEL_TYPE_NONE | KERNEL_TYPE_MULTIBOOT | KERNEL_TYPE_LINUX | KERNEL_TYPE_BIG_LINUX | KERNEL_TYPE_FREEBSD |
  KERNEL_TYPE_NETBSD | KERNEL_TYPE_CHAINLOADER

datatype password_t = PASSWORD_PLAIN | PASSWORD_MD5 | PASSWORD_UNSUPPORTED

text \<open>
  The variables of \<^verbatim>\<open>builtins.c\<close>, and those of other files that the commands below use. \<open>ed\<close> holds memory, error number,
  terminal state and the variables of the line editor.
\<close>

record 's loader =
  ed :: "'s editor"
  kernel_type :: kernel_t
  bootdev :: int
  debug :: int
  default_entry :: int
  fallback_entryno :: int
  fallback_entries :: "int list"
  mb_cmdline :: u32
  password :: u32
  password_type :: password_t
  auth :: int
  grub_timeout :: int
  show_menu :: int
  bios_drive_map :: "u16 list"
  bios_key_map :: "u16 list"
  ascii_key_map :: "u16 list"
  use_pager :: int
  saved_entryno :: int
  mbi_flags :: u32
  mbi_mmap_length :: u32
  saved_mem_upper :: u32
  boot_drive :: u32
  install_partition :: u32
  saved_drive :: u32
  saved_partition :: u32
  current_drive :: u32
  md5 :: md5_ctx

record 's builtin =
  bname :: "u8 list"
  func :: "u8 list \<Rightarrow> int \<Rightarrow> 's loader \<Rightarrow> (int \<times> 's loader) option"
  bflags :: int
  short_doc :: "u8 list"
  long_doc :: "u8 list"

definition set_errnum :: "grub_error_t \<Rightarrow> 's loader \<Rightarrow> 's loader" where
  "set_errnum e s = s\<lparr>ed := ed s\<lparr>gm := gm (ed s)\<lparr>errnum := e\<rparr>\<rparr>\<rparr>"

definition set_count_lines :: "int \<Rightarrow> 's loader \<Rightarrow> 's loader" where
  "set_count_lines n s = s\<lparr>ed := ed s\<lparr>cio := cio (ed s)\<lparr>count_lines := n\<rparr>\<rparr>\<rparr>"

definition say :: "'s term_entry \<Rightarrow> u8 list \<Rightarrow> grub_arg list \<Rightarrow> 's loader \<Rightarrow> 's loader option" where
  "say tm format args s = map_option (\<lambda>t. s\<lparr>ed := ed s\<lparr>cio := t\<rparr>\<rparr>) (grub_printf tm format args (cio (ed s)))"

text \<open>The end of the word, and the start of the next one. A pointer is the rest of the string.\<close>

definition skip_to :: "bool \<Rightarrow> u8 list \<Rightarrow> u8 list" where
  "skip_to after_equal line =
     dropWhile (\<lambda>c. c = 32 \<or> c = 9 \<or> after_equal \<and> c = 61)
       (dropWhile (\<lambda>c. c \<noteq> 0 \<and> c \<noteq> 32 \<and> c \<noteq> 9 \<and> \<not> (after_equal \<and> c = 61)) line)"

text \<open>The terminated command name of \<open>find_command\<close>, which restores the character it overwrites.\<close>

definition command_word :: "u8 list \<Rightarrow> u8 list" where
  "command_word command = takeWhile (\<lambda>c. c \<noteq> 0 \<and> c \<noteq> 32 \<and> c \<noteq> 9 \<and> c \<noteq> 61) command"

primrec find_builtin :: "u8 list \<Rightarrow> 's builtin list \<Rightarrow> 's builtin option" where
  "find_builtin command [] = None"
| "find_builtin command (b # bs) =
     (let ret = grub_strcmp command (bname b)
      in if ret = 0 then Some b else if ret < 0 then None else find_builtin command bs)"

definition find_command :: "'s builtin list \<Rightarrow> u8 list \<Rightarrow> 's loader \<Rightarrow> 's builtin option \<times> 's loader" where
  "find_command builtin_table command s =
     (case find_builtin (command_word command) builtin_table of
        Some b \<Rightarrow> (Some b, s)
      | None \<Rightarrow> (None, set_errnum ERR_UNRECOGNIZED s))"

definition print_cmdline_message :: "'s term_entry \<Rightarrow> bool \<Rightarrow> 's loader \<Rightarrow> 's loader option" where
  "print_cmdline_message tm forever =
     say tm
       (cstr '' [ Minimal BASH-like line editing is supported.  For the first word, TAB'' @ [10] @
        cstr ''   lists possible command completions.  Anywhere else TAB lists the possible'' @ [10] @
        cstr ''   completions of a device/filename.%s ]'' @ [10])
       [ArgStr (if forever then [] else cstr ''  ESC at any time exits.'')]"

text \<open>\<open>set_bootdev\<close> belongs to the disk layer; only its result is used here.\<close>

definition init_builtins :: "(int \<Rightarrow> 's loader \<Rightarrow> int \<times> 's loader) \<Rightarrow> 's loader \<Rightarrow> 's loader" where
  "init_builtins set_bootdev s =
     (let s = s\<lparr>kernel_type := KERNEL_TYPE_NONE\<rparr>;
          (b, s) = set_bootdev 0 s
      in s\<lparr>bootdev := b, mb_cmdline := 0x2000\<rparr>)"

definition init_config :: "'s loader \<Rightarrow> 's loader" where
  "init_config s =
     s\<lparr>default_entry := 0, password := 0, fallback_entryno := - 1, fallback_entries := (fallback_entries s)[0 := - 1],
       grub_timeout := - 1\<rparr>"

definition init_cmdline :: "(int \<Rightarrow> 's loader \<Rightarrow> int \<times> 's loader) \<Rightarrow> 's loader \<Rightarrow> 's loader" where
  "init_cmdline set_bootdev s =
     (let s = s\<lparr>saved_drive := boot_drive s, saved_partition := install_partition s, current_drive := 0xFFFFFFFF\<rparr>;
          s = set_count_lines (- 1) (set_errnum ERR_NONE s);
          s = s\<lparr>ed := ed s\<lparr>gm := gm (ed s)\<lparr>mem_upper := saved_mem_upper s\<rparr>\<rparr>\<rparr>;
          s = (if mbi_mmap_length s \<noteq> 0 then s\<lparr>mbi_flags := mbi_flags s OR 0x40\<rparr> else s)
      in init_builtins set_bootdev s)"

text \<open>The environment of the line editor, with the prompt, address and bound of a call of \<open>get_cmdline\<close>.\<close>

definition line_env :: "'s cl_env \<Rightarrow> u8 list \<Rightarrow> u32 \<Rightarrow> int \<Rightarrow> int \<Rightarrow> bool \<Rightarrow> 's cl_env" where
  "line_env E p a n echo rl = E\<lparr>prompt := p, cmdline := a, maxlen := n, echo_char := echo, readline := rl\<rparr>"

definition ask :: "'s cl_env \<Rightarrow> u8 list \<Rightarrow> u32 \<Rightarrow> int \<Rightarrow> int \<Rightarrow> bool \<Rightarrow> 's loader \<Rightarrow> (int \<times> 's loader) option" where
  "ask E p a n echo rl s = map_option (\<lambda>(r, e). (r, s\<lparr>ed := e\<rparr>)) (get_cmdline (line_env E p a n echo rl) (ed s))"

definition heap_string :: "u32 \<Rightarrow> 's loader \<Rightarrow> u8 list option" where
  "heap_string heap s = str_at (mem (gm (ed s))) heap"

definition show_error :: "'s term_entry \<Rightarrow> 's loader \<Rightarrow> 's loader option" where
  "show_error tm s = map_option (\<lambda>t. s\<lparr>ed := ed s\<lparr>cio := t\<rparr>\<rparr>) (print_error tm (errnum (gm (ed s))) (cio (ed s)))"

text \<open>Both loops mark the disk cache invalid before they run a command.\<close>

definition drop_cache :: "'s loader \<Rightarrow> 's loader" where
  "drop_cache s = s\<lparr>ed := ed s\<lparr>buf_drive := - 1\<rparr>\<rparr>"

definition run_builtin :: "'s builtin \<Rightarrow> u32 \<Rightarrow> int \<Rightarrow> 's loader \<Rightarrow> (int \<times> 's loader) option" where
  "run_builtin b heap flags s = do { str \<leftarrow> heap_string heap s; func b (skip_to True str) flags s }"

text \<open>
  The loop of \<open>enter_cmdline\<close>; it returns when the line editor reports ESC, whatever \<open>forever\<close> says.
\<close>

partial_function (option) cmdline_loop :: "'s cl_env \<Rightarrow> 's builtin list \<Rightarrow> u32 \<Rightarrow> 's loader \<Rightarrow> 's loader option" where
  "cmdline_loop E builtin_table heap s =
     (let s = s\<lparr>ed := poke heap 0 (ed s)\<rparr>
      in Option.bind (show_error (cl_term E) s) (\<lambda>s.
         let s = set_errnum ERR_NONE s
         in Option.bind (ask E (cstr ''grub> '') heap 2048 0 True s) (\<lambda>(esc, s).
            if esc \<noteq> 0 then Some s
            else Option.bind (heap_string heap s) (\<lambda>str.
              if str = [] then cmdline_loop E builtin_table heap s
              else (case find_command builtin_table str s of
                (None, s) \<Rightarrow> cmdline_loop E builtin_table heap s
              | (Some b, s) \<Rightarrow>
                  if bflags b AND BUILTIN_CMDLINE = 0
                  then cmdline_loop E builtin_table heap (set_errnum ERR_UNRECOGNIZED s)
                  else (let s = drop_cache s;
                            s = (if use_pager s \<noteq> 0 then set_count_lines 0 s else s)
                        in Option.bind (run_builtin b heap BUILTIN_CMDLINE s) (\<lambda>(_, s).
                           cmdline_loop E builtin_table heap (set_count_lines (- 1) s))))))))"

definition enter_cmdline :: "(int \<Rightarrow> 's loader \<Rightarrow> int \<times> 's loader) \<Rightarrow> u8 list \<Rightarrow> 's cl_env \<Rightarrow> 's builtin list \<Rightarrow> u32 \<Rightarrow>
    bool \<Rightarrow> 's loader \<Rightarrow> 's loader option" where
  "enter_cmdline set_bootdev version_string E builtin_table heap forever s =
     (let s = init_cmdline set_bootdev s
      in do {
        t \<leftarrow> init_page (cl_term E) version_string (mem_lower (gm (ed s))) (mem_upper (gm (ed s))) (cio (ed s));
        s \<leftarrow> print_cmdline_message (cl_term E) forever (s\<lparr>ed := ed s\<lparr>cio := t\<rparr>\<rparr>);
        cmdline_loop E builtin_table heap s
      })"

text \<open>\<open>grub_memmove\<close> from a string constant.\<close>

definition store_const :: "u32 \<Rightarrow> u8 list \<Rightarrow> 's loader \<Rightarrow> 's loader" where
  "store_const a str s =
     (let (ok, g) = memcheck a (of_nat (length str)) (gm (ed s));
          s = s\<lparr>ed := ed s\<lparr>gm := g\<rparr>\<rparr>
      in if ok then s\<lparr>ed := store_raw a str (ed s)\<rparr> else s)"

partial_function (option) script_loop :: "'s cl_env \<Rightarrow> 's builtin list \<Rightarrow> u32 \<Rightarrow> u32 \<Rightarrow> 's loader \<Rightarrow> (int \<times> 's loader) option" where
  "script_loop E builtin_table heap cur_entry s =
     Option.bind (show_error (cl_term E) s) (\<lambda>s.
       if errnum (gm (ed s)) \<noteq> ERR_NONE then
         (let s = set_errnum ERR_NONE s
          in if fallback_entryno s < 0 then
               Option.bind (say (cl_term E) (10 # cstr ''Press any key to continue...'') [] s) (\<lambda>s.
               map_option (\<lambda>(_, t). (1, s\<lparr>ed := ed s\<lparr>cio := t\<rparr>\<rparr>)) (getkey (cl_term E) (cio (ed s))))
             else Some (1, s))
       else
         Option.bind (heap_string cur_entry s) (\<lambda>old_entry.
         let len = length old_entry + 1;
             s = s\<lparr>ed := move_buf heap cur_entry (int len) (ed s)\<rparr>;
             next_entry = cur_entry + of_nat len
         in if mem (gm (ed s)) heap = 0 \<and> kernel_type s = KERNEL_TYPE_NONE then Some (0, s)
            else (let s = (if mem (gm (ed s)) heap = 0 then store_const heap (cstr ''boot'' @ [0]) s else s)
              in Option.bind (heap_string heap s) (\<lambda>command.
              case find_command builtin_table command s of
                (None, s) \<Rightarrow>
                  Option.bind (say (cl_term E) (cstr ''%s'' @ [10]) [ArgStr old_entry] s) (script_loop E builtin_table heap next_entry)
              | (Some b, s) \<Rightarrow>
                  Option.bind (if bflags b AND BUILTIN_NO_ECHO = 0
                               then say (cl_term E) (cstr ''%s'' @ [10]) [ArgStr old_entry] s else Some s) (\<lambda>s.
                  if bflags b AND BUILTIN_CMDLINE = 0
                  then script_loop E builtin_table heap next_entry (set_errnum ERR_UNRECOGNIZED s)
                  else Option.bind (run_builtin b heap BUILTIN_SCRIPT (drop_cache s)) (\<lambda>(_, s).
                       script_loop E builtin_table heap next_entry s))))))"

definition run_script :: "(int \<Rightarrow> 's loader \<Rightarrow> int \<times> 's loader) \<Rightarrow> 's cl_env \<Rightarrow> 's builtin list \<Rightarrow> u32 \<Rightarrow> u32 \<Rightarrow> 's loader \<Rightarrow>
    (int \<times> 's loader) option" where
  "run_script set_bootdev E builtin_table script heap s =
     script_loop E builtin_table heap script (init_cmdline set_bootdev s)"

text \<open>The table: names, flags and the macros of which one must be defined.\<close>

datatype config_macro = SUPPORT_NETBOOT | GRUB_UTIL | USE_MD5_PASSWORDS | SUPPORT_SERIAL | SUPPORT_HERCULES

definition builtin_rows :: "(string \<times> int \<times> config_macro list) list" where
  "builtin_rows =
     [(''blocklist'', BUILTIN_CMDLINE OR BUILTIN_HELP_LIST, []),
      (''boot'', BUILTIN_CMDLINE OR BUILTIN_HELP_LIST, []),
      (''bootp'', BUILTIN_CMDLINE OR BUILTIN_MENU OR BUILTIN_HELP_LIST, [SUPPORT_NETBOOT]),
      (''cat'', BUILTIN_CMDLINE OR BUILTIN_HELP_LIST, []),
      (''chainloader'', BUILTIN_CMDLINE OR BUILTIN_HELP_LIST, []),
      (''cmp'', BUILTIN_CMDLINE, []),
      (''color'', BUILTIN_CMDLINE OR BUILTIN_MENU OR BUILTIN_HELP_LIST, []),
      (''configfile'', BUILTIN_CMDLINE OR BUILTIN_HELP_LIST, []),
      (''debug'', BUILTIN_CMDLINE, []),
      (''default'', BUILTIN_MENU, []),
      (''device'', BUILTIN_MENU OR BUILTIN_CMDLINE OR BUILTIN_HELP_LIST, [GRUB_UTIL]),
      (''dhcp'', BUILTIN_CMDLINE OR BUILTIN_MENU OR BUILTIN_HELP_LIST, [SUPPORT_NETBOOT]),
      (''displayapm'', BUILTIN_CMDLINE OR BUILTIN_HELP_LIST, []),
      (''displaymem'', BUILTIN_CMDLINE OR BUILTIN_HELP_LIST, []),
      (''dump'', BUILTIN_CMDLINE, [GRUB_UTIL]),
      (''embed'', BUILTIN_CMDLINE, []),
      (''fallback'', BUILTIN_MENU, []),
      (''find'', BUILTIN_CMDLINE OR BUILTIN_HELP_LIST, []),
      (''fstest'', BUILTIN_CMDLINE, []),
      (''geometry'', BUILTIN_CMDLINE OR BUILTIN_HELP_LIST, []),
      (''halt'', BUILTIN_CMDLINE OR BUILTIN_HELP_LIST, []),
      (''help'', BUILTIN_CMDLINE OR BUILTIN_HELP_LIST, []),
      (''hiddenmenu'', BUILTIN_MENU, []),
      (''hide'', BUILTIN_CMDLINE OR BUILTIN_MENU OR BUILTIN_HELP_LIST, []),
      (''ifconfig'', BUILTIN_CMDLINE OR BUILTIN_MENU OR BUILTIN_HELP_LIST, [SUPPORT_NETBOOT]),
      (''impsprobe'', BUILTIN_CMDLINE, []),
      (''initrd'', BUILTIN_CMDLINE OR BUILTIN_HELP_LIST, []),
      (''install'', BUILTIN_CMDLINE, []),
      (''ioprobe'', BUILTIN_CMDLINE, []),
      (''kernel'', BUILTIN_CMDLINE OR BUILTIN_HELP_LIST, []),
      (''lock'', BUILTIN_CMDLINE, []),
      (''makeactive'', BUILTIN_CMDLINE OR BUILTIN_HELP_LIST, []),
      (''map'', BUILTIN_CMDLINE OR BUILTIN_HELP_LIST, []),
      (''md5crypt'', BUILTIN_CMDLINE OR BUILTIN_HELP_LIST, [USE_MD5_PASSWORDS]),
      (''module'', BUILTIN_CMDLINE OR BUILTIN_HELP_LIST, []),
      (''modulenounzip'', BUILTIN_CMDLINE OR BUILTIN_HELP_LIST, []),
      (''pager'', BUILTIN_CMDLINE OR BUILTIN_MENU OR BUILTIN_HELP_LIST, []),
      (''partnew'', BUILTIN_CMDLINE OR BUILTIN_MENU OR BUILTIN_HELP_LIST, []),
      (''parttype'', BUILTIN_CMDLINE OR BUILTIN_MENU OR BUILTIN_HELP_LIST, []),
      (''password'', BUILTIN_MENU OR BUILTIN_CMDLINE OR BUILTIN_NO_ECHO, []),
      (''pause'', BUILTIN_CMDLINE OR BUILTIN_NO_ECHO, []),
      (''quit'', BUILTIN_CMDLINE OR BUILTIN_HELP_LIST, [GRUB_UTIL]),
      (''rarp'', BUILTIN_CMDLINE OR BUILTIN_MENU OR BUILTIN_HELP_LIST, [SUPPORT_NETBOOT]),
      (''read'', BUILTIN_CMDLINE, []),
      (''reboot'', BUILTIN_CMDLINE OR BUILTIN_HELP_LIST, []),
      (''root'', BUILTIN_CMDLINE OR BUILTIN_HELP_LIST, []),
      (''rootnoverify'', BUILTIN_CMDLINE OR BUILTIN_HELP_LIST, []),
      (''savedefault'', BUILTIN_CMDLINE, []),
      (''serial'', BUILTIN_MENU OR BUILTIN_CMDLINE OR BUILTIN_HELP_LIST, [SUPPORT_SERIAL]),
      (''setkey'', BUILTIN_CMDLINE OR BUILTIN_MENU OR BUILTIN_HELP_LIST, []),
      (''setup'', BUILTIN_CMDLINE OR BUILTIN_HELP_LIST, []),
      (''terminal'', BUILTIN_MENU OR BUILTIN_CMDLINE OR BUILTIN_HELP_LIST, [SUPPORT_SERIAL, SUPPORT_HERCULES]),
      (''terminfo'', BUILTIN_MENU OR BUILTIN_CMDLINE OR BUILTIN_HELP_LIST, [SUPPORT_SERIAL]),
      (''testload'', BUILTIN_CMDLINE, []),
      (''testvbe'', BUILTIN_CMDLINE OR BUILTIN_HELP_LIST, []),
      (''tftpserver'', BUILTIN_CMDLINE OR BUILTIN_MENU OR BUILTIN_HELP_LIST, [SUPPORT_NETBOOT]),
      (''timeout'', BUILTIN_MENU, []),
      (''title'', BUILTIN_TITLE, []),
      (''unhide'', BUILTIN_CMDLINE OR BUILTIN_MENU OR BUILTIN_HELP_LIST, []),
      (''uppermem'', BUILTIN_CMDLINE OR BUILTIN_HELP_LIST, []),
      (''vbeprobe'', BUILTIN_CMDLINE OR BUILTIN_HELP_LIST, [])]"

definition builtin_table :: "config_macro set \<Rightarrow> (string \<Rightarrow> u8 list \<Rightarrow> int \<Rightarrow> 's loader \<Rightarrow> (int \<times> 's loader) option) \<Rightarrow>
    (string \<Rightarrow> u8 list \<times> u8 list) \<Rightarrow> 's builtin list" where
  "builtin_table macros code docs =
     map (\<lambda>(n, fl, _). \<lparr>bname = cstr n, func = code n, bflags = fl, short_doc = fst (docs n), long_doc = snd (docs n)\<rparr>)
       (filter (\<lambda>(n, fl, needs). needs = [] \<or> list_ex (\<lambda>m. m \<in> macros) needs) builtin_rows)"

section \<open>Words of a command line\<close>

text \<open>
  C0. \<open>skip_to\<close> goes to the next word: for a word without separators, a non-empty run of separators and a rest that
  does not start with one, it returns the rest. (With \<open>after_equal\<close> the equal sign is a separator too.)
\<close>

definition separator :: "bool \<Rightarrow> u8 \<Rightarrow> bool" where
  "separator after_equal c \<longleftrightarrow> c = 32 \<or> c = 9 \<or> after_equal \<and> c = 61"

theorem skip_to_next_word:
  assumes "\<forall>c \<in> set word. c \<noteq> 0 \<and> \<not> separator eq c" "gap \<noteq> []" "\<forall>c \<in> set gap. separator eq c"
    "rest = [] \<or> \<not> separator eq (hd rest)"
  shows "skip_to eq (word @ gap @ rest) = rest"
proof -
  have w: "dropWhile (\<lambda>c. c \<noteq> 0 \<and> c \<noteq> 32 \<and> c \<noteq> 9 \<and> \<not> (eq \<and> c = 61)) (word @ gap @ rest) = gap @ rest"
    using assms(1-3) by (cases gap) (auto simp: separator_def)
  have "dropWhile (\<lambda>c. c = 32 \<or> c = 9 \<or> eq \<and> c = 61) (gap @ rest) = rest"
    using assms(3,4) by (cases rest) (auto simp: separator_def)
  then show ?thesis unfolding skip_to_def w .
qed

theorem skip_to_next_word_witness: "skip_to True (cstr ''root'' @ cstr '' = '' @ cstr ''(hd0)'') = cstr ''(hd0)''"
  by (rule skip_to_next_word) (simp_all add: cstr_def separator_def)

section \<open>The order of the table\<close>

text \<open>The search is a lookup by name in a table whose names ascend.\<close>

definition name_less :: "u8 list \<Rightarrow> u8 list \<Rightarrow> bool" where
  "name_less a b \<longleftrightarrow> signed_text a < signed_text b"

lemma find_builtin_lookup:
  assumes "sorted_wrt (\<lambda>a b. name_less (bname a) (bname b)) table" "\<forall>b \<in> set table. 0 \<notin> set (bname b)" "0 \<notin> set w"
  shows "find_builtin w table = List.find (\<lambda>b. bname b = w) table"
  using assms(1,2)
proof (induction table)
  case (Cons b bs)
  have c: "grub_strcmp w (bname b) = (if signed_text w < signed_text (bname b) then - 1 else if w = bname b then 0 else 1)"
    using Cons.prems(2) assms(3) by (intro grub_strcmp_signed) simp_all
  show ?case
  proof (cases "signed_text w < signed_text (bname b)")
    case True
    have "bname d \<noteq> w" if "d \<in> set (b # bs)" for d
      using that Cons.prems(1) True by (auto simp: name_less_def)
    then have "List.find (\<lambda>b. bname b = w) (b # bs) = None" by (auto simp: find_None_iff)
    with True c show ?thesis by simp
  next
    case False
    with Cons c show ?thesis by auto
  qed
qed simp

lemma rows_sorted: "sorted_wrt name_less (map (\<lambda>(n, _). cstr n) builtin_rows)"
proof -
  have t: "transp name_less" by (auto simp: transp_def name_less_def)
  show ?thesis unfolding successively_conv_sorted_wrt [OF t, symmetric]
    by (simp add: builtin_rows_def cstr_def name_less_def sint_u8)
qed

lemma rows_text: "\<forall>(n, _) \<in> set builtin_rows. 0 \<notin> set (cstr n)"
  by (simp add: builtin_rows_def cstr_def)

lemma table_sorted:
  "sorted_wrt (\<lambda>a b. name_less (bname a) (bname b)) (builtin_table macros code docs)"
  "\<forall>b \<in> set (builtin_table macros code docs). 0 \<notin> set (bname b)"
  using rows_sorted rows_text
  by (auto simp: builtin_table_def sorted_wrt_map split_beta intro!: sorted_wrt_filter)

text \<open>
  C26. The search of the builtin table, which stops at the first name that is greater than the command, is a lookup
  by name in every configuration of the loader: \<open>find_command\<close> returns the builtin whose name is the first word
  of the line (ended by a space, a tab, an equal sign or the end), and when there is none it sets
  \<open>ERR_UNRECOGNIZED\<close>. This needs the table to be in the order of \<open>grub_strcmp\<close>, which it is.
\<close>

theorem find_command_lookup:
  assumes "0 \<notin> set line"
  shows "find_command (builtin_table macros code docs) line s =
    (case List.find (\<lambda>b. bname b = command_word line) (builtin_table macros code docs) of
       Some b \<Rightarrow> (Some b, s) | None \<Rightarrow> (None, set_errnum ERR_UNRECOGNIZED s))"
proof -
  have "0 \<notin> set (command_word line)" using assms by (auto simp: command_word_def dest: set_takeWhileD)
  then show ?thesis unfolding find_command_def using find_builtin_lookup [OF table_sorted] by metis
qed

theorem find_command_lookup_witness:
  "\<forall>s. map_option bflags (fst (find_command (builtin_table {SUPPORT_SERIAL} (\<lambda>_ _ _ s. Some (0, s)) (\<lambda>_. ([], [])))
     (cstr ''pause now'') s)) = Some (BUILTIN_CMDLINE OR BUILTIN_NO_ECHO)"
proof
  fix s :: "'a loader"
  have "0 \<notin> set (cstr ''pause now'')" by (simp add: cstr_def)
  note f = find_command_lookup [OF this, of "{SUPPORT_SERIAL}" "\<lambda>_ _ _ s. Some (0, s)" "\<lambda>_. ([], [])" s]
  show "map_option bflags (fst (find_command (builtin_table {SUPPORT_SERIAL} (\<lambda>_ _ _ s. Some (0, s)) (\<lambda>_. ([], [])))
     (cstr ''pause now'') s)) = Some (BUILTIN_CMDLINE OR BUILTIN_NO_ECHO)"
    unfolding f by (simp add: builtin_table_def builtin_rows_def command_word_def cstr_def)
qed

end
