(* ===== verification/GRUB_Slots.thy ===== *)
theory GRUB_Slots
  imports GRUB_MD5 Interfaces
begin

text \<open>
  The translation maps of the boot loader (keyboard maps and drive map, \<^verbatim>\<open>builtins.c\<close> under
  \<^verbatim>\<open>src/legacy/SZoS/grub-0.97/stage2\<close>): an array of 16-bit entries, ended by a zero, whose low byte is translated to
  the high byte. \<open>remap\<close> is the search that the interrupt handlers of \<^verbatim>\<open>asm.S\<close> make.

  Shown: as long as there is room, setting an entry changes the translation of that byte and of no other, also
  when the byte is set back to itself, which removes its entry.
\<close>

section \<open>Definitions\<close>

text \<open>The first slot that maps \<open>from\<close> or is empty, and the assignment of it; \<open>n\<close> is the size without the end mark.\<close>

definition find_slot :: "nat \<Rightarrow> u16 \<Rightarrow> u16 list \<Rightarrow> nat" where
  "find_slot n frm m = length (takeWhile (\<lambda>e. e AND 0xff \<noteq> frm \<and> e \<noteq> 0) (take n m))"

definition delete_slot :: "nat \<Rightarrow> nat \<Rightarrow> u16 list \<Rightarrow> u16 list" where
  "delete_slot n i m = overwrite m i (take (n - i) (drop (i + 1) m))"

definition set_slot :: "nat \<Rightarrow> u16 \<Rightarrow> u16 \<Rightarrow> u16 list \<Rightarrow> u16 list option" where
  "set_slot n to frm m =
     (let i = find_slot n frm m
      in if i = n then None
         else Some (if to = frm then delete_slot n i m else m[i := push_bit 8 to OR frm]))"

section \<open>The translation\<close>

primrec remap :: "u16 list \<Rightarrow> u8 \<Rightarrow> u8" where
  "remap [] c = c"
| "remap (e # es) c = (if e = 0 then c else if ucast e = c then ucast (drop_bit 8 e) else remap es c)"

text \<open>A well-formed map: entries with distinct low bytes, then zeros up to the end mark.\<close>

definition entries_ok :: "u16 list \<Rightarrow> bool" where
  "entries_ok es \<longleftrightarrow> 0 \<notin> set es \<and> distinct (map (ucast :: u16 \<Rightarrow> u8) es)"

definition slots_ok :: "nat \<Rightarrow> u16 list \<Rightarrow> bool" where
  "slots_ok n m \<longleftrightarrow> (\<exists>es. length es \<le> n \<and> entries_ok es \<and> m = es @ replicate (n + 1 - length es) 0)"

text \<open>The bytes that have an entry.\<close>

definition mapped :: "u16 list \<Rightarrow> u8 set" where
  "mapped m = ucast ` set (takeWhile (\<lambda>e. e \<noteq> 0) m)"

lemma entry_bytes:
  "ucast (push_bit 8 (ucast to) OR ucast frm :: u16) = (frm :: u8)"
  "ucast (drop_bit 8 (push_bit 8 (ucast to) OR ucast frm :: u16)) = (to :: u8)"
  by (rule bit_word_eqI; auto simp: bit_simps dest: bit_imp_le_length)+

lemma low_byte: "(e :: u16) AND 0xff = ucast (c :: u8) \<longleftrightarrow> ucast e = c"
proof -
  have m: "(0xff :: u16) = mask 8" by (simp add: mask_eq_exp_minus_1)
  show ?thesis
  proof
  have "ucast (ucast c :: u16) = c" by (rule bit_word_eqI) (auto simp: bit_simps)
  moreover assume "e AND 0xff = ucast c"
  ultimately have "ucast (e AND 0xff) = c" by simp
  moreover have "ucast (e AND 0xff) = (ucast e :: u8)"
    unfolding m by (rule bit_word_eqI) (auto simp: bit_simps)
  ultimately show "ucast e = c" by simp
next
  assume "ucast e = c"
  then show "e AND 0xff = ucast c" unfolding m by (intro bit_word_eqI) (auto simp: bit_simps)
  qed
qed

lemma remap_append_zeros: "remap (es @ replicate k 0) c = remap es c"
proof (induction es)
  case Nil
  show ?case by (cases k) simp_all
qed simp

lemma remap_unmapped: "c \<notin> ucast ` set es \<Longrightarrow> remap es c = c"
  by (induction es) auto

lemma remap_entries:
  assumes "entries_ok (xs @ e # ys)" "ucast e = c"
  shows "remap (xs @ e # ys) c = ucast (drop_bit 8 e)" "remap (xs @ ys) c = c"
    "d \<noteq> c \<Longrightarrow> remap (xs @ e # ys) d = remap (xs @ ys) d"
    "d \<noteq> c \<Longrightarrow> remap (xs @ e' # ys) d = remap (xs @ ys) d \<or> ucast e' = d \<or> e' = 0"
proof -
  show "remap (xs @ ys) c = c" using assms by (intro remap_unmapped) (auto simp: entries_ok_def)
  show "remap (xs @ e # ys) c = ucast (drop_bit 8 e)" using assms by (induction xs) (auto simp: entries_ok_def)
  show "remap (xs @ e # ys) d = remap (xs @ ys) d" if "d \<noteq> c"
    using assms that by (induction xs) (auto simp: entries_ok_def)
  show "remap (xs @ e' # ys) d = remap (xs @ ys) d \<or> ucast e' = d \<or> e' = 0" if "d \<noteq> c"
    by (induction xs) auto
qed

lemma remap_snoc:
  "0 \<notin> set es \<Longrightarrow> remap (es @ e # zs) c = (if c \<in> ucast ` set es then remap es c else remap (e # zs) c)"
  by (induction es) auto

lemma mapped_entries: "0 \<notin> set es \<Longrightarrow> mapped (es @ replicate k 0) = ucast ` set es"
proof -
  assume "0 \<notin> set es"
  then have "takeWhile (\<lambda>e. e \<noteq> 0) es = es" by (auto simp: takeWhile_eq_all_conv)
  then have "takeWhile (\<lambda>e. e \<noteq> 0) (es @ replicate k 0) = es" by (cases k) (auto simp: takeWhile_append dest: set_takeWhileD)
  then show ?thesis by (simp add: mapped_def)
qed

lemma find_slot_entries:
  fixes frm :: u8
  assumes "length es \<le> n" "entries_ok es"
  shows "find_slot n (ucast frm) (es @ replicate (n + 1 - length es) 0) =
    length (takeWhile (\<lambda>e. ucast e \<noteq> frm) es)"
proof -
  have t: "take n (es @ replicate (n + 1 - length es) 0) = es @ replicate (n - length es) 0" using assms(1) by simp
  have z: "takeWhile (\<lambda>e. e AND 0xff \<noteq> ucast frm \<and> e \<noteq> 0) (replicate k (0 :: u16)) = []" for k by (cases k) simp_all
  have e: "takeWhile (\<lambda>e. e AND 0xff \<noteq> ucast frm \<and> e \<noteq> 0) es = takeWhile (\<lambda>e. ucast e \<noteq> frm) es"
    by (rule takeWhile_cong) (use assms(2) in \<open>auto simp: entries_ok_def low_byte\<close>)
  have "takeWhile P (es @ zs) = takeWhile P es" if "takeWhile P zs = []" for P :: "u16 \<Rightarrow> bool" and zs
    unfolding takeWhile_append that by (simp add: takeWhile_eq_all_conv [THEN iffD2])
  from this [OF z] show ?thesis unfolding find_slot_def t e by (simp only:)
qed

text \<open>Setting and deleting on the entries.\<close>

lemma slot_cases:
  fixes frm :: u8
  assumes "length es \<le> n" "entries_ok es"
  obtains (found) xs e ys where "es = xs @ e # ys" "ucast e = frm" "frm \<notin> ucast ` set xs"
      "find_slot n (ucast frm) (es @ replicate (n + 1 - length es) 0) = length xs"
    | (fresh) "frm \<notin> ucast ` set es" "find_slot n (ucast frm) (es @ replicate (n + 1 - length es) 0) = length es"
proof (cases "frm \<in> ucast ` set es")
  case True
  then obtain xs e ys where s: "es = xs @ e # ys" "ucast e = frm" "\<forall>x \<in> set xs. ucast x \<noteq> frm"
    using split_list_first_prop [of es "\<lambda>e. ucast e = frm"] by auto
  then have "takeWhile (\<lambda>e. ucast e \<noteq> frm) es = xs" by (simp add: takeWhile_append takeWhile_eq_all_conv [THEN iffD2])
  then show thesis by (intro found [OF s(1,2)]) (use s(3) find_slot_entries [OF assms, of frm] in auto)
next
  case False
  then have "takeWhile (\<lambda>e. ucast e \<noteq> frm) es = es" by (auto simp: takeWhile_eq_all_conv)
  with False fresh find_slot_entries [OF assms, of frm] show thesis by simp
qed

lemma delete_slot_entries:
  assumes "length (xs @ e # ys) \<le> n"
  shows "delete_slot n (length xs) (xs @ e # ys @ replicate (n + 1 - length (xs @ e # ys)) 0) =
    xs @ ys @ replicate (n + 1 - length (xs @ ys)) 0"
proof -
  let ?k = "n + 1 - length (xs @ e # ys)"
  let ?m = "xs @ e # ys @ replicate ?k 0"
  have k: "length (ys @ replicate ?k 0) = n - length xs" "n + 1 - length (xs @ ys) = Suc ?k" using assms by simp_all
  have "take (n - length xs) (drop (length xs + 1) ?m) = ys @ replicate ?k 0" using k(1) by simp
  moreover have "drop n ?m = [0]"
  proof -
    obtain j where "n = length (xs @ e # ys) + j" using assms le_Suc_ex by blast
    then have "?m = (xs @ e # ys @ replicate (?k - 1) 0) @ [0]" by (simp add: replicate_append_same)
    moreover have "length (xs @ e # ys @ replicate (?k - 1) 0) = n" using assms by simp
    then have "drop n ((xs @ e # ys @ replicate (?k - 1) 0) @ [0]) = [0]" by (simp only: drop_append) simp
    ultimately show ?thesis by (simp only:)
  qed
  moreover have "length xs + (n - length xs) = n" using assms by simp
  ultimately show ?thesis unfolding delete_slot_def overwrite_def k(2)
    using k(1) by (simp add: replicate_append_same)
qed

lemma set_slot_entries:
  fixes frm to :: u8
  assumes "length es \<le> n" "entries_ok es" "frm \<noteq> 0"
  shows "case set_slot n (ucast to) (ucast frm) (es @ replicate (n + 1 - length es) 0) of
      None \<Rightarrow> length es = n \<and> frm \<notin> ucast ` set es
    | Some m \<Rightarrow> slots_ok n m \<and> remap m = (remap es)(frm := to) \<and>
        (to \<noteq> frm \<longrightarrow> mapped m = insert frm (ucast ` set es)) \<and> (to = frm \<longrightarrow> mapped m = ucast ` set es - {frm})"
proof -
  let ?m = "es @ replicate (n + 1 - length es) 0" and ?e = "push_bit 8 (ucast to) OR ucast frm :: u16"
  have e: "ucast ?e = frm" "ucast (drop_bit 8 ?e) = to" by (rule entry_bytes)+
  then have e0: "?e \<noteq> 0" using assms(3) by (metis unsigned_0)
  have eq: "(ucast to :: u16) = ucast frm \<longleftrightarrow> to = frm" by (metis entry_bytes(1) ucast_id unsigned_ucast_eq)
  show ?thesis
    using assms(1,2)
  proof (cases rule: slot_cases [where frm = frm])
    case (found xs x ys)
    have i: "length xs \<noteq> n" using assms(1) found(1) by simp
    show ?thesis
    proof (cases "to = frm")
      case True
      have ok: "entries_ok (xs @ ys)" using assms(2) by (auto simp: found(1) entries_ok_def)
      have "remap (xs @ ys) = (remap es)(frm := to)"
        using remap_entries [of xs x ys frm] assms(2) found(1,2) True by (auto simp: fun_eq_iff)
      moreover have "ucast ` set (xs @ ys) = ucast ` set es - {frm}"
        using assms(2) found(1,2) by (auto simp: entries_ok_def) (metis image_eqI)+
      moreover have "slots_ok n (xs @ ys @ replicate (n + 1 - length (xs @ ys)) 0)"
        unfolding slots_ok_def using ok assms(1) found(1) by (intro exI [of _ "xs @ ys"]) simp
      ultimately show ?thesis
        using delete_slot_entries [of xs x ys n] assms(1) found(1,4) True i ok mapped_entries [of "xs @ ys"]
          remap_append_zeros [of "xs @ ys"]
        by (simp add: set_slot_def Let_def entries_ok_def fun_eq_iff)
    next
      case False
      have ok: "entries_ok (xs @ ?e # ys)" using assms(2) e0 e(1) found(1,2) by (auto simp: entries_ok_def)
      have m: "?m[length xs := ?e] = (xs @ ?e # ys) @ replicate (n + 1 - length (xs @ ?e # ys)) 0" by (simp add: found(1))
      have "remap (xs @ ?e # ys) = (remap es)(frm := to)"
        using remap_entries [OF ok e(1)] remap_entries [of xs x ys frm] assms(2) found(1,2) e(2) by (auto simp: fun_eq_iff)
      moreover have "ucast ` set (xs @ ?e # ys) = insert frm (ucast ` set es)"
        using found(1,2) e(1) by auto
      moreover have "slots_ok n (?m[length xs := ?e])"
        unfolding slots_ok_def m using ok assms(1) found(1) by (intro exI [of _ "xs @ ?e # ys"]) simp
      ultimately show ?thesis
        using found(4) False i eq ok mapped_entries [of "xs @ ?e # ys"] remap_append_zeros [of "xs @ ?e # ys"] m
        by (simp add: set_slot_def Let_def entries_ok_def fun_eq_iff)
    qed
  next
    case fresh
    show ?thesis
    proof (cases "length es = n")
      case True
      then show ?thesis using fresh by (simp add: set_slot_def Let_def)
    next
      case False
      then have l: "length es + 1 \<le> n" and k: "n + 1 - length es = Suc (n - length es)" using assms(1) by simp_all
      show ?thesis
      proof (cases "to = frm")
        case True
        have "?m = es @ 0 # [] @ replicate (n + 1 - length (es @ 0 # [])) 0" using l by (simp add: Suc_diff_le)
        then have "delete_slot n (length es) ?m = ?m" using delete_slot_entries [of es 0 "[]" n] l by simp
        moreover have "remap es = (remap es)(frm := frm)" using remap_unmapped [OF fresh(1)] by (simp add: fun_upd_idem)
        moreover have "slots_ok n ?m" unfolding slots_ok_def using assms(1,2) by blast
        ultimately show ?thesis
          using fresh True False mapped_entries [of es] assms(2) remap_append_zeros [of es]
          by (simp add: set_slot_def Let_def entries_ok_def fun_eq_iff)
      next
        case new: False
        have ok: "entries_ok (es @ [?e])" using assms(2) e0 e(1) fresh(1) by (auto simp: entries_ok_def)
        have m: "?m[length es := ?e] = (es @ [?e]) @ replicate (n + 1 - length (es @ [?e])) 0" unfolding k by simp
        have "remap (es @ [?e]) = (remap es)(frm := to)"
          using remap_snoc [of es ?e "[]"] assms(2) fresh(1) e e0 remap_unmapped [of _ es] by (auto simp: fun_eq_iff entries_ok_def)
        moreover have "ucast ` set (es @ [?e]) = insert frm (ucast ` set es)" using e(1) by simp
        moreover have "slots_ok n (?m[length es := ?e])"
          unfolding slots_ok_def m using ok l by (intro exI [of _ "es @ [?e]"]) simp
        ultimately show ?thesis
          using fresh new False eq ok mapped_entries [of "es @ [?e]"] remap_append_zeros [of "es @ [?e]"] m
          by (simp add: set_slot_def Let_def entries_ok_def fun_eq_iff)
      qed
    qed
  qed
qed

lemma slots_ok_obtain:
  assumes "slots_ok n m"
  obtains es where "length es \<le> n" "entries_ok es" "m = es @ replicate (n + 1 - length es) 0"
    "remap m = remap es" "mapped m = ucast ` set es" "card (mapped m) = length es"
proof -
  obtain es where es: "length es \<le> n" "entries_ok es" "m = es @ replicate (n + 1 - length es) 0"
    using assms by (auto simp: slots_ok_def)
  have "mapped m = ucast ` set es" using es(2,3) mapped_entries by (auto simp: entries_ok_def)
  moreover have "card (ucast ` set es :: u8 set) = length es"
    using es(2) distinct_card [of "map (ucast :: u16 \<Rightarrow> u8) es"] by (simp add: entries_ok_def)
  ultimately show thesis using that es remap_append_zeros by (simp add: fun_eq_iff)
qed

lemma set_slot_some:
  fixes frm to :: u8
  assumes "slots_ok n m" "frm \<noteq> 0" "set_slot n (ucast to) (ucast frm) m = Some m'"
  shows "slots_ok n m'" "remap m' = (remap m)(frm := to)" "mapped m' \<subseteq> insert frm (mapped m)"
proof -
  obtain es where es: "length es \<le> n" "entries_ok es" "m = es @ replicate (n + 1 - length es) 0"
    "remap m = remap es" "mapped m = ucast ` set es"
    using slots_ok_obtain [OF assms(1)] by metis
  note s = set_slot_entries [OF es(1,2) assms(2), of to, folded es(3), unfolded assms(3), simplified]
  show "slots_ok n m'" "remap m' = (remap m)(frm := to)" using s es(4) by simp_all
  show "mapped m' \<subseteq> insert frm (mapped m)" using s es(5) by (cases "to = frm") auto
qed

lemma set_slot_none:
  fixes frm to :: u8
  assumes "slots_ok n m" "frm \<noteq> 0" "set_slot n (ucast to) (ucast frm) m = None"
  shows "card (mapped m) = n" "frm \<notin> mapped m"
proof -
  obtain es where es: "length es \<le> n" "entries_ok es" "m = es @ replicate (n + 1 - length es) 0"
    "mapped m = ucast ` set es" "card (mapped m) = length es"
    using slots_ok_obtain [OF assms(1)] by metis
  note s = set_slot_entries [OF es(1,2) assms(2), of to, folded es(3), unfolded assms(3), simplified]
  show "card (mapped m) = n" "frm \<notin> mapped m" using s es(4,5) by simp_all
qed

text \<open>The keyboard maps have 128 entries.\<close>

definition set_key :: "u8 \<Rightarrow> u8 \<Rightarrow> u16 list \<Rightarrow> u16 list option" where
  "set_key to frm = set_slot 128 (ucast to) (ucast frm)"

interpretation key_slots: translation_table set_key remap mapped "slots_ok 128"
  "\<lambda>c. c \<noteq> 0" 128
proof
  show "finite (mapped m)" for m by simp
qed (auto simp: set_key_def dest: set_slot_some set_slot_none)

definition empty_slots :: "nat \<Rightarrow> u16 list" where
  "empty_slots n = replicate (n + 1) 0"

lemma empty_slots_ok: "slots_ok n (empty_slots n)" "remap (empty_slots n) = (\<lambda>c. c)" "mapped (empty_slots n) = {}"
proof -
  show "slots_ok n (empty_slots n)" by (auto simp: slots_ok_def entries_ok_def empty_slots_def intro!: exI [of _ "[]"])
  show "remap (empty_slots n) = (\<lambda>c. c)" using remap_append_zeros [of "[]"] by (simp add: empty_slots_def fun_eq_iff)
  show "mapped (empty_slots n) = {}" by (simp add: mapped_def empty_slots_def)
qed

text \<open>
  C27. Refinement of the keyboard maps: starting from the empty map, any sequence of assignments that concerns at most
  128 different key codes succeeds, and the map then translates every code as the last assignment to it says (and
  leaves the others alone). This includes assigning a code to itself, which deletes its entry from the array.
\<close>

theorem key_map_translates:
  assumes "\<forall>p \<in> set ps. snd p \<noteq> 0" "card (snd ` set ps) \<le> 128"
  shows "\<exists>m. set_all set_key ps (empty_slots 128) = Some m \<and>
    remap m = fold (\<lambda>(d, c) f. f(c := d)) ps (\<lambda>c. c)"
  using key_slots.set_all_translates [OF empty_slots_ok(1) assms(1)] assms(2) unfolding empty_slots_ok(2,3) by auto

theorem key_map_translates_witness:
  "\<exists>m. set_all set_key [(97, 98), (98, 97), (98, 98)] (empty_slots 128) = Some m \<and>
    remap m 98 = 98 \<and> remap m 97 = 98"
proof -
  let ?ps = "[(97, 98), (98, 97), (98, 98 :: u8)]"
  have "\<forall>p \<in> set ?ps. snd p \<noteq> 0" "card (snd ` set ?ps) \<le> 128" by (simp_all add: card_insert_if)
  then obtain m where "set_all set_key ?ps (empty_slots 128) = Some m" "remap m = fold (\<lambda>(d, c) f. f(c := d)) ?ps (\<lambda>c. c)"
    using key_map_translates by blast
  then show ?thesis by (simp del: set_all.simps)
qed

end
