(* ===== verification/GRUB_Builtins.thy ===== *)
theory GRUB_Builtins
  imports GRUB_Commands GRUB_Slots
begin

text \<open>
  Builtin commands of the boot loader that work on its own variables, from
  \<^verbatim>\<open>src/legacy/SZoS/grub-0.97/stage2/builtins.c\<close>. A command gets its argument as a string and returns 0 for success.
  Where a command writes into its argument, the argument is the array of its bytes with the terminating zero.

  Shown: the key and drive maps are finite maps in an array; the fallback list has no repetitions, and a repeated
  entry that is not the last makes the command fail; a colour number followed by colour names is refused; help texts
  are folded without loss, for ever when a word is too long; a password made by \<open>md5crypt\<close> is accepted.
\<close>

section \<open>Definitions\<close>

text \<open>\<open>! safe_parse_maxint (&ptr, &value)\<close>: the value and the moved pointer, or the error number.\<close>

definition parse_arg :: "u8 list \<Rightarrow> 's loader \<Rightarrow> (int \<times> u8 list) option \<times> 's loader" where
  "parse_arg ptr s =
     (case safe_parse_maxint ptr of Inl e \<Rightarrow> (None, set_errnum e s) | Inr (v, rest) \<Rightarrow> (Some (sint v, rest), s))"

definition emit :: "'s term_entry \<Rightarrow> int list \<Rightarrow> 's loader \<Rightarrow> 's loader option" where
  "emit tm cs s = map_option (\<lambda>t. s\<lparr>ed := ed s\<lparr>cio := t\<rparr>\<rparr>) (putchars tm cs (cio (ed s)))"

definition starts :: "string \<Rightarrow> u8 list \<Rightarrow> bool" where
  "starts w arg \<longleftrightarrow> grub_memcmp (length w) (arg @ [0]) (cstr w) = 0"

text \<open>\<open>check_password\<close>; the expected password is an array for \<open>md5_password\<close>.\<close>

definition check_password :: "u8 list \<Rightarrow> u8 list \<Rightarrow> password_t \<Rightarrow> md5_ctx \<Rightarrow> (int \<times> md5_ctx) option" where
  "check_password entered expected type c =
     (case type of
        PASSWORD_PLAIN \<Rightarrow> Some (grub_strcmp entered (takeWhile (\<lambda>c. c \<noteq> 0) expected), c)
      | PASSWORD_MD5 \<Rightarrow> map_option (\<lambda>(r, _, c). (r, c)) (md5_password entered expected True c)
      | PASSWORD_UNSUPPORTED \<Rightarrow> Some (1, c))"

subsection \<open>Colours\<close>

definition color_list :: "string list" where
  "color_list = [''black'', ''blue'', ''green'', ''cyan'', ''red'', ''magenta'', ''brown'', ''light-gray'', ''dark-gray'',
     ''light-blue'', ''light-green'', ''light-cyan'', ''light-red'', ''light-magenta'', ''yellow'', ''white'']"

primrec color_search :: "u8 list \<Rightarrow> string list \<Rightarrow> int \<Rightarrow> int option" where
  "color_search str [] i = None"
| "color_search str (n # ns) i = (if grub_strcmp (cstr n) str = 0 then Some i else color_search str ns (i + 1))"

definition string_from :: "u8 list \<Rightarrow> nat \<Rightarrow> u8 list" where
  "string_from buf i = takeWhile (\<lambda>c. c \<noteq> 0) (drop i buf)"

text \<open>\<open>color_number\<close> on the string at \<open>i\<close>: the colour and the array, in which it terminates the names.\<close>

definition color_number :: "u8 list \<Rightarrow> nat \<Rightarrow> int \<times> u8 list" where
  "color_number buf i =
     (let str = string_from buf i;
          k = length (takeWhile (\<lambda>c. c \<noteq> 47) str)
      in if k = length str then (- 1, buf)
         else (let ptr = i + k + 1;
                   buf = buf[i + k := 0];
                   str = string_from buf i;
                   (color, str) = (if substring (cstr ''blink-'') str \<le> 0 then (0x80, drop 6 str) else (0, str))
               in case color_search str color_list 0 of
                    None \<Rightarrow> (- 1, buf)
                  | Some n \<Rightarrow>
                      (let color = color OR n;
                           (_, str) = nul_terminate (string_from buf ptr);
                           buf = buf[ptr + length str := 0]
                       in case color_search str (take 8 color_list) 0 of
                            None \<Rightarrow> (- 1, buf)
                          | Some n \<Rightarrow> (color OR push_bit 4 n, buf))))"

definition color_func :: "'s term_entry \<Rightarrow> u8 list \<Rightarrow> int \<Rightarrow> 's loader \<Rightarrow> (int \<times> 's loader) option" where
  "color_func tm arg flags s =
     (let highlight = length arg - length (skip_to False arg);
          (n, buf) = color_number (arg @ [0]) 0;
          (normal, s) = (if n < 0 then (case parse_arg (string_from buf 0) s of (r, s) \<Rightarrow> (map_option fst r, s)) else (Some n, s))
      in case normal of
           None \<Rightarrow> Some (1, s)
         | Some normal \<Rightarrow>
             (let (h, s) =
                (if string_from buf highlight = [] then (Some (drop_bit 4 normal OR push_bit 4 (normal AND 0xf)), s)
                 else (let (n, buf) = color_number buf highlight
                       in if n < 0 then (case parse_arg (string_from buf highlight) s of (r, s) \<Rightarrow> (map_option fst r, s))
                          else (Some n, s)))
              in case h of
                   None \<Rightarrow> Some (1, s)
                 | Some h \<Rightarrow>
                     Some (0, case term_setcolor tm of
                       None \<Rightarrow> s
                     | Some f \<Rightarrow> s\<lparr>ed := ed s\<lparr>cio := (cio (ed s))\<lparr>tstate := f normal h (tstate (cio (ed s)))\<rparr>\<rparr>\<rparr>)))"

subsection \<open>Variables\<close>

definition debug_func :: "'s term_entry \<Rightarrow> u8 list \<Rightarrow> int \<Rightarrow> 's loader \<Rightarrow> (int \<times> 's loader) option" where
  "debug_func tm arg flags s =
     map_option (Pair 0)
       (if debug s \<noteq> 0 then say tm (cstr '' Debug mode is turned off'' @ [10]) [] (s\<lparr>debug := 0\<rparr>)
        else say tm (cstr '' Debug mode is turned on'' @ [10]) [] (s\<lparr>debug := 1\<rparr>))"

definition default_func :: "u8 list \<Rightarrow> int \<Rightarrow> 's loader \<Rightarrow> (int \<times> 's loader) option" where
  "default_func arg flags s =
     (if grub_strcmp arg (cstr ''saved'') = 0 then Some (0, s\<lparr>default_entry := saved_entryno s\<rparr>)
      else (case parse_arg arg s of (None, s) \<Rightarrow> Some (1, s) | (Some (v, _), s) \<Rightarrow> Some (0, s\<lparr>default_entry := v\<rparr>)))"

abbreviation MAX_FALLBACK_ENTRIES :: nat where "MAX_FALLBACK_ENTRIES \<equiv> 8"

definition hiddenmenu_func :: "u8 list \<Rightarrow> int \<Rightarrow> 's loader \<Rightarrow> (int \<times> 's loader) option" where
  "hiddenmenu_func arg flags s = Some (0, s\<lparr>show_menu := 0\<rparr>)"

definition lock_func :: "u8 list \<Rightarrow> int \<Rightarrow> 's loader \<Rightarrow> (int \<times> 's loader) option" where
  "lock_func arg flags s =
     (if auth s = 0 \<and> password s \<noteq> 0 then Some (1, set_errnum ERR_PRIVILEGED s) else Some (0, s))"

definition pager_func :: "'s term_entry \<Rightarrow> u8 list \<Rightarrow> int \<Rightarrow> 's loader \<Rightarrow> (int \<times> 's loader) option" where
  "pager_func tm arg flags s =
     (let r = (if arg = [] then Some (s\<lparr>use_pager := (if use_pager s = 0 then 1 else 0)\<rparr>)
               else if starts ''on'' arg then Some (s\<lparr>use_pager := 1\<rparr>)
               else if starts ''off'' arg then Some (s\<lparr>use_pager := 0\<rparr>) else None)
      in case r of
           None \<Rightarrow> Some (1, set_errnum ERR_BAD_ARGUMENT s)
         | Some s \<Rightarrow> map_option (Pair 0)
             (say tm (cstr '' Internal pager is now %s'' @ [10]) [ArgStr (if use_pager s \<noteq> 0 then cstr ''on'' else cstr ''off'')] s))"

definition pause_func :: "'s term_entry \<Rightarrow> u8 list \<Rightarrow> int \<Rightarrow> 's loader \<Rightarrow> (int \<times> 's loader) option" where
  "pause_func tm arg flags s =
     do {
       s \<leftarrow> say tm (cstr ''%s'' @ [10]) [ArgStr arg] s;
       (k, t) \<leftarrow> getkey tm (cio (ed s));
       Some (if ASCII_CHAR k = 27 then 1 else 0, s\<lparr>ed := ed s\<lparr>cio := t\<rparr>\<rparr>)
     }"

definition timeout_func :: "u8 list \<Rightarrow> int \<Rightarrow> 's loader \<Rightarrow> (int \<times> 's loader) option" where
  "timeout_func arg flags s =
     (case parse_arg arg s of (None, s) \<Rightarrow> Some (1, s) | (Some (v, _), s) \<Rightarrow> Some (0, s\<lparr>grub_timeout := v\<rparr>))"

definition title_func :: "u8 list \<Rightarrow> int \<Rightarrow> 's loader \<Rightarrow> (int \<times> 's loader) option" where
  "title_func arg flags s = Some (0, s)"

definition uppermem_func :: "u8 list \<Rightarrow> int \<Rightarrow> 's loader \<Rightarrow> (int \<times> 's loader) option" where
  "uppermem_func arg flags s =
     (case parse_arg arg s of
        (None, s) \<Rightarrow> Some (1, s)
      | (Some (v, _), s) \<Rightarrow>
          Some (0, s\<lparr>ed := ed s\<lparr>gm := gm (ed s)\<lparr>mem_upper := word_of_int v\<rparr>\<rparr>, mbi_flags := mbi_flags s AND NOT 0x40\<rparr>))"

subsection \<open>Key and drive maps\<close>

abbreviation KEY_MAP_SIZE :: nat where "KEY_MAP_SIZE \<equiv> 128"

definition keysym_table :: "(string \<times> string option \<times> u8 \<times> u8 \<times> u8) list" where
  "keysym_table =
     [(''escape'', None, 27, 0, 0x1),
      (''1'', Some ''exclam'', 49, 33, 0x2),
      (''2'', Some ''at'', 50, 64, 0x3),
      (''3'', Some ''numbersign'', 51, 35, 0x4),
      (''4'', Some ''dollar'', 52, 36, 0x5),
      (''5'', Some ''percent'', 53, 37, 0x6),
      (''6'', Some ''caret'', 54, 94, 0x7),
      (''7'', Some ''ampersand'', 55, 38, 0x8),
      (''8'', Some ''asterisk'', 56, 42, 0x9),
      (''9'', Some ''parenleft'', 57, 40, 0xa),
      (''0'', Some ''parenright'', 48, 41, 0xb),
      (''minus'', Some ''underscore'', 45, 95, 0xc),
      (''equal'', Some ''plus'', 61, 43, 0xd),
      (''backspace'', None, 8, 0, 0xe),
      (''tab'', None, 9, 0, 0xf),
      (''q'', Some ''Q'', 113, 81, 0x10),
      (''w'', Some ''W'', 119, 87, 0x11),
      (''e'', Some ''E'', 101, 69, 0x12),
      (''r'', Some ''R'', 114, 82, 0x13),
      (''t'', Some ''T'', 116, 84, 0x14),
      (''y'', Some ''Y'', 121, 89, 0x15),
      (''u'', Some ''U'', 117, 85, 0x16),
      (''i'', Some ''I'', 105, 73, 0x17),
      (''o'', Some ''O'', 111, 79, 0x18),
      (''p'', Some ''P'', 112, 80, 0x19),
      (''bracketleft'', Some ''braceleft'', 91, 123, 0x1a),
      (''bracketright'', Some ''braceright'', 93, 125, 0x1b),
      (''enter'', None, 10, 0, 0x1c),
      (''control'', None, 0, 0, 0x1d),
      (''a'', Some ''A'', 97, 65, 0x1e),
      (''s'', Some ''S'', 115, 83, 0x1f),
      (''d'', Some ''D'', 100, 68, 0x20),
      (''f'', Some ''F'', 102, 70, 0x21),
      (''g'', Some ''G'', 103, 71, 0x22),
      (''h'', Some ''H'', 104, 72, 0x23),
      (''j'', Some ''J'', 106, 74, 0x24),
      (''k'', Some ''K'', 107, 75, 0x25),
      (''l'', Some ''L'', 108, 76, 0x26),
      (''semicolon'', Some ''colon'', 59, 58, 0x27),
      (''quote'', Some ''doublequote'', 39, 34, 0x28),
      (''backquote'', Some ''tilde'', 96, 126, 0x29),
      (''shift'', None, 0, 0, 0x2a),
      (''backslash'', Some ''bar'', 92, 124, 0x2b),
      (''z'', Some ''Z'', 122, 90, 0x2c),
      (''x'', Some ''X'', 120, 88, 0x2d),
      (''c'', Some ''C'', 99, 67, 0x2e),
      (''v'', Some ''V'', 118, 86, 0x2f),
      (''b'', Some ''B'', 98, 66, 0x30),
      (''n'', Some ''N'', 110, 78, 0x31),
      (''m'', Some ''M'', 109, 77, 0x32),
      (''comma'', Some ''less'', 44, 60, 0x33),
      (''period'', Some ''greater'', 46, 62, 0x34),
      (''slash'', Some ''question'', 47, 63, 0x35),
      (''alt'', None, 0, 0, 0x38),
      (''space'', None, 32, 0, 0x39),
      (''capslock'', None, 0, 0, 0x3a),
      (''F1'', None, 0, 0, 0x3b),
      (''F2'', None, 0, 0, 0x3c),
      (''F3'', None, 0, 0, 0x3d),
      (''F4'', None, 0, 0, 0x3e),
      (''F5'', None, 0, 0, 0x3f),
      (''F6'', None, 0, 0, 0x40),
      (''F7'', None, 0, 0, 0x41),
      (''F8'', None, 0, 0, 0x42),
      (''F9'', None, 0, 0, 0x43),
      (''F10'', None, 0, 0, 0x44),
      (''delete'', None, 127, 0, 0x53)]"

definition find_key_code :: "u8 list \<Rightarrow> u8" where
  "find_key_code key =
     (case List.find (\<lambda>(u, sh, _). grub_strcmp key (cstr u) = 0 \<or> (\<exists>t \<in> set_option sh. grub_strcmp key (cstr t) = 0)) keysym_table of
        Some (_, _, _, _, keycode) \<Rightarrow> keycode | None \<Rightarrow> 0)"

definition find_ascii_code :: "u8 list \<Rightarrow> u8" where
  "find_ascii_code key =
     (case List.find (\<lambda>(u, sh, _). grub_strcmp key (cstr u) = 0 \<or> (\<exists>t \<in> set_option sh. grub_strcmp key (cstr t) = 0)) keysym_table of
        Some (u, _, unshifted_ascii, shifted_ascii, _) \<Rightarrow> if grub_strcmp key (cstr u) = 0 then unshifted_ascii else shifted_ascii
      | None \<Rightarrow> 0)"

text \<open>Installing the keyboard interrupt handler is assembly and concerns no variable here.\<close>

definition setkey_func :: "u8 list \<Rightarrow> int \<Rightarrow> 's loader \<Rightarrow> (int \<times> 's loader) option" where
  "setkey_func arg flags s =
     (let to_key = arg; from_key = skip_to False to_key
      in if to_key = [] then Some (0, s\<lparr>bios_key_map := overwrite (bios_key_map s) 0 (replicate KEY_MAP_SIZE 0),
                                         ascii_key_map := overwrite (ascii_key_map s) 0 (replicate KEY_MAP_SIZE 0)\<rparr>)
         else if from_key = [] then Some (1, set_errnum ERR_BAD_ARGUMENT s)
         else (let to_key = snd (nul_terminate to_key); from_key = snd (nul_terminate from_key);
                   to_code = find_ascii_code to_key; from_code = find_ascii_code from_key;
                   map_in_interrupt = (to_code = 0 \<or> from_code = 0);
                   to_code = (if map_in_interrupt then find_key_code to_key else to_code);
                   from_code = (if map_in_interrupt then find_key_code from_key else from_code)
               in if map_in_interrupt \<and> (to_code = 0 \<or> from_code = 0) then Some (1, set_errnum ERR_BAD_ARGUMENT s)
                  else if map_in_interrupt then
                    (case set_key to_code from_code (bios_key_map s) of
                       None \<Rightarrow> Some (1, set_errnum ERR_WONT_FIT s)
                     | Some m \<Rightarrow> Some (0, s\<lparr>bios_key_map := m\<rparr>))
                  else
                    (case set_key to_code from_code (ascii_key_map s) of
                       None \<Rightarrow> Some (1, set_errnum ERR_WONT_FIT s)
                     | Some m \<Rightarrow> Some (0, s\<lparr>ascii_key_map := m\<rparr>))))"

text \<open>\<open>set_device\<close> parses a drive name and sets \<open>current_drive\<close>; it belongs to the disk layer.\<close>

abbreviation DRIVE_MAP_SIZE :: nat where "DRIVE_MAP_SIZE \<equiv> 8"

definition map_func :: "(u8 list \<Rightarrow> 's loader \<Rightarrow> 's loader) \<Rightarrow> u8 list \<Rightarrow> int \<Rightarrow> 's loader \<Rightarrow> (int \<times> 's loader) option" where
  "map_func set_device arg flags s =
     (let from_drive = skip_to False arg;
          s = set_device arg s
      in if errnum (gm (ed s)) \<noteq> ERR_NONE then Some (1, s)
         else (let to = current_drive s; s = set_device from_drive s
               in if errnum (gm (ed s)) \<noteq> ERR_NONE then Some (1, s)
                  else (let frm = current_drive s;
                            i = length (takeWhile (\<lambda>e. (ucast (e AND 0xff) :: u32) \<noteq> frm \<and> e \<noteq> 0) (take DRIVE_MAP_SIZE (bios_drive_map s)))
                        in if i = DRIVE_MAP_SIZE then Some (1, set_errnum ERR_WONT_FIT s)
                           else Some (0, s\<lparr>bios_drive_map :=
                             (if to = frm then delete_slot DRIVE_MAP_SIZE i (bios_drive_map s)
                              else (bios_drive_map s)[i := ucast (frm OR push_bit 8 to)])\<rparr>))))"

subsection \<open>Fallback entries\<close>

lemma after_digits_shorter: "leading_digits b p \<noteq> [] \<Longrightarrow> length (after_digits b p) < length p"
proof (cases p)
  case (Cons c cs)
  assume "leading_digits b p \<noteq> []"
  with Cons have "digit_of b c \<noteq> None" by (auto simp: leading_digits_def split: if_splits)
  then show ?thesis using Cons length_dropWhile_le [of "\<lambda>c. digit_of b c \<noteq> None" cs] by (simp add: after_digits_def)
qed (simp add: leading_digits_def)

lemma parse_shorter:
  assumes "safe_parse_maxint ptr = Inr (v, rest)"
  shows "length rest < length ptr"
proof -
  let ?b = "if hex_prefix ptr then 16 else 10" and ?p = "if hex_prefix ptr then drop 2 ptr else ptr"
  have "leading_digits ?b ?p \<noteq> []" "rest = after_digits ?b ?p"
    using assms by (auto simp: safe_parse_value Let_def split: if_splits)
  with after_digits_shorter have "length rest < length ?p" by metis
  then show ?thesis by (simp split: if_splits)
qed

lemma skip_to_length: "length (skip_to e line) \<le> length line"
  unfolding skip_to_def by (meson length_dropWhile_le order_trans)

text \<open>The loop of \<open>fallback_func\<close>. After a repeated entry the pointer stays where the number ended.\<close>

function fallback_loop :: "u8 list \<Rightarrow> nat \<Rightarrow> 's loader \<Rightarrow> nat option \<times> 's loader" where
  "fallback_loop arg i s =
     (if arg = [] then (Some i, s)
      else case safe_parse_maxint arg of
        Inl e \<Rightarrow> (None, set_errnum e s)
      | Inr (v, arg) \<Rightarrow>
          (let entry = sint v
           in if entry \<in> set (take i (fallback_entries s)) then fallback_loop arg i s
              else (let s = s\<lparr>fallback_entries := (fallback_entries s)[i := entry]\<rparr>; i = i + 1
                    in if i = MAX_FALLBACK_ENTRIES then (Some i, s) else fallback_loop (skip_to False arg) i s)))"
  by pat_completeness auto
termination
  by (relation "measure (\<lambda>(arg, i, s). length arg)")
    (auto dest!: parse_shorter intro: le_less_trans [OF skip_to_length])

declare fallback_loop.simps [simp del]

definition fallback_func :: "u8 list \<Rightarrow> int \<Rightarrow> 's loader \<Rightarrow> (int \<times> 's loader) option" where
  "fallback_func arg flags s =
     (case fallback_loop arg 0 s of
        (None, s) \<Rightarrow> Some (1, s)
      | (Some i, s) \<Rightarrow>
          (let s = (if i < MAX_FALLBACK_ENTRIES then s\<lparr>fallback_entries := (fallback_entries s)[i := - 1]\<rparr> else s)
           in Some (0, s\<lparr>fallback_entryno := (if i = 0 then - 1 else 0)\<rparr>)))"

subsection \<open>Help\<close>

abbreviation MAX_SHORT_DOC_LEN :: nat where "MAX_SHORT_DOC_LEN \<equiv> 39"
abbreviation MAX_LONG_DOC_LEN :: nat where "MAX_LONG_DOC_LEN \<equiv> 66"

text \<open>The length of the next line of a text: up to the last space in the first 66 characters.\<close>

definition fold_len :: "u8 list \<Rightarrow> nat" where
  "fold_len doc =
     (if length doc > MAX_LONG_DOC_LEN
      then length (dropWhile (\<lambda>c. c \<noteq> 32) (rev (take MAX_LONG_DOC_LEN doc))) else length doc)"

partial_function (option) print_doc :: "'s term_entry \<Rightarrow> u8 list \<Rightarrow> 's loader \<Rightarrow> 's loader option" where
  "print_doc tm doc s =
     (if doc = [] then Some s
      else let len = fold_len doc
        in Option.bind (say tm (cstr ''    '') [] s) (\<lambda>s.
           Option.bind (emit tm (map sint (take len doc)) s) (\<lambda>s.
           Option.bind (emit tm [10] s) (print_doc tm (drop len doc)))))"

primrec print_short :: "'s term_entry \<Rightarrow> bool \<Rightarrow> bool \<Rightarrow> 's builtin list \<Rightarrow> 's loader \<Rightarrow> 's loader option" where
  "print_short tm all left [] s = (if \<not> left then emit tm [10] s else Some s)"
| "print_short tm all left (b # bs) s =
     (if bflags b AND BUILTIN_CMDLINE = 0 \<or> \<not> all \<and> bflags b AND BUILTIN_HELP_LIST = 0 then print_short tm all left bs s
      else let doc = take (MAX_SHORT_DOC_LEN - 1) (short_doc b)
        in Option.bind (emit tm (map sint doc @ replicate (MAX_SHORT_DOC_LEN - length doc) 32) s) (\<lambda>s.
           Option.bind (if \<not> left then emit tm [10] s else Some s) (print_short tm all (\<not> left) bs)))"

primrec print_matching :: "'s term_entry \<Rightarrow> u8 list \<Rightarrow> 's builtin list \<Rightarrow> 's loader \<Rightarrow> 's loader option" where
  "print_matching tm arg [] s = Some s"
| "print_matching tm arg (b # bs) s =
     (if bflags b AND BUILTIN_CMDLINE = 0 \<or> substring arg (bname b) \<ge> 1 then print_matching tm arg bs s
      else Option.bind (say tm (cstr ''%s: %s'' @ [10]) [ArgStr (bname b), ArgStr (short_doc b)] s) (\<lambda>s.
           Option.bind (print_doc tm (long_doc b) s) (print_matching tm arg bs)))"

partial_function (option) help_patterns :: "'s term_entry \<Rightarrow> 's builtin list \<Rightarrow> u8 list \<Rightarrow> 's loader \<Rightarrow> 's loader option" where
  "help_patterns tm bt arg s =
     (let next_arg = skip_to False arg
      in Option.bind (print_matching tm (snd (nul_terminate arg)) bt s) (\<lambda>s.
         if next_arg = [] then Some s else help_patterns tm bt next_arg s))"

definition help_func :: "'s term_entry \<Rightarrow> 's builtin list \<Rightarrow> u8 list \<Rightarrow> int \<Rightarrow> 's loader \<Rightarrow> (int \<times> 's loader) option" where
  "help_func tm bt arg flags s =
     (let all = starts ''--all'' arg;
          arg = (if all then skip_to False arg else arg)
      in map_option (Pair 0)
           (if arg = [] then print_short tm all True bt s else help_patterns tm bt arg s))"

subsection \<open>Passwords\<close>

definition seedchars :: "u8 list" where
  "seedchars = cstr ''./0123456789ABCDEFGHIJKLMNOPQRSTUVWXYZabcdefghijklmnopqrstuvwxyz''"

text \<open>The salt of \<open>md5crypt_func\<close>, at most \<open>n\<close> characters, and the array \<open>crypted\<close> before the key is hashed.\<close>

primrec salt_chars :: "nat \<Rightarrow> u32 \<Rightarrow> u8 list" where
  "salt_chars 0 seed = []"
| "salt_chars (Suc n) seed = (if seed = 0 then [] else seedchars ! unat (seed AND 0x3f) # salt_chars n (drop_bit 6 seed))"

definition crypted_start :: "u32 \<Rightarrow> u8 list" where
  "crypted_start seed =
     (let crypted = overwrite (replicate 36 0) 0 (cstr ''$1$'');
          salt = salt_chars 8 seed
      in (overwrite crypted 3 salt)[3 + length salt := 36])"

text \<open>\<open>key\<close> is the address of the local array; it is cleared, and bounded by its length in \<open>get_cmdline\<close>.\<close>

definition md5crypt_func :: "'s cl_env \<Rightarrow> u32 \<Rightarrow> u32 \<Rightarrow> u8 list \<Rightarrow> int \<Rightarrow> 's loader \<Rightarrow> (int \<times> 's loader) option" where
  "md5crypt_func E currticks key arg flags s =
     (let crypted = crypted_start currticks;
          s = s\<lparr>ed := ed s\<lparr>gm := snd (grub_memset key 0 32 (gm (ed s)))\<rparr>\<rparr>
      in do {
        (_, s) \<leftarrow> ask E (cstr ''Password: '') key 31 42 False s;
        k \<leftarrow> heap_string key s;
        (_, crypted, c) \<leftarrow> md5_password k crypted False (md5 s);
        text \<leftarrow> c_string crypted 0;
        map_option (Pair 0) (say (cl_term E) (cstr ''Encrypted: %s'' @ [10]) [ArgStr text] (s\<lparr>md5 := c\<rparr>))
      })"

text \<open>\<open>entered\<close> is the address of the local array.\<close>

definition password_func :: "'s cl_env \<Rightarrow> u32 \<Rightarrow> u8 list \<Rightarrow> int \<Rightarrow> 's loader \<Rightarrow> (int \<times> 's loader) option" where
  "password_func E entered arg flags s =
     (let (type, arg) = (if starts ''--md5'' arg then (PASSWORD_MD5, skip_to False arg) else (PASSWORD_PLAIN, arg));
          (type, arg) = (if starts ''--'' arg then (PASSWORD_UNSUPPORTED, skip_to False arg) else (type, arg))
      in if flags AND (BUILTIN_CMDLINE OR BUILTIN_SCRIPT) \<noteq> 0 then
           do {
             (_, s) \<leftarrow> ask E (cstr ''Password: '') entered 31 42 False (s\<lparr>ed := poke entered 0 (ed s)\<rparr>);
             str \<leftarrow> heap_string entered s;
             (r, c) \<leftarrow> check_password str (snd (nul_terminate arg) @ [0]) type (md5 s);
             let s = s\<lparr>md5 := c\<rparr>;
             Some (if r \<noteq> 0 then (1, set_errnum ERR_PRIVILEGED s) else (0, s))
           }
         else if length arg + 2 > 0x200 then Some (1, set_errnum ERR_WONT_FIT s)
         else (let s = store_const 0x78000 arg (s\<lparr>password := 0x78000\<rparr>);
                   s = s\<lparr>ed := ed s\<lparr>gm := snd (grub_memset (0x78000 + of_nat (length arg)) 0 (of_nat (0x200 - length arg)) (gm (ed s)))\<rparr>\<rparr>
               in Some (0, s\<lparr>password_type := type\<rparr>)))"

section \<open>Fallback entries\<close>

text \<open>The first \<open>i\<close> entries of the fallback list: different entry numbers.\<close>

definition fallback_ok :: "nat \<Rightarrow> int list \<Rightarrow> bool" where
  "fallback_ok i es \<longleftrightarrow> length es = MAX_FALLBACK_ENTRIES \<and> i \<le> MAX_FALLBACK_ENTRIES \<and> distinct (take i es) \<and> (\<forall>e \<in> set (take i es). 0 \<le> e)"

lemma parse_no_space: "safe_parse_maxint (c # r) = Inr p \<Longrightarrow> c \<noteq> 32 \<and> c \<noteq> 9"
  by (auto simp: safe_parse_value hex_prefix_def leading_digits_def digit_of_def Let_def)

lemma parse_nonneg:
  assumes "safe_parse_maxint ptr = Inr (v, rest)"
  shows "0 \<le> sint v"
proof -
  obtain n where n: "v = of_nat n" "n \<le> 2147483647"
    using assms by (auto simp: safe_parse_value Let_def split: if_splits)
  then have "sint v = int n" by (simp add: sint_uint unsigned_of_nat signed_take_bit_eq_if_positive bit_iff_odd take_bit_nat_eq_self flip: of_nat_take_bit)
  then show ?thesis by simp
qed

lemma take_update_Suc: "i < length es \<Longrightarrow> take (Suc i) (es[i := x]) = take i es @ [x]"
  by (simp add: take_Suc_conv_app_nth)

lemma fallback_loop_ok:
  assumes "fallback_ok i (fallback_entries s)" "i < MAX_FALLBACK_ENTRIES"
  shows "case fallback_loop arg i s of (r, t) \<Rightarrow>
    length (fallback_entries t) = MAX_FALLBACK_ENTRIES \<and> (\<forall>j. r = Some j \<longrightarrow> fallback_ok j (fallback_entries t))"
  using assms
proof (induction arg i s rule: fallback_loop.induct)
  case (1 arg i s)
  show ?case
  proof (cases "arg = []")
    case True
    then show ?thesis using "1.prems" by (subst fallback_loop.simps) (simp add: fallback_ok_def)
  next
    case False
    show ?thesis
    proof (cases "safe_parse_maxint arg")
      case (Inl e)
      then show ?thesis using "1.prems" False by (subst fallback_loop.simps) (simp add: fallback_ok_def set_errnum_def)
    next
      case (Inr p)
      obtain v rest where p: "p = (v, rest)" by force
      note P = Inr [unfolded p]
      let ?e = "sint v" and ?u = "s\<lparr>fallback_entries := (fallback_entries s)[i := sint v]\<rparr>"
      show ?thesis
      proof (cases "?e \<in> set (take i (fallback_entries s))")
        case True
        with "1.IH"(1) [OF False P refl refl True] "1.prems" False P show ?thesis
          by (subst fallback_loop.simps) simp
      next
        case new: False
        have ok: "fallback_ok (i + 1) (fallback_entries ?u)"
          using "1.prems" new parse_nonneg [OF P] by (simp add: fallback_ok_def take_update_Suc)
        show ?thesis
        proof (cases "i + 1 = MAX_FALLBACK_ENTRIES")
          case True
          with ok False P new show ?thesis by (subst fallback_loop.simps) (auto simp: fallback_ok_def Let_def)
        next
          case more: False
          with "1.prems"(2) have "i + 1 < MAX_FALLBACK_ENTRIES" by simp
          with "1.IH"(2) [OF False P refl refl new refl refl more ok] False P new more show ?thesis
            by (subst fallback_loop.simps) simp
        qed
      qed
    qed
  qed
qed

text \<open>
  The fallback list, an invariant of the command \<open>fallback\<close>: whatever its argument, it writes inside the array of
  eight entries, and when it succeeds the entries up to the first \<open>-1\<close> (or all eight) are different and not negative;
  \<open>fallback_entryno\<close> is then 0 if there is one and \<open>-1\<close> otherwise. So following the list cannot loop.
\<close>

theorem fallback_list_distinct:
  assumes "length (fallback_entries s) = MAX_FALLBACK_ENTRIES"
  shows "\<exists>r t. fallback_func arg flags s = Some (r, t) \<and> length (fallback_entries t) = MAX_FALLBACK_ENTRIES \<and>
    (r = 0 \<longrightarrow> (\<exists>k \<le> MAX_FALLBACK_ENTRIES. fallback_ok k (fallback_entries t) \<and>
       (k < MAX_FALLBACK_ENTRIES \<longrightarrow> fallback_entries t ! k = - 1) \<and> fallback_entryno t = (if k = 0 then - 1 else 0)))"
proof -
  obtain r u where f: "fallback_loop arg 0 s = (r, u)" by force
  have "fallback_ok 0 (fallback_entries s)" using assms by (simp add: fallback_ok_def)
  from fallback_loop_ok [OF this, of arg] f have
    u: "length (fallback_entries u) = MAX_FALLBACK_ENTRIES" "\<And>k. r = Some k \<Longrightarrow> fallback_ok k (fallback_entries u)" by simp_all
  show ?thesis
  proof (cases r)
    case None
    then show ?thesis using f u(1) by (simp add: fallback_func_def)
  next
    case (Some k)
    with u have k: "fallback_ok k (fallback_entries u)" "k \<le> MAX_FALLBACK_ENTRIES" by (auto simp: fallback_ok_def)
    then show ?thesis using f Some u(1)
      by (cases "k < MAX_FALLBACK_ENTRIES")
        (auto simp: fallback_func_def Let_def fallback_ok_def intro!: exI [of _ k])
  qed
qed

text \<open>
  A repeated entry makes \<open>fallback\<close> fail unless it is the last: the loop that should skip it goes on at the space
  behind the number, where no number can be parsed. The command returns an error and leaves \<open>fallback_entryno\<close>
  unset, although the first entry has been stored.
\<close>

theorem fallback_repetition_fails:
  assumes "unat n \<le> 2147483647" "length (fallback_entries s) = MAX_FALLBACK_ENTRIES"
  shows "fallback_func (convert_to_ascii 100 n @ 32 # convert_to_ascii 100 n @ 32 # rest) flags s =
    Some (1, set_errnum ERR_NUMBER_PARSING (s\<lparr>fallback_entries := (fallback_entries s)[0 := sint n]\<rparr>))"
proof -
  let ?n = "convert_to_ascii 100 n"
  have p: "safe_parse_maxint (?n @ 32 # r) = Inr (n, 32 # r)" for r
    using number_text_parse [OF assms(1), of "32 # r"] by (simp add: cur_def digit_of_def)
  obtain c cs where n: "?n = c # cs" "c \<noteq> 32" "c \<noteq> 9"
  proof (cases ?n)
    case Nil
    with p [of "[]"] parse_no_space [of 32 "[]"] show thesis by auto
  next
    case (Cons c cs)
    with p [of "[]"] parse_no_space [of c] show thesis by (intro that [OF Cons]) auto
  qed
  have sk: "skip_to False (32 # ?n @ r) = ?n @ r" for r using n by (simp add: skip_to_def)
  have ne: "?n @ r \<noteq> []" for r by (simp add: n(1))
  have e: "safe_parse_maxint (32 # r) = Inl ERR_NUMBER_PARSING" for r
    by (simp add: safe_parse_value hex_prefix_def leading_digits_def digit_of_def Let_def)
  let ?s = "s\<lparr>fallback_entries := (fallback_entries s)[0 := sint n]\<rparr>"
  have 3: "fallback_loop (32 # r) 1 ?s = (None, set_errnum ERR_NUMBER_PARSING ?s)" for r
    by (subst fallback_loop.simps) (simp add: e)
  have "sint n \<in> set (take 1 (fallback_entries ?s))" using assms(2) by (cases "fallback_entries s") simp_all
  then have 2: "fallback_loop (?n @ 32 # r) 1 ?s = (None, set_errnum ERR_NUMBER_PARSING ?s)" for r
    by (subst fallback_loop.simps) (simp add: p ne 3 del: One_nat_def)
  have "fallback_loop (?n @ 32 # ?n @ 32 # rest) 0 s = (None, set_errnum ERR_NUMBER_PARSING ?s)"
    by (subst fallback_loop.simps) (simp add: p sk 2 ne del: One_nat_def)
  then show ?thesis by (simp add: fallback_func_def)
qed

text \<open>A loader on a terminal without output, for the examples.\<close>

definition fresh_loader :: "unit loader" where
  "fresh_loader = \<lparr>ed = fresh_editor, kernel_type = KERNEL_TYPE_NONE, bootdev = 0, debug = 0, default_entry = 0,
     fallback_entryno = - 1, fallback_entries = replicate 8 (- 1), mb_cmdline = 0x2000, password = 0, password_type = PASSWORD_PLAIN,
     auth = 0, grub_timeout = - 1, show_menu = 1, bios_drive_map = empty_slots 8, bios_key_map = empty_slots 128,
     ascii_key_map = empty_slots 128, use_pager = 1, saved_entryno = 0, mbi_flags = 0, mbi_mmap_length = 0, saved_mem_upper = 64512,
     boot_drive = 0x80, install_partition = 0xFFFFFF, saved_drive = 0x80, saved_partition = 0xFFFFFF, current_drive = 0x80,
     md5 = fresh_md5\<rparr>"

theorem fallback_list_distinct_witness:
  "\<exists>r t. fallback_func (cstr ''1 2'') 0 fresh_loader = Some (r, t) \<and> length (fallback_entries t) = 8"
proof -
  have "length (fallback_entries fresh_loader) = MAX_FALLBACK_ENTRIES" by (simp add: fresh_loader_def)
  from fallback_list_distinct [OF this] show ?thesis by blast
qed

theorem fallback_repetition_fails_witness:
  "fallback_func (convert_to_ascii 100 1 @ 32 # convert_to_ascii 100 1 @ 32 # cstr ''2'') 0 fresh_loader =
     Some (1, set_errnum ERR_NUMBER_PARSING (fresh_loader\<lparr>fallback_entries := (replicate 8 (- 1))[0 := 1]\<rparr>))"
proof -
  have "fallback_entries fresh_loader = replicate 8 (- 1)" by (simp add: fresh_loader_def)
  then show ?thesis using fallback_repetition_fails [of 1 fresh_loader "cstr ''2''" 0] by simp
qed

section \<open>Help texts\<close>

definition quiet :: "'s loader \<Rightarrow> bool" where
  "quiet s \<longleftrightarrow> count_lines (cio (ed s)) < 0"

definition shown :: "'s term_entry \<Rightarrow> int list \<Rightarrow> 's loader \<Rightarrow> 's loader" where
  "shown tm cs s = s\<lparr>ed := ed s\<lparr>cio := fold (putchar_plain tm) cs (cio (ed s))\<rparr>\<rparr>"

lemma quiet_shown [simp]: "quiet (shown tm cs s) = quiet s"
  by (simp add: quiet_def shown_def)

lemma shown_append: "shown tm ds (shown tm cs s) = shown tm (cs @ ds) s"
  by (simp add: shown_def)

lemma shown_nil [simp]: "shown tm [] s = s"
  by (simp add: shown_def)

lemma emit_quiet: "quiet s \<Longrightarrow> emit tm cs s = Some (shown tm cs s)"
  by (simp add: emit_def quiet_def shown_def putchars_off)

lemma grub_printf_plain:
  "37 \<notin> set cs \<Longrightarrow> count_lines s < 0 \<Longrightarrow> grub_printf tm cs args s = Some (fold (putchar_plain tm) (map sint cs) s)"
proof (induction cs arbitrary: s)
  case (Cons c cs)
  then show ?case by (cases cs) (simp_all add: grub_putchar_def)
qed simp

lemma say_quiet: "quiet s \<Longrightarrow> 37 \<notin> set cs \<Longrightarrow> say tm cs args s = Some (shown tm (map sint cs) s)"
  by (simp add: say_def quiet_def shown_def grub_printf_plain)

lemma fold_len_pos:
  assumes "32 \<in> set (take MAX_LONG_DOC_LEN doc) \<or> length doc \<le> MAX_LONG_DOC_LEN" "doc \<noteq> []"
  shows "0 < fold_len doc" "fold_len doc \<le> MAX_LONG_DOC_LEN" "fold_len doc \<le> length doc"
    "fold_len doc < length doc \<Longrightarrow> doc ! (fold_len doc - 1) = 32"
proof -
  let ?t = "take MAX_LONG_DOC_LEN doc"
  define d where "d = dropWhile (\<lambda>c. c \<noteq> 32) (rev ?t)"
  have split: "?t = rev d @ rev (takeWhile (\<lambda>c. c \<noteq> 32) (rev ?t))"
    unfolding d_def by (metis rev_append rev_rev_ident takeWhile_dropWhile_id)
  have ld: "length d \<le> length ?t" using length_dropWhile_le [of _ "rev ?t"] by (simp add: d_def)
  have long: "d \<noteq> []" "hd d = 32" if "length doc > MAX_LONG_DOC_LEN"
  proof -
    have "32 \<in> set (rev ?t)" using assms(1) that by simp
    then show "d \<noteq> []" by (auto simp: d_def dropWhile_eq_Nil_conv)
    then show "hd d = 32" using hd_dropWhile [of "\<lambda>c. c \<noteq> 32" "rev ?t"] by (simp add: d_def)
  qed
  have f: "fold_len doc = (if length doc > MAX_LONG_DOC_LEN then length d else length doc)"
    by (simp add: fold_len_def d_def)
  show "0 < fold_len doc" "fold_len doc \<le> MAX_LONG_DOC_LEN" "fold_len doc \<le> length doc"
    using f long ld assms(2) by (auto split: if_splits)
  show "doc ! (fold_len doc - 1) = 32" if "fold_len doc < length doc"
  proof -
    have l: "length doc > MAX_LONG_DOC_LEN" using that f by (auto split: if_splits)
    then have "fold_len doc = length d" using f by simp
    moreover have "?t ! (length d - 1) = 32"
      using split long [OF l] by (metis (no_types, lifting) diff_less hd_conv_nth last_conv_nth last_rev length_greater_0_conv length_rev nth_append rev_is_Nil_conv zero_less_one)
    moreover have "length d - 1 < MAX_LONG_DOC_LEN" using ld long(1) [OF l] l by (cases d) auto
    ultimately show ?thesis by simp
  qed
qed

text \<open>A text every 66 characters of which have a space, unless they are its last ones.\<close>

definition foldable :: "u8 list \<Rightarrow> bool" where
  "foldable doc \<longleftrightarrow> (\<forall>i. i + MAX_LONG_DOC_LEN < length doc \<longrightarrow> 32 \<in> set (take MAX_LONG_DOC_LEN (drop i doc)))"

text \<open>A line of a folded text as it is printed.\<close>

definition doc_line :: "u8 list \<Rightarrow> int list" where
  "doc_line l = map sint (cstr ''    '' @ l) @ [10]"

lemma print_doc_folds:
  assumes "quiet s" "foldable doc"
  obtains ls where "concat ls = doc" "\<forall>l \<in> set ls. l \<noteq> [] \<and> length l \<le> MAX_LONG_DOC_LEN" "\<forall>l \<in> set (butlast ls). last l = 32"
    "print_doc tm doc s = Some (shown tm (concat (map doc_line ls)) s)"
proof -
  have "\<exists>ls. concat ls = doc \<and> (\<forall>l \<in> set ls. l \<noteq> [] \<and> length l \<le> MAX_LONG_DOC_LEN) \<and> (\<forall>l \<in> set (butlast ls). last l = 32) \<and>
    print_doc tm doc s = Some (shown tm (concat (map doc_line ls)) s)"
    using assms
  proof (induction "length doc" arbitrary: doc s rule: less_induct)
    case less
    show ?case
    proof (cases "doc = []")
      case True
      then show ?thesis by (intro exI [of _ "[]"]) (simp add: print_doc.simps)
    next
      case False
      have "32 \<in> set (take MAX_LONG_DOC_LEN doc) \<or> length doc \<le> MAX_LONG_DOC_LEN"
        using less.prems(2) [unfolded foldable_def, rule_format, of 0] by auto
      note f = fold_len_pos [OF this False]
      let ?n = "fold_len doc" and ?s = "shown tm (doc_line (take (fold_len doc) doc)) s"
      have "foldable (drop ?n doc)"
        using less.prems(2) by (auto simp: foldable_def add.commute dest: spec [of _ "_ + ?n"])
      then obtain ls where ls: "concat ls = drop ?n doc" "\<forall>l \<in> set ls. l \<noteq> [] \<and> length l \<le> MAX_LONG_DOC_LEN"
        "\<forall>l \<in> set (butlast ls). last l = 32" "print_doc tm (drop ?n doc) ?s = Some (shown tm (concat (map doc_line ls)) ?s)"
        using less.hyps [of "drop ?n doc" ?s] less.prems(1) f(1,3) False by auto
      have "print_doc tm doc s = print_doc tm (drop ?n doc) ?s"
        using False less.prems(1)
        by (subst print_doc.simps) (simp add: say_quiet emit_quiet shown_append doc_line_def cstr_def Let_def)
      then have "print_doc tm doc s = Some (shown tm (concat (map doc_line (take ?n doc # ls))) s)"
        by (simp add: ls(4) shown_append)
      moreover have "concat (take ?n doc # ls) = doc" using ls(1) by simp
      moreover have "\<forall>l \<in> set (take ?n doc # ls). l \<noteq> [] \<and> length l \<le> MAX_LONG_DOC_LEN"
        using ls(2) f(1,2,3) False by auto
      moreover have "last (take ?n doc) = 32" if "ls \<noteq> []"
      proof -
        have "drop ?n doc \<noteq> []" using ls(1,2) that by (cases ls) auto
        then have "?n < length doc" by simp
        moreover have "take ?n doc \<noteq> []" using f(1) False by simp
        ultimately show ?thesis using f(1,4) last_conv_nth [of "take ?n doc"] by (simp add: min_def)
      qed
      then have "\<forall>l \<in> set (butlast (take ?n doc # ls)). last l = 32" using ls(3) by auto
      ultimately show ?thesis by blast
    qed
  qed
  then show thesis using that by blast
qed

text \<open>
  \<open>help\<close> folds the long description of a command without loss: if every 66 consecutive characters before the
  end contain a space, printing it returns, and puts on the terminal lines that together are the description,
  each of at most 66 characters after the margin, broken only behind a space.
\<close>

theorem help_text_folded:
  assumes "quiet s" "foldable doc"
  shows "\<exists>ls. concat ls = doc \<and> (\<forall>l \<in> set ls. length l \<le> MAX_LONG_DOC_LEN) \<and> (\<forall>l \<in> set (butlast ls). last l = 32) \<and>
    print_doc tm doc s = Some (shown tm (concat (map doc_line ls)) s)"
  using print_doc_folds [OF assms] by metis

theorem help_text_folded_witness:
  "\<exists>t. print_doc null_term (cstr ''Toggle pager mode'') fresh_loader = Some t"
proof -
  have "quiet fresh_loader" "foldable (cstr ''Toggle pager mode'')"
    by (simp_all add: quiet_def fresh_loader_def fresh_editor_def foldable_def cstr_def)
  from help_text_folded [OF this] show ?thesis by blast
qed

text \<open>
  A description that starts with more than 66 characters without a space is never finished: the search for
  a space gives length zero, and the loop prints empty lines for ever.
\<close>

theorem help_text_stuck:
  assumes "MAX_LONG_DOC_LEN < length doc" "32 \<notin> set (take MAX_LONG_DOC_LEN doc)"
  shows "print_doc tm doc s = None"
proof (rule ccontr)
  let ?stuck = "\<lambda>d. MAX_LONG_DOC_LEN < length d \<and> 32 \<notin> set (take MAX_LONG_DOC_LEN d)"
  assume "print_doc tm doc s \<noteq> None"
  then obtain t where "print_doc tm doc s = Some t" by blast
  then have "\<not> ?stuck doc"
  proof (rule print_doc.raw_induct [where P = "\<lambda>tm d s t. \<not> ?stuck d", rotated])
    fix f :: "'a term_entry \<Rightarrow> u8 list \<Rightarrow> 'a loader \<Rightarrow> 'a loader option" and tm d s t
    assume IH: "\<And>tm d s t. f tm d s = Some t \<Longrightarrow> \<not> ?stuck d"
      and b: "(if d = [] then Some s else let len = fold_len d in
        Option.bind (say tm (cstr ''    '') [] s) (\<lambda>s. Option.bind (emit tm (map sint (take len d)) s) (\<lambda>s.
        Option.bind (emit tm [10] s) (f tm (drop len d))))) = Some t"
    show "\<not> ?stuck d"
    proof
      assume st: "?stuck d"
      then have "\<forall>c \<in> set (rev (take MAX_LONG_DOC_LEN d)). c \<noteq> 32" by (metis set_rev)
      then have z: "fold_len d = 0" using st by (simp add: fold_len_def dropWhile_eq_Nil_conv)
      have "d \<noteq> []" using st by auto
      with b obtain u where "f tm (drop (fold_len d) d) u = Some t" by (auto simp: Let_def bind_eq_Some_conv)
      from IH [OF this] z st show False by simp
    qed
  qed
  with assms show False by blast
qed

theorem help_text_stuck_witness: "print_doc null_term (replicate 67 97) fresh_loader = None"
  by (rule help_text_stuck) simp_all

section \<open>Passwords\<close>

lemma seedchars_ok: "n < 64 \<Longrightarrow> seedchars ! n \<noteq> 0"
proof -
  assume "n < 64"
  moreover have "length seedchars = 64" "0 \<notin> set seedchars" by (simp_all add: seedchars_def cstr_def)
  ultimately show ?thesis by (metis nth_mem)
qed

lemma salt_chars_ok: "length (salt_chars n seed) \<le> n" "0 \<notin> set (salt_chars n seed)"
proof -
  have "unat (x AND 0x3f) < 64" for x :: u32
    using and_mask_less_size [of 6 x] by (simp add: mask_eq_exp_minus_1 word_less_nat_alt word_size)
  note c = seedchars_ok [OF this]
  show "length (salt_chars n seed) \<le> n" by (induction n arbitrary: seed) auto
  show "0 \<notin> set (salt_chars n seed)" by (induction n arbitrary: seed) (simp_all add: c [symmetric])
qed

lemma crypted_start_text:
  "\<exists>k. crypted_start seed = cstr ''$1$'' @ salt_chars 8 seed @ 36 # replicate (k + 24) 0 \<and> length (crypted_start seed) = 36"
proof -
  let ?t = "salt_chars 8 seed"
  have l: "length ?t \<le> 8" by (rule salt_chars_ok)
  then obtain k where k: "8 = length ?t + k" using le_Suc_ex by blast
  have o: "overwrite (replicate 36 0) 0 (cstr ''$1$'') = cstr ''$1$'' @ replicate 33 0" by (simp add: overwrite_def cstr_def)
  have n: "33 = length ?t + (k + 25)" using k by simp
  have "overwrite (cstr ''$1$'' @ replicate 33 0) 3 ?t = cstr ''$1$'' @ ?t @ replicate (k + 25) 0"
    by (simp add: overwrite_def cstr_def n numeral_3_eq_3)
  then have "crypted_start seed = cstr ''$1$'' @ ?t @ 36 # replicate (k + 24) 0"
    by (simp add: crypted_start_def Let_def o list_update_append cstr_def numeral_eq_Suc)
  then show ?thesis using k by (intro exI [of _ k]) (simp add: cstr_def)
qed

text \<open>
  Round trip of \<open>md5crypt\<close>: whatever the timer reads when the salt is made, the salt fits its array, and the
  password text that the command computes for a key is accepted by \<open>check_password\<close> when that key is entered.
\<close>

theorem md5crypt_accepted:
  assumes "length (md5_buffer c) = 64" "length (md5_buffer d) = 64"
  shows "\<exists>crypted c' d'. md5_password key (crypted_start ticks) False c = Some (0, crypted, c') \<and>
    check_password key crypted PASSWORD_MD5 d = Some (0, d')"
proof -
  obtain k where k: "crypted_start ticks = cstr ''$1$'' @ salt_chars 8 ticks @ 36 # replicate (k + 24) 0" "length (crypted_start ticks) = 36"
    using crypted_start_text by blast
  let ?str = "cstr ''$1$'' @ salt_chars 8 ticks @ [36]"
  have "c_string (crypted_start ticks) 0 = Some ?str"
    using salt_chars_ok(2) [of 8 ticks] by (auto simp: c_string_def k(1) cstr_def takeWhile_append)
  from md5_password_accepts [OF assms _ this] k(2) show ?thesis
    by (fastforce simp: check_password_def cstr_def)
qed

theorem md5crypt_accepted_witness:
  "\<exists>crypted c' d'. md5_password (cstr ''sesame'') (crypted_start 0x12345) False fresh_md5 = Some (0, crypted, c') \<and>
    check_password (cstr ''sesame'') crypted PASSWORD_MD5 fresh_md5 = Some (0, d')"
  by (rule md5crypt_accepted) (simp_all add: fresh_md5_def)

section \<open>Colours\<close>

lemma color_search_none: "\<forall>n \<in> set ns. grub_strcmp (cstr n) str \<noteq> 0 \<Longrightarrow> color_search str ns i = None"
  by (induction ns arbitrary: i) auto

text \<open>A string that starts with a digit is no colour name, and one that does not is no number.\<close>

lemma digit_not_color:
  assumes "digit_of 10 c \<noteq> None" "0 \<notin> set (c # str)"
  shows "color_search (c # str) color_list i = None" "substring (cstr ''blink-'') (c # str) = 1"
proof -
  have c: "48 \<le> unat c" "unat c \<le> 57" using assms(1) by (auto simp: digit_of_def Let_def split: if_splits)
  have h: "cstr n \<noteq> c # str" if "n \<in> set color_list" for n
  proof
    assume e: "cstr n = c # str"
    from that have "57 < unat (hd (cstr n))" by (auto simp: color_list_def cstr_def)
    with e c show False by simp
  qed
  have z: "\<forall>n \<in> set color_list. 0 \<notin> set (cstr n)" by (simp add: color_list_def cstr_def)
  show "color_search (c # str) color_list i = None"
    by (rule color_search_none) (use z h assms(2) in \<open>auto simp: grub_strcmp_signed\<close>)
  have "c \<noteq> 98" using c by auto
  then show "substring (cstr ''blink-'') (c # str) = 1" by (simp add: cstr_def)
qed

lemma digits_text:
  assumes "unat n \<le> 2147483647"
  obtains c cs where "convert_to_ascii 100 n = c # cs" "\<forall>d \<in> set (c # cs). digit_of 10 d \<noteq> None"
proof -
  have "\<not> sint n < 0"
  proof -
    have "uint n < 2147483648" using assms unfolding uint_nat by linarith
    moreover have "0 \<le> uint n" by simp
    ultimately have "sint n = uint n" unfolding sint_uint by (intro signed_take_bit_int_eq_self order.trans [OF _ \<open>0 \<le> uint n\<close>]) simp_all
    then show ?thesis using \<open>0 \<le> uint n\<close> by linarith
  qed
  then have t: "convert_to_ascii 100 n = base_text 10 (unat n)" by (simp add: convert_to_ascii_text)
  have "\<forall>d \<in> set (base_text 10 m). digit_of 10 d \<noteq> None" for m
  proof
    fix d assume "d \<in> set (base_text 10 m)"
    then obtain e where "e \<in> set (base_digits 10 m)" "d = digit_ascii e" by (auto simp: base_text_def)
    with base_digits_less [of 10 e m] show "digit_of 10 d \<noteq> None" by (simp add: digit_of_ascii)
  qed
  moreover have "base_text 10 (unat n) \<noteq> []" by (subst base_text_def, subst base_digits.simps) simp
  ultimately show thesis using that t by (metis list.exhaust)
qed

lemma string_from_append: "0 \<notin> set xs \<Longrightarrow> string_from (ys @ xs @ 0 # zs) (length ys) = xs"
  by (simp add: string_from_def takeWhile_append)

text \<open>
  A number as the first colour and names as the second are refused: looking for the slash of the first colour,
  \<open>color\<close> finds the slash of the second, ends the argument there and then takes neither a name nor a number from
  what is left of the second colour. So \<open>color 7 red/blue\<close> fails with a number parsing error.
\<close>

theorem color_number_then_name_refused:
  assumes "unat n \<le> 2147483647" "fg = c # cs" "digit_of 10 c = None" "c \<notin> {32, 9}" "0 \<notin> set (fg @ bg)" "47 \<notin> set fg"
  shows "color_func tm (convert_to_ascii 100 n @ 32 # fg @ 47 # bg) flags s = Some (1, set_errnum ERR_NUMBER_PARSING s)"
proof -
  obtain d ds where t: "convert_to_ascii 100 n = d # ds" "\<forall>e \<in> set (d # ds). digit_of 10 e \<noteq> None"
    by (rule digits_text [OF assms(1)])
  let ?n = "d # ds"
  have dig: "e \<noteq> 0 \<and> e \<noteq> 47 \<and> e \<noteq> 32 \<and> e \<noteq> 9 \<and> e \<noteq> 61" if "e \<in> set ?n" for e
    using t(2) that by (auto simp: digit_of_def Let_def split: if_splits)
  let ?arg = "?n @ 32 # fg @ 47 # bg" and ?cut = "?n @ 32 # fg @ 0 # bg @ [0]"
  have z: "0 \<notin> set ?n" "47 \<notin> set ?n" using dig by auto
  have str: "string_from (?arg @ [0]) 0 = ?arg"
    using string_from_append [of ?arg "[]" "[]"] z(1) assms(5) by simp
  have cut0: "string_from ?cut 0 = ?n @ 32 # fg"
    using string_from_append [of "?n @ 32 # fg" "[]" "bg @ [0]"] z(1) assms(5) by simp
  have k: "length (takeWhile (\<lambda>c. c \<noteq> 47) ?arg) = length (?n @ 32 # fg)"
  proof -
    have "takeWhile (\<lambda>c. c \<noteq> 47) ((?n @ 32 # fg) @ 47 # bg) = ?n @ 32 # fg"
      using z(2) assms(6) by (subst takeWhile_append2) auto
    then show ?thesis by simp
  qed
  have upd: "(?arg @ [0])[length (?n @ 32 # fg) := 0] = ?cut" by (simp add: list_update_append)
  have c1: "color_number (?arg @ [0]) 0 = (- 1, ?cut)"
    using digit_not_color(1) [of d "ds @ 32 # fg" 0] digit_not_color(2) [of d "ds @ 32 # fg"] t(2) z assms(5)
    unfolding color_number_def Let_def str k add_0 upd cut0 by simp
  have hl: "length ?arg - length (skip_to False ?arg) = length (?n @ [32])"
  proof -
    have "skip_to False (?n @ [32] @ fg @ 47 # bg) = fg @ 47 # bg"
      using dig assms(2,4) unfolding skip_to_def by (simp add: dropWhile_append)
    then show ?thesis by simp
  qed
  have sf: "string_from ?cut (length (?n @ [32])) = fg"
    using string_from_append [of fg "?n @ [32]" "bg @ [0]"] assms(5) by simp
  have tw: "takeWhile (\<lambda>c. c \<noteq> 47) fg = fg" using assms(6) by (auto simp: takeWhile_eq_all_conv)
  have c2: "color_number ?cut (length (?n @ [32])) = (- 1, ?cut)" unfolding color_number_def Let_def sf tw by (simp only: simp_thms if_True)
  have p1: "safe_parse_maxint (?n @ 32 # fg) = Inr (n, 32 # fg)"
    using number_text_parse [OF assms(1), of "32 # fg"] by (simp add: t(1) cur_def digit_of_def)
  have p2: "safe_parse_maxint fg = Inl ERR_NUMBER_PARSING"
    using assms(2,3) by (auto simp: safe_parse_value hex_prefix_def leading_digits_def digit_of_def Let_def)
  show ?thesis unfolding t(1) color_func_def Let_def hl c1
    by (simp only: prod.case if_True sf c2 cut0 parse_arg_def p1 p2) (simp add: parse_arg_def p1 p2 sf c2 cut0 assms(2))
qed

theorem color_number_then_name_refused_witness:
  "color_func null_term (convert_to_ascii 100 7 @ 32 # cstr ''red'' @ 47 # cstr ''blue'') 0 fresh_loader =
     Some (1, set_errnum ERR_NUMBER_PARSING fresh_loader)"
  by (rule color_number_then_name_refused [where c = 114 and cs = "cstr ''ed''"]) (simp_all add: cstr_def digit_of_def)

section \<open>The keyboard\<close>

lemma nul_terminate_space: "\<forall>c \<in> set w. \<not> grub_isspace (sint c) \<Longrightarrow> snd (nul_terminate (w @ 32 # r)) = w"
  by (induction w) (auto simp: grub_isspace_def)

lemma nul_terminate_all: "\<forall>c \<in> set w. \<not> grub_isspace (sint c) \<Longrightarrow> snd (nul_terminate w) = w"
  by (induction w) auto

text \<open>
  \<open>setkey TO FROM\<close> for two keys that have ASCII codes: either it succeeds and the keyboard map translates the code of
  FROM to that of TO and every other code as before, or it reports \<open>ERR_WONT_FIT\<close>, which happens only when FROM has
  no entry and 128 other codes have one. The map stays well formed, and the map of the keyboard interrupt is not touched.
\<close>

theorem setkey_remaps:
  assumes "slots_ok 128 (ascii_key_map s)" "to \<noteq> []" "frm \<noteq> []" "\<forall>c \<in> set (to @ frm). c \<noteq> 0 \<and> \<not> grub_isspace (sint c)"
    "find_ascii_code to = a" "find_ascii_code frm = b" "a \<noteq> 0" "b \<noteq> 0"
  shows "\<exists>r t. setkey_func (to @ 32 # frm) flags s = Some (r, t) \<and> slots_ok 128 (ascii_key_map t) \<and> bios_key_map t = bios_key_map s \<and>
    (if r = 0 then remap (ascii_key_map t) = (remap (ascii_key_map s))(b := a)
     else t = set_errnum ERR_WONT_FIT s \<and> card (mapped (ascii_key_map s)) = 128 \<and> b \<notin> mapped (ascii_key_map s))"
proof -
  have sp: "c \<noteq> 0 \<and> c \<noteq> 32 \<and> c \<noteq> 9" if "c \<in> set (to @ frm)" for c
  proof -
    have "c \<noteq> 0" "\<not> grub_isspace (sint c)" using assms(4) that by auto
    then show ?thesis by (auto simp: grub_isspace_def)
  qed
  have sk: "skip_to False (to @ 32 # frm) = frm"
  proof -
    have "dropWhile (\<lambda>c. c \<noteq> 0 \<and> c \<noteq> 32 \<and> c \<noteq> 9 \<and> \<not> (False \<and> c = 61)) (to @ 32 # frm) = 32 # frm"
      using sp by (subst dropWhile_append2) auto
    moreover have "dropWhile (\<lambda>c. c = 32 \<or> c = 9 \<or> False \<and> c = 61) frm = frm"
      using assms(3) sp by (cases frm) auto
    ultimately show ?thesis by (simp add: skip_to_def)
  qed
  have n: "snd (nul_terminate (to @ 32 # frm)) = to" "snd (nul_terminate frm) = frm"
    using assms(4) by (auto intro: nul_terminate_space nul_terminate_all)
  have f: "setkey_func (to @ 32 # frm) flags s =
    (case set_key a b (ascii_key_map s) of None \<Rightarrow> Some (1, set_errnum ERR_WONT_FIT s) | Some m \<Rightarrow> Some (0, s\<lparr>ascii_key_map := m\<rparr>))"
    using assms(2,3,5-8) by (simp add: setkey_func_def Let_def sk n)
  show ?thesis
  proof (cases "set_key a b (ascii_key_map s)")
    case None
    with set_slot_none [OF assms(1,8), of a] show ?thesis
      using assms(1) by (simp add: f set_key_def set_errnum_def)
  next
    case (Some m)
    with set_slot_some [OF assms(1,8), of a m] show ?thesis by (simp add: f set_key_def)
  qed
qed

theorem setkey_remaps_witness:
  "\<exists>r t. setkey_func (cstr ''a'' @ 32 # cstr ''b'') 0 fresh_loader = Some (r, t) \<and> slots_ok 128 (ascii_key_map t)"
proof -
  have c: "find_ascii_code (cstr ''a'') = 97" "find_ascii_code (cstr ''b'') = 98" by code_simp+
  have "slots_ok 128 (ascii_key_map fresh_loader)" by (simp add: fresh_loader_def empty_slots_ok)
  from setkey_remaps [OF this _ _ _ c, of 0] show ?thesis by (auto simp: cstr_def grub_isspace_def sint_u8)
qed

end
