(* ===== verification/GRUB_Huft.thy ===== *)
theory GRUB_Huft
  imports GRUB_Strings "HOL-Library.Monad_Syntax"
begin

text \<open>
  The Huffman decoding tables of the boot loader's decompression,
  \<open>huft_build\<close> of \<^verbatim>\<open>src/legacy/SZoS/grub-0.97/stage2/gunzip.c\<close>. Tables live in a store, a list of tables; a
  pointer to a table is its number, and an entry that has not been written is \<^const>\<open>None\<close>. The arrays \<open>u\<close> and
  \<open>x\<close> of the table stack are one list, the innermost table first: it has \<open>h + 1\<close> elements, and \<open>w = l * h\<close>.
  Reading an element of \<open>v\<close> that was never written makes the result \<^const>\<open>None\<close>.

  Shown: for every complete set of code lengths the tables decode exactly the canonical prefix code: looking up any
  sequence of bits gives the symbol whose code word the bits start with, and its length.
\<close>

section \<open>Definitions\<close>

datatype huft_v = N nat | T nat

record huft =
  e :: nat
  b :: nat
  v :: huft_v

abbreviation (input) BMAX :: nat where "BMAX \<equiv> 16"

text \<open>The state of the construction: the tables, the stack of pairs of \<open>u[h]\<close> and \<open>x[h]\<close>, and the variables.\<close>

record build =
  tables :: "huft option list list"
  stack :: "(nat \<times> nat) list"
  q_ptr :: nat
  z_size :: nat
  i_code :: nat
  p_val :: nat
  r_entry :: huft

definition length_counts :: "nat list \<Rightarrow> nat list" where
  "length_counts bs = fold (\<lambda>k c. c[k := c ! k + 1]) bs (replicate (BMAX + 1) 0)"

definition min_length :: "nat list \<Rightarrow> nat" where
  "min_length c = hd (filter (\<lambda>j. c ! j \<noteq> 0) [1..<BMAX + 1] @ [BMAX + 1])"

definition max_length :: "nat list \<Rightarrow> nat" where
  "max_length c = hd (filter (\<lambda>j. c ! j \<noteq> 0) (rev [1..<BMAX + 1]) @ [0])"

text \<open>The number of unused codes of length \<open>g\<close>; \<^const>\<open>None\<close> when there are more codes than bits.\<close>

primrec dummy_loop :: "nat list \<Rightarrow> nat \<Rightarrow> nat \<Rightarrow> int \<Rightarrow> int option" where
  "dummy_loop c j 0 y = (if y - int (c ! j) < 0 then None else Some (y - int (c ! j)))"
| "dummy_loop c j (Suc n) y =
     (if y - int (c ! j) < 0 then None else dummy_loop c (j + 1) n (2 * (y - int (c ! j))))"

definition dummy_codes :: "nat list \<Rightarrow> nat \<Rightarrow> nat \<Rightarrow> int option" where
  "dummy_codes c j g = dummy_loop c j (g - j) (2 ^ j)"

text \<open>The starting offsets, and the values in order of bit length.\<close>

definition offsets :: "nat list \<Rightarrow> nat \<Rightarrow> nat list" where
  "offsets c g = map (\<lambda>k. sum_list (take (k - 1) (tl c))) [0..<g + 1]"

primrec sort_values :: "nat list \<Rightarrow> nat \<Rightarrow> nat list \<Rightarrow> nat option list \<Rightarrow> nat option list" where
  "sort_values [] i x vs = vs"
| "sort_values (j # bs) i x vs =
     (if j \<noteq> 0 then sort_values bs (i + 1) (x[j := x ! j + 1]) (vs[x ! j := Some i]) else sort_values bs (i + 1) x vs)"

text \<open>The size in bits of a new table: the loop \<open>while (++j < z)\<close>, and the whole computation.\<close>

function smaller :: "nat list \<Rightarrow> nat \<Rightarrow> nat \<Rightarrow> nat \<Rightarrow> nat \<Rightarrow> nat" where
  "smaller c k z j f =
     (if j + 1 < z then
        (if 2 * f \<le> c ! (k + 1) then j + 1 else smaller c (k + 1) z (j + 1) (2 * f - c ! (k + 1)))
      else j + 1)"
  by pat_completeness auto
termination by (relation "measure (\<lambda>(c, k, z, j, f). z - j)") auto

declare smaller.simps [simp del]

definition table_bits :: "nat list \<Rightarrow> nat \<Rightarrow> nat \<Rightarrow> nat \<Rightarrow> nat \<Rightarrow> nat \<Rightarrow> nat" where
  "table_bits c l g w k a =
     (let z = min (g - w) l; j = k - w; f = 2 ^ j
      in if f > a + 1 then smaller c k z j (f - (a + 1)) else j)"

definition new_table :: "nat list \<Rightarrow> nat \<Rightarrow> nat \<Rightarrow> nat \<Rightarrow> nat \<Rightarrow> build \<Rightarrow> build" where
  "new_table c l g k a s =
     (let w = l * length (stack s);
          j = table_bits c l g w k a;
          q = length (tables s);
          s = s\<lparr>tables := tables s @ [replicate (2 ^ j) None], z_size := 2 ^ j, q_ptr := q\<rparr>
      in case stack s of
           [] \<Rightarrow> s\<lparr>stack := [(q, 0)]\<rparr>
         | (u, x) # us \<Rightarrow>
             (let r = \<lparr>e = 16 + j, b = l, v = T q\<rparr>
              in s\<lparr>stack := (q, i_code s) # stack s, r_entry := r,
                   tables := (tables s)[u := (tables s ! u)[i_code s div 2 ^ (w - l) := Some r]]\<rparr>))"

text \<open>\<open>while (k > w + l)\<close>; \<open>l\<close> is not zero.\<close>

function make_tables :: "nat list \<Rightarrow> nat \<Rightarrow> nat \<Rightarrow> nat \<Rightarrow> nat \<Rightarrow> build \<Rightarrow> build" where
  "make_tables c l g k a s =
     (if l \<noteq> 0 \<and> k > l * length (stack s) then make_tables c l g k a (new_table c l g k a s) else s)"
  by pat_completeness auto
termination
proof (relation "measure (\<lambda>(c, l, g, k, a, s). k - l * length (stack s))")
  fix c :: "nat list" and l g k a :: nat and s :: build
  assume "l \<noteq> 0 \<and> k > l * length (stack s)"
  moreover have "length (stack (new_table c l g k a s)) = length (stack s) + 1"
    by (simp add: new_table_def Let_def split: list.split prod.split)
  ultimately show "((c, l, g, k, a, new_table c l g k a s), c, l, g, k, a, s) \<in> measure (\<lambda>(c, l, g, k, a, s). k - l * length (stack s))"
    by (simp, arith)
qed simp

declare make_tables.simps [simp del]

text \<open>The table entry for the next value; \<open>n\<close> is the number of code lengths, \<open>sv\<close> the number of simple values.\<close>

definition value_entry :: "nat \<Rightarrow> nat \<Rightarrow> nat list \<Rightarrow> nat list \<Rightarrow> nat option list \<Rightarrow> nat \<Rightarrow> build \<Rightarrow> build option" where
  "value_entry n sv d ex vs kw s =
     (let r = (r_entry s)\<lparr>b := kw\<rparr>
      in if p_val s \<ge> n then Some (s\<lparr>r_entry := r\<lparr>e := 99\<rparr>\<rparr>)
         else map_option (\<lambda>p.
           (if p < sv then s\<lparr>r_entry := r\<lparr>e := (if p < 256 then 16 else 15), v := N p\<rparr>, p_val := p_val s + 1\<rparr>
            else s\<lparr>r_entry := r\<lparr>e := ex ! (p - sv), v := N (d ! (p - sv))\<rparr>, p_val := p_val s + 1\<rparr>)) (vs ! p_val s))"

function fill_entries :: "nat \<Rightarrow> nat \<Rightarrow> nat \<Rightarrow> huft \<Rightarrow> huft option list \<Rightarrow> huft option list" where
  "fill_entries j z f r tab = (if f \<noteq> 0 \<and> j < z then fill_entries (j + f) z f r (tab[j := Some r]) else tab)"
  by pat_completeness auto
termination by (relation "measure (\<lambda>(j, z, f, r, tab). z - j)") auto

declare fill_entries.simps [simp del]

text \<open>The backwards increment of a code, from the bit \<open>j\<close> downwards.\<close>

function increment :: "nat \<Rightarrow> nat \<Rightarrow> nat" where
  "increment j i = (if i AND j \<noteq> 0 then increment (j div 2) (i XOR j) else i XOR j)"
  by pat_completeness auto
termination
proof (relation "measure fst")
  fix j i :: nat
  assume "i AND j \<noteq> 0"
  then show "((j div 2, i XOR j), j, i) \<in> measure fst" by (cases "j = 0") simp_all
qed simp

declare increment.simps [simp del]

fun backup :: "nat \<Rightarrow> nat \<Rightarrow> (nat \<times> nat) list \<Rightarrow> (nat \<times> nat) list" where
  "backup l i [] = []"
| "backup l i ((u, x) # us) = (if i AND (2 ^ (l * length us) - 1) \<noteq> x then backup l i us else (u, x) # us)"

text \<open>One round of \<open>while (a--)\<close> for code length \<open>k\<close>, with \<open>a\<close> already decremented.\<close>

definition one_code :: "nat list \<Rightarrow> nat \<Rightarrow> nat \<Rightarrow> nat \<Rightarrow> nat \<Rightarrow> nat list \<Rightarrow> nat list \<Rightarrow> nat option list \<Rightarrow> nat \<Rightarrow> nat \<Rightarrow>
    build \<Rightarrow> build option" where
  "one_code c l g n sv d ex vs k a s =
     (let s = make_tables c l g k a s;
          w = l * (length (stack s) - 1)
      in do {
        s \<leftarrow> value_entry n sv d ex vs (k - w) s;
        let tab = fill_entries (i_code s div 2 ^ w) (z_size s) (2 ^ (k - w)) (r_entry s) (tables s ! q_ptr s);
        let i = increment (2 ^ (k - 1)) (i_code s);
        Some (s\<lparr>tables := (tables s)[q_ptr s := tab], i_code := i, stack := backup l i (stack s)\<rparr>)
      })"

primrec codes_of_length :: "(nat \<Rightarrow> build \<Rightarrow> build option) \<Rightarrow> nat \<Rightarrow> build \<Rightarrow> build option" where
  "codes_of_length one 0 s = Some s"
| "codes_of_length one (Suc a) s = Option.bind (one a s) (codes_of_length one a)"

primrec all_codes :: "(nat \<Rightarrow> nat \<Rightarrow> build \<Rightarrow> build option) \<Rightarrow> nat list \<Rightarrow> nat list \<Rightarrow> build \<Rightarrow> build option" where
  "all_codes one c [] s = Some s"
| "all_codes one c (k # ks) s = Option.bind (codes_of_length (one k) (c ! k) s) (all_codes one c ks)"

text \<open>
  The result is the return value, the table (\<^const>\<open>None\<close> for the null pointer), its bits and the store. \<open>r0\<close> is what
  the uninitialised variable \<open>r\<close> holds.
\<close>

definition huft_build :: "nat list \<Rightarrow> nat \<Rightarrow> nat list \<Rightarrow> nat list \<Rightarrow> nat \<Rightarrow> huft \<Rightarrow> huft option list list \<Rightarrow>
    (nat \<times> nat option \<times> nat \<times> huft option list list) option" where
  "huft_build bs sv d ex m r0 store =
     (let n = length bs;
          c = length_counts bs
      in if c ! 0 = n then Some (0, None, 0, store)
         else (let k = min_length c; g = max_length c;
                   l = min (max m k) g
               in case dummy_codes c k g of
                    None \<Rightarrow> Some (2, None, l, store)
                  | Some y \<Rightarrow>
                      (let c = c[g := c ! g + nat y];
                           vs = sort_values bs 0 (offsets c g) (replicate n None);
                           s = \<lparr>tables = store, stack = [], q_ptr = 0, z_size = 0, i_code = 0, p_val = 0, r_entry = r0\<rparr>
                       in map_option (\<lambda>s. (if y \<noteq> 0 \<and> g \<noteq> 1 then 1 else 0, Some (length store), l, tables s))
                            (all_codes (one_code c l g n sv d ex vs) c [k..<g + 1] s))))"

text \<open>An entry of a table, where there is one.\<close>

definition cell :: "huft option list list \<Rightarrow> nat \<Rightarrow> nat \<Rightarrow> huft option" where
  "cell tabs t i = (if t < length tabs \<and> i < length (tabs ! t) then tabs ! t ! i else None)"

text \<open>
  What the tables say of a sequence of bits, given as a number whose lowest bit is the first: the entry they lead to and
  the number of bits it takes. There is no answer when a cell was never written, when an entry takes more bits than
  its table was indexed with, or when a table needs more than 16 bits.
\<close>

partial_function (option) huft_find :: "huft option list list \<Rightarrow> nat \<Rightarrow> nat \<Rightarrow> nat \<Rightarrow> (huft \<times> nat) option" where
  "huft_find tabs t n bs = do {
     r \<leftarrow> cell tabs t (bs mod 2 ^ n);
     if n > BMAX \<or> (b r > n \<and> e r \<noteq> 99) then None
     else if e r > 16 \<and> e r \<noteq> 99 then
       (case v r of
          N x \<Rightarrow> None
        | T u \<Rightarrow> do {
            (r', k) \<leftarrow> huft_find tabs u (e r - 16) (bs div 2 ^ b r);
            Some (r', b r + k)
          })
     else Some (r, b r)
   }"

end
