(* ===== verification/GRUB_Bits.thy ===== *)
theory GRUB_Bits
  imports GRUB_Huft
begin

text \<open>
  The bit buffer of the boot loader's decompression, the macros \<open>NEEDBITS\<close> and \<open>DUMPBITS\<close> of
  \<^verbatim>\<open>src/legacy/SZoS/grub-0.97/stage2/gunzip.c\<close>, and the decoding of one code with them. A reader is the triple of the
  buffer \<open>b\<close>, the number \<open>k\<close> of its bits, and the state the bytes come from; \<open>get\<close> is \<open>get_byte\<close>.

  The interface \<open>byte_source\<close> is all the macros need of \<open>get\<close>: that it delivers the bytes of a stream one after the
  other. Then a reader is a stream of bits, \<open>NEEDBITS\<close> does not change it and \<open>DUMPBITS\<close> drops its first bits.
\<close>

section \<open>Definitions\<close>

type_synonym 's reader = "u32 \<times> nat \<times> 's"

function need_bits :: "('s \<Rightarrow> u8 \<times> 's) \<Rightarrow> nat \<Rightarrow> 's reader \<Rightarrow> 's reader" where
  "need_bits get n (u, k, s) =
     (if k < n then let (c, s) = get s in need_bits get n (u OR push_bit k (ucast c), k + 8, s) else (u, k, s))"
  by pat_completeness auto
termination by (relation "measure (\<lambda>(get, n, u, k, s). n - k)") auto

declare need_bits.simps [simp del]

text \<open>The count is an \<open>unsigned\<close>.\<close>

definition dump_bits :: "nat \<Rightarrow> 's reader \<Rightarrow> 's reader" where
  "dump_bits n = (\<lambda>(u, k, s). (drop_bit n u, (k + 2 ^ 32 - n) mod 2 ^ 32, s))"

definition mask_bits :: "u32 list" where
  "mask_bits = [0x0000, 0x0001, 0x0003, 0x0007, 0x000f, 0x001f, 0x003f, 0x007f, 0x00ff,
     0x01ff, 0x03ff, 0x07ff, 0x0fff, 0x1fff, 0x3fff, 0x7fff, 0xffff]"

text \<open>\<open>b & mask_bits[n]\<close>.\<close>

definition low_bits :: "nat \<Rightarrow> 's reader \<Rightarrow> nat" where
  "low_bits n r = unat (fst r AND mask_bits ! n)"

text \<open>
  The decoding of a code: the table \<open>t\<close> is looked up with \<open>n\<close> bits. The result is the last entry and the reader behind
  its bits, which are not dropped when the entry is the error entry with \<open>e = 99\<close>.
\<close>

partial_function (option) huft_decode :: "('s \<Rightarrow> u8 \<times> 's) \<Rightarrow> huft option list list \<Rightarrow> nat \<Rightarrow> nat \<Rightarrow> 's reader \<Rightarrow> (huft \<times> 's reader) option" where
  "huft_decode get tabs t n rd =
     (if n > 16 then None
      else let rd = need_bits get n rd in do {
        r \<leftarrow> cell tabs t (low_bits n rd);
        if e r > 16 then
          (if e r = 99 then Some (r, rd)
           else case v r of N x \<Rightarrow> None | T u \<Rightarrow> huft_decode get tabs u (e r - 16) (dump_bits (b r) rd))
        else Some (r, dump_bits (b r) rd)
      })"

section \<open>A reader as a stream of bits\<close>

lemma mask_bits_nth: "n \<le> 16 \<Longrightarrow> mask_bits ! n = mask n"
proof -
  assume "n \<le> 16"
  then have "n \<in> set [0..<17]" by simp
  moreover have "\<forall>n\<in>set [0..<17]. mask_bits ! n = mask n" unfolding mask_bits_def by code_simp
  ultimately show ?thesis by blast
qed

lemma low_bits_mod: "n \<le> 16 \<Longrightarrow> low_bits n (u, k, s) = unat u mod 2 ^ n"
  by (simp add: low_bits_def mask_bits_nth unsigned_take_bit_eq flip: take_bit_eq_mask take_bit_eq_mod)

text \<open>The number that the first \<open>n\<close> bits of a stream make.\<close>

primrec bits_value :: "(nat \<Rightarrow> bool) \<Rightarrow> nat \<Rightarrow> nat" where
  "bits_value f 0 = 0"
| "bits_value f (Suc n) = bits_value f n + of_bool (f n) * 2 ^ n"

lemma bits_value_less: "bits_value f n < 2 ^ n"
  by (induction n) auto

lemma bit_bits_value: "bit (bits_value f n) i \<longleftrightarrow> i < n \<and> f i"
proof (induction n arbitrary: i)
  case (Suc n)
  have "bits_value f (Suc n) = bits_value f n OR (of_bool (f n) * 2 ^ n)"
    unfolding bits_value.simps
    by (rule disjunctive_add [symmetric, THEN sym]) (auto simp: Suc bit_simps)
  then show ?case by (auto simp: bit_or_iff Suc bit_simps less_Suc_eq)
qed simp

lemma bits_value_cong: "(\<And>i. i < n \<Longrightarrow> f i = g i) \<Longrightarrow> bits_value f n = bits_value g n"
  by (induction n) auto

locale byte_source =
  fixes get :: "'s \<Rightarrow> u8 \<times> 's"
    and inv :: "'s \<Rightarrow> bool"
    and stream :: "'s \<Rightarrow> nat \<Rightarrow> u8"
  assumes inv_get: "inv s \<Longrightarrow> inv (snd (get s))"
    and get_first: "inv s \<Longrightarrow> fst (get s) = stream s 0"
    and get_rest: "inv s \<Longrightarrow> stream (snd (get s)) i = stream s (Suc i)"
begin

definition reader_bit :: "'s reader \<Rightarrow> nat \<Rightarrow> bool" where
  "reader_bit = (\<lambda>(u, k, s) i. if i < k then bit u i else bit (stream s ((i - k) div 8)) ((i - k) mod 8))"

definition reader_ok :: "'s reader \<Rightarrow> bool" where
  "reader_ok = (\<lambda>(u, k, s). inv s \<and> k \<le> 24 \<and> unat u < 2 ^ k)"

lemma reader_bit_refill:
  assumes "inv s" "k \<le> 24" "unat u < 2 ^ k" "get s = (c, s')"
  shows "reader_bit (u OR push_bit k (ucast c), k + 8, s') = reader_bit (u, k, s)"
proof
  fix i
  have c: "c = stream s 0" "inv s'" using get_first [OF assms(1)] inv_get [OF assms(1)] assms(4) by simp_all
  have rest: "stream s' j = stream s (Suc j)" for j using get_rest [OF assms(1), of j] assms(4) by simp
  have u: "\<not> bit u j" if "k \<le> j" for j using assms(3) that by (simp add: unat_less_bits)
  show "reader_bit (u OR push_bit k (ucast c), k + 8, s') i = reader_bit (u, k, s) i"
  proof -
    consider "i < k" | "k \<le> i" "i < k + 8" | "k + 8 \<le> i" by linarith
    then show ?thesis
    proof cases
      case 1
      then show ?thesis by (simp add: reader_bit_def bit_simps)
    next
      case 2
      then have d: "(i - k) div 8 = 0" "(i - k) mod 8 = i - k" by simp_all
      have "i < 32" using 2 assms(2) by simp
      then have "bit (u OR push_bit k (ucast c)) i = bit c (i - k)"
        using 2(1) u [OF 2(1)] bit_imp_le_length [of c "i - k"] by (auto simp: bit_or_iff bit_push_bit_iff bit_ucast_iff)
      then show ?thesis using 2 c(1) unfolding reader_bit_def prod.case d by simp
    next
      case 3
      then obtain j where j: "i = k + 8 + j" using le_Suc_ex by blast
      then have "i - k = 8 + j" by simp
      then have "(i - k) div 8 = Suc (j div 8)" "(i - k) mod 8 = j mod 8" by simp_all
      with j show ?thesis using rest by (simp add: reader_bit_def)
    qed
  qed
qed

lemma get_ok: "inv s \<Longrightarrow> k \<le> 16 \<Longrightarrow> unat u < 2 ^ k \<Longrightarrow> get s = (c, s') \<Longrightarrow> reader_ok (u OR push_bit k (ucast c), k + 8, s')"
proof -
  assume a: "inv s" "k \<le> 16" "unat u < 2 ^ k" "get s = (c, s')"
  have "\<not> bit (u OR push_bit k (ucast c)) j" if "k + 8 \<le> j" for j
    using a(3) bit_imp_le_length [of c "j - k"] that by (auto simp: unat_less_bits bit_or_iff bit_push_bit_iff bit_ucast_iff)
  then have "unat (u OR push_bit k (ucast c)) < 2 ^ (k + 8)" by (simp only: unat_less_bits) blast
  then show ?thesis using a(2) inv_get [OF a(1)] a(4) by (simp add: reader_ok_def)
qed

lemma need_bits_ok:
  assumes "reader_ok (u, k, s)" "n \<le> 17"
  shows "reader_ok (need_bits get n (u, k, s)) \<and> n \<le> fst (snd (need_bits get n (u, k, s))) \<and>
    reader_bit (need_bits get n (u, k, s)) = reader_bit (u, k, s)"
  using assms
proof (induction "n - k" arbitrary: u k s rule: less_induct)
  case less
  show ?case
  proof (cases "k < n")
    case True
    obtain c s' where g: "get s = (c, s')" by fastforce
    have r: "inv s" "k \<le> 16" "k \<le> 24" "unat u < 2 ^ k" using less.prems True by (simp_all add: reader_ok_def)
    have "need_bits get n (u, k, s) = need_bits get n (u OR push_bit k (ucast c), k + 8, s')"
      using True g by (subst need_bits.simps) simp
    then show ?thesis
      using less.hyps [of "k + 8", OF _ get_ok [OF r(1,2,4) g] less.prems(2)] reader_bit_refill [OF r(1,3,4) g] True by simp
  next
    case False
    then show ?thesis using less.prems by (subst (1 2 3) need_bits.simps) simp
  qed
qed

lemma dump_bits_ok:
  assumes "reader_ok (u, k, s)" "n \<le> k"
  shows "reader_ok (dump_bits n (u, k, s))" "reader_bit (dump_bits n (u, k, s)) = (\<lambda>i. reader_bit (u, k, s) (n + i))"
proof -
  have k: "k \<le> 24" "inv s" "unat u < 2 ^ k" using assms(1) by (simp_all add: reader_ok_def)
  then have m: "(k + 2 ^ 32 - n) mod 2 ^ 32 = k - n"
  proof -
    have "k + 2 ^ 32 - n = k - n + 2 ^ 32" using assms(2) by linarith
    then have "(k + 2 ^ 32 - n) mod 2 ^ 32 = (k - n) mod 2 ^ 32" by (simp only: mod_add_self2)
    also have "\<dots> = k - n" using k(1) by (intro mod_less) simp
    finally show ?thesis .
  qed
  have "\<not> bit (drop_bit n u) j" if "k - n \<le> j" for j
    using k(3) that by (simp add: unat_less_bits bit_drop_bit_eq)
  then have "unat (drop_bit n u) < 2 ^ (k - n)" by (simp only: unat_less_bits) blast
  then show "reader_ok (dump_bits n (u, k, s))" using k by (simp add: dump_bits_def reader_ok_def m del: power_numeral)
  show "reader_bit (dump_bits n (u, k, s)) = (\<lambda>i. reader_bit (u, k, s) (n + i))"
  proof
    fix i
    have "i - (k - n) = n + i - k" using assms(2) by simp
    then show "reader_bit (dump_bits n (u, k, s)) i = reader_bit (u, k, s) (n + i)"
      using assms(2) unfolding dump_bits_def reader_bit_def prod.case m by (auto simp: bit_drop_bit_eq)
  qed
qed

lemma low_bits_value:
  assumes "reader_ok (u, k, s)" "n \<le> k" "n \<le> 16"
  shows "low_bits n (u, k, s) = bits_value (reader_bit (u, k, s)) n"
proof (rule bit_eqI)
  fix j
  have "bit (low_bits n (u, k, s)) j \<longleftrightarrow> j < n \<and> bit u j"
    using assms(2,3) bit_imp_le_length [of u j] by (auto simp: low_bits_mod bit_take_bit_iff bit_unsigned_iff simp flip: take_bit_eq_mod)
  then show "bit (low_bits n (u, k, s)) j \<longleftrightarrow> bit (bits_value (reader_bit (u, k, s)) n) j"
    using assms(2) by (auto simp: bit_bits_value reader_bit_def)
qed

text \<open>
  Decoding from a reader: if the tables have an answer for the bits to come, \<open>huft_decode\<close> gives it, and it takes exactly
  the bits the answer says.
\<close>

definition decodes :: "huft option list list \<Rightarrow> nat \<Rightarrow> nat \<Rightarrow> nat \<Rightarrow> huft \<times> nat \<Rightarrow> bool" where
  "decodes tabs t n bs x \<longleftrightarrow> (\<forall>rd. reader_ok rd \<longrightarrow> (\<forall>i. i < snd x + 16 \<longrightarrow> bit bs i = reader_bit rd i) \<longrightarrow> e (fst x) \<noteq> 99 \<longrightarrow>
     (\<exists>rd'. huft_decode get tabs t n rd = Some (fst x, rd') \<and> reader_ok rd' \<and> reader_bit rd' = (\<lambda>i. reader_bit rd (snd x + i))))"

lemma huft_find_decodes: "huft_find tabs t n bs = Some x \<Longrightarrow> decodes tabs t n bs x"
proof (induction rule: huft_find.raw_induct [where P = decodes, rotated, consumes 1, case_names step])
  case (step find tabs t n bs x)
  show ?case unfolding decodes_def
  proof (intro allI impI)
    fix rd :: "'s reader"
    assume rd_ok: "reader_ok rd" and bits: "\<forall>i. i < snd x + 16 \<longrightarrow> bit bs i = reader_bit rd i" and e99: "e (fst x) \<noteq> 99"
    obtain r where r: "cell tabs t (bs mod 2 ^ n) = Some r" using step(2) by (auto split: bind_splits)
    have n: "n \<le> 16" and b: "b r \<le> n \<or> e r = 99" using step(2) r by (auto split: if_splits)
    obtain u k s where rd: "need_bits get n rd = (u, k, s)" by (metis prod_cases3)
    have ok: "reader_ok (u, k, s)" "n \<le> k" "reader_bit (u, k, s) = reader_bit rd"
      using need_bits_ok [of "fst rd" "fst (snd rd)" "snd (snd rd)" n] rd_ok n rd by auto
    have "bs mod 2 ^ n = bits_value (reader_bit rd) n"
      using bits n by (intro bit_eqI) (auto simp: bit_bits_value bit_take_bit_iff simp flip: take_bit_eq_mod)
    then have low: "low_bits n (u, k, s) = bs mod 2 ^ n" using low_bits_value [OF ok(1,2) n] ok(3) by simp
    show "\<exists>rd'. huft_decode get tabs t n rd = Some (fst x, rd') \<and> reader_ok rd' \<and> reader_bit rd' = (\<lambda>i. reader_bit rd (snd x + i))"
    proof (cases "e r > 16 \<and> e r \<noteq> 99")
      case False
      then have x: "x = (r, b r)" using step(2) r n b by (auto split: if_splits)
      then have e: "e r \<le> 16" using False e99 by auto
      with b have "b r \<le> k" using ok(2) by auto
      note dump = dump_bits_ok [OF ok(1) this]
      have "huft_decode get tabs t n rd = Some (r, dump_bits (b r) (u, k, s))"
        using n e r low rd by (subst huft_decode.simps) simp
      then show ?thesis using x dump ok(3) by simp
    next
      case True
      then obtain t' where t': "v r = T t'" using step(2) r n b by (auto split: if_splits huft_v.splits)
      obtain y where y: "find tabs t' (e r - 16) (bs div 2 ^ b r) = Some y" "x = (fst y, b r + snd y)"
        using step(2) r n b True t' by (auto split: bind_splits if_splits)
      have "b r \<le> k" using ok(2) b True by simp
      note dump = dump_bits_ok [OF ok(1) this]
      have bits': "\<forall>i. i < snd y + 16 \<longrightarrow> bit (bs div 2 ^ b r) i = reader_bit (dump_bits (b r) (u, k, s)) i"
        using bits y(2) dump(2) ok(3) by (auto simp: bit_drop_bit_eq simp flip: drop_bit_eq_div)
      have "e (fst y) \<noteq> 99" using e99 y(2) by simp
      then obtain rd' where rd': "huft_decode get tabs t' (e r - 16) (dump_bits (b r) (u, k, s)) = Some (fst y, rd')" "reader_ok rd'"
        "reader_bit rd' = (\<lambda>i. reader_bit (dump_bits (b r) (u, k, s)) (snd y + i))"
        using step(1) [OF y(1), unfolded decodes_def] dump(1) bits' by blast
      have "huft_decode get tabs t n rd = Some (fst y, rd')"
        using n True r low rd t' rd'(1) by (subst huft_decode.simps) simp
      then show ?thesis using rd' dump(2) ok(3) y(2) by (simp add: add.assoc)
    qed
  qed
qed

end

end
