(* ===== verification/GRUB_Huft_Tables.thy ===== *)
theory GRUB_Huft_Tables
  imports GRUB_Huft
begin

text \<open>
  The tables of \<open>huft_build\<close> decode the canonical code. A code is seen as a position: the codes of a complete set,
  ordered by length and then by symbol, divide the numbers below \<open>2\<^sup>g\<close> into intervals of \<open>2\<^sup>g\<^sup>-\<^sup>k\<close> numbers, \<open>k\<close>
  being the length and \<open>g\<close> the greatest length; the code word is the interval's start, cut to its first \<open>k\<close> bits.
  The program has the bits of a code in reverse, so \<open>reversed\<close> relates its codes to positions.
\<close>

section \<open>Reversed bits\<close>

fun reversed :: "nat \<Rightarrow> nat \<Rightarrow> nat" where
  "reversed 0 x = 0"
| "reversed (Suc n) x = (x mod 2) * 2 ^ n + reversed n (x div 2)"

lemma reversed_less: "reversed n x < 2 ^ n"
proof (induction n arbitrary: x)
  case (Suc n)
  have "x mod 2 = 0 \<or> x mod 2 = 1" by auto
  with Suc [of "x div 2"] show ?case by auto
qed simp

lemma reversed_add: "reversed (a + c) x = reversed a x * 2 ^ c + reversed c (x div 2 ^ a)"
  by (induction a arbitrary: x) (simp_all add: power_add algebra_simps div_mult2_eq)

lemma reversed_div [simp]: "reversed (a + c) x div 2 ^ c = reversed a x"
  using reversed_less [of c] by (simp add: reversed_add)

lemma reversed_mod [simp]: "reversed (a + c) x mod 2 ^ c = reversed c (x div 2 ^ a)"
  using reversed_less [of c] by (simp add: reversed_add)

lemma reversed_of_mod [simp]: "reversed n (x mod 2 ^ n) = reversed n x"
proof (induction n arbitrary: x)
  case (Suc n)
  have "x mod 2 ^ Suc n div 2 = x div 2 mod 2 ^ n" by (simp add: mod_mult2_eq)
  moreover have "x mod 2 ^ Suc n mod 2 = x mod 2" by (simp add: mod_mod_cancel)
  ultimately show ?case using Suc [of "x div 2"] by simp
qed simp

lemma reversed_reversed: "x < 2 ^ n \<Longrightarrow> reversed n (reversed n x) = x"
proof (induction n arbitrary: x)
  case (Suc n)
  let ?y = "reversed (Suc n) x"
  have "reversed (Suc n) ?y = reversed n ?y * 2 + ?y div 2 ^ n mod 2"
    using reversed_add [of n 1 ?y] by simp
  moreover have "?y div 2 ^ n = x mod 2" "?y mod 2 ^ n = reversed n (x div 2)"
    using reversed_less [of n] by simp_all
  moreover have "reversed n ?y = reversed n (?y mod 2 ^ n)" by (simp only: reversed_of_mod)
  moreover have "x div 2 < 2 ^ n" using Suc.prems by auto
  ultimately show ?case using Suc.IH [of "x div 2"] by (simp del: reversed.simps)
qed simp

lemma reversed_inject: "x < 2 ^ n \<Longrightarrow> y < 2 ^ n \<Longrightarrow> reversed n x = reversed n y \<longleftrightarrow> x = y"
  using reversed_reversed by metis

lemma reversed_0 [simp]: "reversed n 0 = 0"
  by (induction n) simp_all

lemma nat_bit_cases:
  fixes y :: nat
  assumes "y < 2 ^ n" "c < 2"
  shows "(c * 2 ^ n + y) AND 2 ^ n \<noteq> 0 \<longleftrightarrow> c = 1" "(c * 2 ^ n + y) XOR 2 ^ n = (1 - c) * 2 ^ n + y"
proof -
  have b: "bit (d * 2 ^ n + y) k = (if k < n then bit y k else bit d (k - n))" for d k :: nat
  proof (cases "k < n")
    case True
    then have "(d * 2 ^ n + y) mod 2 ^ n = y" "bit ((d * 2 ^ n + y) mod 2 ^ n) k = bit (d * 2 ^ n + y) k"
      using assms(1) True by (simp_all add: bit_take_bit_iff flip: take_bit_eq_mod)
        (simp_all add: take_bit_eq_mod)
    with True show ?thesis by simp
  next
    case False
    then have "(2 :: nat) ^ k = 2 ^ n * 2 ^ (k - n)" by (simp flip: power_add)
    then have "(d * 2 ^ n + y) div 2 ^ k = d div 2 ^ (k - n)"
      using assms(1) by (simp add: div_mult2_eq)
    with False show ?thesis by (simp add: bit_iff_odd)
  qed
  have p: "bit (2 ^ n :: nat) k \<longleftrightarrow> k = n" for k by (auto simp: bit_exp_iff)
  have c: "c = 0 \<or> c = 1" using assms(2) by auto
  have s: "bit (Suc 0) k \<longleftrightarrow> k = 0" for k using bit_1_iff [where ?'a = nat, of k] by simp
  have y: "\<not> bit y n" using assms(1) by (simp add: bit_iff_odd)
  show "(c * 2 ^ n + y) XOR 2 ^ n = (1 - c) * 2 ^ n + y"
    using c by (intro bit_eqI) (auto simp: bit_xor_iff b p s split: if_splits)
  have "(c * 2 ^ n + y) AND 2 ^ n = c * 2 ^ n"
    using c b [of 0] b [of 1] y by (intro bit_eqI) (auto simp: bit_and_iff b [of c] p s split: if_splits)
  then show "(c * 2 ^ n + y) AND 2 ^ n \<noteq> 0 \<longleftrightarrow> c = 1" using c by auto
qed

lemma increment_reversed: "0 < k \<Longrightarrow> x < 2 ^ k \<Longrightarrow> increment (2 ^ (k - 1)) (reversed k x) = reversed k ((x + 1) mod 2 ^ k)"
proof (induction k arbitrary: x)
  case (Suc n)
  let ?y = "reversed n (x div 2)"
  note n = nat_bit_cases [of ?y n "x mod 2", OF reversed_less]
  show ?case
  proof (cases "even x")
    case True
    then have "x + 1 < 2 ^ Suc n" using Suc.prems(2) by (metis Suc_eq_plus1 Suc_lessI dvd_triv_left even_Suc power_Suc)
    moreover have "(x + 1) mod 2 = 1" using True by presburger
    ultimately have "reversed (Suc n) ((x + 1) mod 2 ^ Suc n) = 2 ^ n + ?y" using True by simp
    moreover have "increment (2 ^ n) (reversed (Suc n) x) = 2 ^ n + ?y"
      using True n by (subst increment.simps) simp
    ultimately show ?thesis by simp
  next
    case False
    then have m: "x mod 2 = 1" by presburger
    have i: "increment (2 ^ n) (reversed (Suc n) x) = increment (2 ^ n div 2) ?y"
      using m n by (subst increment.simps) simp
    have s: "(x + 1) mod 2 ^ Suc n mod 2 = 0" "(x + 1) mod 2 ^ Suc n div 2 = (x div 2 + 1) mod 2 ^ n"
    proof -
      have "(x + 1) mod 2 = 0" "(x + 1) div 2 = x div 2 + 1" using m by presburger+
      then show "(x + 1) mod 2 ^ Suc n mod 2 = 0" "(x + 1) mod 2 ^ Suc n div 2 = (x div 2 + 1) mod 2 ^ n"
        by (simp_all add: mod_mod_cancel mod_mult2_eq)
    qed
    show ?thesis
    proof (cases n)
      case 0
      then show ?thesis using i s by (simp add: increment.simps)
    next
      case (Suc n')
      have "x div 2 < 2 ^ n" using Suc.prems(2) by auto
      with Suc.IH [of "x div 2"] Suc have "increment (2 ^ n div 2) ?y = reversed n ((x div 2 + 1) mod 2 ^ n)" by simp
      with i s show ?thesis by simp
    qed
  qed
qed simp

lemma reversed_shifted [simp]: "reversed (n + d) (y * 2 ^ d) = reversed n y"
proof -
  have "reversed d (y * 2 ^ d) = 0" using reversed_of_mod [of d "y * 2 ^ d"] by simp
  then show ?thesis using reversed_add [of d n "y * 2 ^ d"] by (simp add: add.commute)
qed

section \<open>Complete sets of code lengths\<close>

definition start :: "nat \<Rightarrow> nat list \<Rightarrow> nat \<Rightarrow> nat" where
  "start g ks m = (\<Sum>k\<leftarrow>take m ks. 2 ^ (g - k))"

definition complete :: "nat \<Rightarrow> nat list \<Rightarrow> bool" where
  "complete g ks \<longleftrightarrow> sorted ks \<and> (\<forall>k\<in>set ks. 0 < k \<and> k \<le> g) \<and> start g ks (length ks) = 2 ^ g"

lemma start_0 [simp]: "start g ks 0 = 0"
  by (simp add: start_def)

lemma start_Suc: "m < length ks \<Longrightarrow> start g ks (Suc m) = start g ks m + 2 ^ (g - ks ! m)"
  by (simp add: start_def take_Suc_conv_app_nth)

lemma start_mono: "m \<le> m' \<Longrightarrow> start g ks m \<le> start g ks m'"
  by (auto simp: start_def le_iff_add take_add)

lemma start_le: "complete g ks \<Longrightarrow> m \<le> length ks \<Longrightarrow> start g ks m \<le> 2 ^ g"
  using start_mono [of m "length ks" g ks] by (simp add: complete_def)

lemma start_less: "complete g ks \<Longrightarrow> m < length ks \<Longrightarrow> start g ks m < 2 ^ g"
proof -
  assume a: "complete g ks" "m < length ks"
  have "(0 :: nat) < 2 ^ (g - ks ! m)" by simp
  then show ?thesis using start_le [of g ks "Suc m"] start_Suc [of m ks g] a by linarith
qed

lemma complete_nth: "complete g ks \<Longrightarrow> m < length ks \<Longrightarrow> 0 < ks ! m \<and> ks ! m \<le> g"
  by (simp add: complete_def)

lemma complete_sorted: "complete g ks \<Longrightarrow> m \<le> m' \<Longrightarrow> m' < length ks \<Longrightarrow> ks ! m \<le> ks ! m'"
  by (simp add: complete_def sorted_nth_mono)

lemma start_dvd:
  assumes "complete g ks" "m < length ks" "n \<le> Suc m"
  shows "2 ^ (g - ks ! m) dvd start g ks n"
  using assms(3)
proof (induction n)
  case (Suc n)
  then have "2 ^ (g - ks ! m) dvd (2 :: nat) ^ (g - ks ! n)"
    using complete_sorted [OF assms(1), of n m] assms(2) by (intro le_imp_power_dvd) simp
  with Suc assms(2) show ?case by (simp add: start_Suc)
qed simp

lemma start_find: "y < start g ks n \<Longrightarrow> n \<le> length ks \<Longrightarrow> \<exists>m<n. start g ks m \<le> y \<and> y < start g ks (Suc m)"
proof (induction n)
  case (Suc n)
  then show ?case by (cases "y < start g ks n") (auto intro: less_SucI)
qed simp

lemma in_code:
  assumes "complete g ks" "m < length ks"
  shows "y div 2 ^ (g - ks ! m) = start g ks m div 2 ^ (g - ks ! m) \<longleftrightarrow> start g ks m \<le> y \<and> y < start g ks (Suc m)"
proof -
  obtain q where q: "start g ks m = 2 ^ (g - ks ! m) * q" using start_dvd [OF assms, of m] by auto
  moreover have "y div 2 ^ (g - ks ! m) = q \<longleftrightarrow> 2 ^ (g - ks ! m) * q \<le> y \<and> y < 2 ^ (g - ks ! m) * q + 2 ^ (g - ks ! m)"
    by (auto simp: div_nat_eqI mult.commute) (metis add.commute dividend_less_times_div zero_less_numeral zero_less_power)
  ultimately show ?thesis using assms(2) by (simp add: start_Suc)
qed

lemma start_inject: "start g ks m \<le> y \<Longrightarrow> y < start g ks (Suc m) \<Longrightarrow> start g ks m' \<le> y \<Longrightarrow> y < start g ks (Suc m') \<Longrightarrow> m = m'"
  by (metis not_less_eq_eq order.strict_trans1 order_le_less_trans linorder_neqE_nat Suc_leI start_mono not_le)

section \<open>The size of a table\<close>

definition codes_upto :: "nat list \<Rightarrow> nat \<Rightarrow> nat" where
  "codes_upto ks k = length (filter (\<lambda>j. j \<le> k) ks)"

lemma codes_upto_le: "codes_upto ks k \<le> length ks"
  by (simp add: codes_upto_def)

lemma codes_upto_nth: "sorted ks \<Longrightarrow> m < length ks \<Longrightarrow> ks ! m \<le> k \<longleftrightarrow> m < codes_upto ks k"
proof (induction ks arbitrary: m)
  case (Cons x ks)
  show ?case
  proof (cases "x \<le> k")
    case True
    with Cons show ?thesis by (cases m) (auto simp: codes_upto_def)
  next
    case False
    then have "filter (\<lambda>j. j \<le> k) (x # ks) = []" using Cons.prems(1) by (auto simp: filter_empty_conv)
    moreover have "\<not> (x # ks) ! m \<le> k" using False Cons.prems
      by (cases m) (simp_all, metis le_trans nth_mem)
    ultimately show ?thesis unfolding codes_upto_def by simp
  qed
qed simp

lemma codes_upto_Suc: "codes_upto ks (Suc k) = codes_upto ks k + count_list ks (Suc k)"
  by (induction ks) (auto simp: codes_upto_def le_Suc_eq)

lemma start_same:
  assumes "n \<le> n'" "n' \<le> length ks" "\<And>i. n \<le> i \<Longrightarrow> i < n' \<Longrightarrow> ks ! i = k"
  shows "start g ks n' = start g ks n + (n' - n) * 2 ^ (g - k)"
  using assms
proof (induction n' rule: dec_induct)
  case (step i)
  then show ?case by (simp add: start_Suc Suc_diff_le)
qed simp

lemma start_upto_Suc:
  assumes "sorted ks"
  shows "start g ks (codes_upto ks (Suc k)) = start g ks (codes_upto ks k) + count_list ks (Suc k) * 2 ^ (g - Suc k)"
proof -
  have "ks ! i = Suc k" if "codes_upto ks k \<le> i" "i < codes_upto ks (Suc k)" for i
    using that codes_upto_nth [OF assms, of i k] codes_upto_nth [OF assms, of i "Suc k"] codes_upto_le [of ks "Suc k"] by simp
  then have "start g ks (codes_upto ks (Suc k)) = start g ks (codes_upto ks k) +
      (codes_upto ks (Suc k) - codes_upto ks k) * 2 ^ (g - Suc k)"
    by (intro start_same codes_upto_le) (simp_all add: codes_upto_Suc)
  then show ?thesis by (simp add: codes_upto_Suc)
qed

lemma start_upto_same:
  assumes "complete g ks" "m < length ks" "ks ! m = k" "m + a + 1 = codes_upto ks k"
  shows "start g ks (codes_upto ks k) = start g ks m + (a + 1) * 2 ^ (g - k)"
proof -
  have s: "sorted ks" using assms(1) by (simp add: complete_def)
  have "ks ! i = k" if "m \<le> i" "i < codes_upto ks k" for i
    using that codes_upto_nth [OF s, of i k] codes_upto_le [of ks k] complete_sorted [OF assms(1) that(1)] assms(3) by auto
  then have "start g ks (codes_upto ks k) = start g ks m + (codes_upto ks k - m) * 2 ^ (g - k)"
    using assms(4) by (intro start_same codes_upto_le) simp_all
  moreover have "codes_upto ks k - m = a + 1" using assms(4) by simp
  ultimately show ?thesis by simp
qed

lemma start_upto_top: "complete g ks \<Longrightarrow> g \<le> k \<Longrightarrow> start g ks (codes_upto ks k) = 2 ^ g"
proof -
  assume a: "complete g ks" "g \<le> k"
  then have "filter (\<lambda>j. j \<le> k) ks = ks" by (auto simp: complete_def filter_id_conv)
  with a show ?thesis by (simp add: codes_upto_def complete_def)
qed

definition sized :: "nat \<Rightarrow> nat \<Rightarrow> nat list \<Rightarrow> nat \<Rightarrow> nat \<Rightarrow> nat \<Rightarrow> bool" where
  "sized g l ks w \<beta> j \<longleftrightarrow> (\<forall>m<length ks. start g ks m div 2 ^ (g - w) = \<beta> \<longrightarrow> ks ! m \<le> w + j \<or> l \<le> j)"

lemma smaller_covers:
  assumes "complete g ks" "\<And>i. 0 < i \<Longrightarrow> i \<le> g \<Longrightarrow> c ! i = count_list ks i" "k = w + j" "z \<le> g - w"
    "E = start g ks (codes_upto ks k) + f * 2 ^ (g - k)" "E \<le> 2 ^ g" "k \<le> g"
  shows "(E \<le> start g ks (codes_upto ks (w + smaller c k z j f)) \<or> z \<le> smaller c k z j f) \<and> smaller c k z j f \<le> max z (j + 1) \<and>
    j < smaller c k z j f"
  using assms
proof (induction c k z j f rule: smaller.induct)
  case (1 c k z j f)
  show ?case
  proof (cases "j + 1 < z")
    case False
    then show ?thesis by (subst (1 2 3 4) smaller.simps) simp
  next
    case True
    then have k: "Suc k \<le> g" using "1.prems" by simp
    have s: "sorted ks" using "1.prems"(1) by (simp add: complete_def)
    let ?c = "count_list ks (Suc k)"
    have c: "c ! (k + 1) = ?c" using "1.prems"(2) [OF _ k] by simp
    have "2 ^ (g - k) = (2 :: nat) * 2 ^ (g - Suc k)" using k by (simp add: Suc_diff_Suc flip: power_Suc)
    then have E: "E + ?c * 2 ^ (g - Suc k) = start g ks (codes_upto ks (Suc k)) + 2 * f * 2 ^ (g - Suc k)"
      using "1.prems"(5) by (simp add: start_upto_Suc [OF s])
    show ?thesis
    proof (cases "2 * f \<le> ?c")
      case f: True
      then have "2 * f * 2 ^ (g - Suc k) \<le> ?c * 2 ^ (g - Suc k)" by simp
      with E have "E \<le> start g ks (codes_upto ks (Suc k))" by linarith
      then show ?thesis using True f c "1.prems"(3) by (subst (1 2 3 4) smaller.simps) simp
    next
      case f: False
      then have "2 * f * 2 ^ (g - Suc k) = ?c * 2 ^ (g - Suc k) + (2 * f - ?c) * 2 ^ (g - Suc k)"
        by (simp flip: add_mult_distrib)
      with E have "E = start g ks (codes_upto ks (k + 1)) + (2 * f - c ! (k + 1)) * 2 ^ (g - (k + 1))" unfolding c by simp
      from "1.IH" [OF True _ "1.prems"(1,2) _ "1.prems"(4) this "1.prems"(6)] f c k "1.prems"(3) True
      show ?thesis by (subst (1 2 3 4) smaller.simps) auto
    qed
  qed
qed

text \<open>The end of the block of the codes that share the first \<open>w\<close> bits with code \<open>m\<close>, the first one of them.\<close>

lemma block_end:
  assumes "complete g ks" "m < length ks" "w < ks ! m" "2 ^ (g - w) dvd start g ks m"
  shows "start g ks m + 2 ^ (g - w) \<le> 2 ^ g"
proof -
  have "w \<le> g" using complete_nth [OF assms(1,2)] assms(3) by simp
  then have "2 ^ (g - w) dvd (2 :: nat) ^ g" by (simp add: le_imp_power_dvd)
  with assms(4) obtain x y where "start g ks m = 2 ^ (g - w) * x" "2 ^ g = 2 ^ (g - w) * (y :: nat)" by (auto elim!: dvdE)
  then show ?thesis using start_less [OF assms(1,2)] by (metis Suc_leI mult_Suc_right add.commute mult_less_cancel1 mult_le_mono2)
qed

lemma covered_sized:
  assumes "complete g ks" "w \<le> g" "2 ^ (g - w) dvd p"
    "p + 2 ^ (g - w) \<le> start g ks (codes_upto ks (w + j)) \<or> min (g - w) l \<le> j"
  shows "sized g l ks w (p div 2 ^ (g - w)) j"
  unfolding sized_def
proof (intro allI impI)
  fix n
  assume n: "n < length ks" and b: "start g ks n div 2 ^ (g - w) = p div 2 ^ (g - w)"
  have "start g ks n < p + 2 ^ (g - w)"
    using b assms(3) by (metis dvd_div_mult_self dividend_less_div_times zero_less_numeral zero_less_power add.commute)
  moreover have "ks ! n \<le> g" using complete_nth [OF assms(1) n] by simp
  moreover have "ks ! n \<le> w + j" if "start g ks n < start g ks (codes_upto ks (w + j))"
    using that start_mono [of "codes_upto ks (w + j)" n g ks] codes_upto_nth [of ks n "w + j"] n assms(1)
    by (auto simp: complete_def)
  ultimately show "ks ! n \<le> w + j \<or> l \<le> j" using assms(2,4) by auto
qed

lemma table_bits_covers:
  fixes l :: nat
  assumes "complete g ks" "\<And>i. 0 < i \<Longrightarrow> i \<le> g \<Longrightarrow> c ! i = count_list ks i" "m < length ks" "m + a + 1 = codes_upto ks (ks ! m)"
    "w < ks ! m" "2 ^ (g - w) dvd start g ks m"
  defines "j \<equiv> table_bits c l g w (ks ! m) a"
  shows "start g ks m + 2 ^ (g - w) \<le> start g ks (codes_upto ks (w + j)) \<or> min (g - w) l \<le> j" (is ?covers)
    "ks ! m \<le> w + j" (is ?long)
    "j \<le> max (min (g - w) l) (ks ! m - w + 1)" (is ?bound)
    "ks ! m = g \<longrightarrow> j = g - w" (is ?last)
proof -
  let ?k = "ks ! m" and ?p = "start g ks m" and ?E = "start g ks m + 2 ^ (g - w)"
  have k: "?k \<le> g" using complete_nth [OF assms(1,3)] by simp
  have pow: "2 ^ (?k - w) * 2 ^ (g - ?k) = (2 :: nat) ^ (g - w)" using k assms(5) by (simp flip: power_add)
  have u: "start g ks (codes_upto ks ?k) = ?p + (a + 1) * 2 ^ (g - ?k)"
    using start_upto_same [OF assms(1,3) refl assms(4)] .
  have E: "?E \<le> 2 ^ g" using block_end [OF assms(1,3,5,6)] .
  have "?covers \<and> ?long \<and> ?bound \<and> ?last"
  proof (cases "2 ^ (?k - w) > a + 1")
    case False
    then have j: "j = ?k - w" by (simp add: j_def table_bits_def Let_def)
    have "2 ^ (?k - w) * 2 ^ (g - ?k) \<le> (a + 1) * 2 ^ (g - ?k)" using False by (intro mult_le_mono1) simp
    then show ?thesis using j u pow assms(5) by (simp_all add: le_max_iff_disj)
  next
    case True
    then have j: "j = smaller c ?k (min (g - w) l) (?k - w) (2 ^ (?k - w) - (a + 1))"
      by (simp add: j_def table_bits_def Let_def)
    have "(a + 1) * 2 ^ (g - ?k) + (2 ^ (?k - w) - (a + 1)) * 2 ^ (g - ?k) = 2 ^ (?k - w) * 2 ^ (g - ?k)"
      using True by (simp del: add_Suc_right flip: add_mult_distrib)
    then have e: "?E = start g ks (codes_upto ks ?k) + (2 ^ (?k - w) - (a + 1)) * 2 ^ (g - ?k)" using u pow by linarith
    have z: "min (g - w) l \<le> g - w" by simp
    have w: "?k = w + (?k - w)" using assms(5) by simp
    note s = smaller_covers [OF assms(1,2) w z e E k, folded j]
    have "?k \<noteq> g"
    proof
      assume "?k = g"
      then have "start g ks (codes_upto ks ?k) = 2 ^ g" using start_upto_top [OF assms(1), of g] by simp
      with e E True show False by simp
    qed
    with s w show ?thesis by auto
  qed
  then show ?covers ?long ?bound ?last by blast+
qed

lemma table_bits_sub:
  assumes "complete g ks" "\<And>i. 0 < i \<Longrightarrow> i \<le> g \<Longrightarrow> c ! i = count_list ks i" "m < length ks" "m + a + 1 = codes_upto ks (ks ! m)"
    "w < ks ! m" "2 ^ (g - w) dvd start g ks m" "0 < w" "l \<le> w" "g < 2 * l \<or> length ks \<le> 2 ^ l"
  shows "table_bits c l g w (ks ! m) a \<le> l" "w + table_bits c l g w (ks ! m) a \<le> g"
proof -
  let ?k = "ks ! m" and ?p = "start g ks m" and ?j = "table_bits c l g w (ks ! m) a"
  have k: "?k \<le> g" using complete_nth [OF assms(1,3)] by simp
  have "?k - w < l"
  proof (cases "g < 2 * l")
    case True
    then show ?thesis using k assms(8) by simp
  next
    case False
    have each: "start g ks n \<le> start g ks m + (n - m) * 2 ^ (g - ?k)" if "m \<le> n" "n \<le> length ks" for n
      using that
    proof (induction n rule: dec_induct)
      case (step i)
      have "(2 :: nat) ^ (g - ks ! i) \<le> 2 ^ (g - ?k)" using complete_sorted [OF assms(1), of m i] step by (simp add: diff_le_mono2)
      with step show ?case by (simp add: start_Suc Suc_diff_le add_mono del: power_increasing_iff)
    qed simp
    have "2 ^ g \<le> ?p + (length ks - m) * 2 ^ (g - ?k)"
      using each [of "length ks"] assms(1,3) by (simp add: complete_def)
    then have r: "2 ^ (g - w) \<le> (length ks - m) * 2 ^ (g - ?k)" "m = 0 \<Longrightarrow> 2 ^ g \<le> length ks * 2 ^ (g - ?k)"
      using block_end [OF assms(1,3,5,6)] by (auto split: if_splits)
    have pow: "2 ^ (g - w) = 2 ^ (?k - w) * (2 :: nat) ^ (g - ?k)" "2 ^ g = 2 ^ ?k * (2 :: nat) ^ (g - ?k)"
      using k assms(5) by (simp_all flip: power_add)
    have "2 ^ (?k - w) < length ks"
    proof (cases "m = 0")
      case True
      have "(2 :: nat) ^ (?k - w) < 2 ^ ?k" using assms(5,7) by simp
      moreover have "2 ^ ?k \<le> length ks" using r(2) [OF True] pow(2) by simp
      ultimately show ?thesis by (rule order.strict_trans2)
    next
      case False
      moreover have "2 ^ (?k - w) \<le> length ks - m" using r(1) pow(1) by simp
      ultimately show ?thesis using assms(3) by simp
    qed
    moreover have "length ks \<le> 2 ^ l" using assms(9) False by simp
    ultimately have "(2 :: nat) ^ (?k - w) < 2 ^ l" by (rule order.strict_trans2)
    then show ?thesis by simp
  qed
  note l = this
  note covers = table_bits_covers(3,4) [OF assms(1,2,3,4,5,6), of l]
  have "?j \<le> l \<and> w + ?j \<le> g"
  proof (cases "?k = g")
    case True
    then show ?thesis using covers(2) l assms(5) by auto
  next
    case False
    then show ?thesis using covers(1) l k assms(5) by (auto simp: max_def min_def split: if_splits)
  qed
  then show "?j \<le> l" "w + ?j \<le> g" by blast+
qed

end
