(* ===== verification/GRUB_Huft_Decode.thy ===== *)
theory GRUB_Huft_Decode
  imports GRUB_Huft_Tables
begin

text \<open>
  The construction's invariant, and what it gives: the tables decode. A table is described by the number \<open>w\<close> of bits
  that lead to it, those bits \<open>\<beta>\<close> as a position, and its size \<open>j\<close>. A cell \<open>J\<close> of it stands for the positions whose
  first \<open>w + min j l\<close> bits are \<open>\<beta>\<close> followed by those of \<open>J\<close> in reverse. The cells that end at or before the position
  the construction has reached hold the right entry; the tables whose positions include it are those on the stack.
\<close>

section \<open>The invariant\<close>

definition good_cell :: "nat \<Rightarrow> nat \<Rightarrow> nat list \<Rightarrow> (nat \<Rightarrow> nat \<times> huft_v) \<Rightarrow> nat \<Rightarrow> (nat \<times> nat \<times> nat) list \<Rightarrow>
    nat \<Rightarrow> nat \<Rightarrow> nat \<Rightarrow> nat \<Rightarrow> huft option \<Rightarrow> bool" where
  "good_cell g l ks val off D w \<beta> j J x \<longleftrightarrow>
     (\<exists>m<length ks. w < ks ! m \<and> ks ! m \<le> w + min j l \<and>
        start g ks m div 2 ^ (g - ks ! m) = (\<beta> * 2 ^ min j l + reversed (min j l) J) div 2 ^ (w + min j l - ks ! m) \<and>
        x = Some \<lparr>e = fst (val m), b = ks ! m - w, v = snd (val m)\<rparr>) \<or>
     (\<exists>t<length D. \<exists>j2. l \<le> j \<and> D ! t = (w + l, \<beta> * 2 ^ l + reversed l J, j2) \<and>
        x = Some \<lparr>e = 16 + j2, b = l, v = T (off + t)\<rparr>)"

definition table_ok :: "nat \<Rightarrow> nat \<Rightarrow> nat list \<Rightarrow> (nat \<Rightarrow> nat \<times> huft_v) \<Rightarrow> nat \<Rightarrow> (nat \<times> nat \<times> nat) list \<Rightarrow> nat \<Rightarrow>
    nat \<times> nat \<times> nat \<Rightarrow> huft option list \<Rightarrow> bool" where
  "table_ok g l ks val off D p = (\<lambda>(w, \<beta>, j) tab. length tab = 2 ^ j \<and> 0 < j \<and> w + min j l \<le> g \<and> \<beta> < 2 ^ w \<and>
     (0 < w \<longrightarrow> j \<le> l) \<and> sized g l ks w \<beta> j \<and>
     (\<forall>J<2 ^ min j l. (\<beta> * 2 ^ min j l + reversed (min j l) J + 1) * 2 ^ (g - (w + min j l)) \<le> p \<longrightarrow>
        good_cell g l ks val off D w \<beta> j J (tab ! J)))"

definition tables_ok :: "nat \<Rightarrow> nat \<Rightarrow> nat list \<Rightarrow> (nat \<Rightarrow> nat \<times> huft_v) \<Rightarrow> nat \<Rightarrow> (nat \<times> nat \<times> nat) list \<Rightarrow> nat \<Rightarrow>
    huft option list list \<Rightarrow> bool" where
  "tables_ok g l ks val off D p ts \<longleftrightarrow> length ts = length D \<and> (\<forall>t<length D. table_ok g l ks val off D p (D ! t) (ts ! t)) \<and>
     (D = [] \<or> (\<exists>j. D ! 0 = (0, 0, j)))"

definition linked :: "nat \<Rightarrow> nat \<Rightarrow> (nat \<times> nat \<times> nat) list \<Rightarrow> huft option list list \<Rightarrow> nat \<Rightarrow> nat \<Rightarrow> bool" where
  "linked l off D ts u t \<longleftrightarrow> (\<exists>w \<beta> j J j2. D ! u = (w, \<beta>, j) \<and> l \<le> j \<and> J < 2 ^ l \<and>
     D ! t = (w + l, \<beta> * 2 ^ l + reversed l J, j2) \<and> ts ! u ! J = Some \<lparr>e = 16 + j2, b = l, v = T (off + t)\<rparr>)"

fun stack_ok :: "nat \<Rightarrow> nat \<Rightarrow> nat \<Rightarrow> (nat \<times> nat \<times> nat) list \<Rightarrow> nat \<Rightarrow> huft option list list \<Rightarrow> nat list \<Rightarrow> bool" where
  "stack_ok g l off D p ts [] \<longleftrightarrow> True"
| "stack_ok g l off D p ts [t] \<longleftrightarrow> t < length D \<and> (\<exists>j. D ! t = (0, 0, j))"
| "stack_ok g l off D p ts (t # u # us) \<longleftrightarrow> t < length D \<and>
     (\<exists>j. D ! t = (l * Suc (length us), p div 2 ^ (g - l * Suc (length us)), j)) \<and>
     linked l off D ts u t \<and> stack_ok g l off D p ts (u # us)"

definition frame :: "nat \<Rightarrow> (nat \<times> nat \<times> nat) list \<Rightarrow> nat \<Rightarrow> nat \<times> nat" where
  "frame off D t = (off + t, reversed (fst (D ! t)) (fst (snd (D ! t))))"

definition building :: "nat \<Rightarrow> nat \<Rightarrow> nat list \<Rightarrow> (nat \<Rightarrow> nat \<times> huft_v) \<Rightarrow> huft option list list \<Rightarrow>
    (nat \<times> nat \<times> nat) list \<Rightarrow> nat list \<Rightarrow> huft option list list \<Rightarrow> nat \<Rightarrow> build \<Rightarrow> bool" where
  "building g l ks val store D us ts m s \<longleftrightarrow> tables s = store @ ts \<and>
     tables_ok g l ks val (length store) D (start g ks m) ts \<and>
     stack s = map (frame (length store) D) us \<and>
     stack_ok g l (length store) D (start g ks m) ts us \<and>
     (\<forall>t<length D. t \<notin> set us \<longrightarrow> (fst (snd (D ! t)) + 1) * 2 ^ (g - fst (D ! t)) \<le> start g ks m) \<and>
     2 ^ (g - l * length us) dvd start g ks m \<and>
     (us \<noteq> [] \<longrightarrow> l * (length us - 1) < ks ! m) \<and>
     (us \<noteq> [] \<longrightarrow> ks ! m \<le> l * length us \<longrightarrow> q_ptr s = length store + hd us \<and> z_size s = 2 ^ snd (snd (D ! hd us))) \<and>
     i_code s = reversed g (start g ks m) \<and> p_val s = m \<and> (D = [] \<longleftrightarrow> us = [])"

lemma good_cell_append: "good_cell g l ks val off D w \<beta> j J x \<Longrightarrow> good_cell g l ks val off (D @ E) w \<beta> j J x"
  unfolding good_cell_def by (fastforce simp: nth_append)

lemma table_ok_append: "table_ok g l ks val off D p d tab \<Longrightarrow> table_ok g l ks val off (D @ E) p d tab"
  unfolding table_ok_def using good_cell_append by (fastforce split: prod.splits)

lemma stack_ok_hd:
  assumes "stack_ok g l off D p ts (u # us)" "p < 2 ^ g"
  obtains j where "u < length D" "D ! u = (l * length us, p div 2 ^ (g - l * length us), j)"
  using assms by (cases us) auto

lemma stack_ok_Cons: "stack_ok g l off D p ts (u # us) \<Longrightarrow> stack_ok g l off D p ts us"
  by (cases us) auto

lemma stack_ok_depth:
  "stack_ok g l off D p ts us \<Longrightarrow> p < 2 ^ g \<Longrightarrow> 0 < l \<Longrightarrow> t \<in> set us \<Longrightarrow> t < length D \<and> fst (D ! t) < l * length us"
proof (induction us)
  case (Cons u us)
  obtain j where "u < length D" "D ! u = (l * length us, p div 2 ^ (g - l * length us), j)"
    using stack_ok_hd [OF Cons.prems(1,2)] .
  moreover have "t \<noteq> u \<Longrightarrow> t < length D \<and> fst (D ! t) < l * length us"
    using Cons.IH [OF stack_ok_Cons [OF Cons.prems(1)] Cons.prems(2,3)] Cons.prems(4) by simp
  ultimately show ?case using Cons.prems(3) by (cases "t = u") auto
qed simp

lemma stack_ok_block:
  "stack_ok g l off D p ts us \<Longrightarrow> p < 2 ^ g \<Longrightarrow> t \<in> set us \<Longrightarrow>
    fst (D ! t) \<le> l * (length us - 1) \<and> fst (snd (D ! t)) = p div 2 ^ (g - fst (D ! t))"
proof (induction us)
  case (Cons u us)
  obtain j where u: "D ! u = (l * length us, p div 2 ^ (g - l * length us), j)" using stack_ok_hd [OF Cons.prems(1,2)] by blast
  show ?case
  proof (cases "t = u")
    case False
    then have "fst (D ! t) \<le> l * (length us - 1) \<and> fst (snd (D ! t)) = p div 2 ^ (g - fst (D ! t))"
      using Cons.IH [OF stack_ok_Cons [OF Cons.prems(1)] Cons.prems(2)] Cons.prems(3) by simp
    moreover have "l * (length us - 1) \<le> l * length us" by simp
    ultimately show ?thesis by (metis diff_Suc_1 length_Cons order.trans)
  qed (simp add: u)
qed simp

lemma linked_cong:
  assumes "linked l off D ts u t" "u < length D" "t < length D" "ts' ! u = ts ! u"
  shows "linked l off (D @ E) ts' u t"
  using assms unfolding linked_def by (auto simp: nth_append)

lemma stack_ok_cong:
  assumes "stack_ok g l off D p ts us" "\<And>t. t \<in> set (tl us) \<Longrightarrow> ts' ! t = ts ! t"
  shows "stack_ok g l off (D @ E) p ts' us"
  using assms
proof (induction us rule: induct_list012)
  case (3 t u us)
  from 3(3) have a: "t < length D" "\<exists>j. D ! t = (l * Suc (length us), p div 2 ^ (g - l * Suc (length us)), j)"
    "linked l off D ts u t" "stack_ok g l off D p ts (u # us)" by auto
  then have "u < length D" by (cases us) auto
  with a linked_cong [OF a(3)] 3(4) have "linked l off (D @ E) ts' u t" by simp
  moreover have "stack_ok g l off (D @ E) p ts' (u # us)" using 3(2) [OF a(4)] 3(4) by simp
  ultimately show ?case using a by (auto simp: nth_append)
qed (auto simp: nth_append)

lemma frame_append: "t < length D \<Longrightarrow> frame off (D @ E) t = frame off D t"
  by (simp add: frame_def nth_append)

section \<open>Adding a table\<close>

lemma prefix_less: "p < 2 ^ g \<Longrightarrow> w \<le> g \<Longrightarrow> p div 2 ^ (g - w) < (2 :: nat) ^ w"
  by (simp add: less_mult_imp_div_less flip: power_add)

lemma prefix_prefix: "w' \<le> w \<Longrightarrow> w \<le> g \<Longrightarrow> p div 2 ^ (g - w') = p div 2 ^ (g - w) div (2 :: nat) ^ (w - w')"
  by (simp flip: div_mult2_eq power_add)

lemma reversed_prefix: "w \<le> g \<Longrightarrow> 2 ^ (g - w) dvd p \<Longrightarrow> reversed g p = reversed w (p div 2 ^ (g - w))"
  using reversed_shifted [of w "g - w" "p div 2 ^ (g - w)"] by simp

lemma link_index:
  assumes "w + l \<le> g" "2 ^ (g - (w + l)) dvd p"
  shows "reversed g p div 2 ^ w < 2 ^ l"
    "p div 2 ^ (g - w) * 2 ^ l + reversed l (reversed g p div 2 ^ w) = p div 2 ^ (g - (w + l))"
proof -
  let ?P = "p div 2 ^ (g - (w + l))"
  have J: "reversed g p div 2 ^ w = reversed l ?P"
    using reversed_prefix [OF assms] reversed_div [of l w ?P] by (simp add: add.commute)
  then show "reversed g p div 2 ^ w < 2 ^ l" by (simp add: reversed_less)
  have "reversed l (reversed l ?P) = ?P mod 2 ^ l"
    using reversed_reversed [of "?P mod 2 ^ l" l] by simp
  moreover have "p div 2 ^ (g - w) = ?P div 2 ^ l"
    using prefix_prefix [of w "w + l" g p] assms(1) by simp
  ultimately show "p div 2 ^ (g - w) * 2 ^ l + reversed l (reversed g p div 2 ^ w) = ?P"
    unfolding J by (simp only: div_mult_mod_eq)
qed

lemma new_table_ok:
  assumes "complete g ks" "\<And>i. 0 < i \<Longrightarrow> i \<le> g \<Longrightarrow> c ! i = count_list ks i" "m < length ks" "m + a + 1 = codes_upto ks (ks ! m)"
    "w < ks ! m" "2 ^ (g - w) dvd start g ks m" "w = 0 \<or> l \<le> w" "g < 2 * l \<or> length ks \<le> 2 ^ l" "l \<le> g"
    "j = table_bits c l g w (ks ! m) a"
  shows "table_ok g l ks val off D (start g ks m) (w, start g ks m div 2 ^ (g - w), j) (replicate (2 ^ j) None)"
proof -
  let ?p = "start g ks m"
  have w: "w \<le> g" using complete_nth [OF assms(1,3)] assms(5) by simp
  have sub: "j \<le> l" "w + j \<le> g" if "0 < w"
    using table_bits_sub [OF assms(1-6) that _ assms(8)] assms(7,10) that by auto
  have depth: "w + min j l \<le> g" using sub assms(9) by (cases "w = 0") auto
  have "sized g l ks w (?p div 2 ^ (g - w)) j"
    using covered_sized [OF assms(1) w assms(6) table_bits_covers(1) [OF assms(1-6)]] assms(10) by simp
  moreover have False if "(?p div 2 ^ (g - w) * 2 ^ min j l + r + 1) * 2 ^ (g - (w + min j l)) \<le> ?p" for r
  proof -
    have "(2 :: nat) ^ min j l * 2 ^ (g - (w + min j l)) = 2 ^ (g - w)" using depth by (simp flip: power_add)
    then have "?p div 2 ^ (g - w) * 2 ^ min j l * 2 ^ (g - (w + min j l)) = ?p" using assms(6) by (simp add: mult.assoc)
    moreover have "(0 :: nat) < 2 ^ (g - (w + min j l))" by simp
    ultimately show False using that by (simp add: add_mult_distrib)
  qed
  moreover have "0 < j" using table_bits_covers(2) [OF assms(1-6), of l] assms(5,10) by (cases j) auto
  ultimately show ?thesis
    unfolding table_ok_def using depth sub prefix_less [OF start_less [OF assms(1,3)] w] by auto
qed

lemma parent_ok:
  assumes ok: "table_ok g l ks val off D p (w, p div 2 ^ (g - w), j) tab"
    and k: "p = start g ks m" "m < length ks" "w + l < ks ! m" and g: "w + l \<le> g" "2 ^ (g - (w + l)) dvd p" and l: "0 < l"
  shows "table_ok g l ks val off D p (w, p div 2 ^ (g - w), j) (tab[reversed g p div 2 ^ w := x])" "l \<le> j"
    "length tab = 2 ^ j"
proof -
  let ?J = "reversed g p div 2 ^ w"
  show j: "l \<le> j" using ok k unfolding table_ok_def sized_def by force
  show "length tab = 2 ^ j" using ok unfolding table_ok_def by simp
  note J = link_index [OF g]
  have "\<not> (p div 2 ^ (g - w) * 2 ^ l + reversed l ?J + 1) * 2 ^ (g - (w + l)) \<le> p"
    unfolding J using g(2) by (simp add: add_mult_distrib)
  then have ne: "?J \<noteq> J" if "(p div 2 ^ (g - w) * 2 ^ l + reversed l J + 1) * 2 ^ (g - (w + l)) \<le> p" for J
    using that by blast
  have m: "min j l = l" using j by simp
  have "good_cell g l ks val off D w (p div 2 ^ (g - w)) j J (tab[?J := x] ! J)"
    if "J < 2 ^ l" "(p div 2 ^ (g - w) * 2 ^ l + reversed l J + 1) * 2 ^ (g - (w + l)) \<le> p" for J
    using ok that unfolding table_ok_def prod.case m nth_list_update_neq [OF ne [OF that(2)]] by blast
  then show "table_ok g l ks val off D p (w, p div 2 ^ (g - w), j) (tab[?J := x])"
    using ok unfolding table_ok_def prod.case m by (simp only: length_list_update) blast
qed

lemma tables_ok_append:
  assumes "tables_ok g l ks val off D p ts" "table_ok g l ks val off (D @ [d]) p d tab" "D \<noteq> [] \<or> (\<exists>j. d = (0, 0, j))"
  shows "tables_ok g l ks val off (D @ [d]) p (ts @ [tab])"
proof -
  have "table_ok g l ks val off (D @ [d]) p ((D @ [d]) ! t) ((ts @ [tab]) ! t)" if "t < Suc (length D)" for t
    using assms(1,2) that table_ok_append [of g l ks val off D p "D ! t" "ts ! t" "[d]"]
    by (cases "t = length D") (simp_all add: tables_ok_def nth_append)
  then show ?thesis using assms(1,3) by (auto simp: tables_ok_def nth_append)
qed

lemma tables_ok_update:
  assumes "tables_ok g l ks val off D p ts" "u < length D" "table_ok g l ks val off D p (D ! u) tab"
  shows "tables_ok g l ks val off D p (ts[u := tab])"
  using assms unfolding tables_ok_def by (auto simp: nth_list_update)

lemma dvd_deeper: "2 ^ (g - w) dvd (p :: nat) \<Longrightarrow> w \<le> w' \<Longrightarrow> 2 ^ (g - w') dvd p"
  by (meson diff_le_mono2 dvd_trans le_imp_power_dvd)

lemma new_table_first:
  assumes build: "building g l ks val store D [] ts m s"
    and code: "complete g ks" "\<And>i. 0 < i \<Longrightarrow> i \<le> g \<Longrightarrow> c ! i = count_list ks i" "m < length ks" "m + a + 1 = codes_upto ks (ks ! m)"
    and l: "0 < l" "l \<le> g" "g < 2 * l \<or> length ks \<le> 2 ^ l"
  shows "\<exists>d. building g l ks val store (D @ [d]) [length D] (ts @ [replicate (2 ^ snd (snd d)) None]) m
    (new_table c l g (ks ! m) a s)"
proof -
  let ?j = "table_bits c l g 0 (ks ! m) a" and ?p = "start g ks m"
  note b = build [unfolded building_def]
  have p: "?p < 2 ^ g" using start_less [OF code(1,3)] .
  have D: "D = []" "ts = []" "stack s = []" "tables s = store" "2 ^ g dvd ?p" using b by (auto simp: tables_ok_def)
  have "table_ok g l ks val (length store) D ?p (0, 0, ?j) (replicate (2 ^ ?j) None)"
    using new_table_ok [OF code(1,2,3,4) _ _ _ l(3,2) refl, of 0 val "length store" D] D p complete_nth [OF code(1,3)] by simp
  then have "tables_ok g l ks val (length store) [(0, 0, ?j)] ?p [replicate (2 ^ ?j) None]"
    using table_ok_append [where D = "[]" and E = "[(0, 0, ?j)]"] D by (simp add: tables_ok_def)
  moreover have "2 ^ (g - l) dvd ?p" using dvd_deeper [of g 0 ?p l] D by simp
  ultimately show ?thesis using b D complete_nth [OF code(1,3)]
    by (intro exI [of _ "(0, 0, ?j)"]) (simp add: building_def new_table_def frame_def Let_def)
qed

lemma new_table_next:
  assumes build: "building g l ks val store D (u # us) ts m s"
    and code: "complete g ks" "\<And>i. 0 < i \<Longrightarrow> i \<le> g \<Longrightarrow> c ! i = count_list ks i" "m < length ks" "m + a + 1 = codes_upto ks (ks ! m)"
    and l: "0 < l" "l \<le> g" "g < 2 * l \<or> length ks \<le> 2 ^ l" and k: "l * Suc (length us) < ks ! m"
  shows "\<exists>d ts'. building g l ks val store (D @ [d]) (length D # u # us) ts' m (new_table c l g (ks ! m) a s)"
proof -
  let ?w = "l * length us" and ?p = "start g ks m"
  let ?j = "table_bits c l g (?w + l) (ks ! m) a" and ?J = "reversed g ?p div 2 ^ ?w" and ?P = "?p div 2 ^ (g - (?w + l))"
  let ?d = "(?w + l, ?P, ?j)" and ?r = "\<lparr>e = 16 + ?j, b = l, v = T (length store + length D)\<rparr>"
  let ?ts = "ts[u := (ts ! u)[?J := Some ?r]]"
  note b = build [unfolded building_def]
  have p: "?p < 2 ^ g" using start_less [OF code(1,3)] .
  from b have ts: "tables_ok g l ks val (length store) D ?p ts" "stack_ok g l (length store) D ?p ts (u # us)"
    "2 ^ (g - (?w + l)) dvd ?p" by (simp_all add: add.commute)
  obtain j where u: "u < length D" "D ! u = (?w, ?p div 2 ^ (g - ?w), j)" using stack_ok_hd [OF ts(2) p] .
  have w: "?w + l \<le> g" "?w + l < ks ! m" using k complete_nth [OF code(1,3)] by simp_all
  have len: "length ts = length D" using ts(1) by (simp add: tables_ok_def)
  have "table_ok g l ks val (length store) D ?p (?w, ?p div 2 ^ (g - ?w), j) (ts ! u)" using ts(1) u by (auto simp: tables_ok_def)
  note parent = parent_ok [OF this refl code(3) w(2,1) ts(3) l(1)]
  note J = link_index [OF w(1) ts(3)]
  have "table_ok g l ks val (length store) (D @ [?d]) ?p ?d (replicate (2 ^ ?j) None)"
    using new_table_ok [OF code(1,2,3,4) w(2) ts(3) _ l(3,2) refl, of val "length store" D] by (intro table_ok_append) simp
  moreover have "tables_ok g l ks val (length store) D ?p ?ts" using tables_ok_update [OF ts(1) u(1)] parent(1) u(2) by simp
  ultimately have "tables_ok g l ks val (length store) (D @ [?d]) ?p (?ts @ [replicate (2 ^ ?j) None])"
    using u(1) by (intro tables_ok_append) auto
  moreover have "linked l (length store) (D @ [?d]) (?ts @ [replicate (2 ^ ?j) None]) u (length D)"
  proof -
    have "(2 :: nat) ^ l \<le> 2 ^ j" using parent(2) by simp
    then have "?J < length (ts ! u)" using J(1) parent(3) by (metis order.strict_trans2)
    then have "(?ts @ [replicate (2 ^ ?j) None]) ! u ! ?J = Some ?r" using u(1) len by (simp add: nth_append)
    moreover have "(D @ [?d]) ! u = (?w, ?p div 2 ^ (g - ?w), j)" using u by (simp add: nth_append)
    moreover have "(D @ [?d]) ! length D = (?w + l, ?p div 2 ^ (g - ?w) * 2 ^ l + reversed l ?J, ?j)" unfolding J(2) by simp
    ultimately show ?thesis unfolding linked_def using parent(2) J(1) by blast
  qed
  moreover have "t \<noteq> u \<and> t < length D" if "t \<in> set us" for t
    using stack_ok_depth [OF stack_ok_Cons [OF ts(2)] p l(1) that] u(2) by auto
  then have "stack_ok g l (length store) (D @ [?d]) ?p (?ts @ [replicate (2 ^ ?j) None]) (u # us)"
    by (intro stack_ok_cong [OF ts(2)]) (auto simp: nth_append len nth_list_update u(1))
  moreover have "map (frame (length store) (D @ [?d])) (u # us) = map (frame (length store) D) (u # us)"
    using stack_ok_depth [OF ts(2) p l(1)] by (intro map_cong refl frame_append) blast
  moreover have "2 ^ (g - l * Suc (Suc (length us))) dvd ?p" using ts(3) by (rule dvd_deeper) simp
  moreover have "frame (length store) (D @ [?d]) (length D) = (length store + length D, i_code s)"
    using reversed_prefix [OF w(1) ts(3)] b by (simp add: frame_def)
  moreover have "new_table c l g (ks ! m) a s = s\<lparr>tables := store @ ?ts @ [replicate (2 ^ ?j) None], z_size := 2 ^ ?j,
      q_ptr := length store + length D, stack := (length store + length D, i_code s) # stack s, r_entry := ?r\<rparr>"
  proof -
    have "?w + l = l * length (stack s)" "stack s = frame (length store) D u # map (frame (length store) D) us"
      using b by simp_all
    then show ?thesis using b len u(1)
      by (intro build.equality) (simp_all add: new_table_def frame_def Let_def nth_append list_update_append add.commute)
  qed
  ultimately show ?thesis using b w
    by (intro exI [of _ ?d] exI [of _ "?ts @ [replicate (2 ^ ?j) None]"]) (simp add: building_def nth_append add.commute)
qed

lemma make_tables_building:
  assumes "building g l ks val store D us ts m s"
    and code: "complete g ks" "\<And>i. 0 < i \<Longrightarrow> i \<le> g \<Longrightarrow> c ! i = count_list ks i" "m < length ks" "m + a + 1 = codes_upto ks (ks ! m)"
    and l: "0 < l" "l \<le> g" "g < 2 * l \<or> length ks \<le> 2 ^ l"
  shows "\<exists>D us ts. building g l ks val store D us ts m (make_tables c l g (ks ! m) a s) \<and> ks ! m \<le> l * length us"
  using assms(1)
proof (induction "ks ! m - l * length us" arbitrary: D us ts s rule: less_induct)
  case less
  have len: "length (stack s) = length us" using less.prems by (simp add: building_def)
  show ?case
  proof (cases "l * length us < ks ! m")
    case True
    have "\<exists>d ts'. building g l ks val store (D @ [d]) (length D # us) ts' m (new_table c l g (ks ! m) a s)"
    proof (cases us)
      case Nil
      with less.prems have "D = []" by (simp add: building_def)
      with Nil less.prems new_table_first [OF _ code l] show ?thesis by blast
    next
      case (Cons u us')
      with less.prems True new_table_next [OF _ code l] show ?thesis by force
    qed
    then obtain d ts' where n: "building g l ks val store (D @ [d]) (length D # us) ts' m (new_table c l g (ks ! m) a s)" by blast
    have "ks ! m - l * length (length D # us) < ks ! m - l * length us" using True l(1) by simp
    from less.hyps [OF this n] show ?thesis using True l(1) len by (subst make_tables.simps) simp
  next
    case False
    with less.prems len show ?thesis
      by (subst make_tables.simps) (intro exI [of _ D] exI [of _ us] exI [of _ ts], simp)
  qed
qed

section \<open>Filling in a code\<close>

lemma fill_entries_length [simp]: "length (fill_entries i z f r tab) = length tab"
  by (induction i z f r tab rule: fill_entries.induct) (subst fill_entries.simps, simp)

lemma fill_entries_nth:
  assumes "0 < f" "z \<le> length tab"
  shows "J < z \<Longrightarrow> fill_entries i z f r tab ! J = (if i \<le> J \<and> J mod f = i mod f then Some r else tab ! J)"
  using assms
proof (induction i z f r tab rule: fill_entries.induct)
  case (1 i z f r tab)
  show ?case
  proof (cases "i < z")
    case False
    with 1 show ?thesis by (subst fill_entries.simps) simp
  next
    case True
    have "fill_entries (i + f) z f r (tab[i := Some r]) ! J =
        (if i + f \<le> J \<and> J mod f = (i + f) mod f then Some r else tab[i := Some r] ! J)"
      using 1 True by simp
    moreover have "i = J" if "i \<le> J" "\<not> i + f \<le> J" "J mod f = i mod f"
    proof -
      have "f dvd J - i" using that by (simp add: mod_eq_dvd_iff_nat)
      moreover have "J - i < f" using that by simp
      ultimately have "J - i = 0" using nat_dvd_not_less by blast
      with that show ?thesis by simp
    qed
    ultimately show ?thesis using 1 True by (subst fill_entries.simps) (auto simp: nth_list_update)
  qed
qed

text \<open>The cells of the top table that a code of length \<open>k\<close> fills are those within the code's positions.\<close>

lemma cell_in_code:
  assumes "w \<le> k" "k \<le> w + n" "k \<le> g" "2 ^ (g - k) dvd p"
  shows "(p div 2 ^ (g - w) * 2 ^ n + reversed n J) div 2 ^ (w + n - k) = p div 2 ^ (g - k) \<longleftrightarrow>
    J mod 2 ^ (k - w) = reversed g p div 2 ^ w"
proof -
  let ?y = "p div 2 ^ (g - k)" and ?h = "k - w"
  have n: "n = ?h + (w + n - k)" "k = ?h + w" using assms(1,2) by simp_all
  have "(2 :: nat) ^ n = 2 ^ ?h * 2 ^ (w + n - k)" using n(1) by (simp flip: power_add)
  moreover have "reversed n J div 2 ^ (w + n - k) = reversed ?h J" using reversed_div [of ?h "w + n - k" J] n(1) by simp
  ultimately have cell: "(p div 2 ^ (g - w) * 2 ^ n + reversed n J) div 2 ^ (w + n - k) = p div 2 ^ (g - w) * 2 ^ ?h + reversed ?h J"
    by (simp add: mult.assoc [symmetric] div_mult_self3)
  have y: "?y = p div 2 ^ (g - w) * 2 ^ ?h + ?y mod 2 ^ ?h"
    unfolding prefix_prefix [OF assms(1,3), of p] by (simp only: div_mult_mod_eq)
  have "reversed g p div 2 ^ w = reversed ?h ?y"
    using reversed_prefix [OF assms(3,4)] reversed_div [of ?h w ?y] n(2) by simp
  then have "reversed g p div 2 ^ w = reversed ?h (?y mod 2 ^ ?h)" by simp
  moreover have "reversed ?h J = ?y mod 2 ^ ?h \<longleftrightarrow> J mod 2 ^ ?h = reversed ?h (?y mod 2 ^ ?h)"
    using reversed_inject [of "J mod 2 ^ ?h" ?h "reversed ?h (?y mod 2 ^ ?h)"] reversed_reversed [of "?y mod 2 ^ ?h" ?h]
    by (simp add: reversed_less)
  ultimately show ?thesis unfolding cell using y by (metis add_left_cancel)
qed

lemma top_filled:
  assumes ok: "table_ok g l ks val off D (start g ks m) (w, start g ks m div 2 ^ (g - w), j) tab"
    and code: "complete g ks" "m < length ks" "w < ks ! m" "ks ! m \<le> w + l"
  shows "table_ok g l ks val off D (start g ks (Suc m)) (w, start g ks m div 2 ^ (g - w), j)
    (fill_entries (reversed g (start g ks m) div 2 ^ w) (2 ^ j) (2 ^ (ks ! m - w))
      \<lparr>e = fst (val m), b = ks ! m - w, v = snd (val m)\<rparr> tab)" (is "table_ok _ _ _ _ _ _ _ _ ?tab")
proof -
  let ?p = "start g ks m" and ?k = "ks ! m" and ?n = "min j l" and ?f = "2 ^ (ks ! m - w) :: nat"
  let ?c = "\<lambda>J. ?p div 2 ^ (g - w) * 2 ^ ?n + reversed ?n J" and ?i = "reversed g ?p div 2 ^ w"
  have k: "?k \<le> g" using complete_nth [OF code(1,2)] by simp
  note dvd = start_dvd [OF code(1,2), of m, simplified]
  have ok': "length tab = 2 ^ j" "w + ?n \<le> g" "sized g l ks w (?p div 2 ^ (g - w)) j"
    "\<And>J. J < 2 ^ ?n \<Longrightarrow> (?c J + 1) * 2 ^ (g - (w + ?n)) \<le> ?p \<Longrightarrow> good_cell g l ks val off D w (?p div 2 ^ (g - w)) j J (tab ! J)"
    using ok by (simp_all add: table_ok_def)
  have n: "?k \<le> w + ?n" using ok'(3) code(2,4) unfolding sized_def by force
  have i: "?i < ?f"
    using reversed_prefix [OF k dvd] reversed_div [of "?k - w" w] code(3) reversed_less [of "?k - w"] by (metis le_add_diff_inverse2 less_imp_le)
  have "good_cell g l ks val off D w (?p div 2 ^ (g - w)) j J (?tab ! J)"
    if J: "J < 2 ^ ?n" and end_: "(?c J + 1) * 2 ^ (g - (w + ?n)) \<le> start g ks (Suc m)" for J
  proof -
    have "(2 :: nat) ^ ?n \<le> 2 ^ j" by simp
    then have "J < 2 ^ j" using J by (rule order.strict_trans2 [rotated])
    then have nth: "?tab ! J = (if J mod ?f = ?i then Some \<lparr>e = fst (val m), b = ?k - w, v = snd (val m)\<rparr> else tab ! J)"
      using fill_entries_nth [of ?f "2 ^ j" tab J ?i] ok'(1) i mod_less_eq_dividend [of J ?f] by auto
    note cell = cell_in_code [OF less_imp_le [OF code(3)] n k dvd, of J]
    show ?thesis
    proof (cases "J mod ?f = ?i")
      case True
      then have "?tab ! J = Some \<lparr>e = fst (val m), b = ?k - w, v = snd (val m)\<rparr>" using nth by simp
      moreover have "?p div 2 ^ (g - ?k) = ?c J div 2 ^ (w + ?n - ?k)" using cell [THEN iffD2, OF True] by (rule sym)
      ultimately show ?thesis unfolding good_cell_def using code(2,3) n by blast
    next
      case False
      have M: "2 ^ (g - ?k) = 2 ^ (w + ?n - ?k) * (2 :: nat) ^ (g - (w + ?n))" using n ok'(2) by (simp flip: power_add)
      obtain y where y: "?p = y * 2 ^ (g - ?k)" using dvd by (metis dvd_div_mult_self)
      have "(?c J + 1) * 2 ^ (g - (w + ?n)) \<le> (y + 1) * 2 ^ (w + ?n - ?k) * 2 ^ (g - (w + ?n))"
        using end_ y M code(2) by (simp add: start_Suc algebra_simps)
      then have "?c J + 1 \<le> (y + 1) * 2 ^ (w + ?n - ?k)" by (rule mult_right_le_imp_le) simp
      then have "?c J < (y + 1) * 2 ^ (w + ?n - ?k)" by (simp only: Suc_eq_plus1 [symmetric] Suc_le_eq)
      then have "?c J div 2 ^ (w + ?n - ?k) < y + 1" by (rule less_mult_imp_div_less)
      moreover have "?c J div 2 ^ (w + ?n - ?k) \<noteq> y" using cell False y by simp
      ultimately have "?c J div 2 ^ (w + ?n - ?k) + 1 \<le> y" by simp
      then have "?c J < y * 2 ^ (w + ?n - ?k)" by (metis Suc_eq_plus1 Suc_le_eq div_less_iff_less_mult zero_less_numeral zero_less_power)
      then have "(?c J + 1) * 2 ^ (g - (w + ?n)) \<le> y * 2 ^ (w + ?n - ?k) * 2 ^ (g - (w + ?n))"
        by (intro mult_le_mono1) simp
      then have "(?c J + 1) * 2 ^ (g - (w + ?n)) \<le> ?p" using y M by (simp add: mult.assoc)
      with ok'(4) [OF J] False nth show ?thesis by simp
    qed
  qed
  then show ?thesis using ok unfolding table_ok_def prod.case by simp
qed

lemma parent_filled:
  assumes ok: "table_ok g l ks val off D p (w, p div 2 ^ (g - w), j) tab"
    and link: "l \<le> j" "J' < 2 ^ l" "t < length D" "D ! t = (w + l, p div 2 ^ (g - w) * 2 ^ l + reversed l J', j2)"
      "p div 2 ^ (g - w) * 2 ^ l + reversed l J' = p div 2 ^ (g - (w + l))" "tab ! J' = Some \<lparr>e = 16 + j2, b = l, v = T (off + t)\<rparr>"
    and k: "w + l \<le> k"
  shows "table_ok g l ks val off D (p + 2 ^ (g - k)) (w, p div 2 ^ (g - w), j) tab"
proof -
  let ?c = "\<lambda>J. p div 2 ^ (g - w) * 2 ^ l + reversed l J" and ?M = "2 ^ (g - (w + l)) :: nat"
  have n: "min j l = l" using link(1) by simp
  have ok': "\<And>J. J < 2 ^ l \<Longrightarrow> (?c J + 1) * ?M \<le> p \<Longrightarrow> good_cell g l ks val off D w (p div 2 ^ (g - w)) j J (tab ! J)"
    using ok unfolding table_ok_def prod.case n by blast
  have "good_cell g l ks val off D w (p div 2 ^ (g - w)) j J (tab ! J)"
    if J: "J < 2 ^ l" and end_: "(?c J + 1) * ?M \<le> p + 2 ^ (g - k)" for J
  proof (cases "(?c J + 1) * ?M \<le> p")
    case False
    have "2 ^ (g - k) \<le> ?M" using k by simp
    with end_ have "?c J * ?M \<le> p" by (simp only: add_mult_distrib)
    with False have "p div ?M = ?c J" by (intro div_nat_eqI) (simp_all add: algebra_simps)
    with link(5) have "reversed l J = reversed l J'" by simp
    then have "J = J'" using J link(2) by (simp add: reversed_inject)
    with link show ?thesis unfolding good_cell_def by auto
  qed (use ok' J in blast)
  then show ?thesis using ok unfolding table_ok_def prod.case n by blast
qed

lemma finished_filled:
  assumes "table_ok g l ks val off D p (w, \<beta>, j) tab" "(\<beta> + 1) * 2 ^ (g - w) \<le> p" "p \<le> p'"
  shows "table_ok g l ks val off D p' (w, \<beta>, j) tab"
proof -
  have n: "w + min j l \<le> g" using assms(1) by (simp add: table_ok_def)
  have "(\<beta> * 2 ^ min j l + reversed (min j l) J + 1) * 2 ^ (g - (w + min j l)) \<le> p" for J
  proof -
    have "\<beta> * 2 ^ min j l + reversed (min j l) J + 1 \<le> (\<beta> + 1) * 2 ^ min j l"
      using reversed_less [of "min j l" J] by simp
    then have "(\<beta> * 2 ^ min j l + reversed (min j l) J + 1) * 2 ^ (g - (w + min j l)) \<le>
        (\<beta> + 1) * 2 ^ min j l * 2 ^ (g - (w + min j l))" by (rule mult_le_mono1)
    also have "(2 :: nat) ^ min j l * 2 ^ (g - (w + min j l)) = 2 ^ (g - w)" using n by (simp flip: power_add)
    then have "(\<beta> + 1) * 2 ^ min j l * 2 ^ (g - (w + min j l)) = (\<beta> + 1) * 2 ^ (g - w)" by (simp only: mult.assoc)
    finally show ?thesis using assms(2) by simp
  qed
  then show ?thesis using assms(1) unfolding table_ok_def prod.case by blast
qed

lemma stack_child:
  assumes "stack_ok g l off D p ts (t # us)" "p < 2 ^ g" "u \<in> set us" "0 < l"
  shows "\<exists>t'\<in>set (t # us). \<exists>w j2. t' < length D \<and> linked l off D ts u t' \<and> fst (D ! u) = w \<and> w + l \<le> fst (D ! t) \<and>
    D ! t' = (w + l, p div 2 ^ (g - (w + l)), j2)"
  using assms
proof (induction us arbitrary: t)
  case (Cons u' us)
  from Cons.prems(1) have t: "t < length D" "linked l off D ts u' t" "stack_ok g l off D p ts (u' # us)"
    and "\<exists>j. D ! t = (l * Suc (length us), p div 2 ^ (g - l * Suc (length us)), j)" by auto
  then obtain j where d: "D ! t = (l * Suc (length us), p div 2 ^ (g - l * Suc (length us)), j)" by blast
  obtain j' where d': "D ! u' = (l * length us, p div 2 ^ (g - l * length us), j')"
    using stack_ok_hd [OF t(3) Cons.prems(2)] by blast
  show ?case
  proof (cases "u = u'")
    case True
    then show ?thesis using t d d' by (intro bexI [of _ t]) (auto simp: add.commute)
  next
    case False
    with Cons.prems have "u \<in> set us" by simp
    from Cons.IH [OF t(3) Cons.prems(2) this Cons.prems(4)] d d' show ?thesis by force
  qed
qed simp

lemma tables_filled:
  assumes ok: "tables_ok g l ks val off D (start g ks m) ts"
    and st: "stack_ok g l off D (start g ks m) ts (t # us)"
    and fin: "\<forall>u<length D. u \<notin> set (t # us) \<longrightarrow> (fst (snd (D ! u)) + 1) * 2 ^ (g - fst (D ! u)) \<le> start g ks m"
    and code: "complete g ks" "m < length ks" "l * length us < ks ! m" "ks ! m \<le> l * length us + l" and l: "0 < l"
  shows "tables_ok g l ks val off D (start g ks (Suc m)) (ts[t :=
    fill_entries (reversed g (start g ks m) div 2 ^ (l * length us)) (2 ^ snd (snd (D ! t))) (2 ^ (ks ! m - l * length us))
      \<lparr>e = fst (val m), b = ks ! m - l * length us, v = snd (val m)\<rparr> (ts ! t)])" (is "tables_ok _ _ _ _ _ _ ?p' (ts[t := ?tab])")
proof -
  let ?p = "start g ks m"
  have p: "?p < 2 ^ g" using start_less [OF code(1,2)] .
  have p': "?p' = ?p + 2 ^ (g - ks ! m)" using start_Suc [OF code(2)] .
  have len: "length ts = length D" using ok by (simp add: tables_ok_def)
  have each: "table_ok g l ks val off D ?p (D ! u) (ts ! u)" if "u < length D" for u using ok that by (simp add: tables_ok_def)
  obtain j where t: "t < length D" "D ! t = (l * length us, ?p div 2 ^ (g - l * length us), j)" using stack_ok_hd [OF st p] .
  have "table_ok g l ks val off D ?p' (D ! u) (ts[t := ?tab] ! u)" if u: "u < length D" for u
  proof (cases "u = t")
    case True
    then show ?thesis using top_filled [OF _ code(1-4)] each [OF t(1)] t len by simp
  next
    case False
    then have nth: "ts[t := ?tab] ! u = ts ! u" by simp
    show ?thesis
    proof (cases "u \<in> set us")
      case True
      obtain t' w j2 where c: "t' < length D" "linked l off D ts u t'" "fst (D ! u) = w" "w + l \<le> l * length us"
        "D ! t' = (w + l, ?p div 2 ^ (g - (w + l)), j2)"
        using stack_child [OF st p True l] t(2) by auto
      from c(2) obtain w' \<beta> j J j3 where d: "D ! u = (w', \<beta>, j)" "l \<le> j" "J < 2 ^ l"
        "D ! t' = (w' + l, \<beta> * 2 ^ l + reversed l J, j3)" "ts ! u ! J = Some \<lparr>e = 16 + j3, b = l, v = T (off + t')\<rparr>"
        unfolding linked_def by blast
      have w: "w' = w" using c(3) d(1) by simp
      have g: "w + l \<le> g" using c(4) code(3) complete_nth [OF code(1,2)] by simp
      have link: "\<beta> * 2 ^ l + reversed l J = ?p div 2 ^ (g - (w + l))" "j2 = j3" using c(5) d(4) w by simp_all
      have "\<beta> = ?p div 2 ^ (g - (w + l)) div 2 ^ l" using link(1) reversed_less [of l J] by (metis div_mult_self3 div_less add_0_right power_not_zero zero_neq_numeral)
      also have "\<dots> = ?p div 2 ^ (g - w)" using prefix_prefix [of w "w + l" g ?p] g by simp
      finally have \<beta>: "\<beta> = ?p div 2 ^ (g - w)" .
      have k: "w + l \<le> ks ! m" using c(4) code(3) by simp
      from each [OF u] have "table_ok g l ks val off D ?p (w, ?p div 2 ^ (g - w), j) (ts ! u)" unfolding d(1) w \<beta> .
      from parent_filled [OF this d(2,3) c(1) d(4) [unfolded w \<beta>] _ d(5) k] link(1)
      show ?thesis unfolding nth p' d(1) w \<beta> by simp
    next
      case off: False
      obtain w \<beta> j where d: "D ! u = (w, \<beta>, j)" by (metis prod_cases3)
      have "(\<beta> + 1) * 2 ^ (g - w) \<le> ?p" using fin u False off d by auto
      from finished_filled [OF each [OF u, unfolded d] this, of ?p'] show ?thesis unfolding nth d p' by simp
    qed
  qed
  then show ?thesis using ok len by (simp add: tables_ok_def)
qed

section \<open>Backing up over finished tables\<close>

definition inside :: "nat \<Rightarrow> (nat \<times> nat \<times> nat) list \<Rightarrow> nat \<Rightarrow> nat \<Rightarrow> bool" where
  "inside g D p t \<longleftrightarrow> p div 2 ^ (g - fst (D ! t)) = fst (snd (D ! t))"

lemma mask_reversed: "w \<le> g \<Longrightarrow> reversed g p AND (2 ^ w - 1) = reversed w (p div 2 ^ (g - w))"
  using reversed_mod [of "g - w" w p]
  by (simp only: mask_eq_exp_minus_1 [symmetric] take_bit_eq_mask [symmetric] take_bit_eq_mod) simp

lemma backup_frames:
  assumes "stack_ok g l off D p ts us" "p < 2 ^ g" "p' < 2 ^ g" "us \<noteq> [] \<longrightarrow> l * (length us - 1) \<le> g"
  shows "backup l (reversed g p') (map (frame off D) us) = map (frame off D) (dropWhile (\<lambda>t. \<not> inside g D p' t) us)"
  using assms
proof (induction us)
  case (Cons t us)
  obtain j where t: "D ! t = (l * length us, p div 2 ^ (g - l * length us), j)" using stack_ok_hd [OF Cons.prems(1,2)] by blast
  let ?w = "l * length us"
  have w: "?w \<le> g" using Cons.prems(4) by simp
  have "reversed g p' AND (2 ^ ?w - 1) = reversed ?w (p div 2 ^ (g - ?w)) \<longleftrightarrow> inside g D p' t"
    unfolding mask_reversed [OF w] inside_def t
    using reversed_inject [OF prefix_less [OF Cons.prems(3) w] prefix_less [OF Cons.prems(2) w]] by simp
  moreover have "l * (length us - 1) \<le> g" using w by (meson diff_le_self le_trans mult_le_mono2)
  ultimately show ?case
    using Cons.IH [OF stack_ok_Cons [OF Cons.prems(1)] Cons.prems(2,3)] t by (simp add: frame_def)
qed simp

lemma stack_ok_move:
  assumes "stack_ok g l off D p ts us" "p < 2 ^ g" "us \<noteq> [] \<longrightarrow> l * (length us - 1) \<le> g \<and> inside g D p' (hd us)"
  shows "stack_ok g l off D p' ts us"
  using assms
proof (induction us rule: induct_list012)
  case (3 t u us)
  let ?w = "l * length us" and ?w' = "l * Suc (length us)"
  from 3(3) obtain j where t: "t < length D" "D ! t = (?w', p div 2 ^ (g - ?w'), j)" "linked l off D ts u t"
    "stack_ok g l off D p ts (u # us)" by auto
  obtain j' where u: "D ! u = (?w, p div 2 ^ (g - ?w), j')" using stack_ok_hd [OF t(4) 3(4)] by blast
  have w: "?w' \<le> g" and p: "p' div 2 ^ (g - ?w') = p div 2 ^ (g - ?w')" using 3(5) t(2) by (simp_all add: inside_def)
  moreover have "p' div 2 ^ (g - ?w) = p div 2 ^ (g - ?w)"
    using prefix_prefix [of ?w ?w' g p] prefix_prefix [of ?w ?w' g p'] w p by simp
  then have "inside g D p' u" by (simp add: inside_def u)
  ultimately show ?case using 3(2) [OF t(4) 3(4)] t by simp
qed auto

lemma stack_ok_dropWhile: "stack_ok g l off D p ts us \<Longrightarrow> stack_ok g l off D p ts (dropWhile P us)"
  by (induction us) (auto dest: stack_ok_Cons)

lemma stack_ok_append: "stack_ok g l off D p ts (ts' @ us) \<Longrightarrow> stack_ok g l off D p ts us"
  by (induction ts') (auto dest: stack_ok_Cons)

lemma stack_ok_at: "stack_ok g l off D p ts us \<Longrightarrow> us = xs @ t # ys \<Longrightarrow> p < 2 ^ g \<Longrightarrow> fst (D ! t) = l * length ys"
  using stack_ok_append [of g l off D p ts xs "t # ys"] stack_ok_hd [of g l off D p ts t ys] by (metis fst_conv)

lemma stack_ok_last: "stack_ok g l off D p ts us \<Longrightarrow> us \<noteq> [] \<Longrightarrow> \<exists>j. D ! last us = (0, 0, j)"
  by (induction us rule: induct_list012) auto

lemma left_block:
  assumes "w \<le> k" "k \<le> g" "2 ^ (g - k) dvd p" "p' = p + 2 ^ (g - k)" "p' div 2 ^ (g - w) \<noteq> p div (2 :: nat) ^ (g - w)"
  shows "p' = (p div 2 ^ (g - w) + 1) * 2 ^ (g - w)"
proof -
  let ?N = "2 ^ (g - k) :: nat" and ?M = "2 ^ (g - w) :: nat"
  obtain n where n: "?M = n * ?N" "0 < n" using assms(1,2) that [of "2 ^ (k - w)"] by (simp flip: power_add)
  obtain y where y: "p = y * ?N" using assms(3) by (metis dvd_div_mult_self)
  have p': "p' = (y + 1) * ?N" unfolding assms(4) y by simp
  have d: "p div ?M = y div n" "p' div ?M = (y + 1) div n"
    unfolding n(1) p' y by (rule div_mult_mult2, simp)+
  with assms(5) have "(y + 1) mod n = 0" by (metis Suc_eq_plus1 div_Suc)
  then have "(y + 1) div n * n = y + 1" by auto
  moreover have "(y + 1) div n = y div n + 1" using d assms(5) by (metis Suc_eq_plus1 div_Suc)
  ultimately have "(y + 1) * ?N = (y div n + 1) * n * ?N" by simp
  then show ?thesis unfolding d(1) unfolding p' n(1) by (simp only: mult.assoc)
qed

section \<open>One code\<close>

definition filled :: "nat \<Rightarrow> nat \<Rightarrow> nat \<times> huft_v \<Rightarrow> build \<Rightarrow> build" where
  "filled l k x s = (let w = l * (length (stack s) - 1); r = \<lparr>e = fst x, b = k - w, v = snd x\<rparr>;
       tab = fill_entries (i_code s div 2 ^ w) (z_size s) (2 ^ (k - w)) r (tables s ! q_ptr s);
       i = increment (2 ^ (k - 1)) (i_code s)
     in s\<lparr>r_entry := r, p_val := p_val s + 1, tables := (tables s)[q_ptr s := tab], i_code := i, stack := backup l i (stack s)\<rparr>)"

lemma increment_start:
  assumes "complete g ks" "Suc m < length ks"
  shows "increment (2 ^ (ks ! m - 1)) (reversed g (start g ks m)) = reversed g (start g ks (Suc m))"
proof -
  let ?k = "ks ! m" and ?p = "start g ks m" and ?p' = "start g ks (Suc m)"
  have m: "m < length ks" using assms(2) by simp
  have k: "0 < ?k" "?k \<le> g" using complete_nth [OF assms(1) m] by simp_all
  note dvd = start_dvd [OF assms(1) m, of m, simplified] start_dvd [OF assms(1) m, of "Suc m", simplified]
  let ?y = "?p div 2 ^ (g - ?k)"
  have y: "?p' div 2 ^ (g - ?k) = ?y + 1" using start_Suc [OF m, of g] by (simp add: div_add_self2)
  have "?y + 1 < 2 ^ ?k" using prefix_less [OF start_less [OF assms] k(2)] y by simp
  then have "increment (2 ^ (?k - 1)) (reversed ?k ?y) = reversed ?k (?y + 1)"
    using increment_reversed [OF k(1), of ?y] by simp
  then show ?thesis using reversed_prefix [OF k(2) dvd(1)] reversed_prefix [OF k(2) dvd(2)] y by simp
qed

lemma filled_tables:
  assumes build: "building g l ks val store D us ts m s"
    and code: "complete g ks" "m < length ks" "ks ! m \<le> l * length us" and l: "0 < l"
  shows "\<exists>ts'. tables (filled l (ks ! m) (val m) s) = store @ ts' \<and> length ts' = length D \<and>
    tables_ok g l ks val (length store) D (start g ks (Suc m)) ts' \<and> D \<noteq> [] \<and> (\<forall>t. t \<noteq> hd us \<longrightarrow> ts' ! t = ts ! t)"
proof -
  note b = build [unfolded building_def]
  have "us \<noteq> []" using code complete_nth [OF code(1,2)] by auto
  then obtain t us' where us: "us = t # us'" by (cases us) auto
  have ok: "tables_ok g l ks val (length store) D (start g ks m) ts" "stack_ok g l (length store) D (start g ks m) ts (t # us')"
    "\<forall>u<length D. u \<notin> set (t # us') \<longrightarrow> (fst (snd (D ! u)) + 1) * 2 ^ (g - fst (D ! u)) \<le> start g ks m"
    "l * length us' < ks ! m" "ks ! m \<le> l * length us' + l" using b code(3) by (simp_all add: us add.commute)
  note f = tables_filled [OF ok(1-3) code(1,2) ok(4,5) l]
  have "q_ptr s = length store + t" "z_size s = 2 ^ snd (snd (D ! t))" "length (stack s) = Suc (length us')" using b code(3) us by auto
  moreover have "length ts = length D" using ok(1) by (simp add: tables_ok_def)
  moreover have "D \<noteq> []" using b us by simp
  ultimately show ?thesis using b f us
    by (intro exI [of _ "ts[t := _]"] conjI) (auto simp: filled_def Let_def nth_append list_update_append)
qed

lemma popped_end:
  assumes "building g l ks val store D us ts m s" "complete g ks" "m < length ks" "0 < l"
    "t \<in> set us" "\<not> inside g D (start g ks (Suc m)) t"
  shows "start g ks (Suc m) = (fst (snd (D ! t)) + 1) * 2 ^ (g - fst (D ! t))"
proof -
  note b = assms(1) [unfolded building_def]
  have p: "start g ks m < 2 ^ g" using start_less [OF assms(2,3)] .
  have t: "fst (D ! t) < ks ! m" "fst (snd (D ! t)) = start g ks m div 2 ^ (g - fst (D ! t))"
    using stack_ok_block [of g l "length store" D _ ts us, OF _ p assms(5)] b assms(5) by fastforce+
  with assms(6) have "start g ks (Suc m) div 2 ^ (g - fst (D ! t)) \<noteq> start g ks m div 2 ^ (g - fst (D ! t))"
    by (simp add: inside_def)
  from left_block [OF less_imp_le [OF t(1)] _ start_dvd [OF assms(2,3), of m, simplified] start_Suc [OF assms(3)] this]
  show ?thesis using t complete_nth [OF assms(2,3)] by simp
qed

lemma set_tl_dropWhile: "set (tl (dropWhile P xs)) \<subseteq> set (tl xs)"
proof (cases xs)
  case (Cons x ys)
  show ?thesis
  proof
    fix y
    assume y: "y \<in> set (tl (dropWhile P xs))"
    show "y \<in> set (tl xs)"
    proof (cases "P x")
      case True
      with y Cons have "y \<in> set (dropWhile P ys)" by (cases "dropWhile P ys") auto
      with Cons show ?thesis by (auto dest: set_dropWhileD)
    qed (use y Cons in simp)
  qed
qed simp

lemma filled_building:
  assumes build: "building g l ks val store D us ts m s"
    and code: "complete g ks" "Suc m < length ks" "ks ! m \<le> l * length us" and l: "0 < l"
  shows "\<exists>us ts. building g l ks val store D us ts (Suc m) (filled l (ks ! m) (val m) s)"
proof -
  let ?p = "start g ks m" and ?p' = "start g ks (Suc m)" and ?s = "filled l (ks ! m) (val m) s" and ?o = "length store"
  let ?us = "dropWhile (\<lambda>t. \<not> inside g D ?p' t) us"
  have m: "m < length ks" using code(2) by simp
  note b = build [unfolded building_def]
  have p: "?p < 2 ^ g" "?p' < 2 ^ g" using start_less [OF code(1)] code(2) m by auto
  have st: "stack_ok g l ?o D ?p ts us" using b by simp
  have us: "us \<noteq> []" using code complete_nth [OF code(1) m] by auto
  then have top: "l * (length us - 1) < ks ! m" using b by simp
  have g: "l * (length us - 1) \<le> g" using top complete_nth [OF code(1) m] by simp
  have later: "ks ! m \<le> ks ! Suc m" using complete_sorted [OF code(1), of m "Suc m"] code(2) by simp
  obtain ts' where ts': "tables ?s = store @ ts'" "length ts' = length D" "tables_ok g l ks val ?o D ?p' ts'" "D \<noteq> []"
    "\<And>t. t \<noteq> hd us \<Longrightarrow> ts' ! t = ts ! t"
    using filled_tables [OF build code(1) m code(3) l] by blast
  have root: "inside g D ?p' (last us)" using stack_ok_last [OF st us] p(2) by (auto simp: inside_def)
  then have ne: "?us \<noteq> []" using us by (auto simp: dropWhile_eq_Nil_conv)
  have hd: "inside g D ?p' (hd ?us)" using hd_dropWhile [OF ne] by simp
  have tl: "t \<noteq> hd us" if "t \<in> set (tl us)" for t
  proof -
    obtain u us' where c: "us = u # us'" using us by (cases us) auto
    obtain j where "D ! u = (l * length us', ?p div 2 ^ (g - l * length us'), j)" using stack_ok_hd [OF st [unfolded c] p(1)] by blast
    with stack_ok_depth [OF stack_ok_Cons [OF st [unfolded c]] p(1) l, of t] that c show ?thesis by auto
  qed
  have suffix: "set (tl ?us) \<subseteq> set (tl us)" "length ?us \<le> length us"
    by (rule set_tl_dropWhile, rule length_dropWhile_le)
  have mid: "l * (length ?us - 1) \<le> g" using suffix(2) g by (meson diff_le_mono le_trans mult_le_mono2)
  have "stack_ok g l ?o D ?p' ts ?us"
    using stack_ok_move [OF stack_ok_dropWhile [OF st] p(1)] mid hd by blast
  then have stack: "stack_ok g l ?o D ?p' ts' ?us"
    using stack_ok_cong [of g l ?o D ?p' ts ?us ts' "[]"] ts'(5) tl suffix(1) by auto
  have short: "l * length ?us \<le> l * (length us - 1)" if "?us \<noteq> us"
    using that by (cases us) (auto simp: length_dropWhile_le split: if_splits)
  have fin: "(fst (snd (D ! t)) + 1) * 2 ^ (g - fst (D ! t)) \<le> ?p'" if t: "t < length D" "t \<notin> set ?us" for t
  proof (cases "t \<in> set us")
    case True
    with t(2) have "t \<in> set (takeWhile (\<lambda>t. \<not> inside g D ?p' t) us)" by (metis Un_iff set_append takeWhile_dropWhile_id)
    then have "\<not> inside g D ?p' t" by (rule set_takeWhileD [THEN conjunct2])
    from popped_end [OF build code(1) m l True this] show ?thesis by simp
  next
    case False
    with b t(1) have "(fst (snd (D ! t)) + 1) * 2 ^ (g - fst (D ! t)) \<le> ?p" by blast
    then show ?thesis using start_mono [of m "Suc m" g ks] by simp
  qed
  have dvd: "2 ^ (g - l * length ?us) dvd ?p'"
  proof (cases "?us = us")
    case True
    then show ?thesis using dvd_deeper [OF start_dvd [OF code(1) m, of "Suc m"] code(3)] by simp
  next
    case False
    let ?pre = "takeWhile (\<lambda>t. \<not> inside g D ?p' t) us"
    have split: "us = ?pre @ ?us" by simp
    with False have pre: "?pre \<noteq> []" by (metis append_Nil)
    have "us = (butlast ?pre @ [last ?pre]) @ ?us" using split append_butlast_last_id [OF pre] by simp
    then have "us = butlast ?pre @ last ?pre # ?us" by (simp only: append.assoc append_Cons append_Nil)
    note last = last_in_set [OF pre] this
    note out = set_takeWhileD [OF last(1)]
    have w: "fst (D ! last ?pre) = l * length ?us" by (rule stack_ok_at [OF st last(2) p(1)])
    have "2 ^ (g - fst (D ! last ?pre)) dvd ?p'"
      by (rule dvdI, rule trans [OF popped_end [OF build code(1) m l out [THEN conjunct1] out [THEN conjunct2]] mult.commute])
    then show ?thesis by (simp only: w)
  qed
  have q: "q_ptr ?s = ?o + hd ?us \<and> z_size ?s = 2 ^ snd (snd (D ! hd ?us))" if "ks ! Suc m \<le> l * length ?us"
  proof -
    have "?us = us"
    proof (rule ccontr)
      assume "?us \<noteq> us"
      from short [OF this] top later that show False by linarith
    qed
    then show ?thesis using b us code(3) by (simp add: filled_def Let_def)
  qed
  have i: "i_code ?s = reversed g ?p'" "stack ?s = map (frame ?o D) ?us" "p_val ?s = Suc m"
    using increment_start [OF code(1,2)] backup_frames [OF st p] g b by (simp_all add: filled_def Let_def)
  have k: "l * (length ?us - 1) < ks ! Suc m"
    using suffix(2) top later by (meson diff_le_mono le_less_trans less_le_trans mult_le_mono2)
  have "D = [] \<longleftrightarrow> ?us = []" using ts'(4) ne by blast
  with ts'(1,3) i stack fin dvd k q have "building g l ks val store D ?us ts' (Suc m) ?s" unfolding building_def by blast
  then show ?thesis by blast
qed

section \<open>Looking up bits\<close>

lemma huft_find_link:
  "cell tabs t (bs mod 2 ^ n) = Some \<lparr>e = 16 + j, b = l, v = T u\<rparr> \<Longrightarrow> 0 < j \<Longrightarrow> j < 83 \<Longrightarrow> l \<le> n \<Longrightarrow> n \<le> BMAX \<Longrightarrow>
    huft_find tabs u j (bs div 2 ^ l) = Some (r, k) \<Longrightarrow> huft_find tabs t n bs = Some (r, l + k)"
  by (subst huft_find.simps) simp

lemma huft_find_leaf:
  "cell tabs t (bs mod 2 ^ n) = Some r \<Longrightarrow> e r \<le> 16 \<or> e r = 99 \<Longrightarrow> b r \<le> n \<Longrightarrow> n \<le> BMAX \<Longrightarrow>
    huft_find tabs t n bs = Some (r, b r)"
  by (subst huft_find.simps) auto

lemma huft_find_built:
  assumes ok: "tables_ok g l ks val (length store) D (2 ^ g) ts"
    and val: "\<And>m. m < length ks \<Longrightarrow> fst (val m) \<le> 16 \<or> fst (val m) = 99"
    and code: "complete g ks" and l: "0 < l" "g \<le> BMAX"
  shows "t < length D \<Longrightarrow> D ! t = (w, reversed w bs, j) \<Longrightarrow>
    \<exists>m<length ks. \<exists>b'. w < ks ! m \<and> start g ks m div 2 ^ (g - ks ! m) = reversed (ks ! m) bs \<and>
      huft_find (store @ ts) (length store + t) (min j l) (bs div 2 ^ w) =
        Some (\<lparr>e = fst (val m), b = b', v = snd (val m)\<rparr>, ks ! m - w)"
proof (induction "g - w" arbitrary: t w j rule: less_induct)
  case less
  let ?n = "min j l"
  let ?J = "bs div 2 ^ w mod 2 ^ ?n"
  have len: "length ts = length D" and tab: "table_ok g l ks val (length store) D (2 ^ g) (w, reversed w bs, j) (ts ! t)"
    using ok less.prems by (auto simp: tables_ok_def)
  have g: "w + ?n \<le> g" and J: "?J < 2 ^ ?n" using tab by (simp_all add: table_ok_def)
  have c: "reversed w bs * 2 ^ ?n + reversed ?n ?J = reversed (w + ?n) bs" by (simp add: reversed_add)
  have "(reversed (w + ?n) bs + 1) * 2 ^ (g - (w + ?n)) \<le> 2 ^ (w + ?n) * 2 ^ (g - (w + ?n))"
    using reversed_less [of "w + ?n" bs] by (intro mult_le_mono1) simp
  then have "(reversed (w + ?n) bs + 1) * 2 ^ (g - (w + ?n)) \<le> 2 ^ g" using g by (simp flip: power_add)
  then have good: "good_cell g l ks val (length store) D w (reversed w bs) j ?J (ts ! t ! ?J)"
    using tab J c unfolding table_ok_def prod.case by metis
  have "length (ts ! t) = 2 ^ j" "(2 :: nat) ^ ?n \<le> 2 ^ j" using tab by (simp_all add: table_ok_def)
  then have "?J < length (ts ! t)" using J by (metis order.strict_trans2)
  then have cell: "cell (store @ ts) (length store + t) ?J = ts ! t ! ?J" using less.prems(1) len by (simp add: cell_def)
  from good consider
    (leaf) m where "m < length ks" "w < ks ! m" "ks ! m \<le> w + ?n"
      "start g ks m div 2 ^ (g - ks ! m) = reversed (w + ?n) bs div 2 ^ (w + ?n - ks ! m)"
      "ts ! t ! ?J = Some \<lparr>e = fst (val m), b = ks ! m - w, v = snd (val m)\<rparr>"
  | (link) u j2 where "l \<le> j" "u < length D" "D ! u = (w + l, reversed w bs * 2 ^ l + reversed l ?J, j2)"
      "ts ! t ! ?J = Some \<lparr>e = 16 + j2, b = l, v = T (length store + u)\<rparr>"
    unfolding good_cell_def c by blast
  then show ?case
  proof cases
    case leaf
    have "reversed (w + ?n) bs div 2 ^ (w + ?n - ks ! m) = reversed (ks ! m) bs"
      using reversed_div [of "ks ! m" "w + ?n - ks ! m" bs] leaf(3) by simp
    moreover have "huft_find (store @ ts) (length store + t) ?n (bs div 2 ^ w) =
        Some (\<lparr>e = fst (val m), b = ks ! m - w, v = snd (val m)\<rparr>, ks ! m - w)"
    proof -
      have "ks ! m - w \<le> ?n" "?n \<le> BMAX" using leaf(2,3) g l(2) by linarith+
      then show ?thesis
        using huft_find_leaf [of "store @ ts" "length store + t" "bs div 2 ^ w" ?n] leaf(5) val [OF leaf(1)] cell by simp
    qed
    ultimately show ?thesis using leaf by auto
  next
    case link
    have n: "?n = l" using link(1) by simp
    have d: "D ! u = (w + l, reversed (w + l) bs, j2)" using link(3) c n by simp
    have sub: "table_ok g l ks val (length store) D (2 ^ g) (w + l, reversed (w + l) bs, j2) (ts ! u)"
      using ok link(2) d by (auto simp: tables_ok_def)
    have j2: "j2 \<le> l" "j2 < 83" "min j2 l = j2" using sub l by (auto simp: table_ok_def)
    have "g - (w + l) < g - w" using g n l by simp
    from less.hyps [OF this link(2) d] obtain m b' where m: "m < length ks" "w + l < ks ! m"
      "start g ks m div 2 ^ (g - ks ! m) = reversed (ks ! m) bs"
      "huft_find (store @ ts) (length store + u) j2 (bs div 2 ^ (w + l)) =
        Some (\<lparr>e = fst (val m), b = b', v = snd (val m)\<rparr>, ks ! m - (w + l))" unfolding j2(3) by blast
    have "0 < j2" using sub by (simp add: table_ok_def)
    with huft_find_link [of "store @ ts" "length store + t" "bs div 2 ^ w" l j2 l] m(4) link(4) cell n j2 g l
    have "huft_find (store @ ts) (length store + t) ?n (bs div 2 ^ w) =
        Some (\<lparr>e = fst (val m), b = b', v = snd (val m)\<rparr>, l + (ks ! m - (w + l)))"
      by (simp add: div_mult2_eq power_add)
    with m show ?thesis by auto
  qed
qed

end
