(* ===== verification/GRUB_Huft_Codes.thy ===== *)
theory GRUB_Huft_Codes
  imports GRUB_Huft_Decode "HOL-Library.Multiset"
begin

text \<open>
  The whole of \<open>huft_build\<close>: its loops, its counting sort, its check of the number of codes, and the canonical code of
  RFC 1951 that its tables decode.
\<close>

section \<open>The loops\<close>

definition symbol_value :: "nat \<Rightarrow> nat list \<Rightarrow> nat list \<Rightarrow> nat \<Rightarrow> nat \<times> huft_v" where
  "symbol_value sv d ex p = (if p < sv then (if p < 256 then 16 else 15, N p) else (ex ! (p - sv), N (d ! (p - sv))))"

definition reached :: "nat \<Rightarrow> nat \<Rightarrow> nat list \<Rightarrow> (nat \<Rightarrow> nat \<times> huft_v) \<Rightarrow> huft option list list \<Rightarrow> nat \<Rightarrow> build \<Rightarrow> bool" where
  "reached g l ks val store m s \<longleftrightarrow>
     (if m < length ks then \<exists>D us ts. building g l ks val store D us ts m s
      else \<exists>D ts. tables s = store @ ts \<and> tables_ok g l ks val (length store) D (2 ^ g) ts \<and> D \<noteq> [])"

lemma value_entry_filled:
  assumes "p_val s < n" "vs ! p_val s = Some x"
  shows "value_entry n sv d ex vs kw s =
    Some (s\<lparr>r_entry := \<lparr>e = fst (symbol_value sv d ex x), b = kw, v = snd (symbol_value sv d ex x)\<rparr>, p_val := p_val s + 1\<rparr>)"
  using assms by (simp add: value_entry_def symbol_value_def Let_def)

lemma one_code_filled:
  assumes "p_val (make_tables c l g k a s) < n" "vs ! p_val (make_tables c l g k a s) = Some x"
  shows "one_code c l g n sv d ex vs k a s = Some (filled l k (symbol_value sv d ex x) (make_tables c l g k a s))"
  by (simp add: one_code_def value_entry_filled [OF assms] filled_def Let_def)

lemma codes_of_length_reached:
  assumes code: "complete g ks" "\<And>i. 0 < i \<Longrightarrow> i \<le> g \<Longrightarrow> c ! i = count_list ks i"
    and l: "0 < l" "l \<le> g" "g < 2 * l \<or> length ks \<le> 2 ^ l"
    and vs: "\<And>m. m < length ks \<Longrightarrow> vs ! m = Some (syms ! m)" "length ks \<le> n"
  shows "reached g l ks (\<lambda>m. symbol_value sv d ex (syms ! m)) store m s \<Longrightarrow> (\<And>i. i < cnt \<Longrightarrow> m + i < length ks \<and> ks ! (m + i) = k) \<Longrightarrow>
    m + cnt = codes_upto ks k \<Longrightarrow>
    \<exists>s'. codes_of_length (one_code c l g n sv d ex vs k) cnt s = Some s' \<and>
      reached g l ks (\<lambda>m. symbol_value sv d ex (syms ! m)) store (m + cnt) s'"
proof (induction cnt arbitrary: m s)
  case (Suc a)
  let ?val = "\<lambda>m. symbol_value sv d ex (syms ! m)"
  have m: "m < length ks" "ks ! m = k" using Suc.prems(2) [of 0] by simp_all
  then obtain D us ts where "building g l ks ?val store D us ts m s" using Suc.prems(1) by (auto simp: reached_def)
  moreover have "m + a + 1 = codes_upto ks (ks ! m)" using Suc.prems(3) m(2) by simp
  ultimately obtain D us ts where made: "building g l ks ?val store D us ts m (make_tables c l g (ks ! m) a s)" "ks ! m \<le> l * length us"
    using make_tables_building [OF _ code m(1) _ l] by blast
  let ?s = "make_tables c l g k a s"
  have p: "p_val ?s = m" using made(1) m(2) by (simp add: building_def)
  have one: "one_code c l g n sv d ex vs k a s = Some (filled l k (?val m) ?s)"
    using one_code_filled [of c l g k a s n vs "syms ! m"] p vs m(1) by simp
  have "reached g l ks ?val store (Suc m) (filled l k (?val m) ?s)"
  proof (cases "Suc m < length ks")
    case True
    then show ?thesis using filled_building [OF made(1) code(1) True made(2) l(1)] m(2) unfolding reached_def by auto
  next
    case False
    then have "Suc m = length ks" using m(1) by simp
    then have "start g ks (Suc m) = 2 ^ g" using code(1) by (simp add: complete_def)
    then show ?thesis using filled_tables [OF made(1) code(1) m(1) made(2) l(1)] m(2) False by (auto simp: reached_def)
  qed
  moreover have "Suc m + i < length ks \<and> ks ! (Suc m + i) = k" if "i < a" for i using Suc.prems(2) [of "Suc i"] that by simp
  ultimately show ?case using Suc.IH [of "Suc m"] Suc.prems(3) one by (simp add: add_Suc)
qed simp

lemma all_codes_reached:
  assumes code: "complete g ks" "\<And>i. 0 < i \<Longrightarrow> i \<le> g \<Longrightarrow> c ! i = count_list ks i"
    and l: "0 < l" "l \<le> g" "g < 2 * l \<or> length ks \<le> 2 ^ l"
    and vs: "\<And>m. m < length ks \<Longrightarrow> vs ! m = Some (syms ! m)" "length ks \<le> n"
  shows "k \<le> g \<Longrightarrow> reached g l ks (\<lambda>m. symbol_value sv d ex (syms ! m)) store (codes_upto ks k) s \<Longrightarrow>
    \<exists>s'. all_codes (one_code c l g n sv d ex vs) c [Suc k..<Suc g] s = Some s' \<and>
      reached g l ks (\<lambda>m. symbol_value sv d ex (syms ! m)) store (length ks) s'"
proof (induction "g - k" arbitrary: k s)
  case 0
  then have "codes_upto ks k = length ks" using code(1) by (auto simp: codes_upto_def complete_def filter_id_conv)
  with 0 show ?case by simp
next
  case (Suc x)
  have k: "Suc k \<le> g" using Suc by simp
  have s: "sorted ks" using code(1) by (simp add: complete_def)
  have same: "codes_upto ks k + i < length ks \<and> ks ! (codes_upto ks k + i) = Suc k" if "i < count_list ks (Suc k)" for i
    using that codes_upto_Suc [of ks k] codes_upto_le [of ks "Suc k"] codes_upto_nth [OF s, of "codes_upto ks k + i" k]
      codes_upto_nth [OF s, of "codes_upto ks k + i" "Suc k"] by simp
  obtain s' where s': "codes_of_length (one_code c l g n sv d ex vs (Suc k)) (c ! Suc k) s = Some s'"
    "reached g l ks (\<lambda>m. symbol_value sv d ex (syms ! m)) store (codes_upto ks (Suc k)) s'"
    using codes_of_length_reached [OF code l vs Suc.prems(2) same codes_upto_Suc [symmetric]] code(2) [OF _ k] codes_upto_Suc [of ks k]
    by auto
  have "[Suc k..<Suc g] = Suc k # [Suc (Suc k)..<Suc g]" using k by (simp add: upt_conv_Cons)
  with Suc.hyps(1) [of "Suc k" s'] Suc.hyps(2) s' k show ?case by simp
qed

section \<open>The counts, the order of the symbols and the counting sort\<close>

definition by_length :: "nat list \<Rightarrow> nat list" where
  "by_length bs = sort_key (\<lambda>i. bs ! i) (filter (\<lambda>i. bs ! i \<noteq> 0) [0..<length bs])"

definition sorted_lengths :: "nat list \<Rightarrow> nat list" where
  "sorted_lengths bs = map (\<lambda>i. bs ! i) (by_length bs)"

definition of_length :: "nat list \<Rightarrow> nat \<Rightarrow> nat \<Rightarrow> nat list" where
  "of_length bs k i = filter (\<lambda>j. bs ! j = k) [0..<i]"

text \<open>The sum of Kraft's inequality, times \<open>2\<^sup>1\<^sup>6\<close>, is that of a code with no unused code word.\<close>

definition full :: "nat list \<Rightarrow> bool" where
  "full bs \<longleftrightarrow> (\<forall>k\<in>set bs. k \<le> BMAX) \<and> (\<Sum>k\<leftarrow>filter (\<lambda>k. k \<noteq> 0) bs. 2 ^ (BMAX - k)) = (2 :: nat) ^ BMAX"

lemma length_of_length_Suc: "of_length bs k (Suc i) = of_length bs k i @ (if bs ! i = k then [i] else [])"
  by (simp add: of_length_def)

lemma of_length_nth:
  assumes "i < length bs" "bs ! i = k"
  shows "length (of_length bs k i) < length (of_length bs k (length bs))"
    "of_length bs k (length bs) ! length (of_length bs k i) = i"
proof -
  have "[0..<length bs] = [0..<i] @ i # [Suc i..<length bs]" using assms(1) upt_add_eq_append [of 0 i "length bs - i"] upt_conv_Cons [of i "length bs"] by simp
  then have "of_length bs k (length bs) = of_length bs k i @ i # filter (\<lambda>j. bs ! j = k) [Suc i..<length bs]"
    using assms(2) by (simp add: of_length_def)
  then show "length (of_length bs k i) < length (of_length bs k (length bs))"
    "of_length bs k (length bs) ! length (of_length bs k i) = i" by simp_all
qed

lemma sorted_split:
  fixes f :: "'a \<Rightarrow> nat"
  shows "sorted (map f xs) \<Longrightarrow> xs = filter (\<lambda>x. f x < k) xs @ filter (\<lambda>x. f x = k) xs @ filter (\<lambda>x. k < f x) xs"
proof (induction xs)
  case (Cons x xs)
  then have "f x \<le> f y" if "y \<in> set xs" for y using that by simp
  then have "k \<le> f x \<Longrightarrow> filter (\<lambda>x. f x < k) xs = []" "k < f x \<Longrightarrow> filter (\<lambda>x. f x = k) xs = []"
    by (fastforce simp: filter_empty_conv)+
  with Cons show ?case by (cases "f x" k rule: linorder_cases) auto
qed simp

lemma by_length_sorted: "sorted (sorted_lengths bs)"
  by (simp add: sorted_lengths_def by_length_def)

lemma mset_sorted_lengths: "mset (sorted_lengths bs) = mset (filter (\<lambda>k. k \<noteq> 0) bs)"
proof -
  have "filter (\<lambda>k. k \<noteq> 0) bs = map (\<lambda>i. bs ! i) (filter (\<lambda>i. bs ! i \<noteq> 0) [0..<length bs])"
    using filter_map [of "\<lambda>k. k \<noteq> 0" "\<lambda>i. bs ! i" "[0..<length bs]"] by (simp add: map_nth o_def)
  then show ?thesis by (simp add: sorted_lengths_def by_length_def)
qed

lemma count_sorted_lengths: "0 < k \<Longrightarrow> count_list (sorted_lengths bs) k = count_list bs k"
proof -
  assume k: "0 < k"
  have "count_list (sorted_lengths bs) k = count_list (filter (\<lambda>k. k \<noteq> 0) bs) k"
    using mset_sorted_lengths [of bs] count_mset by (metis count_list_eq_length_filter)
  also have "\<dots> = count_list bs k" using k by (induction bs) auto
  finally show ?thesis .
qed

lemma filter_sort_key: "filter (\<lambda>i. bs ! i = k) (by_length bs) = (if k = 0 then [] else of_length bs k (length bs))"
proof -
  have "filter (\<lambda>i. bs ! i = k) (by_length bs) = filter (\<lambda>i. bs ! i = k) (filter (\<lambda>i. bs ! i \<noteq> 0) [0..<length bs])"
    unfolding by_length_def by (rule sort_key_stable)
  then show ?thesis by (auto simp: of_length_def filter_empty_conv intro!: filter_cong)
qed

lemma length_of_length: "0 < k \<Longrightarrow> length (of_length bs k (length bs)) = count_list (sorted_lengths bs) k"
proof -
  assume "0 < k"
  moreover have "(\<lambda>i. k = bs ! i) = (\<lambda>i. bs ! i = k)" by auto
  ultimately show ?thesis using filter_sort_key [of bs k]
    by (simp add: count_list_eq_length_filter sorted_lengths_def filter_map o_def)
qed

lemma by_length_nth:
  assumes "0 < k" "r < length (of_length bs k (length bs))"
  shows "by_length bs ! (codes_upto (sorted_lengths bs) (k - 1) + r) = of_length bs k (length bs) ! r"
    "codes_upto (sorted_lengths bs) (k - 1) + r < codes_upto (sorted_lengths bs) k"
proof -
  have c: "codes_upto (sorted_lengths bs) (k - 1) = length (filter (\<lambda>i. bs ! i < k) (by_length bs))"
    using assms(1) less_Suc_eq_le [of _ "k - 1"] by (simp add: codes_upto_def sorted_lengths_def filter_map o_def)
  have "sorted (map (\<lambda>i. bs ! i) (by_length bs))" using by_length_sorted by (simp add: sorted_lengths_def)
  note split = arg_cong [OF sorted_split [OF this, of k], of "\<lambda>xs. xs ! (length (filter (\<lambda>i. bs ! i < k) (by_length bs)) + r)"]
  show "by_length bs ! (codes_upto (sorted_lengths bs) (k - 1) + r) = of_length bs k (length bs) ! r"
    unfolding c by (rule trans [OF split]) (use assms filter_sort_key [of bs k] in \<open>simp add: nth_append\<close>)
  show "codes_upto (sorted_lengths bs) (k - 1) + r < codes_upto (sorted_lengths bs) k"
    using codes_upto_Suc [of "sorted_lengths bs" "k - 1"] length_of_length [OF assms(1), of bs] assms by simp
qed

lemma fold_counts:
  "(\<forall>k\<in>set bs. k < length c) \<Longrightarrow> length (fold (\<lambda>k c. c[k := c ! k + 1]) bs c) = length c \<and>
    (\<forall>k<length c. fold (\<lambda>k c. c[k := c ! k + 1]) bs c ! k = c ! k + count_list bs k)"
  by (induction bs arbitrary: c) (auto simp: nth_list_update)

lemma length_counts_nth:
  assumes "\<forall>k\<in>set bs. k \<le> BMAX"
  shows "length (length_counts bs) = BMAX + 1" "k \<le> BMAX \<Longrightarrow> length_counts bs ! k = count_list bs k"
proof -
  have "\<forall>k\<in>set bs. k < length (replicate (BMAX + 1) (0 :: nat))" using assms by auto
  from fold_counts [OF this] show "length (length_counts bs) = BMAX + 1" "k \<le> BMAX \<Longrightarrow> length_counts bs ! k = count_list bs k"
    unfolding length_counts_def by (simp_all add: less_Suc_eq_le)
qed

lemma used_lengths:
  assumes "\<forall>k\<in>set bs. k \<le> BMAX"
  shows "set (filter (\<lambda>j. length_counts bs ! j \<noteq> 0) [1..<BMAX + 1]) = {k \<in> set bs. k \<noteq> 0}"
proof -
  have "count_list bs k \<noteq> 0 \<longleftrightarrow> k \<in> set bs" for k by (induction bs) auto
  then show ?thesis using assms length_counts_nth(2) [OF assms] by (auto simp: less_Suc_eq_le)
qed

lemma sorted_ends:
  fixes xs :: "nat list"
  assumes "sorted xs" "x \<in> set xs"
  shows "hd xs \<le> x" "x \<le> last xs"
proof -
  obtain i where i: "i < length xs" "x = xs ! i" using assms(2) by (auto simp: in_set_conv_nth)
  then have "xs \<noteq> []" by auto
  then show "hd xs \<le> x" "x \<le> last xs"
    using i sorted_nth_mono [OF assms(1), of 0 i] sorted_nth_mono [OF assms(1), of i "length xs - 1"]
    by (simp_all add: hd_conv_nth last_conv_nth)
qed

lemma length_bounds:
  assumes "\<forall>k\<in>set bs. k \<le> BMAX" "\<exists>k\<in>set bs. k \<noteq> 0"
  shows "max_length (length_counts bs) \<in> set bs" "\<forall>k\<in>set bs. k \<le> max_length (length_counts bs)"
    "min_length (length_counts bs) \<in> set bs" "0 < min_length (length_counts bs)"
    "\<forall>k\<in>set bs. k \<noteq> 0 \<longrightarrow> min_length (length_counts bs) \<le> k"
proof -
  define xs where "xs = filter (\<lambda>j. length_counts bs ! j \<noteq> 0) [1..<BMAX + 1]"
  have set: "set xs = {k \<in> set bs. k \<noteq> 0}" unfolding xs_def by (rule used_lengths [OF assms(1)])
  with assms(2) have ne: "xs \<noteq> []" by fastforce
  have sorted: "sorted xs" unfolding xs_def by (rule sorted_wrt_filter [OF sorted_upt])
  have max: "max_length (length_counts bs) = last xs"
    unfolding max_length_def rev_filter [symmetric] xs_def [symmetric] using ne by (simp add: hd_append hd_rev)
  have min: "min_length (length_counts bs) = hd xs"
    unfolding min_length_def xs_def [symmetric] using ne by (simp add: hd_append)
  have "last xs \<in> set xs" "hd xs \<in> set xs" using ne by simp_all
  then show "max_length (length_counts bs) \<in> set bs" "min_length (length_counts bs) \<in> set bs" "0 < min_length (length_counts bs)"
    unfolding max min set by simp_all
  show "\<forall>k\<in>set bs. k \<noteq> 0 \<longrightarrow> min_length (length_counts bs) \<le> k"
    unfolding min using sorted_ends(1) [OF sorted] set by simp
  show "\<forall>k\<in>set bs. k \<le> max_length (length_counts bs)"
  proof
    fix k
    assume "k \<in> set bs"
    then show "k \<le> max_length (length_counts bs)" unfolding max using sorted_ends(2) [OF sorted, of k] set by (cases "k = 0") auto
  qed
qed

lemma start_kraft:
  assumes "\<forall>k\<in>set bs. k \<le> g" "g \<le> BMAX"
  shows "start g (sorted_lengths bs) (length (sorted_lengths bs)) * 2 ^ (BMAX - g) = (\<Sum>k\<leftarrow>filter (\<lambda>k. k \<noteq> 0) bs. 2 ^ (BMAX - k))"
proof -
  let ?ks = "sorted_lengths bs"
  have set: "set ?ks = {k \<in> set bs. k \<noteq> 0}" using arg_cong [OF mset_sorted_lengths [of bs], of set_mset] by auto
  have "(\<Sum>k\<leftarrow>?ks. 2 ^ (g - k)) * 2 ^ (BMAX - g) = (\<Sum>k\<leftarrow>?ks. 2 ^ (g - k) * (2 :: nat) ^ (BMAX - g))"
    by (rule sum_list_mult_const [symmetric])
  also have "\<dots> = (\<Sum>k\<leftarrow>?ks. 2 ^ (BMAX - k))"
    using set assms by (intro arg_cong [of _ _ sum_list] map_cong refl) (auto simp flip: power_add)
  also have "\<dots> = (\<Sum>k\<leftarrow>filter (\<lambda>k. k \<noteq> 0) bs. 2 ^ (BMAX - k))"
    using mset_sorted_lengths [of bs] by (simp flip: sum_mset_sum_list add: mset_map)
  finally show ?thesis by (simp add: start_def)
qed

lemma full_complete:
  assumes "full bs" "g \<in> set bs" "\<forall>k\<in>set bs. k \<le> g"
  shows "complete g (sorted_lengths bs)"
proof -
  let ?ks = "sorted_lengths bs"
  have set: "set ?ks = {k \<in> set bs. k \<noteq> 0}" using arg_cong [OF mset_sorted_lengths [of bs], of set_mset] by auto
  have g: "g \<le> BMAX" using assms by (auto simp: full_def)
  have "start g ?ks (length ?ks) * 2 ^ (BMAX - g) = 2 ^ g * 2 ^ (BMAX - g)"
    using start_kraft [OF assms(3) g] assms(1) g by (simp add: full_def flip: power_add)
  then have "start g ?ks (length ?ks) = 2 ^ g" by simp
  then show ?thesis using by_length_sorted set assms(3) by (auto simp: complete_def)
qed

lemma codes_upto_mono: "k \<le> k' \<Longrightarrow> codes_upto ks k \<le> codes_upto ks k'"
  by (induction ks) (auto simp: codes_upto_def)

lemma length_of_length_le: "i \<le> i' \<Longrightarrow> length (of_length bs k i) \<le> length (of_length bs k i')"
  by (induction i' rule: dec_induct) (auto simp: length_of_length_Suc)

lemma offsets_nth:
  assumes "\<forall>k\<in>set bs. k \<le> BMAX" "0 < k" "k \<le> g" "g \<le> BMAX"
  shows "offsets (length_counts bs) g ! k = codes_upto (sorted_lengths bs) (k - 1)"
proof -
  note len = length_counts_nth [OF assms(1)]
  have "sum_list (take j (tl (length_counts bs))) = codes_upto (sorted_lengths bs) j" if "j < BMAX" for j
    using that
  proof (induction j)
    case 0
    have "k \<noteq> 0" if "k \<in> set (sorted_lengths bs)" for k
      using that arg_cong [OF mset_sorted_lengths [of bs], of set_mset] by auto
    then show ?case by (auto simp: codes_upto_def filter_empty_conv)
  next
    case (Suc j)
    have "j < length (tl (length_counts bs))" "tl (length_counts bs) ! j = length_counts bs ! Suc j"
      using Suc.prems len(1) by (simp_all add: nth_tl)
    then show ?case
      using Suc len(2) [of "Suc j"] by (simp add: take_Suc_conv_app_nth codes_upto_Suc count_sorted_lengths)
  qed
  then show ?thesis using assms by (simp add: offsets_def del: upt_Suc)
qed

lemma by_length_place:
  assumes "m < length (sorted_lengths bs)" "sorted_lengths bs ! m = k"
  obtains r where "0 < k" "r < length (of_length bs k (length bs))" "m = codes_upto (sorted_lengths bs) (k - 1) + r"
    "by_length bs ! m = of_length bs k (length bs) ! r"
proof -
  have "k \<in> set (sorted_lengths bs)" using assms by auto
  then have k: "0 < k" using arg_cong [OF mset_sorted_lengths [of bs], of set_mset] by auto
  have "\<not> m < codes_upto (sorted_lengths bs) (k - 1)" "m < codes_upto (sorted_lengths bs) (Suc (k - 1))"
    using codes_upto_nth [OF by_length_sorted assms(1), of "k - 1"] codes_upto_nth [OF by_length_sorted assms(1), of k] assms(2) k by auto
  then have r: "m - codes_upto (sorted_lengths bs) (k - 1) < length (of_length bs k (length bs))"
    "m = codes_upto (sorted_lengths bs) (k - 1) + (m - codes_upto (sorted_lengths bs) (k - 1))"
    unfolding codes_upto_Suc using length_of_length [OF k, of bs] k by auto
  with by_length_nth(1) [OF k r(1)] that [OF k r] show thesis by simp
qed

lemma of_length_apart:
  assumes "0 < k" "r < length (of_length bs k (length bs))" "0 < j" "q < length (of_length bs j (length bs))" "j \<noteq> k"
  shows "codes_upto (sorted_lengths bs) (k - 1) + r \<noteq> codes_upto (sorted_lengths bs) (j - 1) + q"
proof (cases "k < j")
  case True
  then have "k \<le> j - 1" by simp
  with by_length_nth(2) [OF assms(1,2)] codes_upto_mono [OF this, of "sorted_lengths bs"] show ?thesis by linarith
next
  case False
  then have "j \<le> k - 1" using assms(5) by simp
  with by_length_nth(2) [OF assms(3,4)] codes_upto_mono [OF this, of "sorted_lengths bs"] show ?thesis by linarith
qed

lemma sort_values_places:
  assumes "drop i bs0 = bs" "i \<le> length bs0" "\<forall>k\<in>set bs0. k \<le> g" "length x = g + 1" "length vs = length bs0"
    "\<And>k. 0 < k \<Longrightarrow> k \<le> g \<Longrightarrow> x ! k = codes_upto (sorted_lengths bs0) (k - 1) + length (of_length bs0 k i)"
    "\<And>k r. 0 < k \<Longrightarrow> r < length (of_length bs0 k i) \<Longrightarrow>
      vs ! (codes_upto (sorted_lengths bs0) (k - 1) + r) = Some (of_length bs0 k (length bs0) ! r)"
    "0 < k" "r < length (of_length bs0 k (length bs0))"
  shows "sort_values bs i x vs ! (codes_upto (sorted_lengths bs0) (k - 1) + r) = Some (of_length bs0 k (length bs0) ! r)"
  using assms
proof (induction bs arbitrary: i x vs)
  case Nil
  then have "i = length bs0" by simp
  with Nil show ?case by simp
next
  case (Cons j bs)
  let ?off = "\<lambda>k. codes_upto (sorted_lengths bs0) (k - 1)" and ?n = "length bs0"
  have i: "i < ?n" using Cons.prems(1) by (metis drop_eq_Nil2 list.discI not_less)
  have j: "j = bs0 ! i" "drop (i + 1) bs0 = bs" using Cons.prems(1) i by (simp_all add: Cons_nth_drop_Suc [symmetric])
  show ?case
  proof (cases "j = 0")
    case True
    have "sort_values bs (i + 1) x vs ! (?off k + r) = Some (of_length bs0 k ?n ! r)"
      using Cons.prems i j True by (intro Cons.IH) (simp_all add: length_of_length_Suc)
    then show ?thesis using True by simp
  next
    case False
    let ?x = "x[j := x ! j + 1]" and ?vs = "vs[x ! j := Some i]"
    have jg: "0 < j" "j \<le> g" using False Cons.prems(3) i j(1) by simp_all
    have xj: "x ! j = ?off j + length (of_length bs0 j i)" using Cons.prems(6) [OF jg] .
    note new = of_length_nth [OF i j(1) [symmetric]]
    have "x ! j < ?n" using by_length_nth(2) [OF jg(1) new(1)] codes_upto_le [of "sorted_lengths bs0" j] xj
      size_mset [of "sorted_lengths bs0"] mset_sorted_lengths [of bs0] length_filter_le [of "\<lambda>k. k \<noteq> 0" bs0]
      by (metis le_trans order_less_le_trans size_mset)
    have "sort_values bs (i + 1) ?x ?vs ! (?off k + r) = Some (of_length bs0 k ?n ! r)"
    proof (rule Cons.IH [OF j(2) _ Cons.prems(3) _ _ _ _ Cons.prems(8,9)])
      fix k
      assume "0 < k" "k \<le> g"
      then show "?x ! k = ?off k + length (of_length bs0 k (i + 1))"
        using Cons.prems(4) Cons.prems(6) [of k] j(1) xj by (simp add: nth_list_update length_of_length_Suc)
    next
      fix k r
      assume k: "0 < k" "r < length (of_length bs0 k (i + 1))"
      show "?vs ! (?off k + r) = Some (of_length bs0 k ?n ! r)"
      proof (cases "k = j \<and> r = length (of_length bs0 j i)")
        case True
        then show ?thesis using xj new(2) \<open>x ! j < ?n\<close> Cons.prems(5) by simp
      next
        case False
        have r: "r < length (of_length bs0 k i)" using k(2) False j(1) by (auto simp: length_of_length_Suc split: if_splits)
        have "?off k + r \<noteq> x ! j"
        proof (cases "k = j")
          case True
          then show ?thesis using r xj by simp
        next
          case False
          then show ?thesis using of_length_apart [OF k(1) _ jg(1) new(1)] r length_of_length_le [of i ?n bs0 k] i xj by simp
        qed
        then show ?thesis using Cons.prems(7) [OF k(1) r] by simp
      qed
    qed (use i Cons.prems(4,5) in simp_all)
    then show ?thesis using False by simp
  qed
qed

lemma sort_values_sorted:
  assumes "\<forall>k\<in>set bs. k \<le> g" "g \<le> BMAX" "m < length (sorted_lengths bs)"
  shows "sort_values bs 0 (offsets (length_counts bs) g) (replicate (length bs) None) ! m = Some (by_length bs ! m)"
proof -
  obtain r where r: "0 < sorted_lengths bs ! m" "r < length (of_length bs (sorted_lengths bs ! m) (length bs))"
    "m = codes_upto (sorted_lengths bs) (sorted_lengths bs ! m - 1) + r"
    "by_length bs ! m = of_length bs (sorted_lengths bs ! m) (length bs) ! r"
    using by_length_place [OF assms(3) refl] .
  have b: "\<forall>k\<in>set bs. k \<le> BMAX" using assms(1,2) by auto
  have "sort_values bs 0 (offsets (length_counts bs) g) (replicate (length bs) None) !
      (codes_upto (sorted_lengths bs) (sorted_lengths bs ! m - 1) + r) = Some (of_length bs (sorted_lengths bs ! m) (length bs) ! r)"
  proof (rule sort_values_places [OF _ _ assms(1) _ _ _ _ r(1,2)])
    fix k
    assume "0 < k" "k \<le> g"
    then show "offsets (length_counts bs) g ! k = codes_upto (sorted_lengths bs) (k - 1) + length (of_length bs k 0)"
      using offsets_nth [OF b _ _ assms(2)] by (simp add: of_length_def)
  qed (simp_all add: offsets_def of_length_def)
  then show ?thesis using r(3,4) by simp
qed

lemma dummy_loop_none:
  assumes "complete g ks" "\<And>i. 0 < i \<Longrightarrow> i \<le> g \<Longrightarrow> c ! i = count_list ks i"
  shows "0 < j \<Longrightarrow> j + n = g \<Longrightarrow> y * 2 ^ n = 2 ^ g - int (start g ks (codes_upto ks (j - 1))) \<Longrightarrow> dummy_loop c j n y = Some 0"
proof (induction n arbitrary: j y)
  case (Suc n)
  have s: "sorted ks" using assms(1) by (simp add: complete_def)
  have "start g ks (codes_upto ks j) = start g ks (codes_upto ks (j - 1)) + c ! j * 2 ^ Suc n"
    using start_upto_Suc [OF s, of g "j - 1"] Suc.prems(1,2) assms(2) [of j] by (simp flip: Suc.prems(2))
  then have y: "(y - int (c ! j)) * 2 ^ Suc n = 2 ^ g - int (start g ks (codes_upto ks j))"
    using Suc.prems(3) by (simp add: algebra_simps)
  have "0 \<le> (2 :: int) ^ g - int (start g ks (codes_upto ks j))"
    using start_le [OF assms(1) codes_upto_le, of j] by (simp flip: of_nat_power)
  then have "0 \<le> (y - int (c ! j)) * 2 ^ Suc n" using y by simp
  then have "0 \<le> y - int (c ! j)" by (simp add: zero_le_mult_iff del: power_Suc)
  moreover have "dummy_loop c (j + 1) n (2 * (y - int (c ! j))) = Some 0"
    using Suc.prems(2) y by (intro Suc.IH) (simp_all add: algebra_simps)
  ultimately show ?case by simp
next
  case 0
  have s: "sorted ks" using assms(1) by (simp add: complete_def)
  have "start g ks (codes_upto ks j) = start g ks (codes_upto ks (j - 1)) + c ! j"
    using start_upto_Suc [OF s, of g "j - 1"] 0 assms(2) [of j] by simp
  then have "int (2 ^ g) = int (start g ks (codes_upto ks (j - 1)) + c ! j)" using 0 start_upto_top [OF assms(1), of j] by simp
  then show ?case using 0 by simp
qed

lemma dummy_codes_none:
  assumes "complete g ks" "\<And>i. 0 < i \<Longrightarrow> i \<le> g \<Longrightarrow> c ! i = count_list ks i" "0 < j" "j \<le> g" "\<forall>k\<in>set ks. j \<le> k"
  shows "dummy_codes c j g = Some 0"
proof -
  have "filter (\<lambda>k. k \<le> j - 1) ks = []" using assms(3,5) by (fastforce simp: filter_empty_conv)
  then have "codes_upto ks (j - 1) = 0" by (simp add: codes_upto_def)
  then show ?thesis unfolding dummy_codes_def using assms(3,4)
    by (intro dummy_loop_none [OF assms(1,2)]) (simp_all flip: power_add)
qed

section \<open>The canonical code\<close>

text \<open>RFC 1951, 3.2.2: the first code of each length, and the code of a symbol. The bits of a code go into the stream
  from the most significant one, which the program sees as the lowest bit of its buffer.\<close>

fun next_code :: "nat list \<Rightarrow> nat \<Rightarrow> nat" where
  "next_code bs 0 = 0"
| "next_code bs (Suc k) = 2 * (next_code bs k + (if k = 0 then 0 else count_list bs k))"

definition code_word :: "nat list \<Rightarrow> nat \<Rightarrow> nat" where
  "code_word bs symb = next_code bs (bs ! symb) + length (of_length bs (bs ! symb) symb)"

lemma next_code_start:
  assumes "complete g (sorted_lengths bs)" "0 < k" "k \<le> g"
  shows "next_code bs k * 2 ^ (g - k) = start g (sorted_lengths bs) (codes_upto (sorted_lengths bs) (k - 1))"
  using assms(2,3)
proof (induction k)
  case (Suc k)
  have s: "sorted (sorted_lengths bs)" by (rule by_length_sorted)
  show ?case
  proof (cases "k = 0")
    case True
    have "filter (\<lambda>k. k \<le> 0) (sorted_lengths bs) = []" using assms(1) by (auto simp: complete_def filter_empty_conv)
    then show ?thesis using True by (simp add: codes_upto_def)
  next
    case False
    have "(2 :: nat) ^ (g - k) = 2 * 2 ^ (g - Suc k)" using Suc.prems(2) by (simp add: Suc_diff_Suc flip: power_Suc)
    then show ?thesis
      using Suc False start_upto_Suc [OF s, of g "k - 1"] by (simp add: count_sorted_lengths algebra_simps)
  qed
qed simp

lemma code_word_start:
  assumes "complete g (sorted_lengths bs)" "symb < length bs" "bs ! symb \<noteq> 0" "bs ! symb \<le> g"
  obtains m where "m < length (sorted_lengths bs)" "sorted_lengths bs ! m = bs ! symb" "by_length bs ! m = symb"
    "start g (sorted_lengths bs) m = code_word bs symb * 2 ^ (g - bs ! symb)"
proof -
  let ?k = "bs ! symb" and ?ks = "sorted_lengths bs"
  let ?m = "codes_upto ?ks (?k - 1) + length (of_length bs ?k symb)"
  note place = of_length_nth [OF assms(2) refl]
  have k: "0 < ?k" using assms(3) by simp
  note symb = by_length_nth [OF k place(1)]
  have m: "?m < length ?ks" using symb(2) codes_upto_le [of ?ks ?k] by simp
  have "start g ?ks ?m = start g ?ks (codes_upto ?ks (?k - 1)) + (?m - codes_upto ?ks (?k - 1)) * 2 ^ (g - ?k)"
  proof (rule start_same)
    fix i
    assume "codes_upto ?ks (?k - 1) \<le> i" "i < ?m"
    then show "?ks ! i = ?k"
      using codes_upto_nth [OF by_length_sorted, of i bs "?k - 1"] codes_upto_nth [OF by_length_sorted, of i bs ?k] symb(2) m k by auto
  qed (use m in simp_all)
  then have "start g ?ks ?m = code_word bs symb * 2 ^ (g - ?k)"
    using next_code_start [OF assms(1) k assms(4)] by (simp add: code_word_def add_mult_distrib)
  moreover have "by_length bs ! ?m = symb" using symb(1) place(2) by simp
  ultimately show thesis using that m by (simp add: sorted_lengths_def)
qed

section \<open>Correctness\<close>

lemma count_list_full: "count_list xs x = length xs \<Longrightarrow> y \<in> set xs \<Longrightarrow> y = x"
proof (induction xs)
  case (Cons z xs)
  then show ?case using count_le_length [of xs x] by (cases "z = x") auto
qed simp

lemma by_length_set: "set (by_length bs) = {i. i < length bs \<and> bs ! i \<noteq> 0}" "distinct (by_length bs)"
  by (auto simp: by_length_def)

lemma huft_build_reached:
  assumes "full bs" "0 < m" "length bs \<le> 2 ^ m \<or> (\<forall>k\<in>set bs. k < 2 * m)"
    and ex: "\<forall>i<length bs - sv. ex ! i \<le> 16 \<or> ex ! i = 99"
  obtains g l D ts where "complete g (sorted_lengths bs)" "\<forall>k\<in>set bs. k \<le> g" "0 < l" "g \<le> BMAX"
    "huft_build bs sv d ex m r0 store = Some (0, Some (length store), l, store @ ts)"
    "tables_ok g l (sorted_lengths bs) (\<lambda>m. symbol_value sv d ex (by_length bs ! m)) (length store) D (2 ^ g) ts" "D \<noteq> []"
    "g \<in> set bs" "l \<le> g"
proof -
  let ?c = "length_counts bs" and ?ks = "sorted_lengths bs"
  let ?k = "min_length ?c" and ?g = "max_length ?c"
  let ?l = "min (max m ?k) ?g" and ?vs = "sort_values bs 0 (offsets ?c ?g) (replicate (length bs) None)"
  have b: "\<forall>k\<in>set bs. k \<le> BMAX" using assms(1) by (simp add: full_def)
  have nz: "\<exists>k\<in>set bs. k \<noteq> 0"
  proof (rule ccontr)
    assume "\<not> (\<exists>k\<in>set bs. k \<noteq> 0)"
    then have "filter (\<lambda>k. k \<noteq> 0) bs = []" by (simp add: filter_empty_conv)
    with assms(1) show False unfolding full_def by simp
  qed
  note bounds = length_bounds [OF b nz]
  have g: "?g \<le> BMAX" using bounds(1) b by blast
  have k: "0 < ?k" "?k \<le> ?g" using bounds by auto
  have code: "complete ?g ?ks" using full_complete [OF assms(1) bounds(1,2)] .
  have set: "set ?ks = {k \<in> set bs. k \<noteq> 0}" using arg_cong [OF mset_sorted_lengths [of bs], of set_mset] by auto
  have len: "length ?ks \<le> length bs"
    by (metis length_filter_le mset_eq_length mset_sorted_lengths)
  have c: "?c ! i = count_list ?ks i" if "0 < i" "i \<le> ?g" for i
    using length_counts_nth(2) [OF b, of i] g that by (simp add: count_sorted_lengths)
  have l: "0 < ?l" "?l \<le> ?g" using k assms(2) by auto
  have size: "?g < 2 * ?l \<or> length ?ks \<le> 2 ^ ?l"
  proof (cases "m \<le> ?l")
    case True
    then have "(2 :: nat) ^ m \<le> 2 ^ ?l" by simp
    with assms(3) bounds(1) True len show ?thesis by force
  next
    case False
    then have "?l = ?g" by auto
    with k show ?thesis by simp
  qed
  let ?s = "\<lparr>tables = store, stack = [], q_ptr = 0, z_size = 0, i_code = 0, p_val = 0, r_entry = r0\<rparr>"
  let ?val = "\<lambda>m. symbol_value sv d ex (by_length bs ! m)"
  have "codes_upto ?ks (?k - 1) = 0" using bounds(5) k(1) set by (fastforce simp: codes_upto_def filter_empty_conv)
  moreover have "0 < length ?ks" using set nz by fastforce
  ultimately have "reached ?g ?l ?ks ?val store (codes_upto ?ks (?k - 1)) ?s"
    by (auto simp: reached_def building_def tables_ok_def intro!: exI [of _ "[]"])
  moreover have "Suc (?k - 1) = ?k" "?k - 1 \<le> ?g" using k by simp_all
  ultimately obtain s where s: "all_codes (one_code ?c ?l ?g (length bs) sv d ex ?vs) ?c [?k..<?g + 1] ?s = Some s"
    "reached ?g ?l ?ks ?val store (length ?ks) s"
    using all_codes_reached [OF code c l size sort_values_sorted [OF bounds(2) g] len, of "?k - 1" sv d ex store ?s]
    by (metis Suc_eq_plus1)
  from s(2) obtain D ts where t: "tables s = store @ ts" "tables_ok ?g ?l ?ks ?val (length store) D (2 ^ ?g) ts" "D \<noteq> []"
    by (auto simp: reached_def)
  have "?c ! 0 \<noteq> length bs"
  proof
    assume "?c ! 0 = length bs"
    then have "count_list bs 0 = length bs" using length_counts_nth(2) [OF b, of 0] by simp
    with nz count_list_full [of bs 0] show False by blast
  qed
  moreover have "dummy_codes ?c ?k ?g = Some 0" using bounds(5) set by (intro dummy_codes_none [OF code c k]) auto
  ultimately have built: "huft_build bs sv d ex m r0 store = Some (0, Some (length store), ?l, store @ ts)"
    using s(1) t(1) by (simp add: huft_build_def Let_def)
  show thesis by (rule that [OF code bounds(2) l(1) g built t(2,3) bounds(1) l(2)])
qed

lemma first_code:
  assumes "complete g ks" "m < length ks"
  shows "start g ks m div 2 ^ (g - ks ! m) = reversed (ks ! m) buf \<longleftrightarrow>
    start g ks m \<le> reversed g buf \<and> reversed g buf < start g ks (Suc m)"
  using in_code [OF assms, of "reversed g buf"] reversed_div [of "ks ! m" "g - ks ! m" buf] complete_nth [OF assms]
  by (auto simp: eq_commute)

lemma huft_find_first:
  assumes ok: "tables_ok g l ks val (length store) D (2 ^ g) ts" "D \<noteq> []"
    and val: "\<And>m. m < length ks \<Longrightarrow> fst (val m) \<le> 16 \<or> fst (val m) = 99"
    and code: "complete g ks" "g \<in> set ks" and l: "0 < l" "l \<le> g" "g \<le> BMAX"
  obtains m r where "m < length ks" "start g ks m div 2 ^ (g - ks ! m) = reversed (ks ! m) buf"
    "huft_find (store @ ts) (length store) l buf = Some (r, ks ! m)" "(e r, v r) = val m"
proof -
  from ok obtain j where D: "0 < length D" "D ! 0 = (0, 0, j)" by (auto simp: tables_ok_def)
  with ok(1) have "table_ok g l ks val (length store) D (2 ^ g) (0, 0, j) (ts ! 0)" unfolding tables_ok_def by metis
  then have "sized g l ks 0 0 j" by (simp add: table_ok_def)
  moreover obtain m where "m < length ks" "ks ! m = g" using code(2) by (auto simp: in_set_conv_nth)
  moreover have "start g ks m < 2 ^ g" using start_less [OF code(1)] calculation(2) .
  ultimately have "l \<le> j" using l(2) by (force simp: sized_def)
  moreover have "D ! 0 = (0, reversed 0 buf, j)" using D(2) by simp
  ultimately show thesis
    using huft_find_built [OF ok(1) val code(1) l(1,3) D(1), of 0 buf j] that by fastforce
qed

lemma huft_build_correct:
  assumes "full bs" "0 < m" "length bs \<le> 2 ^ m \<or> (\<forall>k\<in>set bs. k < 2 * m)"
    "\<forall>i<length bs - sv. ex ! i \<le> 16 \<or> ex ! i = 99"
  shows "\<exists>l tabs. huft_build bs sv d ex m r0 store = Some (0, Some (length store), l, tabs) \<and>
    (\<forall>symb<length bs. bs ! symb \<noteq> 0 \<longrightarrow> (\<forall>buf. reversed (bs ! symb) buf = code_word bs symb \<longrightarrow>
      (\<exists>r. huft_find tabs (length store) l buf = Some (r, bs ! symb) \<and> (e r, v r) = symbol_value sv d ex symb))) \<and>
    (\<forall>buf. \<exists>symb<length bs. bs ! symb \<noteq> 0 \<and> reversed (bs ! symb) buf = code_word bs symb)"
proof -
  obtain g l D ts where h: "complete g (sorted_lengths bs)" "\<forall>k\<in>set bs. k \<le> g" "0 < l" "g \<le> BMAX"
    "huft_build bs sv d ex m r0 store = Some (0, Some (length store), l, store @ ts)"
    "tables_ok g l (sorted_lengths bs) (\<lambda>m. symbol_value sv d ex (by_length bs ! m)) (length store) D (2 ^ g) ts" "D \<noteq> []"
    "g \<in> set bs" "l \<le> g"
    using huft_build_reached [OF assms] .
  let ?ks = "sorted_lengths bs" and ?val = "\<lambda>m. symbol_value sv d ex (by_length bs ! m)"
  have len: "length (by_length bs) = length ?ks" by (simp add: sorted_lengths_def)
  have in_bs: "by_length bs ! m < length bs" if "m < length ?ks" for m
    using that by_length_set(1) [of bs] nth_mem [of m "by_length bs"] unfolding len by blast
  have val: "fst (?val m) \<le> 16 \<or> fst (?val m) = 99" if "m < length ?ks" for m
    using assms(4) in_bs [OF that] by (auto simp: symbol_value_def)
  have gk: "g \<in> set ?ks" using h(3,8,9) arg_cong [OF mset_sorted_lengths [of bs], of set_mset] by auto
  have found: "\<exists>m<length ?ks. \<exists>r. start g ?ks m div 2 ^ (g - ?ks ! m) = reversed (?ks ! m) buf \<and>
      huft_find (store @ ts) (length store) l buf = Some (r, ?ks ! m) \<and> (e r, v r) = ?val m" for buf
    using huft_find_first [OF h(6,7) val h(1) gk h(3,9,4), of buf] by metis
  have "\<exists>r. huft_find (store @ ts) (length store) l buf = Some (r, bs ! symb) \<and> (e r, v r) = symbol_value sv d ex symb"
    if symb: "symb < length bs" "bs ! symb \<noteq> 0" "reversed (bs ! symb) buf = code_word bs symb" for symb buf
  proof -
    have "bs ! symb \<le> g" using h(2) symb(1) by simp
    then obtain m where m: "m < length ?ks" "?ks ! m = bs ! symb" "by_length bs ! m = symb"
      "start g ?ks m = code_word bs symb * 2 ^ (g - bs ! symb)"
      using code_word_start [OF h(1) symb(1,2)] by blast
    obtain m' r where m': "m' < length ?ks" "start g ?ks m' div 2 ^ (g - ?ks ! m') = reversed (?ks ! m') buf"
      "huft_find (store @ ts) (length store) l buf = Some (r, ?ks ! m')" "(e r, v r) = ?val m'" using found by blast
    have "start g ?ks m div 2 ^ (g - ?ks ! m) = reversed (?ks ! m) buf" using m symb(3) by simp
    then have "m' = m" using first_code [OF h(1)] m(1) m'(1,2) start_inject by blast
    with m m' show ?thesis by auto
  qed
  moreover have "\<exists>symb<length bs. bs ! symb \<noteq> 0 \<and> reversed (bs ! symb) buf = code_word bs symb" for buf
  proof -
    obtain m where m: "m < length ?ks" "start g ?ks m div 2 ^ (g - ?ks ! m) = reversed (?ks ! m) buf" using found by blast
    let ?symb = "by_length bs ! m"
    have symb: "?symb < length bs" "bs ! ?symb \<noteq> 0" using by_length_set(1) [of bs] nth_mem [of m "by_length bs"] m(1) unfolding len by blast+
    have k: "?ks ! m = bs ! ?symb" using m(1) by (simp add: sorted_lengths_def)
    obtain m' where m': "m' < length ?ks" "by_length bs ! m' = ?symb" "start g ?ks m' = code_word bs ?symb * 2 ^ (g - bs ! ?symb)"
      using code_word_start [OF h(1) symb] h(2) symb(1) by (metis nth_mem)
    have "m' = m" using m'(1,2) m(1) by_length_set(2) [of bs] unfolding len [symmetric] by (simp add: nth_eq_iff_index_eq)
    with m'(3) m(2) k have "reversed (bs ! ?symb) buf = code_word bs ?symb" by simp
    with symb show ?thesis by blast
  qed
  ultimately show ?thesis using h(5) by blast
qed

text \<open>
  C6. \<open>huft_build\<close>, given the lengths of a complete code, returns 0 and tables that decode exactly the code of RFC 1951:
  whenever the bits of a buffer begin with the code word of a symbol, looking them up gives the symbol's entry and takes
  as many bits as the code word has; and whatever the bits are, they begin with the code word of some symbol.
\<close>

theorem huft_build_decodes:
  assumes "full bs" "0 < m" "length bs \<le> 2 ^ m \<or> (\<forall>k\<in>set bs. k < 2 * m)"
    "\<forall>i<length bs - sv. ex ! i \<le> 16 \<or> ex ! i = 99"
  shows "\<exists>l tabs. huft_build bs sv d ex m r0 store = Some (0, Some (length store), l, tabs) \<and>
    (\<forall>symb<length bs. bs ! symb \<noteq> 0 \<longrightarrow> (\<forall>buf. reversed (bs ! symb) buf = code_word bs symb \<longrightarrow>
      (\<exists>r. huft_find tabs (length store) l buf = Some (r, bs ! symb) \<and> (e r, v r) = symbol_value sv d ex symb))) \<and>
    (\<forall>buf. \<exists>symb<length bs. bs ! symb \<noteq> 0 \<and> reversed (bs ! symb) buf = code_word bs symb)"
  using assms by (rule huft_build_correct)

theorem huft_build_decodes_witness:
  "\<exists>l tabs. huft_build [3, 3, 3, 3, 3, 2, 4, 4] 8 [] [] 3 \<lparr>e = 0, b = 0, v = N 0\<rparr> [] = Some (0, Some 0, l, tabs) \<and>
    (\<exists>r. huft_find tabs 0 l 7 = Some (r, 4) \<and> e r = 16 \<and> v r = N 6)"
proof -
  let ?bs = "[3, 3, 3, 3, 3, 2, 4, 4] :: nat list"
  have "full ?bs" by (simp add: full_def)
  then obtain l tabs where h: "huft_build ?bs 8 [] [] 3 \<lparr>e = 0, b = 0, v = N 0\<rparr> [] = Some (0, Some 0, l, tabs)"
    "\<forall>symb<length ?bs. ?bs ! symb \<noteq> 0 \<longrightarrow> (\<forall>buf. reversed (?bs ! symb) buf = code_word ?bs symb \<longrightarrow>
      (\<exists>r. huft_find tabs 0 l buf = Some (r, ?bs ! symb) \<and> (e r, v r) = symbol_value 8 [] [] symb))"
    using huft_build_decodes [of ?bs 3 8 "[]" "[]" "\<lparr>e = 0, b = 0, v = N 0\<rparr>" "[]"] by auto
  have "code_word ?bs 6 = 14" by code_simp
  moreover have "reversed 4 7 = 14" by code_simp
  ultimately obtain r where "huft_find tabs 0 l 7 = Some (r, 4)" "(e r, v r) = symbol_value 8 [] [] 6"
    using h(2) [rule_format, of 6 7] by auto
  with h(1) show ?thesis by (auto simp: symbol_value_def)
qed

lemma dummy_loop_value:
  assumes "sorted ks" "\<And>i. 0 < i \<Longrightarrow> i \<le> g \<Longrightarrow> c ! i = count_list ks i"
  shows "0 < j \<Longrightarrow> j + n = g \<Longrightarrow> y * 2 ^ n = 2 ^ g - int (start g ks (codes_upto ks (j - 1))) \<Longrightarrow> dummy_loop c j n y = Some r \<Longrightarrow>
    0 \<le> r \<and> r = 2 ^ g - int (start g ks (codes_upto ks g))"
proof (induction n arbitrary: j y)
  case (Suc n)
  have "start g ks (codes_upto ks j) = start g ks (codes_upto ks (j - 1)) + c ! j * 2 ^ Suc n"
    using start_upto_Suc [OF assms(1), of g "j - 1"] Suc.prems(1,2) assms(2) [of j] by (simp flip: Suc.prems(2))
  then have "2 * (y - int (c ! j)) * 2 ^ n = 2 ^ g - int (start g ks (codes_upto ks j))"
    using Suc.prems(3) by (simp add: algebra_simps)
  with Suc show ?case by (auto split: if_splits)
next
  case 0
  have "start g ks (codes_upto ks j) = start g ks (codes_upto ks (j - 1)) + c ! j"
    using start_upto_Suc [OF assms(1), of g "j - 1"] 0 assms(2) [of j] by simp
  then show ?case using 0 by (auto split: if_splits)
qed

text \<open>
  Too many codes: when the lengths need more code words than there are, \<open>huft_build\<close> returns 2 and builds nothing.
\<close>

theorem huft_build_oversubscribed:
  assumes "\<forall>k\<in>set bs. k \<le> BMAX" "2 ^ BMAX < (\<Sum>k\<leftarrow>filter (\<lambda>k. k \<noteq> 0) bs. 2 ^ (BMAX - k) :: nat)"
  shows "\<exists>l. huft_build bs sv d ex m r0 store = Some (2, None, l, store)"
proof -
  let ?c = "length_counts bs" and ?ks = "sorted_lengths bs"
  let ?k = "min_length ?c" and ?g = "max_length ?c"
  have nz: "\<exists>k\<in>set bs. k \<noteq> 0"
  proof (rule ccontr)
    assume "\<not> (\<exists>k\<in>set bs. k \<noteq> 0)"
    then have "filter (\<lambda>k. k \<noteq> 0) bs = []" by (simp add: filter_empty_conv)
    with assms(2) show False by simp
  qed
  note bounds = length_bounds [OF assms(1) nz]
  have g: "?g \<le> BMAX" using bounds(1) assms(1) by blast
  have k: "0 < ?k" "?k \<le> ?g" using bounds by auto
  have set: "set ?ks = {k \<in> set bs. k \<noteq> 0}" using arg_cong [OF mset_sorted_lengths [of bs], of set_mset] by auto
  have c: "?c ! i = count_list ?ks i" if "0 < i" "i \<le> ?g" for i
    using length_counts_nth(2) [OF assms(1), of i] g that by (simp add: count_sorted_lengths)
  have "codes_upto ?ks ?g = length ?ks"
    using bounds(2) set by (simp add: codes_upto_def filter_id_conv)
  then have "start ?g ?ks (codes_upto ?ks ?g) * 2 ^ (BMAX - ?g) = (\<Sum>k\<leftarrow>filter (\<lambda>k. k \<noteq> 0) bs. 2 ^ (BMAX - k))"
    using start_kraft [OF bounds(2) g] by simp
  then have "2 ^ ?g * 2 ^ (BMAX - ?g) < start ?g ?ks (codes_upto ?ks ?g) * 2 ^ (BMAX - ?g)"
    using assms(2) g by (simp flip: power_add)
  then have over: "2 ^ ?g < start ?g ?ks (codes_upto ?ks ?g)" by simp
  have "codes_upto ?ks (?k - 1) = 0" using bounds(5) k(1) set by (fastforce simp: codes_upto_def filter_empty_conv)
  then have y: "2 ^ ?k * 2 ^ (?g - ?k) = 2 ^ ?g - int (start ?g ?ks (codes_upto ?ks (?k - 1)))"
    using k by (simp flip: power_add)
  have "dummy_codes ?c ?k ?g = None"
  proof (cases "dummy_codes ?c ?k ?g")
    case (Some r)
    then have "0 \<le> r" "r = 2 ^ ?g - int (start ?g ?ks (codes_upto ?ks ?g))"
      using dummy_loop_value [OF by_length_sorted c k(1) _ y] k(2) unfolding dummy_codes_def by auto
    moreover have "2 ^ ?g < int (start ?g ?ks (codes_upto ?ks ?g))" using over by (metis of_nat_less_iff of_nat_numeral of_nat_power)
    ultimately show ?thesis by simp
  qed
  moreover have "?c ! 0 \<noteq> length bs"
  proof
    assume "?c ! 0 = length bs"
    then have "count_list bs 0 = length bs" using length_counts_nth(2) [OF assms(1), of 0] by simp
    with nz count_list_full [of bs 0] show False by blast
  qed
  ultimately show ?thesis by (simp add: huft_build_def Let_def)
qed

theorem huft_build_oversubscribed_witness: "\<exists>l. huft_build [1, 1, 1] 3 [] [] 7 \<lparr>e = 0, b = 0, v = N 0\<rparr> [] = Some (2, None, l, [])"
  by (rule huft_build_oversubscribed) simp_all

end
