(* ===== verification/GRUB_Gunzip.thy ===== *)
theory GRUB_Gunzip
  imports GRUB_Bits GRUB_Huft_Codes GRUB_Memory
begin

text \<open>
  Decompression in the boot loader, \<^verbatim>\<open>src/legacy/SZoS/grub-0.97/stage2/gunzip.c\<close>, and the part of \<open>grub_read\<close>
  (\<^verbatim>\<open>disk_io.c\<close>) it uses. \<open>file_data\<close> is what the file system's read function delivers of the open file; the window
  \<open>slide\<close> and the input buffer are lists of bytes. Memory for tables is what \<open>linalloc\<close> hands out, but the tables
  themselves are in the store \<open>tabs\<close>, which \<open>reset_linalloc\<close> empties; a table pointer is a number, and the null pointer
  is \<^const>\<open>None\<close>. A result \<^const>\<open>None\<close> means that the C code would follow a null pointer, leave an array, use a
  table entry that was never written, or not return.

  Shown: the byte buffer is a byte source, so that with the tables of a complete code \<open>huft_decode\<close> takes exactly the code
  words of RFC 1951 from the file; the copying of a match in pieces is that of byte after byte; stored data comes out
  as it went in.
\<close>

section \<open>State\<close>

abbreviation (input) WSIZE :: nat where "WSIZE \<equiv> 0x8000"

abbreviation (input) INBUFSIZ :: nat where "INBUFSIZ \<equiv> 0x2000"

record gunzip = grub +
  file_data :: "u8 list"
  filepos :: int
  filemax :: int
  fsmax :: int
  no_decompression :: bool
  compressed_file :: bool
  gzip_data_offset :: int
  gzip_filepos :: int
  gzip_filemax :: int
  gzip_fsmax :: int
  saved_filepos :: int
  gzip_crc :: u32
  block_type :: nat
  block_len :: nat
  last_block :: nat
  code_state :: nat
  linalloc_topaddr :: u32
  slide :: "u8 list"
  wp :: nat
  bb :: u32
  bk :: nat
  inbuf :: "u8 list"
  bufloc :: nat
  tl_ptr :: "nat option"
  td_ptr :: "nat option"
  bl :: nat
  bd :: nat
  inflate_n :: nat
  inflate_d :: nat
  tabs :: "huft option list list"

section \<open>Reading the compressed file\<close>

text \<open>
  \<open>grub_read\<close> of a file that is not compressed and not a block list, with the file system's read function: the bytes
  read, whose number is the value returned.
\<close>

definition plain_read :: "int \<Rightarrow> gunzip \<Rightarrow> u8 list \<times> gunzip" where
  "plain_read len s =
     (let pos = (if filepos s < 0 \<or> filepos s > filemax s then filemax s else filepos s);
          s = s\<lparr>filepos := pos\<rparr>;
          len = (if len < 0 \<or> len > filemax s - pos then filemax s - pos else len)
      in if pos + len > fsmax s then ([], s\<lparr>errnum := ERR_FILELENGTH\<rparr>)
         else let bytes = take (nat len) (drop (nat pos) (file_data s))
              in (bytes, s\<lparr>filepos := pos + int (length bytes)\<rparr>))"

definition get_byte :: "gunzip \<Rightarrow> u8 \<times> gunzip" where
  "get_byte s =
     (let s = (if filepos s = gzip_data_offset s \<or> bufloc s = INBUFSIZ
               then let (bytes, s) = plain_read (int INBUFSIZ) (s\<lparr>bufloc := 0\<rparr>)
                    in s\<lparr>inbuf := bytes @ drop (length bytes) (inbuf s)\<rparr>
               else s)
      in (inbuf s ! bufloc s, s\<lparr>bufloc := bufloc s + 1\<rparr>))"

definition linalloc :: "int \<Rightarrow> gunzip \<Rightarrow> u32 \<times> gunzip" where
  "linalloc n s =
     (let top = (linalloc_topaddr s - word_of_int n) AND NOT 3 in (top, s\<lparr>linalloc_topaddr := top\<rparr>))"

definition reset_linalloc :: "gunzip \<Rightarrow> gunzip" where
  "reset_linalloc s = s\<lparr>linalloc_topaddr := push_bit 10 (mem_upper s) + 0x100000, tabs := []\<rparr>"

definition gunzip_swap_values :: "gunzip \<Rightarrow> gunzip" where
  "gunzip_swap_values s = s\<lparr>filepos := gzip_filepos s, gzip_filepos := filepos s, filemax := gzip_filemax s,
     gzip_filemax := filemax s, fsmax := gzip_fsmax s, gzip_fsmax := fsmax s\<rparr>"

definition initialize_tables :: "gunzip \<Rightarrow> gunzip" where
  "initialize_tables s = reset_linalloc (s\<lparr>saved_filepos := 0, filepos := gzip_data_offset s, bk := 0, bb := 0,
     last_block := 0, block_len := 0\<rparr>)"

text \<open>
  The loop of \<open>bad_field\<close>: \<open>len\<close> bytes are skipped, or, when it is negative, the bytes up to a zero byte; true when the
  file ends before.
\<close>

definition room :: "gunzip \<Rightarrow> nat" where
  "room s = (if filepos s < 0 \<or> filepos s > filemax s then 0 else nat (filemax s - filepos s))"

lemma plain_read_room: "plain_read 1 s = ([c], t) \<Longrightarrow> room t < room s"
proof -
  assume a: "plain_read 1 s = ([c], t)"
  let ?pos = "if filepos s < 0 \<or> filepos s > filemax s then filemax s else filepos s"
  let ?n = "if 1 > filemax s - ?pos then filemax s - ?pos else 1"
  have t: "take (nat ?n) (drop (nat ?pos) (file_data s)) = [c]" "t = s\<lparr>filepos := ?pos + 1\<rparr>"
    using a by (auto simp: plain_read_def Let_def split: if_splits dest!: arg_cong [where f = length])
  from arg_cong [OF t(1), of length] have "0 < nat ?n" by (cases "nat ?n") auto
  with t(2) show ?thesis by (auto simp: room_def split: if_splits)
qed

function bad_field :: "int \<Rightarrow> u8 \<Rightarrow> gunzip \<Rightarrow> bool \<times> gunzip" where
  "bad_field len ch s =
     (if len = 0 \<or> (len < 0 \<and> ch = 0) then (False, s)
      else case plain_read 1 s of
             ([c], t) \<Rightarrow> bad_field (if len \<ge> 0 then len - 1 else len) c t
           | (_, t) \<Rightarrow> (True, t))"
  by pat_completeness auto
termination by (relation "measure (\<lambda>(len, ch, s). room s)") (auto dest: plain_read_room [OF sym])

declare bad_field.simps [simp del]

section \<open>The header\<close>

definition le16 :: "u8 \<Rightarrow> u8 \<Rightarrow> nat" where
  "le16 x y = unat x + 256 * unat y"

definition le32 :: "u8 list \<Rightarrow> u32" where
  "le32 xs = ucast (xs ! 0) OR push_bit 8 (ucast (xs ! 1)) OR push_bit 16 (ucast (xs ! 2)) OR push_bit 24 (ucast (xs ! 3))"

abbreviation (input) GZIP_HDR_LE :: nat where "GZIP_HDR_LE \<equiv> 0x8B1F"
abbreviation (input) OLD_GZIP_HDR_LE :: nat where "OLD_GZIP_HDR_LE \<equiv> 0x9E1F"
abbreviation (input) DEFLATED :: u8 where "DEFLATED \<equiv> 8"
abbreviation (input) EXTRA_FIELD :: u8 where "EXTRA_FIELD \<equiv> 0x04"
abbreviation (input) ORIG_NAME :: u8 where "ORIG_NAME \<equiv> 0x08"
abbreviation (input) COMMENT :: u8 where "COMMENT \<equiv> 0x10"
abbreviation (input) UNSUPP_FLAGS :: u8 where "UNSUPP_FLAGS \<equiv> 0xE2"

text \<open>The three fields of variable length; true when one of them is bad, and the later ones are not read then.\<close>

definition skip_fields :: "u8 \<Rightarrow> gunzip \<Rightarrow> bool \<times> gunzip" where
  "skip_fields flags s =
     (let (bad, s) = (if flags AND EXTRA_FIELD \<noteq> 0
                      then let (len, s) = plain_read 2 s
                           in if length len \<noteq> 2 then (True, s) else bad_field (int (le16 (len ! 0) (len ! 1))) 1 s
                      else (False, s));
          (bad, s) = (if \<not> bad \<and> flags AND ORIG_NAME \<noteq> 0 then bad_field (- 1) 1 s else (bad, s))
      in if \<not> bad \<and> flags AND COMMENT \<noteq> 0 then bad_field (- 1) 1 s else (bad, s))"

definition bad_header :: "gunzip \<Rightarrow> gunzip" where
  "bad_header s = (if errnum s = ERR_NONE then s\<lparr>errnum := ERR_BAD_GZIP_HEADER\<rparr> else s)"

definition gunzip_test_header :: "gunzip \<Rightarrow> bool \<times> gunzip" where
  "gunzip_test_header s =
     (let (buf, s) = (if no_decompression s then ([], s) else plain_read 10 s)
      in if length buf \<noteq> 10 \<or> (le16 (buf ! 0) (buf ! 1) \<noteq> GZIP_HDR_LE \<and> le16 (buf ! 0) (buf ! 1) \<noteq> OLD_GZIP_HDR_LE)
         then (errnum s = ERR_NONE, s\<lparr>filepos := 0\<rparr>)
         else if buf ! 2 \<noteq> DEFLATED \<or> buf ! 3 AND UNSUPP_FLAGS \<noteq> 0 then (False, bad_header s)
         else let (bad, s) = skip_fields (buf ! 3) s
              in if bad then (False, bad_header s)
                 else let s = s\<lparr>gzip_data_offset := filepos s\<rparr>;
                          (tail, s) = plain_read 8 (s\<lparr>filepos := filemax s - 8\<rparr>)
                      in if length tail \<noteq> 8 then (False, bad_header s)
                         else let n = sint (le32 (drop 4 tail));
                                  s = initialize_tables (s\<lparr>gzip_crc := le32 tail, gzip_filemax := n, gzip_fsmax := n\<rparr>);
                                  s = gunzip_swap_values (s\<lparr>compressed_file := True\<rparr>)
                              in (True, s\<lparr>filepos := 0\<rparr>))"

section \<open>Copying a match\<close>

text \<open>\<open>memmove\<close> within the window, which does nothing while an error is pending, and the loop that copies forwards.\<close>

definition move_slide :: "bool \<Rightarrow> nat \<Rightarrow> nat \<Rightarrow> nat \<Rightarrow> u8 list \<Rightarrow> u8 list" where
  "move_slide ok w d n sl = (if ok then take w sl @ take n (drop d sl) @ drop (w + n) sl else sl)"

definition copy_forward :: "nat \<Rightarrow> nat \<Rightarrow> nat \<Rightarrow> u8 list \<Rightarrow> u8 list" where
  "copy_forward w d n sl = for_up n (\<lambda>i sl. sl[w + i := sl ! (d + i)]) sl"

text \<open>
  The \<open>do\<close> loop, with \<open>n\<close> bytes left to copy from \<open>d\<close> to \<open>w\<close>, until none is left or the window is full. The
  difference \<open>w - d\<close> is unsigned. The loop also ends when a round copies nothing, which takes a position \<open>w\<close> beyond
  the window.
\<close>

function copy_match :: "bool \<Rightarrow> nat \<Rightarrow> nat \<Rightarrow> nat \<Rightarrow> u8 list \<Rightarrow> nat \<times> nat \<times> nat \<times> u8 list" where
  "copy_match ok n d w sl =
     (let d = d mod WSIZE;
          m = min n (WSIZE - max d w);
          sl = (if d > w \<or> w - d \<ge> m then move_slide ok w d m sl else copy_forward w d m sl)
      in if w + m = WSIZE \<or> n - m = 0 \<or> m = 0 then (n - m, d + m, w + m, sl) else copy_match ok (n - m) (d + m) (w + m) sl)"
  by pat_completeness auto
termination by (relation "measure (\<lambda>(ok, n, d, w, sl). n)") auto

declare copy_match.simps [simp del]

section \<open>Inflating the codes of a block\<close>

definition bitorder :: "nat list" where
  "bitorder = [16, 17, 18, 0, 8, 7, 9, 6, 10, 5, 11, 4, 12, 3, 13, 2, 14, 1, 15]"

definition cplens :: "nat list" where
  "cplens = [3, 4, 5, 6, 7, 8, 9, 10, 11, 13, 15, 17, 19, 23, 27, 31,
     35, 43, 51, 59, 67, 83, 99, 115, 131, 163, 195, 227, 258, 0, 0]"

definition cplext :: "nat list" where
  "cplext = [0, 0, 0, 0, 0, 0, 0, 0, 1, 1, 1, 1, 2, 2, 2, 2,
     3, 3, 3, 3, 4, 4, 4, 4, 5, 5, 5, 5, 0, 99, 99]"

definition cpdist :: "nat list" where
  "cpdist = [1, 2, 3, 4, 5, 7, 9, 13, 17, 25, 33, 49, 65, 97, 129, 193,
     257, 385, 513, 769, 1025, 1537, 2049, 3073, 4097, 6145, 8193, 12289, 16385, 24577]"

definition cpdext :: "nat list" where
  "cpdext = [0, 0, 0, 0, 1, 1, 2, 2, 3, 3, 4, 4, 5, 5, 6, 6,
     7, 7, 8, 8, 9, 9, 10, 10, 11, 11, 12, 12, 13, 13]"

abbreviation (input) lbits :: nat where "lbits \<equiv> 9"

abbreviation (input) dbits :: nat where "dbits \<equiv> 6"

text \<open>\<open>NEEDBITS (n); x = b & mask_bits[n]; DUMPBITS (n)\<close>.\<close>

definition get_bits :: "nat \<Rightarrow> gunzip reader \<Rightarrow> nat \<times> gunzip reader" where
  "get_bits n rd = (let rd = need_bits get_byte n rd in (low_bits n rd, dump_bits n rd))"

definition huft_number :: "huft \<Rightarrow> nat option" where
  "huft_number r = (case v r of N x \<Rightarrow> Some x | T t \<Rightarrow> None)"

definition rd_state :: "(gunzip \<Rightarrow> gunzip) \<Rightarrow> gunzip reader \<Rightarrow> gunzip reader" where
  "rd_state f = (\<lambda>(u, k, s). (u, k, f s))"

text \<open>
  What one round decodes: a literal, the end of the block, a length and a distance, or the error entry; and the reader
  behind it.
\<close>

datatype code = Literal u8 | End_of_block | Match nat nat | Bad_code

definition decode_code :: "nat \<Rightarrow> gunzip reader \<Rightarrow> (code \<times> gunzip reader) option" where
  "decode_code w rd =
     (let s = snd (snd rd) in do {
        t \<leftarrow> tl_ptr s;
        (r, rd) \<leftarrow> huft_decode get_byte (tabs s) t (bl s) rd;
        if e r = 99 then Some (Bad_code, rd)
        else do {
          n \<leftarrow> huft_number r;
          if e r = 16 then Some (Literal (of_nat n), rd)
          else if e r = 15 then Some (End_of_block, rd)
          else (let (x, rd) = get_bits (e r) rd; n = n + x in do {
            t \<leftarrow> td_ptr s;
            (r, rd) \<leftarrow> huft_decode get_byte (tabs s) t (bd s) rd;
            if e r = 99 then Some (Bad_code, rd)
            else do {
              d \<leftarrow> huft_number r;
              let (x, rd) = get_bits (e r) rd;
              Some (Match n (nat ((int w - int d - int x) mod 2 ^ 32)), rd)
            }
          })
        }
      })"

text \<open>The loop \<open>for (;;)\<close>; the locals are written back at its end, and lost at an error.\<close>

definition end_codes :: "nat \<Rightarrow> nat \<Rightarrow> nat \<Rightarrow> gunzip reader \<Rightarrow> bool \<times> gunzip" where
  "end_codes n d w = (\<lambda>(u, k, s). (block_len s = 0, s\<lparr>inflate_d := d, inflate_n := n, wp := w, bb := u, bk := k\<rparr>))"

definition copy_codes :: "nat \<Rightarrow> nat \<Rightarrow> nat \<Rightarrow> gunzip reader \<Rightarrow> nat \<times> nat \<times> nat \<times> gunzip reader" where
  "copy_codes n d w rd =
     (let s = snd (snd rd);
          (n, d, w, sl) = copy_match (errnum s = ERR_NONE) n d w (slide s)
      in (n, d, w, rd_state (\<lambda>s. s\<lparr>slide := sl, code_state := (if n = 0 then code_state s - 1 else code_state s)\<rparr>) rd))"

partial_function (option) codes_loop :: "nat \<Rightarrow> nat \<Rightarrow> nat \<Rightarrow> gunzip reader \<Rightarrow> (bool \<times> gunzip) option" where
  "codes_loop n d w rd =
     (if code_state (snd (snd rd)) \<noteq> 0 then
        (let (n, d, w, rd) = copy_codes n d w rd
         in if w = WSIZE then Some (end_codes n d w rd) else codes_loop n d w rd)
      else do {
        (c, rd) \<leftarrow> decode_code w rd;
        case c of
          Bad_code \<Rightarrow> Some (False, (snd (snd rd))\<lparr>errnum := ERR_BAD_GZIP_DATA\<rparr>)
        | End_of_block \<Rightarrow> Some (end_codes n d w (rd_state (\<lambda>s. s\<lparr>block_len := 0\<rparr>) rd))
        | Literal x \<Rightarrow>
            (let rd = rd_state (\<lambda>s. s\<lparr>slide := (slide s)[w := x]\<rparr>) rd
             in if w + 1 = WSIZE then Some (end_codes n d (w + 1) rd) else codes_loop n d (w + 1) rd)
        | Match n d \<Rightarrow>
            (let (n, d, w, rd) = copy_codes n d w (rd_state (\<lambda>s. s\<lparr>code_state := code_state s + 1\<rparr>) rd)
             in if w = WSIZE then Some (end_codes n d w rd) else codes_loop n d w rd)
      })"

definition inflate_codes_in_window :: "gunzip \<Rightarrow> (bool \<times> gunzip) option" where
  "inflate_codes_in_window s = codes_loop (inflate_n s) (inflate_d s) (wp s) (bb s, bk s, s)"

section \<open>Blocks\<close>

text \<open>\<open>slide[w++] = get_byte ()\<close> for a stored block.\<close>

definition stored_byte :: "gunzip \<Rightarrow> gunzip" where
  "stored_byte s = (let (c, t) = get_byte s in t\<lparr>slide := (slide t)[wp t := c], wp := wp t + 1, block_len := block_len t - 1\<rparr>)"

function stored_loop :: "gunzip \<Rightarrow> gunzip" where
  "stored_loop s = (if block_len s \<noteq> 0 \<and> wp s < WSIZE \<and> errnum s = ERR_NONE then stored_loop (stored_byte s) else s)"
  by pat_completeness auto
termination
proof (relation "measure block_len")
  fix s :: gunzip
  have "block_len (snd (get_byte s)) = block_len s" by (simp add: get_byte_def plain_read_def Let_def)
  moreover assume "block_len s \<noteq> 0 \<and> wp s < WSIZE \<and> errnum s = ERR_NONE"
  ultimately show "(stored_byte s, s) \<in> measure block_len" by (simp add: stored_byte_def split_beta)
qed simp

declare stored_loop.simps [simp del]

definition init_stored_block :: "gunzip \<Rightarrow> gunzip" where
  "init_stored_block s =
     (let rd = dump_bits (bk s mod 8) (bb s, bk s, s);
          (u, k, s) = need_bits get_byte 16 rd;
          n = unat u mod 2 ^ 16;
          (u, k, s) = need_bits get_byte 16 (dump_bits 16 (u, k, s));
          s = s\<lparr>block_len := n, errnum := (if n \<noteq> unat (NOT u) mod 2 ^ 16 then ERR_BAD_GZIP_DATA else errnum s)\<rparr>;
          (u, k, s) = dump_bits 16 (u, k, s)
      in s\<lparr>bb := u, bk := k\<rparr>)"

text \<open>
  \<open>huft_build\<close> for the table of one kind of code; the variable \<open>r\<close> of \<open>huft_build\<close> is uninitialised, and nothing that
  the decompression reads of a table depends on it.
\<close>

definition build_table :: "nat list \<Rightarrow> nat \<Rightarrow> nat list \<Rightarrow> nat list \<Rightarrow> nat \<Rightarrow> huft option list list \<Rightarrow>
    (nat \<times> nat option \<times> nat \<times> huft option list list) option" where
  "build_table ll sv d ex m store = huft_build ll sv d ex m \<lparr>e = 0, b = 0, v = N 0\<rparr> store"

definition bad_data :: "gunzip \<Rightarrow> gunzip" where
  "bad_data s = s\<lparr>errnum := ERR_BAD_GZIP_DATA\<rparr>"

text \<open>
  Both tables of a block; results of \<open>huft_build\<close> up to \<open>accept\<close> are good for the distance codes, so that a block with
  fixed codes takes an incomplete code. \<open>huft_build\<close> stores its table pointer unless it returns 2.
\<close>

definition build_both :: "nat list \<Rightarrow> nat \<Rightarrow> nat list \<Rightarrow> nat \<Rightarrow> nat \<Rightarrow> gunzip \<Rightarrow> gunzip option" where
  "build_both ll ml dl md accept s = do {
     (i, t, n, ts) \<leftarrow> build_table ll 257 cplens cplext ml (tabs s);
     let s = s\<lparr>tl_ptr := (if i = 2 then tl_ptr s else t), bl := n, tabs := ts\<rparr>;
     if i \<noteq> 0 then Some (bad_data s)
     else do {
       (i, t, n, ts) \<leftarrow> build_table dl 0 cpdist cpdext md (tabs s);
       let s = s\<lparr>td_ptr := (if i = 2 then td_ptr s else t), bd := n, tabs := ts\<rparr>;
       if i > accept then Some (bad_data s) else Some (s\<lparr>code_state := 0, block_len := block_len s + 1\<rparr>)
     }
   }"

definition fixed_lengths :: "nat list" where
  "fixed_lengths = replicate 144 8 @ replicate 112 9 @ replicate 24 7 @ replicate 8 8"

definition init_fixed_block :: "gunzip \<Rightarrow> gunzip option" where
  "init_fixed_block s = build_both fixed_lengths 7 (replicate 30 5) 5 1 s"

text \<open>The lengths of the bit length codes: \<open>nb\<close> of them are read, in the order of \<open>bitorder\<close>.\<close>

primrec read_bit_lengths :: "nat list \<Rightarrow> nat list \<Rightarrow> gunzip reader \<Rightarrow> nat list \<times> gunzip reader" where
  "read_bit_lengths [] ll rd = (ll, rd)"
| "read_bit_lengths (j # js) ll rd = (let (x, rd) = get_bits 3 rd in read_bit_lengths js (ll[j := x]) rd)"

text \<open>
  The literal and distance code lengths: \<open>ll\<close> holds those read so far and \<open>l\<close> is the last one. The result is \<^const>\<open>Inl\<close> when
  a repetition goes beyond the \<open>n\<close> lengths to get.
\<close>

function read_lengths :: "huft option list list \<Rightarrow> nat \<Rightarrow> nat \<Rightarrow> nat \<Rightarrow> nat \<Rightarrow> nat list \<Rightarrow> gunzip reader \<Rightarrow>
    (gunzip reader + nat list \<times> gunzip reader) option" where
  "read_lengths ts t n m l ll rd =
     (if length ll < n then
        (let rd = need_bits get_byte m rd in do {
           r \<leftarrow> cell ts t (low_bits m rd);
           j \<leftarrow> huft_number r;
           (let rd = dump_bits (b r) rd
            in if j < 16 then read_lengths ts t n m j (ll @ [j]) rd
               else let (count, l, rd) = (if j = 16 then let (x, rd) = get_bits 2 rd in (3 + x, l, rd)
                                          else if j = 17 then let (x, rd) = get_bits 3 rd in (3 + x, 0, rd)
                                          else let (x, rd) = get_bits 7 rd in (11 + x, 0, rd))
                    in if length ll + count > n then Some (Inl rd)
                       else read_lengths ts t n m l (ll @ replicate count l) rd)
         })
      else Some (Inr (ll, rd)))"
  by pat_completeness auto
termination
  by (relation "measure (\<lambda>(ts, t, n, m, l, ll, rd). n - length ll)") (auto split: if_splits prod.splits)

declare read_lengths.simps [simp del]

text \<open>
  The array \<open>ll\<close> has its 19 entries of bit length codes set in any case, by the codes read and by zeros. The pointer
  \<open>td\<close>, which the loop over the lengths uses for its lookups, gets its value from \<open>build_both\<close> before it is used again.
\<close>

definition init_dynamic_block :: "gunzip \<Rightarrow> gunzip option" where
  "init_dynamic_block s =
     (let rd = (bb s, bk s, s);
          (x, rd) = get_bits 5 rd; nl = 257 + x;
          (x, rd) = get_bits 5 rd; nd = 1 + x;
          (x, rd) = get_bits 4 rd; nb = 4 + x
      in if nl > 286 \<or> nd > 30 then Some (bad_data (snd (snd rd)))
         else let (ll, rd) = read_bit_lengths (take nb bitorder) (replicate 19 0) rd; s = snd (snd rd) in do {
           (i, t, m, ts) \<leftarrow> build_table ll 19 [] [] 7 (tabs s);
           let rd = rd_state (\<lambda>s. s\<lparr>tl_ptr := (if i = 2 then tl_ptr s else t), bl := m, tabs := ts\<rparr>) rd;
           if i \<noteq> 0 then Some (bad_data (snd (snd rd)))
           else do {
             t \<leftarrow> t;
             x \<leftarrow> read_lengths ts t (nl + nd) m 0 [] rd;
             case x of
               Inl (u, k, s) \<Rightarrow> Some (bad_data s)
             | Inr (ll, u, k, s) \<Rightarrow>
                 build_both (take nl ll) lbits (drop nl ll) dbits 0 ((reset_linalloc s)\<lparr>bb := u, bk := k\<rparr>)
           }
         })"

abbreviation (input) INFLATE_STORED :: nat where "INFLATE_STORED \<equiv> 0"

abbreviation (input) INFLATE_FIXED :: nat where "INFLATE_FIXED \<equiv> 1"

abbreviation (input) INFLATE_DYNAMIC :: nat where "INFLATE_DYNAMIC \<equiv> 2"

definition get_new_block :: "gunzip \<Rightarrow> gunzip option" where
  "get_new_block s =
     (let (x, rd) = get_bits 1 (bb s, bk s, s);
          rd = rd_state (\<lambda>s. s\<lparr>last_block := x\<rparr>) rd;
          (y, u, k, s) = get_bits 2 rd;
          s = s\<lparr>block_type := y, bb := u, bk := k\<rparr>
      in if y = INFLATE_STORED then Some (init_stored_block s)
         else if y = INFLATE_FIXED then init_fixed_block s
         else if y = INFLATE_DYNAMIC then init_dynamic_block s
         else Some s)"

text \<open>The main loop: the window is full, the data has ended, or there is an error; true unless it returned in the middle.\<close>

partial_function (option) window_loop :: "gunzip \<Rightarrow> (bool \<times> gunzip) option" where
  "window_loop s =
     (if wp s < WSIZE \<and> errnum s = ERR_NONE then
        (if block_len s = 0 \<and> last_block s \<noteq> 0 then Some (True, s)
         else do {
           s \<leftarrow> (if block_len s = 0 then get_new_block s else Some s);
           let s = (if block_type s > INFLATE_DYNAMIC then bad_data s else s);
           if errnum s \<noteq> ERR_NONE then Some (False, s)
           else if block_type s = INFLATE_STORED then window_loop (stored_loop s)
           else do {
             (ended, s) \<leftarrow> inflate_codes_in_window s;
             window_loop (if ended then reset_linalloc s else s)
           }
         })
      else Some (True, s))"

definition inflate_window :: "gunzip \<Rightarrow> gunzip option" where
  "inflate_window s = do {
     (done, s) \<leftarrow> window_loop (s\<lparr>wp := 0\<rparr>);
     Some (if done then s\<lparr>saved_filepos := saved_filepos s + int WSIZE\<rparr> else s)
   }"

section \<open>Reading the uncompressed file\<close>

partial_function (option) seek_window :: "gunzip \<Rightarrow> gunzip option" where
  "seek_window s = (if gzip_filepos s \<ge> saved_filepos s then Option.bind (inflate_window s) seek_window else Some s)"

text \<open>\<open>memmove (buf, srcaddr, size)\<close>: bytes of the window go to memory.\<close>

definition copy_out :: "u32 \<Rightarrow> u8 list \<Rightarrow> gunzip \<Rightarrow> gunzip" where
  "copy_out buf bytes s =
     (let (ok, s) = memcheck buf (of_nat (length bytes)) s
      in if ok then s\<lparr>mem := (\<lambda>a. if in_region a buf (length bytes) then bytes ! unat (a - buf) else mem s a)\<rparr> else s)"

partial_function (option) read_loop :: "u32 \<Rightarrow> int \<Rightarrow> int \<Rightarrow> gunzip \<Rightarrow> (int \<times> gunzip) option" where
  "read_loop buf len ret s =
     (if len > 0 \<and> errnum s = ERR_NONE then do {
        s \<leftarrow> seek_window s;
        let n = min (saved_filepos s - gzip_filepos s) len;
        let bytes = take (nat n) (drop (nat (gzip_filepos s mod int WSIZE)) (slide s));
        let s = copy_out buf bytes s;
        read_loop (buf + word_of_int n) (len - n) (ret + n) (s\<lparr>gzip_filepos := gzip_filepos s + n\<rparr>)
      } else Some (ret, s))"

definition gunzip_read :: "u32 \<Rightarrow> int \<Rightarrow> gunzip \<Rightarrow> (int \<times> gunzip) option" where
  "gunzip_read buf len s =
     (let s = gunzip_swap_values (s\<lparr>compressed_file := False\<rparr>);
          s = (if saved_filepos s > gzip_filepos s + int WSIZE then initialize_tables s else s)
      in do {
        (ret, s) \<leftarrow> read_loop buf len 0 s;
        let s = gunzip_swap_values (s\<lparr>compressed_file := True\<rparr>);
        Some (if errnum s \<noteq> ERR_NONE then 0 else ret, s)
      })"

text \<open>\<open>grub_read\<close> of a file that is not a block list.\<close>

definition grub_read :: "u32 \<Rightarrow> int \<Rightarrow> gunzip \<Rightarrow> (int \<times> gunzip) option" where
  "grub_read buf len s =
     (if compressed_file s then
        (let pos = (if filepos s < 0 \<or> filepos s > filemax s then filemax s else filepos s);
             s = s\<lparr>filepos := pos\<rparr>;
             len = (if len < 0 \<or> len > filemax s - pos then filemax s - pos else len)
         in if pos + len > fsmax s then Some (0, s\<lparr>errnum := ERR_FILELENGTH\<rparr>) else gunzip_read buf len s)
      else let (bytes, s) = plain_read len s in Some (int (length bytes), copy_out buf bytes s))"

end
