(* ===== verification/GRUB_Inflate.thy ===== *)
theory GRUB_Inflate
  imports GRUB_Gunzip
begin

text \<open>
  Proofs about the decompression of \<open>GRUB_Gunzip\<close>: the input buffer delivers the file's bytes in order, the decoder takes
  the code words of RFC 1951 from them, and a match is copied byte after byte.
\<close>

section \<open>The input buffer\<close>

text \<open>
  The file is read in pieces of \<open>INBUFSIZ\<close> bytes from \<open>gzip_data_offset\<close> on; \<open>piece\<close> is the length of the last one and
  \<open>next_byte\<close> the place in the file of the byte that \<open>get_byte\<close> returns next.
\<close>

definition piece :: "gunzip \<Rightarrow> nat" where
  "piece s = (let n = nat (filepos s - gzip_data_offset s) in if n mod INBUFSIZ = 0 then INBUFSIZ else n mod INBUFSIZ)"

definition next_byte :: "gunzip \<Rightarrow> nat" where
  "next_byte s = (if filepos s = gzip_data_offset s then nat (filepos s) else nat (filepos s) - piece s + bufloc s)"

definition buffered :: "gunzip \<Rightarrow> bool" where
  "buffered s \<longleftrightarrow> 0 \<le> gzip_data_offset s \<and> gzip_data_offset s \<le> filepos s \<and> filepos s \<le> filemax s \<and> filemax s \<le> fsmax s \<and>
     filemax s = int (length (file_data s)) \<and> length (inbuf s) = INBUFSIZ \<and>
     (filepos s = gzip_data_offset s \<or>
       (bufloc s \<le> piece s \<and> (piece s = INBUFSIZ \<or> filepos s = filemax s) \<and>
        take (piece s) (inbuf s) = take (piece s) (drop (nat (filepos s) - piece s) (file_data s))))"

definition same_but_input :: "gunzip \<Rightarrow> gunzip \<Rightarrow> bool" where
  "same_but_input s t \<longleftrightarrow> (\<exists>p xs n. t = s\<lparr>filepos := p, inbuf := xs, bufloc := n\<rparr>)"

lemma piece_bounds: "gzip_data_offset s < filepos s \<Longrightarrow> 0 < piece s \<and> piece s \<le> INBUFSIZ \<and> int (piece s) \<le> filepos s - gzip_data_offset s"
proof -
  assume a: "gzip_data_offset s < filepos s"
  define n where "n = nat (filepos s - gzip_data_offset s)"
  have n: "0 < n" "int n = filepos s - gzip_data_offset s" using a by (simp_all add: n_def)
  have "INBUFSIZ \<le> n" if "n mod INBUFSIZ = 0" using that n(1) by (metis dvd_imp_le mod_eq_0_iff_dvd)
  moreover have "n mod INBUFSIZ \<le> n" by simp
  ultimately have "0 < piece s \<and> piece s \<le> INBUFSIZ \<and> piece s \<le> n"
    by (auto simp: piece_def Let_def n_def [symmetric] less_imp_le)
  then show ?thesis using n(2) by linarith
qed

lemma piece_after:
  assumes "piece s = INBUFSIZ \<or> filepos s = gzip_data_offset s" "gzip_data_offset s \<le> filepos s" "0 < n" "n \<le> INBUFSIZ"
    "gzip_data_offset t = gzip_data_offset s" "filepos t = filepos s + int n"
  shows "piece t = n"
proof -
  define m where "m = nat (filepos s - gzip_data_offset s)"
  have "m mod INBUFSIZ = 0"
  proof (cases "filepos s = gzip_data_offset s")
    case False
    then have "piece s = INBUFSIZ" using assms(1) by simp
    then show ?thesis using mod_less_divisor [of INBUFSIZ m] unfolding piece_def Let_def m_def [symmetric]
      by (simp split: if_splits)
  qed (simp add: m_def)
  moreover have "nat (filepos t - gzip_data_offset t) = m + n" using assms(2,5,6) by (simp add: m_def nat_add_distrib)
  moreover have "(m + n) mod INBUFSIZ = n mod INBUFSIZ" using calculation(1) by (metis add_0 mod_add_left_eq)
  ultimately show ?thesis using assms(3,4) by (cases "n = INBUFSIZ") (simp_all add: piece_def Let_def)
qed

lemma plain_read_ok:
  assumes "0 \<le> filepos s" "filepos s \<le> filemax s" "filemax s \<le> fsmax s" "filemax s = int (length (file_data s))" "0 \<le> len"
    "n = nat (min len (filemax s - filepos s))"
  shows "plain_read len s = (take n (drop (nat (filepos s)) (file_data s)), s\<lparr>filepos := filepos s + int n\<rparr>)"
proof -
  have l: "length (take n (drop (nat (filepos s)) (file_data s))) = n" using assms by auto
  show ?thesis
  proof (cases "len > filemax s - filepos s")
    case True
    then have "n = nat (filemax s - filepos s)" using assms(6) by simp
    with True assms(1-4) l show ?thesis by (simp add: plain_read_def Let_def)
  next
    case False
    then have "n = nat len" "\<not> fsmax s < filepos s + len" using assms by auto
    with False assms(1-5) l show ?thesis by (simp add: plain_read_def Let_def)
  qed
qed

lemma get_byte_refill:
  assumes "buffered s" "int (next_byte s) < filemax s" "filepos s = gzip_data_offset s \<or> bufloc s = INBUFSIZ"
    and n_def: "n = nat (min (int INBUFSIZ) (filemax s - filepos s))" and bytes_def: "bytes = take n (drop (nat (filepos s)) (file_data s))"
  shows "next_byte s = nat (filepos s)" "0 < n" "length bytes = n" "piece s = INBUFSIZ \<or> filepos s = gzip_data_offset s"
    "get_byte s = (bytes ! 0, s\<lparr>filepos := filepos s + int n, inbuf := bytes @ drop n (inbuf s), bufloc := 1\<rparr>)"
proof -
  note b = assms(1) [unfolded buffered_def]
  have pos: "0 \<le> filepos s" "filepos s \<le> filemax s" "filemax s \<le> fsmax s" "filemax s = int (length (file_data s))" using b by auto
  show full: "piece s = INBUFSIZ \<or> filepos s = gzip_data_offset s"
    using b assms(3) piece_bounds [of s] by (cases "filepos s = gzip_data_offset s") auto
  show "next_byte s = nat (filepos s)"
  proof (cases "filepos s = gzip_data_offset s")
    case False
    then have "piece s = INBUFSIZ" "bufloc s = INBUFSIZ" "int (piece s) \<le> filepos s" using full assms(3) b piece_bounds [of s] by auto
    then show ?thesis using False by (simp add: next_byte_def)
  qed (simp add: next_byte_def)
  then have lt: "filepos s < filemax s" using assms(2) pos by simp
  then show n: "0 < n" by (simp add: n_def)
  have le: "int n \<le> filemax s - filepos s" "int n \<le> int INBUFSIZ" using lt by (simp_all add: n_def)
  then show len: "length bytes = n" using pos by (simp add: bytes_def)
  have "plain_read (int INBUFSIZ) (s\<lparr>bufloc := 0\<rparr>) = (bytes, s\<lparr>bufloc := 0, filepos := filepos s + int n\<rparr>)"
    using plain_read_ok [of "s\<lparr>bufloc := 0\<rparr>" "int INBUFSIZ" n] pos n_def by (simp add: bytes_def)
  then show "get_byte s = (bytes ! 0, s\<lparr>filepos := filepos s + int n, inbuf := bytes @ drop n (inbuf s), bufloc := 1\<rparr>)"
    using assms(3) n len unfolding get_byte_def Let_def by (simp add: nth_append del: of_nat_numeral)
qed

lemma get_byte_hit:
  assumes "buffered s" "int (next_byte s) < filemax s" "filepos s \<noteq> gzip_data_offset s" "bufloc s \<noteq> INBUFSIZ"
  shows "bufloc s < piece s" "get_byte s = (inbuf s ! bufloc s, s\<lparr>bufloc := bufloc s + 1\<rparr>)"
    "inbuf s ! bufloc s = file_data s ! next_byte s"
proof -
  note b = assms(1) [unfolded buffered_def]
  have pos: "0 \<le> filepos s" "filemax s = int (length (file_data s))" "gzip_data_offset s < filepos s" "0 \<le> gzip_data_offset s" using b assms(3) by auto
  note piece = piece_bounds [OF pos(3)]
  have le: "bufloc s \<le> piece s" "piece s = INBUFSIZ \<or> filepos s = filemax s"
    "take (piece s) (inbuf s) = take (piece s) (drop (nat (filepos s) - piece s) (file_data s))" using b assms(3) by auto
  have nb: "next_byte s = nat (filepos s) - piece s + bufloc s" using assms(3) by (simp add: next_byte_def)
  show lt: "bufloc s < piece s"
  proof (rule ccontr)
    assume "\<not> bufloc s < piece s"
    then have eq: "bufloc s = piece s" using le(1) by simp
    then have "filepos s = filemax s" using le(2) assms(4) by auto
    moreover have "next_byte s = nat (filepos s)" using nb eq piece pos by linarith
    ultimately show False using assms(2) pos by simp
  qed
  show "get_byte s = (inbuf s ! bufloc s, s\<lparr>bufloc := bufloc s + 1\<rparr>)" using assms(3,4) by (simp add: get_byte_def)
  have "take (piece s) (inbuf s) ! bufloc s = take (piece s) (drop (nat (filepos s) - piece s) (file_data s)) ! bufloc s" using le(3) by simp
  moreover have "bufloc s < length (drop (nat (filepos s) - piece s) (file_data s))"
    using assms(2) nb pos by simp
  ultimately show "inbuf s ! bufloc s = file_data s ! next_byte s" using lt nb by simp
qed

lemma get_byte_buffered:
  assumes "buffered s" "int (next_byte s) < filemax s"
  shows "fst (get_byte s) = file_data s ! next_byte s" "buffered (snd (get_byte s))"
    "next_byte (snd (get_byte s)) = next_byte s + 1" "same_but_input s (snd (get_byte s))"
proof -
  note b = assms(1) [unfolded buffered_def]
  let ?t = "snd (get_byte s)"
  have "fst (get_byte s) = file_data s ! next_byte s \<and> buffered ?t \<and> next_byte ?t = next_byte s + 1 \<and> same_but_input s ?t"
  proof (cases "filepos s = gzip_data_offset s \<or> bufloc s = INBUFSIZ")
    case True
    obtain n bytes where d: "n = nat (min (int INBUFSIZ) (filemax s - filepos s))" "bytes = take n (drop (nat (filepos s)) (file_data s))"
      by blast
    note r = get_byte_refill [OF assms True d]
    have n: "n \<le> INBUFSIZ" "int n \<le> filemax s - filepos s" "n = INBUFSIZ \<or> filepos s + int n = filemax s" using r(2) unfolding d(1) by auto
    have pos: "0 \<le> filepos s" "gzip_data_offset s \<le> filepos s" using b by auto
    have piece: "piece ?t = n" using piece_after [OF r(4) pos(2) r(2) n(1), of ?t] r(5) by simp
    have off: "filepos ?t \<noteq> gzip_data_offset ?t" using r(2,5) pos by simp
    have "next_byte ?t = nat (filepos s) + 1" using off piece r(5) pos(1) unfolding next_byte_def by (simp add: nat_add_distrib)
    moreover have "buffered ?t" 
    proof -
      have "take n (bytes @ drop n (inbuf s)) = bytes" using r(3) by simp
      moreover have "length (bytes @ drop n (inbuf s)) = INBUFSIZ" using r(3) n(1) b by simp
      ultimately show ?thesis unfolding buffered_def piece using b r(2,5) n pos d(2) by (simp add: nat_add_distrib)
    qed
    moreover have "bytes ! 0 = file_data s ! nat (filepos s)" using r(2,3) unfolding d(2) by simp
    moreover have "same_but_input s ?t" unfolding same_but_input_def using r(5) by auto
    ultimately show ?thesis using r(1,5) by simp
  next
    case False
    then have ne: "filepos s \<noteq> gzip_data_offset s" "bufloc s \<noteq> INBUFSIZ" by simp_all
    note h = get_byte_hit [OF assms ne]
    have t: "?t = s\<lparr>bufloc := bufloc s + 1\<rparr>" using h(2) by simp
    have piece: "piece ?t = piece s" unfolding t by (simp add: piece_def)
    have "next_byte ?t = next_byte s + 1" using ne(1) piece unfolding next_byte_def t by simp
    moreover have "buffered ?t" using b ne(1) h(1) unfolding buffered_def piece unfolding t by auto
    moreover have "same_but_input s ?t"
      unfolding same_but_input_def t by (intro exI [of _ "filepos s"] exI [of _ "inbuf s"] exI [of _ "bufloc s + 1"]) simp
    ultimately show ?thesis using h(2,3) by simp
  qed
  then show "fst (get_byte s) = file_data s ! next_byte s" "buffered ?t" "next_byte ?t = next_byte s + 1" "same_but_input s ?t"
    by blast+
qed

definition byte_stream :: "gunzip \<Rightarrow> nat \<Rightarrow> u8" where
  "byte_stream s i = fst (get_byte (((\<lambda>s. snd (get_byte s)) ^^ i) s))"

interpretation gz: byte_source get_byte "\<lambda>s. True" byte_stream
  by unfold_locales (simp_all add: byte_stream_def funpow_Suc_right del: funpow.simps)

lemma byte_stream_Suc: "byte_stream s (Suc i) = byte_stream (snd (get_byte s)) i"
  by (rule gz.get_rest [symmetric]) simp

lemma same_but_input_file: "same_but_input s t \<Longrightarrow> file_data t = file_data s \<and> filemax t = filemax s"
  by (auto simp: same_but_input_def)

lemma byte_stream_nth:
  "buffered s \<Longrightarrow> int (next_byte s + i) < filemax s \<Longrightarrow> byte_stream s i = file_data s ! (next_byte s + i)"
proof (induction i arbitrary: s)
  case 0
  then show ?case using get_byte_buffered(1) [of s] by (simp add: byte_stream_def)
next
  case (Suc i)
  have n: "int (next_byte s) < filemax s" using Suc.prems(2) by simp
  note g = get_byte_buffered [OF Suc.prems(1) n]
  show ?case unfolding byte_stream_Suc using Suc.IH [OF g(2)] g(3) same_but_input_file [OF g(4)] Suc.prems(2) by simp
qed

section \<open>Copying a match\<close>

text \<open>What RFC 1951 asks for: the bytes are copied one after the other, round the end of the window.\<close>

definition lz_copy :: "nat \<Rightarrow> nat \<Rightarrow> nat \<Rightarrow> u8 list \<Rightarrow> u8 list" where
  "lz_copy n d w sl = for_up n (\<lambda>i sl. sl[w + i := sl ! ((d + i) mod WSIZE)]) sl"

lemma lz_copy_add: "lz_copy (a + c) d w sl = lz_copy c (d + a) (w + a) (lz_copy a d w sl)"
  unfolding lz_copy_def for_up_add by (simp only: add.assoc)

lemma lz_copy_mod [simp]: "lz_copy n (d mod WSIZE) w sl = lz_copy n d w sl"
  unfolding lz_copy_def by (simp add: mod_add_left_eq)

lemma copy_forward_nth:
  assumes "d > w \<or> d + m \<le> w" "w + m \<le> length sl" "d + m \<le> length sl" "j \<le> m"
  shows "length (copy_forward w d j sl) = length sl \<and> (\<forall>x<length sl. copy_forward w d j sl ! x =
    (if w \<le> x \<and> x < w + j then sl ! (d + (x - w)) else sl ! x))"
  using assms(4)
proof (induction j)
  case 0
  then show ?case by (auto simp: copy_forward_def)
next
  case (Suc j)
  let ?sl = "copy_forward w d j sl"
  have step: "copy_forward w d (Suc j) sl = ?sl[w + j := ?sl ! (d + j)]" by (simp add: copy_forward_def for_up_Suc)
  have ih: "length ?sl = length sl" "\<And>x. x < length sl \<Longrightarrow> ?sl ! x = (if w \<le> x \<and> x < w + j then sl ! (d + (x - w)) else sl ! x)"
    using Suc by simp_all
  have "?sl ! (d + j) = sl ! (d + j)" using ih(2) [of "d + j"] assms(1,3) Suc.prems by auto
  with ih show ?case unfolding step using assms(2) Suc.prems by (auto simp: nth_list_update)
qed

lemma move_slide_forward:
  assumes "d > w \<or> d + m \<le> w" "w + m \<le> length sl" "d + m \<le> length sl"
  shows "move_slide True w d m sl = copy_forward w d m sl"
proof (rule nth_equalityI)
  note c = copy_forward_nth [OF assms order.refl]
  have len: "length (move_slide True w d m sl) = length sl" using assms(2,3) by (simp add: move_slide_def)
  with c show "length (move_slide True w d m sl) = length (copy_forward w d m sl)" by simp
  fix x
  assume "x < length (move_slide True w d m sl)"
  then have x: "x < length sl" using len by simp
  have "move_slide True w d m sl ! x = (if w \<le> x \<and> x < w + m then sl ! (d + (x - w)) else sl ! x)"
    using x assms(2,3) by (auto simp: move_slide_def nth_append)
  with c x show "move_slide True w d m sl ! x = copy_forward w d m sl ! x" by simp
qed

lemma lz_copy_forward: "d + n \<le> WSIZE \<Longrightarrow> copy_forward w d n sl = lz_copy n d w sl"
  unfolding copy_forward_def lz_copy_def by (intro for_up_cong) simp

lemma length_lz_copy [simp]: "length (lz_copy n d w sl) = length sl"
  unfolding lz_copy_def by (rule for_up_keeps) simp

lemma copy_match_lz:
  "ok \<Longrightarrow> length sl = WSIZE \<Longrightarrow> w < WSIZE \<Longrightarrow> 0 < n \<Longrightarrow>
    \<exists>d'. copy_match ok n d w sl = (n - min n (WSIZE - w), d', w + min n (WSIZE - w), lz_copy (min n (WSIZE - w)) d w sl) \<and>
      d' mod WSIZE = (d + min n (WSIZE - w)) mod WSIZE"
proof (induction ok n d w sl rule: copy_match.induct)
  case (1 ok n d w sl)
  define D where "D = d mod WSIZE"
  define M where "M = min n (WSIZE - max D w)"
  have d: "D < WSIZE" by (simp add: D_def)
  have m: "0 < M" "w + M \<le> WSIZE" "D + M \<le> WSIZE" "M \<le> n" using "1.prems"(3,4) d by (auto simp: M_def)
  define sl' where "sl' = (if D > w \<or> w - D \<ge> M then move_slide ok w D M sl else copy_forward w D M sl)"
  have forward: "sl' = copy_forward w D M sl"
  proof (cases "D > w \<or> w - D \<ge> M")
    case True
    then have "D > w \<or> D + M \<le> w" by linarith
    then show ?thesis using move_slide_forward [of w D M sl] True m "1.prems"(1,2) by (simp add: sl'_def)
  qed (simp add: sl'_def)
  have sl': "sl' = lz_copy M d w sl" using forward lz_copy_forward [OF m(3), of w sl] by (simp add: D_def)
  show ?case
  proof (cases "w + M = WSIZE \<or> n - M = 0 \<or> M = 0")
    case True
    then have "min n (WSIZE - w) = M" using m "1.prems"(3) by linarith
    moreover have "copy_match ok n d w sl = (n - M, D + M, w + M, sl')"
      using True by (subst copy_match.simps) (simp only: Let_def if_True D_def [symmetric] M_def [symmetric] sl'_def [symmetric])
    moreover have "(D + M) mod WSIZE = (d + M) mod WSIZE" unfolding D_def by (rule mod_add_left_eq)
    ultimately show ?thesis using sl' by simp
  next
    case False
    have rec: "copy_match ok n d w sl = copy_match ok (n - M) (D + M) (w + M) sl'"
      using False by (subst copy_match.simps) (simp only: Let_def if_False D_def [symmetric] M_def [symmetric] sl'_def [symmetric])
    have lt: "w + M < WSIZE" "0 < n - M" using False m by auto
    have len: "length sl' = WSIZE" using sl' "1.prems"(2) by simp
    let ?k = "min (n - M) (WSIZE - (w + M))"
    obtain d' where d': "copy_match ok (n - M) (D + M) (w + M) sl' =
        (n - M - ?k, d', w + M + ?k, lz_copy ?k (D + M) (w + M) sl')" "d' mod WSIZE = (D + M + ?k) mod WSIZE"
      using "1.IH" [OF D_def M_def sl'_def False "1.prems"(1) len lt] by blast
    have k: "min n (WSIZE - w) = M + ?k" using m lt by linarith
    have "lz_copy ?k (D + M) (w + M) sl' = lz_copy (M + ?k) d w sl" 
      unfolding lz_copy_add sl' [symmetric] by (metis D_def lz_copy_mod mod_add_left_eq)
    moreover have "(D + M + ?k) mod WSIZE = (d + (M + ?k)) mod WSIZE" by (metis D_def add.assoc mod_add_left_eq)
    ultimately show ?thesis unfolding rec d'(1) k using d'(2) by simp
  qed
qed

section \<open>Decoding from the file\<close>

text \<open>The number that the first \<open>k\<close> bits of a stream spell, the first one being the most significant.\<close>

definition spelled :: "(nat \<Rightarrow> bool) \<Rightarrow> nat \<Rightarrow> nat" where
  "spelled f k = reversed k (bits_value f k)"

lemma bits_value_mod: "k \<le> n \<Longrightarrow> bits_value f n mod 2 ^ k = bits_value f k"
  by (intro bit_eqI) (auto simp: bit_bits_value bit_take_bit_iff simp flip: take_bit_eq_mod)

lemma huft_decode_code_word:
  assumes "full bs" "0 < m" "length bs \<le> 2 ^ m \<or> (\<forall>k\<in>set bs. k < 2 * m)" "\<forall>i<length bs - sv. ex ! i \<le> 16 \<or> ex ! i = 99"
    "huft_build bs sv d ex m r0 store = Some (0, Some t, l, ts)"
    "symb < length bs" "bs ! symb \<noteq> 0" "fst (symbol_value sv d ex symb) \<noteq> 99"
    "gz.reader_ok rd" "spelled (gz.reader_bit rd) (bs ! symb) = code_word bs symb"
  shows "\<exists>r rd'. huft_decode get_byte ts t l rd = Some (r, rd') \<and> (e r, v r) = symbol_value sv d ex symb \<and>
    gz.reader_ok rd' \<and> gz.reader_bit rd' = (\<lambda>i. gz.reader_bit rd (bs ! symb + i))"
proof -
  let ?buf = "bits_value (gz.reader_bit rd) 32"
  have k: "bs ! symb \<le> 16" using assms(1,6) by (auto simp: full_def)
  have "reversed (bs ! symb) ?buf = code_word bs symb"
    using assms(10) k bits_value_mod [of "bs ! symb" 32] reversed_of_mod [of "bs ! symb" ?buf] by (simp add: spelled_def)
  moreover obtain l' ts' where c: "huft_build bs sv d ex m r0 store = Some (0, Some (length store), l', ts')"
    "\<forall>symb<length bs. bs ! symb \<noteq> 0 \<longrightarrow> (\<forall>buf. reversed (bs ! symb) buf = code_word bs symb \<longrightarrow>
      (\<exists>r. huft_find ts' (length store) l' buf = Some (r, bs ! symb) \<and> (e r, v r) = symbol_value sv d ex symb))"
    using huft_build_correct [OF assms(1-4), of d r0 store] by blast
  moreover have "t = length store" "l' = l" "ts' = ts" using c(1) assms(5) by simp_all
  ultimately obtain r where r: "huft_find ts t l ?buf = Some (r, bs ! symb)" "(e r, v r) = symbol_value sv d ex symb"
    using assms(6,7) by blast
  have e: "e r \<noteq> 99" using r(2) assms(8) by (metis fst_conv)
  have "\<forall>i. i < bs ! symb + 16 \<longrightarrow> bit ?buf i = gz.reader_bit rd i" using k by (simp add: bit_bits_value)
  then show ?thesis using gz.huft_find_decodes [OF r(1)] assms(9) e r(2) unfolding gz.decodes_def fst_conv snd_conv by blast
qed

section \<open>The window is never left\<close>

text \<open>The well-formed states: the arrays have their sizes, and the places in them are places in them.\<close>

definition wf_gunzip :: "gunzip \<Rightarrow> bool" where
  "wf_gunzip s \<longleftrightarrow> length (slide s) = WSIZE \<and> wp s \<le> WSIZE \<and> length (inbuf s) = INBUFSIZ \<and> bufloc s \<le> INBUFSIZ"

lemma plain_read_keeps:
  assumes "plain_read n s = (bytes, t)"
  shows "slide t = slide s" "wp t = wp s" "inbuf t = inbuf s" "bufloc t = bufloc s" "int (length bytes) \<le> n \<or> n < 0"
    "block_len t = block_len s"
  using assms by (auto simp: plain_read_def Let_def split: if_splits)

lemma get_byte_wf: "wf_gunzip s \<Longrightarrow> wf_gunzip (snd (get_byte s))"
proof -
  assume s: "wf_gunzip s"
  obtain bytes t where r: "plain_read (int INBUFSIZ) (s\<lparr>bufloc := 0\<rparr>) = (bytes, t)" by fastforce
  note k = plain_read_keeps [OF r]
  show ?thesis using s k r by (auto simp: wf_gunzip_def get_byte_def Let_def)
qed

lemma get_byte_keeps: "slide (snd (get_byte s)) = slide s" "wp (snd (get_byte s)) = wp s"
  by (simp_all add: get_byte_def Let_def plain_read_def)

lemma need_bits_keeps:
  assumes "\<And>s. P s \<Longrightarrow> P (snd (get s))"
  shows "P (snd (snd rd)) \<Longrightarrow> P (snd (snd (need_bits get n rd)))"
  using assms
proof (induction get n rd rule: need_bits.induct)
  case (1 get n u k s)
  obtain c t where g: "get s = (c, t)" by fastforce
  show ?case
  proof (cases "k < n")
    case True
    have "P t" using "1.prems"(2) [of s] "1.prems"(1) g by simp
    with "1.IH" [OF True g [symmetric] refl] "1.prems"(2) have "P (snd (snd (need_bits get n (u OR push_bit k (ucast c), k + 8, t))))"
      by simp
    with True g show ?thesis by (subst need_bits.simps) simp
  qed (use "1.prems"(1) in \<open>subst need_bits.simps, simp\<close>)
qed

lemma dump_bits_keeps [simp]: "snd (snd (dump_bits n rd)) = snd (snd rd)"
  by (simp add: dump_bits_def split: prod.splits)

definition decode_keeps :: "('s \<Rightarrow> bool) \<Rightarrow> ('s \<Rightarrow> u8 \<times> 's) \<Rightarrow> 's reader \<Rightarrow> huft \<times> 's reader \<Rightarrow> bool" where
  "decode_keeps P get rd x \<longleftrightarrow> (\<forall>s. P s \<longrightarrow> P (snd (get s))) \<longrightarrow> P (snd (snd rd)) \<longrightarrow> P (snd (snd (snd x)))"

lemma huft_decode_keeps: "huft_decode get ts t n rd = Some x \<Longrightarrow> decode_keeps P get rd x"
proof (induction rule: huft_decode.raw_induct [where P = "\<lambda>get ts t n rd x. decode_keeps P get rd x", rotated, consumes 1, case_names step])
  case (step dec get ts t n rd x)
  let ?rd = "need_bits get n rd"
  show ?case unfolding decode_keeps_def
  proof (intro impI)
    assume g: "\<forall>s. P s \<longrightarrow> P (snd (get s))" and p: "P (snd (snd rd))"
    have n: "P (snd (snd ?rd))" using need_bits_keeps [of P get rd n] g p by blast
    obtain r where r: "cell ts t (low_bits n ?rd) = Some r"
      using step(2) by (auto simp: Let_def split: if_splits bind_splits)
    show "P (snd (snd (snd x)))"
    proof (cases "e r > 16 \<and> e r \<noteq> 99")
      case False
      then show ?thesis using step(2) r n by (auto simp: Let_def split: if_splits)
    next
      case True
      then obtain u where "dec get ts u (e r - 16) (dump_bits (b r) ?rd) = Some x"
        using step(2) r by (auto simp: Let_def split: if_splits huft_v.splits)
      from step(1) [OF this] g n show ?thesis by (simp add: decode_keeps_def)
    qed
  qed
qed

lemma huft_decode_wf: "huft_decode get_byte ts t n rd = Some (r, rd') \<Longrightarrow> wf_gunzip (snd (snd rd)) \<Longrightarrow> wf_gunzip (snd (snd rd'))"
  using huft_decode_keeps [where P = wf_gunzip and get = get_byte] get_byte_wf unfolding decode_keeps_def by fastforce

lemma get_bits_wf: "get_bits n rd = (x, rd') \<Longrightarrow> wf_gunzip (snd (snd rd)) \<Longrightarrow> wf_gunzip (snd (snd rd'))"
  using need_bits_keeps [where P = wf_gunzip and get = get_byte, OF get_byte_wf, of rd n] by (auto simp: get_bits_def Let_def)

lemma rd_state_snd [simp]: "snd (snd (rd_state f rd)) = f (snd (snd rd))"
  by (simp add: rd_state_def split: prod.splits)

lemma decode_code_wf:
  assumes "decode_code w rd = Some (c, rd')" "wf_gunzip (snd (snd rd))"
  shows "wf_gunzip (snd (snd rd'))"
  using assms by (auto simp: decode_code_def Let_def split: bind_splits if_splits prod.splits dest!: huft_decode_wf get_bits_wf)

lemma copy_match_bounds:
  "length sl = WSIZE \<Longrightarrow> w < WSIZE \<Longrightarrow> copy_match ok n d w sl = (n', d', w', sl') \<Longrightarrow>
    length sl' = WSIZE \<and> w' \<le> WSIZE \<and> (n' = 0 \<or> w' = WSIZE)"
proof (induction ok n d w sl rule: copy_match.induct)
  case (1 ok n d w sl)
  define D where "D = d mod WSIZE"
  define M where "M = min n (WSIZE - max D w)"
  define sl2 where "sl2 = (if D > w \<or> w - D \<ge> M then move_slide ok w D M sl else copy_forward w D M sl)"
  have d: "D < WSIZE" by (simp add: D_def)
  have m: "w + M \<le> WSIZE" "D + M \<le> WSIZE" "0 < n \<Longrightarrow> 0 < M" using d "1.prems"(2) by (auto simp: M_def)
  have "length (copy_forward w D M sl) = length sl" unfolding copy_forward_def by (rule for_up_keeps) simp
  then have len: "length sl2 = WSIZE" using m "1.prems"(1) by (simp add: sl2_def move_slide_def)
  show ?case
  proof (cases "w + M = WSIZE \<or> n - M = 0 \<or> M = 0")
    case True
    then have "copy_match ok n d w sl = (n - M, D + M, w + M, sl2)"
      by (subst copy_match.simps) (simp only: Let_def if_True D_def [symmetric] M_def [symmetric] sl2_def [symmetric])
    then show ?thesis using len m True "1.prems"(3) by auto
  next
    case False
    then have "copy_match ok n d w sl = copy_match ok (n - M) (D + M) (w + M) sl2"
      by (subst copy_match.simps) (simp only: Let_def if_False D_def [symmetric] M_def [symmetric] sl2_def [symmetric])
    moreover have "w + M < WSIZE" using False m(1) by simp
    ultimately show ?thesis using "1.IH" [OF D_def M_def sl2_def False len] "1.prems"(3) by simp
  qed
qed

lemma copy_codes_wf:
  assumes "wf_gunzip (snd (snd rd))" "w < WSIZE" "copy_codes n d w rd = (n', d', w', rd')"
  shows "wf_gunzip (snd (snd rd'))" "w' \<le> WSIZE"
proof -
  let ?s = "snd (snd rd)"
  obtain n2 d2 w2 sl where c: "copy_match (errnum ?s = ERR_NONE) n d w (slide ?s) = (n2, d2, w2, sl)" by (metis prod_cases4)
  have "length (slide ?s) = WSIZE" using assms(1) by (simp add: wf_gunzip_def)
  from copy_match_bounds [OF this assms(2) c] assms c
  show "wf_gunzip (snd (snd rd'))" "w' \<le> WSIZE" by (auto simp: copy_codes_def Let_def wf_gunzip_def)
qed

definition loop_keeps :: "nat \<Rightarrow> gunzip reader \<Rightarrow> bool \<times> gunzip \<Rightarrow> bool" where
  "loop_keeps w rd x \<longleftrightarrow> wf_gunzip (snd (snd rd)) \<longrightarrow> w < WSIZE \<longrightarrow> wf_gunzip (snd x)"

lemma end_codes_wf: "wf_gunzip (snd (snd rd)) \<Longrightarrow> w \<le> WSIZE \<Longrightarrow> wf_gunzip (snd (end_codes n d w rd))"
  by (auto simp: end_codes_def wf_gunzip_def split: prod.splits)

lemma codes_loop_wf: "codes_loop n d w rd = Some x \<Longrightarrow> loop_keeps w rd x"
proof (induction rule: codes_loop.raw_induct [where P = "\<lambda>n d w rd x. loop_keeps w rd x", rotated, consumes 1, case_names step])
  case (step loop n d w rd x)
  have copy: "wf_gunzip (snd x)" if "wf_gunzip (snd (snd rd))" "w < WSIZE"
    "(let (n, d, w, rd) = copy_codes n d w rd in if w = WSIZE then Some (end_codes n d w rd) else loop n d w rd) = Some x" for n d rd
  proof -
    obtain n2 d2 w2 rd2 where c: "copy_codes n d w rd = (n2, d2, w2, rd2)" by (metis prod_cases4)
    note k = copy_codes_wf [OF that(1,2) c]
    show ?thesis
    proof (cases "w2 = WSIZE")
      case True
      then have "x = end_codes n2 d2 w2 rd2" using that(3) c by simp
      then show ?thesis using end_codes_wf [OF k] by simp
    next
      case False
      then have "loop n2 d2 w2 rd2 = Some x" using that(3) c by simp
      from step(1) [OF this] k False show ?thesis by (simp add: loop_keeps_def)
    qed
  qed
  show ?case unfolding loop_keeps_def
  proof (intro impI)
    assume s: "wf_gunzip (snd (snd rd))" and w: "w < WSIZE"
    show "wf_gunzip (snd x)"
    proof (cases "code_state (snd (snd rd)) = 0")
      case False
      then show ?thesis using copy [OF s w, of n d] step(2) by simp
    next
      case True
      obtain c rd2 where c: "decode_code w rd = Some (c, rd2)" using step(2) True by (auto split: bind_splits)
      note k = decode_code_wf [OF c s]
      show ?thesis
      proof (cases c)
        case (Literal y)
        let ?rd = "rd_state (\<lambda>s. s\<lparr>slide := (slide s)[w := y]\<rparr>) rd2"
        have k': "wf_gunzip (snd (snd ?rd))" using k by (simp add: wf_gunzip_def)
        show ?thesis
        proof (cases "w + 1 = WSIZE")
          case True
          then have "x = end_codes n d (w + 1) ?rd" using step(2) \<open>code_state _ = 0\<close> c Literal by simp
          then show ?thesis using end_codes_wf [OF k', of "w + 1" n d] w by simp
        next
          case False
          then have "loop n d (w + 1) ?rd = Some x" using step(2) \<open>code_state _ = 0\<close> c Literal by simp
          from step(1) [OF this] k' False w show ?thesis by (simp add: loop_keeps_def)
        qed
      next
        case End_of_block
        then have "x = end_codes n d w (rd_state (\<lambda>s. s\<lparr>block_len := 0\<rparr>) rd2)" using step(2) True c by simp
        moreover have "wf_gunzip (snd (snd (rd_state (\<lambda>s. s\<lparr>block_len := 0\<rparr>) rd2)))" using k by (simp add: wf_gunzip_def)
        ultimately show ?thesis using end_codes_wf w by simp
      next
        case (Match n2 d2)
        have "wf_gunzip (snd (snd (rd_state (\<lambda>s. s\<lparr>code_state := code_state s + 1\<rparr>) rd2)))" using k by (simp add: wf_gunzip_def)
        from copy [OF this w, of n2 d2] step(2) True c Match show ?thesis by simp
      next
        case Bad_code
        then show ?thesis using step(2) True c k by (auto simp: wf_gunzip_def)
      qed
    qed
  qed
qed

lemma stored_loop_wf: "wf_gunzip s \<Longrightarrow> wf_gunzip (stored_loop s)"
proof (induction s rule: stored_loop.induct)
  case (1 s)
  show ?case
  proof (cases "block_len s \<noteq> 0 \<and> wp s < WSIZE \<and> errnum s = ERR_NONE")
    case True
    have "wf_gunzip (stored_byte s)"
      using get_byte_wf [OF "1.prems"] get_byte_keeps [of s] True by (simp add: stored_byte_def split_beta wf_gunzip_def Let_def)
    from "1.IH" [OF True this] True show ?thesis by (subst stored_loop.simps) simp
  next
    case False
    then show ?thesis using "1.prems" by (subst stored_loop.simps) (simp only: if_False)
  qed
qed

text \<open>Between the loops that write to it, the window stays as it is: the states with the place \<open>wp\<close> at most \<open>m0\<close>.\<close>

definition wf_below :: "nat \<Rightarrow> gunzip \<Rightarrow> bool" where
  "wf_below m0 s \<longleftrightarrow> wf_gunzip s \<and> wp s \<le> m0"

lemma get_byte_below: "wf_below m0 s \<Longrightarrow> wf_below m0 (snd (get_byte s))"
  by (simp add: wf_below_def get_byte_wf get_byte_keeps)

lemma get_bits_below: "get_bits n rd = (x, rd') \<Longrightarrow> wf_below m0 (snd (snd rd)) \<Longrightarrow> wf_below m0 (snd (snd rd'))"
  using need_bits_keeps [where P = "wf_below m0" and get = get_byte, OF get_byte_below, of rd n] by (auto simp: get_bits_def Let_def)

lemma below_fields [simp]:
  "wf_below m0 (errnum_update h1 s) = wf_below m0 s" "wf_below m0 (bb_update h2 s) = wf_below m0 s"
  "wf_below m0 (bk_update h3 s) = wf_below m0 s" "wf_below m0 (block_len_update h4 s) = wf_below m0 s"
  "wf_below m0 (last_block_update h5 s) = wf_below m0 s" "wf_below m0 (block_type_update h6 s) = wf_below m0 s"
  "wf_below m0 (tl_ptr_update h7 s) = wf_below m0 s" "wf_below m0 (td_ptr_update h8 s) = wf_below m0 s"
  "wf_below m0 (bl_update h9 s) = wf_below m0 s" "wf_below m0 (bd_update h10 s) = wf_below m0 s"
  "wf_below m0 (tabs_update h11 s) = wf_below m0 s" "wf_below m0 (code_state_update h12 s) = wf_below m0 s"
  "wf_below m0 (saved_filepos_update h13 s) = wf_below m0 s" "wf_below m0 (filepos_update h14 s) = wf_below m0 s"
  "wf_below m0 (filemax_update h15 s) = wf_below m0 s" "wf_below m0 (fsmax_update h16 s) = wf_below m0 s"
  "wf_below m0 (gzip_filepos_update h17 s) = wf_below m0 s" "wf_below m0 (gzip_filemax_update h18 s) = wf_below m0 s"
  "wf_below m0 (gzip_fsmax_update h19 s) = wf_below m0 s" "wf_below m0 (gzip_data_offset_update h20 s) = wf_below m0 s"
  "wf_below m0 (gzip_crc_update h21 s) = wf_below m0 s" "wf_below m0 (compressed_file_update h22 s) = wf_below m0 s"
  "wf_below m0 (mem_update h23 s) = wf_below m0 s" "wf_below m0 (linalloc_topaddr_update h24 s) = wf_below m0 s"
  "wf_below m0 (reset_linalloc s) = wf_below m0 s" "wf_below m0 (bad_data s) = wf_below m0 s"
  "wf_below m0 (gunzip_swap_values s) = wf_below m0 s" "wf_below m0 (initialize_tables s) = wf_below m0 s"
  by (simp_all add: wf_below_def wf_gunzip_def reset_linalloc_def bad_data_def gunzip_swap_values_def initialize_tables_def)

lemma wf_gunzip_below: "wf_gunzip s = wf_below WSIZE s"
  by (auto simp: wf_below_def wf_gunzip_def)

lemmas wf_fields [simp] = below_fields [where ?m0.0 = WSIZE, folded wf_gunzip_below]

lemma need_bits_below: "wf_below m0 (snd (snd rd)) \<Longrightarrow> wf_below m0 (snd (snd (need_bits get_byte n rd)))"
  by (rule need_bits_keeps [where P = "wf_below m0" and get = get_byte, OF get_byte_below])

lemma init_stored_block_below: "wf_below m0 s \<Longrightarrow> wf_below m0 (init_stored_block s)"
  by (auto simp: init_stored_block_def Let_def split_beta intro!: need_bits_below)

lemma build_both_below: "build_both ll ml dl md a s = Some t \<Longrightarrow> wf_below m0 s \<Longrightarrow> wf_below m0 t"
  by (auto simp: build_both_def Let_def below_fields split: bind_splits if_splits)

lemma read_bit_lengths_below: "read_bit_lengths js ll rd = (ll', rd') \<Longrightarrow> wf_below m0 (snd (snd rd)) \<Longrightarrow> wf_below m0 (snd (snd rd'))"
proof (induction js arbitrary: ll rd)
  case (Cons j js)
  obtain x rd2 where g: "get_bits 3 rd = (x, rd2)" by (cases "get_bits 3 rd") blast
  with Cons.IH [of "ll[j := x]" rd2] Cons.prems get_bits_below [OF g] show ?case by simp
qed simp

lemma read_lengths_below:
  "read_lengths ts t n m l ll rd = Some x \<Longrightarrow> wf_below m0 (snd (snd rd)) \<Longrightarrow>
    wf_below m0 (case x of Inl (u, k, s) \<Rightarrow> s | Inr (ll, u, k, s) \<Rightarrow> s)"
proof (induction ts t n m l ll rd rule: read_lengths.induct)
  case (1 ts t n m l ll rd)
  show ?case
  proof (cases "length ll < n")
    case False
    with "1.prems" show ?thesis by (subst (asm) read_lengths.simps) (auto split: prod.splits)
  next
    case True
    let ?rd = "need_bits get_byte m rd"
    obtain r where r: "cell ts t (low_bits m ?rd) = Some r"
      using "1.prems"(1) True by (subst (asm) read_lengths.simps) (auto simp: Let_def split: bind_splits)
    obtain j where j: "huft_number r = Some j"
      using "1.prems"(1) True r by (subst (asm) read_lengths.simps) (auto simp: Let_def split: bind_splits)
    let ?rd2 = "dump_bits (b r) ?rd"
    have wf2: "wf_below m0 (snd (snd ?rd2))" using need_bits_below "1.prems"(2) by simp
    show ?thesis
    proof (cases "j < 16")
      case small: True
      then have "read_lengths ts t n m j (ll @ [j]) ?rd2 = Some x"
        using "1.prems"(1) True r j by (subst (asm) read_lengths.simps) (simp add: Let_def)
      from "1.IH"(1) [OF True refl r j refl small this wf2] show ?thesis .
    next
      case big: False
      define y where "y = (if j = 16 then let (x, rd) = get_bits 2 ?rd2 in (3 + x, l, rd)
         else if j = 17 then let (x, rd) = get_bits 3 ?rd2 in (3 + x, 0, rd) else let (x, rd) = get_bits 7 ?rd2 in (11 + x, 0, rd))"
      obtain count l' rd' where c: "y = (count, l', rd')" by (metis prod_cases3)
      have wf': "wf_below m0 (snd (snd rd'))"
        using c get_bits_below [OF _ wf2] unfolding y_def by (auto simp: Let_def split: if_splits prod.splits)
      have eq: "read_lengths ts t n m l ll rd = (if length ll + count > n then Some (Inl rd')
          else read_lengths ts t n m l' (ll @ replicate count l') rd')"
        using True r j big c unfolding y_def by (subst read_lengths.simps) (simp add: Let_def)
      show ?thesis
      proof (cases "length ll + count > n")
        case True
        with eq "1.prems"(1) wf' show ?thesis by (auto split: prod.splits)
      next
        case False
        with eq "1.prems"(1) have "read_lengths ts t n m l' (ll @ replicate count l') rd' = Some x" by simp
        from "1.IH"(2) [OF True refl r j refl big c [unfolded y_def, symmetric] refl refl False this wf'] show ?thesis .
      qed
    qed
  qed
qed

lemma init_dynamic_block_below:
  assumes "init_dynamic_block s = Some s'" "wf_below m0 s"
  shows "wf_below m0 s'"
proof -
  obtain x1 rd1 where 1: "get_bits 5 (bb s, bk s, s) = (x1, rd1)" by (cases "get_bits 5 (bb s, bk s, s)") blast
  obtain x2 rd2 where 2: "get_bits 5 rd1 = (x2, rd2)" by (cases "get_bits 5 rd1") blast
  obtain x3 rd3 where 3: "get_bits 4 rd2 = (x3, rd3)" by (cases "get_bits 4 rd2") blast
  have wf3: "wf_below m0 (snd (snd rd3))" using get_bits_below [OF 1] get_bits_below [OF 2] get_bits_below [OF 3] assms(2) by simp
  show ?thesis
  proof (cases "257 + x1 > 286 \<or> 1 + x2 > 30")
    case True
    then have "s' = bad_data (snd (snd rd3))" using assms(1) 1 2 3 by (simp add: init_dynamic_block_def)
    with wf3 show ?thesis by simp
  next
    case False
    obtain ll rd4 where 4: "read_bit_lengths (take (4 + x3) bitorder) (replicate 19 0) rd3 = (ll, rd4)"
      by (cases "read_bit_lengths (take (4 + x3) bitorder) (replicate 19 0) rd3") blast
    have wf4: "wf_below m0 (snd (snd rd4))" using read_bit_lengths_below [OF 4 wf3] .
    obtain i t m ts where 5: "build_table ll 19 [] [] 7 (tabs (snd (snd rd4))) = Some (i, t, m, ts)"
      using assms(1) 1 2 3 4 False by (auto simp: init_dynamic_block_def Let_def split: bind_splits)
    define rd5 where "rd5 = rd_state (\<lambda>s. s\<lparr>tl_ptr := (if i = 2 then tl_ptr s else t), bl := m, tabs := ts\<rparr>) rd4"
    have wf5: "wf_below m0 (snd (snd rd5))" using wf4 by (simp add: rd5_def)
    define nl nd where "nl = 257 + x1" and "nd = 1 + x2"
    have eq: "init_dynamic_block s = (if i \<noteq> 0 then Some (bad_data (snd (snd rd5)))
        else do { t \<leftarrow> t; x \<leftarrow> read_lengths ts t (nl + nd) m 0 [] rd5;
             case x of Inl (u, k, s) \<Rightarrow> Some (bad_data s)
             | Inr (ll, u, k, s) \<Rightarrow>
                 build_both (take nl ll) lbits (drop nl ll) dbits 0 ((reset_linalloc s)\<lparr>bb := u, bk := k\<rparr>) })"
      unfolding init_dynamic_block_def Let_def 1 prod.case 2 3 4 nl_def [symmetric] nd_def [symmetric]
      using False by (simp only: if_False nl_def nd_def 5 bind.bind_lunit prod.case rd5_def)
    show ?thesis
    proof (cases "i = 0")
      case True
      then obtain t' x where x: "read_lengths ts t' (nl + nd) m 0 [] rd5 = Some x"
        "(case x of Inl (u, k, s) \<Rightarrow> Some (bad_data s)
          | Inr (ll, u, k, s) \<Rightarrow>
              build_both (take nl ll) lbits (drop nl ll) dbits 0 ((reset_linalloc s)\<lparr>bb := u, bk := k\<rparr>)) = Some s'"
        using eq assms(1) by (auto split: bind_splits)
      show ?thesis using read_lengths_below [OF x(1) wf5] x(2) by (auto split: sum.splits prod.splits dest!: build_both_below)
    next
      case False
      with eq wf5 assms(1) show ?thesis by auto
    qed
  qed
qed

lemma get_new_block_below:
  assumes "get_new_block s = Some s'" "wf_below m0 s"
  shows "wf_below m0 s'"
proof -
  obtain x rd1 where 1: "get_bits 1 (bb s, bk s, s) = (x, rd1)" by (cases "get_bits 1 (bb s, bk s, s)") blast
  obtain y u k t where 2: "get_bits 2 (rd_state (\<lambda>s. s\<lparr>last_block := x\<rparr>) rd1) = (y, u, k, t)" by (metis prod_cases4)
  have "wf_below m0 t" using get_bits_below [OF 1] get_bits_below [OF 2] assms(2) by simp
  then have "wf_below m0 (t\<lparr>block_type := y, bb := u, bk := k\<rparr>)" by simp
  then show ?thesis using assms(1) 1 2 init_stored_block_below init_dynamic_block_below build_both_below
    by (auto simp: get_new_block_def init_fixed_block_def Let_def split: if_splits)
qed

lemma window_loop_wf: "window_loop s = Some x \<Longrightarrow> wf_gunzip s \<longrightarrow> wf_gunzip (snd x)"
proof (induction rule: window_loop.raw_induct [where P = "\<lambda>s x. wf_gunzip s \<longrightarrow> wf_gunzip (snd x)", rotated, consumes 1, case_names step])
  case (step loop s x)
  show ?case
  proof
    assume wf: "wf_gunzip s"
    show "wf_gunzip (snd x)"
    proof (cases "wp s < WSIZE \<and> errnum s = ERR_NONE \<and> \<not> (block_len s = 0 \<and> last_block s \<noteq> 0)")
      case False
      then show ?thesis using step(2) wf by (auto split: if_splits)
    next
      case True
      then obtain s1 where 1: "(if block_len s = 0 then get_new_block s else Some s) = Some s1"
        using step(2) by (auto split: if_splits bind_splits)
      have "wf_below (wp s) s1" using 1 wf get_new_block_below [of s s1 "wp s"] by (auto simp: wf_below_def split: if_splits)
      define s2 where "s2 = (if block_type s1 > INFLATE_DYNAMIC then bad_data s1 else s1)"
      have "wf_below (wp s) s2" using \<open>wf_below (wp s) s1\<close> by (simp add: s2_def)
      then have wf2: "wf_gunzip s2" "wp s2 < WSIZE" using True by (simp_all add: wf_below_def)
      have c1: "wp s < WSIZE \<and> errnum s = ERR_NONE" and c2: "\<not> (block_len s = 0 \<and> last_block s \<noteq> 0)" using True by auto
      have eq: "(if errnum s2 \<noteq> ERR_NONE then Some (False, s2) else if block_type s2 = INFLATE_STORED then loop (stored_loop s2)
          else do { (ended, s) \<leftarrow> inflate_codes_in_window s2; loop (if ended then reset_linalloc s else s) }) = Some x"
        using step(2) unfolding if_P [OF c1] if_not_P [OF c2] 1 bind.bind_lunit Let_def s2_def .
      consider (err) "x = (False, s2)" | (stored) "loop (stored_loop s2) = Some x"
        | (codes) ended t where "inflate_codes_in_window s2 = Some (ended, t)" "loop (if ended then reset_linalloc t else t) = Some x"
      proof (cases "errnum s2 \<noteq> ERR_NONE")
        case False
        show ?thesis
        proof (cases "block_type s2 = INFLATE_STORED")
          case True
          show ?thesis using that(2) eq unfolding if_not_P [OF False] if_P [OF True] .
        next
          case codes: False
          show ?thesis using that(3) eq unfolding if_not_P [OF False] if_not_P [OF codes] by (auto simp: bind_eq_Some_conv)
        qed
      qed (use eq that(1) in auto)
      then show ?thesis
      proof cases
        case err
        then show ?thesis using wf2 by simp
      next
        case stored
        from step(1) [OF this] stored_loop_wf [OF wf2(1)] show ?thesis by simp
      next
        case codes
        have "wf_gunzip t"
          using codes_loop_wf [OF codes(1) [unfolded inflate_codes_in_window_def]] wf2 by (simp add: loop_keeps_def)
        with step(1) [OF codes(2)] show ?thesis by (cases ended) simp_all
      qed
    qed
  qed
qed

lemma inflate_window_wf: "inflate_window s = Some t \<Longrightarrow> wf_gunzip s \<Longrightarrow> wf_gunzip t"
proof -
  assume a: "inflate_window s = Some t" and wf: "wf_gunzip s"
  then obtain x where x: "window_loop (s\<lparr>wp := 0\<rparr>) = Some x" by (auto simp: inflate_window_def split: bind_splits)
  have "wf_gunzip (s\<lparr>wp := 0\<rparr>)" using wf by (simp add: wf_gunzip_def)
  with window_loop_wf [OF x] a x show ?thesis by (auto simp: inflate_window_def wf_gunzip_def split: prod.splits if_splits)
qed

lemma seek_window_wf: "seek_window s = Some t \<Longrightarrow> wf_gunzip s \<longrightarrow> wf_gunzip t"
  by (induction rule: seek_window.raw_induct [where P = "\<lambda>s t. wf_gunzip s \<longrightarrow> wf_gunzip t", rotated, consumes 1])
    (auto split: if_splits bind_splits dest: inflate_window_wf)

lemma copy_out_wf [simp]: "wf_gunzip (copy_out buf bytes s) = wf_gunzip s"
  by (simp add: copy_out_def memcheck_def wf_gunzip_def Let_def)

lemma read_loop_wf: "read_loop buf len ret s = Some x \<Longrightarrow> wf_gunzip s \<longrightarrow> wf_gunzip (snd x)"
proof (induction rule: read_loop.raw_induct [where P = "\<lambda>buf len ret s x. wf_gunzip s \<longrightarrow> wf_gunzip (snd x)", rotated, consumes 1, case_names step])
  case (step loop buf len ret s x)
  show ?case
  proof (cases "len > 0 \<and> errnum s = ERR_NONE")
    case True
    then obtain t where t: "seek_window s = Some t" using step(2) by (auto split: if_splits bind_splits)
    obtain buf' len' ret' bytes n where "loop buf' len' ret' ((copy_out buf bytes t)\<lparr>gzip_filepos := n\<rparr>) = Some x"
      using step(2) t True by (auto simp: Let_def)
    from step(1) [OF this] seek_window_wf [OF t] show ?thesis by (simp only: wf_fields copy_out_wf) blast
  next
    case False
    then show ?thesis using step(2) by (auto split: if_splits)
  qed
qed

lemma gunzip_read_wf:
  assumes "gunzip_read buf len s = Some (n, t)" "wf_gunzip s"
  shows "wf_gunzip t"
proof -
  define s1 where "s1 = gunzip_swap_values (s\<lparr>compressed_file := False\<rparr>)"
  define s2 where "s2 = (if saved_filepos s1 > gzip_filepos s1 + int WSIZE then initialize_tables s1 else s1)"
  have wf: "wf_gunzip s2" using assms(2) by (simp add: s1_def s2_def)
  obtain ret u where u: "read_loop buf len 0 s2 = Some (ret, u)" "t = gunzip_swap_values (u\<lparr>compressed_file := True\<rparr>)"
    using assms(1) unfolding gunzip_read_def Let_def s1_def [symmetric] s2_def [symmetric] by (auto simp: bind_eq_Some_conv)
  show ?thesis using read_loop_wf [OF u(1)] wf u(2) by simp
qed

lemma plain_read_wf: "wf_gunzip (snd (plain_read n s)) = wf_gunzip s"
proof -
  obtain bytes t where r: "plain_read n s = (bytes, t)" by fastforce
  show ?thesis using plain_read_keeps [OF r] r by (simp add: wf_gunzip_def)
qed

lemma bad_field_wf: "wf_gunzip s \<Longrightarrow> wf_gunzip (snd (bad_field len ch s))"
proof (induction len ch s rule: bad_field.induct)
  case (1 len ch s)
  obtain bytes t where r: "plain_read 1 s = (bytes, t)" by fastforce
  have t: "wf_gunzip t" using plain_read_wf [of 1 s] r "1.prems" by simp
  show ?case
  proof (cases "len = 0 \<or> (len < 0 \<and> ch = 0)")
    case False
    show ?thesis
    proof (cases "\<exists>c. bytes = [c]")
      case True
      then obtain c where c: "bytes = [c]" by blast
      have "plain_read 1 s = ([c], t)" using r c by simp
      from "1.IH" [OF False this [symmetric] refl refl t] False this show ?thesis by (subst bad_field.simps) (simp only: if_False prod.case list.case)
    next
      case no: False
      then show ?thesis using False r t by (subst bad_field.simps) (auto split: list.splits)
    qed
  qed (use "1.prems" in \<open>subst bad_field.simps, simp\<close>)
qed

lemma bad_field_snd: "bad_field len ch s = (r, t) \<Longrightarrow> wf_gunzip s \<Longrightarrow> wf_gunzip t"
  using bad_field_wf [of s len ch] by simp

lemma skip_fields_wf:
  assumes "wf_gunzip s"
  shows "wf_gunzip (snd (skip_fields flags s))"
proof -
  let ?first = "if flags AND EXTRA_FIELD \<noteq> 0
      then let (len, s) = plain_read 2 s in if length len \<noteq> 2 then (True, s) else bad_field (int (le16 (len ! 0) (len ! 1))) 1 s
      else (False, s)"
  obtain r s1 where 1: "?first = (r, s1)" by fastforce
  obtain r2 s2 where 2: "(if \<not> r \<and> flags AND ORIG_NAME \<noteq> 0 then bad_field (- 1) 1 s1 else (r, s1)) = (r2, s2)" by fastforce
  obtain r3 s3 where 3: "(if \<not> r2 \<and> flags AND COMMENT \<noteq> 0 then bad_field (- 1) 1 s2 else (r2, s2)) = (r3, s3)" by fastforce
  have "wf_gunzip s1"
  proof (cases "flags AND EXTRA_FIELD \<noteq> 0")
    case True
    obtain l t where p: "plain_read 2 s = (l, t)" by fastforce
    have "wf_gunzip t" using plain_read_wf [of 2 s] assms p by simp
    then show ?thesis using 1 unfolding if_P [OF True] p Let_def prod.case
      by (cases "length l \<noteq> 2") (auto dest: bad_field_snd)
  next
    case False
    then show ?thesis using 1 assms by simp
  qed
  then have "wf_gunzip s2" using 2 by (simp split: if_splits add: bad_field_snd)
  then have "wf_gunzip s3" using 3 by (simp split: if_splits add: bad_field_snd)
  then show ?thesis unfolding skip_fields_def Let_def 1 [unfolded Let_def] prod.case 2 3 by simp
qed

lemma gunzip_test_header_wf: "wf_gunzip s \<Longrightarrow> wf_gunzip (snd (gunzip_test_header s))"
proof -
  assume wf: "wf_gunzip s"
  obtain buf s1 where 1: "(if no_decompression s then ([], s) else plain_read 10 s) = (buf, s1)" by fastforce
  have wf1: "wf_gunzip s1" using 1 wf plain_read_wf [of 10 s] by (auto split: if_splits)
  obtain bad s2 where 2: "skip_fields (buf ! 3) s1 = (bad, s2)" by fastforce
  have wf2: "wf_gunzip s2" using skip_fields_wf [OF wf1, of "buf ! 3"] 2 by simp
  define s3 where "s3 = s2\<lparr>gzip_data_offset := filepos s2\<rparr>"
  obtain bytes s4 where 3: "plain_read 8 (s3\<lparr>filepos := filemax s3 - 8\<rparr>) = (bytes, s4)" by fastforce
  have wf4: "wf_gunzip s4" using plain_read_wf [of 8 "s3\<lparr>filepos := filemax s3 - 8\<rparr>"] wf2 3 by (simp add: s3_def)
  have bad: "wf_gunzip (bad_header t) = wf_gunzip t" for t by (simp add: bad_header_def)
  show ?thesis
    unfolding gunzip_test_header_def 1 Let_def prod.case 2 s3_def [symmetric] 3
    using wf1 wf2 wf4 bad by simp
qed

end
