(* ===== verification/GRUB_Stored.thy ===== *)
theory GRUB_Stored
  imports GRUB_Inflate
begin

text \<open>
  A round trip through the boot loader's decompression: a file in the format of RFC 1952 whose data is one stored block is
  recognised by \<open>gunzip_test_header\<close>, and \<open>gunzip_read\<close> delivers the bytes that were stored in it.
\<close>

section \<open>The file\<close>

text \<open>A header without optional fields, one stored block, the check sum and the length.\<close>

definition gzip_header :: "u8 list" where
  "gzip_header = [0x1f, 0x8b, 8, 0, 0, 0, 0, 0, 0, 0]"

definition low_byte :: "nat \<Rightarrow> u8" where
  "low_byte n = of_nat n"

definition high_byte :: "nat \<Rightarrow> u8" where
  "high_byte n = of_nat (n div 256)"

definition stored_block :: "u8 list \<Rightarrow> u8 list" where
  "stored_block xs =
     (let n = length xs in [1, low_byte n, high_byte n, NOT (low_byte n), NOT (high_byte n)] @ xs)"

definition gzip_stored :: "u8 list \<Rightarrow> u8 list \<Rightarrow> u8 list" where
  "gzip_stored crc xs = gzip_header @ stored_block xs @ crc @ [low_byte (length xs), high_byte (length xs), 0, 0]"

lemma length_stored [simp]: "length gzip_header = 10" "length (stored_block xs) = 5 + length xs"
  "length (gzip_stored crc xs) = 19 + length xs + length crc"
  by (simp_all add: gzip_header_def stored_block_def gzip_stored_def Let_def)

lemma two_bytes: "n < 65536 \<Longrightarrow> unat (low_byte n) + 256 * unat (high_byte n) = n"
  by (simp add: low_byte_def high_byte_def unat_of_nat less_mult_imp_div_less)

section \<open>Reading the bytes in order\<close>

definition reads :: "nat \<Rightarrow> gunzip \<Rightarrow> bool" where
  "reads i s \<longleftrightarrow> buffered s \<and> next_byte s = i"

lemma reads_fields [simp]:
  "reads i (errnum_update h1 s) = reads i s" "reads i (bb_update h2 s) = reads i s"
  "reads i (bk_update h3 s) = reads i s" "reads i (block_len_update h4 s) = reads i s"
  "reads i (last_block_update h5 s) = reads i s" "reads i (block_type_update h6 s) = reads i s"
  "reads i (slide_update h7 s) = reads i s" "reads i (wp_update h8 s) = reads i s"
  by (simp_all add: reads_def buffered_def next_byte_def piece_def)

lemma reads_cong:
  assumes "reads i s" "filepos t = filepos s" "inbuf t = inbuf s" "bufloc t = bufloc s" "gzip_data_offset t = gzip_data_offset s"
    "filemax t = filemax s" "fsmax t = fsmax s" "file_data t = file_data s"
  shows "reads i t"
proof -
  have piece: "piece t = piece s" using assms(2,5) by (simp add: piece_def)
  show ?thesis using assms(1) unfolding reads_def buffered_def next_byte_def piece assms(2-) .
qed

lemma reads_get:
  assumes "reads i s" "i < length (file_data s)"
  obtains p xs n where "get_byte s = (file_data s ! i, s\<lparr>filepos := p, inbuf := xs, bufloc := n\<rparr>)"
    "reads (Suc i) (s\<lparr>filepos := p, inbuf := xs, bufloc := n\<rparr>)"
proof -
  have b: "buffered s" "int (next_byte s) < filemax s" using assms by (auto simp: reads_def buffered_def)
  note g = get_byte_buffered [OF b]
  obtain p xs n where t: "snd (get_byte s) = s\<lparr>filepos := p, inbuf := xs, bufloc := n\<rparr>"
    using g(4) by (auto simp: same_but_input_def)
  have "get_byte s = (file_data s ! i, s\<lparr>filepos := p, inbuf := xs, bufloc := n\<rparr>)"
    using g(1) t assms(1) by (metis prod.collapse reads_def)
  moreover have "reads (Suc i) (s\<lparr>filepos := p, inbuf := xs, bufloc := n\<rparr>)"
    using g(2,3) assms(1) unfolding reads_def t by simp
  ultimately show ?thesis using that by blast
qed

text \<open>The bytes read from place \<open>i\<close> on, by a reader with an empty bit buffer.\<close>

lemma need_byte:
  assumes "reads i s" "i < length (file_data s)" "0 < n" "n \<le> 8"
  obtains p xs l where "need_bits get_byte n (0, 0, s) = (ucast (file_data s ! i), 8, s\<lparr>filepos := p, inbuf := xs, bufloc := l\<rparr>)"
    "reads (Suc i) (s\<lparr>filepos := p, inbuf := xs, bufloc := l\<rparr>)"
proof -
  obtain p xs l where g: "get_byte s = (file_data s ! i, s\<lparr>filepos := p, inbuf := xs, bufloc := l\<rparr>)"
    "reads (Suc i) (s\<lparr>filepos := p, inbuf := xs, bufloc := l\<rparr>)" by (rule reads_get [OF assms(1,2)])
  have "need_bits get_byte n (0, 0, s) = (ucast (file_data s ! i), 8, s\<lparr>filepos := p, inbuf := xs, bufloc := l\<rparr>)"
    using g(1) assms(3,4) by (subst need_bits.simps, simp, subst need_bits.simps) simp
  with g(2) show ?thesis using that by blast
qed

lemma need_two_bytes:
  assumes "reads i s" "Suc i < length (file_data s)"
  obtains p xs l where "need_bits get_byte 16 (0, 0, s) =
      (ucast (file_data s ! i) OR push_bit 8 (ucast (file_data s ! Suc i)), 16, s\<lparr>filepos := p, inbuf := xs, bufloc := l\<rparr>)"
    "reads (Suc (Suc i)) (s\<lparr>filepos := p, inbuf := xs, bufloc := l\<rparr>)"
proof -
  obtain p xs l where g: "get_byte s = (file_data s ! i, s\<lparr>filepos := p, inbuf := xs, bufloc := l\<rparr>)"
    "reads (Suc i) (s\<lparr>filepos := p, inbuf := xs, bufloc := l\<rparr>)" by (rule reads_get [OF assms(1)]) (use assms(2) in auto)
  define t where "t = s\<lparr>filepos := p, inbuf := xs, bufloc := l\<rparr>"
  have f: "file_data t = file_data s" by (simp add: t_def)
  obtain p' xs' l' where h: "get_byte t = (file_data t ! Suc i, t\<lparr>filepos := p', inbuf := xs', bufloc := l'\<rparr>)"
    "reads (Suc (Suc i)) (t\<lparr>filepos := p', inbuf := xs', bufloc := l'\<rparr>)"
    by (rule reads_get [OF g(2) [folded t_def]]) (use assms(2) f in auto)
  have t: "t\<lparr>filepos := p', inbuf := xs', bufloc := l'\<rparr> = s\<lparr>filepos := p', inbuf := xs', bufloc := l'\<rparr>" by (simp add: t_def)
  have "need_bits get_byte 16 (0, 0, s) =
      (ucast (file_data s ! i) OR push_bit 8 (ucast (file_data s ! Suc i)), 16, s\<lparr>filepos := p', inbuf := xs', bufloc := l'\<rparr>)"
    using g(1) [folded t_def] h(1) t f
    by (subst need_bits.simps, simp, subst need_bits.simps, simp, subst need_bits.simps) simp
  with h(2) show ?thesis using that unfolding t by blast
qed

section \<open>A stored block\<close>

lemma stored_loop_copies:
  "reads i s \<Longrightarrow> i + block_len s \<le> length (file_data s) \<Longrightarrow> wp s + block_len s \<le> WSIZE \<Longrightarrow> length (slide s) = WSIZE \<Longrightarrow>
    errnum s = ERR_NONE \<Longrightarrow>
    \<exists>p xs l. stored_loop s = s\<lparr>filepos := p, inbuf := xs, bufloc := l, wp := wp s + block_len s, block_len := 0,
      slide := take (wp s) (slide s) @ take (block_len s) (drop i (file_data s)) @ drop (wp s + block_len s) (slide s)\<rparr>"
proof (induction "block_len s" arbitrary: s i)
  case 0
  have "stored_loop s = s" using 0(1) by (subst stored_loop.simps) simp
  moreover have "s = s\<lparr>filepos := filepos s, inbuf := inbuf s, bufloc := bufloc s, wp := wp s + block_len s, block_len := 0,
      slide := take (wp s) (slide s) @ take (block_len s) (drop i (file_data s)) @ drop (wp s + block_len s) (slide s)\<rparr>"
    using 0(1) [symmetric] by simp
  ultimately show ?case by metis
next
  case (Suc m)
  have lt: "i < length (file_data s)" "wp s < WSIZE" using Suc.hyps(2) Suc.prems(2,3) by linarith+
  obtain p xs l where g: "get_byte s = (file_data s ! i, s\<lparr>filepos := p, inbuf := xs, bufloc := l\<rparr>)"
    "reads (Suc i) (s\<lparr>filepos := p, inbuf := xs, bufloc := l\<rparr>)" by (rule reads_get [OF Suc.prems(1) lt(1)])
  define t where "t = stored_byte s"
  have t: "t = s\<lparr>filepos := p, inbuf := xs, bufloc := l, slide := (slide s)[wp s := file_data s ! i], wp := wp s + 1, block_len := m\<rparr>"
    using g(1) Suc.hyps(2) [symmetric] by (simp add: t_def stored_byte_def)
  have loop: "stored_loop s = stored_loop t" using Suc.hyps(2) Suc.prems(5) lt(2) by (subst stored_loop.simps) (simp add: t_def)
  have r: "reads (Suc i) t" using g(2) unfolding t by simp
  have "\<exists>p xs l. stored_loop t = t\<lparr>filepos := p, inbuf := xs, bufloc := l, wp := wp t + block_len t, block_len := 0,
      slide := take (wp t) (slide t) @ take (block_len t) (drop (Suc i) (file_data t)) @ drop (wp t + block_len t) (slide t)\<rparr>"
  proof (rule Suc.hyps(1) [OF _ r])
    show "m = block_len t" by (simp add: t)
  qed (use Suc.prems Suc.hyps(2) in \<open>auto simp: t\<close>)
  then obtain p' xs' l' where ih: "stored_loop t = t\<lparr>filepos := p', inbuf := xs', bufloc := l', wp := wp t + block_len t, block_len := 0,
      slide := take (wp t) (slide t) @ take (block_len t) (drop (Suc i) (file_data t)) @ drop (wp t + block_len t) (slide t)\<rparr>"
    by blast
  have sl: "take (Suc (wp s)) ((slide s)[wp s := file_data s ! i]) @ take m (drop (Suc i) (file_data s)) @ drop (Suc (wp s) + m) (slide s)
      = take (wp s) (slide s) @ take (Suc m) (drop i (file_data s)) @ drop (wp s + Suc m) (slide s)"
    using lt Suc.prems(4) by (simp add: take_Suc_conv_app_nth Cons_nth_drop_Suc [symmetric])
  have "stored_loop s = s\<lparr>filepos := p', inbuf := xs', bufloc := l', wp := wp s + block_len s, block_len := 0,
      slide := take (wp s) (slide s) @ take (block_len s) (drop i (file_data s)) @ drop (wp s + block_len s) (slide s)\<rparr>"
    unfolding loop ih Suc.hyps(2) [symmetric] sl [symmetric] by (simp add: t)
  then show ?case by blast
qed

lemma no_high_bit: "n < 65536 \<Longrightarrow> 16 \<le> j \<Longrightarrow> \<not> bit (n :: nat) j"
  using power_increasing [of 16 j "2 :: nat"] by (simp add: bit_iff_odd)

lemma two_bytes_word: "n < 65536 \<Longrightarrow> ucast (low_byte n) OR push_bit 8 (ucast (high_byte n)) = (of_nat n :: u32)"
proof (rule bit_word_eqI)
  fix j
  assume n: "n < 65536" and j: "j < LENGTH(32)"
  have "\<not> bit n j" if "16 \<le> j" using no_high_bit [OF n that] .
  moreover have "bit (n div 256) (j - 8) \<longleftrightarrow> bit n j" if "8 \<le> j"
    using that bit_drop_bit_eq [of 8 n] by (simp add: drop_bit_eq_div fun_eq_iff)
  ultimately show "bit (ucast (low_byte n) OR push_bit 8 (ucast (high_byte n)) :: u32) j = bit (of_nat n :: u32) j"
    using j by (cases "16 \<le> j"; cases "8 \<le> j")
      (auto simp: bit_simps low_byte_def high_byte_def bit_ucast_iff)
qed

lemma complement_word:
  assumes "n < 65536" 
  shows "take_bit 16 (unat (NOT (ucast (NOT (low_byte n)) OR push_bit 8 (ucast (NOT (high_byte n))) :: u32))) = n"
proof (rule bit_eqI)
  fix j
  let ?w = "NOT (ucast (NOT (low_byte n)) OR push_bit 8 (ucast (NOT (high_byte n))) :: u32)"
  have "\<not> bit n j" if "16 \<le> j" using no_high_bit [OF assms that] .
  moreover have "bit (n div 256) (j - 8) \<longleftrightarrow> bit n j" if "8 \<le> j"
    using that bit_drop_bit_eq [of 8 n] by (simp add: drop_bit_eq_div fun_eq_iff)
  moreover have "bit (take_bit 16 (unat w)) j \<longleftrightarrow> j < 16 \<and> bit w j" for w :: u32
    by (simp add: bit_take_bit_iff bit_unsigned_iff)
  ultimately show "bit (take_bit 16 (unat ?w)) j = bit n j"
    by (cases "16 \<le> j"; cases "8 \<le> j")
      (auto simp: bit_simps low_byte_def high_byte_def bit_ucast_iff)
qed

lemma empty_reader [simp]: "dump_bits n (u, n, s) = (drop_bit n u, 0, s)"
  by (simp add: dump_bits_def)

lemma init_stored_block_reads:
  assumes "reads i s" "i + 4 \<le> length (file_data s)" "drop_bit (bk s) (bb s) = 0" "bk s < 8" "n < 65536"
    "take 4 (drop i (file_data s)) = [low_byte n, high_byte n, NOT (low_byte n), NOT (high_byte n)]"
  obtains p xs l where "init_stored_block s = s\<lparr>filepos := p, inbuf := xs, bufloc := l, block_len := n, bb := 0, bk := 0\<rparr>"
    "reads (i + 4) (s\<lparr>filepos := p, inbuf := xs, bufloc := l\<rparr>)"
proof -
  have bytes: "file_data s ! i = low_byte n" "file_data s ! Suc i = high_byte n"
    "file_data s ! Suc (Suc i) = NOT (low_byte n)" "file_data s ! Suc (Suc (Suc i)) = NOT (high_byte n)"
    using arg_cong [OF assms(6), of "\<lambda>xs. xs ! 0"] arg_cong [OF assms(6), of "\<lambda>xs. xs ! 1"]
      arg_cong [OF assms(6), of "\<lambda>xs. xs ! 2"] arg_cong [OF assms(6), of "\<lambda>xs. xs ! 3"] assms(2)
    by (simp_all add: numeral_2_eq_2 numeral_3_eq_3)
  obtain p xs l where 1: "need_bits get_byte 16 (0, 0, s) =
      (ucast (file_data s ! i) OR push_bit 8 (ucast (file_data s ! Suc i)), 16, s\<lparr>filepos := p, inbuf := xs, bufloc := l\<rparr>)"
    "reads (Suc (Suc i)) (s\<lparr>filepos := p, inbuf := xs, bufloc := l\<rparr>)"
    by (rule need_two_bytes [OF assms(1)]) (use assms(2) in auto)
  define t where "t = s\<lparr>filepos := p, inbuf := xs, bufloc := l\<rparr>"
  have f: "file_data t = file_data s" by (simp add: t_def)
  obtain p' xs' l' where 2: "need_bits get_byte 16 (0, 0, t) =
      (ucast (file_data t ! Suc (Suc i)) OR push_bit 8 (ucast (file_data t ! Suc (Suc (Suc i)))), 16,
        t\<lparr>filepos := p', inbuf := xs', bufloc := l'\<rparr>)"
    "reads (Suc (Suc (Suc (Suc i)))) (t\<lparr>filepos := p', inbuf := xs', bufloc := l'\<rparr>)"
    by (rule need_two_bytes [OF 1(2) [folded t_def]]) (use assms(2) f in auto)
  have t: "t\<lparr>filepos := p', inbuf := xs', bufloc := l'\<rparr> = s\<lparr>filepos := p', inbuf := xs', bufloc := l'\<rparr>" by (simp add: t_def)
  have n: "unat (of_nat n :: u32) mod 65536 = n" using assms(5) by (simp add: unat_of_nat)
  have drop: "drop_bit 16 (of_nat n :: u32) = 0"
    using assms(5) by (intro bit_word_eqI) (simp add: bit_simps no_high_bit)
  have "init_stored_block s = s\<lparr>filepos := p', inbuf := xs', bufloc := l', block_len := n, bb := 0, bk := 0\<rparr>"
  proof -
    have zero: "dump_bits (bk s mod 8) (bb s, bk s, s) = (0, 0, s)" using assms(3,4) by simp
    have first: "need_bits get_byte 16 (0, 0, s) = (of_nat n, 16, t)" using 1(1) two_bytes_word [OF assms(5)] by (simp add: bytes t_def)
    let ?u = "ucast (NOT (low_byte n)) OR push_bit 8 (ucast (NOT (high_byte n))) :: u32"
    have second: "need_bits get_byte 16 (0, 0, t) = (?u, 16, s\<lparr>filepos := p', inbuf := xs', bufloc := l'\<rparr>)"
      using 2(1) unfolding t f bytes .
    have ok: "unat (NOT ?u) mod 2 ^ 16 = n" using complement_word [OF assms(5)] unfolding take_bit_eq_mod .
    have drop': "drop_bit 16 ?u = 0" by (intro bit_word_eqI) (auto simp: bit_simps bit_ucast_iff)
    have "unat (of_nat n :: u32) mod 2 ^ 16 = n" using n by simp
    then show ?thesis
      unfolding init_stored_block_def Let_def zero first prod.case empty_reader drop second ok drop' by simp
  qed
  with 2(2) show ?thesis using that unfolding t by (simp add: eval_nat_numeral)
qed

lemma get_new_block_stored:
  assumes "reads i s" "bb s = 0" "bk s = 0" "i + 5 \<le> length (file_data s)" "length xs < 65536"
    "take 5 (drop i (file_data s)) = take 5 (stored_block xs)"
  obtains p ib l where "get_new_block s = Some (s\<lparr>filepos := p, inbuf := ib, bufloc := l, last_block := 1, block_type := 0,
      block_len := length xs, bb := 0, bk := 0\<rparr>)"
    "reads (i + 5) (s\<lparr>filepos := p, inbuf := ib, bufloc := l\<rparr>)"
proof -
  let ?n = "length xs"
  have bytes: "take 5 (drop i (file_data s)) = [1, low_byte ?n, high_byte ?n, NOT (low_byte ?n), NOT (high_byte ?n)]"
    using assms(6) by (simp add: stored_block_def Let_def)
  have first: "file_data s ! i = 1" using arg_cong [OF bytes, of "\<lambda>xs. xs ! 0"] assms(4) by simp
  have rest: "take 4 (drop (Suc i) (file_data s)) = [low_byte ?n, high_byte ?n, NOT (low_byte ?n), NOT (high_byte ?n)]"
    using arg_cong [OF bytes, of "drop 1"] by (simp add: drop_take)
  obtain p ib l where 1: "need_bits get_byte 1 (0, 0, s) = (ucast (file_data s ! i), 8, s\<lparr>filepos := p, inbuf := ib, bufloc := l\<rparr>)"
    "reads (Suc i) (s\<lparr>filepos := p, inbuf := ib, bufloc := l\<rparr>)"
    by (rule need_byte [OF assms(1), of 1]) (use assms(4) in auto)
  define t where "t = s\<lparr>filepos := p, inbuf := ib, bufloc := l, last_block := 1\<rparr>"
  have bit1: "get_bits 1 (bb s, bk s, s) = (1, 0, 7, s\<lparr>filepos := p, inbuf := ib, bufloc := l\<rparr>)"
    using 1(1) first assms(2,3) by (simp add: get_bits_def low_bits_mod dump_bits_def drop_bit_Suc)
  have bit2: "get_bits 2 (0, 7, t) = (0, 0, 5, t)"
    by (simp add: get_bits_def need_bits.simps low_bits_mod dump_bits_def)
  define u where "u = t\<lparr>block_type := 0, bb := 0, bk := 5\<rparr>"
  have u: "reads (Suc i) u" using 1(2) by (simp add: u_def t_def)
  obtain p' ib' l' where 2: "init_stored_block u = u\<lparr>filepos := p', inbuf := ib', bufloc := l', block_len := ?n, bb := 0, bk := 0\<rparr>"
    "reads (Suc i + 4) (u\<lparr>filepos := p', inbuf := ib', bufloc := l'\<rparr>)"
    by (rule init_stored_block_reads [OF u]) (use assms(4,5) rest in \<open>auto simp: u_def t_def\<close>)
  have "get_new_block s = Some (init_stored_block u)"
    unfolding get_new_block_def bit1 Let_def prod.case rd_state_def t_def [symmetric] bit2 by (simp add: u_def)
  moreover have "init_stored_block u = s\<lparr>filepos := p', inbuf := ib', bufloc := l', last_block := 1, block_type := 0,
      block_len := ?n, bb := 0, bk := 0\<rparr>"
    unfolding 2(1) by (simp add: u_def t_def)
  moreover have "reads (i + 5) (s\<lparr>filepos := p', inbuf := ib', bufloc := l'\<rparr>)"
    by (rule reads_cong [where s = "u\<lparr>filepos := p', inbuf := ib', bufloc := l'\<rparr>"]) (use 2(2) in \<open>simp_all add: u_def t_def add.commute\<close>)
  ultimately show ?thesis using that by metis
qed

section \<open>Reading the file\<close>

text \<open>The states in which a file whose data is a stored block has been opened, and the data starts at byte \<open>i\<close>.\<close>

definition at_block :: "nat \<Rightarrow> gunzip \<Rightarrow> bool" where
  "at_block i s \<longleftrightarrow> reads i s \<and> gzip_filepos s = 0 \<and> saved_filepos s = 0 \<and> bb s = 0 \<and> bk s = 0 \<and> last_block s = 0 \<and>
     block_len s = 0 \<and> errnum s = ERR_NONE \<and> length (slide s) = WSIZE"

lemma inflate_window_stored:
  assumes "at_block i s" "length xs \<le> WSIZE" "i + 5 + length xs \<le> length (file_data s)"
    "take (5 + length xs) (drop i (file_data s)) = stored_block xs"
  obtains t where "inflate_window s = Some t" "take (length xs) (slide t) = xs" "saved_filepos t = int WSIZE"
    "gzip_filepos t = 0" "errnum t = ERR_NONE" "mem t = mem s" "mem_lower t = mem_lower s" "mem_upper t = mem_upper s"
proof -
  define s0 where "s0 = s\<lparr>wp := 0\<rparr>"
  let ?n = "length xs"
  note a = assms(1) [unfolded at_block_def]
  have head: "take 5 (drop i (file_data s0)) = take 5 (stored_block xs)"
    using arg_cong [OF assms(4), of "take 5"] by (simp add: s0_def min_absorb1)
  have data: "take ?n (drop (i + 5) (file_data s)) = xs"
    using arg_cong [OF assms(4), of "drop 5"] by (simp add: stored_block_def Let_def drop_take add.commute)
  obtain p ib l where 1: "get_new_block s0 = Some (s0\<lparr>filepos := p, inbuf := ib, bufloc := l, last_block := 1, block_type := 0,
      block_len := ?n, bb := 0, bk := 0\<rparr>)" "reads (i + 5) (s0\<lparr>filepos := p, inbuf := ib, bufloc := l\<rparr>)"
    by (rule get_new_block_stored [of i s0 xs]) (use a assms(2,3) head in \<open>auto simp: s0_def\<close>)
  define s1 where "s1 = s0\<lparr>filepos := p, inbuf := ib, bufloc := l, last_block := 1, block_type := 0, block_len := ?n, bb := 0, bk := 0\<rparr>"
  have "reads (i + 5) s1" using 1(2) by (simp add: s1_def)
  then obtain p' ib' l' where 2: "stored_loop s1 = s1\<lparr>filepos := p', inbuf := ib', bufloc := l', wp := wp s1 + block_len s1, block_len := 0,
      slide := take (wp s1) (slide s1) @ take (block_len s1) (drop (i + 5) (file_data s1)) @ drop (wp s1 + block_len s1) (slide s1)\<rparr>"
    using stored_loop_copies [of "i + 5" s1] a assms(2,3) by (auto simp: s1_def s0_def)
  define s2 where "s2 = stored_loop s1"
  have s2: "wp s2 = ?n" "block_len s2 = 0" "last_block s2 = 1" "take ?n (slide s2) = xs" "errnum s2 = ERR_NONE"
    "saved_filepos s2 = 0" "gzip_filepos s2 = 0" "mem s2 = mem s" "mem_lower s2 = mem_lower s" "mem_upper s2 = mem_upper s"
    using a data unfolding s2_def 2 by (simp_all add: s1_def s0_def)
  have "window_loop s2 = Some (True, s2)" using s2 by (subst window_loop.simps) simp
  moreover have "window_loop s0 = window_loop s2"
    using a 1(1) [folded s1_def] by (subst window_loop.simps) (simp add: s0_def s1_def s2_def)
  ultimately have "inflate_window s = Some (s2\<lparr>saved_filepos := saved_filepos s2 + int WSIZE\<rparr>)"
    by (simp add: inflate_window_def s0_def)
  with s2 show ?thesis using that by simp
qed

lemma read_loop_stored:
  assumes "at_block i s" "length xs \<le> WSIZE" "i + 5 + length xs \<le> length (file_data s)"
    "take (5 + length xs) (drop i (file_data s)) = stored_block xs" "fst (memcheck buf (of_nat (length xs)) s)"
  obtains t where "read_loop buf (int (length xs)) 0 s = Some (int (length xs), t)" "errnum t = ERR_NONE"
    "mem t = (\<lambda>a. if in_region a buf (length xs) then xs ! unat (a - buf) else mem s a)"
proof (cases "xs = []")
  case True
  then show ?thesis using that [of s] assms(1) by (simp add: read_loop.simps at_block_def in_region_def)
next
  case False
  let ?n = "length xs"
  note a = assms(1) [unfolded at_block_def]
  obtain t where t: "inflate_window s = Some t" "take ?n (slide t) = xs" "saved_filepos t = int WSIZE"
    "gzip_filepos t = 0" "errnum t = ERR_NONE" "mem t = mem s" "mem_lower t = mem_lower s" "mem_upper t = mem_upper s"
    by (rule inflate_window_stored [OF assms(1-4)])
  have seek: "seek_window s = Some t"
    using t a by (subst seek_window.simps, simp, subst seek_window.simps) simp
  have "fst (memcheck buf (of_nat ?n) t)" using assms(5) t(5,7,8) a by (simp add: memcheck_def Let_def split: if_splits)
  from memcheck_ok [OF this] this
  have copy: "copy_out buf xs t = t\<lparr>mem := (\<lambda>a. if in_region a buf ?n then xs ! unat (a - buf) else mem t a)\<rparr>"
    by (simp add: copy_out_def split_beta Let_def)
  have n: "min (saved_filepos t - gzip_filepos t) (int ?n) = int ?n" using t(3,4) assms(2) by simp
  have bytes: "take (nat (int ?n)) (drop (nat (gzip_filepos t mod int WSIZE)) (slide t)) = xs" using t(2,4) by simp
  have pos: "int ?n > 0 \<and> errnum s = ERR_NONE" using False a by simp
  define u where "u = (copy_out buf xs t)\<lparr>gzip_filepos := gzip_filepos t + int ?n\<rparr>"
  have "read_loop buf (int ?n) 0 s = read_loop (buf + word_of_int (int ?n)) (int ?n - int ?n) (0 + int ?n) ((copy_out buf xs t)\<lparr>gzip_filepos := gzip_filepos (copy_out buf xs t) + int ?n\<rparr>)"
    by (subst read_loop.simps) (simp only: if_P [OF pos] seek bind.bind_lunit Let_def n bytes)
  also have "\<dots> = Some (int ?n, (copy_out buf xs t)\<lparr>gzip_filepos := gzip_filepos (copy_out buf xs t) + int ?n\<rparr>)" 
    by (subst read_loop.simps) simp
  finally have read: "read_loop buf (int ?n) 0 s = \<dots>" .
  show ?thesis by (rule that [OF read]) (simp_all add: copy t(5,6) cong: if_cong)
qed

section \<open>Opening the file\<close>

text \<open>A file that has just been opened, before \<open>gunzip_test_header\<close>, in states whose arrays have their sizes.\<close>

definition just_opened :: "u8 list \<Rightarrow> gunzip \<Rightarrow> bool" where
  "just_opened F s \<longleftrightarrow> file_data s = F \<and> filepos s = 0 \<and> filemax s = int (length F) \<and> fsmax s = int (length F) \<and>
     \<not> no_decompression s \<and> errnum s = ERR_NONE \<and> length (inbuf s) = INBUFSIZ \<and> length (slide s) = WSIZE"

lemma plain_read_at:
  assumes "0 \<le> filepos s" "filepos s + int n \<le> filemax s" "filemax s \<le> fsmax s" "filemax s = int (length (file_data s))"
  shows "plain_read (int n) s = (take n (drop (nat (filepos s)) (file_data s)), s\<lparr>filepos := filepos s + int n\<rparr>)"
  by (rule plain_read_ok) (use assms in auto)

lemma test_header_stored:
  assumes "just_opened (gzip_stored crc xs) s" "length crc = 4" "length xs \<le> WSIZE"
  obtains t where "gunzip_test_header s = (True, t)" "at_block 10 (gunzip_swap_values (t\<lparr>compressed_file := False\<rparr>))"
    "file_data t = file_data s" "filepos t = 0" "filemax t = int (length xs)" "compressed_file t"
    "fsmax t = int (length xs)" "mem t = mem s" "mem_lower t = mem_lower s" "mem_upper t = mem_upper s"
proof -
  let ?F = "gzip_stored crc xs"
  let ?n = "length xs"
  note o = assms(1) [unfolded just_opened_def]
  have len: "length ?F = 23 + ?n" using assms(2) by simp
  have "plain_read (int 10) s = (take 10 (drop (nat (filepos s)) (file_data s)), s\<lparr>filepos := filepos s + int 10\<rparr>)"
    by (rule plain_read_at) (use o len in auto)
  then have head: "plain_read 10 s = (gzip_header, s\<lparr>filepos := 10\<rparr>)" using o by (simp add: gzip_stored_def)
  define s1 where "s1 = s\<lparr>filepos := 10, gzip_data_offset := 10\<rparr>"
  define s2 where "s2 = s1\<lparr>filepos := filemax s1 - 8\<rparr>"
  have pos2: "filepos s2 = int (15 + ?n)" using o len by (simp add: s1_def s2_def)
  have "plain_read (int 8) s2 = (take 8 (drop (nat (filepos s2)) (file_data s2)), s2\<lparr>filepos := filepos s2 + int 8\<rparr>)"
    by (rule plain_read_at) (use o len pos2 in \<open>auto simp: s1_def s2_def\<close>)
  moreover have "drop (nat (int (15 + ?n))) ?F = crc @ [low_byte ?n, high_byte ?n, 0, 0]"
    by (simp add: gzip_stored_def)
  ultimately have tail: "plain_read 8 s2 = (crc @ [low_byte ?n, high_byte ?n, 0, 0], s2\<lparr>filepos := filepos s2 + 8\<rparr>)"
    using o assms(2) unfolding pos2 by (simp add: s1_def s2_def del: of_nat_add nat_int)
  have n: "sint (le32 [low_byte ?n, high_byte ?n, 0, 0]) = int ?n"
  proof -
    have small: "?n < 65536" using assms(3) by simp
    have "le32 [low_byte ?n, high_byte ?n, 0, 0] = of_nat ?n"
      using two_bytes_word [OF small] by (simp add: le32_def)
    moreover have "sint (of_nat ?n :: u32) = int ?n"
      using sint_u32_small [of "of_nat ?n"] small by (simp add: unat_of_nat)
    ultimately show ?thesis by simp
  qed
  define s3 where "s3 = s2\<lparr>filepos := filepos s2 + 8, gzip_crc := le32 crc, gzip_filemax := int ?n, gzip_fsmax := int ?n\<rparr>"
  define t where "t = (gunzip_swap_values ((initialize_tables s3)\<lparr>compressed_file := True\<rparr>))\<lparr>filepos := 0\<rparr>"
  have crc: "le32 (crc @ ys) = le32 crc" for ys using assms(2) by (simp add: le32_def nth_append)
  have skip: "skip_fields 0 (s\<lparr>filepos := 10\<rparr>) = (False, s\<lparr>filepos := 10\<rparr>)" by (simp add: skip_fields_def)
  have le: "le16 0x1f 0x8b = GZIP_HDR_LE" by (simp add: le16_def)
  have bytes: "length gzip_header = 10" "gzip_header ! 0 = 0x1f" "gzip_header ! 1 = 0x8b" "gzip_header ! 2 = 8" "gzip_header ! 3 = 0"
    by (simp_all add: gzip_header_def)
  have s2: "s\<lparr>filepos := 10\<rparr>\<lparr>gzip_data_offset := filepos (s\<lparr>filepos := 10\<rparr>)\<rparr>\<lparr>filepos := filemax (s\<lparr>filepos := 10\<rparr>\<lparr>gzip_data_offset := filepos (s\<lparr>filepos := 10\<rparr>)\<rparr>) - 8\<rparr> = s2"
    by (simp add: s1_def s2_def)
  have "gunzip_test_header s = (True, t)"
    using o head tail skip n crc assms(2) bytes le
    by (simp add: gunzip_test_header_def Let_def s2 s3_def t_def s2_def s1_def cong: if_cong)
  moreover have "at_block 10 (gunzip_swap_values (t\<lparr>compressed_file := False\<rparr>))"
  proof -
    let ?u = "gunzip_swap_values (t\<lparr>compressed_file := False\<rparr>)"
    have "filepos ?u = 10 \<and> gzip_data_offset ?u = 10 \<and> filemax ?u = int (length ?F) \<and> fsmax ?u = int (length ?F) \<and>
      file_data ?u = ?F \<and> length (inbuf ?u) = INBUFSIZ"
      using o by (simp add: t_def s3_def s2_def s1_def initialize_tables_def gunzip_swap_values_def reset_linalloc_def)
    then have "reads 10 ?u" using len by (simp add: reads_def buffered_def next_byte_def)
    then show ?thesis
      using o by (simp add: at_block_def t_def s3_def s2_def s1_def initialize_tables_def gunzip_swap_values_def reset_linalloc_def)
  qed
  moreover have "file_data t = file_data s" "filepos t = 0" "filemax t = int ?n" "compressed_file t" "fsmax t = int ?n"
    "mem t = mem s" "mem_lower t = mem_lower s" "mem_upper t = mem_upper s"
    by (simp_all add: t_def s3_def s2_def s1_def initialize_tables_def gunzip_swap_values_def reset_linalloc_def)
  ultimately show ?thesis using that by blast
qed

lemma memcheck_cong:
  "errnum t = errnum s \<Longrightarrow> mem_lower t = mem_lower s \<Longrightarrow> mem_upper t = mem_upper s \<Longrightarrow> fst (memcheck p n t) = fst (memcheck p n s)"
  by (simp add: memcheck_def Let_def)

text \<open>A state to start from, with a file.\<close>

definition fresh_gunzip :: "u8 list \<Rightarrow> gunzip" where
  "fresh_gunzip F = \<lparr>mem = (\<lambda>a. 0), ports = [], errnum = ERR_NONE, mem_lower = 640, mem_upper = 31744,
     file_data = F, filepos = 0, filemax = int (length F), fsmax = int (length F), no_decompression = False,
     compressed_file = False, gzip_data_offset = 0, gzip_filepos = 0, gzip_filemax = 0, gzip_fsmax = 0, saved_filepos = 0,
     gzip_crc = 0, block_type = 0, block_len = 0, last_block = 0, code_state = 0, linalloc_topaddr = 0,
     slide = replicate WSIZE 0, wp = 0, bb = 0, bk = 0, inbuf = replicate INBUFSIZ 0, bufloc = 0, tl_ptr = None,
     td_ptr = None, bl = 0, bd = 0, inflate_n = 0, inflate_d = 0, tabs = []\<rparr>"

lemma fresh_gunzip_opened: "just_opened F (fresh_gunzip F)" "wf_gunzip (fresh_gunzip F)" "buffered (fresh_gunzip F)"
  by (simp_all add: just_opened_def fresh_gunzip_def wf_gunzip_def buffered_def)

text \<open>
  C5. Round trip through the decompressor: for a file that holds up to 32 KB of data as one stored block of RFC 1951 in
  the format of RFC 1952, \<open>gunzip_test_header\<close> recognises the format, and then a read of the uncompressed length through
  \<open>grub_read\<close> and \<open>gunzip_read\<close> returns that length, puts exactly the stored bytes at the buffer, leaves the rest of the
  memory as it is, and sets no error, whenever the memory check accepts the buffer. The whole path is run: header, swap of the
  file positions, bit buffer, block header, window and copy.
\<close>

theorem gzip_stored_roundtrip:
  assumes "just_opened (gzip_stored crc xs) s" "length crc = 4" "length xs \<le> WSIZE" "fst (memcheck buf (of_nat (length xs)) s)"
  shows "\<exists>t u. gunzip_test_header s = (True, t) \<and> grub_read buf (int (length xs)) t = Some (int (length xs), u) \<and>
    errnum u = ERR_NONE \<and> mem u = (\<lambda>a. if in_region a buf (length xs) then xs ! unat (a - buf) else mem s a)"
proof -
  let ?n = "length xs"
  obtain t where t: "gunzip_test_header s = (True, t)" "at_block 10 (gunzip_swap_values (t\<lparr>compressed_file := False\<rparr>))"
    "file_data t = file_data s" "filepos t = 0" "filemax t = int ?n" "compressed_file t"
    "fsmax t = int ?n" "mem t = mem s" "mem_lower t = mem_lower s" "mem_upper t = mem_upper s"
    by (rule test_header_stored [OF assms(1-3)])
  let ?v = "gunzip_swap_values (t\<lparr>compressed_file := False\<rparr>)"
  have F: "file_data ?v = gzip_stored crc xs" using assms(1) t(3) by (simp add: gunzip_swap_values_def just_opened_def)
  have block: "take (5 + ?n) (drop 10 (gzip_stored crc xs)) = stored_block xs"
    unfolding gzip_stored_def by (simp del: append_assoc)
  have "fst (memcheck buf (of_nat ?n) ?v)"
    using assms(4) memcheck_cong [of ?v s buf "of_nat ?n"] memcheck_ok [OF assms(4)] t(2,9,10)
    by (simp add: at_block_def gunzip_swap_values_def)
  then obtain w where w: "read_loop buf (int ?n) 0 ?v = Some (int ?n, w)" "errnum w = ERR_NONE"
    "mem w = (\<lambda>a. if in_region a buf ?n then xs ! unat (a - buf) else mem ?v a)"
    using read_loop_stored [OF t(2) assms(3), of buf] F block assms(2) by auto
  have "\<not> saved_filepos ?v > gzip_filepos ?v + int WSIZE" using t(2) by (simp add: at_block_def)
  then have "gunzip_read buf (int ?n) t = Some (int ?n, gunzip_swap_values (w\<lparr>compressed_file := True\<rparr>))"
    using w(1,2) by (simp add: gunzip_read_def Let_def gunzip_swap_values_def)
  moreover have same: "t\<lparr>filepos := 0\<rparr> = t" using t(4) by simp
  have "grub_read buf (int ?n) t = gunzip_read buf (int ?n) (t\<lparr>filepos := 0\<rparr>)" using t(4-7) by (simp add: grub_read_def)
  ultimately have "grub_read buf (int ?n) t = Some (int ?n, gunzip_swap_values (w\<lparr>compressed_file := True\<rparr>))"
    unfolding same by simp
  then show ?thesis using t(1,8) w(2,3) by (auto simp: gunzip_swap_values_def cong: if_cong)
qed

theorem gzip_stored_roundtrip_witness:
  "\<exists>t u. gunzip_test_header (fresh_gunzip (gzip_stored [1, 2, 3, 4] [72, 105])) = (True, t) \<and>
    grub_read 0x8000 2 t = Some (2, u) \<and> mem u 0x8000 = 72 \<and> mem u 0x8001 = 105"
proof -
  let ?s = "fresh_gunzip (gzip_stored [1, 2, 3, 4] [72, 105])"
  have "fst (memcheck 0x8000 (of_nat (length [72, 105 :: u8])) ?s)" by (simp add: memcheck_def fresh_gunzip_def)
  then obtain t u where
    "gunzip_test_header ?s = (True, t)" "grub_read 0x8000 (int (length [72, 105 :: u8])) t = Some (int (length [72, 105 :: u8]), u)"
    "mem u = (\<lambda>a. if in_region a 0x8000 (length [72, 105 :: u8]) then [72, 105] ! unat (a - 0x8000) else mem ?s a)"
    using gzip_stored_roundtrip [OF fresh_gunzip_opened(1), of "[1, 2, 3, 4]" "[72, 105]" "0x8000"] by (simp del: of_nat_Suc) blast
  then show ?thesis by (auto simp: in_region_def)
qed

end
