(* ===== verification/GRUB_Inflate_Props.thy ===== *)
theory GRUB_Inflate_Props
  imports GRUB_Stored
begin

text \<open>
  What the decompression of the boot loader guarantees, from the lemmas of \<open>GRUB_Inflate\<close> and \<open>GRUB_Stored\<close>.
\<close>

text \<open>
  C32. The input buffer: \<open>get_byte\<close> delivers the bytes of the compressed file one after the other, across the refills of its
  8 KB buffer and the shorter last piece, up to the end of the file; so the buffered reader refines the plain list of bytes.
\<close>

theorem get_byte_in_order:
  assumes "buffered s" "int (next_byte s + i) < filemax s"
  shows "fst (get_byte (((\<lambda>s. snd (get_byte s)) ^^ i) s)) = file_data s ! (next_byte s + i)"
  using byte_stream_nth [OF assms] by (simp add: byte_stream_def)

theorem get_byte_in_order_witness:
  "fst (get_byte (((\<lambda>s. snd (get_byte s)) ^^ 9000) (fresh_gunzip (replicate 9000 1 @ [7])))) = 7"
  using get_byte_in_order [OF fresh_gunzip_opened(3), of "replicate 9000 1 @ [7]" 9000]
  by (simp add: fresh_gunzip_def next_byte_def nth_append)

text \<open>
  C31. Copying a match: the loop that copies a match of length \<open>n\<close> in pieces, some with \<open>memmove\<close> and the overlapping ones
  with a forward loop, and wrapping round the end of the window, does to the window what copying byte after byte does, and
  stops at the end of the window with the rest of the length left for the next window.
\<close>

theorem copy_match_is_lz77:
  assumes "length sl = WSIZE" "w < WSIZE" "0 < n"
  shows "\<exists>d'. copy_match True n d w sl =
      (n - min n (WSIZE - w), d', w + min n (WSIZE - w), lz_copy (min n (WSIZE - w)) d w sl) \<and>
    d' mod WSIZE = (d + min n (WSIZE - w)) mod WSIZE"
  using copy_match_lz [OF TrueI assms, of d] .

theorem copy_match_is_lz77_witness:
  "\<exists>d'. copy_match True 3 0 2 ([65, 66] @ replicate (WSIZE - 2) 0) = (0, d', 5, [65, 66, 65, 66, 65] @ replicate (WSIZE - 5) 0)"
proof -
  let ?sl = "[65, 66] @ replicate (WSIZE - 2) 0 :: u8 list"
  have r: "replicate (WSIZE - 2) (0 :: u8) = 0 # 0 # 0 # replicate (WSIZE - 5) 0"
    using replicate_add [of 3 "WSIZE - 5" "0 :: u8"] by (simp add: numeral_3_eq_3)
  have "lz_copy 3 0 2 ?sl = [65, 66, 65, 66, 65] @ replicate (WSIZE - 5) 0"
    unfolding r by (simp add: lz_copy_def numeral_3_eq_3 numeral_2_eq_2 for_up_Suc)
  then show ?thesis using copy_match_is_lz77 [of ?sl 2 3 0] by auto
qed

text \<open>
  C16. Decoding: with the tables that \<open>huft_build\<close> makes of a complete set of code lengths, the decoding loop of
  \<open>inflate_codes_in_window\<close>, reading from the file through \<open>get_byte\<close> and the bit buffer, returns the value of a symbol whenever
  the next bits of the file spell the symbol's code word of RFC 1951, and takes exactly the bits of the code word.
\<close>

theorem decoder_takes_code_words:
  assumes "full bs" "0 < m" "length bs \<le> 2 ^ m \<or> (\<forall>k\<in>set bs. k < 2 * m)" "\<forall>i<length bs - sv. ex ! i \<le> 16 \<or> ex ! i = 99"
    "huft_build bs sv d ex m r0 store = Some (0, Some t, l, ts)"
    "symb < length bs" "bs ! symb \<noteq> 0" "fst (symbol_value sv d ex symb) \<noteq> 99"
    "gz.reader_ok rd" "spelled (gz.reader_bit rd) (bs ! symb) = code_word bs symb"
  shows "\<exists>r rd'. huft_decode get_byte ts t l rd = Some (r, rd') \<and> (e r, v r) = symbol_value sv d ex symb \<and>
    gz.reader_ok rd' \<and> gz.reader_bit rd' = (\<lambda>i. gz.reader_bit rd (bs ! symb + i))"
  by (rule huft_decode_code_word [OF assms])

theorem decoder_takes_code_words_witness:
  "\<exists>l ts r rd'. huft_build [3, 3, 3, 3, 3, 2, 4, 4] 8 [] [] 3 \<lparr>e = 0, b = 0, v = N 0\<rparr> [] = Some (0, Some 0, l, ts) \<and>
    huft_decode get_byte ts 0 l (0, 0, fresh_gunzip [7]) = Some (r, rd') \<and> e r = 16 \<and> v r = N 6"
proof -
  let ?bs = "[3, 3, 3, 3, 3, 2, 4, 4] :: nat list"
  let ?rd = "(0 :: u32, 0 :: nat, fresh_gunzip [7])"
  have full: "full ?bs" by (simp add: full_def)
  then obtain l ts where h: "huft_build ?bs 8 [] [] 3 \<lparr>e = 0, b = 0, v = N 0\<rparr> [] = Some (0, Some 0, l, ts)"
    using huft_build_correct [of ?bs 3 8 "[]" "[]" "\<lparr>e = 0, b = 0, v = N 0\<rparr>" "[]"] by auto
  have bit: "gz.reader_bit ?rd i = bit (7 :: u8) i" if "i < 8" for i
    using that byte_stream_nth [OF fresh_gunzip_opened(3), of "[7]" 0]
    by (simp add: gz.reader_bit_def fresh_gunzip_def next_byte_def)
  have "bits_value (gz.reader_bit ?rd) 4 = bits_value (bit (7 :: u8)) 4"
    by (rule bits_value_cong) (simp add: bit)
  also have "\<dots> = 7" by code_simp
  finally have val7: "bits_value (gz.reader_bit ?rd) 4 = 7" .
  have "reversed 4 7 = 14" by code_simp
  then have "spelled (gz.reader_bit ?rd) 4 = 14" unfolding spelled_def val7 .
  have sp: "spelled (gz.reader_bit ?rd) (?bs ! 6) = code_word ?bs 6"
  proof -
    have "code_word ?bs 6 = 14" "?bs ! 6 = 4" by code_simp+
    then show ?thesis using \<open>spelled (gz.reader_bit ?rd) 4 = 14\<close> by (simp only:)
  qed
  have ok: "gz.reader_ok ?rd" by (simp add: gz.reader_ok_def)
  have sv: "symbol_value 8 [] [] 6 = (16, N 6)" by code_simp
  have small: "length ?bs \<le> 2 ^ 3 \<or> (\<forall>k\<in>set ?bs. k < 2 * 3)"
    "\<forall>i<length ?bs - 8. [] ! i \<le> (16 :: nat) \<or> [] ! i = (99 :: nat)" "6 < length ?bs" "?bs ! 6 \<noteq> 0"
    "fst (symbol_value 8 [] [] 6) \<noteq> 99" by (simp_all add: sv)
  obtain r rd' where "huft_decode get_byte ts 0 l ?rd = Some (r, rd')" "(e r, v r) = (16, N 6)"
    using decoder_takes_code_words [OF full zero_less_numeral small(1,2) h small(3-5) ok sp] unfolding sv by blast
  then show ?thesis using h by blast
qed

end
