(* ===== verification/GRUB_Inflate_Total.thy ===== *)
theory GRUB_Inflate_Total
  imports GRUB_Stored
begin

text \<open>
  The codes of a block, \<open>inflate_codes_in_window\<close>, with the tables that \<open>build_both\<close> makes of two complete codes. Whatever bits
  the file holds, every call returns: no table entry that was never written is used, no null pointer followed and
  no array left. And when the bits spell literals, matches and the end of the block as RFC 1951 has them, the window then
  holds what they stand for.
\<close>

section \<open>Looking up in tables that grow\<close>

lemma cell_append: "cell ts t i = Some r \<Longrightarrow> cell (ts @ us) t i = Some r"
  by (auto simp: cell_def nth_append split: if_splits)

lemma huft_find_append: "huft_find ts t n bs = Some x \<Longrightarrow> huft_find (ts @ us) t n bs = Some x"
proof (induction rule: huft_find.raw_induct [where P = "\<lambda>ts t n bs x. huft_find (ts @ us) t n bs = Some x", rotated, consumes 1, case_names step])
  case (step find ts t n bs x)
  obtain r where r: "cell ts t (bs mod 2 ^ n) = Some r" using step(2) by (auto split: bind_splits)
  have r': "cell (ts @ us) t (bs mod 2 ^ n) = Some r" by (rule cell_append [OF r])
  have n: "\<not> (n > 16 \<or> (b r > n \<and> e r \<noteq> 99))" using step(2) r by (auto split: if_splits)
  show ?case
  proof (cases "e r > 16 \<and> e r \<noteq> 99")
    case True
    then obtain u y k where y: "v r = T u" "find ts u (e r - 16) (bs div 2 ^ b r) = Some (y, k)" "x = (y, b r + k)"
      using step(2) r n by (auto split: bind_splits if_splits huft_v.splits)
    have if1: "(16 < e r \<and> e r \<noteq> 99) = True" using True by simp
    show ?thesis
      by (subst huft_find.simps)
        (simp only: r' bind.bind_lunit n if1 if_False if_True y(1,3) huft_v.case step(1) [OF y(2)] prod.case)
  next
    case False
    then have "x = (r, b r)" using step(2) r n by (auto split: if_splits)
    then show ?thesis by (subst huft_find.simps) (simp only: r' bind.bind_lunit n False if_False)
  qed
qed

text \<open>The tables from \<open>t\<close> on decode the canonical code: every sequence of bits begins with a code word, and leads to its symbol.\<close>

definition answers :: "nat list \<Rightarrow> (nat \<Rightarrow> nat \<times> huft_v) \<Rightarrow> huft option list list \<Rightarrow> nat \<Rightarrow> nat \<Rightarrow> bool" where
  "answers bs val ts t n \<longleftrightarrow>
     (\<forall>k\<in>set bs. k \<le> 16) \<and>
     (\<forall>symb<length bs. bs ! symb \<noteq> 0 \<longrightarrow> (\<forall>buf. reversed (bs ! symb) buf = code_word bs symb \<longrightarrow>
       (\<exists>r. huft_find ts t n buf = Some (r, bs ! symb) \<and> (e r, v r) = val symb))) \<and>
     (\<forall>buf. \<exists>symb<length bs. bs ! symb \<noteq> 0 \<and> reversed (bs ! symb) buf = code_word bs symb)"

lemma answers_append: "answers bs val ts t n \<Longrightarrow> answers bs val (ts @ us) t n"
  unfolding answers_def using huft_find_append by meson

lemma huft_build_answers:
  assumes "full bs" "0 < m" "length bs \<le> 2 ^ m \<or> (\<forall>k\<in>set bs. k < 2 * m)" "\<forall>i<length bs - sv. ex ! i \<le> 16 \<or> ex ! i = 99"
  obtains l us where "huft_build bs sv d ex m r0 store = Some (0, Some (length store), l, store @ us)"
    "answers bs (symbol_value sv d ex) (store @ us) (length store) l"
proof -
  obtain l us where us: "huft_build bs sv d ex m r0 store = Some (0, Some (length store), l, store @ us)"
    using huft_build_reached [OF assms, of d r0 store] by metis
  moreover have "\<forall>k\<in>set bs. k \<le> 16" using assms(1) by (simp add: full_def)
  ultimately have "answers bs (symbol_value sv d ex) (store @ us) (length store) l"
    unfolding answers_def using huft_build_correct [OF assms, of d r0 store] by auto
  with us that show thesis by blast
qed

section \<open>Reading bits\<close>

text \<open>What reading bytes of the file leaves alone.\<close>

definition same_codes :: "gunzip \<Rightarrow> gunzip \<Rightarrow> bool" where
  "same_codes s t \<longleftrightarrow> tl_ptr t = tl_ptr s \<and> td_ptr t = td_ptr s \<and> bl t = bl s \<and> bd t = bd s \<and> tabs t = tabs s \<and>
     code_state t = code_state s \<and> block_len t = block_len s \<and> slide t = slide s \<and> (wf_gunzip s \<longrightarrow> wf_gunzip t) \<and>
     (errnum s = ERR_NONE \<and> filemax s \<le> fsmax s \<longrightarrow> errnum t = ERR_NONE \<and> filemax t \<le> fsmax t)"

lemma same_codes_refl [simp]: "same_codes s s"
  by (simp add: same_codes_def)

lemma same_codes_trans [trans]: "same_codes s t \<Longrightarrow> same_codes t u \<Longrightarrow> same_codes s u"
  by (simp add: same_codes_def)

lemma plain_read_fields:
  assumes "plain_read n s = (bytes, t)"
  shows "tl_ptr t = tl_ptr s \<and> td_ptr t = td_ptr s \<and> bl t = bl s \<and> bd t = bd s \<and> tabs t = tabs s \<and>
    code_state t = code_state s \<and> filemax t = filemax s \<and> fsmax t = fsmax s"
    "errnum s = ERR_NONE \<Longrightarrow> filemax s \<le> fsmax s \<Longrightarrow> errnum t = ERR_NONE"
  using assms by (auto simp: plain_read_def Let_def split: if_splits)

lemma get_byte_same: "same_codes s (snd (get_byte s))"
proof -
  obtain bytes t where r: "plain_read (int INBUFSIZ) (s\<lparr>bufloc := 0\<rparr>) = (bytes, t)" by fastforce
  define u where "u = (if filepos s = gzip_data_offset s \<or> bufloc s = INBUFSIZ then t\<lparr>inbuf := bytes @ drop (length bytes) (inbuf t)\<rparr> else s)"
  have g: "snd (get_byte s) = u\<lparr>bufloc := bufloc u + 1\<rparr>" by (simp add: get_byte_def r u_def Let_def del: of_nat_numeral)
  have "tl_ptr u = tl_ptr s \<and> td_ptr u = td_ptr s \<and> bl u = bl s \<and> bd u = bd s \<and> tabs u = tabs s \<and>
      code_state u = code_state s \<and> filemax u = filemax s \<and> fsmax u = fsmax s \<and> block_len u = block_len s \<and> slide u = slide s"
    using plain_read_fields(1) [OF r] plain_read_keeps [OF r] by (simp add: u_def)
  moreover have "errnum s = ERR_NONE \<Longrightarrow> filemax s \<le> fsmax s \<Longrightarrow> errnum u = ERR_NONE"
    using plain_read_fields(2) [OF r] by (simp add: u_def)
  ultimately show ?thesis using get_byte_wf [of s] unfolding same_codes_def g by simp
qed

lemma same_after_get: "same_codes s t \<Longrightarrow> same_codes s (snd (get_byte t))"
  using same_codes_trans get_byte_same by blast

lemma get_bits_value:
  assumes "gz.reader_ok rd" "n \<le> 16"
  obtains rd' where "get_bits n rd = (bits_value (gz.reader_bit rd) n, rd')" "gz.reader_ok rd'"
    "gz.reader_bit rd' = (\<lambda>i. gz.reader_bit rd (n + i))" "same_codes (snd (snd rd)) (snd (snd rd'))"
proof -
  obtain u k s where rd: "need_bits get_byte n rd = (u, k, s)" by (metis prod_cases3)
  have ok: "gz.reader_ok (u, k, s)" "n \<le> k" "gz.reader_bit (u, k, s) = gz.reader_bit rd"
    using gz.need_bits_ok [of "fst rd" "fst (snd rd)" "snd (snd rd)" n] assms rd by auto
  have "same_codes (snd (snd rd)) s"
    using need_bits_keeps [where P = "same_codes (snd (snd rd))" and get = get_byte and n = n and rd = rd, OF same_after_get] rd by simp
  with gz.dump_bits_ok [OF ok(1,2)] gz.low_bits_value [OF ok(1,2) assms(2)] ok(3) that show thesis
    by (simp add: get_bits_def rd)
qed

lemma decode_symbol:
  assumes "answers bs val ts t n" "gz.reader_ok rd" "symb < length bs" "bs ! symb \<noteq> 0" "fst (val symb) \<noteq> 99"
    "spelled (gz.reader_bit rd) (bs ! symb) = code_word bs symb"
  obtains r rd' where "huft_decode get_byte ts t n rd = Some (r, rd')" "(e r, v r) = val symb" "gz.reader_ok rd'"
    "gz.reader_bit rd' = (\<lambda>i. gz.reader_bit rd (bs ! symb + i))" "same_codes (snd (snd rd)) (snd (snd rd'))"
proof -
  let ?buf = "bits_value (gz.reader_bit rd) 32"
  have k: "bs ! symb \<le> 16" using assms(1,3) by (simp add: answers_def)
  have "reversed (bs ! symb) ?buf = code_word bs symb"
    using assms(6) k bits_value_mod [of "bs ! symb" 32] reversed_of_mod [of "bs ! symb" ?buf] by (simp add: spelled_def)
  then obtain r where r: "huft_find ts t n ?buf = Some (r, bs ! symb)" "(e r, v r) = val symb"
    using assms(1,3,4) unfolding answers_def by blast
  have e: "e r \<noteq> 99" using r(2) assms(5) by (metis fst_conv)
  have "\<forall>i. i < bs ! symb + 16 \<longrightarrow> bit ?buf i = gz.reader_bit rd i" using k by (simp add: bit_bits_value)
  then obtain rd' where rd': "huft_decode get_byte ts t n rd = Some (r, rd')" "gz.reader_ok rd'"
    "gz.reader_bit rd' = (\<lambda>i. gz.reader_bit rd (bs ! symb + i))"
    using gz.huft_find_decodes [OF r(1)] assms(2) e unfolding gz.decodes_def fst_conv snd_conv by blast
  have "same_codes (snd (snd rd)) (snd (snd rd'))"
    using huft_decode_keeps [OF rd'(1), where P = "same_codes (snd (snd rd))"]
    unfolding decode_keeps_def snd_conv by (auto intro: same_after_get)
  with rd' r(2) that show thesis by blast
qed

lemma some_symbol:
  assumes "answers bs val ts t n"
  obtains symb where "symb < length bs" "bs ! symb \<noteq> 0" "spelled f (bs ! symb) = code_word bs symb"
proof -
  obtain symb where symb: "symb < length bs" "bs ! symb \<noteq> 0" "reversed (bs ! symb) (bits_value f 16) = code_word bs symb"
    using assms unfolding answers_def by blast
  moreover have "bs ! symb \<le> 16" using assms symb(1) by (simp add: answers_def)
  ultimately show thesis
    using that [of symb] bits_value_mod [of "bs ! symb" 16 f] reversed_of_mod [of "bs ! symb" "bits_value f 16"] by (simp add: spelled_def)
qed

section \<open>One code\<close>

text \<open>
  The base values and the extra bits of the length and distance codes in RFC 1951: each code stands for as many values as
  its extra bits can tell apart, and the next one goes on behind them; the last length code is 258 alone.
\<close>

definition length_extra :: "nat \<Rightarrow> nat" where
  "length_extra i = (if i < 8 \<or> i = 28 then 0 else (i - 4) div 4)"

primrec length_base :: "nat \<Rightarrow> nat" where
  "length_base 0 = 3"
| "length_base (Suc i) = (if i = 27 then 258 else length_base i + 2 ^ length_extra i)"

definition distance_extra :: "nat \<Rightarrow> nat" where
  "distance_extra i = (if i < 4 then 0 else (i - 2) div 2)"

primrec distance_base :: "nat \<Rightarrow> nat" where
  "distance_base 0 = 1"
| "distance_base (Suc i) = distance_base i + 2 ^ distance_extra i"

lemma length_tables: "i < 29 \<Longrightarrow> cplens ! i = length_base i \<and> cplext ! i = length_extra i"
proof -
  assume "i < 29"
  then have "i \<in> set [0..<29]" by simp
  moreover have "\<forall>i\<in>set [0..<29]. cplens ! i = length_base i \<and> cplext ! i = length_extra i" by code_simp
  ultimately show ?thesis by blast
qed

lemma distance_tables: "i < 30 \<Longrightarrow> cpdist ! i = distance_base i \<and> cpdext ! i = distance_extra i"
proof -
  have n: "distance_base (numeral k) = distance_base (pred_numeral k) + 2 ^ distance_extra (pred_numeral k)" for k
    by (simp only: numeral_eq_Suc distance_base.simps)
  have one: "distance_base 1 = 2" by (simp only: One_nat_def distance_base.simps) (simp add: distance_extra_def)
  have b: "map distance_base [0..<30] = cpdist"
    by (simp add: upt_rec cpdist_def distance_extra_def n one)
  have "map distance_extra [0..<30] = cpdext" by code_simp
  moreover assume "i < 30"
  ultimately show ?thesis using b nth_map [of i "[0..<30]"] by (metis diff_zero length_upt nth_upt add_0)
qed

lemma length_extra_small: "length_extra i \<le> 16 \<or> 68 \<le> i" by (auto simp: length_extra_def)

definition coded :: "nat list \<Rightarrow> nat list \<Rightarrow> gunzip \<Rightarrow> bool" where
  "coded ll dl s \<longleftrightarrow> length ll \<le> 286 \<and> length dl \<le> 30 \<and> (\<exists>t t'. tl_ptr s = Some t \<and> td_ptr s = Some t' \<and>
     answers ll (symbol_value 257 cplens cplext) (tabs s) t (bl s) \<and> answers dl (symbol_value 0 cpdist cpdext) (tabs s) t' (bd s))"

lemma coded_same: "same_codes s t \<Longrightarrow> coded ll dl s \<Longrightarrow> coded ll dl t"
  by (simp add: same_codes_def coded_def)

text \<open>What one symbol and its extra bits say, and the bits they take; \<open>f\<close> is the stream of bits to come.\<close>

definition begins :: "nat list \<Rightarrow> nat \<Rightarrow> (nat \<Rightarrow> bool) \<Rightarrow> bool" where
  "begins bs symb f \<longleftrightarrow> symb < length bs \<and> bs ! symb \<noteq> 0 \<and> spelled f (bs ! symb) = code_word bs symb"

abbreviation (input) skip :: "nat \<Rightarrow> (nat \<Rightarrow> bool) \<Rightarrow> nat \<Rightarrow> bool" where "skip n f \<equiv> (\<lambda>i. f (n + i))"

definition decoded :: "gunzip reader \<Rightarrow> nat \<Rightarrow> gunzip reader \<Rightarrow> bool" where
  "decoded rd n rd' \<longleftrightarrow> gz.reader_ok rd' \<and> gz.reader_bit rd' = skip n (gz.reader_bit rd) \<and> same_codes (snd (snd rd)) (snd (snd rd'))"

lemma decoded_trans: "decoded rd n rd' \<Longrightarrow> decoded rd' m rd'' \<Longrightarrow> decoded rd (n + m) rd''"
  by (auto simp: decoded_def add.assoc intro: same_codes_trans)

lemma decode_begins:
  assumes "answers bs val ts t n" "gz.reader_ok rd" "begins bs symb (gz.reader_bit rd)" "val symb = (x, y)" "x \<noteq> 99"
  obtains r rd' where "huft_decode get_byte ts t n rd = Some (r, rd')" "e r = x" "v r = y" "decoded rd (bs ! symb) rd'"
proof -
  have b: "symb < length bs" "bs ! symb \<noteq> 0" "spelled (gz.reader_bit rd) (bs ! symb) = code_word bs symb"
    using assms(3) by (simp_all add: begins_def)
  have "fst (val symb) \<noteq> 99" using assms(4,5) by simp
  then obtain r rd' where "huft_decode get_byte ts t n rd = Some (r, rd')" "(e r, v r) = val symb" "gz.reader_ok rd'"
    "gz.reader_bit rd' = skip (bs ! symb) (gz.reader_bit rd)" "same_codes (snd (snd rd)) (snd (snd rd'))"
    using decode_symbol [OF assms(1,2) b(1,2) _ b(3)] by metis
  then show thesis using that assms(4) by (simp add: decoded_def)
qed

lemma decode_extra:
  assumes "gz.reader_ok rd" "n \<le> 16"
  obtains rd' where "get_bits n rd = (bits_value (gz.reader_bit rd) n, rd')" "decoded rd n rd'"
  using get_bits_value [OF assms] that unfolding decoded_def by metis

lemma decode_literal:
  assumes "coded ll dl (snd (snd rd))" "gz.reader_ok rd" "begins ll symb (gz.reader_bit rd)" "symb \<le> 256"
  obtains rd' where "decode_code w rd = Some (if symb = 256 then End_of_block else Literal (of_nat symb), rd')" "decoded rd (ll ! symb) rd'"
proof -
  obtain t where t: "tl_ptr (snd (snd rd)) = Some t" "answers ll (symbol_value 257 cplens cplext) (tabs (snd (snd rd))) t (bl (snd (snd rd)))"
    using assms(1) by (auto simp: coded_def)
  have val: "symbol_value 257 cplens cplext symb = (if symb = 256 then 15 else 16, N symb)"
    using assms(4) by (simp add: symbol_value_def)
  have "(if symb = 256 then 15 else 16) \<noteq> (99 :: nat)" by simp
  from decode_begins [OF t(2) assms(2,3) val this] obtain r rd' where
    r: "huft_decode get_byte (tabs (snd (snd rd))) t (bl (snd (snd rd))) rd = Some (r, rd')"
    "e r = (if symb = 256 then 15 else 16)" "v r = N symb" "decoded rd (ll ! symb) rd'" .
  have "decode_code w rd = Some (if symb = 256 then End_of_block else Literal (of_nat symb), rd')"
    using r(1-3) t(1) by (simp add: decode_code_def Let_def huft_number_def)
  with r(4) that show thesis by blast
qed

text \<open>A length and a distance: the code words of two symbols, each with its extra bits behind it.\<close>

definition begins_match :: "nat list \<Rightarrow> nat list \<Rightarrow> nat \<Rightarrow> nat \<Rightarrow> nat \<Rightarrow> nat \<Rightarrow> (nat \<Rightarrow> bool) \<Rightarrow> bool" where
  "begins_match ll dl i x j y f \<longleftrightarrow>
     begins ll (257 + i) f \<and> bits_value (skip (ll ! (257 + i)) f) (length_extra i) = x \<and>
     begins dl j (skip (ll ! (257 + i) + length_extra i) f) \<and>
     bits_value (skip (ll ! (257 + i) + length_extra i + dl ! j) f) (distance_extra j) = y"

definition match_bits :: "nat list \<Rightarrow> nat list \<Rightarrow> nat \<Rightarrow> nat \<Rightarrow> nat" where
  "match_bits ll dl i j = ll ! (257 + i) + length_extra i + dl ! j + distance_extra j"

lemma decode_match:
  assumes "coded ll dl (snd (snd rd))" "gz.reader_ok rd" "begins_match ll dl i x j y (gz.reader_bit rd)"
  obtains rd' where "decode_code w rd = Some (Match (length_base i + x) (nat ((int w - int (distance_base j) - int y) mod 2 ^ 32)), rd')"
    "decoded rd (match_bits ll dl i j) rd'"
proof -
  let ?s = "snd (snd rd)" and ?f = "gz.reader_bit rd"
  obtain t t' where t: "length ll \<le> 286" "length dl \<le> 30" "tl_ptr ?s = Some t" "td_ptr ?s = Some t'"
    "answers ll (symbol_value 257 cplens cplext) (tabs ?s) t (bl ?s)" "answers dl (symbol_value 0 cpdist cpdext) (tabs ?s) t' (bd ?s)"
    using assms(1) by (auto simp: coded_def)
  note m = assms(3) [unfolded begins_match_def]
  have i: "i < 29" "j < 30" using m t(1,2) by (auto simp: begins_def)
  have ex: "length_extra i \<le> 5" "distance_extra j \<le> 13" using i by (auto simp: length_extra_def distance_extra_def)
  have vl: "symbol_value 257 cplens cplext (257 + i) = (length_extra i, N (length_base i))"
    using length_tables [OF i(1)] by (simp add: symbol_value_def)
  have vd: "symbol_value 0 cpdist cpdext j = (distance_extra j, N (distance_base j))"
    using distance_tables [OF i(2)] by (simp add: symbol_value_def)
  have "begins ll (257 + i) ?f" "length_extra i \<noteq> 99" using m ex by simp_all
  from decode_begins [OF t(5) assms(2) this(1) vl this(2)] obtain r1 rd1 where
    r1: "huft_decode get_byte (tabs ?s) t (bl ?s) rd = Some (r1, rd1)" "e r1 = length_extra i" "v r1 = N (length_base i)"
    "decoded rd (ll ! (257 + i)) rd1" .
  have "gz.reader_ok rd1" "length_extra i \<le> 16" using r1(4) ex by (simp_all add: decoded_def)
  from decode_extra [OF this] obtain rd2 where r2: "get_bits (length_extra i) rd1 = (bits_value (gz.reader_bit rd1) (length_extra i), rd2)"
    "decoded rd1 (length_extra i) rd2" .
  note d2 = decoded_trans [OF r1(4) r2(2)]
  have "begins dl j (gz.reader_bit rd2)" "gz.reader_ok rd2" "distance_extra j \<noteq> 99" using m d2 ex by (simp_all add: decoded_def)
  from decode_begins [OF t(6) this(2,1) vd this(3)] obtain r3 rd3 where
    r3: "huft_decode get_byte (tabs ?s) t' (bd ?s) rd2 = Some (r3, rd3)" "e r3 = distance_extra j" "v r3 = N (distance_base j)"
    "decoded rd2 (dl ! j) rd3" .
  note d3 = decoded_trans [OF d2 r3(4)]
  have "gz.reader_ok rd3" "distance_extra j \<le> 16" using d3 ex by (simp_all add: decoded_def)
  from decode_extra [OF this] obtain rd4 where r4: "get_bits (distance_extra j) rd3 = (bits_value (gz.reader_bit rd3) (distance_extra j), rd4)"
    "decoded rd3 (distance_extra j) rd4" .
  have xy: "bits_value (gz.reader_bit rd1) (length_extra i) = x" "bits_value (gz.reader_bit rd3) (distance_extra j) = y"
    using m r1(4) d3 by (simp_all add: decoded_def)
  have ne: "e r1 \<noteq> 99" "e r1 \<noteq> 16" "e r1 \<noteq> 15" "e r3 \<noteq> 99" using r1(2) r3(2) ex by simp_all
  have "decode_code w rd = Some (Match (length_base i + x) (nat ((int w - int (distance_base j) - int y) mod 2 ^ 32)), rd4)"
    unfolding decode_code_def Let_def t(3,4) bind.bind_lunit r1(1) prod.case if_not_P [OF ne(1)] huft_number_def r1(3) huft_v.case
      if_not_P [OF ne(2)] if_not_P [OF ne(3)] r1(2) r2(1) r3(1) if_not_P [OF ne(4)] r3(3) r3(2) r4(1) xy
    using ne(1-3) ne(4) unfolding r1(2) r3(2) by simp
  moreover have "decoded rd (match_bits ll dl i j) rd4"
    using decoded_trans [OF d3 r4(2)] by (simp add: match_bits_def)
  ultimately show thesis using that by blast
qed

text \<open>Every stream of bits begins with a code or with a match.\<close>

lemma decode_any:
  assumes "coded ll dl (snd (snd rd))" "gz.reader_ok rd"
  obtains c rd' n where "decode_code w rd = Some (c, rd')" "decoded rd n rd'" "\<forall>m d. c = Match m d \<longrightarrow> 0 < m" "c \<noteq> Bad_code"
proof -
  let ?s = "snd (snd rd)" and ?f = "gz.reader_bit rd"
  obtain t t' where t: "answers ll (symbol_value 257 cplens cplext) (tabs ?s) t (bl ?s)" "answers dl (symbol_value 0 cpdist cpdext) (tabs ?s) t' (bd ?s)"
    using assms(1) by (auto simp: coded_def)
  obtain symb where symb: "begins ll symb ?f" using some_symbol [OF t(1), of ?f] by (metis begins_def)
  show thesis
  proof (cases "symb \<le> 256")
    case True
    from decode_literal [OF assms symb this, of w] obtain rd' where
      "decode_code w rd = Some (if symb = 256 then End_of_block else Literal (of_nat symb), rd')" "decoded rd (ll ! symb) rd'" .
    then show thesis by (rule that) (auto split: if_splits)
  next
    case False
    define i where "i = symb - 257"
    have i: "symb = 257 + i" using False by (simp add: i_def)
    obtain j where j: "begins dl j (skip (ll ! (257 + i) + length_extra i) ?f)"
      using some_symbol [OF t(2), of "skip (ll ! (257 + i) + length_extra i) ?f"] by (metis begins_def)
    define x where "x = bits_value (skip (ll ! (257 + i)) ?f) (length_extra i)"
    define y where "y = bits_value (skip (ll ! (257 + i) + length_extra i + dl ! j) ?f) (distance_extra j)"
    have "begins_match ll dl i x j y ?f" using symb j by (simp add: begins_match_def i x_def y_def)
    from decode_match [OF assms this, of w] obtain rd' where
      "decode_code w rd = Some (Match (length_base i + x) (nat ((int w - int (distance_base j) - int y) mod 2 ^ 32)), rd')"
      "decoded rd (match_bits ll dl i j) rd'" .
    moreover have "0 < length_base i" by (induction i) simp_all
    ultimately show thesis by (intro that) auto
  qed
qed

section \<open>Every call returns\<close>

lemma copy_match_moves:
  "length sl = WSIZE \<Longrightarrow> w < WSIZE \<Longrightarrow> 0 < n \<Longrightarrow> copy_match ok n d w sl = (n', d', w', sl') \<Longrightarrow>
    n' = n - min n (WSIZE - w) \<and> w' = w + min n (WSIZE - w)"
proof (induction ok n d w sl rule: copy_match.induct)
  case (1 ok n d w sl)
  define D where "D = d mod WSIZE"
  define M where "M = min n (WSIZE - max D w)"
  define sl2 where "sl2 = (if D > w \<or> w - D \<ge> M then move_slide ok w D M sl else copy_forward w D M sl)"
  have d: "D < WSIZE" by (simp add: D_def)
  have m: "w + M \<le> WSIZE" "D + M \<le> WSIZE" "0 < M" "M \<le> n" using d "1.prems"(2,3) by (auto simp: M_def)
  have "length (copy_forward w D M sl) = length sl" unfolding copy_forward_def by (rule for_up_keeps) simp
  then have len: "length sl2 = WSIZE" using m "1.prems"(1) by (simp add: sl2_def move_slide_def)
  show ?case
  proof (cases "w + M = WSIZE \<or> n - M = 0 \<or> M = 0")
    case True
    then have "copy_match ok n d w sl = (n - M, D + M, w + M, sl2)"
      by (subst copy_match.simps) (simp only: Let_def if_True D_def [symmetric] M_def [symmetric] sl2_def [symmetric])
    moreover have "min n (WSIZE - w) = M" using True m "1.prems"(2) by linarith
    ultimately show ?thesis using "1.prems"(4) by simp
  next
    case False
    then have "copy_match ok n d w sl = copy_match ok (n - M) (D + M) (w + M) sl2"
      by (subst copy_match.simps) (simp only: Let_def if_False D_def [symmetric] M_def [symmetric] sl2_def [symmetric])
    moreover have "w + M < WSIZE" "0 < n - M" using False m by auto
    ultimately have ih: "n' = n - M - min (n - M) (WSIZE - (w + M))" "w' = w + M + min (n - M) (WSIZE - (w + M))"
      using "1.IH" [OF D_def M_def sl2_def False len] "1.prems"(4) by simp_all
    have "min n (WSIZE - w) = M + min (n - M) (WSIZE - (w + M))" using m \<open>w + M < WSIZE\<close> \<open>0 < n - M\<close> by linarith
    with ih show ?thesis by simp
  qed
qed

text \<open>In the middle of a block, at the beginning of a code or of the rest of a match.\<close>

definition mid_block :: "nat list \<Rightarrow> nat list \<Rightarrow> gunzip \<Rightarrow> nat \<Rightarrow> bool" where
  "mid_block ll dl s n \<longleftrightarrow> wf_gunzip s \<and> coded ll dl s \<and> block_len s \<noteq> 0 \<and> (code_state s = 0 \<or> code_state s = 1 \<and> 0 < n)"

definition window_outcome :: "nat list \<Rightarrow> nat list \<Rightarrow> bool \<times> gunzip \<Rightarrow> bool" where
  "window_outcome ll dl x \<longleftrightarrow> wf_gunzip (snd x) \<and>
     (if fst x then block_len (snd x) = 0
      else wp (snd x) = WSIZE \<and> gz.reader_ok (bb (snd x), bk (snd x), snd x) \<and> mid_block ll dl (snd x) (inflate_n (snd x)))"

lemma rd_state_ok [simp]: "gz.reader_ok (rd_state f rd) = gz.reader_ok rd"
  by (cases rd) (simp add: rd_state_def gz.reader_ok_def)

lemma mid_block_fields [simp]:
  "mid_block ll dl (s\<lparr>inflate_d := d, inflate_n := n, wp := w, bb := u, bk := k\<rparr>) m = (mid_block ll dl (s\<lparr>wp := w\<rparr>) m)"
  by (simp add: mid_block_def wf_gunzip_def coded_def)

lemma mid_block_same: "same_codes s t \<Longrightarrow> mid_block ll dl s n \<Longrightarrow> mid_block ll dl t n"
  unfolding mid_block_def using coded_same [of s t ll dl] by (simp add: same_codes_def)

lemma end_of_window:
  assumes "gz.reader_ok rd" "mid_block ll dl (snd (snd rd)) n" "w = WSIZE"
  shows "window_outcome ll dl (end_codes n d w rd)"
proof -
  obtain u k s where rd: "rd = (u, k, s)" by (metis prod_cases3)
  have "block_len s \<noteq> 0" "wf_gunzip s" "coded ll dl s" using assms(2) by (simp_all add: rd mid_block_def)
  then show ?thesis using assms
    by (simp add: window_outcome_def end_codes_def rd gz.reader_ok_def mid_block_def wf_gunzip_def coded_def)
qed

lemma copy_codes_goes_on:
  assumes "mid_block ll dl (snd (snd rd)) n" "code_state (snd (snd rd)) = 1" "0 < n" "w < WSIZE" "gz.reader_ok rd"
  obtains n' d' w' rd' where "copy_codes n d w rd = (n', d', w', rd')" "mid_block ll dl (snd (snd rd')) n'" "gz.reader_ok rd'"
    "w < w'" "w' \<le> WSIZE"
proof -
  let ?s = "snd (snd rd)"
  obtain n' d' w' sl where c: "copy_match (errnum ?s = ERR_NONE) n d w (slide ?s) = (n', d', w', sl)" by (metis prod_cases4)
  have wf: "wf_gunzip ?s" "length (slide ?s) = WSIZE" using assms(1) by (simp_all add: mid_block_def wf_gunzip_def)
  note m = copy_match_moves [OF wf(2) assms(4,3) c]
  have "length sl = WSIZE" using copy_match_bounds [OF wf(2) assms(4) c] by simp
  then have "mid_block ll dl (?s\<lparr>slide := sl, code_state := (if n' = 0 then code_state ?s - 1 else code_state ?s)\<rparr>) n'"
    using assms(1,2) by (simp add: mid_block_def wf_gunzip_def coded_def)
  moreover have "copy_codes n d w rd = (n', d', w', rd_state (\<lambda>s. s\<lparr>slide := sl, code_state := (if n' = 0 then code_state s - 1 else code_state s)\<rparr>) rd)"
    by (simp add: copy_codes_def Let_def c)
  ultimately show thesis using that m assms(3-5) by simp
qed

lemma codes_loop_returns:
  "mid_block ll dl (snd (snd rd)) n \<Longrightarrow> gz.reader_ok rd \<Longrightarrow> w < WSIZE \<Longrightarrow>
    \<exists>x. codes_loop n d w rd = Some x \<and> window_outcome ll dl x"
proof (induction "WSIZE - w" arbitrary: n d w rd rule: less_induct)
  case less
  have copy: "\<exists>x. (let (n, d, w, rd) = copy_codes n d w rd in if w = WSIZE then Some (end_codes n d w rd) else codes_loop n d w rd) = Some x \<and>
      window_outcome ll dl x"
    if h: "mid_block ll dl (snd (snd rd)) n" "code_state (snd (snd rd)) = 1" "0 < n" "gz.reader_ok rd" for n d and rd :: "gunzip reader"
  proof -
    obtain n' d' w' rd' where c: "copy_codes n d w rd = (n', d', w', rd')" "mid_block ll dl (snd (snd rd')) n'" "gz.reader_ok rd'"
      "w < w'" "w' \<le> WSIZE" using copy_codes_goes_on [OF h(1-3) less.prems(3) h(4)] .
    show ?thesis
    proof (cases "w' = WSIZE")
      case True
      then show ?thesis using end_of_window [OF c(3,2) True] by (simp add: c(1))
    next
      case False
      then have "WSIZE - w' < WSIZE - w" "w' < WSIZE" using c(4,5) by simp_all
      from less.hyps [OF this(1) c(2,3) this(2)] show ?thesis using False by (simp add: c(1))
    qed
  qed
  let ?s = "snd (snd rd)"
  show ?case
  proof (cases "code_state ?s = 0")
    case False
    then have "code_state ?s = 1" "0 < n" using less.prems(1) by (auto simp: mid_block_def)
    from copy [OF less.prems(1) this less.prems(2), of d] False show ?thesis by (subst codes_loop.simps) simp
  next
    case True
    have "coded ll dl ?s" using less.prems(1) by (simp add: mid_block_def)
    from decode_any [OF this less.prems(2), of w] obtain c rd1 k where
      c: "decode_code w rd = Some (c, rd1)" "decoded rd k rd1" "\<forall>m d. c = Match m d \<longrightarrow> 0 < m" "c \<noteq> Bad_code" .
    have rd1: "gz.reader_ok rd1" "mid_block ll dl (snd (snd rd1)) n" "code_state (snd (snd rd1)) = 0"
      using c(2) mid_block_same [OF _ less.prems(1)] True by (auto simp: decoded_def same_codes_def)
    show ?thesis
    proof (cases c)
      case (Literal y)
      let ?rd = "rd_state (\<lambda>s. s\<lparr>slide := (slide s)[w := y]\<rparr>) rd1"
      have k: "mid_block ll dl (snd (snd ?rd)) n" using rd1(2) by (simp add: mid_block_def wf_gunzip_def coded_def)
      have ok: "gz.reader_ok ?rd" using rd1(1) by simp
      show ?thesis
      proof (cases "w + 1 = WSIZE")
        case w: True
        then show ?thesis using end_of_window [OF ok k w, of d] True c(1) Literal by (subst codes_loop.simps) simp
      next
        case False
        then have "WSIZE - (w + 1) < WSIZE - w" "w + 1 < WSIZE" using less.prems(3) by simp_all
        from less.hyps [OF this(1) k ok this(2), of d] False True c(1) Literal show ?thesis by (subst codes_loop.simps) simp
      qed
    next
      case End_of_block
      have "window_outcome ll dl (end_codes n d w (rd_state (\<lambda>s. s\<lparr>block_len := 0\<rparr>) rd1))"
        using rd1(2) less.prems(3) by (cases rd1) (simp add: window_outcome_def end_codes_def rd_state_def mid_block_def wf_gunzip_def)
      with True c(1) End_of_block show ?thesis by (subst codes_loop.simps) simp
    next
      case (Match m d')
      let ?rd = "rd_state (\<lambda>s. s\<lparr>code_state := code_state s + 1\<rparr>) rd1"
      have m: "0 < m" using c(3) Match by simp
      have k: "mid_block ll dl (snd (snd ?rd)) m" "code_state (snd (snd ?rd)) = 1"
        using rd1(2,3) m by (simp_all add: mid_block_def wf_gunzip_def coded_def)
      have ok: "gz.reader_ok ?rd" using rd1(1) by simp
      from copy [OF k m ok, of d'] True c(1) Match show ?thesis by (subst codes_loop.simps) simp
    next
      case Bad_code
      with c(4) show ?thesis by simp
    qed
  qed
qed

lemma build_both_ready:
  assumes "full ll" "length ll \<le> 286" "full dl" "length dl \<le> 30"
  obtains p q l m ts where "build_both ll lbits dl dbits accept s =
      Some (s\<lparr>tl_ptr := Some p, bl := l, td_ptr := Some q, bd := m, tabs := ts, code_state := 0, block_len := block_len s + 1\<rparr>)"
    "answers ll (symbol_value 257 cplens cplext) ts p l" "answers dl (symbol_value 0 cpdist cpdext) ts q m"
proof -
  let ?r = "\<lparr>e = 0, b = 0, v = N 0\<rparr>"
  have el: "\<forall>i<length ll - 257. cplext ! i \<le> 16 \<or> cplext ! i = 99"
    using assms(2) length_tables by (auto simp: length_extra_def)
  have ed: "\<forall>i<length dl - 0. cpdext ! i \<le> 16 \<or> cpdext ! i = 99"
    using assms(4) distance_tables by (auto simp: distance_extra_def)
  have sl: "length ll \<le> 2 ^ lbits \<or> (\<forall>k\<in>set ll. k < 2 * lbits)" "length dl \<le> 2 ^ dbits \<or> (\<forall>k\<in>set dl. k < 2 * dbits)"
    using assms(2,4) by simp_all
  obtain l us where l: "huft_build ll 257 cplens cplext lbits ?r (tabs s) = Some (0, Some (length (tabs s)), l, tabs s @ us)"
    "answers ll (symbol_value 257 cplens cplext) (tabs s @ us) (length (tabs s)) l"
    using huft_build_answers [OF assms(1) zero_less_numeral sl(1) el] .
  obtain m vs where m: "huft_build dl 0 cpdist cpdext dbits ?r (tabs s @ us) =
      Some (0, Some (length (tabs s @ us)), m, (tabs s @ us) @ vs)"
    "answers dl (symbol_value 0 cpdist cpdext) ((tabs s @ us) @ vs) (length (tabs s @ us)) m"
    using huft_build_answers [OF assms(3) zero_less_numeral sl(2) ed] .
  show thesis
    by (rule that [OF _ answers_append [OF l(2)] m(2)]) (simp add: build_both_def build_table_def l(1) m(1) Let_def)
qed

text \<open>
  The windows of one block: the driver calls \<open>inflate_codes_in_window\<close> again, from the beginning of the window, until the
  block ends or an error is pending.
\<close>

primrec inflate_windows :: "nat \<Rightarrow> gunzip \<Rightarrow> (bool \<times> gunzip) option" where
  "inflate_windows 0 s = inflate_codes_in_window s"
| "inflate_windows (Suc k) s = do {
     (ended, s) \<leftarrow> inflate_windows k s;
     if ended \<or> errnum s \<noteq> ERR_NONE then Some (ended, s) else inflate_codes_in_window (s\<lparr>wp := 0\<rparr>)
   }"

lemma mid_block_returns:
  assumes "mid_block ll dl s (inflate_n s)" "gz.reader_ok (bb s, bk s, s)" "wp s < WSIZE"
  shows "\<exists>x. inflate_codes_in_window s = Some x \<and> window_outcome ll dl x"
  using codes_loop_returns [of ll dl "(bb s, bk s, s)" "inflate_n s" "wp s"] assms by (simp add: inflate_codes_in_window_def)

lemma windows_return:
  assumes "mid_block ll dl s (inflate_n s)" "gz.reader_ok (bb s, bk s, s)" "wp s < WSIZE"
  shows "\<exists>x. inflate_windows k s = Some x \<and> window_outcome ll dl x"
proof (induction k)
  case 0
  then show ?case using mid_block_returns [OF assms] by simp
next
  case (Suc k)
  then obtain ended u where u: "inflate_windows k s = Some (ended, u)" "window_outcome ll dl (ended, u)" by auto
  show ?case
  proof (cases "ended \<or> errnum u \<noteq> ERR_NONE")
    case False
    let ?u = "u\<lparr>wp := 0\<rparr>"
    have "mid_block ll dl ?u (inflate_n ?u)" "gz.reader_ok (bb ?u, bk ?u, ?u)" "wp ?u < WSIZE"
      using u(2) False by (simp_all add: window_outcome_def mid_block_def wf_gunzip_def coded_def gz.reader_ok_def)
    from mid_block_returns [OF this] show ?thesis using u(1) False by simp
  qed (use u in simp)
qed

section \<open>What the bits stand for\<close>

text \<open>
  The contents of a block: literals, and matches given by a length code and a distance code with the values of their
  extra bits. The bits of the block spell them one after the other and then the end of the block, symbol 256.
\<close>

datatype token = Lit u8 | Copy nat nat nat nat

fun spells :: "nat list \<Rightarrow> nat list \<Rightarrow> token list \<Rightarrow> (nat \<Rightarrow> bool) \<Rightarrow> bool" where
  "spells ll dl [] f = begins ll 256 f"
| "spells ll dl (Lit c # toks) f = (begins ll (unat c) f \<and> spells ll dl toks (skip (ll ! unat c) f))"
| "spells ll dl (Copy i x j y # toks) f =
     (begins_match ll dl i x j y f \<and> spells ll dl toks (skip (match_bits ll dl i j) f))"

fun token_size :: "token \<Rightarrow> nat" where
  "token_size (Lit c) = 1"
| "token_size (Copy i x j y) = length_base i + x"

text \<open>A match repeats what stands so many bytes before, round the window.\<close>

fun expand :: "token list \<Rightarrow> nat \<Rightarrow> u8 list \<Rightarrow> u8 list" where
  "expand [] w sl = sl"
| "expand (Lit c # toks) w sl = expand toks (w + 1) (sl[w := c])"
| "expand (Copy i x j y # toks) w sl =
     (let n = length_base i + x; d = nat ((int w - int (distance_base j + y)) mod int WSIZE)
      in expand toks (w + n) (lz_copy n d w sl))"

lemma plain_read_parts:
  assumes "p = (if filepos s < 0 \<or> filepos s > filemax s then filemax s else filepos s)"
    "l = (if n < 0 \<or> n > filemax s - p then filemax s - p else n)" "bytes = take (nat l) (drop (nat p) (file_data s))"
  shows "plain_read n s = (if p + l > fsmax s then ([], s\<lparr>filepos := p, errnum := ERR_FILELENGTH\<rparr>)
    else (bytes, s\<lparr>filepos := p + int (length bytes)\<rparr>))"
  unfolding plain_read_def Let_def assms(1) [symmetric] assms(2,3) by simp

lemma plain_read_output:
  "plain_read n (s\<lparr>slide := sl, code_state := c\<rparr>) = (fst (plain_read n s), (snd (plain_read n s))\<lparr>slide := sl, code_state := c\<rparr>)"
proof -
  define p where "p = (if filepos s < 0 \<or> filepos s > filemax s then filemax s else filepos s)"
  define l where "l = (if n < 0 \<or> n > filemax s - p then filemax s - p else n)"
  define bytes where "bytes = take (nat l) (drop (nat p) (file_data s))"
  let ?t = "s\<lparr>slide := sl, code_state := c\<rparr>"
  have t: "p = (if filepos ?t < 0 \<or> filepos ?t > filemax ?t then filemax ?t else filepos ?t)"
    "l = (if n < 0 \<or> n > filemax ?t - p then filemax ?t - p else n)" "bytes = take (nat l) (drop (nat p) (file_data ?t))"
    by (simp_all add: p_def l_def bytes_def)
  show ?thesis unfolding plain_read_parts [OF p_def l_def bytes_def] plain_read_parts [OF t] by simp
qed

lemma get_byte_output:
  "get_byte (s\<lparr>slide := sl, code_state := c\<rparr>) = (fst (get_byte s), (snd (get_byte s))\<lparr>slide := sl, code_state := c\<rparr>)"
proof -
  obtain bytes t where r: "plain_read (int INBUFSIZ) (s\<lparr>bufloc := 0\<rparr>) = (bytes, t)" by fastforce
  have e: "s\<lparr>slide := sl, code_state := c, bufloc := 0\<rparr> = (s\<lparr>bufloc := 0\<rparr>)\<lparr>slide := sl, code_state := c\<rparr>" by simp
  have "plain_read (int INBUFSIZ) (s\<lparr>slide := sl, code_state := c, bufloc := 0\<rparr>) = (bytes, t\<lparr>slide := sl, code_state := c\<rparr>)"
    unfolding e plain_read_output r by simp
  with r show ?thesis unfolding get_byte_def Let_def by (cases "filepos s = gzip_data_offset s \<or> bufloc s = INBUFSIZ") (simp_all del: of_nat_numeral)
qed

lemma byte_stream_output: "byte_stream (s\<lparr>slide := sl, code_state := c\<rparr>) i = byte_stream s i"
proof (induction i arbitrary: s)
  case 0
  then show ?case by (simp add: byte_stream_def get_byte_output)
next
  case (Suc i)
  then show ?case by (simp add: byte_stream_Suc get_byte_output)
qed

lemma reader_bit_output: "gz.reader_bit (u, k, s\<lparr>slide := sl, code_state := c\<rparr>) = gz.reader_bit (u, k, s)"
  by (simp add: gz.reader_bit_def byte_stream_output fun_eq_iff)

lemma rd_state_bits:
  "gz.reader_bit (rd_state (\<lambda>s. s\<lparr>slide := g s, code_state := h s\<rparr>) rd) = gz.reader_bit rd"
  "gz.reader_bit (rd_state (\<lambda>s. s\<lparr>slide := g s\<rparr>) rd) = gz.reader_bit rd"
  "gz.reader_bit (rd_state (\<lambda>s. s\<lparr>code_state := h s\<rparr>) rd) = gz.reader_bit rd"
proof -
  obtain u k s where rd: "rd = (u, k, s)" by (metis prod_cases3)
  have a: "s\<lparr>slide := g s\<rparr> = s\<lparr>slide := g s, code_state := code_state s\<rparr>"
    and b: "s\<lparr>code_state := h s\<rparr> = s\<lparr>slide := slide s, code_state := h s\<rparr>" by simp_all
  show "gz.reader_bit (rd_state (\<lambda>s. s\<lparr>slide := g s, code_state := h s\<rparr>) rd) = gz.reader_bit rd"
    by (simp add: rd rd_state_def reader_bit_output)
  show "gz.reader_bit (rd_state (\<lambda>s. s\<lparr>slide := g s\<rparr>) rd) = gz.reader_bit rd"
    using reader_bit_output [where s = s and sl = "g s" and c = "code_state s"] unfolding rd rd_state_def prod.case a [symmetric] .
  show "gz.reader_bit (rd_state (\<lambda>s. s\<lparr>code_state := h s\<rparr>) rd) = gz.reader_bit rd"
    using reader_bit_output [where s = s and sl = "slide s" and c = "h s"] unfolding rd rd_state_def prod.case b [symmetric] .
qed

lemma position_mod: "nat ((z :: int) mod 2 ^ 32) mod WSIZE = nat (z mod int WSIZE)"
proof -
  have "(z mod 2 ^ 32) mod int WSIZE = z mod int WSIZE" by (rule mod_mod_cancel) simp
  then show ?thesis by (simp flip: nat_mod_distrib [of "z mod 4294967296" "int WSIZE", simplified])
qed

definition readable_file :: "gunzip \<Rightarrow> bool" where
  "readable_file s \<longleftrightarrow> errnum s = ERR_NONE \<and> filemax s \<le> fsmax s"

lemma copy_codes_whole:
  assumes "readable_file (snd (snd rd))" "length (slide (snd (snd rd))) = WSIZE" "0 < n" "w + n < WSIZE"
    "code_state (snd (snd rd)) = 1"
  obtains d' where "copy_codes n (nat (z mod 2 ^ 32)) w rd =
    (0, d', w + n, rd_state (\<lambda>s. s\<lparr>slide := lz_copy n (nat (z mod int WSIZE)) w (slide (snd (snd rd))), code_state := code_state s - 1\<rparr>) rd)"
proof -
  let ?s = "snd (snd rd)" and ?d = "nat (z mod 2 ^ 32)"
  have "w < WSIZE" "errnum ?s = ERR_NONE" using assms(1,4) by (simp_all add: readable_file_def)
  then obtain d' where "copy_match (errnum ?s = ERR_NONE) n ?d w (slide ?s) =
      (n - min n (WSIZE - w), d', w + min n (WSIZE - w), lz_copy (min n (WSIZE - w)) ?d w (slide ?s))"
    using copy_match_lz [of "errnum ?s = ERR_NONE" "slide ?s" w n ?d] assms(2,3) by blast
  moreover have "min n (WSIZE - w) = n" using assms(4) by simp
  moreover have "lz_copy n ?d w (slide ?s) = lz_copy n (nat (z mod int WSIZE)) w (slide ?s)"
    using position_mod [of z] lz_copy_mod [of n ?d w "slide ?s"] by simp
  ultimately show thesis using that by (simp add: copy_codes_def Let_def)
qed

lemma codes_loop_expands:
  "mid_block ll dl (snd (snd rd)) n \<Longrightarrow> code_state (snd (snd rd)) = 0 \<Longrightarrow> readable_file (snd (snd rd)) \<Longrightarrow>
    gz.reader_ok rd \<Longrightarrow> spells ll dl toks (gz.reader_bit rd) \<Longrightarrow> w + sum_list (map token_size toks) < WSIZE \<Longrightarrow>
    \<exists>u. codes_loop n d w rd = Some (True, u) \<and> slide u = expand toks w (slide (snd (snd rd))) \<and>
      wp u = w + sum_list (map token_size toks) \<and> readable_file u"
proof (induction toks arbitrary: n d w rd)
  case Nil
  let ?s = "snd (snd rd)"
  have "coded ll dl ?s" "begins ll 256 (gz.reader_bit rd)" using Nil by (simp_all add: mid_block_def)
  from decode_literal [OF this(1) Nil(4) this(2), of w] obtain rd1 where
    c: "decode_code w rd = Some (End_of_block, rd1)" "decoded rd (ll ! 256) rd1" by auto
  have "slide (snd (snd rd1)) = slide ?s" "readable_file (snd (snd rd1))"
    using c(2) Nil(3) by (simp_all add: decoded_def same_codes_def readable_file_def)
  then show ?case using c(1) Nil(2)
    by (subst codes_loop.simps) (cases rd1, simp add: end_codes_def rd_state_def readable_file_def)
next
  case (Cons a toks)
  let ?s = "snd (snd rd)"
  have co: "coded ll dl ?s" using Cons.prems(1) by (simp add: mid_block_def)
  show ?case
  proof (cases a)
    case (Lit c)
    have "begins ll (unat c) (gz.reader_bit rd)" using Cons.prems(5) Lit by simp
    moreover have "unat c \<le> 256" "unat c \<noteq> 256" using unat_u8_less [of c] by linarith+
    ultimately obtain rd1 where c: "decode_code w rd = Some (Literal c, rd1)" "decoded rd (ll ! unat c) rd1"
      using decode_literal [OF co Cons.prems(4), of "unat c" w] by auto
    let ?rd = "rd_state (\<lambda>s. s\<lparr>slide := (slide s)[w := c]\<rparr>) rd1"
    have s1: "same_codes ?s (snd (snd rd1))" "gz.reader_ok rd1" "gz.reader_bit rd1 = skip (ll ! unat c) (gz.reader_bit rd)"
      using c(2) by (simp_all add: decoded_def)
    have "mid_block ll dl (snd (snd ?rd)) n" "code_state (snd (snd ?rd)) = 0" "readable_file (snd (snd ?rd))"
      using mid_block_same [OF s1(1) Cons.prems(1)] s1(1) Cons.prems(2,3)
      by (simp_all add: mid_block_def wf_gunzip_def coded_def same_codes_def readable_file_def)
    moreover have "gz.reader_ok ?rd" "spells ll dl toks (gz.reader_bit ?rd)" using s1 Cons.prems(5) Lit by (simp_all add: rd_state_bits)
    moreover have w: "w + 1 + sum_list (map token_size toks) < WSIZE" "w + 1 \<noteq> WSIZE" using Cons.prems(6) Lit by simp_all
    ultimately obtain u where "codes_loop n d (w + 1) ?rd = Some (True, u)" "slide u = expand toks (w + 1) (slide (snd (snd ?rd)))"
      "wp u = w + 1 + sum_list (map token_size toks)" "readable_file u" using Cons.IH by blast
    moreover have "slide (snd (snd rd1)) = slide ?s" using s1(1) by (simp add: same_codes_def)
    ultimately show ?thesis using Cons.prems(2) c(1) w(2) Lit by (subst codes_loop.simps) simp
  next
    case (Copy i x j y)
    let ?n = "length_base i + x" and ?z = "int w - int (distance_base j) - int y"
    have "begins_match ll dl i x j y (gz.reader_bit rd)" using Cons.prems(5) Copy by simp
    from decode_match [OF co Cons.prems(4) this, of w] obtain rd1 where
      c: "decode_code w rd = Some (Match ?n (nat (?z mod 2 ^ 32)), rd1)" "decoded rd (match_bits ll dl i j) rd1" .
    have s1: "same_codes ?s (snd (snd rd1))" "gz.reader_ok rd1" "gz.reader_bit rd1 = skip (match_bits ll dl i j) (gz.reader_bit rd)"
      using c(2) by (simp_all add: decoded_def)
    have sl: "slide (snd (snd rd1)) = slide ?s" "code_state (snd (snd rd1)) = 0" "readable_file (snd (snd rd1))"
      using s1(1) Cons.prems(2,3) by (simp_all add: same_codes_def readable_file_def)
    have mb: "mid_block ll dl (snd (snd rd1)) n" by (rule mid_block_same [OF s1(1) Cons.prems(1)])
    have lb: "0 < length_base i" by (induction i) simp_all
    let ?rd2 = "rd_state (\<lambda>s. s\<lparr>code_state := code_state s + 1\<rparr>) rd1"
    let ?sl = "lz_copy ?n (nat (?z mod int WSIZE)) w (slide ?s)"
    let ?rd3 = "rd_state (\<lambda>s. s\<lparr>slide := ?sl, code_state := code_state s - 1\<rparr>) ?rd2"
    have r2: "readable_file (snd (snd ?rd2))" "length (slide (snd (snd ?rd2))) = WSIZE" "code_state (snd (snd ?rd2)) = 1"
      using sl mb by (simp_all add: readable_file_def mid_block_def wf_gunzip_def)
    have n: "0 < ?n" "w + ?n < WSIZE" using lb Cons.prems(6) Copy by simp_all
    have sl2: "slide (snd (snd ?rd2)) = slide ?s" using sl by simp
    obtain d' where cc: "copy_codes ?n (nat (?z mod 2 ^ 32)) w ?rd2 = (0, d', w + ?n, ?rd3)"
      using copy_codes_whole [OF r2(1,2) n r2(3), of ?z] unfolding sl2 .
    have "mid_block ll dl (snd (snd ?rd3)) 0" "code_state (snd (snd ?rd3)) = 0" "readable_file (snd (snd ?rd3))"
      using mb sl by (simp_all add: mid_block_def wf_gunzip_def coded_def readable_file_def)
    moreover have "gz.reader_ok ?rd3" "spells ll dl toks (gz.reader_bit ?rd3)" using s1 Cons.prems(5) Copy by (simp_all add: rd_state_bits)
    moreover have w: "w + ?n + sum_list (map token_size toks) < WSIZE" "w + ?n \<noteq> WSIZE" using Cons.prems(6) Copy by simp_all
    ultimately obtain u where u: "codes_loop 0 d' (w + ?n) ?rd3 = Some (True, u)" "slide u = expand toks (w + ?n) (slide (snd (snd ?rd3)))"
      "wp u = w + ?n + sum_list (map token_size toks)" "readable_file u" using Cons.IH by blast
    have "codes_loop n d w rd = Some (True, u)"
      using Cons.prems(2) c(1) w(2) cc u(1) by (subst codes_loop.simps) simp
    moreover have "slide u = expand (a # toks) w (slide ?s)" unfolding Copy using u(2) by (simp add: Let_def algebra_simps)
    ultimately show ?thesis using u(3,4) Copy by simp
  qed
qed

lemma mid_block_built:
  assumes "full ll" "length ll \<le> 286" "full dl" "length dl \<le> 30" "wf_gunzip s"
  obtains p q l m ts t where "build_both ll lbits dl dbits accept s = Some t"
    "t = s\<lparr>tl_ptr := Some p, bl := l, td_ptr := Some q, bd := m, tabs := ts, code_state := 0, block_len := block_len s + 1\<rparr>"
    "mid_block ll dl t (inflate_n t)"
proof -
  obtain p q l m ts where t: "build_both ll lbits dl dbits accept s =
      Some (s\<lparr>tl_ptr := Some p, bl := l, td_ptr := Some q, bd := m, tabs := ts, code_state := 0, block_len := block_len s + 1\<rparr>)"
    "answers ll (symbol_value 257 cplens cplext) ts p l" "answers dl (symbol_value 0 cpdist cpdext) ts q m"
    using build_both_ready [OF assms(1-4)] .
  have "mid_block ll dl (s\<lparr>tl_ptr := Some p, bl := l, td_ptr := Some q, bd := m, tabs := ts, code_state := 0, block_len := block_len s + 1\<rparr>) n" for n
    using t(2,3) assms(2,4,5) by (simp add: mid_block_def coded_def wf_gunzip_def)
  with t(1) that show thesis by blast
qed

text \<open>
  C33. A block of Huffman codes. With the tables that \<open>build_both\<close> makes of two complete codes, whatever bits the file
  holds, every call of \<open>inflate_codes_in_window\<close> for the windows of the block returns, with the window and the input buffer
  of the right sizes and the places in them in range, and either the block has ended or the window is full: no
  unwritten table entry is used, no null pointer followed, and no array left. And when the bits spell literals and
  matches that fit into the rest of the window, and the end of the block, as RFC 1951 has them, the first call ends the block
  without an error, with exactly what they stand for in the window and the place behind it.
\<close>

theorem inflate_block:
  assumes "full ll" "length ll \<le> 286" "full dl" "length dl \<le> 30"
    and "wf_gunzip s" "wp s < WSIZE" "gz.reader_ok (bb s, bk s, s)"
  shows "\<exists>t. build_both ll lbits dl dbits 0 s = Some t \<and>
    (\<forall>k. \<exists>ended u. inflate_windows k t = Some (ended, u) \<and> wf_gunzip u \<and> (if ended then block_len u = 0 else wp u = WSIZE)) \<and>
    (\<forall>toks. errnum s = ERR_NONE \<and> filemax s \<le> fsmax s \<and> spells ll dl toks (gz.reader_bit (bb t, bk t, t)) \<and>
        wp s + sum_list (map token_size toks) < WSIZE \<longrightarrow>
      (\<exists>u. inflate_codes_in_window t = Some (True, u) \<and> errnum u = ERR_NONE \<and>
        wp u = wp s + sum_list (map token_size toks) \<and> slide u = expand toks (wp s) (slide s)))"
proof -
  obtain p q l m ts t where t: "build_both ll lbits dl dbits 0 s = Some t"
    "t = s\<lparr>tl_ptr := Some p, bl := l, td_ptr := Some q, bd := m, tabs := ts, code_state := 0, block_len := block_len s + 1\<rparr>"
    "mid_block ll dl t (inflate_n t)"
    using mid_block_built [OF assms(1-5)] .
  have ok: "gz.reader_ok (bb t, bk t, t)" using assms(7) by (simp add: t(2) gz.reader_ok_def)
  have same: "wp t = wp s" "slide t = slide s" "code_state t = 0" "errnum t = errnum s" "filemax t = filemax s" "fsmax t = fsmax s"
    by (simp_all add: t(2))
  have "\<exists>ended u. inflate_windows k t = Some (ended, u) \<and> wf_gunzip u \<and> (if ended then block_len u = 0 else wp u = WSIZE)" for k
  proof -
    obtain x where x: "inflate_windows k t = Some x" "window_outcome ll dl x"
      using windows_return [OF t(3) ok, of k] assms(6) unfolding same(1) by blast
    show ?thesis
      by (rule exI [of _ "fst x"], rule exI [of _ "snd x"]) (use x in \<open>simp add: window_outcome_def split: if_splits\<close>)
  qed
  moreover have "\<exists>u. inflate_codes_in_window t = Some (True, u) \<and> errnum u = ERR_NONE \<and>
      wp u = wp s + sum_list (map token_size toks) \<and> slide u = expand toks (wp s) (slide s)"
    if "errnum s = ERR_NONE" "filemax s \<le> fsmax s" "spells ll dl toks (gz.reader_bit (bb t, bk t, t))"
      "wp s + sum_list (map token_size toks) < WSIZE" for toks
  proof -
    let ?rd = "(bb t, bk t, t)"
    have "mid_block ll dl (snd (snd ?rd)) (inflate_n t)" "code_state (snd (snd ?rd)) = 0" "readable_file (snd (snd ?rd))"
      "wp t + sum_list (map token_size toks) < WSIZE"
      using t(3) that(1,2,4) by (simp_all add: same readable_file_def)
    from codes_loop_expands [OF this(1-3) ok that(3) this(4), of "inflate_d t"] obtain u where
      u: "codes_loop (inflate_n t) (inflate_d t) (wp t) ?rd = Some (True, u)" "slide u = expand toks (wp t) (slide t)"
      "wp u = wp t + sum_list (map token_size toks)" "readable_file u" by auto
    show ?thesis
      by (rule exI [of _ u]) (use u in \<open>simp add: same readable_file_def inflate_codes_in_window_def\<close>)
  qed
  ultimately show ?thesis using t(1) by blast
qed

theorem inflate_block_witness:
  "\<exists>t u. build_both (replicate 97 0 @ [2] @ replicate 158 0 @ [2, 1]) lbits [1, 1] dbits 0 (fresh_gunzip [49]) = Some t \<and>
    inflate_codes_in_window t = Some (True, u) \<and> errnum u = ERR_NONE \<and> wp u = 4 \<and>
    slide u = [97, 97, 97, 97] @ replicate (WSIZE - 4) 0"
proof -
  let ?ll = "replicate 97 0 @ [2] @ replicate 158 0 @ [2, 1] :: nat list" and ?dl = "[1, 1] :: nat list"
  let ?s = "fresh_gunzip [49]" and ?toks = "[Lit 97, Copy 0 0 0 0]"
  have full: "full ?ll" "full ?dl" by (simp_all add: full_def)
  have h: "length ?ll \<le> 286" "length ?dl \<le> 30" "wf_gunzip ?s" "wp ?s < WSIZE" "gz.reader_ok (bb ?s, bk ?s, ?s)"
    by (simp_all add: fresh_gunzip_def gz.reader_ok_def wf_gunzip_def)
  obtain p q l m ts t where t: "build_both ?ll lbits ?dl dbits 0 ?s = Some t"
    "t = ?s\<lparr>tl_ptr := Some p, bl := l, td_ptr := Some q, bd := m, tabs := ts, code_state := 0, block_len := block_len ?s + 1\<rparr>"
    using mid_block_built [OF full(1) h(1) full(2) h(2,3)] by metis
  have "buffered t" by (simp add: t(2) buffered_def fresh_gunzip_def)
  then have bit: "gz.reader_bit (bb t, bk t, t) i = bit (49 :: u8) i" if "i < 8" for i
    using that byte_stream_nth [of t 0] by (simp add: gz.reader_bit_def t(2) fresh_gunzip_def next_byte_def)
  let ?f = "gz.reader_bit (bb t, bk t, t)"
  have v: "spelled (skip n ?f) k = spelled (skip n (bit (49 :: u8))) k" if "n + k \<le> 8" for n k
    unfolding spelled_def by (rule arg_cong [where f = "reversed k"], rule bits_value_cong) (use that in \<open>simp add: bit\<close>)
  have c: "spelled (skip 0 (bit (49 :: u8))) 2 = 2" "spelled (skip 2 (bit (49 :: u8))) 1 = 0"
    "spelled (skip 3 (bit (49 :: u8))) 1 = 0" "spelled (skip 4 (bit (49 :: u8))) 2 = 3" by code_simp+
  have w: "code_word ?ll 97 = 2" "code_word ?ll 256 = 3" "code_word ?ll 257 = 0" "code_word ?dl 0 = 0" by code_simp+
  have sp: "spelled (skip 0 ?f) 2 = 2" "spelled (skip 2 ?f) 1 = 0" "spelled (skip 3 ?f) 1 = 0" "spelled (skip 4 ?f) 2 = 3"
    using v [of 0 2] v [of 2 1] v [of 3 1] v [of 4 2] c by simp_all
  have four: "(4 :: nat) = Suc (Suc (Suc (Suc 0)))" by simp
  have "spells ?ll ?dl ?toks ?f"
    using w sp [unfolded numeral_3_eq_3 four] by (simp add: begins_def begins_match_def match_bits_def length_extra_def distance_extra_def nth_append)
  moreover have "errnum ?s = ERR_NONE" "filemax ?s \<le> fsmax ?s" "wp ?s + sum_list (map token_size ?toks) < WSIZE"
    by (simp_all add: fresh_gunzip_def)
  ultimately obtain u where u: "inflate_codes_in_window t = Some (True, u)" "errnum u = ERR_NONE"
    "wp u = wp ?s + sum_list (map token_size ?toks)" "slide u = expand ?toks (wp ?s) (slide ?s)"
    using inflate_block [OF full(1) h(1) full(2) h(2-5), unfolded t(1) option.inject simp_thms,
        THEN conjunct2, THEN spec [of _ ?toks]] by blast
  have z: "replicate WSIZE (0 :: u8) = 0 # 0 # 0 # 0 # replicate (WSIZE - 4) 0"
    using replicate_add [of 4 "WSIZE - 4" "0 :: u8"] by (simp add: four)
  have "slide u = [97, 97, 97, 97] @ replicate (WSIZE - 4) 0"
    unfolding u(4) by (simp add: fresh_gunzip_def z lz_copy_def numeral_3_eq_3 for_up_Suc)
  moreover have "wp u = 4" using u(3) by (simp add: fresh_gunzip_def)
  ultimately show ?thesis using t(1) u(1,2) by blast
qed

end
