(* ===== verification/GRUB_Bios.thy ===== *)
theory GRUB_Bios
  imports GRUB_Memory
begin

text \<open>
  The disk access of the boot loader through the BIOS, \<^verbatim>\<open>src/legacy/SZoS/grub-0.97/stage2/bios.c\<close>. The five routines
  of \<^verbatim>\<open>asm.S\<close> that call interrupt 13 are the record \<open>firmware\<close>, a parameter: each takes what the C code passes and
  the state \<open>'w\<close> of the disks, and the two that transfer data also the memory. A result \<^const>\<open>None\<close> means a division
  by zero. The fields of the geometry are the values of the C code's unsigned longs.
\<close>

section \<open>Definitions\<close>

record geometry =
  cylinders :: nat
  heads :: nat
  sectors :: nat
  total_sectors :: nat
  sector_size :: nat
  geo_flags :: nat

record disk_address_packet =
  dap_blocks :: u16
  dap_buffer :: u32
  dap_block :: u64

record iso_spec_packet =
  cd_media_type :: u8
  cd_drive_no :: u8
  cd_cylinders :: u8
  cd_sectors :: u8
  cd_heads :: u8

record drive_parameters =
  drp_cylinders :: nat
  drp_heads :: nat
  drp_sectors :: nat
  drp_total_sectors :: nat

text \<open>\<open>biosdisk_int13_extensions\<close> has one field for each kind of packet it is called with.\<close>

record 'w firmware =
  int13_transfer :: "int \<Rightarrow> int \<Rightarrow> disk_address_packet \<Rightarrow> mem \<times> 'w \<Rightarrow> int \<times> mem \<times> 'w"
  int13_cdrom :: "int \<Rightarrow> 'w \<Rightarrow> int \<times> iso_spec_packet"
  int13_parameters :: "int \<Rightarrow> 'w \<Rightarrow> int \<times> drive_parameters"
  biosdisk_standard :: "int \<Rightarrow> int \<Rightarrow> nat \<Rightarrow> nat \<Rightarrow> nat \<Rightarrow> int \<Rightarrow> int \<Rightarrow> mem \<times> 'w \<Rightarrow> int \<times> mem \<times> 'w"
  check_int13_extensions :: "int \<Rightarrow> 'w \<Rightarrow> int"
  get_diskinfo_standard :: "int \<Rightarrow> 'w \<Rightarrow> int \<times> nat \<times> nat \<times> nat"

abbreviation (input) BIOSDISK_READ :: int where "BIOSDISK_READ \<equiv> 0"
abbreviation (input) BIOSDISK_WRITE :: int where "BIOSDISK_WRITE \<equiv> 1"
abbreviation (input) BIOSDISK_ERROR_GEOMETRY :: int where "BIOSDISK_ERROR_GEOMETRY \<equiv> 0x100"
abbreviation (input) BIOSDISK_FLAG_LBA_EXTENSION :: nat where "BIOSDISK_FLAG_LBA_EXTENSION \<equiv> 1"
abbreviation (input) BIOSDISK_FLAG_CDROM :: nat where "BIOSDISK_FLAG_CDROM \<equiv> 2"
abbreviation (input) SECTOR_SIZE :: nat where "SECTOR_SIZE \<equiv> 0x200"
abbreviation (input) WORD_RANGE :: nat where "WORD_RANGE \<equiv> 2 ^ 32"

text \<open>The transfer by cylinder, head and sector, the \<open>else\<close> branch.\<close>

definition biosdisk_chs :: "'w firmware \<Rightarrow> int \<Rightarrow> int \<Rightarrow> geometry \<Rightarrow> int \<Rightarrow> int \<Rightarrow> int \<Rightarrow> mem \<times> 'w \<Rightarrow> (int \<times> mem \<times> 'w) option" where
  "biosdisk_chs fw rw drive g sector nsec segment m =
     (if sectors g = 0 \<or> heads g = 0 then None
      else let n = nat (sector mod 2 ^ 32);
               sector_offset = n mod sectors g + 1;
               head = n div sectors g;
               head_offset = head mod heads g;
               cylinder_offset = head div heads g
           in Some (if cylinder_offset \<ge> cylinders g then (BIOSDISK_ERROR_GEOMETRY, m)
                    else biosdisk_standard fw (rw + 0x02) drive cylinder_offset head_offset sector_offset nsec segment m))"

definition chs_size :: "geometry \<Rightarrow> nat" where
  "chs_size g = cylinders g * heads g * sectors g mod WORD_RANGE"

text \<open>The call of itself after a failed extended transfer finds the flag cleared and so goes to the other branch.\<close>

definition biosdisk :: "'w firmware \<Rightarrow> int \<Rightarrow> int \<Rightarrow> geometry \<Rightarrow> int \<Rightarrow> int \<Rightarrow> int \<Rightarrow> mem \<times> 'w \<Rightarrow>
    (int \<times> geometry \<times> mem \<times> 'w) option" where
  "biosdisk fw rw drive g sector nsec segment m =
     (if geo_flags g AND BIOSDISK_FLAG_LBA_EXTENSION \<noteq> 0 then
        (let dap = \<lparr>dap_blocks = word_of_int nsec, dap_buffer = push_bit 16 (word_of_int segment), dap_block = word_of_int sector\<rparr>;
             (err, m) = int13_transfer fw ((rw + 0x42) * 256) drive dap m
         in if err \<noteq> 0 then
              (if geo_flags g AND BIOSDISK_FLAG_CDROM \<noteq> 0 then Some (err, g, m)
               else let g = g\<lparr>geo_flags := geo_flags g - BIOSDISK_FLAG_LBA_EXTENSION, total_sectors := chs_size g\<rparr>
                    in map_option (\<lambda>(err, m). (err, g, m)) (biosdisk_chs fw rw drive g sector nsec segment m))
            else Some (0, g, m))
      else map_option (\<lambda>(err, m). (err, g, m)) (biosdisk_chs fw rw drive g sector nsec segment m))"

definition get_cdinfo :: "'w firmware \<Rightarrow> int \<Rightarrow> geometry \<Rightarrow> 'w \<Rightarrow> int \<times> geometry" where
  "get_cdinfo fw drive g w =
     (let (err, cd) = int13_cdrom fw drive w
      in if err = 0 \<and> int (unat (cd_drive_no cd)) = drive then
           (if cd_media_type cd AND 0x0F = 0 then
              (1, \<lparr>cylinders = 0, heads = 1, sectors = 15, total_sectors = 0x7FFFFFFF, sector_size = 2048,
                   geo_flags = BIOSDISK_FLAG_LBA_EXTENSION + BIOSDISK_FLAG_CDROM\<rparr>)
            else
              (let g = g\<lparr>cylinders := unat (cd_cylinders cd) + 4 * unat (cd_sectors cd AND 0xC0), heads := unat (cd_heads cd),
                         sectors := unat (cd_sectors cd AND 0x3F), sector_size := SECTOR_SIZE\<rparr>
               in (- 1, g\<lparr>total_sectors := chs_size g\<rparr>)))
         else (0, g))"

text \<open>What the extended call says of the number of sectors, zero when it says nothing.\<close>

definition extended_total :: "'w firmware \<Rightarrow> int \<Rightarrow> geometry \<Rightarrow> 'w \<Rightarrow> nat \<times> geometry" where
  "extended_total fw drive g w =
     (let (err, drp) = int13_parameters fw drive w
      in if err = 0
         then (if drp_total_sectors drp \<noteq> 0 then drp_total_sectors drp mod WORD_RANGE
               else drp_cylinders drp * drp_heads drp * drp_sectors drp mod WORD_RANGE,
               g\<lparr>geo_flags := BIOSDISK_FLAG_LBA_EXTENSION\<rparr>)
         else (0, g))"

definition get_diskinfo :: "'w firmware \<Rightarrow> int \<Rightarrow> geometry \<Rightarrow> 'w \<Rightarrow> int \<times> geometry" where
  "get_diskinfo fw drive g w =
     (let g = g\<lparr>geo_flags := 0\<rparr>
      in if drive AND 0x80 \<noteq> 0 then
           (let version = check_int13_extensions fw drive w;
                (cd, g) = (if drive \<ge> 0x88 \<or> version \<noteq> 0 then get_cdinfo fw drive g w else (0, g))
            in if cd \<noteq> 0 then (0, g)
               else let (total, g) = (if version \<noteq> 0 then extended_total fw drive g w else (0, g));
                        (err, c, h, k) = get_diskinfo_standard fw drive w;
                        g = g\<lparr>cylinders := c, heads := h, sectors := k\<rparr>
                    in if err \<noteq> 0 then (err, g)
                       else (0, g\<lparr>total_sectors := (if total = 0 then chs_size g else total), sector_size := SECTOR_SIZE\<rparr>))
         else (let (err, c, h, k) = get_diskinfo_standard fw drive w;
                   g = g\<lparr>cylinders := c, heads := h, sectors := k\<rparr>
               in if err \<noteq> 0 then (err, g) else (0, g\<lparr>total_sectors := chs_size g, sector_size := SECTOR_SIZE\<rparr>)))"

section \<open>Addresses\<close>

lemma chs_decomposition: "(n div s div h * h + n div s mod h) * s + n mod s = (n :: nat)"
  by simp

lemma chs_bounds: "0 < s \<Longrightarrow> 0 < h \<Longrightarrow> n div s div h < c \<longleftrightarrow> n < c * h * (s :: nat)"
  by (metis div_less_iff_less_mult mult.assoc mult.commute nat_0_less_mult_iff)

lemma biosdisk_chs_triple:
  assumes "0 < sectors g" "0 < heads g" "0 \<le> sector" "sector < 2 ^ 31"
  shows "\<exists>c h k. int ((c * heads g + h) * sectors g + k) = sector + 1 \<and> h < heads g \<and> 1 \<le> k \<and> k \<le> sectors g \<and>
    (c < cylinders g \<longleftrightarrow> sector < int (cylinders g * heads g * sectors g)) \<and>
    biosdisk_chs fw rw drive g sector nsec segment m =
      Some (if sector < int (cylinders g * heads g * sectors g)
            then biosdisk_standard fw (rw + 2) drive c h k nsec segment m else (BIOSDISK_ERROR_GEOMETRY, m))"
proof -
  define n where "n = nat sector"
  have n: "nat (sector mod 4294967296) = n" "int n = sector" using assms(3,4) by (simp_all add: n_def)
  define c h k where "c = n div sectors g div heads g" "h = n div sectors g mod heads g" "k = n mod sectors g + 1"
  have less: "c < cylinders g \<longleftrightarrow> n < cylinders g * heads g * sectors g"
    unfolding c_h_k_def by (rule chs_bounds [OF assms(1,2)])
  have iff: "sector < int (cylinders g * heads g * sectors g) \<longleftrightarrow> n < cylinders g * heads g * sectors g"
    unfolding n(2) [symmetric] by (rule of_nat_less_iff)
  have address: "int ((c * heads g + h) * sectors g + k) = sector + 1"
    using chs_decomposition [of n "sectors g" "heads g"] n(2) by (simp add: c_h_k_def flip: of_nat_add of_nat_mult)
  have call: "biosdisk_chs fw rw drive g sector nsec segment m =
      Some (if n < cylinders g * heads g * sectors g
            then biosdisk_standard fw (rw + 2) drive c h k nsec segment m else (BIOSDISK_ERROR_GEOMETRY, m))"
    using assms(1,2) by (simp add: biosdisk_chs_def n(1) Let_def c_h_k_def not_le flip: less)
  have range: "h < heads g" "1 \<le> k" "k \<le> sectors g" using assms(1,2) by (simp_all add: c_h_k_def Suc_leI)
  show ?thesis unfolding iff less [symmetric]
    by (rule exI [of _ c], rule exI [of _ h], rule exI [of _ k]) (simp only: address call range less simp_thms)
qed

text \<open>
  Transfer by cylinder, head and sector: for a disk with a sensible geometry and a sector number of 0 or more,
  \<open>biosdisk\<close> in this mode reports the geometry error exactly when the sector is not on the disk, and otherwise asks the BIOS
  for the one triple that is inside the geometry and stands for that sector, with the sector counted from one.
\<close>

theorem biosdisk_chs_address:
  assumes "0 < sectors g" "0 < heads g" "0 \<le> sector" "sector < 2 ^ 31"
  shows "\<exists>c h k. int ((c * heads g + h) * sectors g + k) = sector + 1 \<and> h < heads g \<and> 1 \<le> k \<and> k \<le> sectors g \<and>
    (c < cylinders g \<longleftrightarrow> sector < int (cylinders g * heads g * sectors g)) \<and>
    biosdisk_chs fw rw drive g sector nsec segment m =
      Some (if sector < int (cylinders g * heads g * sectors g)
            then biosdisk_standard fw (rw + 2) drive c h k nsec segment m else (BIOSDISK_ERROR_GEOMETRY, m))"
  by (rule biosdisk_chs_triple [OF assms])

section \<open>What the disk layer needs\<close>

text \<open>A transfer to memory: \<open>n\<close> bytes at \<open>p\<close>.\<close>

definition load_bytes :: "u32 \<Rightarrow> nat \<Rightarrow> (nat \<Rightarrow> u8) \<Rightarrow> mem \<Rightarrow> mem" where
  "load_bytes p n f m = (\<lambda>a. if in_region a p n then f (unat (a - p)) else m a)"

abbreviation (input) BUFFERLEN :: nat where "BUFFERLEN \<equiv> 0x7e00"

text \<open>
  The contract: \<open>present\<close> drives have a geometry that \<open>get_diskinfo\<close> finds whatever was in the structure before, and
  with it \<open>biosdisk\<close> transfers the sectors on the disk; \<open>content\<close> is a drive's bytes.
\<close>

locale sector_device =
  fixes fw :: "'w firmware"
    and geom :: "'w \<Rightarrow> int \<Rightarrow> geometry"
    and present :: "'w \<Rightarrow> int \<Rightarrow> bool"
    and content :: "'w \<Rightarrow> int \<Rightarrow> nat \<Rightarrow> u8"
  assumes geom_ok: "present w d \<Longrightarrow> 0 < sectors (geom w d) \<and> sectors (geom w d) \<le> 63 \<and> sector_size (geom w d) = SECTOR_SIZE \<and>
      total_sectors (geom w d) < 2 ^ 31"
    and drive_info: "present w d \<Longrightarrow> get_diskinfo fw d g w = (0, geom w d)"
    and sector_read: "present w d \<Longrightarrow> 0 < n \<Longrightarrow> n \<le> 63 \<Longrightarrow> k + n \<le> total_sectors (geom w d) \<Longrightarrow>
      0 \<le> segment \<Longrightarrow> segment < 65536 \<Longrightarrow>
      biosdisk fw BIOSDISK_READ d (geom w d) (int k) (int n) segment (m, w) =
        Some (0, geom w d, load_bytes (word_of_int (segment * 16)) (n * SECTOR_SIZE) (\<lambda>i. content w d (k * SECTOR_SIZE + i)) m, w)"
    and sector_write: "present w d \<Longrightarrow> k < total_sectors (geom w d) \<Longrightarrow> 0 \<le> segment \<Longrightarrow> segment < 65536 \<Longrightarrow>
      \<exists>w'. biosdisk fw BIOSDISK_WRITE d (geom w d) (int k) 1 segment (m, w) = Some (0, geom w d, m, w') \<and>
        geom w' = geom w \<and> present w' = present w \<and>
        content w' = (content w)(d := \<lambda>i. if i div SECTOR_SIZE = k
                                          then m (word_of_int (segment * 16) + of_nat (i mod SECTOR_SIZE)) else content w d i)"

text \<open>
  A BIOS that meets the contract: each drive is an image, hard disks with or without the extensions. The state of the disks
  is their bytes.
\<close>

record image =
  im_cylinders :: nat
  im_heads :: nat
  im_sectors :: nat
  im_total :: nat
  im_lba :: bool

type_synonym images = "int \<Rightarrow> image option"

type_synonym bytes = "int \<Rightarrow> nat \<Rightarrow> u8"

definition image_transfer :: "image \<Rightarrow> bool \<Rightarrow> int \<Rightarrow> nat \<Rightarrow> nat \<Rightarrow> u32 \<Rightarrow> mem \<times> bytes \<Rightarrow> int \<times> mem \<times> bytes" where
  "image_transfer im writing d k n p = (\<lambda>(m, w).
     if k + n > im_total im then (4, m, w)
     else if writing then (0, m, w(d := \<lambda>i. if k * SECTOR_SIZE \<le> i \<and> i < (k + n) * SECTOR_SIZE
                                             then m (p + of_nat (i - k * SECTOR_SIZE)) else w d i))
     else (0, load_bytes p (n * SECTOR_SIZE) (\<lambda>i. w d (k * SECTOR_SIZE + i)) m, w))"

definition image_bios :: "images \<Rightarrow> bytes firmware" where
  "image_bios im = \<lparr>
     int13_transfer = (\<lambda>ax d dap m. case im d of None \<Rightarrow> (1, m)
       | Some x \<Rightarrow> if im_lba x then image_transfer x (ax = 0x4300) d (unat (dap_block dap)) (unat (dap_blocks dap))
                     (push_bit 4 (drop_bit 16 (dap_buffer dap)) + (dap_buffer dap AND 0xFFFF)) m else (1, m)),
     int13_cdrom = (\<lambda>d w. (1, \<lparr>cd_media_type = 0, cd_drive_no = 0, cd_cylinders = 0, cd_sectors = 0, cd_heads = 0\<rparr>)),
     int13_parameters = (\<lambda>d w. case im d of None \<Rightarrow> (1, \<lparr>drp_cylinders = 0, drp_heads = 0, drp_sectors = 0, drp_total_sectors = 0\<rparr>)
       | Some x \<Rightarrow> (0, \<lparr>drp_cylinders = im_cylinders x, drp_heads = im_heads x, drp_sectors = im_sectors x, drp_total_sectors = im_total x\<rparr>)),
     biosdisk_standard = (\<lambda>ah d c h k n segment m. case im d of None \<Rightarrow> (1, m)
       | Some x \<Rightarrow> image_transfer x (ah = 3) d ((c * im_heads x + h) * im_sectors x + k - 1) (nat n) (word_of_int (segment * 16)) m),
     check_int13_extensions = (\<lambda>d w. case im d of None \<Rightarrow> 0 | Some x \<Rightarrow> if im_lba x then 1 else 0),
     get_diskinfo_standard = (\<lambda>d w. case im d of None \<Rightarrow> (1, 1, 1, 0) | Some x \<Rightarrow> (0, im_cylinders x, im_heads x, im_sectors x))\<rparr>"

definition image_ok :: "image \<Rightarrow> bool" where
  "image_ok x \<longleftrightarrow> 0 < im_sectors x \<and> im_sectors x \<le> 63 \<and> 0 < im_heads x \<and> 0 < im_total x \<and> im_total x < 2 ^ 31 \<and>
     im_cylinders x * im_heads x * im_sectors x < 2 ^ 31 \<and>
     (\<not> im_lba x \<longrightarrow> im_total x = im_cylinders x * im_heads x * im_sectors x)"

definition image_present :: "images \<Rightarrow> int \<Rightarrow> bool" where
  "image_present im d \<longleftrightarrow> 0x80 \<le> d \<and> d < 0x88 \<and> (case im d of None \<Rightarrow> False | Some x \<Rightarrow> image_ok x)"

definition image_geom :: "images \<Rightarrow> int \<Rightarrow> geometry" where
  "image_geom im d = (case im d of
     None \<Rightarrow> \<lparr>cylinders = 0, heads = 0, sectors = 0, total_sectors = 0, sector_size = 0, geo_flags = 0\<rparr>
   | Some x \<Rightarrow> \<lparr>cylinders = im_cylinders x, heads = im_heads x, sectors = im_sectors x, total_sectors = im_total x,
               sector_size = SECTOR_SIZE, geo_flags = (if im_lba x then 1 else 0)\<rparr>)"

lemma drive_bit: "0x80 \<le> d \<Longrightarrow> d < 0x88 \<Longrightarrow> d AND 0x80 \<noteq> (0 :: int)"
proof -
  assume "0x80 \<le> d" "d < 0x88"
  then have "d \<in> set [0x80..0x87]" by auto
  moreover have "\<forall>d\<in>set [0x80..0x87]. d AND 0x80 \<noteq> (0 :: int)" by code_simp
  ultimately show ?thesis by blast
qed

lemma image_info:
  assumes "image_present im d"
  shows "get_diskinfo (image_bios im) d g w = (0, image_geom im d)"
proof -
  obtain x where x: "im d = Some x" "image_ok x" "0x80 \<le> d" "d < 0x88" using assms by (auto simp: image_present_def split: option.splits)
  have "chs_size h = im_total x" if "\<not> im_lba x" "cylinders h = im_cylinders x" "heads h = im_heads x" "sectors h = im_sectors x" for h
    using that x(2) by (simp add: chs_size_def image_ok_def)
  then show ?thesis using x drive_bit [OF x(3,4)]
    by (auto simp: get_diskinfo_def Let_def image_bios_def get_cdinfo_def extended_total_def image_geom_def image_ok_def)
qed

lemma image_transfer_chs:
  assumes "image_present im d" "im d = Some x" "k + n \<le> im_total x" "\<not> im_lba x" "0 < n"
  shows "biosdisk (image_bios im) rw d (image_geom im d) (int k) (int n) segment m =
    Some (let (err, m) = image_transfer x (rw + 2 = 3) d k n (word_of_int (segment * 16)) m in (err, image_geom im d, m))"
proof -
  let ?g = "image_geom im d"
  have x: "image_ok x" using assms(1,2) by (simp add: image_present_def)
  have g: "sectors ?g = im_sectors x" "heads ?g = im_heads x" "cylinders ?g = im_cylinders x" "geo_flags ?g = 0"
    using assms(2,4) by (simp_all add: image_geom_def)
  have k: "int k < 2 ^ 31" "k < im_cylinders x * im_heads x * im_sectors x" using x assms(3-5) by (auto simp: image_ok_def)
  obtain c h j where a: "int ((c * heads ?g + h) * sectors ?g + j) = int k + 1"
    "biosdisk_chs (image_bios im) rw d ?g (int k) (int n) segment m =
      Some (if int k < int (cylinders ?g * heads ?g * sectors ?g)
            then biosdisk_standard (image_bios im) (rw + 2) d c h j (int n) segment m else (BIOSDISK_ERROR_GEOMETRY, m))"
    using biosdisk_chs_triple [of ?g "int k" "image_bios im" rw d "int n" segment m] k(1) x g(1,2) unfolding image_ok_def by auto
  have j: "(c * im_heads x + h) * im_sectors x + j - 1 = k" 
  proof -
    have "(c * im_heads x + h) * im_sectors x + j = k + 1" using a(1) unfolding g(1,2) by (simp only: flip: of_nat_eq_iff)
    then show ?thesis by simp
  qed
  have "biosdisk_chs (image_bios im) rw d ?g (int k) (int n) segment m =
      Some (image_transfer x (rw + 2 = 3) d k n (word_of_int (segment * 16)) m)"
    unfolding a(2) using g(1-3) k(2) j assms(2) by (simp add: image_bios_def flip: of_nat_mult)
  then show ?thesis using g(4) by (simp add: biosdisk_def split_beta)
qed

lemma dap_address: "0 \<le> segment \<Longrightarrow> segment < 65536 \<Longrightarrow>
    push_bit 4 (drop_bit 16 (push_bit 16 (word_of_int segment :: u32))) + (push_bit 16 (word_of_int segment) AND 0xFFFF) = word_of_int (segment * 16)"
proof -
  assume s: "0 \<le> segment" "segment < 65536"
  define w where "w = (word_of_int segment :: u32)"
  have "unat w < 65536" using s by (simp add: w_def unat_word_of_int_u32)
  then have hi: "\<not> bit w j" if "16 \<le> j" for j
    using that unat_less_bits [of w 16] by simp
  have "drop_bit 16 (push_bit 16 w) = w" using hi by (intro bit_word_eqI) (force simp: bit_simps not_le [symmetric])
  moreover have "push_bit 16 w AND 0xFFFF = 0" unfolding and_FFFF by (intro bit_word_eqI) (auto simp: bit_simps)
  moreover have "push_bit 4 w = word_of_int (segment * 16)" by (simp add: w_def push_bit_eq_mult)
  ultimately show ?thesis unfolding w_def by simp
qed

lemma image_transfer_lba:
  assumes "image_present im d" "im d = Some x" "k + n \<le> im_total x" "im_lba x" "n \<le> 63" "0 \<le> segment" "segment < 65536"
    "rw = 0 \<or> rw = 1"
  shows "biosdisk (image_bios im) rw d (image_geom im d) (int k) (int n) segment m =
    Some (let (err, m) = image_transfer x (rw = 1) d k n (word_of_int (segment * 16)) m in (err, image_geom im d, m))"
proof -
  have x: "image_ok x" using assms(1,2) by (simp add: image_present_def)
  let ?dap = "\<lparr>dap_blocks = word_of_int (int n), dap_buffer = push_bit 16 (word_of_int segment), dap_block = word_of_int (int k)\<rparr>"
  have k: "unat (word_of_int (int k) :: u64) = k" "unat (word_of_int (int n) :: u16) = n"
    using x assms(3,5) by (simp_all add: image_ok_def unat_of_nat)
  have call: "int13_transfer (image_bios im) ((rw + 0x42) * 256) d ?dap m =
      image_transfer x (rw = 1) d k n (word_of_int (segment * 16)) m"
    using assms(2,4,8) k dap_address [OF assms(6,7)] by (auto simp: image_bios_def)
  have "fst (image_transfer x (rw = 1) d k n (word_of_int (segment * 16)) m) = 0"
    using assms(3) by (simp add: image_transfer_def split_beta)
  moreover have "geo_flags (image_geom im d) = 1" using assms(2,4) by (simp add: image_geom_def)
  ultimately show ?thesis unfolding biosdisk_def Let_def call by (simp add: split_beta)
qed

lemma image_biosdisk:
  assumes "image_present im d" "im d = Some x" "k + n \<le> im_total x" "0 < n" "n \<le> 63" "0 \<le> segment" "segment < 65536" "rw = 0 \<or> rw = 1"
  shows "biosdisk (image_bios im) rw d (image_geom im d) (int k) (int n) segment m =
    Some (let (err, m) = image_transfer x (rw = 1) d k n (word_of_int (segment * 16)) m in (err, image_geom im d, m))"
proof (cases "im_lba x")
  case True
  then show ?thesis using image_transfer_lba [OF assms(1-3) True assms(5-8)] by blast
next
  case False
  have "(rw + 2 = 3) = (rw = 1)" by auto
  then show ?thesis using image_transfer_chs [OF assms(1-3) False assms(4), of rw] by simp
qed

interpretation image_disk: sector_device "image_bios im" "\<lambda>w. image_geom im" "\<lambda>w. image_present im" "\<lambda>w. w"
proof
  fix w :: bytes and d :: int
  assume p: "image_present im d"
  then obtain x where x: "im d = Some x" "image_ok x" by (auto simp: image_present_def split: option.splits)
  show "0 < sectors (image_geom im d) \<and> sectors (image_geom im d) \<le> 63 \<and> sector_size (image_geom im d) = SECTOR_SIZE \<and>
      total_sectors (image_geom im d) < 2 ^ 31"
    using x by (simp add: image_geom_def image_ok_def)
  show "get_diskinfo (image_bios im) d g w = (0, image_geom im d)" for g by (rule image_info [OF p])
  have total: "total_sectors (image_geom im d) = im_total x" using x(1) by (simp add: image_geom_def)
  show "biosdisk (image_bios im) BIOSDISK_READ d (image_geom im d) (int k) (int n) segment (m, w) =
      Some (0, image_geom im d, load_bytes (word_of_int (segment * 16)) (n * SECTOR_SIZE) (\<lambda>i. w d (k * SECTOR_SIZE + i)) m, w)"
    if "0 < n" "n \<le> 63" "k + n \<le> total_sectors (image_geom im d)" "0 \<le> segment" "segment < 65536" for n k segment m
    using image_biosdisk [OF p x(1), of k n segment 0 "(m, w)"] that total by (simp add: image_transfer_def)
  show "\<exists>w'. biosdisk (image_bios im) BIOSDISK_WRITE d (image_geom im d) (int k) 1 segment (m, w) = Some (0, image_geom im d, m, w') \<and>
      image_geom im = image_geom im \<and> image_present im = image_present im \<and>
      w' = w(d := \<lambda>i. if i div SECTOR_SIZE = k then m (word_of_int (segment * 16) + of_nat (i mod SECTOR_SIZE)) else w d i)"
    if "k < total_sectors (image_geom im d)" "0 \<le> segment" "segment < 65536" for k segment m
  proof -
    have range: "(k * SECTOR_SIZE \<le> i \<and> i < (k + 1) * SECTOR_SIZE) = (i div SECTOR_SIZE = k)" for i by auto
    have off: "i - k * SECTOR_SIZE = i mod SECTOR_SIZE" if "i div SECTOR_SIZE = k" for i
      using that by (simp add: modulo_nat_def)
    have "biosdisk (image_bios im) BIOSDISK_WRITE d (image_geom im d) (int k) (int 1) segment (m, w) =
      Some (let (err, m) = image_transfer x (BIOSDISK_WRITE = 1) d k 1 (word_of_int (segment * 16)) (m, w) in (err, image_geom im d, m))"
      by (rule image_biosdisk [OF p x(1)]) (use that total in auto)
    moreover have "image_transfer x True d k 1 q (m, w) =
        (0, m, w(d := \<lambda>i. if i div SECTOR_SIZE = k then m (q + of_nat (i mod SECTOR_SIZE)) else w d i))" for q
      using that total off unfolding image_transfer_def prod.case range by (auto simp: fun_eq_iff)
    ultimately show ?thesis by (simp cong: if_cong)
  qed
qed

text \<open>Two drives to evaluate on: a floppy-sized hard disk without extensions, and one with them.\<close>

definition two_disks :: images where
  "two_disks d = (if d = 0x80 then Some \<lparr>im_cylinders = 80, im_heads = 2, im_sectors = 18, im_total = 2880, im_lba = False\<rparr>
                  else if d = 0x81 then Some \<lparr>im_cylinders = 2, im_heads = 2, im_sectors = 63, im_total = 630, im_lba = True\<rparr>
                  else None)"

theorem biosdisk_chs_address_witness:
  "\<forall>m. \<exists>c h k. int ((c * 2 + h) * 18 + k) = 1001 \<and> h < 2 \<and> 1 \<le> k \<and> k \<le> 18 \<and>
    biosdisk_chs (image_bios two_disks) 0 0x80 (image_geom two_disks 0x80) 1000 1 0x7000 m =
      Some (biosdisk_standard (image_bios two_disks) 2 0x80 c h k 1 0x7000 m)"
proof
  fix m :: "mem \<times> bytes"
  have g: "sectors (image_geom two_disks 0x80) = 18" "heads (image_geom two_disks 0x80) = 2" "cylinders (image_geom two_disks 0x80) = 80"
    by (simp_all add: image_geom_def two_disks_def)
  show "\<exists>c h k. int ((c * 2 + h) * 18 + k) = 1001 \<and> h < 2 \<and> 1 \<le> k \<and> k \<le> 18 \<and>
    biosdisk_chs (image_bios two_disks) 0 0x80 (image_geom two_disks 0x80) 1000 1 0x7000 m =
      Some (biosdisk_standard (image_bios two_disks) 2 0x80 c h k 1 0x7000 m)"
    using biosdisk_chs_address [of "image_geom two_disks 0x80" 1000 "image_bios two_disks" 0 "0x80" 1 "0x7000" m] unfolding g by auto
qed

end
