(* ===== verification/GRUB_Disk.thy ===== *)
theory GRUB_Disk
  imports GRUB_Bios "HOL-Library.Monad_Syntax"
begin

text \<open>
  Reading and writing disks, from \<^verbatim>\<open>src/legacy/SZoS/grub-0.97/stage2/disk_io.c\<close>: \<open>rawread\<close> with its track buffer,
  \<open>rawwrite\<close>, and \<open>devread\<close> and \<open>devwrite\<close>, which work relative to a partition. The calls of \<open>disk_read_func\<close> are
  recorded in \<open>hook_calls\<close>. A result \<^const>\<open>None\<close> means a division by zero or a loop that does not end.
\<close>

section \<open>Definitions\<close>

record 'w disk = grub +
  world :: 'w
  buf_drive :: int
  buf_track :: int
  buf_geom :: geometry
  disk_read_func :: bool
  hook_calls :: "(int \<times> int \<times> int) list"
  current_drive :: int
  part_start :: nat
  part_length :: nat

abbreviation (input) BUFFERADDR :: u32 where "BUFFERADDR \<equiv> 0x70000"
abbreviation (input) BUFFERSEG :: int where "BUFFERSEG \<equiv> 0x7000"
abbreviation (input) SCRATCHADDR :: u32 where "SCRATCHADDR \<equiv> 0x77e00"
abbreviation (input) SCRATCHSEG :: int where "SCRATCHSEG \<equiv> 0x77e0"
abbreviation (input) PC_SLICE_TYPE_EZD :: u8 where "PC_SLICE_TYPE_EZD \<equiv> 0x55"

text \<open>\<open>bsfl\<close>: the place of the lowest bit set; for zero the result is undefined, and not used.\<close>

fun log2 :: "nat \<Rightarrow> nat" where
  "log2 n = (if n = 0 \<or> odd n then 0 else Suc (log2 (n div 2)))"

declare log2.simps [simp del]

text \<open>The offset of an entry of the partition table, and its type.\<close>

definition slice_at :: "nat \<Rightarrow> nat" where
  "slice_at i = 446 + i * 16"

definition slice_type_at :: "u32 \<Rightarrow> nat \<Rightarrow> mem \<Rightarrow> u8" where
  "slice_type_at p i m = m (p + of_nat (slice_at i + 4))"

definition ezd_mark :: "u32 \<Rightarrow> mem \<Rightarrow> bool" where
  "ezd_mark p m \<longleftrightarrow> slice_type_at p 0 m = PC_SLICE_TYPE_EZD \<or> slice_type_at p 1 m = PC_SLICE_TYPE_EZD \<or>
     slice_type_at p 2 m = PC_SLICE_TYPE_EZD \<or> slice_type_at p 3 m = PC_SLICE_TYPE_EZD"

text \<open>\<open>biosdisk\<close> on the static \<open>buf_geom\<close>.\<close>

definition disk_bios :: "'w firmware \<Rightarrow> int \<Rightarrow> int \<Rightarrow> int \<Rightarrow> int \<Rightarrow> int \<Rightarrow> ('w, 'e) disk_scheme \<Rightarrow> (int \<times> ('w, 'e) disk_scheme) option" where
  "disk_bios fw rw drive sector nsec segment s =
     map_option (\<lambda>(err, g, m, w). (err, s\<lparr>buf_geom := g, mem := m, world := w\<rparr>))
       (biosdisk fw rw drive (buf_geom s) sector nsec segment (mem s, world s))"

text \<open>The start of each round: the drive whose geometry and track are in the buffer.\<close>

definition select_drive :: "'w firmware \<Rightarrow> int \<Rightarrow> ('w, 'e) disk_scheme \<Rightarrow> bool \<times> ('w, 'e) disk_scheme" where
  "select_drive fw drive s =
     (if buf_drive s \<noteq> drive then
        (let (err, g) = get_diskinfo fw drive (buf_geom s) (world s); s = s\<lparr>buf_geom := g\<rparr>
         in if err \<noteq> 0 then (False, s\<lparr>errnum := ERR_NO_DISK\<rparr>) else (True, s\<lparr>buf_drive := drive, buf_track := - 1\<rparr>))
      else (True, s))"

definition sectors_per_vtrack :: "geometry \<Rightarrow> int" where
  "sectors_per_vtrack g =
     int (if sectors g * 2 ^ log2 (sector_size g) mod WORD_RANGE > BUFFERLEN then BUFFERLEN div 2 ^ log2 (sector_size g) else sectors g)"

text \<open>
  Filling the buffer: the whole track, or from the sector on to the end of the track when more than that is wanted. The first
  result is the sector of the buffer in which the data starts.
\<close>

definition fill_buffer :: "'w firmware \<Rightarrow> int \<Rightarrow> int \<Rightarrow> int \<Rightarrow> int \<Rightarrow> ('w, 'e) disk_scheme \<Rightarrow> (int \<times> ('w, 'e) disk_scheme) option" where
  "fill_buffer fw drive sector slen spv s =
     (let soff = sector mod spv;
          track = sector - soff;
          num_sect = spv - soff;
          (read_start, read_len, base) = (if slen > num_sect then (sector, num_sect, 0) else (track, spv, soff))
      in do {
        (err, s) \<leftarrow> disk_bios fw BIOSDISK_READ drive read_start read_len BUFFERSEG s;
        (base, s) \<leftarrow>
          (if err = 0 then Some (base, s\<lparr>buf_track := track\<rparr>)
           else if err = BIOSDISK_ERROR_GEOMETRY then Some (base, s\<lparr>buf_track := - 1, errnum := ERR_GEOM\<rparr>)
           else if slen > num_sect then Some (0, s\<lparr>buf_track := - 1, errnum := ERR_READ\<rparr>)
           else do {
             (err, s) \<leftarrow> disk_bios fw BIOSDISK_READ drive sector slen BUFFERSEG (s\<lparr>buf_track := - 1\<rparr>);
             Some (0, if err \<noteq> 0 then s\<lparr>errnum := ERR_READ\<rparr> else s)
           });
        if (buf_track s = 0 \<or> sector = 0) \<and> ezd_mark BUFFERADDR (mem s) then
          (if buf_track s = 0 \<or> slen \<ge> 2 then
             Some (base, snd (grub_memmove BUFFERADDR (BUFFERADDR + of_nat (sector_size (buf_geom s))) (of_nat (sector_size (buf_geom s))) s))
           else do {
             (err, s) \<leftarrow> disk_bios fw BIOSDISK_READ drive 1 1 BUFFERSEG s;
             Some (base, if err \<noteq> 0 then s\<lparr>errnum := ERR_READ\<rparr> else s)
           })
        else Some (base, s)
      })"

text \<open>The calls of \<open>disk_read_func\<close> for one round.\<close>

function later_calls :: "int \<Rightarrow> int \<Rightarrow> int \<Rightarrow> (int \<times> int \<times> int) list" where
  "later_calls sector n ss =
     (if ss > 0 \<and> n > ss then (sector, 0, ss) # later_calls (sector + 1) (n - ss) ss else [(sector, 0, n)])"
  by pat_completeness auto
termination by (relation "measure (\<lambda>(sector, n, ss). nat n)") auto

declare later_calls.simps [simp del]

definition read_calls :: "int \<Rightarrow> int \<Rightarrow> int \<Rightarrow> int \<Rightarrow> (int \<times> int \<times> int) list" where
  "read_calls sector off count ss =
     (let n = min (ss - off) count
      in (sector, off, n) # (if count - n > 0 then later_calls (sector + 1) (count - n) ss else []))"

partial_function (option) rawread_loop :: "'w firmware \<Rightarrow> int \<Rightarrow> int \<Rightarrow> int \<Rightarrow> int \<Rightarrow> u32 \<Rightarrow> ('w, 'e) disk_scheme \<Rightarrow> (int \<times> ('w, 'e) disk_scheme) option" where
  "rawread_loop fw drive sector off len buf s =
     (if len > 0 \<and> errnum s = ERR_NONE then
        (let (found, s) = select_drive fw drive s
         in if \<not> found then Some (0, s)
            else if sector < 0 \<or> sector \<ge> int (total_sectors (buf_geom s)) then Some (0, s\<lparr>errnum := ERR_GEOM\<rparr>)
            else (let ss = int (sector_size (buf_geom s));
                      bits = log2 (sector_size (buf_geom s));
                      slen = (off + len + ss - 1) div 2 ^ bits;
                      spv = sectors_per_vtrack (buf_geom s)
                  in if spv = 0 then None
                     else do {
                       (base, s) \<leftarrow> (if sector - sector mod spv \<noteq> buf_track s then fill_buffer fw drive sector slen spv s
                                     else Some (sector mod spv, s));
                       let num_sect = spv - sector mod spv;
                       let count = min len (num_sect * 2 ^ bits - off);
                       let s = (if disk_read_func s then s\<lparr>hook_calls := hook_calls s @ read_calls sector off count ss\<rparr> else s);
                       let s = snd (grub_memmove buf (BUFFERADDR + word_of_int (base * 2 ^ bits + off)) (word_of_int count) s);
                       rawread_loop fw drive (sector + num_sect) 0 (len - count) (buf + word_of_int count) s
                     }))
      else Some (if errnum s = ERR_NONE then 1 else 0, s))"

definition rawread :: "'w firmware \<Rightarrow> int \<Rightarrow> int \<Rightarrow> int \<Rightarrow> int \<Rightarrow> u32 \<Rightarrow> ('w, 'e) disk_scheme \<Rightarrow> (int \<times> ('w, 'e) disk_scheme) option" where
  "rawread fw drive sector off len buf s =
     (if len \<le> 0 then Some (1, s) else rawread_loop fw drive sector off len buf s)"

text \<open>
  The comparison with the length of the partition is unsigned, and so is the sum that makes the sector number of the disk.
\<close>

definition devread :: "'w firmware \<Rightarrow> int \<Rightarrow> int \<Rightarrow> int \<Rightarrow> u32 \<Rightarrow> ('w, 'e) disk_scheme \<Rightarrow> (int \<times> ('w, 'e) disk_scheme) option" where
  "devread fw sector off len buf s =
     (if sector < 0 \<or> (sector + (off + len - 1) div 512) mod 2 ^ 32 \<ge> int (part_length s)
      then Some (0, s\<lparr>errnum := ERR_OUTSIDE_PART\<rparr>)
      else rawread fw (current_drive s) (s32 (int (part_start s) + (sector + off div 512))) (off mod 512) len buf s)"

definition rawwrite :: "'w firmware \<Rightarrow> int \<Rightarrow> int \<Rightarrow> u32 \<Rightarrow> ('w, 'e) disk_scheme \<Rightarrow> (int \<times> ('w, 'e) disk_scheme) option" where
  "rawwrite fw drive sector buf s = do {
     (ok, sector, s) \<leftarrow> (if sector = 0 then do {
                           (err, s) \<leftarrow> disk_bios fw BIOSDISK_READ drive 0 1 SCRATCHSEG s;
                           Some (if err \<noteq> 0 then (False, sector, s\<lparr>errnum := ERR_WRITE\<rparr>)
                                 else (True, if ezd_mark SCRATCHADDR (mem s) then 1 else sector, s))
                         } else Some (True, sector, s));
     if \<not> ok then Some (0, s)
     else (let s = snd (grub_memmove SCRATCHADDR buf 512 s) in do {
       (err, s) \<leftarrow> disk_bios fw BIOSDISK_WRITE drive sector 1 SCRATCHSEG s;
       if err \<noteq> 0 then Some (0, s\<lparr>errnum := ERR_WRITE\<rparr>)
       else if sectors (buf_geom s) = 0 then None
       else Some (1, if (sector - sector mod int (sectors (buf_geom s))) = buf_track s then s\<lparr>buf_track := - 1\<rparr> else s)
     })
   }"

text \<open>The build that boots a machine, not the shell under an operating system.\<close>

fun devwrite_loop :: "'w firmware \<Rightarrow> int \<Rightarrow> nat \<Rightarrow> u32 \<Rightarrow> ('w, 'e) disk_scheme \<Rightarrow> (int \<times> ('w, 'e) disk_scheme) option" where
  "devwrite_loop fw sector 0 buf s = Some (1, s)"
| "devwrite_loop fw sector (Suc n) buf s = do {
     (ok, s) \<leftarrow> rawwrite fw (current_drive s) (s32 (int (part_start s) + sector)) buf s;
     if ok = 0 then Some (0, s) else devwrite_loop fw (sector + 1) n (buf + 512) s
   }"

definition devwrite :: "'w firmware \<Rightarrow> int \<Rightarrow> int \<Rightarrow> u32 \<Rightarrow> ('w, 'e) disk_scheme \<Rightarrow> (int \<times> ('w, 'e) disk_scheme) option" where
  "devwrite fw sector count buf s = devwrite_loop fw sector (nat count) buf s"

section \<open>The track buffer\<close>

text \<open>
  The invariant between calls: if a drive is selected, its geometry is the one stored, and if a track is marked as being
  in the buffer, then the buffer holds its bytes.
\<close>

definition buffer_holds :: "nat \<Rightarrow> (nat \<Rightarrow> u8) \<Rightarrow> int \<Rightarrow> mem \<Rightarrow> bool" where
  "buffer_holds n f track m \<longleftrightarrow> 0 \<le> track \<and> (\<forall>i<n * SECTOR_SIZE. m (BUFFERADDR + of_nat i) = f (nat track * SECTOR_SIZE + i))"

definition cached :: "('w \<Rightarrow> int \<Rightarrow> geometry) \<Rightarrow> ('w \<Rightarrow> int \<Rightarrow> bool) \<Rightarrow> ('w \<Rightarrow> int \<Rightarrow> nat \<Rightarrow> u8) \<Rightarrow> ('w, 'e) disk_scheme \<Rightarrow> bool" where
  "cached geom present content s \<longleftrightarrow> (present (world s) (buf_drive s) \<longrightarrow> buf_geom s = geom (world s) (buf_drive s) \<and>
     (buf_track s \<noteq> - 1 \<longrightarrow> buffer_holds (sectors (buf_geom s)) (content (world s) (buf_drive s)) (buf_track s) (mem s)))"

definition buffer_from :: "nat \<Rightarrow> (nat \<Rightarrow> u8) \<Rightarrow> nat \<Rightarrow> mem \<Rightarrow> bool" where
  "buffer_from n f p m \<longleftrightarrow> (\<forall>i<n. m (BUFFERADDR + of_nat i) = f (p + i))"

text \<open>A disk without the mark of the EZ-Drive boot manager in its first track.\<close>

definition no_ezd :: "nat \<Rightarrow> (nat \<Rightarrow> u8) \<Rightarrow> bool" where
  "no_ezd n f \<longleftrightarrow> (\<forall>k<n. \<forall>i<4. f (k * SECTOR_SIZE + slice_at i + 4) \<noteq> PC_SLICE_TYPE_EZD)"

text \<open>Memory that can take \<open>n\<close> bytes: every block of it passes the memory check, and it does not overlap the buffer.\<close>

definition target_ok :: "u32 \<Rightarrow> nat \<Rightarrow> ('w, 'e) disk_scheme \<Rightarrow> bool" where
  "target_ok buf n s \<longleftrightarrow> no_wrap buf n \<and> n < 2 ^ 31 \<and> (\<forall>i k. i + k \<le> n \<longrightarrow> fst (memcheck (buf + of_nat i) (of_nat k) s)) \<and>
     (\<forall>i<n. \<not> in_region (buf + of_nat i) BUFFERADDR BUFFERLEN)"

lemma log2_512 [simp]: "log2 512 = 9"
  by code_simp

lemma ezd_markI: "(\<And>i. i < 4 \<Longrightarrow> m (p + of_nat (slice_at i + 4)) \<noteq> PC_SLICE_TYPE_EZD) \<Longrightarrow> \<not> ezd_mark p m"
  by (simp add: ezd_mark_def slice_type_at_def)

lemma load_bytes_nth: "i < n \<Longrightarrow> n \<le> 2 ^ 31 \<Longrightarrow> load_bytes p n f m (p + of_nat i) = f i"
  by (simp add: load_bytes_def in_region_def unat_of_nat)

lemma load_bytes_outside: "\<not> in_region a p n \<Longrightarrow> load_bytes p n f m a = m a"
  by (simp add: load_bytes_def)

context sector_device
begin

lemma vtrack: "present w d \<Longrightarrow> sectors_per_vtrack (geom w d) = int (sectors (geom w d))"
  using geom_ok [of w d] by (simp add: sectors_per_vtrack_def)

lemma select_drive_ok:
  assumes "present (world s) d" "cached geom present content s"
  obtains t where "select_drive fw d s = (True, t)" "t = s\<lparr>buf_drive := d, buf_track := buf_track t, buf_geom := geom (world s) d\<rparr>"
    "cached geom present content t" "buf_track t = buf_track s \<or> buf_track t = - 1"
proof (cases "buf_drive s = d")
  case True
  then have "buf_geom s = geom (world s) d" using assms by (simp add: cached_def)
  with True have "s = s\<lparr>buf_drive := d, buf_track := buf_track s, buf_geom := geom (world s) d\<rparr>" by simp
  then show ?thesis using that [of s] True assms(2) by (simp add: select_drive_def)
next
  case False
  let ?t = "s\<lparr>buf_geom := geom (world s) d, buf_drive := d, buf_track := - 1\<rparr>"
  show ?thesis
    by (rule that [of ?t]) (use False assms(1) drive_info [OF assms(1)] in \<open>simp_all add: select_drive_def cached_def\<close>)
qed

text \<open>A transfer within the track of sector \<open>k\<close>.\<close>

lemma fill_buffer_ok:
  assumes "present (world s) d" "buf_geom s = geom (world s) d" "n = sectors (geom (world s) d)" "n dvd total_sectors (geom (world s) d)"
    "k < total_sectors (geom (world s) d)" "no_ezd n (content (world s) d)" "errnum s = ERR_NONE"
    "num = n - k mod n" "whole = (slen \<le> int num)" and T: "T = k - k mod n"
  shows "fill_buffer fw d (int k) slen (int n) s =
    Some (if whole then int (k mod n) else 0,
      s\<lparr>mem := load_bytes BUFFERADDR ((if whole then n else num) * SECTOR_SIZE)
          (\<lambda>i. content (world s) d ((if whole then T else k) * SECTOR_SIZE + i)) (mem s), buf_track := int T\<rparr>)"
proof -
  note g = geom_ok [OF assms(1)]
  have n: "0 < n" "n \<le> 63" using g assms(3) by simp_all
  obtain c where c: "total_sectors (geom (world s) d) = n * c" using assms(4) by blast
  have track: "T + n \<le> total_sectors (geom (world s) d)"
  proof -
    have "k div n < c" using assms(5) c n(1) by (simp add: less_mult_imp_div_less mult.commute)
    then have "n * (k div n) + n \<le> n * c" by (metis Suc_leI mult_Suc_right mult_le_mono2 add.commute)
    then show ?thesis using c by (simp add: T minus_mod_eq_mult_div)
  qed
  have mod: "k mod n < n" "k mod n \<le> k" using n(1) by simp_all
  have num: "0 < num" "num \<le> 63" "k + num = T + n" using mod n(2) assms(8) T by linarith+
  let ?start = "if whole then T else k"
  let ?len = "if whole then n else num"
  have len: "0 < ?len" "?len \<le> 63" "?start + ?len \<le> total_sectors (geom (world s) d)" using n num track by auto
  let ?m = "load_bytes BUFFERADDR (?len * SECTOR_SIZE) (\<lambda>i. content (world s) d (?start * SECTOR_SIZE + i)) (mem s)"
  have bios: "disk_bios fw BIOSDISK_READ d (int ?start) (int ?len) BUFFERSEG s = Some (0, s\<lparr>mem := ?m\<rparr>)"
    using sector_read [OF assms(1) len, of BUFFERSEG "mem s"] assms(2) unfolding disk_bios_def by simp
  have ints: "int k mod int n = int (k mod n)" "int k - int (k mod n) = int T" "int n - int (k mod n) = int num"
    using mod assms(8) T by (simp_all add: of_nat_mod of_nat_diff)
  have unmarked: "\<not> ezd_mark BUFFERADDR ?m" if "T = 0"
  proof (rule ezd_markI)
    fix i :: nat
    assume i: "i < 4"
    have start: "?start < n" using that mod T n(1) by auto
    have "slice_at i + 4 < 1 * SECTOR_SIZE" using i by (simp add: slice_at_def)
    also have "1 * SECTOR_SIZE \<le> ?len * SECTOR_SIZE" using len(1) by (intro mult_le_mono1) simp
    finally have "slice_at i + 4 < ?len * SECTOR_SIZE" .
    moreover have "?len * SECTOR_SIZE \<le> 63 * SECTOR_SIZE" using len(2) by (intro mult_le_mono1)
    ultimately have "?m (BUFFERADDR + of_nat (slice_at i + 4)) = content (world s) d (?start * SECTOR_SIZE + (slice_at i + 4))"
      by (intro load_bytes_nth) simp_all
    then show "?m (BUFFERADDR + of_nat (slice_at i + 4)) \<noteq> PC_SLICE_TYPE_EZD"
      using assms(6) start i unfolding no_ezd_def by (metis add.assoc)
  qed
  have first: "k \<noteq> 0" if "T \<noteq> 0" using that T by auto
  show ?thesis
  proof (cases whole)
    case True
    then have "\<not> slen > int num" using assms(9) by simp
    then show ?thesis using bios unmarked first True unfolding fill_buffer_def Let_def ints by (cases "T = 0") simp_all
  next
    case False
    then have "slen > int num" using assms(9) by simp
    then show ?thesis using bios unmarked first False unfolding fill_buffer_def Let_def ints by (cases "T = 0") simp_all
  qed
qed

text \<open>
  What one round leaves in the buffer: the bytes from sector \<open>k\<close> on, from sector \<open>base\<close> of the buffer, up to the end of
  the track, and the invariant if the round is the last one.
\<close>

lemma round_fills:
  assumes "present (world s) d" "buf_drive s = d" "buf_geom s = geom (world s) d" "n = sectors (geom (world s) d)"
    "n dvd total_sectors (geom (world s) d)" "k < total_sectors (geom (world s) d)" "no_ezd n (content (world s) d)" "errnum s = ERR_NONE"
    "num = n - k mod n" "T = k - k mod n" "buf_track s = int T \<Longrightarrow> cached geom present content s"
  obtains base t where
    "(if int k - int k mod int n \<noteq> buf_track s then fill_buffer fw d (int k) slen (int n) s else Some (int k mod int n, s)) = Some (int base, t)"
    "t = s\<lparr>mem := mem t, buf_track := int T\<rparr>"
    "\<forall>a. \<not> in_region a BUFFERADDR BUFFERLEN \<longrightarrow> mem t a = mem s a" "base + num \<le> 63"
    "\<forall>i<num * SECTOR_SIZE. mem t (BUFFERADDR + of_nat (base * SECTOR_SIZE + i)) = content (world s) d (k * SECTOR_SIZE + i)"
    "slen \<le> int num \<longrightarrow> cached geom present content t" "slen > int num \<and> buf_track s \<noteq> int T \<longrightarrow> base = 0"
proof -
  note g = geom_ok [OF assms(1)]
  have n: "0 < n" "n \<le> 63" using g assms(4) by simp_all
  have mod: "k mod n < n" "k mod n \<le> k" using n(1) by simp_all
  have num: "k mod n + num = n" "num \<le> 63" using mod n assms(9) by linarith+
  have ints: "int k mod int n = int (k mod n)" "int k - int (k mod n) = int T"
    using mod by (simp_all add: of_nat_mod of_nat_diff assms(10))
  have track: "T * SECTOR_SIZE + (k mod n * SECTOR_SIZE + i) = k * SECTOR_SIZE + i" for i
    using mod(2) by (simp add: assms(10) diff_mult_distrib)
  show ?thesis
  proof (cases "buf_track s = int T")
    case True
    then have c: "buffer_holds n (content (world s) d) (int T) (mem s)" "cached geom present content s"
      using assms(1-4,11) by (simp_all add: cached_def)
    show ?thesis
    proof (rule that [of "k mod n" s], goal_cases)
      case 5
      have "mem s (BUFFERADDR + of_nat (k mod n * SECTOR_SIZE + i)) = content (world s) d (k * SECTOR_SIZE + i)" if "i < num * SECTOR_SIZE" for i
      proof -
      have "k mod n * SECTOR_SIZE + i < (k mod n + num) * SECTOR_SIZE" using that by (simp add: add_mult_distrib)
      then have "k mod n * SECTOR_SIZE + i < n * SECTOR_SIZE" unfolding num(1) .
      then show ?thesis
        using c(1) track [of i] unfolding buffer_holds_def nat_int by metis
      qed
      then show ?case by blast
    qed (use True ints num n c(2) in simp_all)
  next
    case False
    let ?whole = "slen \<le> int num"
    let ?start = "if ?whole then T else k"
    let ?len = "if ?whole then n else num"
    let ?base = "if ?whole then k mod n else 0"
    let ?f = "\<lambda>i. content (world s) d (?start * SECTOR_SIZE + i)"
    define t where "t = s\<lparr>mem := load_bytes BUFFERADDR (?len * SECTOR_SIZE) ?f (mem s), buf_track := int T\<rparr>"
    have len: "?len * SECTOR_SIZE \<le> BUFFERLEN" "?len * SECTOR_SIZE \<le> 2 ^ 31" using n num by auto
    have base: "?base + num = ?len" using num by auto
    have data: "mem t (BUFFERADDR + of_nat (?base * SECTOR_SIZE + i)) = content (world s) d (k * SECTOR_SIZE + i)" if "i < num * SECTOR_SIZE" for i
    proof -
      have "?base * SECTOR_SIZE + i < ?len * SECTOR_SIZE" using that unfolding base [symmetric] add_mult_distrib by simp
      from load_bytes_nth [OF this len(2), of BUFFERADDR ?f "mem s"]
      have "mem t (BUFFERADDR + of_nat (?base * SECTOR_SIZE + i)) = content (world s) d (?start * SECTOR_SIZE + (?base * SECTOR_SIZE + i))"
        by (simp add: t_def)
      also have "?start * SECTOR_SIZE + (?base * SECTOR_SIZE + i) = k * SECTOR_SIZE + i"
        using track [of i] by (cases ?whole) (simp_all only: if_True if_False mult_zero_left add_0)
      finally show ?thesis .
    qed
    have fill: "fill_buffer fw d (int k) slen (int n) s = Some (int ?base, t)"
      using fill_buffer_ok [OF assms(1,3-9) refl assms(10), of slen] unfolding t_def by simp
    have "cached geom present content t" if ?whole
      using that assms(1-4) load_bytes_nth [OF _ len(2)] by (simp add: cached_def buffer_holds_def t_def)
    moreover have "mem t a = mem s a" if "\<not> in_region a BUFFERADDR BUFFERLEN" for a
    proof -
      have "\<not> in_region a BUFFERADDR (?len * SECTOR_SIZE)" using that len(1) unfolding in_region_def by linarith
      then show ?thesis by (simp add: t_def load_bytes_outside)
    qed
    moreover have "t = s\<lparr>mem := mem t, buf_track := int T\<rparr>" by (simp add: t_def)
    moreover have "?base + num \<le> 63" using base n num by auto
    moreover have "?base = 0" if "slen > int num" using that by simp
    ultimately show ?thesis using that [of ?base t] fill data False ints by simp
  qed
qed

end

text \<open>Copying from the buffer to the target.\<close>

lemma memcheck_same:
  "errnum t = errnum s \<Longrightarrow> mem_lower t = mem_lower s \<Longrightarrow> mem_upper t = mem_upper s \<Longrightarrow> fst (memcheck p n t) = fst (memcheck p n s)"
  by (simp add: memcheck_def Let_def)

lemma target_ok_same:
  "target_ok p n s \<Longrightarrow> errnum t = errnum s \<Longrightarrow> mem_lower t = mem_lower s \<Longrightarrow> mem_upper t = mem_upper s \<Longrightarrow> target_ok p n t"
  using memcheck_same [of t s] by (simp add: target_ok_def)

lemma target_okD:
  assumes "target_ok p n s"
  shows "i + k \<le> n \<Longrightarrow> fst (memcheck (p + of_nat i) (of_nat k) s)" "i < n \<Longrightarrow> \<not> in_region (p + of_nat i) BUFFERADDR BUFFERLEN"
    "no_wrap p n" "n < 2 ^ 31"
  using assms by (simp_all add: target_ok_def)

lemma target_ok_rest:
  assumes "target_ok p n s" "j \<le> n"
  shows "target_ok (p + of_nat j) (n - j) s"
proof -
  have j: "j < 2 ^ 31" using assms unfolding target_ok_def by linarith
  have shift: "p + of_nat j + of_nat i = p + of_nat (j + i)" for i by (simp add: add.assoc)
  have "\<not> in_region (p + of_nat j + of_nat i) BUFFERADDR BUFFERLEN" if "i < n - j" for i
    unfolding shift using that by (intro target_okD(2) [OF assms(1)]) simp
  moreover have "fst (memcheck (p + of_nat j + of_nat i) (of_nat k) s)" if "i + k \<le> n - j" for i k
    unfolding shift using that assms(2) by (intro target_okD(1) [OF assms(1)]) simp
  moreover have "unat (p + of_nat j) = unat p + j" if "0 < n - j"
    using assms(1) that j unfolding target_ok_def no_wrap_def by (simp add: unat_word_ariths)
  ultimately show ?thesis
    using assms unfolding target_ok_def no_wrap_def by (cases "n - j = 0") (auto simp: less_imp_le [OF unat_u32_less])
qed

lemma copy_to_target:
  assumes "target_ok p n s" "c \<le> n" "x + c \<le> BUFFERLEN"
  defines "t \<equiv> snd (grub_memmove p (BUFFERADDR + of_nat x) (of_nat c) s)"
  shows "t = s\<lparr>mem := mem t\<rparr>" "\<And>i. i < c \<Longrightarrow> mem t (p + of_nat i) = mem s (BUFFERADDR + of_nat (x + i))"
    "\<And>a. \<not> in_region a p c \<Longrightarrow> mem t a = mem s a" "\<And>i. i < BUFFERLEN \<Longrightarrow> mem t (BUFFERADDR + of_nat i) = mem s (BUFFERADDR + of_nat i)"
proof -
  have c: "c < 2 ^ 31" using assms(1,2) unfolding target_ok_def by linarith
  then have uc: "unat (of_nat c :: u32) = c" by simp
  have ok: "fst (memcheck p (of_nat c) s)" using target_okD(1) [OF assms(1), of 0 c] assms(2) by simp
  have "no_wrap p (unat (of_nat c :: u32))" using assms(1,2) unfolding target_ok_def no_wrap_def uc by linarith
  moreover have "no_wrap (BUFFERADDR + of_nat x) (unat (of_nat c :: u32))"
    using assms(3) uc by (simp add: no_wrap_def unat_word_ariths)
  ultimately have t: "t = s\<lparr>mem := copied (mem s) p (BUFFERADDR + of_nat x) c\<rparr>"
    using grub_memmove_copied [OF ok] unfolding t_def uc by simp
  then show "t = s\<lparr>mem := mem t\<rparr>" by simp
  show "mem t (p + of_nat i) = mem s (BUFFERADDR + of_nat (x + i))" if "i < c" for i
    using that c by (simp add: t copied_def add.assoc)
  show out: "mem t a = mem s a" if "\<not> in_region a p c" for a
    using that by (simp add: t copied_def)
  show "mem t (BUFFERADDR + of_nat i) = mem s (BUFFERADDR + of_nat i)" if "i < BUFFERLEN" for i
  proof (rule out)
    show "\<not> in_region (BUFFERADDR + of_nat i) p c"
    proof
      assume "in_region (BUFFERADDR + of_nat i) p c"
      then obtain j where j: "j < c" "BUFFERADDR + of_nat i = p + of_nat j" unfolding in_region_def using u32_add_of_nat_diff by blast
      then have "\<not> in_region (BUFFERADDR + of_nat i) BUFFERADDR BUFFERLEN" using assms(1,2) unfolding target_ok_def by simp
      then show False using that by simp
    qed
  qed
qed

section \<open>Reading\<close>

text \<open>The fields that reading never touches.\<close>

definition keeps :: "('w, 'e) disk_scheme \<Rightarrow> ('w, 'e) disk_scheme \<Rightarrow> bool" where
  "keeps s t \<longleftrightarrow> t = s\<lparr>mem := mem t, errnum := errnum t, world := world t, buf_drive := buf_drive t, buf_track := buf_track t,
     buf_geom := buf_geom t, hook_calls := hook_calls t\<rparr>"

lemma keeps_refl [simp]: "keeps s s"
  by (simp add: keeps_def)

lemma keeps_trans: "keeps s t \<Longrightarrow> keeps t u \<Longrightarrow> keeps s u"
  by (cases s, cases t, cases u) (simp add: keeps_def)

lemma keepsD:
  "keeps s t \<Longrightarrow> current_drive t = current_drive s" "keeps s t \<Longrightarrow> part_start t = part_start s" "keeps s t \<Longrightarrow> part_length t = part_length s"
  "keeps s t \<Longrightarrow> disk_read_func t = disk_read_func s" "keeps s t \<Longrightarrow> disk.more t = disk.more s"
  by (cases s, cases t, simp add: keeps_def)+

text \<open>What a successful read leaves: \<open>n\<close> bytes of the drive, from byte \<open>p\<close> of it, at \<open>buf\<close>.\<close>

definition has_read :: "(nat \<Rightarrow> u8) \<Rightarrow> nat \<Rightarrow> u32 \<Rightarrow> nat \<Rightarrow> ('w, 'e) disk_scheme \<Rightarrow> ('w, 'e) disk_scheme \<Rightarrow> bool" where
  "has_read f p buf n s t \<longleftrightarrow> keeps s t \<and> errnum t = ERR_NONE \<and> world t = world s \<and> mem_lower t = mem_lower s \<and> mem_upper t = mem_upper s \<and>
     (\<forall>i<n. mem t (buf + of_nat i) = f (p + i)) \<and>
     (\<forall>a. \<not> in_region a buf n \<longrightarrow> \<not> in_region a BUFFERADDR BUFFERLEN \<longrightarrow> mem t a = mem s a)"

lemma in_regionE:
  assumes "in_region a p n"
  obtains i where "i < n" "a = p + of_nat i"
  using assms u32_add_of_nat_diff [of a p] by (auto simp: in_region_def)

lemma has_read_trans:
  assumes a: "has_read f p buf c s t" and b: "has_read f (p + c) (buf + of_nat c) m t u" and "no_wrap buf (c + m)" "c < 2 ^ 32"
    "\<And>i. i < c \<Longrightarrow> \<not> in_region (buf + of_nat i) BUFFERADDR BUFFERLEN"
  shows "has_read f p buf (c + m) s u"
proof -
  have later: "\<exists>j<m. unat (a - buf) = c + j" if rest: "in_region a (buf + of_nat c) m" for a
  proof -
    obtain j where j: "j < m" "a = buf + of_nat c + of_nat j" using in_regionE [OF rest] .
    have "c + j < 4294967296" using j(1) assms(3) by (simp add: no_wrap_def)
    then have "unat (of_nat (c + j) :: u32) = c + j" by (rule unat_of_nat_u32)
    moreover have "a - buf = of_nat (c + j)" using j(2) by simp
    ultimately show ?thesis using j(1) by metis
  qed
  have apart: "\<not> in_region (buf + of_nat i) (buf + of_nat c) m" if "i < c" for i
    using later [of "buf + of_nat i"] that assms(4) by auto
  have "mem u (buf + of_nat i) = f (p + i)" if "i < c + m" for i
  proof (cases "i < c")
    case True
    have "mem u (buf + of_nat i) = mem t (buf + of_nat i)" using b apart [OF True] assms(5) [OF True] by (simp add: has_read_def)
    then show ?thesis using a True by (simp add: has_read_def)
  next
    case False
    then obtain j where j: "i = c + j" using le_Suc_ex [of c i] by auto
    then have "mem u (buf + of_nat c + of_nat j) = f (p + c + j)" using b that by (simp add: has_read_def)
    then show ?thesis unfolding j by (simp add: add.assoc)
  qed
  moreover have "mem u a = mem s a" if "\<not> in_region a buf (c + m)" "\<not> in_region a BUFFERADDR BUFFERLEN" for a
  proof -
    have "\<not> in_region a buf c" using that(1) by (simp add: in_region_def)
    moreover have "\<not> in_region a (buf + of_nat c) m"
      using later [of a] that(1) by (auto simp: in_region_def)
    ultimately show ?thesis using a b that(2) by (simp add: has_read_def)
  qed
  moreover have "keeps s u" using keeps_trans a b unfolding has_read_def by blast
  ultimately show ?thesis using a b by (simp add: has_read_def)
qed

context sector_device
begin

text \<open>Between the rounds of one call the buffer may hold only the end of a track, which no later round asks for.\<close>

definition ready :: "int \<Rightarrow> nat \<Rightarrow> ('w, 'e) disk_scheme \<Rightarrow> bool" where
  "ready d T s \<longleftrightarrow> cached geom present content s \<or> buf_drive s = d \<and> buf_geom s = geom (world s) d \<and> buf_track s \<noteq> int T"

lemma select_ready:
  assumes "present (world s) d" "ready d T s"
  obtains t where "select_drive fw d s = (True, t)" "t = s\<lparr>buf_drive := d, buf_track := buf_track t, buf_geom := geom (world s) d\<rparr>"
    "buf_track t = int T \<Longrightarrow> cached geom present content t" "buf_track t = buf_track s \<or> buf_track t = - 1"
proof (cases "cached geom present content s")
  case True
  with select_drive_ok [OF assms(1)] that show ?thesis by metis
next
  case False
  then have "buf_drive s = d" "buf_geom s = geom (world s) d" "buf_track s \<noteq> int T" using assms(2) by (simp_all add: ready_def)
  then show ?thesis using that [of s] by (simp add: select_drive_def)
qed

lemma cached_fields:
  assumes "cached geom present content s" "present (world s) (buf_drive s)" "t = s\<lparr>mem := mem t, hook_calls := hook_calls t\<rparr>"
    "\<And>i. i < BUFFERLEN \<Longrightarrow> mem t (BUFFERADDR + of_nat i) = mem s (BUFFERADDR + of_nat i)"
  shows "cached geom present content t"
proof -
  have "world t = world s" "buf_drive t = buf_drive s" "buf_geom t = buf_geom s" "buf_track t = buf_track s"
    using arg_cong [OF assms(3), of world] arg_cong [OF assms(3), of buf_drive] arg_cong [OF assms(3), of buf_geom]
      arg_cong [OF assms(3), of buf_track] by simp_all
  moreover have "i < BUFFERLEN" if "i < sectors (buf_geom s) * SECTOR_SIZE" for i
    using that geom_ok [OF assms(2)] assms(1,2) unfolding cached_def by simp
  ultimately show ?thesis using assms(1,4) unfolding cached_def buffer_holds_def by simp
qed

lemma rawread_round:
  assumes "present (world s) d" "ready d T s" "n = sectors (geom (world s) d)" "n dvd total_sectors (geom (world s) d)"
    "no_ezd n (content (world s) d)" "errnum s = ERR_NONE" "off < SECTOR_SIZE" "0 < len" "k < total_sectors (geom (world s) d)"
    "target_ok buf len s" "num = n - k mod n" "T = k - k mod n" "c = min len (num * SECTOR_SIZE - off)"
  obtains t where
    "rawread_loop fw d (int k) (int off) (int len) buf s = rawread_loop fw d (int (k + num)) 0 (int (len - c)) (buf + of_nat c) t"
    "has_read (content (world s) d) (k * SECTOR_SIZE + off) buf c s t" "buf_drive t = d" "buf_geom t = geom (world s) d"
    "buf_track t = int T" "c = len \<longrightarrow> cached geom present content t"
    "c < len \<and> buf_track s \<noteq> int T \<longrightarrow> buffer_from (num * SECTOR_SIZE) (content (world s) d) (k * SECTOR_SIZE) (mem t)"
proof -
  obtain s1 where s1: "select_drive fw d s = (True, s1)"
    "s1 = s\<lparr>buf_drive := d, buf_track := buf_track s1, buf_geom := geom (world s) d\<rparr>"
    "buf_track s1 = int T \<Longrightarrow> cached geom present content s1" "buf_track s1 = buf_track s \<or> buf_track s1 = - 1" using select_ready [OF assms(1,2)] by metis
  have f1: "world s1 = world s" "buf_drive s1 = d" "buf_geom s1 = geom (world s) d" "mem s1 = mem s" "errnum s1 = errnum s"
    "mem_lower s1 = mem_lower s" "mem_upper s1 = mem_upper s"
    by (subst s1(2), simp)+
  note g = geom_ok [OF assms(1)]
  have n: "0 < n" "n \<le> 63" using g assms(3) by simp_all
  let ?slen = "(int off + int len + 512 - 1) div 2 ^ 9"
  have P: "present (world s1) d" "buf_geom s1 = geom (world s1) d" "n = sectors (geom (world s1) d)"
    "n dvd total_sectors (geom (world s1) d)" "k < total_sectors (geom (world s1) d)" "no_ezd n (content (world s1) d)" "errnum s1 = ERR_NONE"
    unfolding f1 using assms(1,3-6,9) by simp_all
  obtain base t where t:
    "(if int k - int k mod int n \<noteq> buf_track s1 then fill_buffer fw d (int k) ?slen (int n) s1 else Some (int k mod int n, s1)) = Some (int base, t)"
    "t = s1\<lparr>mem := mem t, buf_track := int T\<rparr>"
    "\<forall>a. \<not> in_region a BUFFERADDR BUFFERLEN \<longrightarrow> mem t a = mem s1 a" "base + num \<le> 63"
    "\<forall>i<num * SECTOR_SIZE. mem t (BUFFERADDR + of_nat (base * SECTOR_SIZE + i)) = content (world s1) d (k * SECTOR_SIZE + i)"
    "?slen \<le> int num \<longrightarrow> cached geom present content t" "?slen > int num \<and> buf_track s1 \<noteq> int T \<longrightarrow> base = 0"
    by (rule round_fills [OF P(1) f1(2) P(2-7) assms(11,12) s1(3)])
  have ft: "world t = world s" "buf_drive t = d" "buf_geom t = geom (world s) d" "errnum t = ERR_NONE"
    "mem_lower t = mem_lower s" "mem_upper t = mem_upper s" "buf_track t = int T"
    using f1 assms(6) by (subst t(2), simp)+
  let ?call = "read_calls (int k) (int off) (int c) 512"
  define u where "u = (if disk_read_func t then t\<lparr>hook_calls := hook_calls t @ ?call\<rparr> else t)"
  have fu: "world u = world s" "buf_drive u = d" "buf_geom u = geom (world s) d" "errnum u = ERR_NONE"
    "mem_lower u = mem_lower s" "mem_upper u = mem_upper s" "mem u = mem t" "buf_track u = int T"
    using ft by (simp_all add: u_def)
  let ?x = "base * SECTOR_SIZE + off"
  define v where "v = snd (grub_memmove buf (BUFFERADDR + of_nat ?x) (of_nat c) u)"
  have c: "c \<le> len" "off + c \<le> num * SECTOR_SIZE"
  proof -
    have "1 * SECTOR_SIZE \<le> num * SECTOR_SIZE" using n(1) assms(11) by (intro mult_le_mono1) (simp add: Suc_leI)
    then show "c \<le> len" "off + c \<le> num * SECTOR_SIZE" using assms(7,13) by auto
  qed
  have x: "?x + c \<le> BUFFERLEN" using c(2) t(4) by (simp add: algebra_simps)
  have ok: "target_ok buf len u" by (rule target_ok_same [OF assms(10)]) (use fu assms(6) in simp_all)
  note copy = copy_to_target [OF ok c(1) x, folded v_def]
  have fv: "world v = world s" "buf_drive v = d" "buf_geom v = geom (world s) d" "errnum v = ERR_NONE"
    "mem_lower v = mem_lower s" "mem_upper v = mem_upper s" "buf_track v = int T"
    using fu by (subst copy(1), simp)+
  have kept: "keeps s v"
  proof -
    have "keeps s s1" by (subst s1(2)) (simp add: keeps_def)
    moreover have "keeps s1 t" by (subst t(2)) (simp add: keeps_def)
    moreover have "keeps t u" by (simp add: u_def keeps_def)
    moreover have "keeps u v" by (subst copy(1)) (simp add: keeps_def)
    ultimately show ?thesis using keeps_trans by blast
  qed
  have result: "has_read (content (world s) d) (k * SECTOR_SIZE + off) buf c s v"
    unfolding has_read_def
  proof (intro conjI allI impI)
    fix i
    assume i: "i < c"
    have "mem v (buf + of_nat i) = mem t (BUFFERADDR + of_nat (base * SECTOR_SIZE + (off + i)))"
      using copy(2) [OF i] fu(7) by (simp add: add.assoc)
    also have "\<dots> = content (world s) d (k * SECTOR_SIZE + (off + i))" using t(5) [rule_format, of "off + i"] i c(2) f1(1) by simp
    finally show "mem v (buf + of_nat i) = content (world s) d (k * SECTOR_SIZE + off + i)" by (simp add: add.assoc)
  next
    fix a
    assume "\<not> in_region a buf c" "\<not> in_region a BUFFERADDR BUFFERLEN"
    then show "mem v a = mem s a" using copy(3) [of a] t(3) fu(7) f1(4) by simp
  qed (use fv kept in simp_all)
  have last: "cached geom present content v" if "c = len"
  proof -
    have "off + len \<le> num * SECTOR_SIZE" using that c(2) by simp
    then have "?slen \<le> int num" by simp
    with t(6) have "cached geom present content t" by blast
    then have "cached geom present content u"
      by (rule cached_fields) (use assms(1) ft in \<open>simp_all add: u_def\<close>)
    then show ?thesis
      by (rule cached_fields) (use assms(1) fu copy(1,4) in simp_all)
  qed
  have round: "rawread_loop fw d (int k) (int off) (int len) buf s = rawread_loop fw d (int (k + num)) 0 (int (len - c)) (buf + of_nat c) v"
  proof -
    have pos: "int len > 0 \<and> errnum s = ERR_NONE" using assms(6,8) by simp
    have inside: "\<not> (int k < 0 \<or> int k \<ge> int (total_sectors (buf_geom s1)))" using assms(9) f1(3) by simp
    have ss: "sector_size (buf_geom s1) = 512" using g f1(3) by simp
    have spv: "sectors_per_vtrack (buf_geom s1) = int n" using vtrack [OF assms(1)] f1(3) assms(3) by simp
    have n0: "int n \<noteq> 0" using n(1) by simp
    have num: "int n - int k mod int n = int num" using assms(11) n(1) by (simp add: of_nat_diff of_nat_mod)
    have count: "min (int len) (int num * 2 ^ 9 - int off) = int c" using assms(13) c(2) by (simp add: min_def split: if_splits)
    have x: "word_of_int (int base * 2 ^ 9 + int off) = (of_nat ?x :: u32)" by simp
    have rest: "int len - int c = int (len - c)" "int k + int num = int (k + num)" "word_of_int (int c) = (of_nat c :: u32)"
      using c(1) by simp_all
    show ?thesis
      by (subst rawread_loop.simps, simp only: if_P [OF pos] s1(1) Let_def prod.case not_True_eq_False if_False if_not_P [OF inside] ss log2_512
        spv if_not_P [OF n0] of_nat_numeral t(1) bind.bind_lunit num count x rest) (simp only: u_def [symmetric] v_def [symmetric])
  qed
  have rest: "buffer_from (num * SECTOR_SIZE) (content (world s) d) (k * SECTOR_SIZE) (mem v)" if "c < len" "buf_track s \<noteq> int T"
  proof -
    have "num * SECTOR_SIZE - off < len" using that(1) assms(13) by (simp add: min_def split: if_splits)
    then have "?slen > int num" by simp
    moreover have "buf_track s1 \<noteq> int T" using s1(4) that(2) by auto
    ultimately have base: "base = 0" using t(7) by blast
    show ?thesis unfolding buffer_from_def
    proof (intro allI impI)
      fix i
      assume i: "i < num * SECTOR_SIZE"
      then have "i < BUFFERLEN" using t(4) by simp
      then have "mem v (BUFFERADDR + of_nat i) = mem t (BUFFERADDR + of_nat i)" using copy(4) fu(7) by simp
      also have "\<dots> = content (world s) d (k * SECTOR_SIZE + i)" using t(5) [rule_format, OF i] f1(1) base by simp
      finally show "mem v (BUFFERADDR + of_nat i) = content (world s) d (k * SECTOR_SIZE + i)" .
    qed
  qed
  show ?thesis by (rule that [OF round result fv(2,3,7)]) (use last rest in blast)+
qed

lemma rawread_loop_reads:
  assumes "present w d" "n = sectors (geom w d)" "n dvd total_sectors (geom w d)" "no_ezd n (content w d)"
  shows "world s = w \<Longrightarrow> ready d (k - k mod n) s \<Longrightarrow> errnum s = ERR_NONE \<Longrightarrow> off < SECTOR_SIZE \<Longrightarrow> 0 < len \<Longrightarrow>
    k * SECTOR_SIZE + off + len \<le> total_sectors (geom w d) * SECTOR_SIZE \<Longrightarrow> target_ok buf len s \<Longrightarrow>
    \<exists>t. rawread_loop fw d (int k) (int off) (int len) buf s = Some (1, t) \<and>
      has_read (content w d) (k * SECTOR_SIZE + off) buf len s t \<and> buf_drive t = d \<and> cached geom present content t"
proof (induction len arbitrary: k off buf s rule: less_induct)
  case (less len)
  define T num where "T = k - k mod n" and "num = n - k mod n"
  define c where "c = min len (num * SECTOR_SIZE - off)"
  have n: "0 < n" using geom_ok [OF assms(1)] assms(2) by simp
  have mod: "k mod n < n" "k mod n \<le> k" using n by simp_all
  have num: "0 < num" "k + num = T + n" using mod by (simp_all add: num_def T_def)
  have k: "k < total_sectors (geom w d)" using less.prems(4-6) by simp
  have P: "present (world s) d" "n = sectors (geom (world s) d)" "n dvd total_sectors (geom (world s) d)"
    "no_ezd n (content (world s) d)" "k < total_sectors (geom (world s) d)"
    using assms less.prems(1) k by simp_all
  obtain t where t:
    "rawread_loop fw d (int k) (int off) (int len) buf s = rawread_loop fw d (int (k + num)) 0 (int (len - c)) (buf + of_nat c) t"
    "has_read (content (world s) d) (k * SECTOR_SIZE + off) buf c s t" "buf_drive t = d" "buf_geom t = geom (world s) d"
    "buf_track t = int T" "c = len \<longrightarrow> cached geom present content t"
    "c < len \<and> buf_track s \<noteq> int T \<longrightarrow> buffer_from (num * SECTOR_SIZE) (content (world s) d) (k * SECTOR_SIZE) (mem t)"
    by (rule rawread_round [OF P(1) less.prems(2) [folded T_def] P(2-4) less.prems(3-5) P(5) less.prems(7) num_def T_def c_def])
  have f: "world t = w" "errnum t = ERR_NONE" "mem_lower t = mem_lower s" "mem_upper t = mem_upper s"
    using t(2) less.prems(1) by (simp_all add: has_read_def)
  show ?case
  proof (cases "c = len")
    case True
    then have "rawread_loop fw d (int k) (int off) (int len) buf s = Some (1, t)"
      unfolding t(1) using f(2) by (subst rawread_loop.simps) simp
    then show ?thesis using t(2,3,6) True less.prems(1) by auto
  next
    case False
    then have c: "c = num * SECTOR_SIZE - off" "c < len" by (auto simp: c_def)
    have "1 * SECTOR_SIZE \<le> num * SECTOR_SIZE" using num(1) by (intro mult_le_mono1) simp
    then have off: "c + off = num * SECTOR_SIZE" "0 < c" using c(1) less.prems(4) by simp_all
    have pos: "k * SECTOR_SIZE + off + c = (k + num) * SECTOR_SIZE" using off(1) by (simp add: add_mult_distrib)
    have "(T + n) mod n = 0"
      unfolding T_def by (simp add: minus_mod_eq_mult_div)
    then have next_track: "(k + num) - (k + num) mod n = T + n" using num(2) by simp
    have "\<exists>u. rawread_loop fw d (int (k + num)) (int 0) (int (len - c)) (buf + of_nat c) t = Some (1, u) \<and>
      has_read (content w d) ((k + num) * SECTOR_SIZE + 0) (buf + of_nat c) (len - c) t u \<and> buf_drive u = d \<and> cached geom present content u"
    proof (rule less.IH)
      show "len - c < len" using off(2) c(2) by simp
      show "ready d (k + num - (k + num) mod n) t" unfolding next_track using t(3-5) n less.prems(1) f(1) by (simp add: ready_def)
      show "(k + num) * SECTOR_SIZE + 0 + (len - c) \<le> total_sectors (geom w d) * SECTOR_SIZE"
        using pos less.prems(6) c(2) by linarith
      show "target_ok (buf + of_nat c) (len - c) t"
        by (rule target_ok_same [OF target_ok_rest [OF less.prems(7)]]) (use c(2) f less.prems(3) in simp_all)
    qed (use f c(2) in simp_all)
    then obtain u where u: "rawread_loop fw d (int (k + num)) 0 (int (len - c)) (buf + of_nat c) t = Some (1, u)"
      "has_read (content w d) (k * SECTOR_SIZE + off + c) (buf + of_nat c) (len - c) t u" "buf_drive u = d" "cached geom present content u"
      unfolding pos by auto
    note ok = target_okD [OF less.prems(7)]
    have "has_read (content w d) (k * SECTOR_SIZE + off) buf (c + (len - c)) s u"
      using t(2) u(2) ok(2-4) c(2) less.prems(1) by (intro has_read_trans) auto
    then show ?thesis using t(1) u c(2) by auto
  qed
qed

end

lemma rawread_ok:
  assumes "sector_device fw geom present content" "present (world s) d"
    and "sectors (geom (world s) d) dvd total_sectors (geom (world s) d)" "no_ezd (sectors (geom (world s) d)) (content (world s) d)"
    and "cached geom present content s" "errnum s = ERR_NONE" "off < SECTOR_SIZE" "0 < len"
    and "k * SECTOR_SIZE + off + len \<le> total_sectors (geom (world s) d) * SECTOR_SIZE" "target_ok buf len s"
  shows "\<exists>t. rawread fw d (int k) (int off) (int len) buf s = Some (1, t) \<and>
    has_read (content (world s) d) (k * SECTOR_SIZE + off) buf len s t \<and> cached geom present content t"
  using sector_device.rawread_loop_reads [OF assms(1,2) refl assms(3,4) refl _ assms(6-10)] assms(5,8)
  by (auto simp: rawread_def sector_device.ready_def [OF assms(1)])

text \<open>
  C7. Refinement of a disk by the track buffer: for every BIOS that meets the contract \<open>sector_device\<close> and every drive it
  knows, a call of \<open>rawread\<close> for bytes that lie on the disk returns 1 with exactly those bytes at the target, whatever tracks
  were read before: it leaves the rest of the memory (outside the buffer), the disks and the error number alone, and the buffer
  again holds the track it is marked with. Required are a disk of whole tracks without the mark of EZ-Drive, and a
  target that the memory check accepts and that does not overlap the buffer.
\<close>

theorem rawread_reads_disk:
  assumes "sector_device fw geom present content" "present (world s) d"
    and "sectors (geom (world s) d) dvd total_sectors (geom (world s) d)" "no_ezd (sectors (geom (world s) d)) (content (world s) d)"
    and "cached geom present content s" "errnum s = ERR_NONE" "off < SECTOR_SIZE" "0 < len"
    and "k * SECTOR_SIZE + off + len \<le> total_sectors (geom (world s) d) * SECTOR_SIZE" "target_ok buf len s"
  shows "\<exists>t. rawread fw d (int k) (int off) (int len) buf s = Some (1, t) \<and>
    has_read (content (world s) d) (k * SECTOR_SIZE + off) buf len s t \<and> cached geom present content t"
  by (rule rawread_ok [OF assms])

lemma target_okI:
  assumes "errnum s = ERR_NONE" "4096 \<le> unat buf" "unat buf + n \<le> 0x70000" "unat buf + n \<le> unat (mem_lower s) * 1024"
    "unat (mem_lower s) < 2097152" "unat (mem_upper s) < 2097152"
  shows "target_ok buf n s"
proof -
  have shift: "unat (buf + of_nat i) = unat buf + i" if "i \<le> n" for i
    using that assms(3) by (simp add: unat_word_ariths)
  have "fst (memcheck (buf + of_nat i) (of_nat k) s)" if "i + k \<le> n" for i k
  proof -
    have "unat (of_nat k :: u32) = k" using that assms(3) by simp
    then show ?thesis
      using memcheck_usable [OF assms(1), of "buf + of_nat i" k "of_nat k"] assms(2-6) shift [of i] that by (simp add: usable_block_def)
  qed
  moreover have "\<not> in_region (buf + of_nat i) BUFFERADDR BUFFERLEN" if "i < n" for i
  proof -
    have "unat (buf + of_nat i) < 0x70000" using shift [of i] that assms(3) by simp
    then have "unat (buf + of_nat i - BUFFERADDR) \<ge> 2 ^ 31"
      using assms(3) by (simp add: unat_sub_if')
    then show ?thesis by (simp add: in_region_def)
  qed
  ultimately show ?thesis using assms(3) by (simp add: target_ok_def no_wrap_def)
qed

text \<open>A state to start from: the sectors of every drive are filled with their numbers.\<close>

definition numbered :: bytes where
  "numbered d i = of_nat (i div SECTOR_SIZE)"

definition fresh_disk :: "bytes disk" where
  "fresh_disk = \<lparr>mem = (\<lambda>a. 0), ports = [], errnum = ERR_NONE, mem_lower = 640, mem_upper = 31744, world = numbered, buf_drive = - 1,
     buf_track = 0, buf_geom = \<lparr>cylinders = 0, heads = 0, sectors = 0, total_sectors = 0, sector_size = 0, geo_flags = 0\<rparr>,
     disk_read_func = False, hook_calls = [], current_drive = 0x80, part_start = 36, part_length = 1000\<rparr>"

lemma fresh_disk_ok:
  "image_present two_disks 0x80" "cached (\<lambda>w. image_geom two_disks) (\<lambda>w. image_present two_disks) (\<lambda>w. w) fresh_disk"
  "image_geom two_disks 0x80 = \<lparr>cylinders = 80, heads = 2, sectors = 18, total_sectors = 2880, sector_size = 512, geo_flags = 0\<rparr>"
  "no_ezd 18 (numbered 0x80)" "world fresh_disk = numbered" "errnum fresh_disk = ERR_NONE" "n \<le> 4096 \<Longrightarrow> target_ok 0x8000 n fresh_disk"
proof -
  have "(k * SECTOR_SIZE + slice_at i + 4) div SECTOR_SIZE = k" if "i < 4" for k i
    using that by (simp add: slice_at_def)
  moreover have "(of_nat k :: u8) \<noteq> 0x55" if "k < 18" for k
  proof
    assume "(of_nat k :: u8) = 0x55"
    then have "unat (of_nat k :: u8) = 0x55" by simp
    then show False using that by (simp add: unat_of_nat)
  qed
  ultimately show "no_ezd 18 (numbered 0x80)" by (simp add: no_ezd_def numbered_def)
  show "target_ok 0x8000 n fresh_disk" if "n \<le> 4096"
    by (rule target_okI) (use that in \<open>simp_all add: fresh_disk_def\<close>)
qed (simp_all add: image_present_def two_disks_def image_ok_def cached_def fresh_disk_def image_geom_def)

theorem rawread_reads_disk_witness:
  "\<exists>t. rawread (image_bios two_disks) 0x80 17 500 600 0x8000 fresh_disk = Some (1, t) \<and> mem t 0x8000 = 17 \<and> mem t 0x800C = 18 \<and>
    mem t 0x9000 = 0"
proof -
  obtain t where t: "rawread (image_bios two_disks) 0x80 (int 17) (int 500) (int 600) 0x8000 fresh_disk = Some (1, t)"
    "has_read (numbered 0x80) (17 * 512 + 500) 0x8000 600 fresh_disk t"
    using rawread_reads_disk [OF image_disk.sector_device_axioms [of two_disks], where d = "0x80" and s = fresh_disk and k = 17 and off = 500
      and len = 600 and buf = "0x8000"] fresh_disk_ok by auto
  have "mem t (0x8000 + of_nat 0) = numbered 0x80 (17 * 512 + 500 + 0)" "mem t (0x8000 + of_nat 12) = numbered 0x80 (17 * 512 + 500 + 12)"
    "mem t 0x9000 = mem fresh_disk 0x9000"
    using t(2) unfolding has_read_def by (simp_all only: in_region_def, auto)
  then show ?thesis using t(1) by (simp add: numbered_def fresh_disk_def)
qed

end
