(* ===== verification/GRUB_Partitions.thy ===== *)
theory GRUB_Partitions
  imports GRUB_Disk
begin

text \<open>
  Partitions, from \<^verbatim>\<open>src/legacy/SZoS/grub-0.97/stage2/disk_io.c\<close> and \<^verbatim>\<open>pc_slice.h\<close>: the walk over partition tables, chains of
  extended partitions and BSD labels, opening a partition, and the commands that write to the table. A function with a local
  sector buffer takes its address. The pointers of \<open>next_partition\<close> are the record \<open>slice_info\<close>.

  Shown: on a drive without BSD labels, \<open>open_partition\<close> finds the partition of a number in the listing of its tables
  with its start, length and type, or reports that there is none.
\<close>

section \<open>Definitions\<close>

record 'w parts = "'w disk" +
  current_partition :: u32
  current_slice :: int
  saved_drive :: int
  saved_partition :: u32
  cdrom_drive :: int
  bsd_evil_hack :: int
  cur_part_offset :: u32
  cur_part_addr :: u32
  boot_part_addr :: u32

record slice_info =
  si_partition :: u32
  si_type :: int
  si_start :: u32
  si_len :: u32
  si_offset :: u32
  si_entry :: int
  si_ext :: u32

abbreviation (input) NETWORK_DRIVE :: int where "NETWORK_DRIVE \<equiv> 0x20"
abbreviation (input) BOOT_PART_TABLE :: u32 where "BOOT_PART_TABLE \<equiv> 0x7be"
abbreviation (input) PC_SLICE_FLAG_BOOTABLE :: u8 where "PC_SLICE_FLAG_BOOTABLE \<equiv> 0x80"
abbreviation (input) PC_SLICE_TYPE_HIDDEN_FLAG :: u8 where "PC_SLICE_TYPE_HIDDEN_FLAG \<equiv> 0x10"
abbreviation (input) PC_MBR_SIGNATURE :: u16 where "PC_MBR_SIGNATURE \<equiv> 0xaa55"
abbreviation (input) BSD_LABEL_MAGIC :: u32 where "BSD_LABEL_MAGIC \<equiv> 0x82564557"
abbreviation (input) DTYPE_SCSI :: u16 where "DTYPE_SCSI \<equiv> 4"

definition load32 :: "mem \<Rightarrow> u32 \<Rightarrow> u32" where
  "load32 m a = ucast (load16 m a) OR push_bit 16 (ucast (load16 m (a + 2)))"

definition mbr_sig :: "u32 \<Rightarrow> mem \<Rightarrow> u16" where
  "mbr_sig p m = load16 m (p + 510)"

definition slice_start :: "u32 \<Rightarrow> nat \<Rightarrow> mem \<Rightarrow> u32" where
  "slice_start p i m = load32 m (p + of_nat (slice_at i + 8))"

definition slice_length :: "u32 \<Rightarrow> nat \<Rightarrow> mem \<Rightarrow> u32" where
  "slice_length p i m = load32 m (p + of_nat (slice_at i + 12))"

definition slice_flag :: "u32 \<Rightarrow> nat \<Rightarrow> mem \<Rightarrow> u8" where
  "slice_flag p i m = m (p + of_nat (slice_at i))"

definition is_extended :: "int \<Rightarrow> bool" where
  "is_extended t \<longleftrightarrow> t = 5 \<or> t = 0xf \<or> t = 0x85"

definition is_bsd :: "int \<Rightarrow> bool" where
  "is_bsd t \<longleftrightarrow> t = 0xa5 \<or> t = 0xa6 \<or> t = 0xa9"

definition bsd_nparts :: "u32 \<Rightarrow> mem \<Rightarrow> u16" where
  "bsd_nparts p m = load16 m (p + 138)"

definition bsd_dtype :: "u32 \<Rightarrow> mem \<Rightarrow> u16" where
  "bsd_dtype p m = load16 m (p + 4)"

definition bsd_length :: "u32 \<Rightarrow> int \<Rightarrow> mem \<Rightarrow> u32" where
  "bsd_length p i m = load32 m (p + 148 + word_of_int (i * 16))"

definition bsd_start :: "u32 \<Rightarrow> int \<Rightarrow> mem \<Rightarrow> u32" where
  "bsd_start p i m = load32 m (p + 148 + 4 + word_of_int (i * 16))"

definition bsd_type :: "u32 \<Rightarrow> int \<Rightarrow> mem \<Rightarrow> u8" where
  "bsd_type p i m = m (p + 148 + 12 + word_of_int (i * 16))"

text \<open>\<open>sane_partition\<close> without its effect, and with it.\<close>

definition sane_values :: "('w, 'e) parts_scheme \<Rightarrow> bool" where
  "sane_values s \<longleftrightarrow> current_partition s AND 0xFF000000 = 0 \<and>
     (current_drive s AND 0xFFFFFF7F < 8 \<or> current_drive s = cdrom_drive s) \<and> current_partition s AND 0xFF = 0xFF \<and>
     (current_partition s AND 0xFF00 = 0xFF00 \<or> current_partition s AND 0xFF00 < 0x800) \<and>
     (drop_bit 16 (current_partition s) = 0xFF \<or> current_drive s AND 0x80 \<noteq> 0)"

definition sane_partition :: "('w, 'e) parts_scheme \<Rightarrow> bool \<times> ('w, 'e) parts_scheme" where
  "sane_partition s =
     (if current_drive s = NETWORK_DRIVE then (True, s)
      else if sane_values s then (True, s) else (False, s\<lparr>errnum := ERR_DEV_VALUES\<rparr>))"

text \<open>The next BSD partition of the label in the buffer, which is read when there was none before.\<close>

definition next_bsd_partition :: "'w firmware \<Rightarrow> int \<Rightarrow> u32 \<Rightarrow> slice_info \<Rightarrow> ('w, 'e) parts_scheme \<Rightarrow>
    (bool \<times> slice_info \<times> ('w, 'e) parts_scheme) option" where
  "next_bsd_partition fw drive buf c s =
     (let bsd_part_no = int (unat (drop_bit 8 (si_partition c AND 0xFF00)))
      in do {
        (ok, bsd_part_no, s) \<leftarrow>
          (if bsd_part_no \<noteq> 0xFF then Some (True, bsd_part_no, s)
           else if si_len c < 2 then Some (False, bsd_part_no, s\<lparr>errnum := ERR_BAD_PART_TABLE\<rparr>)
           else do {
             (r, s) \<leftarrow> rawread fw drive (sint (si_start c + 1)) 0 512 buf s;
             Some (if r = 0 then (False, bsd_part_no, s)
                   else if load32 (mem s) buf \<noteq> BSD_LABEL_MAGIC then (False, bsd_part_no, s\<lparr>errnum := ERR_BAD_PART_TABLE\<rparr>)
                   else (True, - 1, s))
           });
        Some (if \<not> ok then (False, c, s)
              else (case find (\<lambda>i. bsd_type buf i (mem s) \<noteq> 0) [bsd_part_no + 1..int (unat (bsd_nparts buf (mem s))) - 1] of
                None \<Rightarrow> (False, c, s\<lparr>errnum := ERR_NO_PART\<rparr>)
              | Some i \<Rightarrow>
                  (True,
                   c\<lparr>si_type := int (unat (bsd_type buf i (mem s))) * 256 + (si_type c AND 0xFF), si_start := bsd_start buf i (mem s),
                     si_len := bsd_length buf i (mem s), si_partition := (si_partition c AND 0xFF00FF) OR word_of_int (i * 256)\<rparr>,
                   if drive AND 0x80 \<noteq> 0 \<and> bsd_dtype buf (mem s) = DTYPE_SCSI then s\<lparr>bsd_evil_hack := 4\<rparr> else s)))
      })"

text \<open>The entry that \<open>si_entry\<close> points to, for a previous slice number.\<close>

definition this_slice :: "u32 \<Rightarrow> int \<Rightarrow> slice_info \<Rightarrow> mem \<Rightarrow> slice_info" where
  "this_slice buf pc_slice_no c m =
     (let i = nat (si_entry c); t = int (unat (slice_type_at buf i m));
          pc_slice_no = (if pc_slice_no < 4 \<or> \<not> is_extended t \<and> t \<noteq> 0 then pc_slice_no + 1 else pc_slice_no)
      in c\<lparr>si_type := t, si_start := si_offset c + slice_start buf i m, si_len := slice_length buf i m,
           si_partition := word_of_int (pc_slice_no * 65536) OR 0xFFFF\<rparr>)"

definition find_extended :: "u32 \<Rightarrow> mem \<Rightarrow> nat option" where
  "find_extended buf m = find (\<lambda>i. is_extended (int (unat (slice_type_at buf i m)))) [0..<4]"

partial_function (option) next_pc_slice :: "'w firmware \<Rightarrow> int \<Rightarrow> u32 \<Rightarrow> slice_info \<Rightarrow> ('w, 'e) parts_scheme \<Rightarrow>
    (bool \<times> slice_info \<times> ('w, 'e) parts_scheme) option" where
  "next_pc_slice fw drive buf c s =
     (let pc_slice_no = int (unat (drop_bit 16 (si_partition c AND 0xFF0000)));
          (pc_slice_no, c) = (if pc_slice_no = 0xFF then (- 1, c\<lparr>si_offset := 0, si_ext := 0, si_entry := - 1\<rparr>) else (pc_slice_no, c))
      in do {
        (r, s) \<leftarrow> rawread fw drive (sint (si_offset c)) 0 512 buf s;
        if r = 0 then Some (False, c, s)
        else if mbr_sig buf (mem s) \<noteq> PC_MBR_SIGNATURE then Some (False, c, s\<lparr>errnum := ERR_BAD_PART_TABLE\<rparr>)
        else (let c = c\<lparr>si_entry := si_entry c + 1\<rparr>
              in if si_entry c = 4 then
                   (case find_extended buf (mem s) of
                     None \<Rightarrow> Some (False, c, s\<lparr>errnum := ERR_NO_PART\<rparr>)
                   | Some i \<Rightarrow>
                       (let offset = si_ext c + slice_start buf i (mem s)
                        in next_pc_slice fw drive buf
                             (c\<lparr>si_offset := offset, si_ext := (if si_ext c = 0 then offset else si_ext c), si_entry := - 1\<rparr>) s))
                 else Some (True, this_slice buf pc_slice_no c (mem s), s))
      })"

definition next_partition :: "'w firmware \<Rightarrow> int \<Rightarrow> u32 \<Rightarrow> u32 \<Rightarrow> slice_info \<Rightarrow> ('w, 'e) parts_scheme \<Rightarrow>
    (bool \<times> slice_info \<times> ('w, 'e) parts_scheme) option" where
  "next_partition fw drive dest buf c s =
     (if current_drive s = NETWORK_DRIVE then Some (False, c, s)
      else if si_partition c \<noteq> 0xFFFFFF \<and> is_bsd (si_type c AND 0xff) \<or> drive AND 0x80 = 0 then do {
        (ok, c, s) \<leftarrow> next_bsd_partition fw drive buf (if si_type c = 0 then c\<lparr>si_type := 0xa5\<rparr> else c) s;
        if ok then Some (True, c, s)
        else if dest AND 0xFF00 \<noteq> 0xFF00 \<and> (dest AND 0xFF0000 = 0xFF0000 \<or> dest AND 0xFF0000 = si_partition c AND 0xFF0000)
        then Some (False, c, s)
        else next_pc_slice fw drive buf c (s\<lparr>errnum := ERR_NONE\<rparr>)
      }
      else next_pc_slice fw drive buf c s)"

text \<open>
  \<open>real_open_partition\<close> when it opens (its argument \<open>flags\<close> is zero). It passes the addresses of the variables of the partition,
  so these follow the record. \<open>stack\<close> is what its three local variables hold at the start.
\<close>

definition set_part :: "slice_info \<Rightarrow> ('w, 'e) parts_scheme \<Rightarrow> ('w, 'e) parts_scheme" where
  "set_part c s = s\<lparr>current_partition := si_partition c, current_slice := si_type c, part_start := unat (si_start c),
     part_length := unat (si_len c)\<rparr>"

partial_function (option) open_loop :: "'w firmware \<Rightarrow> u32 \<Rightarrow> u32 \<Rightarrow> slice_info \<Rightarrow> ('w, 'e) parts_scheme \<Rightarrow>
    (int \<times> ('w, 'e) parts_scheme) option" where
  "open_loop fw dest buf c s = do {
     (ok, c, s) \<leftarrow> next_partition fw (current_drive s) dest buf c s;
     let s = set_part c s;
     if \<not> ok then Some (0, s)
     else (let s = s\<lparr>cur_part_offset := si_offset c, cur_part_addr := BOOT_PART_TABLE + word_of_int (si_entry c * 16)\<rparr>
           in if current_slice s = 0 then open_loop fw dest buf c s
              else (let s = s\<lparr>errnum := ERR_NONE\<rparr>
                    in if dest = current_partition s \<or>
                          drop_bit 16 dest = 0xFF \<and> drop_bit 8 dest AND 0xFF = drop_bit 8 (current_partition s) AND 0xFF
                       then Some (1, s) else open_loop fw dest buf c s))
   }"

definition open_partition :: "'w firmware \<Rightarrow> u32 \<Rightarrow> u32 \<times> int \<times> u32 \<Rightarrow> ('w, 'e) parts_scheme \<Rightarrow> (int \<times> ('w, 'e) parts_scheme) option" where
  "open_partition fw buf stack s =
     (if current_drive s = NETWORK_DRIVE then Some (1, s)
      else (let (sane, s) = sane_partition s
            in if \<not> sane then Some (0, s)
               else (let dest = current_partition s;
                         s = s\<lparr>bsd_evil_hack := 0, current_slice := 0, part_start := 0\<rparr>;
                         (found, s) = select_drive fw (current_drive s) s
                     in if \<not> found then Some (0, s)
                        else (let s = s\<lparr>part_length := total_sectors (buf_geom s)\<rparr>
                              in if current_partition s = 0xFFFFFF then Some (1, s)
                                 else open_loop fw dest buf
                                   \<lparr>si_partition = 0xFFFFFF, si_type = 0, si_start = 0, si_len = of_nat (part_length s),
                                    si_offset = fst stack, si_entry = fst (snd stack), si_ext = snd (snd stack)\<rparr>
                                   (s\<lparr>current_partition := 0xFFFFFF\<rparr>)))))"

text \<open>The functions that write to a table.\<close>

definition set_byte :: "u32 \<Rightarrow> u8 \<Rightarrow> ('w, 'e) parts_scheme \<Rightarrow> ('w, 'e) parts_scheme" where
  "set_byte a v s = s\<lparr>mem := (mem s)(a := v)\<rparr>"

definition make_saved_active :: "'w firmware \<Rightarrow> u32 \<Rightarrow> ('w, 'e) parts_scheme \<Rightarrow> (int \<times> ('w, 'e) parts_scheme) option" where
  "make_saved_active fw mbr s =
     (if saved_drive s AND 0x80 \<noteq> 0 then
        (let part = unat (drop_bit 16 (saved_partition s))
         in if part > 3 then Some (0, s\<lparr>errnum := ERR_DEV_VALUES\<rparr>)
            else do {
              (r, s) \<leftarrow> rawread fw (saved_drive s) 0 0 512 mbr s;
              if r = 0 then Some (0, s)
              else if is_extended (int (unat (slice_type_at mbr part (mem s)))) then Some (0, s\<lparr>errnum := ERR_DEV_VALUES\<rparr>)
              else if slice_flag mbr part (mem s) \<noteq> PC_SLICE_FLAG_BOOTABLE then
                (let s = for_up 4 (\<lambda>i. set_byte (mbr + of_nat (slice_at i)) 0) s;
                     s = set_byte (mbr + of_nat (slice_at part)) PC_SLICE_FLAG_BOOTABLE s
                 in do {
                   (r, s) \<leftarrow> rawwrite fw (saved_drive s) 0 mbr s;
                   Some (if r = 0 then 0 else 1, s)
                 })
              else Some (1, s)
            })
      else Some (0, s\<lparr>errnum := ERR_DEV_VALUES\<rparr>))"

partial_function (option) hidden_loop :: "'w firmware \<Rightarrow> bool \<Rightarrow> u32 \<Rightarrow> slice_info \<Rightarrow> ('w, 'e) parts_scheme \<Rightarrow>
    (int \<times> ('w, 'e) parts_scheme) option" where
  "hidden_loop fw hidden mbr c s = do {
     (ok, c, s) \<leftarrow> next_partition fw (current_drive s) 0xFFFFFF mbr c s;
     if \<not> ok then Some (1, s)
     else if si_partition c = current_partition s then
       (let a = mbr + of_nat (slice_at (nat (si_entry c)) + 4);
            s = set_byte a (if hidden then mem s a OR PC_SLICE_TYPE_HIDDEN_FLAG else mem s a AND NOT PC_SLICE_TYPE_HIDDEN_FLAG) s;
            s = s\<lparr>buf_track := - 1\<rparr>
        in do {
          (r, s) \<leftarrow> rawwrite fw (current_drive s) (sint (si_offset c)) mbr s;
          Some (if r = 0 then 1 else 0, s)
        })
     else hidden_loop fw hidden mbr c s
   }"

text \<open>\<open>locals\<close> is what the variables of the walk hold at the start.\<close>

definition set_partition_hidden_flag :: "'w firmware \<Rightarrow> bool \<Rightarrow> u32 \<Rightarrow> slice_info \<Rightarrow> ('w, 'e) parts_scheme \<Rightarrow>
    (int \<times> ('w, 'e) parts_scheme) option" where
  "set_partition_hidden_flag fw hidden mbr locals s =
     (if current_drive s AND 0x80 = 0 then Some (1, s\<lparr>errnum := ERR_BAD_ARGUMENT\<rparr>)
      else if drop_bit 16 (current_partition s) = 0xFF \<or> current_partition s AND 0xFFFF \<noteq> 0xFFFF
      then Some (1, s\<lparr>errnum := ERR_BAD_ARGUMENT\<rparr>)
      else hidden_loop fw hidden mbr (locals\<lparr>si_partition := 0xFFFFFF\<rparr>) s)"

definition MAKEBOOTDEV :: "u32 \<Rightarrow> u32 \<Rightarrow> u32 \<Rightarrow> u32 \<Rightarrow> u32 \<Rightarrow> u32" where
  "MAKEBOOTDEV t adaptor controller unit part =
     t OR push_bit 24 adaptor OR push_bit 20 controller OR push_bit 16 unit OR push_bit 8 part OR 0xa0000000"

definition set_bootdev :: "'w firmware \<Rightarrow> int \<Rightarrow> ('w, 'e) parts_scheme \<Rightarrow> (u32 \<times> ('w, 'e) parts_scheme) option" where
  "set_bootdev fw hdbias s = do {
     (ok, s) \<leftarrow>
       (if saved_drive s AND 0x80 \<noteq> 0 \<and> cur_part_addr s \<noteq> 0 then do {
          (r, s) \<leftarrow> rawread fw (saved_drive s) (sint (cur_part_offset s)) 0 512 SCRATCHADDR s;
          Some (if r \<noteq> 0 then
            (let s = for_up 0x40 (\<lambda>i s. set_byte (BOOT_PART_TABLE + of_nat i) (mem s (SCRATCHADDR + 0x1BE + of_nat i)) s) s;
                 s = for_up 4 (\<lambda>i. set_byte (BOOT_PART_TABLE + of_nat (slice_at i)) 0) s;
                 s = set_byte (cur_part_addr s) PC_SLICE_FLAG_BOOTABLE s
             in (True, s\<lparr>boot_part_addr := cur_part_addr s\<rparr>))
            else (False, s))
        } else Some (True, s));
     Some (if \<not> ok then (0, s)
       else (let i = (if saved_partition s = 0xFFFFFF then 1 else if drop_bit 16 (saved_partition s) = 0xFF then 0
                      else drop_bit 16 (saved_partition s) + 2);
                 j = (if saved_drive s AND 0x80 \<noteq> 0 then word_of_int (bsd_evil_hack s) else 2)
             in (MAKEBOOTDEV j (drop_bit 4 i) (i AND 0xF) (word_of_int (saved_drive s - hdbias) AND 0x7F)
                   (drop_bit 8 (saved_partition s) AND 0xFF), s)))
   }"

section \<open>The tables of a disk\<close>

text \<open>A sector as memory from address 0, so that the fields of a table are those of the definitions above.\<close>

definition sector :: "(nat \<Rightarrow> u8) \<Rightarrow> nat \<Rightarrow> mem" where
  "sector f t = (\<lambda>a. f (t * SECTOR_SIZE + unat a))"

definition type_of :: "(nat \<Rightarrow> u8) \<Rightarrow> nat \<times> nat \<Rightarrow> int" where
  "type_of f x = int (unat (slice_type_at 0 (snd x) (sector f (fst x))))"

definition start_of :: "(nat \<Rightarrow> u8) \<Rightarrow> nat \<times> nat \<Rightarrow> u32" where
  "start_of f x = of_nat (fst x) + slice_start 0 (snd x) (sector f (fst x))"

definition length_of :: "(nat \<Rightarrow> u8) \<Rightarrow> nat \<times> nat \<Rightarrow> u32" where
  "length_of f x = slice_length 0 (snd x) (sector f (fst x))"

text \<open>
  The chain of tables from sector \<open>off\<close>: each has the signature, and its first extended entry leads to the next one, relative
  to the first extended partition \<open>ext\<close>, where there is one.
\<close>

primrec table_chain :: "(nat \<Rightarrow> u8) \<Rightarrow> nat \<Rightarrow> u32 \<Rightarrow> u32 \<Rightarrow> nat list \<Rightarrow> bool" where
  "table_chain f n ext off [] \<longleftrightarrow> False"
| "table_chain f n ext off (t # ts) \<longleftrightarrow> off = of_nat t \<and> t < n \<and> mbr_sig 0 (sector f t) = PC_MBR_SIGNATURE \<and>
     (case find_extended 0 (sector f t) of
       None \<Rightarrow> ts = []
     | Some i \<Rightarrow> let off' = ext + slice_start 0 i (sector f t) in table_chain f n (if ext = 0 then off' else ext) off' ts)"

text \<open>
  The numbers of the entries: the first four get 0 to 3, the first entry of the next table 4, and later entries count
  unless they are empty or extended.
\<close>

definition number :: "(nat \<Rightarrow> u8) \<Rightarrow> int \<Rightarrow> nat \<times> nat \<Rightarrow> int" where
  "number f no x = (if no < 4 \<or> \<not> is_extended (type_of f x) \<and> type_of f x \<noteq> 0 then no + 1 else no)"

fun listing :: "(nat \<Rightarrow> u8) \<Rightarrow> int \<Rightarrow> (nat \<times> nat) list \<Rightarrow> (int \<times> nat \<times> nat) list" where
  "listing f no [] = []"
| "listing f no (x # xs) = (number f no x, x) # listing f (number f no x) xs"

definition entries :: "nat list \<Rightarrow> (nat \<times> nat) list" where
  "entries ts = List.product ts [0..<4]"

definition find_part :: "(nat \<Rightarrow> u8) \<Rightarrow> nat list \<Rightarrow> int \<Rightarrow> (int \<times> nat \<times> nat) option" where
  "find_part f ts k = find (\<lambda>(no, x). no = k \<and> type_of f x \<noteq> 0) (listing f (- 1) (entries ts))"

lemma entries_simps [simp]: "entries [] = []" "entries (t # ts) = (t, 0) # (t, 1) # (t, 2) # (t, 3) # entries ts"
  by (simp_all add: entries_def upt_rec)

lemma sint_of_nat_u32: "t < 2 ^ 31 \<Longrightarrow> sint (of_nat t :: u32) = int t"
  using int_word_sint [of "int t", where 'a = 32] by (simp add: mod_pos_pos_trivial)

definition holds_sector :: "u32 \<Rightarrow> (nat \<Rightarrow> u8) \<Rightarrow> nat \<Rightarrow> mem \<Rightarrow> bool" where
  "holds_sector p f t m \<longleftrightarrow> (\<forall>i<SECTOR_SIZE. m (p + of_nat i) = f (t * SECTOR_SIZE + i))"

lemma sector_nth: "i < 512 \<Longrightarrow> sector f t (of_nat i) = f (t * SECTOR_SIZE + i)"
  by (simp add: sector_def)

lemma load16_sector: "holds_sector p f t m \<Longrightarrow> i + 1 < 512 \<Longrightarrow> load16 m (p + of_nat i) = load16 (sector f t) (of_nat i)"
proof -
  assume h: "holds_sector p f t m" and i: "i + 1 < 512"
  have "m (p + of_nat (i + 1)) = sector f t (of_nat (i + 1))" "m (p + of_nat i) = sector f t (of_nat i)"
    using h i by (simp_all only: sector_nth holds_sector_def)
  then show ?thesis by (simp add: load16_def ac_simps)
qed

lemma load32_sector: "holds_sector p f t m \<Longrightarrow> i + 3 < 512 \<Longrightarrow> load32 m (p + of_nat i) = load32 (sector f t) (of_nat i)"
  using load16_sector [of p f t m i] load16_sector [of p f t m "i + 2"] by (simp add: load32_def ac_simps)

lemma fields_sector:
  assumes "holds_sector p f t m"
  shows "i < 4 \<Longrightarrow> slice_type_at p i m = slice_type_at 0 i (sector f t)" "i < 4 \<Longrightarrow> slice_start p i m = slice_start 0 i (sector f t)"
    "i < 4 \<Longrightarrow> slice_length p i m = slice_length 0 i (sector f t)" "mbr_sig p m = mbr_sig 0 (sector f t)"
    "find_extended p m = find_extended 0 (sector f t)"
proof -
  show type: "slice_type_at p i m = slice_type_at 0 i (sector f t)" if "i < 4" for i
    using assms that by (simp only: slice_type_at_def holds_sector_def slice_at_def add_0 sector_nth)
  show "slice_start p i m = slice_start 0 i (sector f t)" if "i < 4"
    using load32_sector [OF assms, of "slice_at i + 8"] that by (simp add: slice_start_def slice_at_def)
  show "slice_length p i m = slice_length 0 i (sector f t)" if "i < 4"
    using load32_sector [OF assms, of "slice_at i + 12"] that by (simp add: slice_length_def slice_at_def)
  show "mbr_sig p m = mbr_sig 0 (sector f t)" using load16_sector [OF assms, of 510] by (simp add: mbr_sig_def)
  show "find_extended p m = find_extended 0 (sector f t)"
    unfolding find_extended_def by (rule find_cong) (simp_all add: type)
qed

section \<open>The walk\<close>

definition slice_word :: "int \<Rightarrow> u32" where
  "slice_word no = word_of_int (no * 65536) OR 0xFFFF"

definition is_entry :: "(nat \<Rightarrow> u8) \<Rightarrow> int \<Rightarrow> nat \<times> nat \<Rightarrow> slice_info \<Rightarrow> bool" where
  "is_entry f no x c \<longleftrightarrow> si_partition c = slice_word no \<and> si_type c = type_of f x \<and> si_start c = start_of f x \<and> si_len c = length_of f x \<and>
     si_offset c = of_nat (fst x) \<and> si_entry c = int (snd x)"

text \<open>The cursor stands before the entries \<open>xs\<close>, and the number of the entry before it is \<open>no\<close>.\<close>

definition cursor :: "(nat \<Rightarrow> u8) \<Rightarrow> nat \<Rightarrow> int \<Rightarrow> (nat \<times> nat) list \<Rightarrow> slice_info \<Rightarrow> bool" where
  "cursor f n no xs c \<longleftrightarrow>
     no = - 1 \<and> si_partition c = 0xFFFFFF \<and> (\<exists>ts. xs = entries ts \<and> table_chain f n 0 0 ts) \<or>
     0 \<le> no \<and> no < 255 \<and> si_partition c = slice_word no \<and>
       (\<exists>t i ts. xs = map (Pair t) [Suc i..<4] @ entries ts \<and> i < 4 \<and> si_offset c = of_nat t \<and> si_entry c = int i \<and>
          table_chain f n (si_ext c) (of_nat t) (t # ts))"

lemma slice_word_number: "0 \<le> no \<Longrightarrow> no < 256 \<Longrightarrow> int (unat (drop_bit 16 (slice_word no AND 0xFF0000))) = no"
proof -
  assume "0 \<le> no" "no < 256"
  then have "no \<in> set [0..255]" by auto
  moreover have "\<forall>no\<in>set [0..255]. int (unat (drop_bit 16 (slice_word no AND 0xFF0000))) = no" by code_simp
  ultimately show ?thesis by blast
qed

lemma slice_word_not_FF: "0 \<le> no \<Longrightarrow> no < 255 \<Longrightarrow> drop_bit 16 (slice_word no) \<noteq> 0xFF"
proof -
  assume "0 \<le> no" "no < 255"
  then have "no \<in> set [0..254]" by auto
  moreover have "\<forall>no\<in>set [0..254]. drop_bit 16 (slice_word no) \<noteq> 0xFF" by code_simp
  ultimately show ?thesis by blast
qed

lemma slice_word_sane: "0 \<le> no \<Longrightarrow> no < 255 \<Longrightarrow>
    slice_word no AND 0xFF000000 = 0 \<and> slice_word no AND 0xFF = 0xFF \<and> slice_word no AND 0xFF00 = 0xFF00"
proof -
  assume "0 \<le> no" "no < 255"
  then have "no \<in> set [0..254]" by auto
  moreover have "\<forall>no\<in>set [0..254]. slice_word no AND 0xFF000000 = 0 \<and> slice_word no AND 0xFF = 0xFF \<and>
      slice_word no AND 0xFF00 = 0xFF00" by code_simp
  ultimately show ?thesis by blast
qed

lemma byte_and_FF: "0 \<le> t \<and> t < 256 \<Longrightarrow> t AND 0xff = (t :: int)"
proof -
  assume "0 \<le> t \<and> t < 256"
  moreover have "t AND 0xff = take_bit 8 t" by (simp add: take_bit_eq_mask mask_eq_exp_minus_1)
  ultimately show ?thesis by (simp add: take_bit_int_eq_self)
qed

lemma number_ge: "- 1 \<le> no \<Longrightarrow> 0 \<le> number f no x" "no \<le> number f no x"
  by (auto simp: number_def)

lemma table_chainD: "table_chain f n ext off (t # ts) \<Longrightarrow> t < n" "table_chain f n ext off (t # ts) \<Longrightarrow> mbr_sig 0 (sector f t) = PC_MBR_SIGNATURE"
  "table_chain f n ext off (t # ts) \<Longrightarrow> off = of_nat t"
  by simp_all

lemma table_chain_end: "table_chain f n ext off (t # us) \<Longrightarrow> find_extended 0 (sector f t) = None \<Longrightarrow> us = []"
  by simp

lemma table_chain_step: "table_chain f n ext off (t # us) \<Longrightarrow> find_extended 0 (sector f t) = Some i \<Longrightarrow>
    table_chain f n (if ext = 0 then ext + slice_start 0 i (sector f t) else ext) (ext + slice_start 0 i (sector f t)) us"
  by (simp add: Let_def cong: if_cong)

lemma table_chain_not_Nil: "table_chain f n ext off us \<Longrightarrow> us \<noteq> []"
  by auto

lemmas [simp del] = table_chain.simps(2)

text \<open>A state in which one sector of the drive can be read to \<open>buf\<close>.\<close>

definition walkable :: "('w \<Rightarrow> int \<Rightarrow> geometry) \<Rightarrow> ('w \<Rightarrow> int \<Rightarrow> bool) \<Rightarrow> ('w \<Rightarrow> int \<Rightarrow> nat \<Rightarrow> u8) \<Rightarrow> int \<Rightarrow> u32 \<Rightarrow> ('w, 'e) disk_scheme \<Rightarrow> bool" where
  "walkable geom present content d buf s \<longleftrightarrow> present (world s) d \<and> sectors (geom (world s) d) dvd total_sectors (geom (world s) d) \<and>
     no_ezd (sectors (geom (world s) d)) (content (world s) d) \<and> cached geom present content s \<and> errnum s = ERR_NONE \<and>
     target_ok buf 512 s"

text \<open>Opening: what is left when entry \<open>x\<close> was found under number \<open>k\<close>.\<close>

definition opened :: "(nat \<Rightarrow> u8) \<Rightarrow> int \<Rightarrow> nat \<times> nat \<Rightarrow> ('w, 'e) parts_scheme \<Rightarrow> bool" where
  "opened f k x t \<longleftrightarrow> current_partition t = slice_word k \<and> current_slice t = type_of f x \<and> part_start t = unat (start_of f x) \<and>
     part_length t = unat (length_of f x) \<and> cur_part_offset t = of_nat (fst x) \<and>
     cur_part_addr t = BOOT_PART_TABLE + of_nat (16 * snd x) \<and> errnum t = ERR_NONE"

context sector_device
begin

lemma read_sector:
  assumes "walkable geom present content d buf s" "t < total_sectors (geom (world s) d)"
  obtains u where "rawread fw d (sint (of_nat t :: u32)) 0 512 buf s = Some (1, u)" "walkable geom present content d buf u" "keeps s u" "world u = world s"
    "holds_sector buf (content (world s) d) t (mem u)"
proof -
  note w = assms(1) [unfolded walkable_def]
  have total: "total_sectors (geom (world s) d) < 2 ^ 31" using geom_ok w by blast
  then have t: "sint (of_nat t :: u32) = int t" using assms(2) by (simp add: sint_of_nat_u32)
  have range: "t * SECTOR_SIZE + 0 + 512 \<le> total_sectors (geom (world s) d) * SECTOR_SIZE"
    using mult_le_mono1 [of "Suc t" _ SECTOR_SIZE] assms(2) by simp
  obtain u where u: "rawread fw d (int t) (int 0) (int 512) buf s = Some (1, u)"
    "has_read (content (world s) d) (t * SECTOR_SIZE + 0) buf 512 s u" "cached geom present content u"
    using rawread_ok [OF sector_device_axioms, of s d 0 512 t buf] w range by auto
  then have "walkable geom present content d buf u" unfolding walkable_def using w target_ok_same [of buf 512 s u] by (simp add: has_read_def)
  then show ?thesis using that u unfolding has_read_def holds_sector_def t by simp
qed

text \<open>One table is read for the entry that follows.\<close>

lemma next_entry:
  assumes "walkable geom present content d buf s" "t < total_sectors (geom (world s) d)" "mbr_sig 0 (sector (content (world s) d) t) = PC_MBR_SIGNATURE"
    and "(let no = int (unat (drop_bit 16 (si_partition c AND 0xFF0000)))
      in if no = 0xFF then (- 1, c\<lparr>si_offset := 0, si_ext := 0, si_entry := - 1\<rparr>) else (no, c)) = (no, c')"
    and "si_offset c' = of_nat t"
  obtains u where "walkable geom present content d buf u" "keeps s u" "world u = world s" "holds_sector buf (content (world s) d) t (mem u)"
    "next_pc_slice fw d buf c s =
      (let c = c'\<lparr>si_entry := si_entry c' + 1\<rparr>
       in if si_entry c = 4 then
            (case find_extended 0 (sector (content (world s) d) t) of
              None \<Rightarrow> Some (False, c, u\<lparr>errnum := ERR_NO_PART\<rparr>)
            | Some i \<Rightarrow>
                (let offset = si_ext c + slice_start 0 i (sector (content (world s) d) t)
                 in next_pc_slice fw d buf
                      (c\<lparr>si_offset := offset, si_ext := (if si_ext c = 0 then offset else si_ext c), si_entry := - 1\<rparr>) u))
          else Some (True, this_slice buf no c (mem u), u))"
proof -
  obtain u where u: "rawread fw d (sint (si_offset c')) 0 512 buf s = Some (1, u)" "walkable geom present content d buf u" "keeps s u" "world u = world s"
    "holds_sector buf (content (world s) d) t (mem u)"
    using read_sector [OF assms(1,2)] unfolding assms(5) by metis
  note fields = fields_sector [OF u(5)]
  have "slice_start buf i (mem u) = slice_start 0 i (sector (content (world s) d) t)" if "find_extended 0 (sector (content (world s) d) t) = Some i" for i
    using that fields(2) [of i] by (auto simp: find_extended_def find_Some_iff)
  then have "next_pc_slice fw d buf c s =
      (let c = c'\<lparr>si_entry := si_entry c' + 1\<rparr>
       in if si_entry c = 4 then
            (case find_extended 0 (sector (content (world s) d) t) of
              None \<Rightarrow> Some (False, c, u\<lparr>errnum := ERR_NO_PART\<rparr>)
            | Some i \<Rightarrow>
                (let offset = si_ext c + slice_start 0 i (sector (content (world s) d) t)
                 in next_pc_slice fw d buf
                      (c\<lparr>si_offset := offset, si_ext := (if si_ext c = 0 then offset else si_ext c), si_entry := - 1\<rparr>) u))
          else Some (True, this_slice buf no c (mem u), u))"
    using assms(4) u(1) fields(4,5) assms(3)
    by (subst next_pc_slice.simps) (auto simp: Let_def split: option.splits)
  then show ?thesis by (rule that [OF u(2-5)])
qed

lemma enter_entry:
  assumes "walkable geom present content d buf s" "f = content (world s) d" "n = total_sectors (geom (world s) d)"
    and "(let no = int (unat (drop_bit 16 (si_partition c AND 0xFF0000)))
      in if no = 0xFF then (- 1, c\<lparr>si_offset := 0, si_ext := 0, si_entry := - 1\<rparr>) else (no, c)) = (no, c')"
    and "table_chain f n (si_ext c') (of_nat t) (t # ts)" "si_offset c' = of_nat t" "si_entry c' = int j - 1" "j < 4" "- 1 \<le> no"
    and "number f no (t, j) < 255"
  shows "\<exists>r u. next_pc_slice fw d buf c s = Some (True, r, u) \<and> walkable geom present content d buf u \<and> keeps s u \<and> world u = world s \<and>
    is_entry f (number f no (t, j)) (t, j) r \<and> cursor f n (number f no (t, j)) (map (Pair t) [Suc j..<4] @ entries ts) r \<and>
    holds_sector buf f t (mem u)"
proof -
  have t: "t < total_sectors (geom (world s) d)" "mbr_sig 0 (sector (content (world s) d) t) = PC_MBR_SIGNATURE"
    using table_chainD [OF assms(5)] assms(2,3) by simp_all
  define c2 where "c2 = c'\<lparr>si_entry := si_entry c' + 1\<rparr>"
  obtain u where u: "walkable geom present content d buf u" "keeps s u" "world u = world s" "holds_sector buf (content (world s) d) t (mem u)"
    "next_pc_slice fw d buf c s =
      (let c = c'\<lparr>si_entry := si_entry c' + 1\<rparr>
       in if si_entry c = 4 then
            (case find_extended 0 (sector (content (world s) d) t) of
              None \<Rightarrow> Some (False, c, u\<lparr>errnum := ERR_NO_PART\<rparr>)
            | Some i \<Rightarrow>
                (let offset = si_ext c + slice_start 0 i (sector (content (world s) d) t)
                 in next_pc_slice fw d buf
                      (c\<lparr>si_offset := offset, si_ext := (if si_ext c = 0 then offset else si_ext c), si_entry := - 1\<rparr>) u))
          else Some (True, this_slice buf no c (mem u), u))"
    by (rule next_entry [OF assms(1) t assms(4,6)])
  have e: "si_entry c2 = int j" "si_offset c2 = of_nat t" "si_ext c2 = si_ext c'" using assms(6,7) by (simp_all add: c2_def)
  define r where "r = this_slice buf no c2 (mem u)"
  have "si_entry c2 \<noteq> 4" using e(1) assms(8) by simp
  then have call: "next_pc_slice fw d buf c s = Some (True, r, u)" unfolding u(5) Let_def r_def c2_def [symmetric] by simp
  note fields = fields_sector [OF u(4)]
  have "is_entry f (number f no (t, j)) (t, j) r"
    using e fields(1-3) [OF assms(8)] assms(2)
    by (simp add: r_def this_slice_def is_entry_def Let_def type_of_def start_of_def length_of_def number_def slice_word_def)
  moreover from this have "cursor f n (number f no (t, j)) (map (Pair t) [Suc j..<4] @ entries ts) r"
  proof -
    have "si_ext r = si_ext c'" using e(3) by (simp add: r_def this_slice_def Let_def)
    then show ?thesis using \<open>is_entry f (number f no (t, j)) (t, j) r\<close> number_ge(1) [OF assms(9), of f "(t, j)"] assms(5,8,10)
      unfolding cursor_def is_entry_def by auto
  qed
  ultimately show ?thesis using call u(1-4) assms(2) by auto
qed

lemma decode_cursor:
  assumes "si_partition c = slice_word no" "0 \<le> no" "no < 255"
  shows "(let no = int (unat (drop_bit 16 (si_partition c AND 0xFF0000)))
      in if no = 0xFF then (- 1, c\<lparr>si_offset := 0, si_ext := 0, si_entry := - 1\<rparr>) else (no, c)) = (no, c)"
  using slice_word_number [of no] assms by simp

lemma decode_start:
  "si_partition c = 0xFFFFFF \<Longrightarrow> (let no = int (unat (drop_bit 16 (si_partition c AND 0xFF0000)))
      in if no = 0xFF then (- 1, c\<lparr>si_offset := 0, si_ext := 0, si_entry := - 1\<rparr>) else (no, c)) =
    (- 1, c\<lparr>si_offset := 0, si_ext := 0, si_entry := - 1\<rparr>)"
  by simp

lemma next_slice_some:
  assumes "walkable geom present content d buf s" "f = content (world s) d" "n = total_sectors (geom (world s) d)" "cursor f n no (x # xs) c" "number f no x < 255"
  shows "\<exists>r u. next_pc_slice fw d buf c s = Some (True, r, u) \<and> walkable geom present content d buf u \<and> keeps s u \<and> world u = world s \<and>
    is_entry f (number f no x) x r \<and> cursor f n (number f no x) xs r \<and> holds_sector buf f (fst x) (mem u)"
  using assms(4) [unfolded cursor_def]
proof (elim disjE conjE exE)
  fix ts
  assume no: "no = - 1" "si_partition c = 0xFFFFFF" and xs: "x # xs = entries ts" and chain: "table_chain f n 0 0 ts"
  obtain t ts' where ts: "ts = t # ts'" using chain by (cases ts) auto
  have x: "x = (t, 0)" "xs = map (Pair t) [Suc 0..<4] @ entries ts'" using xs unfolding ts by (simp_all add: upt_rec)
  have t: "of_nat t = (0 :: u32)" using table_chainD(3) chain ts by metis
  let ?c = "c\<lparr>si_offset := 0, si_ext := 0, si_entry := - 1\<rparr>"
  have "table_chain f n (si_ext ?c) (of_nat t) (t # ts')" "si_offset ?c = of_nat t" "si_entry ?c = int 0 - 1" using chain ts t by simp_all
  from enter_entry [OF assms(1-3) decode_start [OF no(2)] this _ _ assms(5) [unfolded no(1) x(1)]]
  show ?thesis unfolding no(1) x fst_conv by simp
next
  fix t i ts
  assume no: "0 \<le> no" "no < 255" "si_partition c = slice_word no" and xs: "x # xs = map (Pair t) [Suc i..<4] @ entries ts"
    and i: "i < 4" "si_offset c = of_nat t" "si_entry c = int i" and chain: "table_chain f n (si_ext c) (of_nat t) (t # ts)"
  note decode = decode_cursor [OF no(3,1,2)]
  show ?thesis
  proof (cases "Suc i < 4")
    case True
    then have x: "x = (t, Suc i)" "xs = map (Pair t) [Suc (Suc i)..<4] @ entries ts" using xs by (simp_all add: upt_conv_Cons)
    have "si_entry c = int (Suc i) - 1" using i(3) by simp
    from enter_entry [OF assms(1-3) decode chain i(2) this True _ assms(5) [unfolded x(1)]] no(1)
    show ?thesis unfolding x fst_conv by simp
  next
    case False
    then have i3: "i = 3" using i(1) by simp
    then have xs': "x # xs = entries ts" using xs by simp
    then obtain t' ts' where ts: "ts = t' # ts'" by (cases ts) simp_all
    have x: "x = (t', 0)" "xs = map (Pair t') [Suc 0..<4] @ entries ts'" using xs' unfolding ts by (simp_all add: upt_rec)
    obtain k where k: "find_extended 0 (sector f t) = Some k" using table_chain_end [OF chain] ts by (cases "find_extended 0 (sector f t)") auto
    define off where "off = si_ext c + slice_start 0 k (sector f t)"
    have link: "table_chain f n (if si_ext c = 0 then off else si_ext c) off (t' # ts')"
      using table_chain_step [OF chain k] ts unfolding off_def by simp
    have off: "off = of_nat t'" using table_chainD(3) [OF link] .
    have t: "t < total_sectors (geom (world s) d)" "mbr_sig 0 (sector (content (world s) d) t) = PC_MBR_SIGNATURE"
      using table_chainD [OF chain] assms(2,3) by simp_all
    let ?c = "c\<lparr>si_entry := si_entry c + 1\<rparr>\<lparr>si_offset := off, si_ext := (if si_ext c = 0 then off else si_ext c), si_entry := - 1\<rparr>"
    obtain u where u: "walkable geom present content d buf u" "keeps s u" "world u = world s" "next_pc_slice fw d buf c s = next_pc_slice fw d buf ?c u"
      by (rule next_entry [OF assms(1) t decode i(2)]) (use i(3) i3 k assms(2) in \<open>simp add: Let_def off_def cong: if_cong\<close>)
    have c: "si_partition ?c = slice_word no" "table_chain f n (si_ext ?c) (of_nat t') (t' # ts')" "si_offset ?c = of_nat t'"
      "si_entry ?c = int 0 - 1" using no(3) link off by simp_all
    have fn: "f = content (world u) d" "n = total_sectors (geom (world u) d)" using assms(2,3) u(3) by simp_all
    obtain r v where "next_pc_slice fw d buf ?c u = Some (True, r, v)" "walkable geom present content d buf v" "keeps u v" "world v = world u"
      "is_entry f (number f no x) x r" "cursor f n (number f no x) xs r" "holds_sector buf f (fst x) (mem v)"
      using enter_entry [OF u(1) fn decode_cursor [OF c(1) no(1,2)] c(2-4) _ _ assms(5) [unfolded x(1)]] no(1) unfolding x fst_conv by auto
    then show ?thesis using u(2-4) keeps_trans by (metis (no_types, lifting))
  qed
qed

lemma next_slice_none:
  assumes "walkable geom present content d buf s" "f = content (world s) d" "n = total_sectors (geom (world s) d)" "cursor f n no [] c"
  shows "\<exists>r u. next_pc_slice fw d buf c s = Some (False, r, u\<lparr>errnum := ERR_NO_PART\<rparr>) \<and> walkable geom present content d buf u \<and> keeps s u \<and> world u = world s"
proof -
  have "\<not> (\<exists>ts. [] = entries ts \<and> table_chain f n 0 0 ts)"
  proof
    assume "\<exists>ts. [] = entries ts \<and> table_chain f n 0 0 ts"
    then obtain ts where "[] = entries ts" "table_chain f n 0 0 ts" by blast
    then show False by (cases ts) simp_all
  qed
  then obtain t i ts where no: "0 \<le> no" "no < 255" "si_partition c = slice_word no" and xs: "[] = map (Pair t) [Suc i..<4] @ entries ts"
    and i: "i < 4" "si_offset c = of_nat t" "si_entry c = int i" and chain: "table_chain f n (si_ext c) (of_nat t) (t # ts)"
    using assms(4) unfolding cursor_def by blast
  have ts: "ts = []" "i = 3" using xs i(1) by (cases ts; simp)+
  have none: "find_extended 0 (sector f t) = None"
    using table_chain_step [OF chain] table_chain_not_Nil ts(1) by (cases "find_extended 0 (sector f t)") blast+
  have t: "t < total_sectors (geom (world s) d)" "mbr_sig 0 (sector (content (world s) d) t) = PC_MBR_SIGNATURE"
    using table_chainD [OF chain] assms(2,3) by simp_all
  obtain u where u: "walkable geom present content d buf u" "keeps s u" "world u = world s"
    "next_pc_slice fw d buf c s = Some (False, c\<lparr>si_entry := 4\<rparr>, u\<lparr>errnum := ERR_NO_PART\<rparr>)"
    by (rule next_entry [OF assms(1) t decode_cursor [OF no(3,1,2)] i(2)]) (use i(3) ts(2) none assms(2) in \<open>simp add: Let_def\<close>)
  then show ?thesis by blast
qed

lemma cached_cong:
  "cached geom present content s \<Longrightarrow> world t = world s \<Longrightarrow> mem t = mem s \<Longrightarrow> buf_drive t = buf_drive s \<Longrightarrow>
    buf_track t = buf_track s \<Longrightarrow> buf_geom t = buf_geom s \<Longrightarrow> cached geom present content t"
  by (simp only: cached_def)

lemma walkable_cong:
  "walkable geom present content d buf s \<Longrightarrow> world t = world s \<Longrightarrow> mem t = mem s \<Longrightarrow> errnum t = errnum s \<Longrightarrow> buf_drive t = buf_drive s \<Longrightarrow>
    buf_track t = buf_track s \<Longrightarrow> buf_geom t = buf_geom s \<Longrightarrow> mem_lower t = mem_lower s \<Longrightarrow> mem_upper t = mem_upper s \<Longrightarrow>
    walkable geom present content d buf t"
  using target_ok_same [of buf 512 s t] cached_cong [of s t] by (simp add: walkable_def)

lemma keeps_lower: "keeps s t \<Longrightarrow> mem_lower t = mem_lower s" "keeps s t \<Longrightarrow> mem_upper t = mem_upper s"
  by (cases s, cases t, simp add: keeps_def)+

lemma open_loop_finds:
  assumes "0 \<le> k" "k < 255" "d AND 0x80 \<noteq> 0" "d \<noteq> NETWORK_DRIVE"
  shows "walkable geom present content d buf s \<Longrightarrow> f = content (world s) d \<Longrightarrow> n = total_sectors (geom (world s) d) \<Longrightarrow> current_drive s = d \<Longrightarrow>
    cursor f n no xs c \<Longrightarrow> \<not> is_bsd (si_type c AND 0xff) \<Longrightarrow> \<forall>x\<in>set xs. \<not> is_bsd (type_of f x) \<Longrightarrow>
    \<forall>(m, x)\<in>set (listing f no xs). m < 255 \<Longrightarrow>
    \<exists>r t. open_loop fw (slice_word k) buf c s = Some (r, t) \<and> world t = world s \<and> current_drive t = d \<and>
      disk_read_func t = disk_read_func s \<and> mem_lower t = mem_lower s \<and> mem_upper t = mem_upper s \<and>
      cached geom present content t \<and>
      (case find (\<lambda>(no, x). no = k \<and> type_of f x \<noteq> 0) (listing f no xs) of
        None \<Rightarrow> r = 0 \<and> errnum t = ERR_NO_PART
      | Some (m, x) \<Rightarrow> r = 1 \<and> opened f k x t)"
proof (induction xs arbitrary: no c s)
  case Nil
  obtain r u where u: "next_pc_slice fw d buf c s = Some (False, r, u\<lparr>errnum := ERR_NO_PART\<rparr>)" "walkable geom present content d buf u" "keeps s u" "world u = world s"
    using next_slice_none [OF Nil.prems(1-3,5)] by auto
  have "next_partition fw (current_drive s) (slice_word k) buf c s = Some (False, r, u\<lparr>errnum := ERR_NO_PART\<rparr>)"
    using u(1) assms(3,4) Nil.prems(4,6) by (simp add: next_partition_def)
  then have "open_loop fw (slice_word k) buf c s = Some (0, set_part r (u\<lparr>errnum := ERR_NO_PART\<rparr>))"
    by (subst open_loop.simps) simp
  moreover have "cached geom present content (set_part r (u\<lparr>errnum := ERR_NO_PART\<rparr>))"
    by (rule cached_cong [of u]) (use u(2) in \<open>simp_all add: set_part_def walkable_def\<close>)
  ultimately show ?case using u(3,4) Nil.prems(4) by (simp add: set_part_def keepsD keeps_lower)
next
  case (Cons x xs)
  let ?m = "number f no x"
  have m: "?m < 255" using Cons.prems(8) by simp
  have "- 1 \<le> no" using Cons.prems(5) by (auto simp: cursor_def)
  then have m0: "0 \<le> ?m" by (rule number_ge)
  have not_FF: "drop_bit 16 (slice_word k) \<noteq> 0xFF" by (rule slice_word_not_FF [OF assms(1,2)])
  obtain r u where u: "next_pc_slice fw d buf c s = Some (True, r, u)" "walkable geom present content d buf u" "keeps s u" "world u = world s"
    "is_entry f ?m x r" "cursor f n ?m xs r"
    using next_slice_some [OF Cons.prems(1-3,5) m] by auto
  define v where "v = (set_part r u)\<lparr>cur_part_offset := si_offset r, cur_part_addr := BOOT_PART_TABLE + word_of_int (si_entry r * 16)\<rparr>"
  have call: "next_partition fw (current_drive s) (slice_word k) buf c s = Some (True, r, u)"
    using u(1) assms(3,4) Cons.prems(4,6) by (simp add: next_partition_def)
  have r: "si_type r = type_of f x" "si_partition r = slice_word ?m" using u(5) by (simp_all add: is_entry_def)
  have e: "errnum u = ERR_NONE" using u(2) by (simp add: walkable_def)
  have v: "world v = world s" "current_drive v = d" "current_slice v = type_of f x" "current_partition v = slice_word ?m" "errnum v = ERR_NONE"
    "disk_read_func v = disk_read_func s" "mem_lower v = mem_lower u" "mem_upper v = mem_upper u"
    using u(3,4) r e Cons.prems(4) by (simp_all add: v_def set_part_def keepsD)
  have lower: "mem_lower u = mem_lower s" "mem_upper u = mem_upper s"
    using u(3) by (simp_all add: keeps_lower)
  have walk: "walkable geom present content d buf v" by (rule walkable_cong [OF u(2)]) (simp_all add: v_def set_part_def)
  have same: "v\<lparr>errnum := ERR_NONE\<rparr> = v" using v(5) by simp
  have body: "open_loop fw (slice_word k) buf c s =
    (if current_slice v = 0 then open_loop fw (slice_word k) buf r v
     else if slice_word k = current_partition (v\<lparr>errnum := ERR_NONE\<rparr>) \<or> drop_bit 16 (slice_word k) = 0xFF \<and>
       drop_bit 8 (slice_word k) AND 0xFF = drop_bit 8 (current_partition v) AND 0xFF
     then Some (1, v\<lparr>errnum := ERR_NONE\<rparr>) else open_loop fw (slice_word k) buf r (v\<lparr>errnum := ERR_NONE\<rparr>))"
    by (subst open_loop.simps) (simp add: call v_def Let_def cong: if_cong)
  have types: "0 \<le> type_of f x \<and> type_of f x < 256" 
    unfolding type_of_def using unat_u8_less [of "slice_type_at 0 (snd x) (sector f (fst x))"] by linarith
  show ?case
  proof (cases "type_of f x \<noteq> 0 \<and> ?m = k")
    case True
    have "opened f k x v"
      using True u(5) v e by (simp add: opened_def is_entry_def v_def set_part_def ac_simps)
    moreover have "open_loop fw (slice_word k) buf c s = Some (1, v)"
      using True v(3,4) unfolding body same by simp
    moreover have "cached geom present content v" using walk by (simp add: walkable_def)
    ultimately show ?thesis using True v lower by simp
  next
    case False
    have other: "slice_word k \<noteq> slice_word ?m" if "type_of f x \<noteq> 0"
    proof
      assume "slice_word k = slice_word ?m"
      then have "k = ?m" using slice_word_number [of k] slice_word_number [of ?m] assms(1,2) m m0 by simp
      then show False using False that by simp
    qed
    have rest: "open_loop fw (slice_word k) buf c s = open_loop fw (slice_word k) buf r v"
      using v(3,4) other not_FF unfolding body same by auto
    have "\<not> is_bsd (si_type r AND 0xff)" using Cons.prems(7) byte_and_FF types r(1) by simp
    moreover have "f = content (world v) d" "n = total_sectors (geom (world v) d)" using Cons.prems(2,3) v(1) by simp_all
    ultimately have "\<exists>q t. open_loop fw (slice_word k) buf r v = Some (q, t) \<and> world t = world v \<and> current_drive t = d \<and>
      disk_read_func t = disk_read_func v \<and> mem_lower t = mem_lower v \<and> mem_upper t = mem_upper v \<and> cached geom present content t \<and>
      (case find (\<lambda>(no, x). no = k \<and> type_of f x \<noteq> 0) (listing f ?m xs) of
        None \<Rightarrow> q = 0 \<and> errnum t = ERR_NO_PART
      | Some (m, x) \<Rightarrow> q = 1 \<and> opened f k x t)"
      by (intro Cons.IH [OF walk _ _ v(2) u(6)]) (use Cons.prems(7,8) in simp_all)
    moreover have "find (\<lambda>(no, x). no = k \<and> type_of f x \<noteq> 0) (listing f no (x # xs)) =
        find (\<lambda>(no, x). no = k \<and> type_of f x \<noteq> 0) (listing f ?m xs)" using False by auto
    ultimately show ?thesis unfolding rest using v lower by simp
  qed
qed

lemma open_partition_ok:
  assumes "walkable geom present content d buf s" "current_drive s = d" "d AND 0x80 \<noteq> 0" "d AND 0xFFFFFF7F < 8 \<or> d = cdrom_drive s"
    and "current_partition s = slice_word k" "0 \<le> k" "k < 255"
    and "f = content (world s) d" "table_chain f (total_sectors (geom (world s) d)) 0 0 ts"
    and "\<forall>x\<in>set (entries ts). \<not> is_bsd (type_of f x)" "\<forall>(m, x)\<in>set (listing f (- 1) (entries ts)). m < 255"
  shows "\<exists>r t. open_partition fw buf stack s = Some (r, t) \<and> world t = world s \<and> current_drive t = d \<and>
      disk_read_func t = disk_read_func s \<and> mem_lower t = mem_lower s \<and> mem_upper t = mem_upper s \<and> cached geom present content t \<and>
      (case find_part f ts k of None \<Rightarrow> r = 0 \<and> errnum t = ERR_NO_PART | Some (m, x) \<Rightarrow> r = 1 \<and> opened f k x t)"
proof -
  have d: "d \<noteq> NETWORK_DRIVE" using assms(3) by auto
  have sane: "sane_partition s = (True, s)"
    using d assms(2-4) slice_word_sane [OF assms(6,7)] unfolding sane_partition_def sane_values_def assms(5) by auto
  have part: "slice_word k \<noteq> 0xFFFFFF" using slice_word_not_FF [OF assms(6,7)] by auto
  let ?s = "s\<lparr>bsd_evil_hack := 0, current_slice := 0, part_start := 0\<rparr>"
  have w: "walkable geom present content d buf ?s" by (rule walkable_cong [OF assms(1)]) simp_all
  then have "present (world ?s) d" "cached geom present content ?s" by (simp_all add: walkable_def)
  then obtain t where t: "select_drive fw d ?s = (True, t)"
    "t = ?s\<lparr>buf_drive := d, buf_track := buf_track t, buf_geom := geom (world ?s) d\<rparr>" "cached geom present content t"
    using select_drive_ok by metis
  have ft: "world t = world s" "current_drive t = d" "errnum t = errnum s" "mem_lower t = mem_lower s" "mem_upper t = mem_upper s"
    "disk_read_func t = disk_read_func s" "current_partition t = slice_word k"
    by (subst t(2), simp add: assms(2,5))+
  let ?u = "t\<lparr>part_length := total_sectors (buf_geom t), current_partition := 0xFFFFFF\<rparr>"
  let ?c = "\<lparr>si_partition = 0xFFFFFF, si_type = 0, si_start = 0, si_len = of_nat (total_sectors (buf_geom t)),
    si_offset = fst stack, si_entry = fst (snd stack), si_ext = snd (snd stack)\<rparr>"
  have call: "open_partition fw buf stack s = open_loop fw (slice_word k) buf ?c ?u"
    using d assms(2,5) sane part t(1) ft(7) unfolding open_partition_def by simp
  have "walkable geom present content d buf ?u"
  proof -
    have "target_ok buf 512 ?u" by (rule target_ok_same [of buf 512 s]) (use assms(1) ft in \<open>simp_all add: walkable_def\<close>)
    moreover have "cached geom present content ?u" by (rule cached_cong [OF t(3)]) simp_all
    ultimately show ?thesis using assms(1) ft(1,3) by (simp add: walkable_def)
  qed
  moreover have "cursor f (total_sectors (geom (world s) d)) (- 1) (entries ts) ?c" using assms(9) unfolding cursor_def by auto
  moreover have "\<not> is_bsd (0 AND 0xff)" by (simp add: is_bsd_def)
  ultimately show ?thesis unfolding call find_part_def
    using open_loop_finds [OF assms(6,7,3) d, of buf ?u f "total_sectors (geom (world s) d)" "- 1" "entries ts" ?c] assms(8,10,11) ft(1,2,4-6)
    by simp
qed

end

text \<open>
  C10. Opening a partition: on a hard disk whose chain of partition tables is sound and which has no BSD labels, \<open>open_partition\<close>
  for number \<open>k\<close> returns 1 exactly when the listing of the tables has an entry with that number that is not empty, and then
  start, length, type and table entry are those of the first such entry; otherwise it returns 0 with \<open>ERR_NO_PART\<close>. It
  always returns, and the disk and the track buffer stay consistent.
\<close>

theorem open_partition_finds:
  assumes "sector_device fw geom present content" "walkable geom present content d buf s"
    and "current_drive s = d" "d AND 0x80 \<noteq> 0" "d AND 0xFFFFFF7F < 8 \<or> d = cdrom_drive s"
    and "current_partition s = slice_word k" "0 \<le> k" "k < 255"
    and "f = content (world s) d" "table_chain f (total_sectors (geom (world s) d)) 0 0 ts"
    and "\<forall>x\<in>set (entries ts). \<not> is_bsd (type_of f x)" "\<forall>(m, x)\<in>set (listing f (- 1) (entries ts)). m < 255"
  shows "\<exists>r t. open_partition fw buf stack s = Some (r, t) \<and> world t = world s \<and> cached geom present content t \<and>
      (case find_part f ts k of None \<Rightarrow> r = 0 \<and> errnum t = ERR_NO_PART | Some (m, x) \<Rightarrow> r = 1 \<and> opened f k x t)"
  using sector_device.open_partition_ok [OF assms] by blast

end
