(* ===== verification/GRUB_Disk_Props.thy ===== *)
theory GRUB_Disk_Props
  imports GRUB_Disk
begin

text \<open>
  Properties of the disk layer of \<open>GRUB_Disk\<close>: partitions, writing, and what goes wrong when the track buffer or the
  geometry are left in a state that does not fit.
\<close>

lemma has_read_nth: "has_read f p buf n s t \<Longrightarrow> i < n \<Longrightarrow> mem t (buf + of_nat i) = f (p + i)"
  by (simp add: has_read_def)

section \<open>Partitions\<close>

lemma devread_ok:
  assumes "sector_device fw geom present content" "present (world s) (current_drive s)" "geo = geom (world s) (current_drive s)"
    and "sectors geo dvd total_sectors geo" "no_ezd (sectors geo) (content (world s) (current_drive s))"
    and "cached geom present content s" "errnum s = ERR_NONE" "0 < len" "target_ok buf len s"
    and "part_start s + part_length s \<le> total_sectors geo" "k < 2 ^ 31" "off < 2 ^ 31"
  shows "if k * SECTOR_SIZE + off + len \<le> part_length s * SECTOR_SIZE
    then \<exists>t. devread fw (int k) (int off) (int len) buf s = Some (1, t) \<and> cached geom present content t \<and>
        has_read (content (world s) (current_drive s)) ((part_start s + k) * SECTOR_SIZE + off) buf len s t
    else devread fw (int k) (int off) (int len) buf s = Some (0, s\<lparr>errnum := ERR_OUTSIDE_PART\<rparr>)"
proof -
  have len: "len < 2 ^ 31" using assms(9) by (rule target_okD(4))
  have total: "total_sectors geo < 2 ^ 31" using sector_device.geom_ok [OF assms(1,2)] assms(3) by simp
  define j where "j = k + (off + len - 1) div 512"
  have sum: "int k + (int off + int len - 1) div 512 = int j"
  proof -
    have "int off + int len - 1 = int (off + len - 1)" using assms(8) by simp
    then show ?thesis unfolding j_def by (simp only: of_nat_add of_nat_div of_nat_numeral)
  qed
  have "off + len - 1 < 8388608 * 512" using assms(12) len by simp
  then have "(off + len - 1) div 512 < 8388608" by (rule less_mult_imp_div_less)
  then have "j < 4294967296" using assms(11) unfolding j_def by simp
  then have j: "int j mod 2 ^ 32 = int j" by simp
  have inside: "k * SECTOR_SIZE + off + len \<le> part_length s * SECTOR_SIZE \<longleftrightarrow> j < part_length s"
    using assms(8) unfolding j_def by linarith
  show ?thesis
  proof (cases "j < part_length s")
    case True
    then have a: "k * SECTOR_SIZE + off + len \<le> part_length s * SECTOR_SIZE" using inside by blast
    let ?k = "part_start s + (k + off div 512)"
    have "k + off div 512 \<le> j" unfolding j_def using assms(8) by (simp add: div_le_mono)
    then have "?k < 2 ^ 31" using True assms(10) total by linarith
    then have sector: "s32 (int (part_start s) + (int k + int off div 512)) = int ?k" by (simp add: of_nat_div s32_id)
    have pos: "?k * SECTOR_SIZE + off mod 512 = (part_start s + k) * SECTOR_SIZE + off" by (simp add: algebra_simps)
    have "(part_start s + k) * SECTOR_SIZE + off + len \<le> total_sectors geo * SECTOR_SIZE"
      using a mult_le_mono1 [OF assms(10), of SECTOR_SIZE] by (simp add: algebra_simps)
    then have "?k * SECTOR_SIZE + off mod 512 + len \<le> total_sectors (geom (world s) (current_drive s)) * SECTOR_SIZE"
      unfolding pos assms(3) .
    then obtain t where t: "rawread fw (current_drive s) (int ?k) (int (off mod 512)) (int len) buf s = Some (1, t)"
      "has_read (content (world s) (current_drive s)) (?k * SECTOR_SIZE + off mod 512) buf len s t" "cached geom present content t"
      using rawread_ok [OF assms(1,2) assms(4,5) [unfolded assms(3)] assms(6,7) _ assms(8) _ assms(9), of "off mod 512" ?k] by auto
    have "devread fw (int k) (int off) (int len) buf s = Some (1, t)"
      unfolding devread_def sum j sector using True t(1) by (simp add: of_nat_mod)
    then show ?thesis using a t(2,3) unfolding pos by auto
  next
    case False
    then have "devread fw (int k) (int off) (int len) buf s = Some (0, s\<lparr>errnum := ERR_OUTSIDE_PART\<rparr>)"
      unfolding devread_def sum j by simp
    then show ?thesis using False inside by simp
  qed
qed



section \<open>A buffer that does not hold its track\<close>

text \<open>A read of sectors that the buffer is said to hold takes what is in the buffer.\<close>

lemma rawread_hit:
  assumes "buf_drive s = d" "sectors_per_vtrack (buf_geom s) = int n" "sector_size (buf_geom s) = 512" "k < total_sectors (buf_geom s)"
    "buf_track s = int (k - k mod n)" "errnum s = ERR_NONE" "0 < len" "0 < n" "n \<le> 63" "len \<le> (n - k mod n) * 512" "target_ok buf len s"
  shows "\<exists>t. rawread fw d (int k) 0 (int len) buf s = Some (1, t) \<and>
    (\<forall>i<len. mem t (buf + of_nat i) = mem s (BUFFERADDR + of_nat (k mod n * 512 + i)))"
proof -
  let ?u = "if disk_read_func s then s\<lparr>hook_calls := hook_calls s @ read_calls (int k) 0 (int len) 512\<rparr> else s"
  let ?v = "snd (grub_memmove buf (BUFFERADDR + of_nat (k mod n * 512)) (of_nat len) ?u)"
  have mod: "k mod n < n" "k mod n \<le> k" using assms(8) by simp_all
  have x: "k mod n * 512 + len \<le> BUFFERLEN"
  proof -
    have "k mod n * 512 + (n - k mod n) * 512 = n * 512" using mod(1) by (simp add: diff_mult_distrib)
    then show ?thesis using assms(9,10) by linarith
  qed
  have ok: "target_ok buf len ?u" by (rule target_ok_same [OF assms(11)]) simp_all
  note copy = copy_to_target [OF ok order.refl x]
  have e: "errnum ?v = ERR_NONE" by (subst copy(1)) (simp add: assms(6))
  have pos: "int len > 0 \<and> errnum s = ERR_NONE" using assms(6,7) by simp
  have select: "select_drive fw d s = (True, s)" using assms(1) by (simp add: select_drive_def)
  have inside: "\<not> (int k < 0 \<or> int k \<ge> int (total_sectors (buf_geom s)))" using assms(4) by simp
  have n0: "int n \<noteq> 0" using assms(8) by simp
  have hit: "\<not> int k - int k mod int n \<noteq> buf_track s" using assms(5) mod by (simp add: of_nat_diff of_nat_mod)
  have count: "min (int len) ((int n - int k mod int n) * 2 ^ 9 - 0) = int len"
  proof -
    have "(int n - int k mod int n) * 2 ^ 9 = int ((n - k mod n) * 512)" using mod by (simp add: of_nat_diff of_nat_mod)
    then show ?thesis using assms(10) by linarith
  qed
  have addr: "word_of_int (int k mod int n * 2 ^ 9 + 0) = (of_nat (k mod n * 512) :: u32)"
    by (simp flip: of_nat_mod)
  have w: "word_of_int (int len) = (of_nat len :: u32)" "int len - int len = 0" by simp_all
  have "rawread_loop fw d (int k) 0 (int len) buf s = rawread_loop fw d (int k + (int n - int k mod int n)) 0 0 (buf + of_nat len) ?v"
    by (subst rawread_loop.simps, simp only: if_P [OF pos] select Let_def prod.case not_True_eq_False if_False if_not_P [OF inside] assms(2,3)
        log2_512 if_not_P [OF n0] of_nat_numeral if_not_P [OF hit] bind.bind_lunit count addr w)
  also have "\<dots> = Some (1, ?v)" using e by (subst rawread_loop.simps) simp
  finally have "rawread fw d (int k) 0 (int len) buf s = Some (1, ?v)" using assms(7) by (simp add: rawread_def)
  moreover have "mem ?v (buf + of_nat i) = mem s (BUFFERADDR + of_nat (k mod n * 512 + i))" if "i < len" for i
    using copy(2) [OF that] by simp
  ultimately show ?thesis by blast
qed

text \<open>
  C37. A defect of the track buffer: a read that asks for more than the rest of a track loads only the part it needs, to the
  start of the buffer, but marks the buffer as holding the whole track. When the read then fails, here because it runs over
  the end of the disk, the mark stays, and the next read of the first sector of that track succeeds with the bytes of the
  disk's last sector instead.
\<close>

theorem rawread_stale_buffer:
  assumes "sector_device fw geom present content" "present (world s) d" "n = sectors (geom (world s) d)" "all = total_sectors (geom (world s) d)"
    and "2 \<le> n" "n dvd all" "0 < all" "no_ezd n (content (world s) d)"
    and "cached geom present content s" "buf_track s \<noteq> int (all - n)" "errnum s = ERR_NONE" "target_ok buf 1024 s"
  shows "\<exists>t u. rawread fw d (int (all - 1)) 0 1024 buf s = Some (0, t) \<and> errnum t = ERR_GEOM \<and>
    rawread fw d (int (all - n)) 0 512 buf (t\<lparr>errnum := ERR_NONE\<rparr>) = Some (1, u) \<and>
    (\<forall>i<512. mem u (buf + of_nat i) = content (world s) d ((all - 1) * SECTOR_SIZE + i))"
proof -
  define K where "K = all - 1"
  note n = sector_device.geom_ok [OF assms(1,2)]
  obtain c where c: "all = n * c" "0 < c" using assms(6,7) by (auto elim!: dvdE)
  have big: "n \<le> all" using c by simp
  have "K = n - 1 + n * (c - 1)" using c assms(5) big by (simp add: K_def algebra_simps)
  then have "K mod n = (n - 1) mod n" by (simp only: mod_mult_self2)
  then have mod: "K mod n = n - 1" using assms(5) by simp
  have T: "all - n = K - K mod n" "1 = n - K mod n" "K < all" "K + 1 = all" using mod assms(5,7) big by (simp_all add: K_def)
  have ready: "sector_device.ready geom present content d (all - n) s" using assms(9) by (simp add: sector_device.ready_def [OF assms(1)])
  have P: "0 < SECTOR_SIZE" "(0 :: nat) < 1024" "K < total_sectors (geom (world s) d)" "n dvd total_sectors (geom (world s) d)"
    using T(3) assms(4,6) by simp_all
  have cut: "512 = min 1024 (1 * SECTOR_SIZE - 0)" by simp
  obtain t where t:
    "rawread_loop fw d (int K) (int 0) (int 1024) buf s = rawread_loop fw d (int (K + 1)) 0 (int (1024 - 512)) (buf + of_nat 512) t"
    "has_read (content (world s) d) (K * SECTOR_SIZE + 0) buf 512 s t" "buf_drive t = d" "buf_geom t = geom (world s) d"
    "buf_track t = int (all - n)" "(512 :: nat) = 1024 \<longrightarrow> cached geom present content t"
    "(512 :: nat) < 1024 \<and> buf_track s \<noteq> int (all - n) \<longrightarrow> buffer_from (1 * SECTOR_SIZE) (content (world s) d) (K * SECTOR_SIZE) (mem t)"
    by (rule sector_device.rawread_round [OF assms(1,2) ready assms(3) P(4) assms(8,11) P(1-3) assms(12) T(2,1) cut])
  have e: "errnum t = ERR_NONE" "mem_lower t = mem_lower s" "mem_upper t = mem_upper s" using t(2) by (simp_all add: has_read_def)
  have "rawread_loop fw d (int (K + 1)) 0 (int (1024 - 512)) (buf + of_nat 512) t = Some (0, t\<lparr>errnum := ERR_GEOM\<rparr>)"
    using e(1) t(3,4) T(4) assms(4) by (subst rawread_loop.simps) (simp add: select_drive_def)
  then have first: "rawread fw d (int K) 0 1024 buf s = Some (0, t\<lparr>errnum := ERR_GEOM\<rparr>)" using t(1) by (simp add: rawread_def)
  have mod2: "(all - n) mod n = 0" using c by (simp flip: diff_mult_distrib2)
  have "\<exists>u. rawread fw d (int (all - n)) 0 (int 512) buf t = Some (1, u) \<and>
    (\<forall>i<512. mem u (buf + of_nat i) = mem t (BUFFERADDR + of_nat ((all - n) mod n * 512 + i)))"
  proof (rule rawread_hit [where n = n])
    show "sectors_per_vtrack (buf_geom t) = int n" using sector_device.vtrack [OF assms(1,2)] t(4) assms(3) by simp
    show "target_ok buf 512 t"
    proof (rule target_ok_same)
      show "target_ok buf 512 s" using assms(12) unfolding target_ok_def no_wrap_def by auto
    qed (use e assms(11) in simp_all)
  qed (use t(3-5) mod2 n assms(3-5) big e T(3) in auto)
  then obtain u where u: "rawread fw d (int (all - n)) 0 512 buf t = Some (1, u)"
    "\<And>i. i < 512 \<Longrightarrow> mem u (buf + of_nat i) = mem t (BUFFERADDR + of_nat i)" using mod2 by auto
  have "buffer_from SECTOR_SIZE (content (world s) d) (K * SECTOR_SIZE) (mem t)" using t(7) assms(10) by simp
  then have "mem u (buf + of_nat i) = content (world s) d (K * SECTOR_SIZE + i)" if "i < 512" for i
    using u(2) [OF that] that by (simp add: buffer_from_def)
  moreover have "t\<lparr>errnum := ERR_GEOM\<rparr>\<lparr>errnum := ERR_NONE\<rparr> = t" using e(1) by simp
  ultimately show ?thesis using first u(1) unfolding K_def [symmetric] by auto
qed

theorem rawread_stale_buffer_witness:
  "\<exists>t u. rawread (image_bios two_disks) 0x80 2879 0 1024 0x8000 fresh_disk = Some (0, t) \<and>
    rawread (image_bios two_disks) 0x80 2862 0 512 0x8000 (t\<lparr>errnum := ERR_NONE\<rparr>) = Some (1, u) \<and>
    mem u 0x8000 = of_nat 2879 \<and> numbered 0x80 (2862 * 512) = of_nat 2862"
proof -
  have P: "image_present two_disks 0x80" "18 = sectors (image_geom two_disks 0x80)" "2880 = total_sectors (image_geom two_disks 0x80)"
    "(2 :: nat) \<le> 18" "18 dvd (2880 :: nat)" "0 < (2880 :: nat)" "buf_track fresh_disk \<noteq> int (2880 - 18)" "(1024 :: nat) \<le> 4096"
    by (simp_all add: fresh_disk_ok(1,3)) (simp add: fresh_disk_def)
  obtain t u where t: "rawread (image_bios two_disks) 0x80 (int (2880 - 1)) 0 1024 0x8000 fresh_disk = Some (0, t)"
    "rawread (image_bios two_disks) 0x80 (int (2880 - 18)) 0 512 0x8000 (t\<lparr>errnum := ERR_NONE\<rparr>) = Some (1, u)"
    "\<And>i. i < 512 \<Longrightarrow> mem u (0x8000 + of_nat i) = numbered 0x80 ((2880 - 1) * SECTOR_SIZE + i)"
    using rawread_stale_buffer [OF image_disk.sector_device_axioms [of two_disks] P(1-6) fresh_disk_ok(4) [folded fresh_disk_ok(5)] fresh_disk_ok(2) P(7)
      fresh_disk_ok(6) fresh_disk_ok(7) [OF P(8)]]
    unfolding fresh_disk_ok(5) by auto
  from t(3) [of 0] show ?thesis using t(1,2) by (auto simp: numbered_def)
qed

section \<open>A geometry that is not the drive's\<close>

text \<open>
  C38. A defect of the drive selection: asking for a hard disk that is not there stores what the failed BIOS call left in
  the geometry of the drive in use, clears its LBA flag, and keeps this drive selected. So the next read of the drive in use,
  which finds it selected, works with cylinders, heads and sectors that are not its own.
\<close>

theorem rawread_absent_drive:
  assumes "buf_drive s = d" "d' \<noteq> d" "0x80 \<le> d'" "d' < 0x88" "check_int13_extensions fw d' (world s) = 0"
    and "get_diskinfo_standard fw d' (world s) = (err, c, h, k)" "err \<noteq> 0" "errnum s = ERR_NONE" "0 < len"
  shows "\<exists>t. rawread fw d' sector off len buf s = Some (0, t) \<and> errnum t = ERR_NO_DISK \<and> buf_drive t = d \<and>
    buf_geom t = (buf_geom s)\<lparr>cylinders := c, heads := h, sectors := k, geo_flags := 0\<rparr> \<and>
    select_drive fw d (t\<lparr>errnum := ERR_NONE\<rparr>) = (True, t\<lparr>errnum := ERR_NONE\<rparr>)"
proof -
  let ?g = "(buf_geom s)\<lparr>cylinders := c, heads := h, sectors := k, geo_flags := 0\<rparr>"
  have "get_diskinfo fw d' (buf_geom s) (world s) = (err, ?g)"
    using assms(3-7) drive_bit [OF assms(3,4)] by (simp add: get_diskinfo_def Let_def)
  then have "select_drive fw d' s = (False, s\<lparr>buf_geom := ?g, errnum := ERR_NO_DISK\<rparr>)"
    using assms(1,2,7) by (simp add: select_drive_def)
  then have "rawread fw d' sector off len buf s = Some (0, s\<lparr>buf_geom := ?g, errnum := ERR_NO_DISK\<rparr>)"
    using assms(8,9) by (simp add: rawread_def rawread_loop.simps)
  then show ?thesis using assms(1) by (simp add: select_drive_def)
qed

theorem rawread_absent_drive_witness:
  "\<exists>t. rawread (image_bios two_disks) 0x85 0 0 512 0x8000 (fresh_disk\<lparr>buf_drive := 0x81, buf_geom := image_geom two_disks 0x81\<rparr>) = Some (0, t) \<and>
    buf_drive t = 0x81 \<and> sectors (buf_geom t) = 0"
proof -
  let ?s = "fresh_disk\<lparr>buf_drive := 0x81, buf_geom := image_geom two_disks 0x81\<rparr>"
  have "get_diskinfo_standard (image_bios two_disks) 0x85 w = (1, 1, 1, 0)" "check_int13_extensions (image_bios two_disks) 0x85 w = 0" for w
    by (simp_all add: image_bios_def two_disks_def)
  then obtain t where "rawread (image_bios two_disks) 0x85 0 0 512 0x8000 ?s = Some (0, t)"
    "buf_geom t = (buf_geom ?s)\<lparr>cylinders := 1, heads := 1, sectors := 0, geo_flags := 0\<rparr>"
    "buf_drive t = 0x81"
    using rawread_absent_drive [of ?s "0x81" "0x85" "image_bios two_disks" 1 1 1 0 512 0 0 "0x8000"] by (auto simp: fresh_disk_def)
  then show ?thesis by auto
qed

text \<open>A pending error stays when the memory check would accept the target.\<close>

lemma memmove_pending:
  assumes "fst (memcheck p n s)" "errnum t \<noteq> ERR_NONE" "mem_lower t = mem_lower s" "mem_upper t = mem_upper s"
  shows "snd (grub_memmove p q n t) = t"
proof -
  have "snd (memcheck p n t) = t" "\<not> fst (memcheck p n t)" using assms by (auto simp: memcheck_def Let_def split: if_splits)
  then show ?thesis by (simp add: grub_memmove_cases)
qed

lemma lba_track_fails:
  assumes "im d = Some x" "image_present im d" "im_lba x" "im_total x < T + im_sectors x" "T < im_total x"
    "im_cylinders x * im_heads x * im_sectors x \<le> T"
  shows "biosdisk (image_bios im) BIOSDISK_READ d (image_geom im d) (int T) (int (im_sectors x)) BUFFERSEG m =
    Some (BIOSDISK_ERROR_GEOMETRY, (image_geom im d)\<lparr>geo_flags := 0, total_sectors := im_cylinders x * im_heads x * im_sectors x\<rparr>, m)"
proof -
  have x: "image_ok x" using assms(1,2) by (simp add: image_present_def)
  let ?g = "image_geom im d"
  let ?g' = "?g\<lparr>geo_flags := 0, total_sectors := im_cylinders x * im_heads x * im_sectors x\<rparr>"
  have g: "geo_flags ?g = 1" "cylinders ?g = im_cylinders x" "heads ?g = im_heads x" "sectors ?g = im_sectors x"
    using assms(1,3) by (simp_all add: image_geom_def)
  have T: "T < 2 ^ 31" using assms(5) x by (simp add: image_ok_def)
  have w: "unat (word_of_int (int T) :: u64) = T" "unat (word_of_int (int (im_sectors x)) :: u16) = im_sectors x"
    using T x by (simp_all add: image_ok_def unat_of_nat)
  let ?dap = "\<lparr>dap_blocks = word_of_int (int (im_sectors x)), dap_buffer = push_bit 16 (word_of_int BUFFERSEG), dap_block = word_of_int (int T)\<rparr>"
  have ext: "int13_transfer (image_bios im) ((BIOSDISK_READ + 0x42) * 256) d ?dap m = (4, m)"
    using assms(1,3,4) w by (simp add: image_bios_def image_transfer_def split: prod.splits)
  have "chs_size ?g = im_cylinders x * im_heads x * im_sectors x" using g x by (simp add: chs_size_def image_ok_def)
  moreover have "biosdisk_chs (image_bios im) BIOSDISK_READ d ?g' (int T) (int (im_sectors x)) BUFFERSEG m = Some (BIOSDISK_ERROR_GEOMETRY, m)"
  proof -
    have pos: "0 < sectors ?g'" "0 < heads ?g'" using x g by (simp_all add: image_ok_def)
    have "\<not> int T < int (cylinders ?g' * heads ?g' * sectors ?g')" using assms(6) g by (simp flip: of_nat_mult)
    then show ?thesis using biosdisk_chs_triple [OF pos, of "int T" "image_bios im" BIOSDISK_READ d "int (im_sectors x)" BUFFERSEG m] T by auto
  qed
  ultimately show ?thesis unfolding biosdisk_def Let_def ext using g(1) by simp
qed

text \<open>
  C39. A defect of the fallback: on a disk with extensions whose number of sectors is no multiple of the track length, a read of
  one sector of the last, shorter track asks the BIOS for the whole track. A BIOS that refuses this makes \<open>biosdisk\<close> clear the LBA
  flag for good and work with cylinders, heads and sectors, which do not reach that far on a large disk: the sector, which is
  on the disk, cannot be read, and from then on the disk ends at the product of its geometry.
\<close>

theorem lba_last_track_lost:
  assumes "im d = Some x" "image_present im d" "im_lba x" "k < im_total x" "im_total x < k - k mod im_sectors x + im_sectors x"
    and "im_cylinders x * im_heads x * im_sectors x \<le> k - k mod im_sectors x" "0 < k" "buf_drive s \<noteq> d" "errnum s = ERR_NONE" "target_ok buf 512 s"
  shows "\<exists>t. rawread (image_bios im) d (int k) 0 512 buf s = Some (0, t) \<and> errnum t = ERR_GEOM \<and> buf_drive t = d \<and>
    total_sectors (buf_geom t) = im_cylinders x * im_heads x * im_sectors x \<and> geo_flags (buf_geom t) = 0"
proof -
  define n T where "n = im_sectors x" and "T = k - k mod n"
  have x: "image_ok x" using assms(1,2) by (simp add: image_present_def)
  have n: "0 < n" "n \<le> 63" using x by (simp_all add: image_ok_def n_def)
  have mod: "k mod n < n" "k mod n \<le> k" using n(1) by simp_all
  let ?g = "image_geom im d"
  let ?g' = "?g\<lparr>geo_flags := 0, total_sectors := im_cylinders x * im_heads x * im_sectors x\<rparr>"
  have g: "sectors ?g = n" "total_sectors ?g = im_total x" "sector_size ?g = 512"
    using assms(1) by (simp_all add: image_geom_def n_def)
  define s1 where "s1 = s\<lparr>buf_geom := ?g, buf_drive := d, buf_track := - 1\<rparr>"
  define s2 where "s2 = s1\<lparr>buf_geom := ?g', buf_track := - 1, errnum := ERR_GEOM\<rparr>"
  have select: "select_drive (image_bios im) d s = (True, s1)"
    using assms(8) image_info [OF assms(2)] by (simp add: select_drive_def s1_def)
  have "disk_bios (image_bios im) BIOSDISK_READ d (int T) (int n) BUFFERSEG s1 = Some (BIOSDISK_ERROR_GEOMETRY, s1\<lparr>buf_geom := ?g'\<rparr>)"
    using lba_track_fails [of im d x T "(mem s, world s)"] assms(1-6) mod unfolding disk_bios_def by (simp add: s1_def n_def T_def)
  moreover have ints: "int k mod int n = int (k mod n)" "int k - int (k mod n) = int T" using mod by (simp_all add: T_def of_nat_diff of_nat_mod)
  moreover have "\<not> 1 > int n - int (k mod n)" using mod by simp
  ultimately have fill: "fill_buffer (image_bios im) d (int k) 1 (int n) s1 = Some (int (k mod n), s2)"
    using assms(7) unfolding fill_buffer_def Let_def ints by (simp add: s2_def)
  define u where "u = (if disk_read_func s2 then s2\<lparr>hook_calls := hook_calls s2 @ read_calls (int k) 0 512 512\<rparr> else s2)"
  have fu: "errnum u = ERR_GEOM" "mem_lower u = mem_lower s" "mem_upper u = mem_upper s" "buf_geom u = ?g'" "buf_drive u = d"
    by (simp_all add: u_def s2_def s1_def)
  have "fst (memcheck buf (of_nat 512) s)" using target_okD(1) [OF assms(10), of 0 512] by simp
  then have move: "snd (grub_memmove buf q 512 u) = u" for q using memmove_pending [of buf 512 s u] fu by simp
  have pos: "(512 :: int) > 0 \<and> errnum s = ERR_NONE" using assms(9) by simp
  have inside: "\<not> (int k < 0 \<or> int k \<ge> int (total_sectors (buf_geom s1)))" using assms(4) g(2) by (simp add: s1_def)
  have ss: "sector_size (buf_geom s1) = 512" "sectors_per_vtrack (buf_geom s1) = int n" "int n \<noteq> 0"
    using g n image_disk.vtrack [OF assms(2)] by (simp_all add: s1_def)
  have miss: "int k - int k mod int n \<noteq> buf_track s1" unfolding ints by (simp add: s1_def)
  have slen: "(0 + 512 + 512 - 1) div 2 ^ 9 = (1 :: int)" by simp
  have count: "min 512 ((int n - int k mod int n) * 2 ^ 9 - 0) = (512 :: int)" using mod unfolding ints by simp
  have w: "word_of_int 512 = (512 :: u32)" by simp
  have "rawread_loop (image_bios im) d (int k) 0 512 buf s =
      rawread_loop (image_bios im) d (int k + (int n - int k mod int n)) 0 (512 - 512) (buf + 512) u"
    by (subst rawread_loop.simps, simp only: if_P [OF pos] select Let_def prod.case not_True_eq_False if_False if_not_P [OF inside] ss(1,2)
        log2_512 if_not_P [OF ss(3)] of_nat_numeral if_P [OF miss] slen fill bind.bind_lunit count u_def [symmetric] w move)
  also have "\<dots> = Some (0, u)" using fu(1) by (subst rawread_loop.simps) simp
  finally have "rawread (image_bios im) d (int k) 0 512 buf s = Some (0, u)" by (simp add: rawread_def)
  then show ?thesis using fu by simp
qed

text \<open>A disk of 640 sectors in tracks of 63, of which the geometry covers 252.\<close>

definition large_disk :: images where
  "large_disk d = (if d = 0x80 then Some \<lparr>im_cylinders = 2, im_heads = 2, im_sectors = 63, im_total = 640, im_lba = True\<rparr> else None)"

theorem lba_last_track_lost_witness:
  "\<exists>t. rawread (image_bios large_disk) 0x80 635 0 512 0x8000 fresh_disk = Some (0, t) \<and> errnum t = ERR_GEOM \<and>
    total_sectors (buf_geom t) = 252"
proof -
  have "image_present large_disk 0x80" by (simp add: image_present_def large_disk_def image_ok_def)
  then show ?thesis
    using lba_last_track_lost [of large_disk "0x80" "\<lparr>im_cylinders = 2, im_heads = 2, im_sectors = 63, im_total = 640, im_lba = True\<rparr>" 635 fresh_disk "0x8000"]
      fresh_disk_ok(6) fresh_disk_ok(7) [of 512] by (auto simp: large_disk_def fresh_disk_def)
qed

end
