(* ===== verification/GRUB_Partition_Props.thy ===== *)
theory GRUB_Partition_Props
  imports GRUB_Partitions GRUB_Disk_Props
begin

text \<open>
  Properties of the partition functions of \<open>GRUB_Partitions\<close>: reading through an opened partition, and what the functions
  that write to a partition table change.
\<close>

section \<open>A disk with logical partitions\<close>

text \<open>
  A table with a Linux partition and an extended one, which has two logical partitions. Only the bytes that are not zero
  are listed.
\<close>

definition table_bytes :: "(nat \<times> u8) list" where
  "table_bytes =
     [(446, 0x80), (450, 0x83), (454, 63), (458, 100), (466, 5), (470, 200), (475, 1), (510, 0x55), (511, 0xaa),
      (102850, 0x82), (102854, 1), (102858, 50), (102866, 5), (102870, 100), (102874, 62), (102910, 0x55), (102911, 0xaa),
      (154050, 0x83), (154054, 2), (154058, 60), (154110, 0x55), (154111, 0xaa)]"

definition table_disk :: "nat \<Rightarrow> u8" where
  "table_disk a = (case map_of table_bytes a of None \<Rightarrow> if a < 512 * 302 then 0 else of_nat (a div 512) | Some v \<Rightarrow> v)"

definition table_state :: "bytes parts" where
  "table_state = disk.extend (fresh_disk\<lparr>world := \<lambda>d. table_disk\<rparr>)
     \<lparr>current_partition = slice_word 5, current_slice = 0, saved_drive = 0x80, saved_partition = slice_word 0, cdrom_drive = 0xFF,
      bsd_evil_hack = 0, cur_part_offset = 0, cur_part_addr = 0, boot_part_addr = 0\<rparr>"

lemma table_disk_sector: "sector table_disk t p = table_disk (t * 512 + unat p)"
  by (simp add: sector_def)

lemmas table_fields = slice_type_at_def slice_start_def slice_length_def slice_at_def mbr_sig_def load32_def load16_def table_disk_sector

lemma four: "[0..<4] = [0, 1, 2, 3 :: nat]"
  by (simp add: upt_rec)

lemma table_values:
  "mbr_sig 0 (sector table_disk 0) = PC_MBR_SIGNATURE" "mbr_sig 0 (sector table_disk 200) = PC_MBR_SIGNATURE"
  "mbr_sig 0 (sector table_disk 300) = PC_MBR_SIGNATURE"
  "slice_start 0 1 (sector table_disk 0) = 200" "slice_start 0 1 (sector table_disk 200) = 100" "slice_start 0 0 (sector table_disk 300) = 2"
  "slice_length 0 0 (sector table_disk 300) = 60"
  by (simp_all add: table_fields table_disk_def table_bytes_def)

lemma table_types:
  "type_of table_disk (0, 0) = 0x83" "type_of table_disk (0, 1) = 5" "type_of table_disk (0, 2) = 0" "type_of table_disk (0, 3) = 0"
  "type_of table_disk (200, 0) = 0x82" "type_of table_disk (200, 1) = 5" "type_of table_disk (200, 2) = 0" "type_of table_disk (200, 3) = 0"
  "type_of table_disk (300, 0) = 0x83" "type_of table_disk (300, 1) = 0" "type_of table_disk (300, 2) = 0" "type_of table_disk (300, 3) = 0"
  by (simp_all add: type_of_def table_fields table_disk_def table_bytes_def)

lemma find_extended_types: "find_extended 0 (sector f t) = find (\<lambda>i. is_extended (type_of f (t, i))) [0, 1, 2, 3]"
  by (simp add: find_extended_def type_of_def four)

lemma table_disk_extended:
  "find_extended 0 (sector table_disk 0) = Some 1" "find_extended 0 (sector table_disk 200) = Some 1"
  "find_extended 0 (sector table_disk 300) = None"
  by (simp_all add: find_extended_types table_types [unfolded One_nat_def] is_extended_def)

lemma table_disk_chain: "table_chain table_disk 2880 0 0 [0, 200, 300]"
  using table_values by (simp add: table_chain.simps(2) table_disk_extended)

lemma table_disk_numbers: "listing table_disk (- 1) (entries [0, 200, 300]) =
    [(0, 0, 0), (1, 0, 1), (2, 0, 2), (3, 0, 3), (4, 200, 0), (4, 200, 1), (4, 200, 2), (4, 200, 3),
     (5, 300, 0), (5, 300, 1), (5, 300, 2), (5, 300, 3)]"
  using table_types by (simp add: number_def is_extended_def)

lemma table_disk_part: "find_part table_disk [0, 200, 300] 5 = Some (5, 300, 0)"
  unfolding find_part_def table_disk_numbers using table_types by simp

lemma table_disk_no_bsd: "\<forall>x\<in>set (entries [0, 200, 300]). \<not> is_bsd (type_of table_disk x)"
  using table_types by (simp add: is_bsd_def)

lemma table_disk_marks: "table_disk a = 0x55 \<Longrightarrow> a < 512 * 302 \<Longrightarrow> a \<in> {510, 102910, 154110}"
proof -
  assume a: "table_disk a = 0x55" "a < 512 * 302"
  then have "map_of table_bytes a = Some 0x55" by (simp add: table_disk_def split: option.splits)
  then have "(a, 0x55) \<in> set table_bytes" by (rule map_of_SomeD)
  then show ?thesis by (simp add: table_bytes_def)
qed

lemma table_disk_no_ezd: "no_ezd 18 table_disk"
  unfolding no_ezd_def slice_at_def
proof (intro allI impI notI)
  fix k i :: nat
  assume k: "k < 18" and i: "i < 4" and mark: "table_disk (k * 512 + (446 + i * 16) + 4) = 0x55"
  define a where "a = k * 512 + (446 + i * 16) + 4"
  have small: "a < 9217" using k i unfolding a_def by linarith
  then have "a < 512 * 302" by simp
  from table_disk_marks [OF mark [folded a_def] this] have "a = 510" using small by auto
  moreover define x where "x = k * 32 + i"
  ultimately have "x * 16 = 60" unfolding a_def by linarith
  then show False by presburger
qed

text \<open>\<open>table_state\<close> meets what the theorems ask for.\<close>

lemma table_state_ok:
  "walkable (\<lambda>w. image_geom two_disks) (\<lambda>w. image_present two_disks) (\<lambda>w. w) 0x80 0x8000 table_state"
proof -
  let ?s = table_state
  have f: "buf_drive ?s = - 1" "errnum ?s = errnum fresh_disk" "mem_lower ?s = mem_lower fresh_disk" "mem_upper ?s = mem_upper fresh_disk"
    by (simp_all add: table_state_def fresh_disk_def disk.defs)
  have "cached (\<lambda>w. image_geom two_disks) (\<lambda>w. image_present two_disks) (\<lambda>w. w) ?s"
    unfolding cached_def f by (simp add: image_present_def)
  moreover have "target_ok 0x8000 512 ?s"
    by (rule target_okI) (simp_all add: f fresh_disk_def)
  moreover have "world ?s = (\<lambda>d. table_disk)" by (simp add: table_state_def disk.defs)
  ultimately show ?thesis using fresh_disk_ok(1,3) table_disk_no_ezd f(2) by (simp add: walkable_def fresh_disk_def)
qed

lemma table_state_fields:
  "current_drive table_state = 0x80" "current_partition table_state = slice_word 5" "world table_state = (\<lambda>d. table_disk)"
  "mem_lower table_state = 640" "mem_upper table_state = 31744" "errnum table_state = ERR_NONE"
  by (simp_all add: table_state_def fresh_disk_def disk.defs)

lemma table_disk_small: "\<forall>(m, x)\<in>set (listing table_disk (- 1) (entries [0, 200, 300])). m < 255"
  unfolding table_disk_numbers by simp

theorem open_partition_finds_witness:
  "\<exists>t. open_partition (image_bios two_disks) 0x8000 (0, 0, 0) table_state = Some (1, t) \<and> part_start t = 302 \<and> part_length t = 60"
proof -
  have P: "0x80 AND 0x80 \<noteq> (0 :: int)" "0x80 AND 0xFFFFFF7F < (8 :: int) \<or> 0x80 = cdrom_drive table_state" "(0 :: int) \<le> 5" "(5 :: int) < 255"
    "table_disk = world table_state 0x80" "table_chain table_disk (total_sectors (image_geom two_disks 0x80)) 0 0 [0, 200, 300]"
    using table_disk_chain by (simp_all add: table_state_fields fresh_disk_ok(3))
  have "start_of table_disk (300, 0) = 302" "length_of table_disk (300, 0) = 60"
    using table_values by (simp_all add: start_of_def length_of_def)
  then show ?thesis
    using open_partition_finds [where geom = "\<lambda>w. image_geom two_disks" and present = "\<lambda>w. image_present two_disks" and content = "\<lambda>w. w"
        and s = table_state and d = "0x80" and f = table_disk and ts = "[0, 200, 300]" and k = 5, OF image_disk.sector_device_axioms [of two_disks] table_state_ok table_state_fields(1) P(1,2) table_state_fields(2)
        P(3-6) table_disk_no_bsd table_disk_small, of "(0, 0, 0)"] table_disk_part
    by (auto simp: opened_def)
qed

section \<open>Reading through an opened partition\<close>



section \<open>Making a partition active\<close>

lemma biosdisk_first:
  assumes "sector_device fw geom present content" "present (world s) d" "buf_geom s = geom (world s) d" "0 < total_sectors (geom (world s) d)"
  shows "disk_bios fw BIOSDISK_READ d 0 1 SCRATCHSEG s =
      Some (0, s\<lparr>mem := load_bytes SCRATCHADDR SECTOR_SIZE (\<lambda>i. content (world s) d i) (mem s)\<rparr>)"
    and "\<exists>w. disk_bios fw BIOSDISK_WRITE d 0 1 SCRATCHSEG s = Some (0, s\<lparr>world := w\<rparr>) \<and> geom w = geom (world s) \<and> present w = present (world s) \<and>
      content w = (content (world s))(d := \<lambda>i. if i < SECTOR_SIZE then mem s (SCRATCHADDR + of_nat i) else content (world s) d i)"
proof -
  show "disk_bios fw BIOSDISK_READ d 0 1 SCRATCHSEG s =
      Some (0, s\<lparr>mem := load_bytes SCRATCHADDR SECTOR_SIZE (\<lambda>i. content (world s) d i) (mem s)\<rparr>)"
    using sector_device.sector_read [OF assms(1,2), of 1 0 SCRATCHSEG "mem s"] assms(3,4) by (simp add: disk_bios_def)
  obtain w where w: "biosdisk fw BIOSDISK_WRITE d (geom (world s) d) (int 0) 1 SCRATCHSEG (mem s, world s) = Some (0, geom (world s) d, mem s, w)"
    "geom w = geom (world s)" "present w = present (world s)"
    "content w = (content (world s))(d := \<lambda>i. if i div SECTOR_SIZE = 0 then mem s (word_of_int (SCRATCHSEG * 16) + of_nat (i mod SECTOR_SIZE))
      else content (world s) d i)"
    using sector_device.sector_write [OF assms(1,2), of 0 SCRATCHSEG "mem s"] assms(4) by auto
  have "content w = (content (world s))(d := \<lambda>i. if i < SECTOR_SIZE then mem s (SCRATCHADDR + of_nat i) else content (world s) d i)"
    unfolding w(4) by (auto simp: fun_eq_iff div_eq_0_iff)
  then show "\<exists>w. disk_bios fw BIOSDISK_WRITE d 0 1 SCRATCHSEG s = Some (0, s\<lparr>world := w\<rparr>) \<and> geom w = geom (world s) \<and>
      present w = present (world s) \<and>
      content w = (content (world s))(d := \<lambda>i. if i < SECTOR_SIZE then mem s (SCRATCHADDR + of_nat i) else content (world s) d i)"
    using w(1-3) assms(3) by (intro exI [of _ w]) (simp add: disk_bios_def)
qed

text \<open>Writing the first sector from \<open>p\<close>, which is not in the scratch sector.\<close>

lemma rawwrite_first:
  assumes "sector_device fw geom present content" "present (world s) d" "buf_drive s = d" "cached geom present content s"
    and "0 < total_sectors (geom (world s) d)" "no_ezd 1 (content (world s) d)" "fst (memcheck SCRATCHADDR 512 s)" "no_wrap p 512"
    and "\<And>i. i < 512 \<Longrightarrow> \<not> in_region (p + of_nat i) SCRATCHADDR 512" "errnum s = ERR_NONE"
  shows "\<exists>t. rawwrite fw d 0 p s = Some (1, t) \<and> cached geom present content t \<and> errnum t = ERR_NONE \<and>
    content (world t) = (content (world s))(d := \<lambda>i. if i < SECTOR_SIZE then mem s (p + of_nat i) else content (world s) d i)"
proof -
  have g: "buf_geom s = geom (world s) d" using assms(2-4) by (simp add: cached_def)
  let ?r = "s\<lparr>mem := load_bytes SCRATCHADDR SECTOR_SIZE (content (world s) d) (mem s)\<rparr>"
  have read: "disk_bios fw BIOSDISK_READ d 0 1 SCRATCHSEG s = Some (0, ?r)"
    using biosdisk_first(1) [OF assms(1,2) g assms(5)] by simp
  have unmarked: "\<not> ezd_mark SCRATCHADDR (mem ?r)"
  proof (rule ezd_markI)
    fix i :: nat
    assume i: "i < 4"
    then have "slice_at i + 4 < SECTOR_SIZE" by (simp add: slice_at_def)
    then have "mem ?r (SCRATCHADDR + of_nat (slice_at i + 4)) = content (world s) d (slice_at i + 4)"
      using load_bytes_nth [of "slice_at i + 4" SECTOR_SIZE SCRATCHADDR "content (world s) d" "mem s"] by simp
    moreover have "content (world s) d (0 * SECTOR_SIZE + slice_at i + 4) \<noteq> PC_SLICE_TYPE_EZD"
      using assms(6) i unfolding no_ezd_def by blast
    ultimately show "mem ?r (SCRATCHADDR + of_nat (slice_at i + 4)) \<noteq> PC_SLICE_TYPE_EZD" by simp
  qed
  define u where "u = ?r\<lparr>mem := copied (mem ?r) SCRATCHADDR p 512\<rparr>"
  have "fst (memcheck SCRATCHADDR 512 ?r)" using assms(7) memcheck_same [of ?r s] by simp
  then have move: "snd (grub_memmove SCRATCHADDR p 512 ?r) = u"
    using grub_memmove_copied [of SCRATCHADDR 512 ?r p] assms(8) by (simp add: u_def no_wrap_def)
  have fu: "world u = world s" "buf_geom u = geom (world s) d" "buf_drive u = d" "buf_track u = buf_track s" "errnum u = ERR_NONE"
    using g assms(3,10) by (simp_all add: u_def)
  have scratch: "mem u (SCRATCHADDR + of_nat i) = mem s (p + of_nat i)" if "i < 512" for i
  proof -
    have "mem u (SCRATCHADDR + of_nat i) = mem ?r (p + of_nat i)" using that by (simp add: u_def copied_def in_region_def)
    then show ?thesis using assms(9) [OF that] by (simp add: load_bytes_outside)
  qed
  have out: "mem u a = mem s a" if "\<not> in_region a SCRATCHADDR 512" for a
    using that by (simp add: u_def copied_def load_bytes_outside)
  obtain w where w: "disk_bios fw BIOSDISK_WRITE d 0 1 SCRATCHSEG u = Some (0, u\<lparr>world := w\<rparr>)" "geom w = geom (world s)" "present w = present (world s)"
    "content w = (content (world s))(d := \<lambda>i. if i < SECTOR_SIZE then mem u (SCRATCHADDR + of_nat i) else content (world s) d i)"
    using biosdisk_first(2) [OF assms(1), of u d, unfolded fu(1,2), OF assms(2) refl assms(5)] by blast
  have sectors: "sectors (geom (world s) d) \<noteq> 0" "sectors (geom (world s) d) \<le> 63"
    using sector_device.geom_ok [OF assms(1,2)] by simp_all
  let ?t = "if 0 = buf_track u then u\<lparr>world := w, buf_track := - 1\<rparr> else u\<lparr>world := w\<rparr>"
  have "rawwrite fw d 0 p s = Some (1, ?t)"
    unfolding rawwrite_def using unmarked by (simp add: read move w(1) fu(2) sectors(1))
  moreover have "content w = (content (world s))(d := \<lambda>i. if i < SECTOR_SIZE then mem s (p + of_nat i) else content (world s) d i)"
    unfolding w(4) using scratch by (auto simp: fun_eq_iff)
  moreover have "cached geom present content ?t"
  proof (cases "buf_track u = 0 \<or> buf_track u = - 1")
    case True
    then show ?thesis using w(2,3) fu by (auto simp: cached_def)
  next
    case False
    have holds: "buffer_holds (sectors (geom (world s) d)) (content (world s) d) (buf_track s) (mem s)"
      using assms(2-4) False fu(4) g by (simp add: cached_def)
    then have pos: "0 < nat (buf_track s)" using False fu(4) by (simp add: buffer_holds_def)
    have "mem u (BUFFERADDR + of_nat i) = content w d (nat (buf_track s) * SECTOR_SIZE + i)"
      if "i < sectors (geom (world s) d) * SECTOR_SIZE" for i
    proof -
      have "i < BUFFERLEN" using that mult_le_mono1 [OF sectors(2), of SECTOR_SIZE] by simp
      then have "unat (BUFFERADDR + of_nat i - SCRATCHADDR) \<ge> 512" by (simp add: unat_sub_if' unat_word_ariths)
      then have "mem u (BUFFERADDR + of_nat i) = mem s (BUFFERADDR + of_nat i)" by (intro out) (simp add: in_region_def)
      moreover have "\<not> nat (buf_track s) * SECTOR_SIZE + i < SECTOR_SIZE" using pos by simp
      ultimately show ?thesis using holds that unfolding w(4) buffer_holds_def by simp
    qed
    then show ?thesis using False w(2,3) fu holds by (simp add: cached_def buffer_holds_def)
  qed
  ultimately show ?thesis using fu(5) by (intro exI [of _ ?t]) simp
qed

lemma read_first:
  assumes "sector_device fw geom present content" "walkable geom present content d buf s" "0 < total_sectors (geom (world s) d)"
  obtains u where "rawread fw d 0 0 512 buf s = Some (1, u)" "walkable geom present content d buf u" "keeps s u" "world u = world s"
    "holds_sector buf (content (world s) d) 0 (mem u)" "buf_drive u = d"
proof -
  obtain u where r: "rawread fw d (sint (of_nat 0 :: u32)) 0 512 buf s = Some (1, u)" "walkable geom present content d buf u" "keeps s u"
    "world u = world s" "holds_sector buf (content (world s) d) 0 (mem u)"
    by (rule sector_device.read_sector [OF assms])
  have u: "rawread fw d 0 0 512 buf s = Some (1, u)" using r(1) by simp
  note w = assms(2) [unfolded walkable_def]
  have "\<exists>t. rawread_loop fw d (int 0) (int 0) (int 512) buf s = Some (1, t) \<and>
      has_read (content (world s) d) (0 * SECTOR_SIZE + 0) buf 512 s t \<and> buf_drive t = d \<and> cached geom present content t"
    by (rule sector_device.rawread_loop_reads [OF assms(1) _ refl _ _ refl]) (use w assms(3) in \<open>auto simp: sector_device.ready_def [OF assms(1)]\<close>)
  then have "buf_drive u = d" using u by (auto simp: rawread_def)
  then show ?thesis by (rule that [OF u r(2-5)])
qed

text \<open>The sector after the flags are set.\<close>

definition active_bytes :: "nat \<Rightarrow> (nat \<Rightarrow> u8) \<Rightarrow> nat \<Rightarrow> u8" where
  "active_bytes part f i =
     (if i = slice_at part then PC_SLICE_FLAG_BOOTABLE else if i \<in> {slice_at 0, slice_at 1, slice_at 2, slice_at 3} then 0 else f i)"

definition set_flags :: "u32 \<Rightarrow> nat \<Rightarrow> ('w, 'e) parts_scheme \<Rightarrow> ('w, 'e) parts_scheme" where
  "set_flags p part s = set_byte (p + of_nat (slice_at part)) PC_SLICE_FLAG_BOOTABLE (for_up 4 (\<lambda>i. set_byte (p + of_nat (slice_at i)) 0) s)"

lemma for_up_4: "for_up 4 body s = body 3 (body 2 (body 1 (body 0 s)))"
  by (simp add: eval_nat_numeral for_up_Suc)

lemma keeps_parts:
  fixes s t :: "('w, 'e) parts_scheme"
  shows "keeps s t \<Longrightarrow> saved_drive t = saved_drive s" "keeps s t \<Longrightarrow> cur_part_addr t = cur_part_addr s"
    "keeps s t \<Longrightarrow> saved_partition t = saved_partition s" "keeps s t \<Longrightarrow> mem_lower t = mem_lower s"
    "keeps s t \<Longrightarrow> mem_upper t = mem_upper s"
  by (cases s, cases t, simp add: keeps_def)+

lemma set_flags_fields:
  "world (set_flags p part s) = world s" "buf_drive (set_flags p part s) = buf_drive s" "errnum (set_flags p part s) = errnum s"
  "mem_lower (set_flags p part s) = mem_lower s" "mem_upper (set_flags p part s) = mem_upper s"
  "saved_drive (set_flags p part s) = saved_drive s"
  by (simp_all add: set_flags_def set_byte_def for_up_4)

lemma set_flags_mem:
  "part < 4 \<Longrightarrow> i < 512 \<Longrightarrow> mem (set_flags p part s) (p + of_nat i) = active_bytes part (\<lambda>i. mem s (p + of_nat i)) i"
  "part < 4 \<Longrightarrow> \<not> in_region a p 512 \<Longrightarrow> mem (set_flags p part s) a = mem s a"
proof -
  assume part: "part < 4"
  have inj: "p + of_nat i = p + of_nat (slice_at j) \<longleftrightarrow> i = slice_at j" if "i < 512" "j < 4" for i j
    using offset_inject [of i "slice_at j" p] that by (simp add: slice_at_def)
  note set = set_flags_def set_byte_def for_up_4
  show "mem (set_flags p part s) (p + of_nat i) = active_bytes part (\<lambda>i. mem s (p + of_nat i)) i" if "i < 512"
    using inj [OF that, of 0] inj [OF that, of 1] inj [OF that, of 2] inj [OF that, of 3] inj [OF that part]
    unfolding set active_bytes_def by auto
  have out: "a \<noteq> p + of_nat (slice_at j)" if "\<not> in_region a p 512" "j < 4" for j
    using that by (auto simp: in_region_def slice_at_def unat_word_ariths)
  show "mem (set_flags p part s) a = mem s a" if "\<not> in_region a p 512"
    using out [OF that, of 0] out [OF that, of 1] out [OF that, of 2] out [OF that, of 3] out [OF that part] unfolding set by simp
qed

lemma set_flags_cached:
  assumes "sector_device fw geom present content" "present (world u) d" "buf_drive u = d" "cached geom present content u" "target_ok p 512 u" "part < 4"
  shows "cached geom present content (set_flags p part u)"
proof -
  have buffer: "mem (set_flags p part u) (BUFFERADDR + of_nat i) = mem u (BUFFERADDR + of_nat i)" if i: "i < BUFFERLEN" for i
  proof (rule set_flags_mem(2) [OF assms(6)], rule notI)
    assume "in_region (BUFFERADDR + of_nat i) p 512"
    then obtain j where j: "j < 512" "BUFFERADDR + of_nat i = p + of_nat j" by (rule in_regionE)
    then have "\<not> in_region (BUFFERADDR + of_nat i) BUFFERADDR BUFFERLEN" using target_okD(2) [OF assms(5)] by metis
    then show False using i by simp
  qed
  have shape: "set_flags p part u = u\<lparr>mem := mem (set_flags p part u), hook_calls := hook_calls (set_flags p part u)\<rparr>"
    by (simp add: set_flags_def set_byte_def for_up_4)
  show ?thesis
    by (rule sector_device.cached_fields [OF assms(1,4) _ shape buffer]) (use assms(2,3) in simp)
qed

text \<open>Writing the sector with the flags set, where \<open>p\<close> holds the first sector.\<close>

lemma rawwrite_flags:
  assumes "sector_device fw geom present content" "walkable geom present content d p u" "0 < total_sectors (geom (world u) d)" "buf_drive u = d"
    and "holds_sector p (content (world u) d) 0 (mem u)" "part < 4" "fst (memcheck SCRATCHADDR 512 u)"
    and "\<And>i. i < 512 \<Longrightarrow> \<not> in_region (p + of_nat i) SCRATCHADDR 512"
  shows "\<exists>t. rawwrite fw d 0 p (set_flags p part u) = Some (1, t) \<and> cached geom present content t \<and>
    content (world t) = (content (world u))(d := active_bytes part (content (world u) d))"
proof -
  let ?v = "set_flags p part u"
  let ?f = "content (world u) d"
  note w = assms(2) [unfolded walkable_def]
  have wrap: "no_wrap p 512" using w target_okD(3) by blast
  have cached: "cached geom present content ?v"
    by (rule set_flags_cached [OF assms(1) _ assms(4) _ _ assms(6)]) (use w in simp_all)
  have "0 < sectors (geom (world u) d)" using w sector_device.geom_ok [OF assms(1)] by simp
  then have ezd: "no_ezd 1 (content (world ?v) d)" using w unfolding no_ezd_def set_flags_fields(1) by (metis less_one)
  have "\<exists>t. rawwrite fw d 0 p ?v = Some (1, t) \<and> cached geom present content t \<and> errnum t = ERR_NONE \<and>
    content (world t) = (content (world ?v))(d := \<lambda>i. if i < SECTOR_SIZE then mem ?v (p + of_nat i) else content (world ?v) d i)"
    by (rule rawwrite_first [OF assms(1) _ _ cached _ ezd _ wrap assms(8)])
      (use w assms(3,4,7) memcheck_same [of ?v u] in \<open>simp_all add: set_flags_fields\<close>)
  moreover have "(\<lambda>i. if i < SECTOR_SIZE then mem ?v (p + of_nat i) else content (world ?v) d i) = active_bytes part ?f"
  proof
    fix i
    have "mem u (p + of_nat j) = ?f j" if "j < 512" for j using assms(5) that by (simp add: holds_sector_def)
    then show "(if i < SECTOR_SIZE then mem ?v (p + of_nat i) else content (world ?v) d i) = active_bytes part ?f i"
      using set_flags_mem(1) [OF assms(6), of i p u] assms(6) by (auto simp: active_bytes_def set_flags_fields(1) slice_at_def)
  qed
  ultimately show ?thesis by (auto simp: set_flags_fields(1))
qed

text \<open>
  C11. Activating a partition writes one thing: for a primary partition that is not extended, \<open>make_saved_active\<close> returns 1; if
  the partition was active already the disks are untouched, and otherwise the only bytes that differ on any disk are the four
  flags of the first sector, where the partition's is now \<open>0x80\<close> and the others are 0. The track buffer afterwards
  holds nothing that is out of date.
\<close>

theorem make_saved_active_flags:
  assumes "sector_device fw geom present content" "walkable geom present content d mbr s" "0 < total_sectors (geom (world s) d)"
    and "saved_drive s = d" "d AND 0x80 \<noteq> 0" "part = unat (drop_bit 16 (saved_partition s))" "part \<le> 3"
    and "f = content (world s) d" "\<not> is_extended (type_of f (0, part))"
    and "fst (memcheck SCRATCHADDR 512 s)" "\<And>i. i < 512 \<Longrightarrow> \<not> in_region (mbr + of_nat i) SCRATCHADDR 512"
  shows "\<exists>t. make_saved_active fw mbr s = Some (1, t) \<and> cached geom present content t \<and>
    content (world t) = (if f (slice_at part) = PC_SLICE_FLAG_BOOTABLE then content (world s) else (content (world s))(d := active_bytes part f))"
proof -
  obtain u where u: "rawread fw d 0 0 512 mbr s = Some (1, u)" "walkable geom present content d mbr u" "keeps s u" "world u = world s"
    "holds_sector mbr (content (world s) d) 0 (mem u)" "buf_drive u = d"
    by (rule read_first [OF assms(1-3)])
  have part: "part < 4" using assms(7) by simp
  have type: "\<not> is_extended (int (unat (slice_type_at mbr part (mem u))))"
    using assms(8,9) fields_sector(1) [OF u(5) part] by (simp add: type_of_def)
  have flag: "slice_flag mbr part (mem u) = f (slice_at part)"
    using u(5) part assms(8) unfolding holds_sector_def by (simp add: slice_flag_def slice_at_def flip: of_nat_add of_nat_mult)
  have "saved_drive u = d" using keeps_parts(1) [OF u(3)] assms(4) by simp
  then have call: "make_saved_active fw mbr s =
      (if f (slice_at part) \<noteq> PC_SLICE_FLAG_BOOTABLE
       then do { (r, s) \<leftarrow> rawwrite fw d 0 mbr (set_flags mbr part u); Some (if r = 0 then 0 else 1, s) } else Some (1, u))"
    unfolding make_saved_active_def Let_def
    using u(1) type flag set_flags_fields(6) [of mbr part u] assms(4,5,7) by (simp add: set_flags_def [symmetric] assms(6) [symmetric])
  have pos: "0 < total_sectors (geom (world u) d)" "holds_sector mbr (content (world u) d) 0 (mem u)" "fst (memcheck SCRATCHADDR 512 u)"
    using assms(2,3,10) u(2,4,5) keeps_parts(4,5) [OF u(3)] memcheck_same [of u s] by (simp_all add: walkable_def)
  obtain t where "rawwrite fw d 0 mbr (set_flags mbr part u) = Some (1, t)" "cached geom present content t"
    "content (world t) = (content (world s))(d := active_bytes part f)"
    using rawwrite_flags [OF assms(1) u(2) pos(1) u(6) pos(2) part pos(3) assms(11)] u(4) assms(8) by auto
  then show ?thesis using call u(2,4) by (auto simp: walkable_def)
qed

lemma table_state_walkable:
  assumes "world s = world table_state" "errnum s = ERR_NONE" "buf_drive s = - 1" "mem_lower s = 640" "mem_upper s = 31744" "target_ok buf 512 s"
  shows "walkable (\<lambda>w. image_geom two_disks) (\<lambda>w. image_present two_disks) (\<lambda>w. w) 0x80 buf s"
proof -
  have "cached (\<lambda>w. image_geom two_disks) (\<lambda>w. image_present two_disks) (\<lambda>w. w) s"
    unfolding cached_def assms(3) by (simp add: image_present_def)
  then show ?thesis using assms fresh_disk_ok(1,3) table_disk_no_ezd by (simp add: walkable_def table_state_fields)
qed

lemma table_state_drive: "buf_drive table_state = - 1"
  by (simp add: table_state_def fresh_disk_def disk.defs)

lemma scratch_ok:
  assumes "errnum s = ERR_NONE" "mem_lower s = 640" "mem_upper s = 31744"
  shows "target_ok SCRATCHADDR 512 s"
proof -
  have shift: "unat (SCRATCHADDR + of_nat i) = 0x77e00 + i" if "i \<le> 512" for i
    using that by (simp add: unat_word_ariths)
  have "fst (memcheck (SCRATCHADDR + of_nat i) (of_nat k) s)" if "i + k \<le> 512" for i k
  proof -
    have "unat (of_nat k :: u32) = k" using that by simp
    then show ?thesis
      using memcheck_usable [OF assms(1), of "SCRATCHADDR + of_nat i" k "of_nat k"] assms(2,3) shift [of i] that by (simp add: usable_block_def)
  qed
  moreover have "\<not> in_region (SCRATCHADDR + of_nat i) BUFFERADDR BUFFERLEN" if "i < 512" for i
  proof -
    have "SCRATCHADDR + of_nat i - BUFFERADDR = (of_nat (BUFFERLEN + i) :: u32)" by simp
    moreover have "unat (of_nat (BUFFERLEN + i) :: u32) = BUFFERLEN + i" using that by (intro unat_of_nat_u32) simp
    ultimately show ?thesis by (simp add: in_region_def)
  qed
  ultimately show ?thesis by (simp add: target_ok_def no_wrap_def)
qed

theorem make_saved_active_flags_witness:
  "\<exists>t. make_saved_active (image_bios two_disks) 0x8000 (table_state\<lparr>saved_partition := slice_word 2\<rparr>) = Some (1, t) \<and>
    world t 0x80 446 = 0 \<and> world t 0x80 478 = 0x80"
proof -
  let ?s = "table_state\<lparr>saved_partition := slice_word 2\<rparr>"
  have f: "saved_drive ?s = 0x80" "world ?s 0x80 = table_disk" by (simp_all add: table_state_def fresh_disk_def disk.defs)
  have part: "2 = unat (drop_bit 16 (saved_partition ?s))" by (simp add: slice_word_def)
  have P: "0 < total_sectors (image_geom two_disks 0x80)" "0x80 AND 0x80 \<noteq> (0 :: int)" "(2 :: nat) \<le> 3"
    "table_disk = world ?s 0x80" "\<not> is_extended (type_of table_disk (0, 2))" "fst (memcheck SCRATCHADDR 512 ?s)"
    using f table_types target_okD(1) [OF scratch_ok, of ?s 0 512]
    by (simp_all add: fresh_disk_ok(3) is_extended_def table_state_fields)
  have w: "walkable (\<lambda>w. image_geom two_disks) (\<lambda>w. image_present two_disks) (\<lambda>w. w) 0x80 0x8000 ?s"
    by (rule table_state_walkable) (simp_all add: table_state_fields table_state_drive target_okI)
  have apart: "\<not> in_region (0x8000 + of_nat i) SCRATCHADDR 512" if "i < 512" for i
  proof -
    have a: "unat (0x8000 + of_nat i :: u32) = 0x8000 + i" using that by (simp add: unat_word_ariths)
    show ?thesis unfolding in_region_def unat_sub_if' a using that by simp
  qed
  obtain t where t: "make_saved_active (image_bios two_disks) 0x8000 ?s = Some (1, t)"
    "world t = (if table_disk (slice_at 2) = 0x80 then world ?s else (world ?s)(0x80 := active_bytes 2 table_disk))"
    using make_saved_active_flags [where geom = "\<lambda>w. image_geom two_disks" and present = "\<lambda>w. image_present two_disks" and content = "\<lambda>w. w"
      and s = ?s and d = "0x80" and f = table_disk and part = 2, OF image_disk.sector_device_axioms [of two_disks] w P(1) f(1) P(2) part P(3-6) apart]
    by blast
  have "table_disk (slice_at 2) = 0" by (simp add: slice_at_def table_disk_def table_bytes_def)
  then have "world t 0x80 i = active_bytes 2 table_disk i" for i unfolding t(2) by simp
  then show ?thesis using t(1) by (simp add: active_bytes_def slice_at_def)
qed

section \<open>The copy of the partition table for chain-loading\<close>

abbreviation (input) table_source :: u32 where "table_source \<equiv> 0x77fbe"

lemma copy_table:
  "n \<le> 0x40 \<Longrightarrow> for_up n (\<lambda>i s. set_byte (BOOT_PART_TABLE + of_nat i) (mem s (table_source + of_nat i)) s) s =
    s\<lparr>mem := \<lambda>a. if in_region a BOOT_PART_TABLE n then mem s (table_source + (a - BOOT_PART_TABLE)) else mem s a\<rparr>"
proof (induction n)
  case 0
  then show ?case by (simp add: in_region_def)
next
  case (Suc n)
  have n: "unat (of_nat n :: u32) = n" using Suc.prems by simp
  have source: "\<not> in_region (table_source + of_nat n) BOOT_PART_TABLE n"
  proof -
    have a: "unat (table_source + of_nat n :: u32) = 491454 + n" using n Suc.prems by (simp add: unat_word_ariths)
    show ?thesis unfolding in_region_def unat_sub_if' a using Suc.prems by simp
  qed
  have step: "in_region a BOOT_PART_TABLE (Suc n) \<longleftrightarrow> in_region a BOOT_PART_TABLE n \<or> a = BOOT_PART_TABLE + of_nat n" for a
  proof -
    have "unat (a - BOOT_PART_TABLE) = n \<longleftrightarrow> a - BOOT_PART_TABLE = of_nat n" using n by (metis of_nat_unat_u32)
    then show ?thesis unfolding in_region_def by (auto simp: less_Suc_eq diff_eq_eq add.commute)
  qed
  define m where "m = (\<lambda>a. if in_region a BOOT_PART_TABLE n then mem s (table_source + (a - BOOT_PART_TABLE)) else mem s a)"
  have eq: "m(BOOT_PART_TABLE + of_nat n := m (table_source + of_nat n)) =
      (\<lambda>a. if in_region a BOOT_PART_TABLE (Suc n) then mem s (table_source + (a - BOOT_PART_TABLE)) else mem s a)"
    using source step by (auto simp: fun_eq_iff m_def)
  have "for_up n (\<lambda>i s. set_byte (BOOT_PART_TABLE + of_nat i) (mem s (table_source + of_nat i)) s) s = s\<lparr>mem := m\<rparr>"
    using Suc by (simp add: m_def)
  then show ?case unfolding for_up_Suc eq [symmetric] by (simp add: set_byte_def)
qed

text \<open>
  C40. A defect of the preparation for chain-loading: \<open>set_bootdev\<close> means to clear the active flags of the copied table before it
  sets that of the booted partition, but the macro adds the offset of the table a second time. The flags of the other
  entries stay as they are on the disk, so after booting a partition that was not active two entries are marked.
\<close>

theorem set_bootdev_flags:
  assumes "sector_device fw geom present content" "walkable geom present content d SCRATCHADDR s" "off < total_sectors (geom (world s) d)"
    and "saved_drive s = d" "d AND 0x80 \<noteq> 0" "cur_part_offset s = of_nat off" "e < 4" "cur_part_addr s = BOOT_PART_TABLE + of_nat (16 * e)"
  shows "\<exists>v t. set_bootdev fw hdbias s = Some (v, t) \<and> boot_part_addr t = cur_part_addr s \<and>
    (\<forall>i<4. mem t (BOOT_PART_TABLE + of_nat (16 * i)) =
      (if i = e then PC_SLICE_FLAG_BOOTABLE else content (world s) d (off * SECTOR_SIZE + slice_at i)))"
proof -
  obtain u where u: "rawread fw d (sint (of_nat off :: u32)) 0 512 SCRATCHADDR s = Some (1, u)" "keeps s u"
    "holds_sector SCRATCHADDR (content (world s) d) off (mem u)"
    using sector_device.read_sector [OF assms(1-3)] by blast
  define c where "c = u\<lparr>mem := \<lambda>a. if in_region a BOOT_PART_TABLE 0x40 then mem u (table_source + (a - BOOT_PART_TABLE)) else mem u a\<rparr>"
  define t where "t = (set_byte (cur_part_addr s) PC_SLICE_FLAG_BOOTABLE (for_up 4 (\<lambda>i. set_byte (BOOT_PART_TABLE + of_nat (slice_at i)) 0) c))
    \<lparr>boot_part_addr := cur_part_addr s\<rparr>"
  have addr: "cur_part_addr s \<noteq> 0"
  proof -
    have "e \<in> {0, 1, 2, 3}" using assms(7) by auto
    then show ?thesis unfolding assms(8) by auto
  qed
  have hard: "saved_drive s AND 0x80 \<noteq> 0 \<and> cur_part_addr s \<noteq> 0" using assms(4,5) addr by simp
  have "cur_part_addr (for_up 4 (\<lambda>i. set_byte (BOOT_PART_TABLE + of_nat (slice_at i)) 0) c) = cur_part_addr s"
    using keeps_parts(2) [OF u(2)] by (simp add: for_up_4 set_byte_def c_def)
  moreover have "for_up 0x40 (\<lambda>i s. set_byte (BOOT_PART_TABLE + of_nat i) (mem s (SCRATCHADDR + 0x1BE + of_nat i)) s) u = c"
    using copy_table [of "0x40" u] by (simp add: c_def)
  ultimately have call: "\<exists>v. set_bootdev fw hdbias s = Some (v, t)"
    using assms(4-6) addr u(1) keeps_parts(2) [OF u(2)]
    by (simp add: set_bootdev_def Let_def t_def set_byte_def [of _ "0x80"])
  have flag: "mem t (BOOT_PART_TABLE + of_nat (16 * i)) =
      (if i = e then PC_SLICE_FLAG_BOOTABLE else content (world s) d (off * SECTOR_SIZE + slice_at i))" if i: "i < 4" for i
  proof -
    have inj: "BOOT_PART_TABLE + of_nat (16 * i) = cur_part_addr s \<longleftrightarrow> i = e"
      using offset_inject [of "16 * i" "16 * e" BOOT_PART_TABLE] i assms(7) unfolding assms(8) by simp
    have other: "BOOT_PART_TABLE + of_nat (16 * i) \<noteq> BOOT_PART_TABLE + of_nat (slice_at j)" if "j < 4" for j
      using offset_inject [of "16 * i" "slice_at j" BOOT_PART_TABLE] i that by (simp add: slice_at_def)
    have "in_region (BOOT_PART_TABLE + of_nat (16 * i)) BOOT_PART_TABLE 0x40"
      using in_region_offset [of "16 * i" BOOT_PART_TABLE "0x40"] i by simp
    then have "mem c (BOOT_PART_TABLE + of_nat (16 * i)) = mem u (table_source + of_nat (16 * i))" by (simp add: c_def)
    also have "\<dots> = mem u (SCRATCHADDR + of_nat (slice_at i))" by (simp add: slice_at_def mult.commute)
    also have "\<dots> = content (world s) d (off * SECTOR_SIZE + slice_at i)"
    proof -
      have "slice_at i < SECTOR_SIZE" using i by (simp add: slice_at_def)
      then show ?thesis using u(3) unfolding holds_sector_def by blast
    qed
    finally show ?thesis
      using inj other [of 0] other [of 1] other [of 2] other [of 3] by (simp add: t_def set_byte_def for_up_4)
  qed
  from call obtain v where "set_bootdev fw hdbias s = Some (v, t)" by blast
  then show ?thesis using flag by (intro exI [of _ v] exI [of _ t]) (simp add: t_def)
qed

theorem set_bootdev_flags_witness:
  "\<exists>v t. set_bootdev (image_bios two_disks) 0 (table_state\<lparr>cur_part_addr := 0x7de\<rparr>) = Some (v, t) \<and> mem t 0x7be = 0x80 \<and> mem t 0x7ce = 0 \<and>
    mem t 0x7de = 0x80"
proof -
  let ?s = "table_state\<lparr>cur_part_addr := 0x7de\<rparr>"
  have f: "saved_drive ?s = 0x80" "world ?s 0x80 = table_disk" "cur_part_offset ?s = of_nat 0" "cur_part_addr ?s = BOOT_PART_TABLE + of_nat (16 * 2)"
    by (simp_all add: table_state_def fresh_disk_def disk.defs)
  have P: "0 < total_sectors (image_geom two_disks 0x80)" "0x80 AND 0x80 \<noteq> (0 :: int)" "(2 :: nat) < 4" by (simp_all add: fresh_disk_ok(3))
  have w: "walkable (\<lambda>w. image_geom two_disks) (\<lambda>w. image_present two_disks) (\<lambda>w. w) 0x80 SCRATCHADDR ?s"
    by (rule table_state_walkable) (simp_all add: table_state_fields table_state_drive scratch_ok)
  obtain v t where t: "set_bootdev (image_bios two_disks) 0 ?s = Some (v, t)"
    "\<And>i. i < 4 \<Longrightarrow> mem t (BOOT_PART_TABLE + of_nat (16 * i)) = (if i = 2 then 0x80 else world ?s 0x80 (0 * SECTOR_SIZE + slice_at i))"
    using set_bootdev_flags [where geom = "\<lambda>w. image_geom two_disks" and present = "\<lambda>w. image_present two_disks" and content = "\<lambda>w. w"
      and s = ?s and d = "0x80" and off = 0 and e = 2, OF image_disk.sector_device_axioms [of two_disks] w P(1) f(1) P(2) f(3) P(3) f(4)]
    by blast
  have "table_disk (slice_at 0) = 0x80" "table_disk (slice_at 1) = 0" by (simp_all add: slice_at_def table_disk_def table_bytes_def)
  then show ?thesis using t(1) t(2) [of 0] t(2) [of 1] t(2) [of 2] f(2) by auto
qed

end
