(* ===== verification/Spec2Isabelle.thy ===== *)
theory Spec2Isabelle
  imports Kernel KC_Main EFI_Main GRUB_Builtins GRUB_Inflate_Props GRUB_Inflate_Total GRUB_Partition_Props
begin

text \<open>
  A verification development of SzOS: three small kernels, the C library that one of them is built with, and the
  boot loader GRUB 0.97 that the repository carries to start them. The theories follow the sources; every
  definition keeps the name of the C function, type or table that it translates, and the theories say where the
  translation had to choose.

  \<^bold>\<open>The parts and how they meet.\<close>

  \<^item> \<^bold>\<open>The C library\<close>, \<^verbatim>\<open>src/libc\<close>. \<open>Libc_String\<close> has the block and string routines over a flat memory of
    bytes; \<open>Libc_Stdio\<close> has \<open>printf\<close>, \<open>puts\<close>, \<open>putchar\<close> and \<open>abort\<close> as built into the kernel, over any device that
    takes characters.
  \<^item> \<^bold>\<open>The i386 kernel\<close>, \<^verbatim>\<open>src/legacy/kernel\<close>. \<open>Port_IO\<close> (\<^verbatim>\<open>io.h\<close>), \<open>Tty\<close> (\<^verbatim>\<open>tty.c\<close>, \<^verbatim>\<open>vga.h\<close>), \<open>Idt\<close>, \<open>Pic\<close>, \<open>Isr\<close>
    (\<^verbatim>\<open>idt.c\<close>, \<^verbatim>\<open>pic.c\<close>, \<^verbatim>\<open>isr.c\<close>, \<^verbatim>\<open>irq.c\<close>, \<^verbatim>\<open>interrupts.c\<close>), \<open>Keyboard\<close> (\<^verbatim>\<open>keyboard.c\<close>) and \<open>Kernel\<close>
    (\<^verbatim>\<open>kernel.c\<close>), which composes them: \<open>kernel_main\<close> brings up the terminal, the descriptor table and the controllers,
    switches interrupts on and idles. An interrupt enters through the descriptor table to the dispatcher, which calls
    the keyboard's handler and acknowledges the controllers.
  \<^item> \<^bold>\<open>The tutorial kernel\<close>, \<^verbatim>\<open>src/legacy/kernel-c\<close>: \<open>KC_Util\<close>, \<open>KC_Screen\<close>, \<open>KC_Heap\<close>, \<open>KC_Interrupts\<close>, \<open>KC_Main\<close>.
  \<^item> \<^bold>\<open>The UEFI program\<close>, \<^verbatim>\<open>src/efi-boot\<close>: \<open>EFI_Memory\<close>, \<open>EFI_Graphics\<close>, \<open>EFI_Interrupts\<close>, \<open>EFI_Main\<close>. The firmware's
    answers are a parameter.
  \<^item> \<^bold>\<open>The boot loader\<close>, \<^verbatim>\<open>src/legacy/SZoS/grub-0.97/stage2\<close>, in four layers.
    Characters: \<open>GRUB_Strings\<close>, \<open>GRUB_Memory\<close>, \<open>GRUB_Terminal\<close> and \<open>GRUB_Cmdline\<close> (\<^verbatim>\<open>char_io.c\<close>, error messages of
    \<^verbatim>\<open>common.c\<close>), \<open>GRUB_Hercules\<close> (\<^verbatim>\<open>hercules.c\<close>, \<^verbatim>\<open>console.c\<close>). Commands: \<open>GRUB_Commands\<close> (\<^verbatim>\<open>cmdline.c\<close> and the table of
    builtins), \<open>GRUB_Slots\<close> and \<open>GRUB_Builtins\<close> (\<^verbatim>\<open>builtins.c\<close>), \<open>GRUB_MD5\<close> (\<^verbatim>\<open>md5.c\<close>) for passwords.
    Decompression (\<^verbatim>\<open>gunzip.c\<close>, and \<open>grub_read\<close> of \<^verbatim>\<open>disk_io.c\<close>): \<open>GRUB_Huft\<close> with \<open>GRUB_Huft_Tables\<close>, \<open>GRUB_Huft_Decode\<close> and
    \<open>GRUB_Huft_Codes\<close> for the decoding tables, \<open>GRUB_Bits\<close> for the bit buffer, \<open>GRUB_Gunzip\<close> for everything else, \<open>GRUB_Inflate\<close>,
    \<open>GRUB_Stored\<close>, \<open>GRUB_Inflate_Props\<close> and \<open>GRUB_Inflate_Total\<close> for what is proved.
    Disks: \<open>GRUB_Bios\<close> (\<^verbatim>\<open>bios.c\<close>), \<open>GRUB_Disk\<close> with \<open>GRUB_Disk_Props\<close> (reading and writing in \<^verbatim>\<open>disk_io.c\<close>),
    \<open>GRUB_Partitions\<close> with \<open>GRUB_Partition_Props\<close> (partitions in \<^verbatim>\<open>disk_io.c\<close>, \<^verbatim>\<open>pc_slice.h\<close>). \<open>open_partition\<close> walks the tables
    with \<open>rawread\<close>, which goes through the track buffer to \<open>biosdisk\<close>; \<open>devread\<close> then reads relative to the partition.

  \<^bold>\<open>State and operations.\<close> \<open>C_Machine\<close> is the prelude: words of 8 to 64 bits, byte memory with little-endian access,
  C loops as iterators, and the record \<open>machine\<close> of memory and port history that every component's record extends by
  its own static variables. An operation takes the state and returns it; a pointer is an address, or for the string
  routines the list of bytes from it on. What a device answers to a read is a parameter over the history of accesses, so
  drivers are proved for every device or under the contract of a particular one.

  Contracts between components are locales: character sinks for the formatted output, mask controllers, gate tables, a bounded
  queue for the keyboard buffers, a bump allocator and a translation table (\<open>Interfaces\<close>), the interrupt and display controllers
  as devices (\<open>Port_IO\<close>, \<open>KC_Screen\<close>), a source of bytes for the bit buffer (\<open>GRUB_Bits\<close>) and a device of sectors for the track buffer
  (\<open>GRUB_Bios\<close>). Each is interpreted in the theory of its provider, and the clients' lemmas are proved once under it. The provider of
  sectors is the machine's BIOS, which is not part of the sources: the interpretation is a BIOS over disk images.

  \<^bold>\<open>What is shown.\<close>

  \<^item> Functional results: block copies for overlapping regions, the terminal's screen as a function of the text written,
    formatted output equal to a reference rendering, number conversions, MD5 equal to RFC 1321, pictures and glyphs,
    decoding tables that find the code words of RFC 1951, blocks of codes that expand to the literals and matches they
    spell, partitions found by number.
  \<^item> Refinements: the terminal against a text screen, the keyboard ring buffer against a queue, the command line editor
    against a pair of text and cursor, buffered reading against the file, and the track buffer and the partitions
    against the bytes of the disk.
  \<^item> Invariants: cursors stay on the screen, the heap's blocks are disjoint, the animated box stays visible, the pager
    stops once for every page of lines, as a terminal that records its events sees it.
  \<^item> Set-up: which gates the descriptor tables hold, which vectors and masks the controllers have, that handlers
    acknowledge.
  \<^item> Round trips: numbers printed and parsed, passwords made and checked, a compressed file read back.
  \<^item> Termination and its failure: which waits return and under which behaviour of the device; inflating the codes of a block
    with complete codes returns for every file.
  \<^item> Errors: writes behind a buffer, unchecked allocation, masked timers, a track buffer that does not hold its track, a drive
    that loses its extensions, flags that are not cleared; each is a theorem about the code as it is.

  \<^bold>\<open>Bounds and fuel.\<close> No fuel is used. Loops over data are structural or have a measure; a loop that waits for a
  device or a key is \<^theory_text>\<open>partial_function (option)\<close> where not returning is \<^const>\<open>None\<close>. Arithmetic is on words of the
  source's width or on \<^typ>\<open>int\<close> with the wrap-around written out.

  \<^bold>\<open>Not modelled.\<close> Assembly (boot sectors, interrupt stubs, \<^verbatim>\<open>asm.S\<close>, \<^verbatim>\<open>start.S\<close>): its effect on the C state is written
  out where C code relies on it, and the BIOS calls of \<^verbatim>\<open>asm.S\<close> are a parameter. The picture and the font of the UEFI library, and
  \<open>write_data\<close>, which the sources only declare, are parameters. Of the boot loader: the file systems (their read function is a
  parameter of the decompressor, the bytes of the file), block-list files, the parsing of device names, mounting, completions and the
  printing of partitions; of the builtin commands those that read files, load kernels or drive hardware; loading of kernels,
  the menu, the serial terminal, the network drivers and the programs that run under an operating system. In \<open>gunzip.c\<close> the
  addresses of the allocator are numbers of tables; in \<open>devread\<close> the output for debugging is left out. Build scripts,
  configuration and images are not programs of the C language.

  \<^bold>\<open>Simplifications.\<close> An interrupt of the i386 kernel takes its gate from the table of the kernel, whatever table the
  register \<open>idtr\<close> names; that \<open>lidt\<close> loads this table is shown separately. \<open>my_malloc\<close> takes the memory map as a list of descriptors, so
  the size of a descriptor in the firmware's buffer does not appear. \<open>memcpy\<close> and \<open>memset\<close> of the boot loader do nothing while an error is
  pending; the digest functions of \<open>md5.c\<close> are modelled without a pending error. \<open>grub_read\<close> of a file that is not compressed copies its bytes at once, not block by
  block, and \<open>delete_slot\<close> moves the rest of its table without the check of the memory bounds. \<open>open_partition\<close> is
  \<open>real_open_partition\<close> for opening, without the output of partitions for completions.
\<close>

end
